(* ===== verification/Prelude.thy ===== *)
theory Prelude
  imports Main "HOL-Library.Word"
begin

text \<open>
  Prelude of the development: the collections that carry the component proofs and the
  generic facts on lists, options and fixed-width words that several components share.
  Nothing here mentions the program.
\<close>

unbundle bit_operations_syntax

named_theorems term_word_simps \<open>field accessors of packed terms\<close>
named_theorems heap_simps \<open>reads after writes and allocations\<close>

subsection \<open>Lists\<close>

lemma list_all2_same_iff: "list_all2 (\<lambda>x y. x = y) xs ys \<longleftrightarrow> xs = ys"
  by (simp add: list.rel_eq)

lemma list_all2_eq_cong:
  assumes "\<And>x y. x \<in> set xs \<Longrightarrow> P x y \<longleftrightarrow> x = y"
  shows "list_all2 P xs ys \<longleftrightarrow> xs = ys"
  using assms
proof (induction xs arbitrary: ys)
  case Nil
  then show ?case by auto
next
  case (Cons x xs)
  then show ?case by (cases ys) auto
qed

lemma map_eq_self_iff: "map f xs = xs \<longleftrightarrow> (\<forall>x \<in> set xs. f x = x)"
  by (metis map_eq_conv map_idI list.map_ident)

lemma size_list_member: "x \<in> set xs \<Longrightarrow> f x \<le> size_list f xs"
  by (induction xs) auto

lemma sum_list_member_le: "x \<in> set xs \<Longrightarrow> f x \<le> sum_list (map f xs)" for f :: "'a \<Rightarrow> nat"
  by (rule member_le_sum_list) auto

lemma list_update_map_nth:
  "i < length xs \<Longrightarrow> map f (xs[i := x]) = (map f xs)[i := f x]"
  by (simp add: map_update)

subsection \<open>Options\<close>

lemma option_bind_Some_conv:
  "Option.bind x f = Some y \<longleftrightarrow> (\<exists>a. x = Some a \<and> f a = Some y)"
  by (cases x) auto

lemma if_Some_eq: "(if b then Some x else None) = Some y \<longleftrightarrow> b \<and> x = y"
  by auto

lemma map_le_upd_None: "m \<subseteq>\<^sub>m n \<Longrightarrow> n x = None \<Longrightarrow> m \<subseteq>\<^sub>m n(x \<mapsto> t)"
  unfolding map_le_def by (metis domIff fun_upd_apply)

subsection \<open>Words\<close>

lemma take_bit_word_id: "unat w < 2 ^ n \<Longrightarrow> take_bit n w = w" for w :: "'a::len word"
  by (simp add: word_unat_eq_iff unsigned_take_bit_eq take_bit_nat_eq_self)

lemma bit_word_beyond: "LENGTH('a) \<le> n \<Longrightarrow> \<not> bit w n" for w :: "'a::len word"
  by (auto dest: bit_imp_le_length)

end
