(* ===== verification/Term_Word.thy ===== *)
theory Term_Word
  imports Prelude
begin

text \<open>
  Packed terms (src/thvm.h bit layout, src/term/new.c, tag.c, ext.c, val.c, sub/get.c,
  sub/set.c). A Term is one 64-bit word: bit 63 is the substitution flag, bits 62..56 the tag,
  bits 55..38 the ext field and bits 37..0 the value (a heap location). Every accessor is the
  source's shift-and-mask expression; the theorems say that packing and unpacking are inverse
  up to the masks, field by field.
\<close>

type_synonym u8 = "8 word"
type_synonym u32 = "32 word"
type_synonym u64 = "64 word"
type_synonym term_w = "64 word"

subsection \<open>The layout constants\<close>

definition SUB_SHIFT :: nat where "SUB_SHIFT = 63"
definition TAG_SHIFT :: nat where "TAG_SHIFT = 56"
definition EXT_SHIFT :: nat where "EXT_SHIFT = 38"
definition SUB_MASK :: u64 where "SUB_MASK = 0x1"
definition TAG_MASK :: u64 where "TAG_MASK = 0x7F"
definition EXT_MASK :: u64 where "EXT_MASK = 0x3FFFF"
definition VAL_MASK :: u64 where "VAL_MASK = 0x3FFFFFFFFF"

lemmas layout_defs = SUB_SHIFT_def TAG_SHIFT_def EXT_SHIFT_def
  SUB_MASK_def TAG_MASK_def EXT_MASK_def VAL_MASK_def

subsection \<open>Packing and the accessors\<close>

definition term_new :: "u8 \<Rightarrow> u8 \<Rightarrow> u32 \<Rightarrow> u64 \<Rightarrow> term_w" where
  "term_new sub tag ext val =
     push_bit SUB_SHIFT (ucast sub AND SUB_MASK)
     OR push_bit TAG_SHIFT (ucast tag AND TAG_MASK)
     OR push_bit EXT_SHIFT (ucast ext AND EXT_MASK)
     OR (val AND VAL_MASK)"

definition term_tag :: "term_w \<Rightarrow> u8" where
  "term_tag t = ucast (drop_bit TAG_SHIFT t AND TAG_MASK)"

definition term_ext :: "term_w \<Rightarrow> u32" where
  "term_ext t = ucast (drop_bit EXT_SHIFT t AND EXT_MASK)"

definition term_val :: "term_w \<Rightarrow> u64" where
  "term_val t = t AND VAL_MASK"

definition term_sub_get :: "term_w \<Rightarrow> u8" where
  "term_sub_get t = ucast (drop_bit SUB_SHIFT t AND SUB_MASK)"

definition term_sub_set :: "term_w \<Rightarrow> u8 \<Rightarrow> term_w" where
  "term_sub_set t sub =
     (t AND NOT (push_bit SUB_SHIFT SUB_MASK)) OR push_bit SUB_SHIFT (ucast sub AND SUB_MASK)"

subsection \<open>Bitwise characterisation\<close>

lemma layout_masks:
  "SUB_MASK = mask 1" "TAG_MASK = mask 7" "EXT_MASK = mask 18" "VAL_MASK = mask 38"
  by (simp_all add: layout_defs mask_eq_exp_minus_1)

lemma bit_masks:
  "bit SUB_MASK n \<longleftrightarrow> n < 1" "bit TAG_MASK n \<longleftrightarrow> n < 7"
  "bit EXT_MASK n \<longleftrightarrow> n < 18" "bit VAL_MASK n \<longleftrightarrow> n < 38"
  by (simp_all only: layout_masks bit_mask_iff) auto

lemmas shift_defs = SUB_SHIFT_def TAG_SHIFT_def EXT_SHIFT_def

lemma bit_term_new:
  "bit (term_new sub tag ext val) n \<longleftrightarrow>
     (n = 63 \<and> bit sub 0 \<or> 56 \<le> n \<and> n < 63 \<and> bit tag (n - 56)
      \<or> 38 \<le> n \<and> n < 56 \<and> bit ext (n - 38) \<or> n < 38 \<and> bit val n)"
  by (simp only: term_new_def bit_simps bit_masks shift_defs) auto

lemma bit_term_tag: "bit (term_tag t) n \<longleftrightarrow> n < 7 \<and> bit t (56 + n)"
  by (simp only: term_tag_def bit_simps bit_masks shift_defs) auto

lemma bit_term_ext: "bit (term_ext t) n \<longleftrightarrow> n < 18 \<and> bit t (38 + n)"
  by (simp only: term_ext_def bit_simps bit_masks shift_defs) auto

lemma bit_term_val: "bit (term_val t) n \<longleftrightarrow> n < 38 \<and> bit t n"
  by (simp only: term_val_def bit_simps bit_masks) auto

lemma bit_term_sub_get: "bit (term_sub_get t) n \<longleftrightarrow> n = 0 \<and> bit t 63"
  by (simp only: term_sub_get_def bit_simps bit_masks shift_defs) auto

lemma bit_term_sub_set:
  "bit (term_sub_set t sub) n \<longleftrightarrow> (if n = 63 then bit sub 0 else bit t n)"
  by (simp only: term_sub_set_def bit_simps bit_masks shift_defs) (auto dest: bit_imp_le_length)

lemmas term_bits = bit_term_new bit_term_tag bit_term_ext bit_term_val bit_term_sub_get
  bit_term_sub_set

subsection \<open>Reading a packed term\<close>

lemma term_tag_new [term_word_simps]: "term_tag (term_new sub tag ext val) = take_bit 7 tag"
  by (rule bit_eqI) (auto simp: term_bits bit_take_bit_iff)

lemma term_ext_new [term_word_simps]: "term_ext (term_new sub tag ext val) = take_bit 18 ext"
  by (rule bit_eqI) (auto simp: term_bits bit_take_bit_iff)

lemma term_val_new [term_word_simps]: "term_val (term_new sub tag ext val) = take_bit 38 val"
  by (rule bit_eqI) (auto simp: term_bits bit_take_bit_iff)

lemma term_sub_get_new [term_word_simps]:
  "term_sub_get (term_new sub tag ext val) = take_bit 1 sub"
  by (rule bit_eqI) (simp only: term_bits bit_take_bit_iff, auto)

text \<open>Setting the substitution flag leaves the three other fields alone.\<close>

lemma term_tag_sub_set [term_word_simps]: "term_tag (term_sub_set t sub) = term_tag t"
  by (rule bit_eqI) (auto simp: term_bits)

lemma term_ext_sub_set [term_word_simps]: "term_ext (term_sub_set t sub) = term_ext t"
  by (rule bit_eqI) (auto simp: term_bits)

lemma term_val_sub_set [term_word_simps]: "term_val (term_sub_set t sub) = term_val t"
  by (rule bit_eqI) (auto simp: term_bits)

lemma term_sub_get_sub_set [term_word_simps]:
  "term_sub_get (term_sub_set t sub) = take_bit 1 sub"
  by (rule bit_eqI) (simp only: term_bits bit_take_bit_iff, auto)

lemma term_sub_set_sub_set [term_word_simps]:
  "term_sub_set (term_sub_set t a) b = term_sub_set t b"
  by (rule bit_eqI) (auto simp: term_bits)

lemma term_new_unpack: "term_new (term_sub_get t) (term_tag t) (term_ext t) (term_val t) = t"
proof (rule bit_eqI)
  fix n
  assume "possible_bit TYPE(64 word) n"
  then have n: "n < 64" by simp
  consider "n = 63" | "56 \<le> n" "n < 63" | "38 \<le> n" "n < 56" | "n < 38" using n by linarith
  then show "bit (term_new (term_sub_get t) (term_tag t) (term_ext t) (term_val t)) n = bit t n"
    by cases (auto simp: term_bits)
qed

lemma term_w_eqI:
  "term_sub_get s = term_sub_get t \<Longrightarrow> term_tag s = term_tag t \<Longrightarrow> term_ext s = term_ext t
   \<Longrightarrow> term_val s = term_val t \<Longrightarrow> s = t"
  by (metis term_new_unpack)

text \<open>The tag of a word is below 128, its ext below 2^18, its value below 2^38.\<close>

lemma term_ext_bound: "unat (term_ext t) < 2 ^ 18"
proof -
  have "take_bit 18 (term_ext t) = term_ext t"
    by (rule bit_eqI) (auto simp: term_bits bit_take_bit_iff)
  then have "take_bit 18 (unat (term_ext t)) = unat (term_ext t)"
    by (metis unsigned_take_bit_eq)
  then show ?thesis by (simp only: take_bit_nat_eq_self_iff)
qed

lemma term_val_bound: "unat (term_val t) < 2 ^ 38"
proof -
  have "take_bit 38 (term_val t) = term_val t"
    by (rule bit_eqI) (auto simp: term_bits bit_take_bit_iff)
  then have "take_bit 38 (unat (term_val t)) = unat (term_val t)"
    by (metis unsigned_take_bit_eq)
  then show ?thesis by (simp only: take_bit_nat_eq_self_iff)
qed

subsection \<open>Property\<close>

text \<open>C11: packing and unpacking are inverse. The accessors of src/term read back, from a word
  built by term_new, each field cut to its width (1, 7, 18 and 38 bits), and rebuilding any word
  from its four fields gives the word itself.\<close>
theorem term_pack_unpack:
  "term_sub_get (term_new sub tag ext val) = take_bit 1 sub
   \<and> term_tag (term_new sub tag ext val) = take_bit 7 tag
   \<and> term_ext (term_new sub tag ext val) = take_bit 18 ext
   \<and> term_val (term_new sub tag ext val) = take_bit 38 val
   \<and> term_new (term_sub_get t) (term_tag t) (term_ext t) (term_val t) = t"
  by (simp add: term_word_simps term_new_unpack)

end
