(* ===== verification/Heap_Ctr.thy ===== *)
theory Heap_Ctr
  imports Term_Word
begin

text \<open>
  The flat heap (src/heap/alloc.c, read.c, set.c, take.c, take_atomic.c, cas.c, subst_var.c,
  subst_cop.c) and the labelled constructors stored in it (src/term/new_ctr.c,
  src/term/new_fvr.c). The heap is an array of 64-bit words with a bump pointer; running out of
  cells ends the call (exit or longjmp), which is None here. The single-threaded meaning of the
  atomic accesses is modelled: release and acquire variants have the same effect.
\<close>

subsection \<open>The heap\<close>

record heap =
  cells :: "u64 \<Rightarrow> term_w"
  heap_next :: u64
  heap_cap :: u64

definition heap_alloc :: "u64 \<Rightarrow> 'a heap_scheme \<Rightarrow> (u64 \<times> 'a heap_scheme) option" where
  "heap_alloc sz h =
     (let cap = heap_cap h; at = heap_next h; h' = h\<lparr>heap_next := at + sz\<rparr>
      in if at + sz > cap then None else Some (at, h'))"

definition heap_read :: "'a heap_scheme \<Rightarrow> u64 \<Rightarrow> term_w" where
  "heap_read h loc = cells h loc"

definition heap_set :: "u64 \<Rightarrow> term_w \<Rightarrow> 'a heap_scheme \<Rightarrow> 'a heap_scheme" where
  "heap_set loc t h = h\<lparr>cells := (cells h)(loc := t)\<rparr>"

definition heap_take :: "u64 \<Rightarrow> 'a heap_scheme \<Rightarrow> term_w \<times> 'a heap_scheme" where
  "heap_take loc h = (cells h loc, h\<lparr>cells := (cells h)(loc := 0)\<rparr>)"

definition heap_take_atomic :: "u64 \<Rightarrow> 'a heap_scheme \<Rightarrow> term_w \<times> 'a heap_scheme" where
  "heap_take_atomic loc h = (cells h loc, h\<lparr>cells := (cells h)(loc := 0)\<rparr>)"

text \<open>Compare-and-swap returns the flag, the caller's new expected value and the heap.\<close>

definition heap_cas :: "u64 \<Rightarrow> term_w \<Rightarrow> term_w \<Rightarrow> 'a heap_scheme \<Rightarrow> bool \<times> term_w \<times> 'a heap_scheme" where
  "heap_cas loc expected desired h =
     (if cells h loc = expected
      then (True, expected, h\<lparr>cells := (cells h)(loc := desired)\<rparr>)
      else (False, cells h loc, h))"

definition heap_subst_var :: "u64 \<Rightarrow> term_w \<Rightarrow> 'a heap_scheme \<Rightarrow> 'a heap_scheme" where
  "heap_subst_var loc v h = h\<lparr>cells := (cells h)(loc := term_sub_set v 1)\<rparr>"

text \<open>The acquire, release and release-ordered variants, whose sequential meaning is the same.\<close>

definition heap_read_acq :: "'a heap_scheme \<Rightarrow> u64 \<Rightarrow> term_w" where
  "heap_read_acq h loc = cells h loc"

definition heap_set_rel :: "u64 \<Rightarrow> term_w \<Rightarrow> 'a heap_scheme \<Rightarrow> 'a heap_scheme" where
  "heap_set_rel loc t h = h\<lparr>cells := (cells h)(loc := t)\<rparr>"

definition heap_subst_var_rel :: "u64 \<Rightarrow> term_w \<Rightarrow> 'a heap_scheme \<Rightarrow> 'a heap_scheme" where
  "heap_subst_var_rel loc v h = h\<lparr>cells := (cells h)(loc := term_sub_set v 1)\<rparr>"

definition heap_subst_cop :: "u8 \<Rightarrow> u64 \<Rightarrow> term_w \<Rightarrow> term_w \<Rightarrow> 'a heap_scheme \<Rightarrow> term_w \<times> 'a heap_scheme" where
  "heap_subst_cop side loc r0 r1 h =
     (let h' = heap_subst_var loc (if side = 0 then r1 else r0) h
      in (if side = 0 then r0 else r1, h'))"

lemma heap_read_set [heap_simps]:
  "heap_read (heap_set loc t h) l = (if l = loc then t else heap_read h l)"
  by (simp add: heap_read_def heap_set_def)

lemma heap_next_set [heap_simps]: "heap_next (heap_set loc t h) = heap_next h"
  by (simp add: heap_set_def)

lemma heap_cap_set [heap_simps]: "heap_cap (heap_set loc t h) = heap_cap h"
  by (simp add: heap_set_def)

lemma heap_read_subst_var [heap_simps]:
  "heap_read (heap_subst_var loc v h) l = (if l = loc then term_sub_set v 1 else heap_read h l)"
  by (simp add: heap_read_def heap_subst_var_def)

lemma heap_alloc_Some:
  assumes "heap_alloc sz h = Some (loc, h')"
  shows "loc = heap_next h" and "h' = h\<lparr>heap_next := heap_next h + sz\<rparr>"
    and "heap_next h + sz \<le> heap_cap h"
  using assms by (auto simp: heap_alloc_def Let_def split: if_splits)

text \<open>
  Well-formed heaps: the bump pointer is within the capacity, which is at most 2^38 cells (the
  source caps THVM_HEAP_CELLS at 2^37 so that a location fits the value field).
\<close>

definition heap_ok :: "'a heap_scheme \<Rightarrow> bool" where
  "heap_ok h \<longleftrightarrow> heap_next h \<le> heap_cap h \<and> unat (heap_cap h) \<le> 2 ^ 37"

subsection \<open>Tags and constructors\<close>

definition TAG_NUM :: u8 where "TAG_NUM = 10"
definition TAG_CTR :: u8 where "TAG_CTR = 20"
definition TAG_FVR :: u8 where "TAG_FVR = 22"
definition DT_INT32 :: u32 where "DT_INT32 = 5"

lemmas tag_defs = TAG_NUM_def TAG_CTR_def TAG_FVR_def DT_INT32_def

definition term_new_fvr :: "u32 \<Rightarrow> term_w" where
  "term_new_fvr var_id = term_new 0 TAG_FVR var_id 0"

text \<open>Copying the children, in index order, into the cells after the header.\<close>

fun set_children :: "u64 \<Rightarrow> nat \<Rightarrow> term_w list \<Rightarrow> 'a heap_scheme \<Rightarrow> 'a heap_scheme" where
  "set_children loc i [] h = h"
| "set_children loc i (c # cs) h = set_children loc (Suc i) cs (heap_set (loc + 1 + of_nat i) c h)"

definition term_new_ctr_h :: "u32 \<Rightarrow> term_w list \<Rightarrow> 'a heap_scheme \<Rightarrow> (term_w \<times> 'a heap_scheme) option" where
  "term_new_ctr_h label children h =
     (let n = (of_nat (length children) :: u32) in
      case heap_alloc (ucast (1 + n)) h of
        None \<Rightarrow> None
      | Some (loc, h1) \<Rightarrow>
          let h2 = heap_set loc (term_new 0 TAG_NUM DT_INT32 (ucast n)) h1;
              h3 = set_children loc 0 children h2
          in Some (term_new 0 TAG_CTR label loc, h3))"

definition term_ctr_n_h :: "'a heap_scheme \<Rightarrow> term_w \<Rightarrow> u32" where
  "term_ctr_n_h h t =
     (if term_tag t \<noteq> TAG_CTR then 0
      else let n_cell = heap_read h (term_val t)
           in if term_tag n_cell \<noteq> TAG_NUM then 0 else ucast (term_val n_cell))"

definition term_ctr_at_h :: "'a heap_scheme \<Rightarrow> term_w \<Rightarrow> u32 \<Rightarrow> term_w" where
  "term_ctr_at_h h t i =
     (let n = term_ctr_n_h h t in if i \<ge> n then 0 else heap_read h (term_val t + 1 + ucast i))"

lemma set_children_next [heap_simps]: "heap_next (set_children loc i cs h) = heap_next h"
  by (induction loc i cs h rule: set_children.induct) (simp_all add: heap_simps)

lemma set_children_cap [heap_simps]: "heap_cap (set_children loc i cs h) = heap_cap h"
  by (induction loc i cs h rule: set_children.induct) (simp_all add: heap_simps)

lemma set_children_read_other:
  assumes "\<And>j. i \<le> j \<Longrightarrow> j < i + length cs \<Longrightarrow> l \<noteq> loc + 1 + of_nat j"
  shows "heap_read (set_children loc i cs h) l = heap_read h l"
  using assms
proof (induction loc i cs h rule: set_children.induct)
  case (2 loc i c cs h)
  have "l \<noteq> loc + 1 + of_nat i" using "2.prems" [of i] by simp
  moreover have "heap_read (set_children loc (Suc i) cs (heap_set (loc + 1 + of_nat i) c h)) l
      = heap_read (heap_set (loc + 1 + of_nat i) c h) l"
    using "2.prems" by (intro "2.IH") simp
  ultimately show ?case by (simp add: heap_simps)
qed simp

lemma set_children_read_child:
  assumes "k < length cs" and "unat loc + 1 + i + length cs < 2 ^ 64"
  shows "heap_read (set_children loc i cs h) (loc + 1 + of_nat (i + k)) = cs ! k"
  using assms
proof (induction loc i cs h arbitrary: k rule: set_children.induct)
  case (2 loc i c cs h)
  show ?case
  proof (cases k)
    case 0
    have "loc + 1 + of_nat i \<noteq> loc + 1 + (of_nat j :: u64)"
      if "Suc i \<le> j" "j < Suc i + length cs" for j
      using that "2.prems"(2) by (auto simp: of_nat_inverse dest!: word_of_nat_eq_iff [THEN iffD1])
        (simp add: take_bit_nat_eq_self)
    then have "heap_read (set_children loc (Suc i) cs (heap_set (loc + 1 + of_nat i) c h))
        (loc + 1 + of_nat i) = heap_read (heap_set (loc + 1 + of_nat i) c h) (loc + 1 + of_nat i)"
      by (intro set_children_read_other) auto
    with 0 show ?thesis by (simp add: heap_simps)
  next
    case (Suc m)
    with "2.prems" "2.IH" [of m] show ?thesis by simp
  qed
qed simp

end
