(* ===== verification/FTerm.thy ===== *)
theory FTerm
  imports Term_Word
begin

text \<open>
  First-order terms as values. The first-order part of the program (rewriting, unification,
  critical pairs, the orderings, the clause layer) reads a term only through its tag, its ext
  field and the children of a TAG_CTR cell and never updates a cell in place, so a term is
  modelled here as the tree its cells spell out; read_term of theory GC_Collect relates the two. FVR and CTR
  are TAG_FVR and TAG_CTR, ATM is a word with any other tag, of which only tag, ext and value
  are ever compared. Variable ids and labels are the 18 bits of the ext field, so that an id
  shifted past 2^18 wraps here as it does in the packed word.
\<close>

type_synonym ext = "18 word"

datatype trm = FVR ext | CTR ext "trm list" | ATM u8 ext u64

definition REWRITE_MAX_VAR :: nat where "REWRITE_MAX_VAR = 64"
definition REWRITE_MAX_ARITY :: nat where "REWRITE_MAX_ARITY = 16"

subsection \<open>Children\<close>

text \<open>term_ctr_n and term_ctr_at: no children off a constructor, the zero word out of range.\<close>

definition zero_trm :: trm where "zero_trm = ATM 0 0 0"

fun term_ctr_n :: "trm \<Rightarrow> nat" where
  "term_ctr_n (CTR l ts) = length ts"
| "term_ctr_n _ = 0"

fun term_ctr_at :: "trm \<Rightarrow> nat \<Rightarrow> trm" where
  "term_ctr_at (CTR l ts) i = (if i < length ts then ts ! i else zero_trm)"
| "term_ctr_at _ i = zero_trm"

fun is_fvr :: "trm \<Rightarrow> bool" where "is_fvr (FVR x) = True" | "is_fvr _ = False"
fun is_ctr :: "trm \<Rightarrow> bool" where "is_ctr (CTR l ts) = True" | "is_ctr _ = False"

fun trm_ext :: "trm \<Rightarrow> ext" where
  "trm_ext (FVR x) = x"
| "trm_ext (CTR l ts) = l"
| "trm_ext (ATM g e v) = e"

subsection \<open>Structural equality\<close>

text \<open>kbo_eq of src/kbo/_.c on trees: tag, ext, then arity and the children left to right.\<close>

fun kbo_eq :: "trm \<Rightarrow> trm \<Rightarrow> bool" and kbo_eq_args :: "trm list \<Rightarrow> trm list \<Rightarrow> bool" where
  "kbo_eq (FVR x) (FVR y) = (x = y)"
| "kbo_eq (CTR f ss) (CTR g ts) = (f = g \<and> length ss = length ts \<and> kbo_eq_args ss ts)"
| "kbo_eq (ATM a e v) (ATM b e' v') = (a = b \<and> e = e' \<and> v = v')"
| "kbo_eq _ _ = False"
| "kbo_eq_args (s # ss) (t # ts) = (if kbo_eq s t then kbo_eq_args ss ts else False)"
| "kbo_eq_args _ _ = True"

lemma kbo_eq_iff_aux:
  "kbo_eq s t \<longleftrightarrow> s = t"
  "length ss = length ts \<Longrightarrow> kbo_eq_args ss ts \<longleftrightarrow> ss = ts"
  by (induction s t and ss ts rule: kbo_eq_kbo_eq_args.induct) auto

lemma kbo_eq_iff [simp]: "kbo_eq s t \<longleftrightarrow> s = t"
  by (rule kbo_eq_iff_aux)

subsection \<open>Variables, sizes, arities\<close>

fun tvars :: "trm \<Rightarrow> ext set" where
  "tvars (FVR x) = {x}"
| "tvars (CTR l ts) = (\<Union>t \<in> set ts. tvars t)"
| "tvars (ATM g e v) = {}"

fun tsize :: "trm \<Rightarrow> nat" where
  "tsize (FVR x) = 1"
| "tsize (CTR l ts) = Suc (sum_list (map tsize ts))"
| "tsize (ATM g e v) = 1"

text \<open>The term stays within the bounds of the fixed-size child arrays and binding tables.\<close>

fun ar_ok :: "trm \<Rightarrow> bool" where
  "ar_ok (FVR x) = True"
| "ar_ok (CTR l ts) = (length ts \<le> REWRITE_MAX_ARITY \<and> list_all ar_ok ts)"
| "ar_ok (ATM g e v) = True"

definition vars_ok :: "trm \<Rightarrow> bool" where
  "vars_ok t \<longleftrightarrow> (\<forall>x \<in> tvars t. unat x < REWRITE_MAX_VAR)"

lemma finite_tvars [simp, intro]: "finite (tvars t)"
  by (induction t) auto

lemma tsize_pos [simp]: "0 < tsize t"
  by (cases t) auto

lemma tsize_child: "t \<in> set ts \<Longrightarrow> tsize t < tsize (CTR l ts)"
  by (auto dest: sum_list_member_le [where f = tsize])

lemma vars_ok_simps [simp]:
  "vars_ok (FVR x) \<longleftrightarrow> unat x < REWRITE_MAX_VAR"
  "vars_ok (CTR l ts) \<longleftrightarrow> (\<forall>t \<in> set ts. vars_ok t)"
  "vars_ok (ATM g e v)"
  by (auto simp: vars_ok_def)

subsection \<open>Substitutions\<close>

text \<open>
  A total substitution and its application, the mathematical notion the program's bounded
  tables implement.
\<close>

type_synonym tsub = "ext \<Rightarrow> trm"

fun tsubst :: "tsub \<Rightarrow> trm \<Rightarrow> trm" where
  "tsubst \<sigma> (FVR x) = \<sigma> x"
| "tsubst \<sigma> (CTR l ts) = CTR l (map (tsubst \<sigma>) ts)"
| "tsubst \<sigma> (ATM g e v) = ATM g e v"

definition tcomp :: "tsub \<Rightarrow> tsub \<Rightarrow> tsub" where
  "tcomp \<sigma> \<tau> x = tsubst \<sigma> (\<tau> x)"

lemma tsubst_FVR [simp]: "tsubst FVR t = t"
  by (induction t) (auto simp: map_idI)

lemma tsubst_tsubst: "tsubst \<sigma> (tsubst \<tau> t) = tsubst (tcomp \<sigma> \<tau>) t"
  by (induction t) (auto simp: tcomp_def)

lemma tsubst_cong: "(\<And>x. x \<in> tvars t \<Longrightarrow> \<sigma> x = \<tau> x) \<Longrightarrow> tsubst \<sigma> t = tsubst \<tau> t"
  by (induction t) auto

lemma tsubst_eq_iff: "tsubst \<sigma> t = tsubst \<tau> t \<longleftrightarrow> (\<forall>x \<in> tvars t. \<sigma> x = \<tau> x)"
  by (induction t) auto

lemma tvars_tsubst: "tvars (tsubst \<sigma> t) = (\<Union>x \<in> tvars t. tvars (\<sigma> x))"
  by (induction t) auto

lemma tsubst_upd_notin: "x \<notin> tvars t \<Longrightarrow> tsubst (\<sigma>(x := u)) t = tsubst \<sigma> t"
  by (rule tsubst_cong) auto

lemma tsize_tsubst_child: "t \<in> set ts \<Longrightarrow> tsize (tsubst \<sigma> t) < tsize (tsubst \<sigma> (CTR l ts))"
  using tsize_child [of "tsubst \<sigma> t" "map (tsubst \<sigma>) ts" l] by simp

lemma tsize_tsubst_var: "x \<in> tvars t \<Longrightarrow> tsize (\<sigma> x) \<le> tsize (tsubst \<sigma> t)"
proof (induction t)
  case (CTR l ts)
  then obtain t where t: "t \<in> set ts" "x \<in> tvars t" by auto
  then have "tsize (\<sigma> x) \<le> tsize (tsubst \<sigma> t)" using CTR.IH by blast
  also have "\<dots> < tsize (tsubst \<sigma> (CTR l ts))" using t(1) by (rule tsize_tsubst_child)
  finally show ?case by simp
qed auto

lemma tsize_tsubst_proper:
  assumes "x \<in> tvars t" and "t \<noteq> FVR x"
  shows "tsize (\<sigma> x) < tsize (tsubst \<sigma> t)"
proof (cases t)
  case (CTR l ts)
  then obtain u where "u \<in> set ts" "x \<in> tvars u" using assms by auto
  then show ?thesis unfolding CTR
    by (meson tsize_tsubst_var tsize_tsubst_child le_less_trans)
qed (use assms in auto)

text \<open>A RewriteSubst: 64 slots, the zero word an empty one.\<close>

type_synonym rsubst = "ext \<Rightarrow> trm option"

definition rs_sub :: "rsubst \<Rightarrow> tsub" where
  "rs_sub \<sigma> x = (case \<sigma> x of None \<Rightarrow> FVR x | Some t \<Rightarrow> t)"

lemma rs_sub_simps [simp]:
  "\<sigma> x = None \<Longrightarrow> rs_sub \<sigma> x = FVR x"
  "\<sigma> x = Some t \<Longrightarrow> rs_sub \<sigma> x = t"
  by (auto simp: rs_sub_def)

definition rs_in_range :: "rsubst \<Rightarrow> bool" where
  "rs_in_range \<sigma> \<longleftrightarrow> (\<forall>x \<in> dom \<sigma>. unat x < REWRITE_MAX_VAR)"

lemma rs_in_range_empty [simp]: "rs_in_range Map.empty"
  by (simp add: rs_in_range_def)

lemma rs_in_range_upd [simp]:
  "rs_in_range \<sigma> \<Longrightarrow> unat x < REWRITE_MAX_VAR \<Longrightarrow> rs_in_range (\<sigma>(x \<mapsto> t))"
  by (auto simp: rs_in_range_def)

lemma rs_in_rangeD: "rs_in_range \<sigma> \<Longrightarrow> \<sigma> x = Some t \<Longrightarrow> unat x < REWRITE_MAX_VAR"
  by (auto simp: rs_in_range_def)

lemma rs_out_of_range: "rs_in_range \<sigma> \<Longrightarrow> REWRITE_MAX_VAR \<le> unat x \<Longrightarrow> \<sigma> x = None"
  using rs_in_rangeD [of \<sigma> x] by (cases "\<sigma> x") auto

subsection \<open>Subterms and positions\<close>

fun subterms :: "trm \<Rightarrow> trm set" where
  "subterms (CTR l ts) = insert (CTR l ts) (\<Union>t \<in> set ts. subterms t)"
| "subterms t = {t}"

lemma subterms_refl [simp]: "t \<in> subterms t"
  by (cases t) auto

lemma subterms_trans: "s \<in> subterms t \<Longrightarrow> t \<in> subterms u \<Longrightarrow> s \<in> subterms u"
  by (induction u) auto

lemma subterms_tsize: "s \<in> subterms t \<Longrightarrow> tsize s \<le> tsize t"
proof (induction t)
  case (CTR l ts)
  from CTR.prems consider "s = CTR l ts" | u where "u \<in> set ts" "s \<in> subterms u" by auto
  then show ?case
  proof cases
    case (2 u)
    then show ?thesis using CTR.IH [of u] tsize_child [of u ts l] by simp
  qed simp
qed auto

subsection \<open>The structural hash\<close>

text \<open>
  kbo_mix64, kbo_leaf_hash and kbo_node_hash (src/kbo/_.c) on trees: the hash of a constructor
  folds in its label, its first 16 children and their number.
\<close>

definition kbo_mix64 :: "u64 \<Rightarrow> u64" where
  "kbo_mix64 x0 =
     (let x1 = (x0 XOR drop_bit 30 x0) * 0xbf58476d1ce4e5b9;
          x2 = (x1 XOR drop_bit 27 x1) * 0x94d049bb133111eb
      in x2 XOR drop_bit 31 x2)"

fun kbo_node_hash_loop :: "u64 \<Rightarrow> nat \<Rightarrow> u64 list \<Rightarrow> u64" where
  "kbo_node_hash_loop h i [] = h"
| "kbo_node_hash_loop h i (c # cs) =
     kbo_node_hash_loop
       ((h XOR kbo_mix64 (c + 0x9e3779b97f4a7c15 * of_nat (i + 1))) * 0x100000001b3) (Suc i) cs"

definition kbo_node_hash :: "ext \<Rightarrow> u64 list \<Rightarrow> u64" where
  "kbo_node_hash lab cs =
     kbo_node_hash_loop (0xcbf29ce484222325 XOR (ucast lab * 0x100000001b3)) 0 cs
     XOR (of_nat (length cs) * 0x9e3779b97f4a7c15)"

fun kbo_leaf_hash :: "trm \<Rightarrow> u64" where
  "kbo_leaf_hash (FVR x) = kbo_mix64 (0xfacefaceface XOR (ucast x * 0x100000001b3))"
| "kbo_leaf_hash (CTR l ts) =
     kbo_node_hash l (take REWRITE_MAX_ARITY (map kbo_leaf_hash ts))"
| "kbo_leaf_hash (ATM g e v) = kbo_mix64 (0xdeadbeefcafebabe XOR (ucast g * 0x100000001b3))"

end
