(* ===== verification/Rewrite.thy ===== *)
theory Rewrite
  imports FTerm
begin

text \<open>
  One-way matching and the one-shot rewriter (src/rewrite/_.c) on terms as values:
  thvm_match, thvm_subst_apply, rewrite_try_top, thvm_rewrite_step, thvm_rewrite_normalize. A
  rule set is the pair of arrays lhs and rhs of the source, as one list of pairs. The
  compile-time option THVM_ATP_AC is off, as in the default build.
\<close>

subsection \<open>The code\<close>

text \<open>
  Matching returns the flag and the table it leaves behind: a failing match keeps the bindings
  it made before the clash.
\<close>

fun thvm_match :: "trm \<Rightarrow> trm \<Rightarrow> rsubst \<Rightarrow> bool \<times> rsubst"
  and match_args :: "trm list \<Rightarrow> trm list \<Rightarrow> rsubst \<Rightarrow> bool \<times> rsubst" where
  "thvm_match (FVR x) t \<sigma> =
     (if unat x \<ge> REWRITE_MAX_VAR then (False, \<sigma>)
      else case \<sigma> x of None \<Rightarrow> (True, \<sigma>(x \<mapsto> t)) | Some u \<Rightarrow> (kbo_eq u t, \<sigma>))"
| "thvm_match (CTR f ps) (CTR g ts) \<sigma> =
     (if f \<noteq> g then (False, \<sigma>)
      else if length ps \<noteq> length ts then (False, \<sigma>)
      else match_args ps ts \<sigma>)"
| "thvm_match (CTR f ps) (FVR x) \<sigma> = (False, \<sigma>)"
| "thvm_match (CTR f ps) (ATM g e v) \<sigma> = (False, \<sigma>)"
| "thvm_match (ATM g e v) t \<sigma> = (False, \<sigma>)"
| "match_args (p # ps) (t # ts) \<sigma> =
     (let (ok, \<sigma>') = thvm_match p t \<sigma> in if ok then match_args ps ts \<sigma>' else (False, \<sigma>'))"
| "match_args _ _ \<sigma> = (True, \<sigma>)"

fun thvm_subst_apply :: "rsubst \<Rightarrow> trm \<Rightarrow> trm" where
  "thvm_subst_apply \<sigma> (FVR x) =
     (if unat x < REWRITE_MAX_VAR then (case \<sigma> x of None \<Rightarrow> FVR x | Some u \<Rightarrow> u) else FVR x)"
| "thvm_subst_apply \<sigma> (CTR l ts) =
     (if length ts > REWRITE_MAX_ARITY then CTR l ts else CTR l (map (thvm_subst_apply \<sigma>) ts))"
| "thvm_subst_apply \<sigma> (ATM g e v) = ATM g e v"

fun rewrite_try_top :: "trm \<Rightarrow> (trm \<times> trm) list \<Rightarrow> trm option" where
  "rewrite_try_top t [] = None"
| "rewrite_try_top t ((l, r) # rules) =
     (let (ok, \<sigma>) = thvm_match l t Map.empty
      in if ok then Some (thvm_subst_apply \<sigma> r) else rewrite_try_top t rules)"

text \<open>
  The descent of rewrite_step: the first child that the step changes (in the sense of kbo_eq)
  is replaced and the others are kept.
\<close>

fun thvm_rewrite_step :: "(trm \<times> trm) list \<Rightarrow> trm \<Rightarrow> trm"
  and rewrite_children :: "(trm \<times> trm) list \<Rightarrow> trm list \<Rightarrow> trm list option" where
  "thvm_rewrite_step rules (FVR x) =
     (case rewrite_try_top (FVR x) rules of Some r \<Rightarrow> r | None \<Rightarrow> FVR x)"
| "thvm_rewrite_step rules (ATM g e v) =
     (case rewrite_try_top (ATM g e v) rules of Some r \<Rightarrow> r | None \<Rightarrow> ATM g e v)"
| "thvm_rewrite_step rules (CTR l ts) =
     (case rewrite_try_top (CTR l ts) rules of
        Some r \<Rightarrow> r
      | None \<Rightarrow>
          if length ts > REWRITE_MAX_ARITY then CTR l ts
          else case rewrite_children rules ts of Some ts' \<Rightarrow> CTR l ts' | None \<Rightarrow> CTR l ts)"
| "rewrite_children rules [] = None"
| "rewrite_children rules (t # ts) =
     (let t' = thvm_rewrite_step rules t
      in if \<not> kbo_eq t' t then Some (t' # ts)
         else map_option ((#) t) (rewrite_children rules ts))"

fun thvm_rewrite_normalize :: "(trm \<times> trm) list \<Rightarrow> nat \<Rightarrow> trm \<Rightarrow> trm" where
  "thvm_rewrite_normalize rules 0 t = t"
| "thvm_rewrite_normalize rules (Suc cap) t =
     (let t2 = thvm_rewrite_step rules t
      in if kbo_eq t t2 then t else thvm_rewrite_normalize rules cap t2)"

subsection \<open>Application is substitution\<close>

lemma subst_apply_tsubst:
  "rs_in_range \<sigma> \<Longrightarrow> ar_ok t \<Longrightarrow> thvm_subst_apply \<sigma> t = tsubst (rs_sub \<sigma>) t"
  by (induction t)
    (auto simp: rs_sub_def list_all_iff split: option.splits dest: rs_in_rangeD)

subsection \<open>Matching\<close>

text \<open>
  What a match leaves: an extension of the table, in range, under which the pattern is the
  subject.
\<close>

lemma match_le_aux:
  "thvm_match p t \<sigma> = (ok, \<sigma>') \<Longrightarrow> \<sigma> \<subseteq>\<^sub>m \<sigma>'"
  "match_args ps ts \<sigma> = (ok, \<sigma>') \<Longrightarrow> \<sigma> \<subseteq>\<^sub>m \<sigma>'"
proof (induction p t \<sigma> and ps ts \<sigma> arbitrary: ok \<sigma>' and ok \<sigma>' rule: thvm_match_match_args.induct)
  case (1 x t \<sigma>)
  then show ?case by (auto simp: map_le_def split: if_splits option.splits)
next
  case (6 p ps t ts \<sigma>)
  then show ?case by (auto split: prod.splits if_splits intro: map_le_trans)
qed (auto split: if_splits)

lemma match_range_aux:
  "thvm_match p t \<sigma> = (ok, \<sigma>') \<Longrightarrow> rs_in_range \<sigma> \<Longrightarrow> rs_in_range \<sigma>'"
  "match_args ps ts \<sigma> = (ok, \<sigma>') \<Longrightarrow> rs_in_range \<sigma> \<Longrightarrow> rs_in_range \<sigma>'"
  by (induction p t \<sigma> and ps ts \<sigma> arbitrary: ok \<sigma>' and ok \<sigma>' rule: thvm_match_match_args.induct)
    (auto split: if_splits option.splits prod.splits)

text \<open>rs_covers: the table binds every variable of the pattern, and the pattern is the subject.\<close>

definition rs_matches :: "rsubst \<Rightarrow> trm \<Rightarrow> trm \<Rightarrow> bool" where
  "rs_matches \<sigma> p t \<longleftrightarrow> tvars p \<subseteq> dom \<sigma> \<and> tsubst (rs_sub \<sigma>) p = t"

lemma rs_matches_mono:
  assumes "rs_matches \<sigma> p t" and "\<sigma> \<subseteq>\<^sub>m \<sigma>'"
  shows "rs_matches \<sigma>' p t"
proof -
  have "\<sigma>' x = \<sigma> x" if "x \<in> tvars p" for x
    using assms that unfolding rs_matches_def map_le_def by (metis subsetD)
  then have "tsubst (rs_sub \<sigma>') p = tsubst (rs_sub \<sigma>) p"
    by (intro tsubst_cong) (simp add: rs_sub_def)
  with assms show ?thesis
    unfolding rs_matches_def using map_le_implies_dom_le by blast
qed

lemma rs_matches_CTR [simp]:
  "rs_matches \<sigma> (CTR f ps) t \<longleftrightarrow> (\<exists>ts. t = CTR f ts \<and> list_all2 (rs_matches \<sigma>) ps ts)"
proof -
  have "list_all2 (rs_matches \<sigma>) ps ts \<longleftrightarrow>
      (\<Union>p \<in> set ps. tvars p) \<subseteq> dom \<sigma> \<and> map (tsubst (rs_sub \<sigma>)) ps = ts" for ts
    by (induction ps arbitrary: ts) (auto simp: rs_matches_def list_all2_Cons1)
  then show ?thesis by (auto simp: rs_matches_def)
qed

lemma match_sound_aux:
  "thvm_match p t \<sigma> = (True, \<sigma>') \<Longrightarrow> rs_matches \<sigma>' p t"
  "length ps = length ts \<Longrightarrow> match_args ps ts \<sigma> = (True, \<sigma>') \<Longrightarrow> list_all2 (rs_matches \<sigma>') ps ts"
proof (induction p t \<sigma> and ps ts \<sigma> arbitrary: \<sigma>' and \<sigma>' rule: thvm_match_match_args.induct)
  case (1 x t \<sigma>)
  then show ?case by (auto simp: rs_matches_def split: if_splits option.splits)
next
  case (6 p ps t ts \<sigma>)
  then obtain \<sigma>1 where "thvm_match p t \<sigma> = (True, \<sigma>1)" "match_args ps ts \<sigma>1 = (True, \<sigma>')"
    by (auto split: prod.splits if_splits)
  with 6 show ?case by (auto intro: rs_matches_mono match_le_aux)
qed (auto split: if_splits)

text \<open>
  Completeness: any substitution under which the pattern is the subject makes the match
  succeed, and agrees with the table it leaves. Atoms in a pattern never match.
\<close>

fun no_atm :: "trm \<Rightarrow> bool" where
  "no_atm (FVR x) = True"
| "no_atm (CTR l ts) = list_all no_atm ts"
| "no_atm (ATM g e v) = False"

definition rs_agrees :: "rsubst \<Rightarrow> tsub \<Rightarrow> bool" where
  "rs_agrees \<sigma> \<theta> \<longleftrightarrow> (\<forall>x t. \<sigma> x = Some t \<longrightarrow> \<theta> x = t)"

lemma rs_agrees_empty [simp]: "rs_agrees Map.empty \<theta>"
  by (simp add: rs_agrees_def)

lemma match_complete_aux:
  "vars_ok p \<Longrightarrow> no_atm p \<Longrightarrow> rs_agrees \<sigma> \<theta> \<Longrightarrow> tsubst \<theta> p = t
   \<Longrightarrow> \<exists>\<sigma>'. thvm_match p t \<sigma> = (True, \<sigma>') \<and> rs_agrees \<sigma>' \<theta>"
  "\<forall>p \<in> set ps. vars_ok p \<and> no_atm p \<Longrightarrow> rs_agrees \<sigma> \<theta> \<Longrightarrow> map (tsubst \<theta>) ps = ts
   \<Longrightarrow> \<exists>\<sigma>'. match_args ps ts \<sigma> = (True, \<sigma>') \<and> rs_agrees \<sigma>' \<theta>"
proof (induction p t \<sigma> and ps ts \<sigma> rule: thvm_match_match_args.induct)
  case (1 x t \<sigma>)
  then show ?case by (auto simp: rs_agrees_def split: option.splits)
next
  case (6 p ps t ts \<sigma>)
  then obtain \<sigma>1 where "thvm_match p t \<sigma> = (True, \<sigma>1)" "rs_agrees \<sigma>1 \<theta>"
    by auto
  with 6 show ?case by auto
qed (auto simp: list_all_iff)


lemmas match_sound = match_sound_aux(1)
lemmas match_range = match_range_aux(1)

lemma match_complete:
  assumes "vars_ok p" and "no_atm p"
  shows "\<exists>\<sigma>. thvm_match p (tsubst \<theta> p) Map.empty = (True, \<sigma>) \<and> rs_agrees \<sigma> \<theta>"
  using match_complete_aux(1) [OF assms rs_agrees_empty refl] .

subsection \<open>One rewrite step\<close>

text \<open>Rewriting with a rule set: an instance of a rule at any position of the term.\<close>

inductive rstep :: "(trm \<times> trm) set \<Rightarrow> trm \<Rightarrow> trm \<Rightarrow> bool" for R where
  root: "(l, r) \<in> R \<Longrightarrow> rstep R (tsubst \<sigma> l) (tsubst \<sigma> r)"
| arg: "rstep R s t \<Longrightarrow> rstep R (CTR f (ss @ s # us)) (CTR f (ss @ t # us))"

inductive_cases rstep_FVR_cases: "rstep R (FVR x) t"

definition rules_ok :: "(trm \<times> trm) list \<Rightarrow> bool" where
  "rules_ok rules \<longleftrightarrow> (\<forall>(l, r) \<in> set rules. ar_ok l \<and> ar_ok r \<and> vars_ok l \<and> no_atm l)"

lemma rules_ok_simps [simp]:
  "rules_ok []"
  "rules_ok ((l, r) # rules) \<longleftrightarrow> ar_ok l \<and> ar_ok r \<and> vars_ok l \<and> no_atm l \<and> rules_ok rules"
  by (auto simp: rules_ok_def)

lemma try_top_rstep:
  assumes "rules_ok rules" and "rewrite_try_top t rules = Some u"
  shows "\<exists>l r \<sigma>. (l, r) \<in> set rules \<and> t = tsubst \<sigma> l \<and> u = tsubst \<sigma> r"
  using assms
proof (induction t rules rule: rewrite_try_top.induct)
  case (2 t l r rules)
  obtain ok \<sigma> where m: "thvm_match l t Map.empty = (ok, \<sigma>)" by fastforce
  show ?case
  proof (cases ok)
    case True
    with m have "t = tsubst (rs_sub \<sigma>) l" and "rs_in_range \<sigma>"
      using match_sound [of l t] match_range [OF m] by (auto simp: rs_matches_def)
    moreover have "u = tsubst (rs_sub \<sigma>) r"
      using 2 m True \<open>rs_in_range \<sigma>\<close> by (auto simp: subst_apply_tsubst)
    ultimately show ?thesis by auto
  next
    case False
    with 2 m show ?thesis by fastforce
  qed
qed simp

lemma try_top_None:
  assumes "rules_ok rules" and "rewrite_try_top t rules = None" and "(l, r) \<in> set rules"
  shows "t \<noteq> tsubst \<sigma> l"
  using assms
proof (induction t rules rule: rewrite_try_top.induct)
  case (2 t l' r' rules)
  show ?case
  proof (cases "(l, r) = (l', r')")
    case True
    with 2 match_complete [of l' \<sigma>] show ?thesis by (auto split: prod.splits if_splits)
  next
    case False
    with 2 show ?thesis by (auto split: prod.splits if_splits)
  qed
qed simp

lemma try_top_instance:
  "rules_ok rules \<Longrightarrow> (l, r) \<in> set rules \<Longrightarrow> rewrite_try_top (tsubst \<sigma> l) rules \<noteq> None"
  using try_top_None by blast

lemma rewrite_step_rstep_aux:
  "rules_ok rules \<Longrightarrow> thvm_rewrite_step rules t \<noteq> t \<Longrightarrow> rstep (set rules) t (thvm_rewrite_step rules t)"
  "rules_ok rules \<Longrightarrow> rewrite_children rules ts = Some ts' \<Longrightarrow>
     \<exists>ss s s' us. ts = ss @ s # us \<and> ts' = ss @ s' # us \<and> rstep (set rules) s s'"
proof (induction rules t and rules ts arbitrary: and ts' rule: thvm_rewrite_step_rewrite_children.induct)
  case (3 rules l ts)
  show ?case
  proof (cases "rewrite_try_top (CTR l ts) rules")
    case None
    with 3 show ?thesis by (fastforce split: if_splits option.splits intro: rstep.arg)
  next
    case (Some r)
    with try_top_rstep [OF "3.prems"(1) Some] show ?thesis by (auto intro: rstep.root)
  qed
next
  case (5 rules t ts)
  show ?case
  proof (cases "thvm_rewrite_step rules t = t")
    case True
    with "5.prems" obtain ts1 where ts1: "rewrite_children rules ts = Some ts1" "ts' = t # ts1"
      by auto
    from "5.IH"(2) [OF refl _ "5.prems"(1) ts1(1)] True obtain ss s s' us
      where "ts = ss @ s # us" "ts1 = ss @ s' # us" "rstep (set rules) s s'" by auto
    then have "t # ts = (t # ss) @ s # us \<and> ts' = (t # ss) @ s' # us \<and> rstep (set rules) s s'"
      using ts1(2) by simp
    then show ?thesis by blast
  next
    case False
    with 5 have "t # ts = [] @ t # ts \<and> ts' = [] @ thvm_rewrite_step rules t # ts
        \<and> rstep (set rules) t (thvm_rewrite_step rules t)" by (auto simp: Let_def)
    then show ?thesis by blast
  qed
qed (auto split: option.splits dest!: try_top_rstep intro: rstep.root)

lemmas rewrite_step_rstep = rewrite_step_rstep_aux(1)

text \<open>
  The converse needs that no rule instance maps a term to itself: such an instance fires at the
  top, and the step stops there without looking below.
\<close>

definition no_loop_rule :: "(trm \<times> trm) list \<Rightarrow> bool" where
  "no_loop_rule rules \<longleftrightarrow> (\<forall>(l, r) \<in> set rules. \<forall>\<sigma>. tsubst \<sigma> l \<noteq> tsubst \<sigma> r)"

lemma no_loop_ruleD: "no_loop_rule rules \<Longrightarrow> (l, r) \<in> set rules \<Longrightarrow> tsubst \<sigma> l \<noteq> tsubst \<sigma> r"
  by (auto simp: no_loop_rule_def)

lemma try_top_changes:
  "rules_ok rules \<Longrightarrow> no_loop_rule rules \<Longrightarrow> rewrite_try_top t rules = Some u \<Longrightarrow> u \<noteq> t"
  using try_top_rstep no_loop_ruleD by metis

lemma rewrite_step_fix_aux:
  "rules_ok rules \<Longrightarrow> no_loop_rule rules \<Longrightarrow> ar_ok t \<Longrightarrow> thvm_rewrite_step rules t = t
   \<Longrightarrow> \<not> rstep (set rules) t u"
  "rules_ok rules \<Longrightarrow> no_loop_rule rules \<Longrightarrow> list_all ar_ok ts \<Longrightarrow> rewrite_children rules ts = None
   \<Longrightarrow> s \<in> set ts \<Longrightarrow> \<not> rstep (set rules) s u"
proof (induction rules t and rules ts arbitrary: u and s u rule: thvm_rewrite_step_rewrite_children.induct)
  case (1 rules x)
  have "rewrite_try_top (FVR x) rules = None"
    using 1 try_top_changes by (force split: option.splits)
  then show ?case using 1 try_top_instance by (fastforce elim!: rstep.cases)
next
  case (2 rules g e v)
  have "rewrite_try_top (ATM g e v) rules = None"
    using 2 try_top_changes by (force split: option.splits)
  then show ?case using 2 try_top_instance by (fastforce elim!: rstep.cases)
next
  case (3 rules l ts)
  have top: "rewrite_try_top (CTR l ts) rules = None"
    using 3 try_top_changes by (force split: option.splits)
  have "rewrite_children rules ts = None"
  proof (cases "rewrite_children rules ts")
    case (Some ts')
    with rewrite_step_rstep_aux(2) [OF "3.prems"(1) Some] top "3.prems" have "ts' = ts"
      by auto
    have "rewrite_children rules ts = Some ts' \<Longrightarrow> ts' \<noteq> ts" for ts ts'
      by (induction ts arbitrary: ts') (auto simp: Let_def split: if_splits)
    with Some \<open>ts' = ts\<close> show ?thesis by blast
  qed simp
  then have args: "\<not> rstep (set rules) s v" if "s \<in> set ts" for s v
    using 3 top that by (auto simp: list_all_iff split: if_splits)
  show ?case
  proof
    assume "rstep (set rules) (CTR l ts) u"
    then show False
    proof cases
      case (root l' r \<sigma>)
      then show ?thesis using top try_top_instance [OF "3.prems"(1)] by metis
    next
      case (arg s t ss us)
      then show ?thesis using args [of s] by auto
    qed
  qed
next
  case (5 rules t ts)
  then show ?case by (auto simp: Let_def split: if_splits)
qed auto

lemma rewrite_step_fix_iff:
  assumes "rules_ok rules" and "no_loop_rule rules" and "ar_ok t"
  shows "thvm_rewrite_step rules t = t \<longleftrightarrow> \<not> (\<exists>u. rstep (set rules) t u)"
  using rewrite_step_fix_aux(1) [OF assms] rewrite_step_rstep [OF assms(1), of t] by metis

subsection \<open>Normalisation\<close>

lemma ar_ok_tsubst: "ar_ok t \<Longrightarrow> (\<And>x. x \<in> tvars t \<Longrightarrow> ar_ok (\<sigma> x)) \<Longrightarrow> ar_ok (tsubst \<sigma> t)"
  by (induction t) (auto simp: list_all_iff)

lemma ar_ok_tsubst_var: "ar_ok (tsubst \<sigma> t) \<Longrightarrow> x \<in> tvars t \<Longrightarrow> ar_ok (\<sigma> x)"
  by (induction t) (auto simp: list_all_iff)

lemma normalize_rtranclp:
  "rules_ok rules \<Longrightarrow> (rstep (set rules))\<^sup>*\<^sup>* t (thvm_rewrite_normalize rules cap t)"
proof (induction rules cap t rule: thvm_rewrite_normalize.induct)
  case (2 rules cap t)
  then show ?case
    using rewrite_step_rstep [of rules t]
    by (auto simp: Let_def intro: converse_rtranclp_into_rtranclp)
qed simp

text \<open>A measure that every step lowers bounds the number of iterations needed.\<close>

lemma normalize_fixpoint:
  assumes "\<And>s. thvm_rewrite_step rules s \<noteq> s \<Longrightarrow> m (thvm_rewrite_step rules s) < m s"
    and "m t < cap"
  shows "thvm_rewrite_step rules (thvm_rewrite_normalize rules cap t) = thvm_rewrite_normalize rules cap t"
  using assms
proof (induction rules cap t rule: thvm_rewrite_normalize.induct)
  case (2 rules cap t)
  show ?case
  proof (cases "thvm_rewrite_step rules t = t")
    case False
    then have "m (thvm_rewrite_step rules t) < cap" using "2.prems" less_le_trans by force
    with 2 False show ?thesis by (simp add: Let_def)
  qed simp
qed simp

subsection \<open>Properties\<close>

text \<open>C6: matching is sound and complete. For a pattern whose variable ids are below 64 and that
  holds no foreign atom, thvm_match from an empty table succeeds exactly when the subject is an
  instance of the pattern, and then applying the table it leaves to the pattern gives the
  subject back.\<close>
theorem match_correct:
  assumes "vars_ok p" and "no_atm p" and "ar_ok p"
  shows "(fst (thvm_match p t Map.empty) \<longleftrightarrow> (\<exists>\<theta>. tsubst \<theta> p = t))
    \<and> (fst (thvm_match p t Map.empty) \<longrightarrow> thvm_subst_apply (snd (thvm_match p t Map.empty)) p = t)"
proof -
  obtain ok \<sigma> where m: "thvm_match p t Map.empty = (ok, \<sigma>)" by fastforce
  have "rs_in_range \<sigma>" using match_range [OF m] by simp
  then have "ok \<Longrightarrow> thvm_subst_apply \<sigma> p = t \<and> tsubst (rs_sub \<sigma>) p = t"
    using match_sound [of p t Map.empty \<sigma>] m subst_apply_tsubst assms(3) by (simp add: rs_matches_def)
  moreover have "tsubst \<theta> p = t \<Longrightarrow> ok" for \<theta>
    using match_complete [OF assms(1,2), of \<theta>] m by auto
  ultimately show ?thesis using m by auto
qed

theorem match_correct_witness:
  "(\<exists>\<theta>. tsubst \<theta> (CTR 1 [FVR 0, FVR 0]) = CTR 1 [CTR 2 [], CTR 2 []])
   \<and> \<not> (\<exists>\<theta>. tsubst \<theta> (CTR 1 [FVR 0, FVR 0]) = CTR 1 [CTR 2 [], CTR 3 []])"
  using match_correct [of "CTR 1 [FVR 0, FVR 0]" "CTR 1 [CTR 2 [], CTR 2 []]"]
    match_correct [of "CTR 1 [FVR 0, FVR 0]" "CTR 1 [CTR 2 [], CTR 3 []]"]
  by (simp add: REWRITE_MAX_VAR_def REWRITE_MAX_ARITY_def)

text \<open>C7: a step is a rewrite step, and no step means irreducible. If thvm_rewrite_step changes a
  term, the result is one application of a rule instance at some position; if no rule instance
  maps a term to itself, it leaves a term unchanged exactly when the term is a normal form.\<close>
theorem rewrite_step_correct:
  assumes "rules_ok rules" and "no_loop_rule rules" and "ar_ok t"
  shows "(thvm_rewrite_step rules t \<noteq> t \<longrightarrow> rstep (set rules) t (thvm_rewrite_step rules t))
    \<and> (thvm_rewrite_step rules t = t \<longleftrightarrow> \<not> (\<exists>u. rstep (set rules) t u))"
  using rewrite_step_rstep [OF assms(1), of t] rewrite_step_fix_iff [OF assms] by blast

theorem rewrite_step_correct_witness:
  "rstep (set [(CTR 1 [FVR 0], FVR 0)]) (CTR 2 [CTR 1 [CTR 3 []]]) (CTR 2 [CTR 3 []])
   \<and> \<not> (\<exists>u. rstep (set [(CTR 1 [FVR 0], FVR 0)]) (CTR 2 [CTR 3 []]) u)"
proof -
  have ok: "rules_ok [(CTR 1 [FVR 0], FVR 0)]"
    by (simp add: REWRITE_MAX_VAR_def REWRITE_MAX_ARITY_def)
  have "CTR 1 [t] \<noteq> t" for t :: trm
    using tsize_child [of t "[t]" 1] by fastforce
  then have nl: "no_loop_rule [(CTR 1 [FVR 0], FVR 0)]" by (simp add: no_loop_rule_def)
  show ?thesis
    using rewrite_step_correct [OF ok nl, of "CTR 2 [CTR 1 [CTR 3 []]]"]
      rewrite_step_correct [OF ok nl, of "CTR 2 [CTR 3 []]"]
    by (simp add: REWRITE_MAX_VAR_def REWRITE_MAX_ARITY_def)
qed

text \<open>C8: normalisation ends in a normal form. If every rewrite step lowers a measure and the step
  cap exceeds the measure of the term, thvm_rewrite_normalize returns a term that the rules
  reach from it by rewrite steps and that no rule rewrites.\<close>
theorem normalize_correct:
  assumes "rules_ok rules" and "\<And>s u. rstep (set rules) s u \<Longrightarrow> m u < (m s :: nat)"
    and "ar_ok (thvm_rewrite_normalize rules cap t)" and "m t < cap"
  shows "(rstep (set rules))\<^sup>*\<^sup>* t (thvm_rewrite_normalize rules cap t)
    \<and> \<not> (\<exists>u. rstep (set rules) (thvm_rewrite_normalize rules cap t) u)"
proof -
  have nl: "no_loop_rule rules"
    unfolding no_loop_rule_def
  proof (clarify)
    fix l r \<sigma>
    assume "(l, r) \<in> set rules" and "tsubst \<sigma> l = tsubst \<sigma> r"
    then show False using assms(2) [OF rstep.root, of l r \<sigma>] by simp
  qed
  have "thvm_rewrite_step rules (thvm_rewrite_normalize rules cap t) = thvm_rewrite_normalize rules cap t"
    using rewrite_step_rstep [OF assms(1)] assms(2,4) by (intro normalize_fixpoint [of _ m]) blast+
  then show ?thesis
    using normalize_rtranclp [OF assms(1)] rewrite_step_fix_iff [OF assms(1) nl assms(3)] by blast
qed

theorem normalize_correct_witness:
  "\<not> (\<exists>u. rstep (set [(CTR 1 [FVR 0], FVR 0)]) (CTR 3 []) u)
   \<and> (rstep (set [(CTR 1 [FVR 0], FVR 0)]))\<^sup>*\<^sup>* (CTR 1 [CTR 1 [CTR 3 []]]) (CTR 3 [])"
proof -
  let ?R = "[(CTR 1 [FVR 0], FVR 0 :: trm)]"
  have ok: "rules_ok ?R" by (simp add: REWRITE_MAX_VAR_def REWRITE_MAX_ARITY_def)
  have dec: "tsize u < tsize s" if "rstep (set ?R) s u" for s u
    using that by induction auto
  show ?thesis
    using normalize_correct [OF ok dec, where cap = 9 and t = "CTR 1 [CTR 1 [CTR 3 []]]"]
    by (simp add: REWRITE_MAX_VAR_def REWRITE_MAX_ARITY_def eval_nat_numeral Let_def)
qed

end
