(* ===== verification/Unify.thy ===== *)
theory Unify
  imports FTerm
begin

text \<open>
  Unification (src/unify/_.c) on terms as values: unify_walk, unify_occurs, thvm_unify with the
  bound-id undo log, and thvm_unify_apply with its node and taint counters. The table is triangular: a binding may mention variables bound earlier
  or later, and the code follows the chains, so none of the recursive functions is structural.
  They are defined by recursion on fuel that bounds the depth of the C call stack; None is a
  call that needs more. The lemmas give, for every table the code can build, fuel that suffices.
\<close>

subsection \<open>The undo log\<close>

record undo_log =
  un_log :: "ext list"
  un_armed :: bool
  un_over :: bool

definition UN_LOG_CAP :: nat where "UN_LOG_CAP = 128"

definition thvm_unify_undo_begin :: "undo_log \<Rightarrow> undo_log" where
  "thvm_unify_undo_begin L = \<lparr>un_log = [], un_armed = True, un_over = False\<rparr>"

definition un_log_bind :: "ext \<Rightarrow> undo_log \<Rightarrow> undo_log" where
  "un_log_bind x L =
     (if \<not> un_armed L then L
      else if length (un_log L) < UN_LOG_CAP then L\<lparr>un_log := un_log L @ [x]\<rparr>
      else L\<lparr>un_over := True\<rparr>)"

definition thvm_unify_undo :: "rsubst \<Rightarrow> undo_log \<Rightarrow> rsubst \<times> undo_log" where
  "thvm_unify_undo \<sigma> L =
     (if un_over L then Map.empty else fold (\<lambda>x s. s(x := None)) (un_log L) \<sigma>,
      \<lparr>un_log = [], un_armed = False, un_over = False\<rparr>)"

subsection \<open>Walking, the occurs check, unification\<close>

definition WALK_FUEL :: nat where "WALK_FUEL = 65"

primrec unify_walk_f :: "nat \<Rightarrow> rsubst \<Rightarrow> trm \<Rightarrow> trm option" where
  "unify_walk_f 0 \<sigma> t = None"
| "unify_walk_f (Suc n) \<sigma> t =
     (case t of
        FVR x \<Rightarrow> if unat x \<ge> REWRITE_MAX_VAR then Some t
                 else (case \<sigma> x of None \<Rightarrow> Some t | Some b \<Rightarrow> unify_walk_f n \<sigma> b)
      | _ \<Rightarrow> Some t)"

definition unify_walk :: "rsubst \<Rightarrow> trm \<Rightarrow> trm option" where
  "unify_walk = unify_walk_f WALK_FUEL"

text \<open>The loop over the children, leaving at the first hit.\<close>

fun any_child :: "(trm \<Rightarrow> bool option) \<Rightarrow> trm list \<Rightarrow> bool option" where
  "any_child f [] = Some False"
| "any_child f (t # ts) =
     (case f t of None \<Rightarrow> None | Some True \<Rightarrow> Some True | Some False \<Rightarrow> any_child f ts)"

primrec unify_occurs :: "nat \<Rightarrow> ext \<Rightarrow> rsubst \<Rightarrow> trm \<Rightarrow> bool option" where
  "unify_occurs 0 x \<sigma> t = None"
| "unify_occurs (Suc n) x \<sigma> t =
     (case unify_walk \<sigma> t of
        None \<Rightarrow> None
      | Some (FVR y) \<Rightarrow> Some (y = x)
      | Some (CTR l ts) \<Rightarrow> any_child (unify_occurs n x \<sigma>) ts
      | Some (ATM g e v) \<Rightarrow> Some False)"

type_synonym ustate = "rsubst \<times> undo_log"

text \<open>The loop over the two argument vectors, leaving at the first failure.\<close>

fun unify_args :: "(trm \<Rightarrow> trm \<Rightarrow> ustate \<Rightarrow> (bool \<times> ustate) option) \<Rightarrow> trm list \<Rightarrow> trm list \<Rightarrow> ustate
    \<Rightarrow> (bool \<times> ustate) option" where
  "unify_args f (s # ss) (t # ts) st =
     (case f s t st of
        None \<Rightarrow> None
      | Some (ok, st') \<Rightarrow> if ok then unify_args f ss ts st' else Some (False, st'))"
| "unify_args f _ _ st = Some (True, st)"

text \<open>Binding x to t, after the occurs check.\<close>

definition unify_bind :: "nat \<Rightarrow> ext \<Rightarrow> trm \<Rightarrow> ustate \<Rightarrow> (bool \<times> ustate) option" where
  "unify_bind n x t st =
     (if unat x \<ge> REWRITE_MAX_VAR then Some (False, st)
      else case unify_occurs n x (fst st) t of
             None \<Rightarrow> None
           | Some True \<Rightarrow> Some (False, st)
           | Some False \<Rightarrow> Some (True, (fst st)(x \<mapsto> t), un_log_bind x (snd st)))"

primrec thvm_unify :: "nat \<Rightarrow> trm \<Rightarrow> trm \<Rightarrow> ustate \<Rightarrow> (bool \<times> ustate) option" where
  "thvm_unify 0 s0 t0 st = None"
| "thvm_unify (Suc n) s0 t0 st =
     (case (unify_walk (fst st) s0, unify_walk (fst st) t0) of
        (Some s, Some t) \<Rightarrow>
          if kbo_eq s t then Some (True, st)
          else (case (s, t) of
                  (FVR x, _) \<Rightarrow> unify_bind (Suc n) x t st
                | (_, FVR y) \<Rightarrow> unify_bind (Suc n) y s st
                | (CTR f ss, CTR g ts) \<Rightarrow>
                    if f \<noteq> g then Some (False, st)
                    else if length ss \<noteq> length ts then Some (False, st)
                    else unify_args (thvm_unify n) ss ts st
                | _ \<Rightarrow> Some (False, st))
      | _ \<Rightarrow> None)"

subsection \<open>Applying a unifier\<close>

text \<open>
  The result with the increments of g_unify_apply_cells and g_unify_apply_taint.
\<close>

fun apply_args :: "(trm \<Rightarrow> (trm \<times> nat \<times> nat) option) \<Rightarrow> trm list \<Rightarrow> (trm list \<times> nat \<times> nat) option" where
  "apply_args f [] = Some ([], 0, 0)"
| "apply_args f (t # ts) =
     (case f t of
        None \<Rightarrow> None
      | Some (u, c, d) \<Rightarrow>
          (case apply_args f ts of None \<Rightarrow> None | Some (us, c', d') \<Rightarrow> Some (u # us, c + c', d + d')))"

primrec thvm_unify_apply :: "nat \<Rightarrow> rsubst \<Rightarrow> trm \<Rightarrow> (trm \<times> nat \<times> nat) option" where
  "thvm_unify_apply 0 \<sigma> t = None"
| "thvm_unify_apply (Suc n) \<sigma> t =
     (case unify_walk \<sigma> t of
        None \<Rightarrow> None
      | Some (FVR x) \<Rightarrow> Some (FVR x, 1, 0)
      | Some (ATM g e v) \<Rightarrow> Some (ATM g e v, 1, 0)
      | Some (CTR l ts) \<Rightarrow>
          if length ts > REWRITE_MAX_ARITY then Some (CTR l ts, 1, 1)
          else (case apply_args (thvm_unify_apply n \<sigma>) ts of
                  None \<Rightarrow> None
                | Some (us, c, d) \<Rightarrow> Some (CTR l us, 1 + c, d)))"

subsection \<open>Heights\<close>

fun thgt :: "trm \<Rightarrow> nat" where
  "thgt (CTR l ts) = Suc (fold max (map thgt ts) 0)"
| "thgt _ = 0"

lemma fold_max_le: "fold max xs a \<le> b \<longleftrightarrow> a \<le> b \<and> (\<forall>x \<in> set xs. x \<le> b)" for a b :: nat
  by (induction xs arbitrary: a) auto

lemma thgt_CTR_le: "thgt (CTR l ts) \<le> Suc b \<longleftrightarrow> (\<forall>t \<in> set ts. thgt t \<le> b)"
  by (simp add: fold_max_le)

lemma thgt_child: "t \<in> set ts \<Longrightarrow> thgt t < thgt (CTR l ts)"
  using thgt_CTR_le [of l ts "thgt (CTR l ts) - 1"] by fastforce

declare thgt.simps(1) [simp del]

lemma thgt_tsubst_le:
  "(\<And>x. x \<in> tvars t \<Longrightarrow> thgt (\<theta> x) \<le> b) \<Longrightarrow> thgt (tsubst \<theta> t) \<le> thgt t + b"
proof (induction t)
  case (CTR l ts)
  obtain h where h: "thgt (CTR l ts) = Suc h" by (cases "thgt (CTR l ts)") (auto simp: thgt.simps)
  then have "\<forall>t \<in> set ts. thgt t \<le> h" using thgt_CTR_le [of l ts h] by simp
  with CTR have "\<forall>t \<in> set ts. thgt (tsubst \<theta> t) \<le> h + b" by fastforce
  then show ?case using h thgt_CTR_le [of l "map (tsubst \<theta>) ts" "h + b"] by simp
qed auto

subsection \<open>Tables the code can build\<close>

text \<open>
  resolves \<sigma> \<theta> \<rho>: the table \<sigma> is acyclic, witnessed by the rank \<rho>, and \<theta> is the idempotent
  substitution it stands for, all chains followed.
\<close>

definition resolves :: "rsubst \<Rightarrow> tsub \<Rightarrow> (ext \<Rightarrow> nat) \<Rightarrow> bool" where
  "resolves \<sigma> \<theta> \<rho> \<longleftrightarrow>
     rs_in_range \<sigma>
     \<and> (\<forall>x t. \<sigma> x = Some t \<longrightarrow> \<theta> x = tsubst \<theta> t)
     \<and> (\<forall>x. \<sigma> x = None \<longrightarrow> \<theta> x = FVR x)
     \<and> (\<forall>x t y. \<sigma> x = Some t \<longrightarrow> y \<in> tvars t \<longrightarrow> \<rho> y < \<rho> x)"

definition acyclic_rs :: "rsubst \<Rightarrow> bool" where
  "acyclic_rs \<sigma> \<longleftrightarrow> (\<exists>\<theta> \<rho>. resolves \<sigma> \<theta> \<rho>)"

lemma resolves_empty: "resolves Map.empty FVR \<rho>"
  by (simp add: resolves_def)

lemma acyclic_rs_empty [simp]: "acyclic_rs Map.empty"
  unfolding acyclic_rs_def using resolves_empty by blast

lemma resolvesD:
  assumes "resolves \<sigma> \<theta> \<rho>"
  shows "rs_in_range \<sigma>" and "\<sigma> x = Some t \<Longrightarrow> \<theta> x = tsubst \<theta> t"
    and "\<sigma> x = None \<Longrightarrow> \<theta> x = FVR x"
    and "\<sigma> x = Some t \<Longrightarrow> y \<in> tvars t \<Longrightarrow> \<rho> y < \<rho> x"
  using assms by (auto simp: resolves_def)

text \<open>Resolved terms hold no bound variable.\<close>

lemma resolves_unbound:
  assumes "resolves \<sigma> \<theta> \<rho>" and "y \<in> tvars (\<theta> x)"
  shows "\<sigma> y = None"
  using assms(2)
proof (induction "\<rho> x" arbitrary: x rule: less_induct)
  case less
  show ?case
  proof (cases "\<sigma> x")
    case None
    then show ?thesis using less.prems resolvesD [OF assms(1)] by auto
  next
    case (Some t)
    with less.prems obtain z where "z \<in> tvars t" "y \<in> tvars (\<theta> z)"
      using resolvesD(2) [OF assms(1) Some] by (auto simp: tvars_tsubst)
    then show ?thesis using less.hyps resolvesD(4) [OF assms(1) Some] by blast
  qed
qed

lemma resolves_idem: "resolves \<sigma> \<theta> \<rho> \<Longrightarrow> tsubst \<theta> (tsubst \<theta> t) = tsubst \<theta> t"
  unfolding tsubst_tsubst
  by (rule tsubst_cong) (metis tcomp_def resolves_unbound resolvesD(3) tsubst_FVR tsubst_cong)

text \<open>The height of a resolved term is bounded by the heights of the bindings.\<close>

definition rs_hgt :: "rsubst \<Rightarrow> ext \<Rightarrow> nat" where
  "rs_hgt \<sigma> x = (case \<sigma> x of None \<Rightarrow> 0 | Some t \<Rightarrow> thgt t)"

lemma rs_dom: "rs_in_range \<sigma> \<Longrightarrow> dom \<sigma> \<subseteq> {x. unat x < REWRITE_MAX_VAR}"
  by (auto simp: rs_in_range_def)

lemma card_in_range: "card {x :: ext. unat x < REWRITE_MAX_VAR} \<le> REWRITE_MAX_VAR"
proof -
  have "inj_on (unat :: ext \<Rightarrow> nat) {x. unat x < REWRITE_MAX_VAR}" by (auto simp: inj_on_def word_unat_eq_iff)
  then have "card {x :: ext. unat x < REWRITE_MAX_VAR} \<le> card {..< REWRITE_MAX_VAR}"
    by (rule card_inj_on_le) auto
  then show ?thesis by simp
qed

lemma rs_dom_finite: "rs_in_range \<sigma> \<Longrightarrow> finite (dom \<sigma>)"
  by simp

lemma rs_dom_card: "rs_in_range \<sigma> \<Longrightarrow> card (dom \<sigma>) \<le> REWRITE_MAX_VAR"
  using card_mono [OF finite rs_dom] card_in_range le_trans by blast

lemma thgt_resolved_var:
  assumes "resolves \<sigma> \<theta> \<rho>"
  shows "thgt (\<theta> x) \<le> (\<Sum>y \<in> {y \<in> dom \<sigma>. \<rho> y \<le> \<rho> x}. rs_hgt \<sigma> y)"
proof (induction "\<rho> x" arbitrary: x rule: less_induct)
  case less
  show ?case
  proof (cases "\<sigma> x")
    case None
    then show ?thesis using resolvesD(3) [OF assms] by simp
  next
    case (Some t)
    let ?B = "\<Sum>y \<in> {y \<in> dom \<sigma>. \<rho> y < \<rho> x}. rs_hgt \<sigma> y"
    have "thgt (\<theta> y) \<le> ?B" if "y \<in> tvars t" for y
    proof -
      have lt: "\<rho> y < \<rho> x" using resolvesD(4) [OF assms Some that] .
      have "thgt (\<theta> y) \<le> (\<Sum>z \<in> {z \<in> dom \<sigma>. \<rho> z \<le> \<rho> y}. rs_hgt \<sigma> z)" by (rule less.hyps [OF lt])
      also have "\<dots> \<le> ?B" using lt by (intro sum_mono2) auto
      finally show ?thesis .
    qed
    then have "thgt (\<theta> x) \<le> thgt t + ?B"
      using thgt_tsubst_le [of t \<theta> ?B] resolvesD(2) [OF assms Some] by simp
    also have "\<dots> = (\<Sum>y \<in> insert x {y \<in> dom \<sigma>. \<rho> y < \<rho> x}. rs_hgt \<sigma> y)"
      using Some by (simp add: rs_hgt_def)
    also have "\<dots> \<le> (\<Sum>y \<in> {y \<in> dom \<sigma>. \<rho> y \<le> \<rho> x}. rs_hgt \<sigma> y)"
      using Some by (intro sum_mono2) auto
    finally show ?thesis .
  qed
qed

lemma thgt_resolved:
  assumes "resolves \<sigma> \<theta> \<rho>"
  shows "thgt (tsubst \<theta> t) \<le> thgt t + (\<Sum>y \<in> dom \<sigma>. rs_hgt \<sigma> y)"
proof (rule thgt_tsubst_le)
  fix x
  have "thgt (\<theta> x) \<le> (\<Sum>y \<in> {y \<in> dom \<sigma>. \<rho> y \<le> \<rho> x}. rs_hgt \<sigma> y)"
    by (rule thgt_resolved_var [OF assms])
  also have "\<dots> \<le> (\<Sum>y \<in> dom \<sigma>. rs_hgt \<sigma> y)" by (rule sum_mono2) auto
  finally show "thgt (\<theta> x) \<le> (\<Sum>y \<in> dom \<sigma>. rs_hgt \<sigma> y)" .
qed


subsection \<open>The walk ends\<close>

definition walked :: "rsubst \<Rightarrow> trm \<Rightarrow> bool" where
  "walked \<sigma> t \<longleftrightarrow> (\<forall>x. t = FVR x \<longrightarrow> \<sigma> x = None)"

lemma walk_f_resolves:
  assumes "resolves \<sigma> \<theta> \<rho>"
    and "\<And>x. t = FVR x \<Longrightarrow> card {y \<in> dom \<sigma>. \<rho> y \<le> \<rho> x} < n" and "0 < n"
  shows "\<exists>u. unify_walk_f n \<sigma> t = Some u \<and> tsubst \<theta> u = tsubst \<theta> t \<and> walked \<sigma> u
      \<and> (u = t \<or> u \<in> ran \<sigma>)"
  using assms(2,3)
proof (induction n arbitrary: t)
  case (Suc n)
  show ?case
  proof (cases t)
    case (FVR x)
    show ?thesis
    proof (cases "\<sigma> x")
      case None
      then show ?thesis using FVR by (auto simp: walked_def)
    next
      case (Some b)
      have rng: "unat x < REWRITE_MAX_VAR"
        using resolvesD(1) [OF assms(1)] Some by (rule rs_in_rangeD)
      have lt: "card {y \<in> dom \<sigma>. \<rho> y \<le> \<rho> x} < Suc n" using Suc.prems FVR by blast
      have "card {y \<in> dom \<sigma>. \<rho> y \<le> \<rho> z} < n" if "b = FVR z" for z
      proof -
        have "\<rho> z < \<rho> x" using resolvesD(4) [OF assms(1) Some] that by simp
        then have "{y \<in> dom \<sigma>. \<rho> y \<le> \<rho> z} \<subset> {y \<in> dom \<sigma>. \<rho> y \<le> \<rho> x}"
          using Some by (auto intro!: psubsetI dest!: equalityD2)
        then have "card {y \<in> dom \<sigma>. \<rho> y \<le> \<rho> z} < card {y \<in> dom \<sigma>. \<rho> y \<le> \<rho> x}"
          by (intro psubset_card_mono) auto
        with lt show ?thesis by simp
      qed
      moreover have "0 < n"
      proof -
        have "x \<in> {y \<in> dom \<sigma>. \<rho> y \<le> \<rho> x}" using Some by auto
        then have "0 < card {y \<in> dom \<sigma>. \<rho> y \<le> \<rho> x}" by (auto simp: card_gt_0_iff)
        with lt show ?thesis by simp
      qed
      ultimately obtain u where "unify_walk_f n \<sigma> b = Some u" "tsubst \<theta> u = tsubst \<theta> b"
          "walked \<sigma> u" "u = b \<or> u \<in> ran \<sigma>"
        using Suc.IH [of b] by blast
      then show ?thesis
        using FVR Some rng resolvesD(2) [OF assms(1) Some] by (auto simp: ranI)
    qed
  qed (auto simp: walked_def)
qed simp

lemma walk_resolves:
  assumes "resolves \<sigma> \<theta> \<rho>"
  obtains u where "unify_walk \<sigma> t = Some u" "tsubst \<theta> u = tsubst \<theta> t" "walked \<sigma> u"
    "u = t \<or> u \<in> ran \<sigma>"
proof -
  have "card {y \<in> dom \<sigma>. \<rho> y \<le> \<rho> x} < WALK_FUEL" for x
  proof -
    have "card {y \<in> dom \<sigma>. \<rho> y \<le> \<rho> x} \<le> card (dom \<sigma>)" by (intro card_mono) auto
    also have "\<dots> \<le> REWRITE_MAX_VAR" using resolvesD(1) [OF assms] by (rule rs_dom_card)
    finally show ?thesis by (simp add: WALK_FUEL_def REWRITE_MAX_VAR_def)
  qed
  then show ?thesis
    using walk_f_resolves [OF assms, of t WALK_FUEL] that
    by (auto simp: unify_walk_def WALK_FUEL_def)
qed

text \<open>A walked term is resolved at its root.\<close>

lemma walked_resolve:
  assumes "resolves \<sigma> \<theta> \<rho>" and "walked \<sigma> u"
  shows "u = FVR x \<Longrightarrow> tsubst \<theta> u = FVR x"
  using assms by (auto simp: walked_def resolvesD(3))

subsection \<open>The occurs check\<close>

lemma any_child_Some:
  assumes "\<And>t. t \<in> set ts \<Longrightarrow> f t = Some (P t)"
  shows "any_child f ts = Some (\<exists>t \<in> set ts. P t)"
  using assms by (induction ts) (auto split: bool.splits)

lemma occurs_correct:
  assumes "resolves \<sigma> \<theta> \<rho>" and "\<sigma> x = None" and "thgt (tsubst \<theta> t) < n"
  shows "unify_occurs n x \<sigma> t = Some (x \<in> tvars (tsubst \<theta> t))"
  using assms(3)
proof (induction n arbitrary: t)
  case (Suc n)
  obtain u where u: "unify_walk \<sigma> t = Some u" "tsubst \<theta> u = tsubst \<theta> t" "walked \<sigma> u"
    using walk_resolves [OF assms(1)] by metis
  show ?case
  proof (cases u)
    case (FVR y)
    then have "tsubst \<theta> t = FVR y" using walked_resolve [OF assms(1) u(3)] u(2) by metis
    then show ?thesis using FVR u by auto
  next
    case (CTR l ts)
    then have t: "tsubst \<theta> t = CTR l (map (tsubst \<theta>) ts)" using u(2) by simp
    have "unify_occurs n x \<sigma> s = Some (x \<in> tvars (tsubst \<theta> s))" if "s \<in> set ts" for s
      using Suc.prems that thgt_child [of "tsubst \<theta> s" "map (tsubst \<theta>) ts" l]
      by (intro Suc.IH) (auto simp: t)
    then show ?thesis using CTR u t any_child_Some [of ts "unify_occurs n x \<sigma>"] by simp
  next
    case (ATM g e v)
    then have "tsubst \<theta> t = ATM g e v" using u(2) by simp
    then show ?thesis using ATM u(1) by simp
  qed
qed simp


subsection \<open>What a call leaves\<close>

lemma unify_bind_Some:
  assumes "unify_bind n x t st = Some (ok, st')"
  shows "ok \<Longrightarrow> unat x < REWRITE_MAX_VAR \<and> unify_occurs n x (fst st) t = Some False
      \<and> st' = ((fst st)(x \<mapsto> t), un_log_bind x (snd st))"
    and "\<not> ok \<Longrightarrow> st' = st"
  using assms by (auto simp: unify_bind_def split: if_splits option.splits bool.splits)

text \<open>A property of states that every binding of a walked term keeps holds after the call.\<close>

lemma unify_args_keep:
  assumes "unify_args f ss ts st = Some (ok, st')" and "I st"
    and "\<And>s t st ok st'. s \<in> set ss \<Longrightarrow> t \<in> set ts \<Longrightarrow> f s t st = Some (ok, st') \<Longrightarrow> I st \<Longrightarrow> I st'"
  shows "I st'"
  using assms
proof (induction ss arbitrary: ts st)
  case (Cons s ss)
  show ?case
  proof (cases ts)
    case ts: (Cons t ts')
    with Cons.prems(1) obtain ok1 st1 where f: "f s t st = Some (ok1, st1)"
      by (auto split: option.splits)
    with Cons.prems ts have I1: "I st1" by (meson list.set_intros(1))
    show ?thesis
    proof (cases ok1)
      case True
      then have "unify_args f ss ts' st1 = Some (ok, st')" using Cons.prems(1) f ts by simp
      then show ?thesis using I1 
        by (rule Cons.IH) (rule Cons.prems(3), auto simp: ts)
    qed (use Cons.prems(1) f ts I1 in auto)
  qed (use Cons.prems in auto)
qed auto

lemma walk_ran:
  "unify_walk \<sigma> t = Some u \<Longrightarrow> u = t \<or> u \<in> ran \<sigma>"
proof -
  have "unify_walk_f n \<sigma> t = Some u \<Longrightarrow> u = t \<or> u \<in> ran \<sigma>" for n
    by (induction n arbitrary: t) (auto split: trm.splits if_splits option.splits intro: ranI)
  then show "unify_walk \<sigma> t = Some u \<Longrightarrow> u = t \<or> u \<in> ran \<sigma>" by (auto simp: unify_walk_def)
qed

lemma walk_walked:
  "unify_walk \<sigma> t = Some u \<Longrightarrow> rs_in_range \<sigma> \<Longrightarrow> walked \<sigma> u"
proof -
  have "unify_walk_f n \<sigma> t = Some u \<Longrightarrow> rs_in_range \<sigma> \<Longrightarrow> walked \<sigma> u" for n
    by (induction n arbitrary: t)
      (auto simp: walked_def rs_out_of_range split: trm.splits if_splits option.splits)
  then show "unify_walk \<sigma> t = Some u \<Longrightarrow> rs_in_range \<sigma> \<Longrightarrow> walked \<sigma> u" by (auto simp: unify_walk_def)
qed

lemma unify_keep:
  assumes bind: "\<And>x u \<sigma> L. J \<sigma> L \<Longrightarrow> P u \<Longrightarrow> \<sigma> x = None \<Longrightarrow> unat x < REWRITE_MAX_VAR \<Longrightarrow>
      J (\<sigma>(x \<mapsto> u)) (un_log_bind x L)"
    and child: "\<And>l us u. P (CTR l us) \<Longrightarrow> u \<in> set us \<Longrightarrow> P u"
    and ran: "\<And>\<sigma> L u. J \<sigma> L \<Longrightarrow> u \<in> ran \<sigma> \<Longrightarrow> P u" and rng: "\<And>\<sigma> L. J \<sigma> L \<Longrightarrow> rs_in_range \<sigma>"
    and "thvm_unify n s t st = Some (ok, st')" and "P s" and "P t" and "J (fst st) (snd st)"
  shows "J (fst st') (snd st')"
  using assms(5-)
proof (induction n arbitrary: s t st ok st')
  case (Suc n)
  from Suc.prems(1) obtain u v where u: "unify_walk (fst st) s = Some u"
    and v: "unify_walk (fst st) t = Some v" by (auto split: option.splits)
  have P: "P u" "P v" using walk_ran [OF u] walk_ran [OF v] Suc.prems ran by blast+
  have w: "walked (fst st) u" "walked (fst st) v"
    using walk_walked u v rng Suc.prems(4) by blast+
  have bnd: "J (fst st2) (snd st2)"
    if "unify_bind (Suc n) x a st = Some (ok2, st2)" "P a" "fst st x = None" for x a ok2 st2
    using that Suc.prems(4) unify_bind_Some [OF that(1)] bind by (cases ok2) auto
  show ?case
  proof (cases "u = v")
    case True
    then show ?thesis using Suc.prems u v by simp
  next
    case False
    show ?thesis
    proof (cases u; cases v)
      fix f us g vs assume uv: "u = CTR f us" "v = CTR g vs"
      have "J (fst st2) (snd st2)" if "unify_args (thvm_unify n) us vs st = Some (ok2, st2)" for ok2 st2
        using that Suc.prems(4) by (rule unify_args_keep [where I = "\<lambda>st. J (fst st) (snd st)"])
          (use P child uv Suc.IH in blast)
      then show ?thesis using Suc.prems u v uv False by (auto split: if_splits)
    qed (use Suc.prems u v P w False in \<open>auto simp: walked_def intro: bnd\<close>)
  qed
qed simp

lemma unify_map_le:
  assumes "thvm_unify n s t st = Some (ok, st')" and "rs_in_range (fst st)"
  shows "fst st \<subseteq>\<^sub>m fst st' \<and> rs_in_range (fst st')"
  by (rule unify_keep [where J = "\<lambda>\<sigma> L. fst st \<subseteq>\<^sub>m \<sigma> \<and> rs_in_range \<sigma>" and P = "\<lambda>_. True", OF _ _ _ _ assms(1)])
    (use assms(2) in \<open>auto intro: map_le_upd_None\<close>)

lemma unify_ran:
  assumes "thvm_unify n s t st = Some (ok, st')" and "rs_in_range (fst st)"
    and "\<And>l us u. P (CTR l us) \<Longrightarrow> u \<in> set us \<Longrightarrow> P u"
    and "P s" and "P t" and "\<forall>u \<in> ran (fst st). P u"
  shows "\<forall>u \<in> ran (fst st'). P u"
proof -
  have "rs_in_range (fst st') \<and> (\<forall>u \<in> ran (fst st'). P u)"
    by (rule unify_keep [where J = "\<lambda>\<sigma> L. rs_in_range \<sigma> \<and> (\<forall>u \<in> ran \<sigma>. P u)" and P = P, OF _ _ _ _ assms(1)])
      (use assms in auto)
  then show ?thesis by simp
qed

subsection \<open>Solutions\<close>

text \<open>The substitutions under which every binding of the table is an equality.\<close>

definition solves :: "tsub \<Rightarrow> rsubst \<Rightarrow> bool" where
  "solves \<delta> \<sigma> \<longleftrightarrow> (\<forall>x t. \<sigma> x = Some t \<longrightarrow> \<delta> x = tsubst \<delta> t)"

lemma solves_empty [simp]: "solves \<delta> Map.empty"
  by (simp add: solves_def)

lemma solves_mono: "\<sigma> \<subseteq>\<^sub>m \<sigma>' \<Longrightarrow> solves \<delta> \<sigma>' \<Longrightarrow> solves \<delta> \<sigma>"
  unfolding solves_def map_le_def by (metis domI)

lemma solves_upd: "\<sigma> x = None \<Longrightarrow> solves \<delta> (\<sigma>(x \<mapsto> t)) \<longleftrightarrow> solves \<delta> \<sigma> \<and> \<delta> x = tsubst \<delta> t"
  by (auto simp: solves_def)

lemma solves_resolves: "resolves \<sigma> \<theta> \<rho> \<Longrightarrow> solves \<theta> \<sigma>"
  by (auto simp: solves_def resolvesD(2))

lemma solves_resolve_var:
  assumes "resolves \<sigma> \<theta> \<rho>" and "solves \<delta> \<sigma>"
  shows "tsubst \<delta> (\<theta> x) = \<delta> x"
proof (induction "\<rho> x" arbitrary: x rule: less_induct)
  case less
  show ?case
  proof (cases "\<sigma> x")
    case (Some t)
    have "tsubst \<delta> (\<theta> x) = tsubst (tcomp \<delta> \<theta>) t"
      by (simp add: resolvesD(2) [OF assms(1) Some] tsubst_tsubst)
    also have "\<dots> = tsubst \<delta> t"
      using less resolvesD(4) [OF assms(1) Some] by (intro tsubst_cong) (auto simp: tcomp_def)
    finally show ?thesis using assms(2) Some by (simp add: solves_def)
  qed (simp add: resolvesD(3) [OF assms(1)])
qed

lemma solves_resolve:
  "resolves \<sigma> \<theta> \<rho> \<Longrightarrow> solves \<delta> \<sigma> \<Longrightarrow> tsubst \<delta> (tsubst \<theta> t) = tsubst \<delta> t"
  unfolding tsubst_tsubst by (rule tsubst_cong) (simp add: tcomp_def solves_resolve_var)

lemma resolves_upd:
  assumes r: "resolves \<sigma> \<theta> \<rho>" and x: "\<sigma> x = None" "unat x < REWRITE_MAX_VAR"
    and nin: "x \<notin> tvars (tsubst \<theta> t)"
  shows "resolves (\<sigma>(x \<mapsto> t)) (\<lambda>y. tsubst (FVR(x := tsubst \<theta> t)) (\<theta> y))
      (\<lambda>y. if x \<in> tvars (\<theta> y) then \<rho> y + Suc (sum \<rho> (tvars t)) else \<rho> y)"
proof -
  let ?\<theta> = "\<lambda>y. tsubst (FVR(x := tsubst \<theta> t)) (\<theta> y)"
  have app: "tsubst ?\<theta> u = tsubst (FVR(x := tsubst \<theta> t)) (tsubst \<theta> u)" for u
    unfolding tsubst_tsubst by (rule tsubst_cong) (simp add: tcomp_def)
  have tx: "\<theta> x = FVR x" using resolvesD(3) [OF r x(1)] .
  have t': "tsubst ?\<theta> t = tsubst \<theta> t"
    unfolding app using nin by (simp add: tsubst_upd_notin)
  have up: "y \<in> tvars u \<Longrightarrow> x \<in> tvars (\<theta> y) \<Longrightarrow> x \<in> tvars (tsubst \<theta> u)" for y u
    by (auto simp: tvars_tsubst)
  have small: "\<rho> y < Suc (sum \<rho> (tvars t))" if "y \<in> tvars t" for y
    using that member_le_sum [of y "tvars t" \<rho>] by simp
  show ?thesis
    unfolding resolves_def
  proof (intro conjI allI impI)
    show "rs_in_range (\<sigma>(x \<mapsto> t))" using resolvesD(1) [OF r] x(2) by (rule rs_in_range_upd)
  next
    fix y u assume "(\<sigma>(x \<mapsto> t)) y = Some u"
    then show "?\<theta> y = tsubst ?\<theta> u"
      using t' tx resolvesD(2) [OF r] app by (auto split: if_splits)
  next
    fix y assume "(\<sigma>(x \<mapsto> t)) y = None"
    then show "?\<theta> y = FVR y" using resolvesD(3) [OF r] by (auto split: if_splits)
  next
    fix y u z assume y: "(\<sigma>(x \<mapsto> t)) y = Some u" and z: "z \<in> tvars u"
    show "(if x \<in> tvars (\<theta> z) then \<rho> z + Suc (sum \<rho> (tvars t)) else \<rho> z)
        < (if x \<in> tvars (\<theta> y) then \<rho> y + Suc (sum \<rho> (tvars t)) else \<rho> y)"
    proof (cases "y = x")
      case True
      then have "u = t" using y by simp
      then show ?thesis using True tx z nin up [of z t] small [of z] by auto
    next
      case False
      then have yu: "\<sigma> y = Some u" using y by simp
      have "x \<in> tvars (\<theta> z) \<Longrightarrow> x \<in> tvars (\<theta> y)"
        using up [OF z] resolvesD(2) [OF r yu] by simp
      then show ?thesis using resolvesD(4) [OF r yu z] by auto
    qed
  qed
qed

lemma acyclic_rs_upd:
  assumes "resolves \<sigma> \<theta> \<rho>" and "\<sigma> x = None" "unat x < REWRITE_MAX_VAR"
    and "x \<notin> tvars (tsubst \<theta> t)"
  shows "acyclic_rs (\<sigma>(x \<mapsto> t))"
  unfolding acyclic_rs_def using resolves_upd [OF assms] by blast


subsection \<open>Unification computes most general unifiers\<close>

text \<open>
  Enough fuel: more than the height of both sides under every table that extends the current
  one and whose bindings keep the predicate Q, which the terms and their subterms have.
\<close>

definition enough_fuel :: "(trm \<Rightarrow> bool) \<Rightarrow> rsubst \<Rightarrow> nat \<Rightarrow> trm \<Rightarrow> bool" where
  "enough_fuel Q \<sigma> n s \<longleftrightarrow>
     (\<forall>\<sigma>' \<theta> \<rho>. \<sigma> \<subseteq>\<^sub>m \<sigma>' \<longrightarrow> resolves \<sigma>' \<theta> \<rho> \<longrightarrow> (\<forall>u \<in> ran \<sigma>'. Q u) \<longrightarrow> thgt (tsubst \<theta> s) < n)"

lemma enough_fuel_mono: "\<sigma> \<subseteq>\<^sub>m \<sigma>' \<Longrightarrow> enough_fuel Q \<sigma> n s \<Longrightarrow> enough_fuel Q \<sigma>' n s"
  unfolding enough_fuel_def using map_le_trans by blast

lemma enough_fuelD:
  "enough_fuel Q \<sigma> n s \<Longrightarrow> resolves \<sigma> \<theta> \<rho> \<Longrightarrow> \<forall>u \<in> ran \<sigma>. Q u \<Longrightarrow> thgt (tsubst \<theta> s) < n"
  unfolding enough_fuel_def using map_le_refl by blast

lemma walk_resolves_ext:
  assumes "resolves \<sigma>' \<theta> \<rho>" and "\<sigma> \<subseteq>\<^sub>m \<sigma>'" and "unify_walk \<sigma> s = Some u"
  shows "tsubst \<theta> u = tsubst \<theta> s"
proof -
  have ext: "\<theta> x = tsubst \<theta> b" if "\<sigma> x = Some b" for x b
    using assms(2) that resolvesD(2) [OF assms(1)] by (metis domI map_le_def)
  have "unify_walk_f n \<sigma> s = Some u \<Longrightarrow> tsubst \<theta> u = tsubst \<theta> s" for n
    by (induction n arbitrary: s) (auto simp: ext split: trm.splits if_splits option.splits)
  with assms(3) show ?thesis by (auto simp: unify_walk_def)
qed

lemma enough_fuel_child:
  assumes "enough_fuel Q \<sigma> (Suc n) s" and "unify_walk \<sigma> s = Some (CTR l ss)" and "u \<in> set ss"
  shows "enough_fuel Q \<sigma> n u"
  unfolding enough_fuel_def
proof (intro allI impI)
  fix \<sigma>' \<theta> \<rho>
  assume a: "\<sigma> \<subseteq>\<^sub>m \<sigma>'" "resolves \<sigma>' \<theta> \<rho>" "\<forall>u \<in> ran \<sigma>'. Q u"
  have "thgt (tsubst \<theta> u) < thgt (tsubst \<theta> (CTR l ss))"
    using assms(3) thgt_child [of "tsubst \<theta> u" "map (tsubst \<theta>) ss" l] by simp
  moreover have "tsubst \<theta> (CTR l ss) = tsubst \<theta> s" by (rule walk_resolves_ext [OF a(2,1) assms(2)])
  moreover have "thgt (tsubst \<theta> s) < Suc n" using assms(1) a unfolding enough_fuel_def by blast
  ultimately show "thgt (tsubst \<theta> u) < n" by simp
qed

text \<open>What a call promises: it returns; on success the solutions of the new table are the
  solutions of the old one that unify both sides; on failure there are none.\<close>

definition unify_spec :: "trm \<Rightarrow> trm \<Rightarrow> rsubst \<Rightarrow> bool \<Rightarrow> rsubst \<Rightarrow> bool" where
  "unify_spec s t \<sigma> ok \<sigma>' \<longleftrightarrow>
     acyclic_rs \<sigma>' \<and>
     (if ok then \<forall>\<delta>. solves \<delta> \<sigma>' \<longleftrightarrow> solves \<delta> \<sigma> \<and> tsubst \<delta> s = tsubst \<delta> t
      else vars_ok s \<and> vars_ok t \<and> (\<forall>u \<in> ran \<sigma>. vars_ok u)
        \<longrightarrow> (\<nexists>\<delta>. solves \<delta> \<sigma> \<and> tsubst \<delta> s = tsubst \<delta> t))"

lemma solves_walk:
  assumes "unify_walk \<sigma> s = Some u" and "solves \<delta> \<sigma>"
  shows "tsubst \<delta> u = tsubst \<delta> s"
proof -
  have "unify_walk_f n \<sigma> s = Some u \<Longrightarrow> tsubst \<delta> u = tsubst \<delta> s" for n
    by (induction n arbitrary: s)
      (use assms(2) in \<open>auto simp: solves_def split: trm.splits if_splits option.splits\<close>)
  with assms(1) show ?thesis by (auto simp: unify_walk_def)
qed

lemma unify_bind_correct:
  assumes r: "resolves (fst st) \<theta> \<rho>" and x: "fst st x = None"
    and fuel: "thgt (tsubst \<theta> t) < n" and t: "walked (fst st) t" "t \<noteq> FVR x"
  shows "\<exists>ok st'. unify_bind n x t st = Some (ok, st') \<and> unify_spec (FVR x) t (fst st) ok (fst st')"
proof -
  let ?\<sigma> = "fst st"
  have occ: "unify_occurs n x ?\<sigma> t = Some (x \<in> tvars (tsubst \<theta> t))"
    by (rule occurs_correct [OF r x fuel])
  consider (range) "REWRITE_MAX_VAR \<le> unat x"
    | (occurs) "unat x < REWRITE_MAX_VAR" "x \<in> tvars (tsubst \<theta> t)"
    | (bind) "unat x < REWRITE_MAX_VAR" "x \<notin> tvars (tsubst \<theta> t)" by linarith
  then show ?thesis
  proof cases
    case range
    then show ?thesis using r
      by (auto simp: unify_bind_def unify_spec_def acyclic_rs_def)
  next
    case occurs
    have "tsubst \<theta> t \<noteq> FVR x"
    proof (cases t)
      case (FVR y)
      then show ?thesis using t walked_resolve [OF r t(1)] by auto
    qed auto
    then have "tsubst \<delta> (FVR x) \<noteq> tsubst \<delta> t" if "solves \<delta> ?\<sigma>" for \<delta>
      using tsize_tsubst_proper [OF occurs(2), of \<delta>] solves_resolve [OF r that, of t] by auto
    then show ?thesis using occ occurs r
      by (auto simp: unify_bind_def unify_spec_def acyclic_rs_def)
  next
    case bind
    then show ?thesis using occ acyclic_rs_upd [OF r x bind] solves_upd [where \<sigma> = ?\<sigma> and x = x, OF x]
      by (auto simp: unify_bind_def unify_spec_def)
  qed
qed

lemma unify_spec_cong:
  assumes "\<And>\<delta>. solves \<delta> \<sigma> \<Longrightarrow> tsubst \<delta> s = tsubst \<delta> s' \<and> tsubst \<delta> t = tsubst \<delta> t'"
    and "vars_ok s' \<Longrightarrow> \<forall>u \<in> ran \<sigma>. vars_ok u \<Longrightarrow> vars_ok s"
    and "vars_ok t' \<Longrightarrow> \<forall>u \<in> ran \<sigma>. vars_ok u \<Longrightarrow> vars_ok t"
    and "unify_spec s t \<sigma> ok \<sigma>'"
  shows "unify_spec s' t' \<sigma> ok \<sigma>'"
proof -
  have eq: "solves \<delta> \<sigma> \<and> tsubst \<delta> s' = tsubst \<delta> t' \<longleftrightarrow> solves \<delta> \<sigma> \<and> tsubst \<delta> s = tsubst \<delta> t" for \<delta>
    using assms(1) by metis
  show ?thesis
  proof (cases ok)
    case True
    with assms(4) show ?thesis by (auto simp: unify_spec_def eq)
  next
    case False
    with assms(4) show ?thesis unfolding unify_spec_def using assms(2,3)
      by (simp only: if_False eq) metis
  qed
qed

lemma unify_spec_sym: "unify_spec s t \<sigma> ok \<sigma>' \<Longrightarrow> unify_spec t s \<sigma> ok \<sigma>'"
proof -
  have c: "tsubst \<delta> t = tsubst \<delta> s \<longleftrightarrow> tsubst \<delta> s = tsubst \<delta> t" for \<delta> by auto
  show "unify_spec s t \<sigma> ok \<sigma>' \<Longrightarrow> unify_spec t s \<sigma> ok \<sigma>'"
    by (cases ok) (simp_all add: unify_spec_def c)
qed

text \<open>The loop over the arguments, given the promise for each pair.\<close>

definition unify_args_spec :: "trm list \<Rightarrow> trm list \<Rightarrow> rsubst \<Rightarrow> bool \<Rightarrow> rsubst \<Rightarrow> bool" where
  "unify_args_spec ss ts \<sigma> ok \<sigma>' \<longleftrightarrow>
     acyclic_rs \<sigma>' \<and>
     (if ok then \<forall>\<delta>. solves \<delta> \<sigma>' \<longleftrightarrow> solves \<delta> \<sigma> \<and> map (tsubst \<delta>) ss = map (tsubst \<delta>) ts
      else (\<forall>u \<in> set ss \<union> set ts \<union> ran \<sigma>. vars_ok u)
        \<longrightarrow> (\<nexists>\<delta>. solves \<delta> \<sigma> \<and> map (tsubst \<delta>) ss = map (tsubst \<delta>) ts))"

lemma unify_args_correct:
  assumes "length ss = length ts" and "acyclic_rs (fst st)" and "J (fst st)"
    and f: "\<And>s t st. s \<in> set ss \<Longrightarrow> t \<in> set ts \<Longrightarrow> acyclic_rs (fst st) \<Longrightarrow> J (fst st) \<Longrightarrow>
      \<exists>ok st'. f s t st = Some (ok, st') \<and> unify_spec s t (fst st) ok (fst st') \<and> J (fst st')
        \<and> (vars_ok s \<longrightarrow> vars_ok t \<longrightarrow> (\<forall>u \<in> ran (fst st). vars_ok u) \<longrightarrow> (\<forall>u \<in> ran (fst st'). vars_ok u))"
  shows "\<exists>ok st'. unify_args f ss ts st = Some (ok, st') \<and> unify_args_spec ss ts (fst st) ok (fst st')"
  using assms
proof (induction ss arbitrary: ts st)
  case Nil
  then show ?case by (auto simp: unify_args_spec_def)
next
  case (Cons s ss)
  then obtain t ts' where ts: "ts = t # ts'" by (cases ts) auto
  have "\<exists>ok st'. f s t st = Some (ok, st') \<and> unify_spec s t (fst st) ok (fst st') \<and> J (fst st')
      \<and> (vars_ok s \<longrightarrow> vars_ok t \<longrightarrow> (\<forall>u \<in> ran (fst st). vars_ok u) \<longrightarrow> (\<forall>u \<in> ran (fst st'). vars_ok u))"
    using Cons.prems(2,3) ts by (intro Cons.prems(4)) auto
  then obtain ok1 st1
    where f1: "f s t st = Some (ok1, st1)" "unify_spec s t (fst st) ok1 (fst st1)" "J (fst st1)"
      and v1: "vars_ok s \<Longrightarrow> vars_ok t \<Longrightarrow> (\<forall>u \<in> ran (fst st). vars_ok u) \<Longrightarrow> (\<forall>u \<in> ran (fst st1). vars_ok u)"
    by blast
  show ?case
  proof (cases ok1)
    case False
    with f1 ts show ?thesis by (auto simp: unify_spec_def unify_args_spec_def)
  next
    case True
    have "acyclic_rs (fst st1)" using f1 by (simp add: unify_spec_def)
    with Cons.IH [of ts' st1] Cons.prems(1,4) ts f1(3) obtain ok2 st2
      where f2: "unify_args f ss ts' st1 = Some (ok2, st2)" "unify_args_spec ss ts' (fst st1) ok2 (fst st2)"
      by force
    have eq: "solves \<delta> (fst st1) \<longleftrightarrow> solves \<delta> (fst st) \<and> tsubst \<delta> s = tsubst \<delta> t" for \<delta>
      using f1(2) True by (simp add: unify_spec_def)
    have "unify_args_spec (s # ss) ts (fst st) ok2 (fst st2)"
      using f2(2) ts v1 unfolding unify_args_spec_def eq
      by (cases ok2) (simp_all add: conj_assoc, blast)
    with f1(1) f2(1) True ts show ?thesis by auto
  qed
qed


lemma acyclic_rs_range: "acyclic_rs \<sigma> \<Longrightarrow> rs_in_range \<sigma>"
  by (auto simp: acyclic_rs_def resolvesD)

lemma walk_vars_ok:
  "unify_walk \<sigma> s = Some u \<Longrightarrow> vars_ok s \<Longrightarrow> \<forall>u \<in> ran \<sigma>. vars_ok u \<Longrightarrow> vars_ok u"
  using walk_ran by blast

lemma unify_correct_aux:
  assumes child: "\<And>l us u. Q (CTR l us) \<Longrightarrow> u \<in> set us \<Longrightarrow> Q u"
    and "acyclic_rs (fst st)" and "\<forall>u \<in> ran (fst st). Q u" and "Q s" and "Q t"
    and "enough_fuel Q (fst st) n s" and "enough_fuel Q (fst st) n t"
  shows "\<exists>ok st'. thvm_unify n s t st = Some (ok, st') \<and> unify_spec s t (fst st) ok (fst st')"
  using assms(2-)
proof (induction n arbitrary: s t st)
  case 0
  then show ?case by (auto simp: acyclic_rs_def dest: enough_fuelD)
next
  case (Suc n)
  let ?\<sigma> = "fst st"
  obtain \<theta> \<rho> where r: "resolves ?\<sigma> \<theta> \<rho>" using Suc.prems(1) by (auto simp: acyclic_rs_def)
  obtain u v where u: "unify_walk ?\<sigma> s = Some u" "tsubst \<theta> u = tsubst \<theta> s" "walked ?\<sigma> u"
    and v: "unify_walk ?\<sigma> t = Some v" "tsubst \<theta> v = tsubst \<theta> t" "walked ?\<sigma> v"
    using walk_resolves [OF r] by metis
  have fuel: "thgt (tsubst \<theta> u) < Suc n" "thgt (tsubst \<theta> v) < Suc n"
    using enough_fuelD [OF Suc.prems(5) r Suc.prems(2)] enough_fuelD [OF Suc.prems(6) r Suc.prems(2)] u v
    by auto
  have Q: "Q u" "Q v" using walk_ran [OF u(1)] walk_ran [OF v(1)] Suc.prems by blast+
  have unwalk: "unify_spec s t ?\<sigma> ok \<sigma>'" if "unify_spec u v ?\<sigma> ok \<sigma>'" for ok \<sigma>'
    using solves_walk u(1) v(1) walk_vars_ok by (intro unify_spec_cong [OF _ _ _ that]) metis+
  consider (eq) "u = v"
    | (lft) x where "u \<noteq> v" "u = FVR x"
    | (rgt) y where "u \<noteq> v" "\<not> is_fvr u" "v = FVR y"
    | (ctr) f us g vs where "u \<noteq> v" "u = CTR f us" "v = CTR g vs"
    | (atm) "u \<noteq> v" "\<not> is_fvr u" "\<not> is_fvr v" "\<not> (is_ctr u \<and> is_ctr v)"
    by (cases u; cases v) auto
  then show ?case
  proof cases
    case eq
    have "unify_spec u v ?\<sigma> True ?\<sigma>" using eq Suc.prems(1) by (simp add: unify_spec_def)
    with unwalk eq u(1) v(1) show ?thesis by auto
  next
    case lft
    have "?\<sigma> x = None" using u(3) lft by (simp add: walked_def)
    then obtain ok st' where "unify_bind (Suc n) x v st = Some (ok, st')"
        "unify_spec u v ?\<sigma> ok (fst st')"
      using unify_bind_correct [OF r _ fuel(2) v(3)] lft by blast
    with unwalk lft u(1) v(1) show ?thesis by auto
  next
    case rgt
    have "?\<sigma> y = None" using v(3) rgt by (simp add: walked_def)
    then obtain ok st' where "unify_bind (Suc n) y u st = Some (ok, st')"
        "unify_spec v u ?\<sigma> ok (fst st')"
      using unify_bind_correct [OF r _ fuel(1) u(3)] rgt by blast
    with unwalk [OF unify_spec_sym] rgt u(1) v(1) show ?thesis by (cases u) auto
  next
    case atm
    have "tsubst \<delta> u \<noteq> tsubst \<delta> v" for \<delta> using atm by (cases u; cases v) auto
    then have "unify_spec u v ?\<sigma> False ?\<sigma>" using Suc.prems(1) by (simp add: unify_spec_def)
    then have "unify_spec s t ?\<sigma> False ?\<sigma>" by (rule unwalk)
    moreover have "thvm_unify (Suc n) s t st = Some (False, st)"
      using atm by (cases u; cases v) (simp_all add: u(1) v(1))
    ultimately show ?thesis by auto
  next
    case ctr
    show ?thesis
    proof (cases "f = g \<and> length us = length vs")
      case False
      then have "tsubst \<delta> u \<noteq> tsubst \<delta> v" for \<delta> using ctr by (auto dest: map_eq_imp_length_eq)
      then have "unify_spec u v ?\<sigma> False ?\<sigma>" using Suc.prems(1) by (simp add: unify_spec_def)
      then have "unify_spec s t ?\<sigma> False ?\<sigma>" by (rule unwalk)
      moreover have "thvm_unify (Suc n) s t st = Some (False, st)"
        using ctr False by (simp add: u(1) v(1))
      ultimately show ?thesis by auto
    next
      case True
      have "\<exists>ok st'. unify_args (thvm_unify n) us vs st = Some (ok, st')
          \<and> unify_args_spec us vs ?\<sigma> ok (fst st')"
      proof (rule unify_args_correct [where J = "\<lambda>\<sigma>. ?\<sigma> \<subseteq>\<^sub>m \<sigma> \<and> (\<forall>u \<in> ran \<sigma>. Q u)"])
        fix a b and st1 :: ustate
        assume a: "a \<in> set us" and b: "b \<in> set vs" and ac: "acyclic_rs (fst st1)"
          and J: "?\<sigma> \<subseteq>\<^sub>m fst st1 \<and> (\<forall>u \<in> ran (fst st1). Q u)"
        have Qab: "Q a" "Q b" using child Q ctr a b by blast+
        have "enough_fuel Q ?\<sigma> n a" "enough_fuel Q ?\<sigma> n b"
          using enough_fuel_child [OF Suc.prems(5)] enough_fuel_child [OF Suc.prems(6)] u v ctr a b by auto
        then have "enough_fuel Q (fst st1) n a" "enough_fuel Q (fst st1) n b"
          using enough_fuel_mono J by blast+
        moreover have J': "\<forall>u \<in> ran (fst st1). Q u" using J by blast
        ultimately have "\<exists>ok st2. thvm_unify n a b st1 = Some (ok, st2) \<and> unify_spec a b (fst st1) ok (fst st2)"
          using ac Qab by (intro Suc.IH)
        then obtain ok st2
          where st2: "thvm_unify n a b st1 = Some (ok, st2)" "unify_spec a b (fst st1) ok (fst st2)"
          by blast
        have "fst st1 \<subseteq>\<^sub>m fst st2" using unify_map_le [OF st2(1)] acyclic_rs_range [OF ac] by blast
        then have "?\<sigma> \<subseteq>\<^sub>m fst st2" using J map_le_trans by blast
        moreover have "\<forall>u \<in> ran (fst st2). Q u"
          using st2(1) acyclic_rs_range [OF ac] child Qab J' by (rule unify_ran [where P = Q])
        moreover have "\<forall>u \<in> ran (fst st2). vars_ok u"
          if "vars_ok a" "vars_ok b" "\<forall>u \<in> ran (fst st1). vars_ok u"
          by (rule unify_ran [where P = vars_ok, OF st2(1) acyclic_rs_range [OF ac] _ that]) simp
        ultimately show "\<exists>ok st'. thvm_unify n a b st1 = Some (ok, st') \<and> unify_spec a b (fst st1) ok (fst st')
            \<and> (?\<sigma> \<subseteq>\<^sub>m fst st' \<and> (\<forall>u \<in> ran (fst st'). Q u)) \<and> (vars_ok a \<longrightarrow> vars_ok b \<longrightarrow>
              (\<forall>u \<in> ran (fst st1). vars_ok u) \<longrightarrow> (\<forall>u \<in> ran (fst st'). vars_ok u))"
          using st2 by blast
      qed (use True Suc.prems in auto)
      then obtain ok st' where st': "unify_args (thvm_unify n) us vs st = Some (ok, st')"
          "unify_args_spec us vs ?\<sigma> ok (fst st')" by blast
      then have "unify_spec u v ?\<sigma> ok (fst st')"
        using ctr True unfolding unify_spec_def unify_args_spec_def
        by (cases ok) (auto simp: ball_Un)
      then have "unify_spec s t ?\<sigma> ok (fst st')" by (rule unwalk)
      moreover have "thvm_unify (Suc n) s t st = Some (ok, st')"
        using ctr True st'(1) by (simp add: u(1) v(1))
      ultimately show ?thesis by blast
    qed
  qed
qed


subsection \<open>Fuel\<close>

text \<open>More fuel never changes a result.\<close>

lemma any_child_mono:
  "any_child f ts = Some b \<Longrightarrow> (\<And>t c. t \<in> set ts \<Longrightarrow> f t = Some c \<Longrightarrow> g t = Some c) \<Longrightarrow> any_child g ts = Some b"
proof (induction ts)
  case (Cons t ts)
  then obtain c where "f t = Some c" by (auto split: option.splits)
  with Cons show ?case by (cases c) auto
qed simp

lemma occurs_mono: "unify_occurs n x \<sigma> t = Some b \<Longrightarrow> unify_occurs (Suc n) x \<sigma> t = Some b"
proof (induction n arbitrary: t b)
  case (Suc n)
  show ?case
  proof (cases "unify_walk \<sigma> t")
    case (Some u)
    show ?thesis
    proof (cases u)
      case (CTR l ts)
      with Some Suc.prems have "any_child (unify_occurs n x \<sigma>) ts = Some b" by simp
      then have "any_child (unify_occurs (Suc n) x \<sigma>) ts = Some b"
        by (rule any_child_mono) (rule Suc.IH)
      then show ?thesis unfolding unify_occurs.simps(2) [of "Suc n"] using Some CTR by simp
    qed (use Suc.prems Some in auto)
  qed (use Suc.prems in simp)
qed simp

lemma unify_args_mono:
  assumes "unify_args f ss ts st = Some r"
    and "\<And>s t st r. s \<in> set ss \<Longrightarrow> f s t st = Some r \<Longrightarrow> g s t st = Some r"
  shows "unify_args g ss ts st = Some r"
  using assms
proof (induction f ss ts st rule: unify_args.induct)
  case (1 f s ss t ts st)
  then obtain ok st1 where f: "f s t st = Some (ok, st1)" by (auto split: option.splits)
  then have "g s t st = Some (ok, st1)" using 1 by auto
  with 1 f show ?case by (cases ok) auto
qed auto

lemma unify_bind_mono: "unify_bind n x t st = Some r \<Longrightarrow> unify_bind (Suc n) x t st = Some r"
  by (auto simp: unify_bind_def simp del: unify_occurs.simps dest: occurs_mono
      split: if_splits option.splits bool.splits)

lemma unify_mono_Suc: "thvm_unify n s t st = Some r \<Longrightarrow> thvm_unify (Suc n) s t st = Some r"
proof (induction n arbitrary: s t st r)
  case (Suc n)
  from Suc.prems obtain u v where u: "unify_walk (fst st) s = Some u"
    and v: "unify_walk (fst st) t = Some v" by (auto split: option.splits)
  define m where "m = Suc n"
  have args: "unify_args (thvm_unify m) us vs st = Some r"
    if "unify_args (thvm_unify n) us vs st = Some r" for us vs
    unfolding m_def using that by (rule unify_args_mono) (rule Suc.IH)
  have bind: "unify_bind (Suc m) x w st = Some r" if "unify_bind (Suc n) x w st = Some r" for x w
    unfolding m_def using that by (rule unify_bind_mono)
  have "thvm_unify (Suc m) s t st = Some r"
    using Suc.prems by (cases u; cases v) (auto simp: u v intro: args bind split: if_splits)
  then show ?case by (simp only: m_def)
qed simp

lemma unify_mono: "thvm_unify n s t st = Some r \<Longrightarrow> n \<le> m \<Longrightarrow> thvm_unify m s t st = Some r"
  by (induction m) (auto simp: le_Suc_eq intro: unify_mono_Suc simp del: thvm_unify.simps)

text \<open>
  From an empty table, bindings are subterms of the inputs, at most 64 of them: the depth of the
  recursion is at most 65 times the larger height. The calls of the critical-pair and clause
  layers all start from an empty table.
\<close>

definition unify_fuel :: "trm \<Rightarrow> trm \<Rightarrow> nat" where
  "unify_fuel s t = Suc (Suc REWRITE_MAX_VAR * max (thgt s) (thgt t))"

lemma rs_hgt_sum:
  assumes "rs_in_range \<sigma>" and "\<forall>u \<in> ran \<sigma>. thgt u \<le> h"
  shows "(\<Sum>y \<in> dom \<sigma>. rs_hgt \<sigma> y) \<le> REWRITE_MAX_VAR * h"
proof -
  have "(\<Sum>y \<in> dom \<sigma>. rs_hgt \<sigma> y) \<le> (\<Sum>y \<in> dom \<sigma>. h)"
    using assms(2) by (intro sum_mono) (auto simp: rs_hgt_def ran_def)
  also have "\<dots> \<le> REWRITE_MAX_VAR * h" using rs_dom_card [OF assms(1)] by simp
  finally show ?thesis .
qed

lemma unify_correct:
  assumes "unify_fuel s t \<le> n"
  shows "\<exists>ok \<sigma>' L'. thvm_unify n s t (Map.empty, L) = Some (ok, \<sigma>', L') \<and> unify_spec s t Map.empty ok \<sigma>'"
proof -
  let ?h = "max (thgt s) (thgt t)"
  let ?Q = "\<lambda>u. thgt u \<le> ?h"
  have en: "enough_fuel ?Q Map.empty n u" if "thgt u \<le> ?h" for u
    unfolding enough_fuel_def
  proof (intro allI impI)
    fix \<sigma>' \<theta> \<rho>
    assume r: "resolves \<sigma>' \<theta> \<rho>" and Q: "\<forall>u \<in> ran \<sigma>'. ?Q u"
    have "thgt (tsubst \<theta> u) \<le> thgt u + REWRITE_MAX_VAR * ?h"
      using thgt_resolved [OF r, of u] rs_hgt_sum [OF resolvesD(1) [OF r] Q] by linarith
    then show "thgt (tsubst \<theta> u) < n" using that assms by (simp add: unify_fuel_def)
  qed
  have "?Q u" if "?Q (CTR l us)" "u \<in> set us" for l us u
    using that(1) thgt_child [OF that(2), of l] by linarith
  then have "\<exists>ok st'. thvm_unify n s t (Map.empty, L) = Some (ok, st')
      \<and> unify_spec s t (fst (Map.empty :: rsubst, L)) ok (fst st')"
    using en by (intro unify_correct_aux [where Q = ?Q]) auto
  then show ?thesis by force
qed

subsection \<open>Applying a unifier is substitution\<close>

lemma apply_args_Some:
  assumes "\<And>t. t \<in> set ts \<Longrightarrow> f t = Some (g t, c t, 0)"
  shows "apply_args f ts = Some (map g ts, sum_list (map c ts), 0)"
  using assms by (induction ts) auto

lemma unify_apply_correct:
  assumes r: "resolves \<sigma> \<theta> \<rho>" and "thgt (tsubst \<theta> t) < n" and "ar_ok (tsubst \<theta> t)"
  shows "thvm_unify_apply n \<sigma> t = Some (tsubst \<theta> t, tsize (tsubst \<theta> t), 0)"
  using assms(2,3)
proof (induction n arbitrary: t)
  case (Suc n)
  obtain u where u: "unify_walk \<sigma> t = Some u" "tsubst \<theta> u = tsubst \<theta> t" "walked \<sigma> u"
    using walk_resolves [OF r] by metis
  show ?case
  proof (cases u)
    case (FVR y)
    then have "tsubst \<theta> t = FVR y" using walked_resolve [OF r u(3)] u(2) by metis
    then show ?thesis using FVR u(1) by simp
  next
    case (ATM g e v)
    then have "tsubst \<theta> t = ATM g e v" using u(2) by simp
    then show ?thesis using ATM u(1) by simp
  next
    case (CTR l ts)
    then have t: "tsubst \<theta> t = CTR l (map (tsubst \<theta>) ts)" using u(2) by simp
    have "thvm_unify_apply n \<sigma> s = Some (tsubst \<theta> s, tsize (tsubst \<theta> s), 0)" if "s \<in> set ts" for s
      using Suc.prems that thgt_child [of "tsubst \<theta> s" "map (tsubst \<theta>) ts" l]
      by (intro Suc.IH) (auto simp: t list_all_iff)
    then have "apply_args (thvm_unify_apply n \<sigma>) ts
        = Some (map (tsubst \<theta>) ts, sum_list (map (\<lambda>s. tsize (tsubst \<theta> s)) ts), 0)"
      by (rule apply_args_Some)
    moreover have "length ts \<le> REWRITE_MAX_ARITY" using Suc.prems(2) by (simp add: t)
    ultimately show ?thesis using CTR u(1) t by (simp add: comp_def)
  qed
qed simp

text \<open>Fuel for applying a table: the heights of its bindings and of the term.\<close>

definition apply_fuel :: "rsubst \<Rightarrow> trm \<Rightarrow> nat" where
  "apply_fuel \<sigma> t = Suc (thgt t + sum_list (map (\<lambda>i. rs_hgt \<sigma> (of_nat i)) [0..<REWRITE_MAX_VAR]))"

lemma rs_hgt_list:
  assumes "rs_in_range \<sigma>"
  shows "(\<Sum>y \<in> dom \<sigma>. rs_hgt \<sigma> y) \<le> sum_list (map (\<lambda>i. rs_hgt \<sigma> (of_nat i)) [0..<REWRITE_MAX_VAR])"
proof -
  have sub: "dom \<sigma> \<subseteq> of_nat ` {..<REWRITE_MAX_VAR}"
  proof
    fix x assume "x \<in> dom \<sigma>"
    then have "unat x < REWRITE_MAX_VAR" using assms by (auto simp: rs_in_range_def)
    then show "x \<in> of_nat ` {..<REWRITE_MAX_VAR}" by (intro image_eqI [of _ _ "unat x"]) auto
  qed
  have inj: "inj_on (of_nat :: nat \<Rightarrow> ext) {..<REWRITE_MAX_VAR}"
    by (rule inj_onI) (auto simp: REWRITE_MAX_VAR_def word_of_nat_eq_iff take_bit_nat_eq_self)
  have "(\<Sum>y \<in> dom \<sigma>. rs_hgt \<sigma> y) \<le> (\<Sum>y \<in> of_nat ` {..<REWRITE_MAX_VAR}. rs_hgt \<sigma> y)"
    using sub by (intro sum_mono2) auto
  also have "\<dots> = (\<Sum>i \<in> {..<REWRITE_MAX_VAR}. rs_hgt \<sigma> (of_nat i))"
    using inj by (simp add: sum.reindex)
  also have "\<dots> = sum_list (map (\<lambda>i. rs_hgt \<sigma> (of_nat i)) [0..<REWRITE_MAX_VAR])"
    by (simp add: sum_list_sum_nth atLeast0LessThan)
  finally show ?thesis .
qed

lemma apply_fuel_enough:
  assumes "resolves \<sigma> \<theta> \<rho>"
  shows "thgt (tsubst \<theta> t) < apply_fuel \<sigma> t"
  using thgt_resolved [OF assms, of t] rs_hgt_list [OF resolvesD(1) [OF assms]]
  by (simp add: apply_fuel_def)

subsection \<open>The calls from an empty table\<close>

text \<open>
  unify_top and unify_apply_top are the two functions with the fuel that suffices; the branch
  for a call that runs out of it is never taken (unify_top_total, unify_apply_top_total).
\<close>

definition idle_log :: undo_log where
  "idle_log = \<lparr>un_log = [], un_armed = False, un_over = False\<rparr>"

definition unify_top :: "trm \<Rightarrow> trm \<Rightarrow> bool \<times> rsubst" where
  "unify_top s t =
     (case thvm_unify (unify_fuel s t) s t (Map.empty, idle_log) of
        Some (ok, \<sigma>, L) \<Rightarrow> (ok, \<sigma>) | None \<Rightarrow> (False, Map.empty))"

definition unify_apply_top :: "rsubst \<Rightarrow> trm \<Rightarrow> trm" where
  "unify_apply_top \<sigma> t =
     (case thvm_unify_apply (apply_fuel \<sigma> t) \<sigma> t of Some (u, c, d) \<Rightarrow> u | None \<Rightarrow> t)"

lemma unify_top_spec: "unify_top s t = (ok, \<sigma>) \<Longrightarrow> unify_spec s t Map.empty ok \<sigma>"
  using unify_correct [OF order_refl, of s t idle_log] by (auto simp: unify_top_def)

text \<open>Most general unifiers, with the factorisation that defines them.\<close>

definition is_mgu :: "tsub \<Rightarrow> trm \<Rightarrow> trm \<Rightarrow> bool" where
  "is_mgu \<theta> s t \<longleftrightarrow> tsubst \<theta> s = tsubst \<theta> t
     \<and> (\<forall>\<delta>. tsubst \<delta> s = tsubst \<delta> t \<longrightarrow> tcomp \<delta> \<theta> = \<delta>)"

lemma unify_top_mgu:
  assumes "unify_top s t = (True, \<sigma>)"
  obtains \<theta> \<rho> where "resolves \<sigma> \<theta> \<rho>" and "is_mgu \<theta> s t"
proof -
  have sp: "acyclic_rs \<sigma>" "\<And>\<delta>. solves \<delta> \<sigma> \<longleftrightarrow> tsubst \<delta> s = tsubst \<delta> t"
    using unify_top_spec [OF assms] by (auto simp: unify_spec_def)
  then obtain \<theta> \<rho> where r: "resolves \<sigma> \<theta> \<rho>" by (auto simp: acyclic_rs_def)
  moreover have "is_mgu \<theta> s t"
    using sp(2) solves_resolves [OF r] solves_resolve_var [OF r]
    by (auto simp: is_mgu_def tcomp_def)
  ultimately show ?thesis by (rule that)
qed

lemma unify_apply_top_eq:
  assumes "resolves \<sigma> \<theta> \<rho>" and "ar_ok (tsubst \<theta> t)"
  shows "unify_apply_top \<sigma> t = tsubst \<theta> t"
  using unify_apply_correct [OF assms(1) apply_fuel_enough [OF assms(1)] assms(2)]
  by (simp add: unify_apply_top_def)


subsection \<open>The undo log\<close>

text \<open>
  While armed, the log holds every id bound since the window opened, or is marked as overflowed;
  clearing the logged slots then gives back the all-empty table.
\<close>

definition log_covers :: "rsubst \<Rightarrow> undo_log \<Rightarrow> bool" where
  "log_covers \<sigma> L \<longleftrightarrow> un_armed L \<and> (un_over L \<or> dom \<sigma> \<subseteq> set (un_log L))"

lemma log_covers_begin: "log_covers Map.empty (thvm_unify_undo_begin L)"
  by (simp add: log_covers_def thvm_unify_undo_begin_def)

lemma log_covers_bind: "log_covers \<sigma> L \<Longrightarrow> log_covers (\<sigma>(x \<mapsto> t)) (un_log_bind x L)"
  by (auto simp: log_covers_def un_log_bind_def)

lemma log_covers_unify:
  assumes "thvm_unify n s t st = Some (ok, st')" and "rs_in_range (fst st)"
    and "log_covers (fst st) (snd st)"
  shows "rs_in_range (fst st') \<and> log_covers (fst st') (snd st')"
  by (rule unify_keep [where J = "\<lambda>\<sigma> L. rs_in_range \<sigma> \<and> log_covers \<sigma> L" and P = "\<lambda>_. True",
        OF _ _ _ _ assms(1)])
    (use assms(2,3) in \<open>auto intro: log_covers_bind\<close>)

lemma fold_clear: "fold (\<lambda>x s. s(x := None)) xs \<sigma> y = (if y \<in> set xs then None else \<sigma> y)"
  by (induction xs arbitrary: \<sigma>) auto

lemma undo_restores: "log_covers \<sigma> L \<Longrightarrow> fst (thvm_unify_undo \<sigma> L) = Map.empty"
  by (rule ext) (auto simp: log_covers_def thvm_unify_undo_def fold_clear)

text \<open>A window: any number of unification attempts on the same table, succeeding or not.\<close>

fun unify_window :: "(nat \<times> trm \<times> trm) list \<Rightarrow> ustate \<Rightarrow> ustate option" where
  "unify_window [] st = Some st"
| "unify_window ((n, s, t) # qs) st =
     (case thvm_unify n s t st of None \<Rightarrow> None | Some (ok, st') \<Rightarrow> unify_window qs st')"

lemma unify_window_covers:
  "unify_window qs st = Some st' \<Longrightarrow> rs_in_range (fst st) \<Longrightarrow> log_covers (fst st) (snd st)
   \<Longrightarrow> log_covers (fst st') (snd st')"
proof (induction qs st rule: unify_window.induct)
  case (2 n s t qs st)
  then obtain ok st1 where st1: "thvm_unify n s t st = Some (ok, st1)" "unify_window qs st1 = Some st'"
    by (auto split: option.splits)
  from log_covers_unify [OF st1(1) "2.prems"(2,3)] "2.IH" [OF st1(1) refl st1(2)] show ?case
    by simp
qed simp

subsection \<open>Properties\<close>

text \<open>C5: unification returns, with fuel that depends only on the heights of the terms. Called on
  an empty table with any recursion budget of at least unify_fuel, thvm_unify returns, with the
  same result for every such budget, and the table it leaves has no cycle.\<close>
theorem unify_terminates:
  assumes "unify_fuel s t \<le> n"
  shows "\<exists>ok \<sigma> L'. thvm_unify n s t (Map.empty, L) = Some (ok, \<sigma>, L') \<and> acyclic_rs \<sigma>
    \<and> (\<forall>m \<ge> unify_fuel s t. thvm_unify m s t (Map.empty, L) = Some (ok, \<sigma>, L'))"
proof -
  obtain ok \<sigma> L' where r: "thvm_unify (unify_fuel s t) s t (Map.empty, L) = Some (ok, \<sigma>, L')"
    and sp: "unify_spec s t Map.empty ok \<sigma>"
    using unify_correct [OF order_refl] by blast
  then show ?thesis using unify_mono [OF r] assms by (auto simp: unify_spec_def)
qed

theorem unify_terminates_witness:
  "\<exists>ok \<sigma> L'. thvm_unify 200 (CTR 1 [FVR 0, FVR 1]) (CTR 1 [FVR 1, CTR 2 []]) (Map.empty, idle_log)
     = Some (ok, \<sigma>, L')"
proof -
  have "unify_fuel (CTR 1 [FVR 0, FVR 1]) (CTR 1 [FVR 1, CTR 2 []]) \<le> 200"
    by (simp add: unify_fuel_def REWRITE_MAX_VAR_def thgt.simps)
  from unify_terminates [OF this, of idle_log] show ?thesis by blast
qed

text \<open>C2: unification is correct. For terms with variable ids below 64, thvm_unify on an empty
  table succeeds exactly when the terms are unifiable; and when it succeeds (with any variable
  ids), applying the table with thvm_unify_apply is, on terms within the arity bound,
  substitution by a most general unifier, of which every unifier is an instance.\<close>
theorem unify_correct_mgu:
  assumes "unify_top s t = (ok, \<sigma>)"
  shows "(vars_ok s \<and> vars_ok t \<longrightarrow> (ok \<longleftrightarrow> (\<exists>\<delta>. tsubst \<delta> s = tsubst \<delta> t)))
    \<and> (ok \<longrightarrow> (\<exists>\<theta>. tsubst \<theta> s = tsubst \<theta> t
          \<and> (\<forall>\<delta>. tsubst \<delta> s = tsubst \<delta> t \<longrightarrow> tcomp \<delta> \<theta> = \<delta>)
          \<and> (\<forall>u. ar_ok (tsubst \<theta> u) \<longrightarrow> unify_apply_top \<sigma> u = tsubst \<theta> u)))"
proof -
  have "ok \<longrightarrow> (\<exists>\<theta>. is_mgu \<theta> s t \<and> (\<forall>u. ar_ok (tsubst \<theta> u) \<longrightarrow> unify_apply_top \<sigma> u = tsubst \<theta> u))"
  proof
    assume ok
    with assms have "unify_top s t = (True, \<sigma>)" by simp
    then obtain \<theta> \<rho> where "resolves \<sigma> \<theta> \<rho>" "is_mgu \<theta> s t" by (rule unify_top_mgu)
    then show "\<exists>\<theta>. is_mgu \<theta> s t \<and> (\<forall>u. ar_ok (tsubst \<theta> u) \<longrightarrow> unify_apply_top \<sigma> u = tsubst \<theta> u)"
      using unify_apply_top_eq by blast
  qed
  moreover have "vars_ok s \<Longrightarrow> vars_ok t \<Longrightarrow> \<not> ok \<Longrightarrow> \<not> (\<exists>\<delta>. tsubst \<delta> s = tsubst \<delta> t)"
    using unify_top_spec [OF assms] by (auto simp: unify_spec_def)
  ultimately show ?thesis unfolding is_mgu_def by blast
qed

theorem unify_correct_mgu_witness:
  "\<not> (\<exists>\<delta>. tsubst \<delta> (FVR 0) = tsubst \<delta> (CTR 1 [FVR 0]))
   \<and> (\<exists>\<delta>. tsubst \<delta> (CTR 1 [FVR 0]) = tsubst \<delta> (CTR 1 [CTR 2 []]))"
proof -
  let ?c = "CTR 1 [CTR 2 []]"
  have 1: "unify_top (FVR 0) (CTR 1 [FVR 0]) = (False, Map.empty)"
    by (simp add: unify_top_def unify_fuel_def REWRITE_MAX_VAR_def thgt.simps unify_walk_def
        WALK_FUEL_def unify_bind_def eval_nat_numeral)
  have 2: "unify_top (CTR 1 [FVR 0]) ?c = (True, [0 \<mapsto> CTR 2 []])"
    by (simp add: unify_top_def unify_fuel_def REWRITE_MAX_VAR_def thgt.simps unify_walk_def
        WALK_FUEL_def unify_bind_def eval_nat_numeral)
  show ?thesis
    using unify_correct_mgu [OF 1] unify_correct_mgu [OF 2] by (simp add: REWRITE_MAX_VAR_def)
qed

text \<open>C10: the undo log gives back the empty table. After thvm_unify_undo_begin on an empty table
  and any sequence of unification attempts on it, successful or not, overflowing the log or not,
  thvm_unify_undo leaves the table empty, as a full clear would.\<close>
theorem unify_undo_restores:
  assumes "unify_window qs (Map.empty, thvm_unify_undo_begin L) = Some (\<sigma>, L')"
  shows "fst (thvm_unify_undo \<sigma> L') = Map.empty"
  using unify_window_covers [OF assms] log_covers_begin undo_restores by simp

theorem unify_undo_restores_witness:
  "unify_window [(3, FVR 0, CTR 2 []), (3, FVR 1, FVR 0)] (Map.empty, thvm_unify_undo_begin idle_log)
     = Some ([0 \<mapsto> CTR 2 [], 1 \<mapsto> CTR 2 []], \<lparr>un_log = [0, 1], un_armed = True, un_over = False\<rparr>)
   \<and> fst (thvm_unify_undo [0 \<mapsto> CTR 2 [], 1 \<mapsto> CTR 2 []]
          \<lparr>un_log = [0, 1], un_armed = True, un_over = False\<rparr>) = Map.empty"
proof -
  have "unify_window [(3, FVR 0, CTR 2 []), (3, FVR 1, FVR 0)] (Map.empty, thvm_unify_undo_begin idle_log)
     = Some ([0 \<mapsto> CTR 2 [], 1 \<mapsto> CTR 2 []], \<lparr>un_log = [0, 1], un_armed = True, un_over = False\<rparr>)"
    by (simp add: unify_walk_def WALK_FUEL_def unify_bind_def eval_nat_numeral REWRITE_MAX_VAR_def
        un_log_bind_def thvm_unify_undo_begin_def UN_LOG_CAP_def)
  with unify_undo_restores [OF this] show ?thesis by blast
qed

text \<open>The node counter of thvm_unify_apply is exact. On a table without cycles, with enough
  fuel, and when the result is within the arity bound, the increment of g_unify_apply_cells is
  the number of nodes of the result and the taint counter does not move.\<close>
theorem unify_apply_cells_exact:
  assumes "acyclic_rs \<sigma>" and "apply_fuel \<sigma> t \<le> n" and "\<And>\<theta> \<rho>. resolves \<sigma> \<theta> \<rho> \<Longrightarrow> ar_ok (tsubst \<theta> t)"
  shows "\<exists>u. thvm_unify_apply n \<sigma> t = Some (u, tsize u, 0)"
proof -
  obtain \<theta> \<rho> where r: "resolves \<sigma> \<theta> \<rho>" using assms(1) by (auto simp: acyclic_rs_def)
  have "thgt (tsubst \<theta> t) < n" using apply_fuel_enough [OF r, of t] assms(2) by linarith
  then show ?thesis using unify_apply_correct [OF r _ assms(3) [OF r]] by blast
qed

theorem unify_apply_cells_exact_witness:
  "\<exists>u. thvm_unify_apply 200 [0 \<mapsto> CTR 2 []] (CTR 1 [FVR 0, FVR 0]) = Some (u, tsize u, 0)"
proof (rule unify_apply_cells_exact)
  have "acyclic_rs (Map.empty(0 \<mapsto> CTR 2 []))"
    by (rule acyclic_rs_upd [OF resolves_empty]) (auto simp: REWRITE_MAX_VAR_def)
  then show "acyclic_rs [0 \<mapsto> CTR 2 []]" .
  have "sum_list (map (\<lambda>i. rs_hgt [0 \<mapsto> CTR 2 []] (of_nat i)) [0..<REWRITE_MAX_VAR]) \<le> 64"
  proof -
    have "rs_hgt [0 \<mapsto> CTR 2 []] x \<le> 1" for x by (simp add: rs_hgt_def thgt.simps)
    then have "sum_list (map (\<lambda>i. rs_hgt [0 \<mapsto> CTR 2 []] (of_nat i)) [0..<REWRITE_MAX_VAR])
        \<le> sum_list (map (\<lambda>i. 1) [0..<REWRITE_MAX_VAR])" by (intro sum_list_mono)
    then show ?thesis by (simp add: REWRITE_MAX_VAR_def sum_list_triv)
  qed
  then show "apply_fuel [0 \<mapsto> CTR 2 []] (CTR 1 [FVR 0, FVR 0]) \<le> 200"
    by (simp add: apply_fuel_def thgt.simps)
  fix \<theta> \<rho>
  assume "resolves [0 \<mapsto> CTR 2 []] \<theta> \<rho>"
  then have "\<theta> 0 = CTR 2 []" using resolvesD(2) by fastforce
  then show "ar_ok (tsubst \<theta> (CTR 1 [FVR 0, FVR 0]))" by (simp add: REWRITE_MAX_ARITY_def)
qed

end
