(* ===== verification/Rename.thy ===== *)
theory Rename
  imports Unify
begin

text \<open>
  Renaming of variables (src/unify/_.c): thvm_rename_vars, which shifts every variable id by an
  offset, and thvm_normalize_vars, which renumbers the variables of an equation densely in order
  of first occurrence. The theorems say that both are renamings: injective on the variables
  concerned, so that the term or equation keeps its meaning.
\<close>

subsection \<open>The code\<close>

fun rename_vars_rec :: "ext \<Rightarrow> trm \<Rightarrow> trm" where
  "rename_vars_rec k (FVR x) = FVR (x + k)"
| "rename_vars_rec k (CTR l ts) =
     (if length ts > REWRITE_MAX_ARITY then CTR l ts else CTR l (map (rename_vars_rec k) ts))"
| "rename_vars_rec k (ATM g e v) = ATM g e v"

definition thvm_rename_vars :: "trm \<Rightarrow> u32 \<Rightarrow> trm" where
  "thvm_rename_vars t off = (if off = 0 then t else rename_vars_rec (ucast off) t)"

text \<open>
  The dense renumbering: the map is the list of old ids in order of first occurrence, the
  position of an id in it its new id.
\<close>

fun index_of :: "'a \<Rightarrow> 'a list \<Rightarrow> nat option" where
  "index_of x [] = None"
| "index_of x (y # ys) = (if x = y then Some 0 else map_option Suc (index_of x ys))"

fun nv_rewrite :: "trm \<Rightarrow> ext list \<Rightarrow> trm \<times> ext list"
  and nv_rewrite_args :: "trm list \<Rightarrow> ext list \<Rightarrow> trm list \<times> ext list" where
  "nv_rewrite (FVR old) m =
     (case index_of old m of
        Some i \<Rightarrow> (FVR (of_nat i), m)
      | None \<Rightarrow> if length m \<ge> REWRITE_MAX_VAR then (FVR old, m)
                else (FVR (of_nat (length m)), m @ [old]))"
| "nv_rewrite (CTR l ts) m =
     (if length ts > REWRITE_MAX_ARITY then (CTR l ts, m)
      else let (us, m') = nv_rewrite_args ts m in (CTR l us, m'))"
| "nv_rewrite (ATM g e v) m = (ATM g e v, m)"
| "nv_rewrite_args [] m = ([], m)"
| "nv_rewrite_args (t # ts) m =
     (let (u, m1) = nv_rewrite t m; (us, m2) = nv_rewrite_args ts m1 in (u # us, m2))"

definition thvm_normalize_vars :: "trm \<Rightarrow> trm \<Rightarrow> trm \<times> trm" where
  "thvm_normalize_vars l r =
     (let (l', m) = nv_rewrite l []; (r', m') = nv_rewrite r m in (l', r'))"


subsection \<open>Shifting\<close>

lemma rename_tsubst: "ar_ok t \<Longrightarrow> rename_vars_rec k t = tsubst (\<lambda>x. FVR (x + k)) t"
  by (induction t) (auto simp: list_all_iff)

lemma rename_vars_tsubst: "ar_ok t \<Longrightarrow> thvm_rename_vars t off = tsubst (\<lambda>x. FVR (x + ucast off)) t"
proof (cases "off = 0")
  case True
  have "(\<lambda>x. FVR (x + 0)) = FVR" by simp
  then show ?thesis using True by (simp add: thvm_rename_vars_def)
qed (simp add: thvm_rename_vars_def rename_tsubst)

lemma tvars_rename: "ar_ok t \<Longrightarrow> tvars (thvm_rename_vars t off) = (\<lambda>x. x + ucast off) ` tvars t"
  by (auto simp: rename_vars_tsubst tvars_tsubst)

subsection \<open>Dense renumbering\<close>

lemma index_of_None: "index_of x xs = None \<longleftrightarrow> x \<notin> set xs"
  by (induction xs) auto

lemma index_of_Some: "index_of x xs = Some i \<Longrightarrow> i < length xs \<and> xs ! i = x"
  by (induction xs arbitrary: i) (auto split: if_splits)

lemma index_of_append: "x \<in> set xs \<Longrightarrow> index_of x (xs @ ys) = index_of x xs"
  by (induction xs) auto

lemma index_of_snoc: "x \<notin> set xs \<Longrightarrow> index_of x (xs @ [x]) = Some (length xs)"
  by (induction xs) auto

lemma index_of_map: "inj_on f (insert x (set xs)) \<Longrightarrow> index_of (f x) (map f xs) = index_of x xs"
  by (induction xs) (auto simp: inj_on_def)

text \<open>The map only grows, by the new variables of the term, while it has room.\<close>

definition nv_room :: "ext set \<Rightarrow> ext list \<Rightarrow> bool" where
  "nv_room V m \<longleftrightarrow> distinct m \<and> card (V \<union> set m) \<le> REWRITE_MAX_VAR"

lemma nv_room_new: "nv_room {x} m \<Longrightarrow> x \<notin> set m \<Longrightarrow> length m < REWRITE_MAX_VAR"
  by (auto simp: nv_room_def distinct_card)

lemma nv_room_mono: "nv_room V m \<Longrightarrow> U \<subseteq> V \<Longrightarrow> nv_room U m"
  unfolding nv_room_def by (meson Un_mono card_mono finite finite_set le_trans order_refl)

definition nv_step :: "ext set \<Rightarrow> ext list \<Rightarrow> ext list \<Rightarrow> bool" where
  "nv_step V m m' \<longleftrightarrow> (\<exists>xs. m' = m @ xs) \<and> distinct m' \<and> set m' = set m \<union> V"

lemma nv_step_room: "nv_step V m m' \<Longrightarrow> nv_room (V \<union> W) m \<Longrightarrow> nv_room W m'"
  by (auto simp: nv_step_def nv_room_def Un_ac)

lemma nv_step_trans: "nv_step V m m1 \<Longrightarrow> nv_step W m1 m2 \<Longrightarrow> nv_step (V \<union> W) m m2"
  by (auto simp: nv_step_def)

definition nv_map :: "ext list \<Rightarrow> tsub" where
  "nv_map m x = FVR (of_nat (the (index_of x m)))"

lemma nv_map_step: "nv_step V m m' \<Longrightarrow> x \<in> set m \<Longrightarrow> nv_map m' x = nv_map m x"
  by (auto simp: nv_step_def nv_map_def index_of_append)

lemma nv_tsubst_step:
  "nv_step V m m' \<Longrightarrow> tvars t \<subseteq> set m \<Longrightarrow> tsubst (nv_map m') t = tsubst (nv_map m) t"
  by (rule tsubst_cong) (auto simp: nv_map_step)

lemma nv_rewrite_spec:
  "nv_rewrite t m = (u, m') \<Longrightarrow> ar_ok t \<Longrightarrow> nv_room (tvars t) m
   \<Longrightarrow> nv_step (tvars t) m m' \<and> u = tsubst (nv_map m') t"
  "nv_rewrite_args ts m = (us, m') \<Longrightarrow> list_all ar_ok ts \<Longrightarrow> nv_room (\<Union>t \<in> set ts. tvars t) m
   \<Longrightarrow> nv_step (\<Union>t \<in> set ts. tvars t) m m' \<and> us = map (tsubst (nv_map m')) ts"
proof (induction t m and ts m arbitrary: u m' and us m' rule: nv_rewrite_nv_rewrite_args.induct)
  case (1 old m)
  show ?case
  proof (cases "index_of old m")
    case None
    then have "old \<notin> set m" "length m < REWRITE_MAX_VAR"
      using 1(3) nv_room_new by (auto simp: index_of_None)
    then show ?thesis using 1 None
      by (auto simp: nv_step_def nv_map_def index_of_snoc nv_room_def)
  next
    case (Some i)
    then show ?thesis using 1 index_of_Some [OF Some]
      by (auto simp: nv_step_def nv_map_def nv_room_def)
  qed
next
  case (2 l ts m)
  then show ?case by (auto split: prod.splits)
next
  case (3 g e v m)
  then show ?case by (auto simp: nv_step_def nv_room_def)
next
  case (4 m)
  then show ?case by (auto simp: nv_step_def nv_room_def)
next
  case (5 t ts m)
  obtain u1 m1 where t: "nv_rewrite t m = (u1, m1)" by fastforce
  obtain us2 m2 where ts: "nv_rewrite_args ts m1 = (us2, m2)" by fastforce
  have s1: "nv_step (tvars t) m m1 \<and> u1 = tsubst (nv_map m1) t"
    using "5.prems" t by (intro "5.IH"(1)) (auto elim: nv_room_mono)
  then have "nv_room (\<Union>t \<in> set ts. tvars t) m1"
    using "5.prems"(3) by (auto intro: nv_step_room)
  then have s2: "nv_step (\<Union>t \<in> set ts. tvars t) m1 m2 \<and> us2 = map (tsubst (nv_map m2)) ts"
    using "5.prems" t ts by (intro "5.IH"(2)) auto
  have "tvars t \<subseteq> set m1" using s1 by (auto simp: nv_step_def)
  then have "u1 = tsubst (nv_map m2) t" using s1 s2 nv_tsubst_step by metis
  then show ?case using "5.prems"(1) t ts s1 s2 nv_step_trans by auto
qed

text \<open>The renumbering of an equation: one injective map for both sides, onto 0..k-1.\<close>

definition renames_densely :: "ext set \<Rightarrow> (ext \<Rightarrow> ext) \<Rightarrow> bool" where
  "renames_densely V \<pi> \<longleftrightarrow> inj_on \<pi> V \<and> unat ` \<pi> ` V = {..<card V}"

lemma unat_index:
  "i < n \<Longrightarrow> n \<le> REWRITE_MAX_VAR \<Longrightarrow> unat (of_nat i :: ext) = i"
  by (simp add: unat_of_nat REWRITE_MAX_VAR_def)

lemma nv_map_dense:
  assumes "distinct m" and "length m \<le> REWRITE_MAX_VAR"
  shows "renames_densely (set m) (\<lambda>x. of_nat (the (index_of x m)))"
proof -
  have idx: "\<exists>i. index_of x m = Some i \<and> i < length m \<and> m ! i = x" if "x \<in> set m" for x
    using that index_of_None [of x m] index_of_Some [of x m] by (cases "index_of x m") auto
  have nth: "index_of (m ! i) m = Some i" if "i < length m" for i
    using idx [of "m ! i"] that assms(1) by (auto simp: nth_eq_iff_index_eq)
  have inj: "x = y" if x: "x \<in> set m" and y: "y \<in> set m"
      and eq: "(of_nat (the (index_of x m)) :: ext) = of_nat (the (index_of y m))" for x y
  proof -
    obtain i j where "index_of x m = Some i" "i < length m" "m ! i = x"
        "index_of y m = Some j" "j < length m" "m ! j = y" using idx x y by blast
    note ij = this
    have "i = unat (of_nat i :: ext)" "j = unat (of_nat j :: ext)"
      using unat_index [OF _ assms(2)] ij by simp_all
    moreover have "(of_nat i :: ext) = of_nat j" using eq ij by simp
    ultimately have "i = j" by simp
    with ij show ?thesis by simp
  qed
  moreover have "unat ` (\<lambda>x. of_nat (the (index_of x m)) :: ext) ` set m = {..<card (set m)}"
  proof (intro equalityI subsetI)
    fix k assume "k \<in> unat ` (\<lambda>x. of_nat (the (index_of x m)) :: ext) ` set m"
    then show "k \<in> {..<card (set m)}"
      using idx unat_index [OF _ assms(2)] distinct_card [OF assms(1)] by fastforce
  next
    fix k assume "k \<in> {..<card (set m)}"
    then have k: "k < length m" using distinct_card [OF assms(1)] by simp
    then have "k = unat (of_nat (the (index_of (m ! k) m)) :: ext)"
      using nth unat_index [OF k assms(2)] by simp
    then show "k \<in> unat ` (\<lambda>x. of_nat (the (index_of x m)) :: ext) ` set m" using k by auto
  qed
  ultimately show ?thesis by (auto simp: renames_densely_def inj_on_def)
qed

lemma normalize_vars_spec:
  assumes "thvm_normalize_vars l r = (l', r')" and "ar_ok l" and "ar_ok r"
    and "card (tvars l \<union> tvars r) \<le> REWRITE_MAX_VAR"
  shows "\<exists>\<pi>. renames_densely (tvars l \<union> tvars r) \<pi>
      \<and> l' = tsubst (\<lambda>x. FVR (\<pi> x)) l \<and> r' = tsubst (\<lambda>x. FVR (\<pi> x)) r"
proof -
  obtain m where m: "nv_rewrite l [] = (l', m)" using assms(1)
    by (auto simp: thvm_normalize_vars_def split: prod.splits)
  obtain m' where m': "nv_rewrite r m = (r', m')" using assms(1) m
    by (auto simp: thvm_normalize_vars_def split: prod.splits)
  have room: "nv_room (tvars l \<union> tvars r) []" using assms(4) by (simp add: nv_room_def)
  have s1: "nv_step (tvars l) [] m \<and> l' = tsubst (nv_map m) l"
    using m assms(2) room by (intro nv_rewrite_spec) (auto elim: nv_room_mono)
  have s2: "nv_step (tvars r) m m' \<and> r' = tsubst (nv_map m') r"
    using m' assms(3) s1 room by (intro nv_rewrite_spec) (auto intro: nv_step_room)
  have "l' = tsubst (nv_map m') l"
    using s1 s2 by (metis nv_tsubst_step nv_step_def sup_ge2)
  moreover have set: "set m' = tvars l \<union> tvars r" "distinct m'"
    using s1 s2 by (auto simp: nv_step_def)
  moreover have "length m' \<le> REWRITE_MAX_VAR" using set assms(4) distinct_card by metis
  ultimately show ?thesis
    using s2 nv_map_dense [of m'] unfolding nv_map_def [abs_def] by auto
qed

text \<open>Equations that differ by an injective renaming of their variables become identical.\<close>

lemma nv_rewrite_rename:
  "ar_ok t \<Longrightarrow> nv_room (tvars t) m \<Longrightarrow> inj_on f (tvars t \<union> set m) \<Longrightarrow>
     nv_rewrite (tsubst (\<lambda>x. FVR (f x)) t) (map f m) = apsnd (map f) (nv_rewrite t m)"
  "list_all ar_ok ts \<Longrightarrow> nv_room (\<Union>t \<in> set ts. tvars t) m \<Longrightarrow>
     inj_on f ((\<Union>t \<in> set ts. tvars t) \<union> set m) \<Longrightarrow>
     nv_rewrite_args (map (tsubst (\<lambda>x. FVR (f x))) ts) (map f m) = apsnd (map f) (nv_rewrite_args ts m)"
proof (induction t m and ts m rule: nv_rewrite_nv_rewrite_args.induct)
  case (1 old m)
  then have "index_of (f old) (map f m) = index_of old m" by (intro index_of_map) auto
  moreover have "\<not> REWRITE_MAX_VAR \<le> length m" if "index_of old m = None"
    using 1(2) nv_room_new [of old m] that by (auto simp: index_of_None)
  ultimately show ?case by (auto split: option.splits)
next
  case (2 l ts m)
  then show ?case by (auto split: prod.splits)
next
  case (5 t ts m)
  obtain u1 m1 where t: "nv_rewrite t m = (u1, m1)" by fastforce
  have room: "nv_room (tvars t) m" using "5.prems"(2) by (rule nv_room_mono) auto
  have s1: "nv_step (tvars t) m m1" using nv_rewrite_spec(1) [OF t _ room] "5.prems"(1) by auto
  then have room1: "nv_room (\<Union>t \<in> set ts. tvars t) m1"
    using "5.prems"(2) by (auto intro: nv_step_room)
  have "nv_rewrite (tsubst (\<lambda>x. FVR (f x)) t) (map f m) = (u1, map f m1)"
    using "5.IH"(1) "5.prems"(1) inj_on_subset [OF "5.prems"(3)] room t by (simp add: Un_assoc le_supI2)
  moreover have "inj_on f ((\<Union>t \<in> set ts. tvars t) \<union> set m1)"
    using "5.prems"(3) s1 by (auto simp: nv_step_def elim!: inj_on_subset)
  ultimately show ?case
    using "5.IH"(2) [OF t [symmetric] refl] "5.prems"(1) room1 t by (auto split: prod.splits)
qed simp_all

lemma normalize_vars_rename:
  assumes "ar_ok l" and "ar_ok r" and "card (tvars l \<union> tvars r) \<le> REWRITE_MAX_VAR"
    and inj: "inj_on f (tvars l \<union> tvars r)"
  shows "thvm_normalize_vars (tsubst (\<lambda>x. FVR (f x)) l) (tsubst (\<lambda>x. FVR (f x)) r)
      = thvm_normalize_vars l r"
proof -
  obtain l' m where m: "nv_rewrite l [] = (l', m)" by fastforce
  have room: "nv_room (tvars l \<union> tvars r) []" using assms(3) by (simp add: nv_room_def)
  then have rl: "nv_room (tvars l) []" by (rule nv_room_mono) auto
  have s1: "nv_step (tvars l) [] m" using nv_rewrite_spec(1) [OF m assms(1) rl] by simp
  have rr: "nv_room (tvars r) m" using s1 room by (rule nv_step_room)
  have "nv_rewrite (tsubst (\<lambda>x. FVR (f x)) l) [] = (l', map f m)"
    using nv_rewrite_rename(1) [OF assms(1) rl, of f] inj_on_subset [OF inj] m by simp
  moreover have "nv_rewrite (tsubst (\<lambda>x. FVR (f x)) r) (map f m) = apsnd (map f) (nv_rewrite r m)"
    using inj s1 by (intro nv_rewrite_rename(1) [OF assms(2) rr])
      (auto simp: nv_step_def Un_commute)
  ultimately show ?thesis using m by (auto simp: thvm_normalize_vars_def split: prod.splits)
qed

subsection \<open>Properties\<close>

text \<open>C9: normalisation of variables is an alpha-renaming to a dense range, and canonical. For an
  equation within the arity bound with at most 64 distinct variables, thvm_normalize_vars applies
  one injective renaming to both sides, onto the ids 0..k-1, and two equations that differ by an
  injective renaming get the same result.\<close>
theorem normalize_vars_canonical:
  assumes "ar_ok l" and "ar_ok r" and "card (tvars l \<union> tvars r) \<le> REWRITE_MAX_VAR"
  shows "(\<exists>\<pi>. renames_densely (tvars l \<union> tvars r) \<pi>
      \<and> thvm_normalize_vars l r = (tsubst (\<lambda>x. FVR (\<pi> x)) l, tsubst (\<lambda>x. FVR (\<pi> x)) r))
    \<and> (\<forall>f. inj_on f (tvars l \<union> tvars r) \<longrightarrow>
        thvm_normalize_vars (tsubst (\<lambda>x. FVR (f x)) l) (tsubst (\<lambda>x. FVR (f x)) r)
        = thvm_normalize_vars l r)"
proof -
  obtain l' r' where "thvm_normalize_vars l r = (l', r')" by fastforce
  from normalize_vars_spec [OF this assms] this show ?thesis
    using normalize_vars_rename [OF assms] by auto
qed

theorem normalize_vars_canonical_witness:
  "thvm_normalize_vars (CTR 1 [FVR 40, FVR 7]) (CTR 1 [FVR 7, FVR 40])
     = (CTR 1 [FVR 0, FVR 1], CTR 1 [FVR 1, FVR 0])
   \<and> (\<exists>\<pi>. renames_densely {40, 7} \<pi>
        \<and> thvm_normalize_vars (CTR 1 [FVR 40, FVR 7]) (CTR 1 [FVR 7, FVR 40])
          = (CTR 1 [FVR (\<pi> 40), FVR (\<pi> 7)], CTR 1 [FVR (\<pi> 7), FVR (\<pi> 40)]))"
proof -
  have V: "tvars (CTR 1 [FVR 40, FVR 7]) \<union> tvars (CTR 1 [FVR 7, FVR 40]) = {40, 7}" by auto
  have "card {40, 7 :: ext} \<le> REWRITE_MAX_VAR" by (simp add: REWRITE_MAX_VAR_def)
  then show ?thesis
    using normalize_vars_canonical [of "CTR 1 [FVR 40, FVR 7]" "CTR 1 [FVR 7, FVR 40]", unfolded V]
    by (simp add: REWRITE_MAX_ARITY_def REWRITE_MAX_VAR_def thvm_normalize_vars_def)
qed

end
