(* ===== verification/CP.thy ===== *)
theory CP
  imports Rewrite Rename
begin

text \<open>
  Critical pairs (src/cp/_.c): cp_replace_at, cp_subterm_at, cp_walk_positions, cp_visit and the
  enumerators thvm_critical_pairs, thvm_critical_pairs_range, thvm_critical_pairs_pair and
  thvm_critical_pairs_pair_noroot. A position is the list of child indices from the root. The
  output buffer is the list of the pairs written so far (its length is the count), together with
  the two diagnostic counters. The compile-time option THVM_ATP_AC and the trace flag are off.
\<close>

definition CP_RENAME_OFFSET :: u32 where "CP_RENAME_OFFSET = 32"
definition CP_MAX_DEPTH :: nat where "CP_MAX_DEPTH = 64"

subsection \<open>The code\<close>

record critical_pair =
  cp_lhs :: trm
  cp_rhs :: trm
  cp_peak :: "trm option"
  cp_pos :: "u8 list"
  cp_combo :: u8

record cp_state =
  cp_out :: "critical_pair list"
  cp_dropped_capped :: nat
  cp_positions_depth_capped :: nat

record cp_ctx =
  ctx_li :: trm
  ctx_ri :: trm
  ctx_lj :: trm
  ctx_rj :: trm
  ctx_cap :: nat
  ctx_skip_root :: bool
  ctx_need_peak :: bool

fun cp_replace_at :: "trm \<Rightarrow> nat list \<Rightarrow> trm \<Rightarrow> trm" where
  "cp_replace_at t [] repl = repl"
| "cp_replace_at (CTR l ts) (i # p) repl =
     (if i \<ge> length ts \<or> length ts > REWRITE_MAX_ARITY then CTR l ts
      else CTR l (ts[i := cp_replace_at (ts ! i) p repl]))"
| "cp_replace_at t (i # p) repl = t"

fun cp_subterm_at :: "trm \<Rightarrow> nat list \<Rightarrow> trm option" where
  "cp_subterm_at t [] = Some t"
| "cp_subterm_at (CTR l ts) (i # p) = (if i \<ge> length ts then None else cp_subterm_at (ts ! i) p)"
| "cp_subterm_at t (i # p) = None"

text \<open>Preorder over the constructor positions, down to max_depth.\<close>

fun cp_walk_positions :: "(nat list \<Rightarrow> cp_state \<Rightarrow> cp_state) \<Rightarrow> nat \<Rightarrow> trm \<Rightarrow> nat list \<Rightarrow> cp_state \<Rightarrow> cp_state"
  and cp_walk_children :: "(nat list \<Rightarrow> cp_state \<Rightarrow> cp_state) \<Rightarrow> nat \<Rightarrow> trm list \<Rightarrow> nat \<Rightarrow> nat list \<Rightarrow> cp_state \<Rightarrow> cp_state" where
  "cp_walk_positions visit max_depth (FVR x) path st = st"
| "cp_walk_positions visit max_depth (ATM g e v) path st = st"
| "cp_walk_positions visit max_depth (CTR l ts) path st =
     (let st1 = visit path st
      in if length path \<ge> max_depth
         then (if ts \<noteq> []
               then st1\<lparr>cp_positions_depth_capped := Suc (cp_positions_depth_capped st1)\<rparr> else st1)
         else cp_walk_children visit max_depth ts 0 path st1)"
| "cp_walk_children visit max_depth [] i path st = st"
| "cp_walk_children visit max_depth (t # ts) i path st =
     cp_walk_children visit max_depth ts (Suc i) path
       (cp_walk_positions visit max_depth t (path @ [i]) st)"

definition heads_clash :: "trm \<Rightarrow> trm \<Rightarrow> bool" where
  "heads_clash s t \<longleftrightarrow> is_ctr s \<and> is_ctr t \<and> trm_ext s \<noteq> trm_ext t"

definition cp_visit :: "cp_ctx \<Rightarrow> nat list \<Rightarrow> cp_state \<Rightarrow> cp_state" where
  "cp_visit ctx p st =
     (if ctx_skip_root ctx \<and> p = [] then st
      else if length (cp_out st) \<ge> ctx_cap ctx
           then st\<lparr>cp_dropped_capped := Suc (cp_dropped_capped st)\<rparr>
      else case cp_subterm_at (ctx_li ctx) p of
             None \<Rightarrow> st
           | Some sub \<Rightarrow>
               if is_fvr sub then st
               else if heads_clash sub (ctx_lj ctx) then st
               else let (ok, \<sigma>) = unify_top sub (ctx_lj ctx)
                    in if \<not> ok then st
                       else let replaced = cp_replace_at (ctx_li ctx) p (ctx_rj ctx);
                                lhs = unify_apply_top \<sigma> replaced;
                                rhs = unify_apply_top \<sigma> (ctx_ri ctx);
                                peak = (if ctx_need_peak ctx
                                        then Some (unify_apply_top \<sigma> (ctx_li ctx)) else None)
                            in st\<lparr>cp_out := cp_out st @
                                   [\<lparr>cp_lhs = lhs, cp_rhs = rhs, cp_peak = peak, cp_pos = map of_nat p, cp_combo = 0xff\<rparr>]\<rparr>)"

definition thvm_critical_pairs_pair :: "bool \<Rightarrow> trm \<Rightarrow> trm \<Rightarrow> trm \<Rightarrow> trm \<Rightarrow> nat \<Rightarrow> cp_state \<Rightarrow> cp_state" where
  "thvm_critical_pairs_pair need_peak li ri lj rj cap st =
     cp_walk_positions
       (cp_visit \<lparr>ctx_li = li, ctx_ri = ri, ctx_lj = lj, ctx_rj = rj, ctx_cap = cap,
                  ctx_skip_root = False, ctx_need_peak = need_peak\<rparr>) CP_MAX_DEPTH li [] st"

definition thvm_critical_pairs_pair_noroot :: "bool \<Rightarrow> trm \<Rightarrow> trm \<Rightarrow> trm \<Rightarrow> trm \<Rightarrow> nat \<Rightarrow> cp_state \<Rightarrow> cp_state" where
  "thvm_critical_pairs_pair_noroot need_peak li ri lj rj cap st =
     cp_walk_positions
       (cp_visit \<lparr>ctx_li = li, ctx_ri = ri, ctx_lj = lj, ctx_rj = rj, ctx_cap = cap,
                  ctx_skip_root = True, ctx_need_peak = need_peak\<rparr>) CP_MAX_DEPTH li [] st"

text \<open>The two nested loops over the rectangle, as a fold over its index pairs in order.\<close>

definition thvm_critical_pairs_range :: "bool \<Rightarrow> (trm \<times> trm) list \<Rightarrow> nat \<Rightarrow> nat \<Rightarrow> nat \<Rightarrow> nat \<Rightarrow> nat \<Rightarrow> cp_state \<Rightarrow> cp_state" where
  "thvm_critical_pairs_range need_peak rules start_i end_i start_j end_j cap st =
     (let ei = min end_i (length rules); ej = min end_j (length rules)
      in fold (\<lambda>i. fold (\<lambda>j st.
           let (li, ri) = rules ! i;
               lj = thvm_rename_vars (fst (rules ! j)) CP_RENAME_OFFSET;
               rj = thvm_rename_vars (snd (rules ! j)) CP_RENAME_OFFSET
           in cp_walk_positions
                (cp_visit \<lparr>ctx_li = li, ctx_ri = ri, ctx_lj = lj, ctx_rj = rj, ctx_cap = cap,
                           ctx_skip_root = False, ctx_need_peak = need_peak\<rparr>) CP_MAX_DEPTH li [] st)
           [start_j..<ej]) [start_i..<ei] (st\<lparr>cp_out := []\<rparr>))"

definition thvm_critical_pairs :: "bool \<Rightarrow> (trm \<times> trm) list \<Rightarrow> nat \<Rightarrow> cp_state \<Rightarrow> cp_state" where
  "thvm_critical_pairs need_peak rules cap st =
     thvm_critical_pairs_range need_peak rules 0 (length rules) 0 (length rules) cap st"

definition thvm_cp_caps_reset :: "cp_state \<Rightarrow> cp_state" where
  "thvm_cp_caps_reset st = st\<lparr>cp_dropped_capped := 0, cp_positions_depth_capped := 0\<rparr>"

subsection \<open>Positions\<close>

lemma replace_at_subterm:
  "ar_ok t \<Longrightarrow> cp_subterm_at t p = Some s \<Longrightarrow> cp_replace_at t p s = t"
  by (induction t p s rule: cp_replace_at.induct)
    (auto split: if_splits simp: list_all_length)

lemma subterm_at_tsubst:
  "cp_subterm_at t p = Some s \<Longrightarrow> cp_subterm_at (tsubst \<sigma> t) p = Some (tsubst \<sigma> s)"
  by (induction t p rule: cp_subterm_at.induct) (auto split: if_splits)

lemma replace_at_tsubst:
  "cp_subterm_at t p = Some s \<Longrightarrow>
     tsubst \<sigma> (cp_replace_at t p u) = cp_replace_at (tsubst \<sigma> t) p (tsubst \<sigma> u)"
  by (induction t p u rule: cp_replace_at.induct)
    (auto split: if_splits simp: map_update)

lemma ar_ok_replace_at: "ar_ok t \<Longrightarrow> ar_ok u \<Longrightarrow> ar_ok (cp_replace_at t p u)"
  by (induction t p u rule: cp_replace_at.induct)
    (auto simp: list_all_length nth_list_update)

lemma ar_ok_subterm_at: "ar_ok t \<Longrightarrow> cp_subterm_at t p = Some s \<Longrightarrow> ar_ok s"
  by (induction t p rule: cp_subterm_at.induct) (auto simp: list_all_length split: if_splits)

lemma tvars_subterm_at: "cp_subterm_at t p = Some s \<Longrightarrow> tvars s \<subseteq> tvars t"
  by (induction t p rule: cp_subterm_at.induct) (fastforce split: if_splits)+

text \<open>Rewriting at a position.\<close>

lemma rstep_at:
  "ar_ok t \<Longrightarrow> cp_subterm_at t p = Some s \<Longrightarrow> rstep R s u \<Longrightarrow> rstep R t (cp_replace_at t p u)"
proof (induction t p u rule: cp_replace_at.induct)
  case (2 l ts i p repl)
  then have i: "i < length ts" and sub: "cp_subterm_at (ts ! i) p = Some s"
    by (auto split: if_splits)
  have "rstep R (ts ! i) (cp_replace_at (ts ! i) p repl)"
    using 2 i sub by (auto simp: list_all_length)
  then have "rstep R (CTR l (take i ts @ ts ! i # drop (Suc i) ts))
      (CTR l (take i ts @ cp_replace_at (ts ! i) p repl # drop (Suc i) ts))"
    by (rule rstep.arg)
  moreover have "take i ts @ ts ! i # drop (Suc i) ts = ts" using i by (simp add: id_take_nth_drop [symmetric])
  moreover have "take i ts @ cp_replace_at (ts ! i) p repl # drop (Suc i) ts
      = ts[i := cp_replace_at (ts ! i) p repl]" using i by (simp add: upd_conv_take_nth_drop)
  ultimately show ?case using 2 i by simp
qed auto

subsection \<open>The walk\<close>

text \<open>The buffer only grows; what it holds at a visit it holds at the end.\<close>

definition cp_grows :: "cp_state \<Rightarrow> cp_state \<Rightarrow> bool" where
  "cp_grows st st' \<longleftrightarrow> (\<exists>xs. cp_out st' = cp_out st @ xs)"

lemma cp_grows_refl [simp]: "cp_grows st st"
  by (simp add: cp_grows_def)

lemma cp_grows_trans: "cp_grows a b \<Longrightarrow> cp_grows b c \<Longrightarrow> cp_grows a c"
  by (auto simp: cp_grows_def)

lemma cp_grows_capped [simp]:
  "cp_grows st (st'\<lparr>cp_positions_depth_capped := n\<rparr>) \<longleftrightarrow> cp_grows st st'"
  "cp_grows st (st'\<lparr>cp_dropped_capped := n\<rparr>) \<longleftrightarrow> cp_grows st st'"
  "cp_grows (st\<lparr>cp_positions_depth_capped := n\<rparr>) st' \<longleftrightarrow> cp_grows st st'"
  by (simp_all add: cp_grows_def)

lemma cp_grows_length: "cp_grows st st' \<Longrightarrow> length (cp_out st) \<le> length (cp_out st')"
  by (auto simp: cp_grows_def)

lemma cp_visit_grows: "cp_grows st (cp_visit ctx p st)"
  by (auto simp: cp_visit_def Let_def cp_grows_def split: option.splits prod.splits)

lemma walk_grows:
  "(\<And>p st. cp_grows st (visit p st)) \<Longrightarrow> cp_grows st (cp_walk_positions visit d t path st)"
  "(\<And>p st. cp_grows st (visit p st)) \<Longrightarrow> cp_grows st (cp_walk_children visit d ts i path st)"
  by (induction visit d t path st and visit d ts i path st
      rule: cp_walk_positions_cp_walk_children.induct)
    (auto simp: Let_def intro: cp_grows_trans)

text \<open>An invariant of the visits at the positions of the root term holds after the walk.\<close>

lemma subterm_at_append:
  "cp_subterm_at t (p @ q) = Option.bind (cp_subterm_at t p) (\<lambda>s. cp_subterm_at s q)"
  by (induction t p rule: cp_subterm_at.induct) auto

lemma subterm_at_child:
  "cp_subterm_at root path = Some (CTR l ts) \<Longrightarrow> i < length ts \<Longrightarrow>
     cp_subterm_at root (path @ [i]) = Some (ts ! i)"
  by (simp add: subterm_at_append)

lemma walk_invariant:
  "(\<And>p st s. I st \<Longrightarrow> cp_subterm_at root p = Some s \<Longrightarrow> is_ctr s \<Longrightarrow> I (visit p st)) \<Longrightarrow>
   (\<And>st n. I st \<Longrightarrow> I (st\<lparr>cp_positions_depth_capped := n\<rparr>)) \<Longrightarrow>
   cp_subterm_at root path = Some t \<Longrightarrow> I st \<Longrightarrow> I (cp_walk_positions visit d t path st)"
  "(\<And>p st s. I st \<Longrightarrow> cp_subterm_at root p = Some s \<Longrightarrow> is_ctr s \<Longrightarrow> I (visit p st)) \<Longrightarrow>
   (\<And>st n. I st \<Longrightarrow> I (st\<lparr>cp_positions_depth_capped := n\<rparr>)) \<Longrightarrow>
   (\<And>k. k < length ts \<Longrightarrow> cp_subterm_at root (path @ [i + k]) = Some (ts ! k)) \<Longrightarrow> I st \<Longrightarrow>
   I (cp_walk_children visit d ts i path st)"
proof (induction visit d t path st and visit d ts i path st
      rule: cp_walk_positions_cp_walk_children.induct)
  case (3 visit d l ts path st)
  let ?st1 = "visit path st"
  have "I ?st1" using "3.prems" by (metis is_ctr.simps(1))
  moreover have "cp_subterm_at root (path @ [0 + k]) = Some (ts ! k)" if "k < length ts" for k
    using subterm_at_child [OF "3.prems"(3) that] by simp
  ultimately show ?case
    using "3.IH" [OF refl] "3.prems"(1,2) by (auto simp: Let_def)
next
  case (5 visit d t ts i path st)
  have "cp_subterm_at root (path @ [i]) = Some t" using "5.prems"(3) [of 0] by simp
  with "5.IH"(1) "5.prems" have "I (cp_walk_positions visit d t (path @ [i]) st)" by blast
  moreover have "cp_subterm_at root (path @ [Suc i + k]) = Some (ts ! k)" if "k < length ts" for k
    using "5.prems"(3) [of "Suc k"] that by simp
  ultimately show ?case using "5.IH"(2) "5.prems"(1,2) by simp
qed simp_all

text \<open>Every constructor position down to the depth bound is visited.\<close>

lemma walk_visits:
  "(\<And>p st. cp_grows st (visit p st)) \<Longrightarrow> cp_subterm_at t q = Some s \<Longrightarrow> is_ctr s \<Longrightarrow>
     length path + length q \<le> d \<Longrightarrow>
   \<exists>st1. cp_grows st st1 \<and> cp_grows (visit (path @ q) st1) (cp_walk_positions visit d t path st)"
  "(\<And>p st. cp_grows st (visit p st)) \<Longrightarrow> k < length ts \<Longrightarrow> cp_subterm_at (ts ! k) q = Some s \<Longrightarrow>
     is_ctr s \<Longrightarrow> Suc (length path + length q) \<le> d \<Longrightarrow>
   \<exists>st1. cp_grows st st1 \<and> cp_grows (visit (path @ (i + k) # q) st1) (cp_walk_children visit d ts i path st)"
proof (induction visit d t path st and visit d ts i path st arbitrary: q and k q
      rule: cp_walk_positions_cp_walk_children.induct)
  case (1 visit d x path st)
  then show ?case by (cases q) auto
next
  case (2 visit d g e v path st)
  then show ?case by (cases q) auto
next
  case (3 visit d l ts path st)
  show ?case
  proof (cases q)
    case Nil
    have "cp_grows (visit path st) (cp_walk_children visit d ts 0 path (visit path st))"
      by (rule walk_grows(2)) (rule "3.prems"(1))
    then show ?thesis using Nil by (auto simp: Let_def intro!: exI [of _ st])
  next
    case (Cons k q')
    then have k: "k < length ts" "cp_subterm_at (ts ! k) q' = Some s"
      using "3.prems"(2) by (auto split: if_splits)
    moreover have d: "\<not> d \<le> length path" using "3.prems"(4) Cons by simp
    ultimately obtain st1 where "cp_grows (visit path st) st1"
        "cp_grows (visit (path @ (0 + k) # q') st1) (cp_walk_children visit d ts 0 path (visit path st))"
      using "3.IH" [OF refl d "3.prems"(1) k "3.prems"(3)] "3.prems"(4) Cons by auto
    moreover have "cp_grows st (visit path st)" by (rule "3.prems"(1))
    ultimately show ?thesis using Cons d by (auto simp: Let_def intro: cp_grows_trans)
  qed
next
  case (5 visit d t ts i path st)
  let ?st' = "cp_walk_positions visit d t (path @ [i]) st"
  show ?case
  proof (cases k)
    case 0
    then obtain st1 where "cp_grows st st1" "cp_grows (visit ((path @ [i]) @ q) st1) ?st'"
      using "5.IH"(1) [OF "5.prems"(1) _ "5.prems"(4), of q] "5.prems" by auto
    moreover have "cp_grows ?st' (cp_walk_children visit d ts (Suc i) path ?st')"
      by (rule walk_grows(2)) (rule "5.prems"(1))
    ultimately show ?thesis using 0 by (auto intro: cp_grows_trans)
  next
    case (Suc j)
    then obtain st1 where "cp_grows ?st' st1"
        "cp_grows (visit (path @ (Suc i + j) # q) st1) (cp_walk_children visit d ts (Suc i) path ?st')"
      using "5.IH"(2) [OF "5.prems"(1) _ _ "5.prems"(4), of j q] "5.prems" by auto
    moreover have "cp_grows st ?st'" by (rule walk_grows(1)) (rule "5.prems"(1))
    ultimately show ?thesis using Suc by (auto intro: cp_grows_trans)
  qed
qed auto

subsection \<open>One overlap\<close>

text \<open>
  The pair that an overlap at p stands for: \<theta> unifies the subterm with the other left-hand side,
  both sides are reducts of the peak.
\<close>

definition overlap_pair :: "cp_ctx \<Rightarrow> nat list \<Rightarrow> tsub \<Rightarrow> critical_pair" where
  "overlap_pair ctx p \<theta> =
     \<lparr>cp_lhs = tsubst \<theta> (cp_replace_at (ctx_li ctx) p (ctx_rj ctx)),
      cp_rhs = tsubst \<theta> (ctx_ri ctx),
      cp_peak = (if ctx_need_peak ctx then Some (tsubst \<theta> (ctx_li ctx)) else None),
      cp_pos = map of_nat p, cp_combo = 0xff\<rparr>"

definition ctx_ok :: "cp_ctx \<Rightarrow> bool" where
  "ctx_ok ctx \<longleftrightarrow> ar_ok (ctx_li ctx) \<and> ar_ok (ctx_ri ctx) \<and> ar_ok (ctx_lj ctx) \<and> ar_ok (ctx_rj ctx)"

lemma unify_top_ar_ok:
  assumes "unify_top s t = (ok, \<sigma>)" and "ar_ok s" and "ar_ok t"
  shows "\<forall>u \<in> ran \<sigma>. ar_ok u"
proof -
  obtain L where "thvm_unify (unify_fuel s t) s t (Map.empty, idle_log) = Some (ok, \<sigma>, L)"
    using assms(1) unify_correct [OF order_refl, of s t idle_log] by (auto simp: unify_top_def)
  then have "\<forall>u \<in> ran (fst (\<sigma>, L)). ar_ok u"
    by (rule unify_ran) (use assms(2,3) in \<open>auto simp: list_all_iff\<close>)
  then show ?thesis by simp
qed

lemma resolves_ar_ok:
  assumes "resolves \<sigma> \<theta> \<rho>" and "\<forall>u \<in> ran \<sigma>. ar_ok u"
  shows "ar_ok (\<theta> x)"
proof (induction "\<rho> x" arbitrary: x rule: less_induct)
  case less
  show ?case
  proof (cases "\<sigma> x")
    case (Some t)
    have "ar_ok (tsubst \<theta> t)"
      using assms(2) Some less resolvesD(4) [OF assms(1) Some] by (intro ar_ok_tsubst) (auto intro: ranI)
    then show ?thesis using resolvesD(2) [OF assms(1) Some] by simp
  qed (simp add: resolvesD(3) [OF assms(1)])
qed

text \<open>A successful unification from an empty table, with all the facts its callers use.\<close>

lemma unify_top_apply:
  assumes "unify_top s t = (True, \<sigma>)" and "ar_ok s" and "ar_ok t"
  obtains \<theta> where "is_mgu \<theta> s t" and "\<And>x. ar_ok (\<theta> x)"
    and "\<And>u. ar_ok u \<Longrightarrow> unify_apply_top \<sigma> u = tsubst \<theta> u"
proof -
  obtain \<theta> \<rho> where r: "resolves \<sigma> \<theta> \<rho>" and mgu: "is_mgu \<theta> s t"
    using unify_top_mgu [OF assms(1)] by blast
  have ar: "ar_ok (\<theta> x)" for x using resolves_ar_ok [OF r unify_top_ar_ok [OF assms]] .
  have "unify_apply_top \<sigma> u = tsubst \<theta> u" if "ar_ok u" for u
    using unify_apply_top_eq [OF r] ar_ok_tsubst [OF that] ar by blast
  with mgu ar show ?thesis by (rule that)
qed

lemma heads_clash_no_unifier: "heads_clash s t \<Longrightarrow> tsubst \<delta> s \<noteq> tsubst \<delta> t"
  by (cases s; cases t) (auto simp: heads_clash_def)

lemma unify_top_complete:
  assumes "unify_top s t = (ok, \<sigma>)" and "vars_ok s" and "vars_ok t" and "tsubst \<delta> s = tsubst \<delta> t"
  shows ok
  using unify_top_spec [OF assms(1)] assms(2-) by (auto simp: unify_spec_def split: if_splits)

definition cp_mgu :: "tsub \<Rightarrow> trm \<Rightarrow> trm \<Rightarrow> bool" where
  "cp_mgu \<theta> s t \<longleftrightarrow> is_mgu \<theta> s t \<and> (\<forall>x. ar_ok (\<theta> x))"

lemma visit_cases:
  assumes "ctx_ok ctx" and "cp_subterm_at (ctx_li ctx) p = Some s" and "is_ctr s"
  shows "cp_out (cp_visit ctx p st) = cp_out st \<or>
    (\<exists>\<theta>. cp_mgu \<theta> s (ctx_lj ctx) \<and> cp_out (cp_visit ctx p st) = cp_out st @ [overlap_pair ctx p \<theta>])"
proof -
  obtain ok \<sigma> where u: "unify_top s (ctx_lj ctx) = (ok, \<sigma>)" by fastforce
  have ar: "ar_ok s" "ar_ok (ctx_li ctx)" "ar_ok (ctx_ri ctx)" "ar_ok (ctx_lj ctx)" "ar_ok (ctx_rj ctx)"
    using assms(1) ar_ok_subterm_at [OF _ assms(2)] by (auto simp: ctx_ok_def)
  show ?thesis
  proof (cases ok)
    case True
    then obtain \<theta> where mgu: "cp_mgu \<theta> s (ctx_lj ctx)"
      and app: "\<And>u. ar_ok u \<Longrightarrow> unify_apply_top \<sigma> u = tsubst \<theta> u"
      using unify_top_apply [of s "ctx_lj ctx" \<sigma>] u ar unfolding cp_mgu_def by metis
    show ?thesis
      using mgu True u assms(2,3) ar
      by (auto simp: cp_visit_def Let_def app overlap_pair_def ar_ok_replace_at)
  next
    case False
    then show ?thesis using u assms(2) by (auto simp: cp_visit_def)
  qed
qed

lemma visit_emits:
  assumes "ctx_ok ctx" and "cp_subterm_at (ctx_li ctx) p = Some s" and "is_ctr s"
    and "ctx_skip_root ctx \<Longrightarrow> p \<noteq> []" and "length (cp_out st) < ctx_cap ctx"
    and "vars_ok s" and "vars_ok (ctx_lj ctx)" and "tsubst \<delta> s = tsubst \<delta> (ctx_lj ctx)"
  shows "\<exists>\<theta>. cp_mgu \<theta> s (ctx_lj ctx) \<and> cp_out (cp_visit ctx p st) = cp_out st @ [overlap_pair ctx p \<theta>]"
proof -
  obtain ok \<sigma> where u: "unify_top s (ctx_lj ctx) = (ok, \<sigma>)" by fastforce
  then have ok by (rule unify_top_complete) (rule assms)+
  moreover have "\<not> heads_clash s (ctx_lj ctx)" using heads_clash_no_unifier assms(8) by blast
  moreover have "\<not> is_fvr s" using assms(3) by (cases s) auto
  ultimately have "cp_out (cp_visit ctx p st) \<noteq> cp_out st"
    using u assms by (auto simp: cp_visit_def Let_def)
  with visit_cases [OF assms(1-3), of st] show ?thesis by auto
qed


subsection \<open>The enumerators\<close>

definition is_overlap :: "cp_ctx \<Rightarrow> critical_pair \<Rightarrow> bool" where
  "is_overlap ctx c \<longleftrightarrow> (\<exists>p s \<theta>. cp_subterm_at (ctx_li ctx) p = Some s \<and> is_ctr s
     \<and> (ctx_skip_root ctx \<longrightarrow> p \<noteq> []) \<and> cp_mgu \<theta> s (ctx_lj ctx) \<and> c = overlap_pair ctx p \<theta>)"

lemma visit_skip_root: "ctx_skip_root ctx \<Longrightarrow> cp_out (cp_visit ctx [] st) = cp_out st"
  by (simp add: cp_visit_def)

lemma walk_sound:
  assumes "ctx_ok ctx"
  shows "\<exists>xs. cp_out (cp_walk_positions (cp_visit ctx) d (ctx_li ctx) [] st) = cp_out st @ xs
      \<and> (\<forall>c \<in> set xs. is_overlap ctx c)"
proof (rule walk_invariant(1) [where root = "ctx_li ctx"])
  fix p s and st' :: cp_state
  assume I: "\<exists>xs. cp_out st' = cp_out st @ xs \<and> (\<forall>c \<in> set xs. is_overlap ctx c)"
    and s: "cp_subterm_at (ctx_li ctx) p = Some s" "is_ctr s"
  show "\<exists>xs. cp_out (cp_visit ctx p st') = cp_out st @ xs \<and> (\<forall>c \<in> set xs. is_overlap ctx c)"
  proof (cases "ctx_skip_root ctx \<and> p = []")
    case True
    then show ?thesis using I visit_skip_root by auto
  next
    case False
    have "cp_out (cp_visit ctx p st') = cp_out st' \<or> (\<exists>c. is_overlap ctx c \<and>
        cp_out (cp_visit ctx p st') = cp_out st' @ [c])"
      using visit_cases [OF assms s, of st'] s False unfolding is_overlap_def by blast
    with I show ?thesis by fastforce
  qed
qed auto

lemma walk_complete:
  assumes ctx: "ctx_ok ctx" and p: "cp_subterm_at (ctx_li ctx) p = Some s" "is_ctr s" "length p \<le> d"
    and skip: "ctx_skip_root ctx \<Longrightarrow> p \<noteq> []"
    and room: "length (cp_out (cp_walk_positions (cp_visit ctx) d (ctx_li ctx) [] st)) < ctx_cap ctx"
    and vars: "vars_ok s" "vars_ok (ctx_lj ctx)" and un: "tsubst \<delta> s = tsubst \<delta> (ctx_lj ctx)"
  shows "\<exists>\<theta>. cp_mgu \<theta> s (ctx_lj ctx) \<and>
      overlap_pair ctx p \<theta> \<in> set (cp_out (cp_walk_positions (cp_visit ctx) d (ctx_li ctx) [] st))"
proof -
  let ?W = "cp_walk_positions (cp_visit ctx) d (ctx_li ctx) [] st"
  obtain st1 where st1: "cp_grows (cp_visit ctx p st1) ?W"
    using walk_visits(1) [of "cp_visit ctx", OF cp_visit_grows p(1,2), of "[]" d st] p(3) by auto
  have "cp_grows st1 ?W" using cp_visit_grows st1 by (rule cp_grows_trans)
  then have "length (cp_out st1) < ctx_cap ctx" using room cp_grows_length by (meson le_less_trans)
  from visit_emits [OF ctx p(1,2) skip this vars un] st1 show ?thesis
    by (fastforce simp: cp_grows_def)
qed

text \<open>Both sides of an emitted pair are one rewrite step below the peak.\<close>

lemma overlap_reducts:
  assumes "ctx_ok ctx" and "cp_mgu \<theta> s (ctx_lj ctx)" and "cp_subterm_at (ctx_li ctx) p = Some s"
  shows "rstep {(ctx_lj ctx, ctx_rj ctx)} (tsubst \<theta> (ctx_li ctx)) (cp_lhs (overlap_pair ctx p \<theta>))"
    and "rstep {(ctx_li ctx, ctx_ri ctx)} (tsubst \<theta> (ctx_li ctx)) (cp_rhs (overlap_pair ctx p \<theta>))"
proof -
  have "rstep {(ctx_lj ctx, ctx_rj ctx)} (tsubst \<theta> s) (tsubst \<theta> (ctx_rj ctx))"
    using assms(2) rstep.root [of "ctx_lj ctx" "ctx_rj ctx" _ \<theta>] by (simp add: cp_mgu_def is_mgu_def)
  then have "rstep {(ctx_lj ctx, ctx_rj ctx)} (tsubst \<theta> (ctx_li ctx))
      (cp_replace_at (tsubst \<theta> (ctx_li ctx)) p (tsubst \<theta> (ctx_rj ctx)))"
    using assms by (intro rstep_at [OF _ subterm_at_tsubst] ar_ok_tsubst) (auto simp: ctx_ok_def cp_mgu_def)
  then show "rstep {(ctx_lj ctx, ctx_rj ctx)} (tsubst \<theta> (ctx_li ctx)) (cp_lhs (overlap_pair ctx p \<theta>))"
    by (simp add: overlap_pair_def replace_at_tsubst [OF assms(3)])
  show "rstep {(ctx_li ctx, ctx_ri ctx)} (tsubst \<theta> (ctx_li ctx)) (cp_rhs (overlap_pair ctx p \<theta>))"
    by (simp add: overlap_pair_def rstep.root)
qed


subsection \<open>The rectangle\<close>

definition pair_ctx :: "bool \<Rightarrow> nat \<Rightarrow> trm \<times> trm \<Rightarrow> trm \<times> trm \<Rightarrow> cp_ctx" where
  "pair_ctx np cap ri rj =
     \<lparr>ctx_li = fst ri, ctx_ri = snd ri,
      ctx_lj = thvm_rename_vars (fst rj) CP_RENAME_OFFSET,
      ctx_rj = thvm_rename_vars (snd rj) CP_RENAME_OFFSET,
      ctx_cap = cap, ctx_skip_root = False, ctx_need_peak = np\<rparr>"

definition pair_walk :: "bool \<Rightarrow> nat \<Rightarrow> trm \<times> trm \<Rightarrow> trm \<times> trm \<Rightarrow> cp_state \<Rightarrow> cp_state" where
  "pair_walk np cap ri rj = cp_walk_positions (cp_visit (pair_ctx np cap ri rj)) CP_MAX_DEPTH (fst ri) []"

lemma fold_product: "fold (\<lambda>x. fold (f x) ys) xs s = fold (\<lambda>(x, y). f x y) (List.product xs ys) s"
  by (induction xs arbitrary: s) (simp_all add: fold_map comp_def)

lemma range_fold:
  "thvm_critical_pairs_range np rules si ei sj ej cap st =
     fold (\<lambda>(i, j). pair_walk np cap (rules ! i) (rules ! j))
       (List.product [si..<min ei (length rules)] [sj..<min ej (length rules)]) (st\<lparr>cp_out := []\<rparr>)"
  unfolding thvm_critical_pairs_range_def Let_def fold_product
  by (rule fold_cong) (auto simp: pair_walk_def pair_ctx_def split: prod.splits)

lemma pair_walk_grows: "cp_grows st (pair_walk np cap ri rj st)"
  unfolding pair_walk_def by (rule walk_grows(1)) (rule cp_visit_grows)

lemma fold_grows: "(\<And>x st. cp_grows st (f x st)) \<Longrightarrow> cp_grows st (fold f xs st)"
  by (induction xs arbitrary: st) (auto intro: cp_grows_trans)

lemma fold_grows_at:
  assumes "\<And>x st. cp_grows st (f x st)" and "x \<in> set xs"
  shows "\<exists>st1. cp_grows (f x st1) (fold f xs st)"
proof -
  obtain ys zs where "xs = ys @ x # zs" using split_list [OF assms(2)] by blast
  then have "fold f xs st = fold f zs (f x (fold f ys st))" by simp
  then show ?thesis using fold_grows [of f, OF assms(1)] by metis
qed

lemma ar_ok_rename: "ar_ok t \<Longrightarrow> ar_ok (thvm_rename_vars t off)"
  by (simp add: rename_vars_tsubst ar_ok_tsubst)

definition rules_ar_ok :: "(trm \<times> trm) list \<Rightarrow> bool" where
  "rules_ar_ok rules \<longleftrightarrow> (\<forall>(l, r) \<in> set rules. ar_ok l \<and> ar_ok r)"

lemma pair_ctx_ok:
  "rules_ar_ok rules \<Longrightarrow> i < length rules \<Longrightarrow> j < length rules \<Longrightarrow>
     ctx_ok (pair_ctx np cap (rules ! i) (rules ! j))"
  by (auto simp: rules_ar_ok_def ctx_ok_def pair_ctx_def intro!: ar_ok_rename)
    (metis (no_types, lifting) case_prod_beta nth_mem)+

lemma pair_walk_sound:
  assumes "ctx_ok (pair_ctx np cap ri rj)"
  shows "\<exists>xs. cp_out (pair_walk np cap ri rj st) = cp_out st @ xs
      \<and> (\<forall>c \<in> set xs. is_overlap (pair_ctx np cap ri rj) c)"
  using walk_sound [OF assms, of CP_MAX_DEPTH st] by (simp add: pair_walk_def pair_ctx_def)

lemma range_sound:
  assumes "rules_ar_ok rules"
    and "c \<in> set (cp_out (thvm_critical_pairs_range np rules si ei sj ej cap st))"
  shows "\<exists>i j. si \<le> i \<and> i < min ei (length rules) \<and> sj \<le> j \<and> j < min ej (length rules)
      \<and> is_overlap (pair_ctx np cap (rules ! i) (rules ! j)) c"
proof -
  let ?P = "\<lambda>c. \<exists>i j. si \<le> i \<and> i < min ei (length rules) \<and> sj \<le> j \<and> j < min ej (length rules)
      \<and> is_overlap (pair_ctx np cap (rules ! i) (rules ! j)) c"
  have "\<forall>c \<in> set (cp_out (fold (\<lambda>(i, j). pair_walk np cap (rules ! i) (rules ! j)) ijs st)). ?P c"
    if "\<forall>c \<in> set (cp_out st). ?P c"
      and "\<forall>(i, j) \<in> set ijs. si \<le> i \<and> i < min ei (length rules) \<and> sj \<le> j \<and> j < min ej (length rules)"
    for ijs and st :: cp_state
    using that
  proof (induction ijs arbitrary: st)
    case (Cons ij ijs)
    obtain i j where ij: "ij = (i, j)" by fastforce
    then have b: "si \<le> i" "i < min ei (length rules)" "sj \<le> j" "j < min ej (length rules)"
      using Cons.prems(2) by auto
    obtain xs where xs: "cp_out (pair_walk np cap (rules ! i) (rules ! j) st) = cp_out st @ xs"
        "\<forall>c \<in> set xs. is_overlap (pair_ctx np cap (rules ! i) (rules ! j)) c"
      using pair_walk_sound [OF pair_ctx_ok [OF assms(1)]] b by (metis min_less_iff_conj)
    then have "\<forall>c \<in> set (cp_out (pair_walk np cap (rules ! i) (rules ! j) st)). ?P c"
      using Cons.prems(1) b by auto
    then show ?case using Cons.IH Cons.prems(2) ij by simp
  qed simp
  from this [of "st\<lparr>cp_out := []\<rparr>" "List.product [si..<min ei (length rules)] [sj..<min ej (length rules)]"]
  show ?thesis using assms(2) unfolding range_fold by auto
qed

text \<open>Variables of both rules in the lower half: two substitutions make one for both.\<close>

definition vars_low :: "trm \<Rightarrow> bool" where
  "vars_low t \<longleftrightarrow> (\<forall>x \<in> tvars t. unat x < 32)"

lemma shift_low: "unat (x :: ext) < 32 \<Longrightarrow> unat (x + 32) = unat x + 32"
  by (subst unat_add_lem [THEN iffD1]) auto

lemma shift_not_low: "unat (x :: ext) < 32 \<Longrightarrow> unat y < 32 \<Longrightarrow> x + 32 \<noteq> y"
  using shift_low by fastforce

lemma rename_low:
  assumes "ar_ok t" and "vars_low t"
  shows "vars_ok (thvm_rename_vars t CP_RENAME_OFFSET)"
    and "tsubst (\<lambda>x. if unat x < 32 then \<delta> x else \<gamma> (x - 32)) (thvm_rename_vars t CP_RENAME_OFFSET) = tsubst \<gamma> t"
proof -
  have r: "thvm_rename_vars t CP_RENAME_OFFSET = tsubst (\<lambda>x. FVR (x + 32)) t"
    using rename_vars_tsubst [OF assms(1), of CP_RENAME_OFFSET] by (simp add: CP_RENAME_OFFSET_def)
  show "vars_ok (thvm_rename_vars t CP_RENAME_OFFSET)"
    using assms(2) unfolding r by (auto simp: vars_ok_def tvars_tsubst vars_low_def shift_low REWRITE_MAX_VAR_def)
  show "tsubst (\<lambda>x. if unat x < 32 then \<delta> x else \<gamma> (x - 32)) (thvm_rename_vars t CP_RENAME_OFFSET) = tsubst \<gamma> t"
    unfolding r tsubst_tsubst
    using assms(2) by (intro tsubst_cong) (auto simp: tcomp_def vars_low_def shift_low)
qed

lemma range_complete:
  assumes ar: "rules_ar_ok rules"
    and i: "si \<le> i" "i < min ei (length rules)" and j: "sj \<le> j" "j < min ej (length rules)"
    and low: "vars_low (fst (rules ! i))" "vars_low (snd (rules ! i))"
      "vars_low (fst (rules ! j))" "vars_low (snd (rules ! j))"
    and room: "length (cp_out (thvm_critical_pairs_range np rules si ei sj ej cap st)) < cap"
    and p: "cp_subterm_at (fst (rules ! i)) p = Some s" "is_ctr s" "length p \<le> CP_MAX_DEPTH"
    and un: "tsubst \<delta> s = tsubst \<gamma> (fst (rules ! j))"
  shows "\<exists>c \<in> set (cp_out (thvm_critical_pairs_range np rules si ei sj ej cap st)). \<exists>\<eta>.
      tsubst \<eta> (cp_lhs c) = cp_replace_at (tsubst \<delta> (fst (rules ! i))) p (tsubst \<gamma> (snd (rules ! j)))
      \<and> tsubst \<eta> (cp_rhs c) = tsubst \<delta> (snd (rules ! i))"
proof -
  let ?f = "\<lambda>(i, j). pair_walk np cap (rules ! i) (rules ! j)"
  let ?ctx = "pair_ctx np cap (rules ! i) (rules ! j)"
  let ?\<eta> = "\<lambda>x. if unat x < 32 then \<delta> x else \<gamma> (x - 32)"
  let ?out = "thvm_critical_pairs_range np rules si ei sj ej cap st"
  have ctx: "ctx_ok ?ctx" using pair_ctx_ok [OF ar] i j by simp
  have arj: "ar_ok (fst (rules ! j))" "ar_ok (snd (rules ! j))"
    using ar j unfolding rules_ar_ok_def by (auto simp: case_prod_beta)
  have "(i, j) \<in> set (List.product [si..<min ei (length rules)] [sj..<min ej (length rules)])"
    using i j by auto
  then obtain st1 where st1: "cp_grows (pair_walk np cap (rules ! i) (rules ! j) st1) ?out"
    using fold_grows_at [of ?f] pair_walk_grows unfolding range_fold by (metis (no_types, lifting) case_prod_conv prod.case_eq_if)
  have room1: "length (cp_out (pair_walk np cap (rules ! i) (rules ! j) st1)) < ctx_cap ?ctx"
    using room cp_grows_length [OF st1] by (simp add: pair_ctx_def)
  have lowD: "tsubst ?\<eta> t = tsubst \<delta> t" if "vars_low t" for t
    using that by (intro tsubst_cong) (auto simp: vars_low_def)
  have lows: "vars_low s" using low(1) tvars_subterm_at [OF p(1)] by (auto simp: vars_low_def)
  have "vars_ok s" using lows by (fastforce simp: vars_ok_def vars_low_def REWRITE_MAX_VAR_def)
  moreover have "vars_ok (ctx_lj ?ctx)" using rename_low(1) [OF arj(1) low(3)] by (simp add: pair_ctx_def)
  moreover have "tsubst ?\<eta> s = tsubst ?\<eta> (ctx_lj ?ctx)"
    using un lowD [OF lows] rename_low(2) [OF arj(1) low(3)] by (simp add: pair_ctx_def)
  ultimately obtain \<theta> where \<theta>: "cp_mgu \<theta> s (ctx_lj ?ctx)"
      "overlap_pair ?ctx p \<theta> \<in> set (cp_out (pair_walk np cap (rules ! i) (rules ! j) st1))"
    using walk_complete [OF ctx _ p(2,3), where st = st1] p(1) room1
    by (fastforce simp: pair_walk_def pair_ctx_def)
  have eta: "tsubst ?\<eta> (tsubst \<theta> t) = tsubst ?\<eta> t" for t
    using \<theta>(1) \<open>tsubst ?\<eta> s = tsubst ?\<eta> (ctx_lj ?ctx)\<close>
    unfolding tsubst_tsubst cp_mgu_def is_mgu_def by simp
  have "tsubst ?\<eta> (cp_lhs (overlap_pair ?ctx p \<theta>))
      = cp_replace_at (tsubst \<delta> (fst (rules ! i))) p (tsubst \<gamma> (snd (rules ! j)))"
    by (simp add: overlap_pair_def eta pair_ctx_def)
      (simp add: replace_at_tsubst [OF p(1)] lowD [OF low(1)] rename_low(2) [OF arj(2) low(4)])
  moreover have "tsubst ?\<eta> (cp_rhs (overlap_pair ?ctx p \<theta>)) = tsubst \<delta> (snd (rules ! i))"
    using lowD [OF low(2)] by (simp add: overlap_pair_def eta pair_ctx_def)
  moreover have "overlap_pair ?ctx p \<theta> \<in> set (cp_out ?out)"
    using \<theta>(2) st1 by (auto simp: cp_grows_def)
  ultimately show ?thesis by blast
qed

subsection \<open>An example\<close>

text \<open>A one-rule set, f(f(x)) to x, for the applications: its overlaps with itself.\<close>

definition ff_rule :: "(trm \<times> trm) list" where
  "ff_rule = [(CTR 1 [CTR 1 [FVR 0]], FVR 0)]"

definition cp_start :: cp_state where
  "cp_start = \<lparr>cp_out = [], cp_dropped_capped = 0, cp_positions_depth_capped = 0\<rparr>"

lemma ff_rule_pairs: "map cp_lhs (cp_out (thvm_critical_pairs True ff_rule 10 cp_start)) = [FVR 32, CTR 1 [FVR 32]]"
  by code_simp

lemma ff_rule_peaks:
  "map cp_peak (cp_out (thvm_critical_pairs True ff_rule 10 cp_start))
     = [Some (CTR 1 [CTR 1 [FVR 32]]), Some (CTR 1 [CTR 1 [CTR 1 [FVR 32]]])]"
  by code_simp

lemma ff_rule_length: "length (cp_out (thvm_critical_pairs True ff_rule 10 cp_start)) = 2"
  using arg_cong [OF ff_rule_pairs, of length] by simp

lemma ff_rule_ok: "rules_ar_ok ff_rule" "\<forall>(l, r) \<in> set ff_rule. vars_low l \<and> vars_low r"
  by (auto simp: ff_rule_def rules_ar_ok_def vars_low_def REWRITE_MAX_ARITY_def)

subsection \<open>Properties\<close>

text \<open>C4: every critical pair comes from a peak. Each pair that thvm_critical_pairs_range writes
  for a rule set within the arity bound has a common predecessor: a term that one rule of the
  set, renamed, rewrites to its left side and another rewrites to its right side; the recorded
  peak is that term.\<close>
theorem critical_pairs_sound:
  assumes "rules_ar_ok rules"
    and "c \<in> set (cp_out (thvm_critical_pairs_range np rules si ei sj ej cap st))"
  shows "\<exists>i < length rules. \<exists>j < length rules. \<exists>u.
      rstep {(thvm_rename_vars (fst (rules ! j)) CP_RENAME_OFFSET,
              thvm_rename_vars (snd (rules ! j)) CP_RENAME_OFFSET)} u (cp_lhs c)
      \<and> rstep {rules ! i} u (cp_rhs c)
      \<and> (np \<longrightarrow> cp_peak c = Some u)"
proof -
  obtain i j where ij: "i < length rules" "j < length rules"
    and ov: "is_overlap (pair_ctx np cap (rules ! i) (rules ! j)) c"
    using range_sound [OF assms] by auto
  let ?ctx = "pair_ctx np cap (rules ! i) (rules ! j)"
  obtain p s \<theta> where p: "cp_subterm_at (ctx_li ?ctx) p = Some s" "cp_mgu \<theta> s (ctx_lj ?ctx)"
    and c: "c = overlap_pair ?ctx p \<theta>" using ov by (auto simp: is_overlap_def)
  note r = overlap_reducts [OF pair_ctx_ok [OF assms(1) ij] p(2,1), folded c]
  have "np \<longrightarrow> cp_peak c = Some (tsubst \<theta> (ctx_li ?ctx))" by (simp add: c overlap_pair_def pair_ctx_def)
  with r ij show ?thesis by (auto simp: pair_ctx_def)
qed

theorem critical_pairs_sound_witness:
  "\<exists>u. rstep {(thvm_rename_vars (CTR 1 [CTR 1 [FVR 0]]) CP_RENAME_OFFSET,
               thvm_rename_vars (FVR 0) CP_RENAME_OFFSET)} u (CTR 1 [FVR 32])"
proof -
  have "CTR 1 [FVR 32] \<in> set (map cp_lhs (cp_out (thvm_critical_pairs True ff_rule 10 cp_start)))"
    unfolding ff_rule_pairs by simp
  then obtain c where c: "cp_lhs c = CTR 1 [FVR 32]"
      "c \<in> set (cp_out (thvm_critical_pairs True ff_rule 10 cp_start))" by auto
  show ?thesis
    using critical_pairs_sound [OF ff_rule_ok(1) c(2) [unfolded thvm_critical_pairs_def]] c(1)
    by (auto simp: ff_rule_def)
qed

text \<open>C3: no critical pair is missed. For rules whose variable ids are below 32, and when the
  buffer did not fill up, every overlap of a rule of the j range into a constructor position of
  depth at most 64 of a left-hand side of the i range, under any two substitutions, is an
  instance of a pair that was written.\<close>
theorem critical_pairs_complete:
  assumes "rules_ar_ok rules"
    and "si \<le> i" "i < min ei (length rules)" and "sj \<le> j" "j < min ej (length rules)"
    and "\<forall>(l, r) \<in> set rules. vars_low l \<and> vars_low r"
    and "length (cp_out (thvm_critical_pairs_range np rules si ei sj ej cap st)) < cap"
    and "cp_subterm_at (fst (rules ! i)) p = Some s" "is_ctr s" "length p \<le> CP_MAX_DEPTH"
    and "tsubst \<delta> s = tsubst \<gamma> (fst (rules ! j))"
  shows "\<exists>c \<in> set (cp_out (thvm_critical_pairs_range np rules si ei sj ej cap st)). \<exists>\<eta>.
      tsubst \<eta> (cp_lhs c) = cp_replace_at (tsubst \<delta> (fst (rules ! i))) p (tsubst \<gamma> (snd (rules ! j)))
      \<and> tsubst \<eta> (cp_rhs c) = tsubst \<delta> (snd (rules ! i))"
proof -
  have "vars_low (fst (rules ! k)) \<and> vars_low (snd (rules ! k))" if "k < length rules" for k
    using assms(6) nth_mem [OF that] by (auto simp: case_prod_beta)
  then show ?thesis using assms by (intro range_complete) auto
qed

theorem critical_pairs_complete_witness:
  "\<exists>c \<in> set (cp_out (thvm_critical_pairs True ff_rule 10 cp_start)). \<exists>\<eta>.
      tsubst \<eta> (cp_lhs c) = CTR 1 [CTR 7 []] \<and> tsubst \<eta> (cp_rhs c) = CTR 1 [CTR 7 []]"
proof -
  have "\<exists>c \<in> set (cp_out (thvm_critical_pairs_range True ff_rule 0 (length ff_rule) 0 (length ff_rule) 10 cp_start)).
      \<exists>\<eta>. tsubst \<eta> (cp_lhs c)
        = cp_replace_at (tsubst (\<lambda>_. CTR 1 [CTR 7 []]) (fst (ff_rule ! 0))) [0] (tsubst (\<lambda>_. CTR 7 []) (snd (ff_rule ! 0)))
      \<and> tsubst \<eta> (cp_rhs c) = tsubst (\<lambda>_. CTR 1 [CTR 7 []]) (snd (ff_rule ! 0))"
    by (rule critical_pairs_complete [where s = "CTR 1 [FVR 0]"])
      (use ff_rule_ok ff_rule_length in \<open>simp_all add: thvm_critical_pairs_def ff_rule_def CP_MAX_DEPTH_def\<close>)
  then show ?thesis
    by (simp add: thvm_critical_pairs_def ff_rule_def REWRITE_MAX_ARITY_def)
qed

end
