(* ===== verification/FOL_Clause.thy ===== *)
theory FOL_Clause
  imports CP "HOL-Library.Multiset"
begin

text \<open>
  First-order clauses and the inferences between them (src/fol/_.c): literals and clauses,
  binary resolution, factoring, paramodulation, equality factoring, reflexivity resolution,
  subsumption, the tautology check and directed demodulation. A FolClause pointer is a clause
  option, NULL is None; the memory a clause owns and its release are not modelled, allocation
  does not fail. The second half gives clauses their first-order meaning and shows every
  inference sound; the inferences share the contract of locale fol_inference.
\<close>

section \<open>The code\<close>

subsection \<open>Literals and clauses\<close>

definition FOL_RENAME_OFFSET :: u32 where "FOL_RENAME_OFFSET = 32"
definition FOL_MAX_LITS :: nat where "FOL_MAX_LITS = 64"
definition FOL_LAB_EQ :: ext where "FOL_LAB_EQ = 0"

text \<open>A signed atom, sign 0 positive and 1 negative.\<close>

record fol_lit =
  lit_atom :: trm
  lit_sign :: u8

type_synonym fol_clause = "fol_lit list"

abbreviation Pos :: "trm \<Rightarrow> fol_lit" where "Pos a \<equiv> \<lparr>lit_atom = a, lit_sign = 0\<rparr>"
abbreviation Neg :: "trm \<Rightarrow> fol_lit" where "Neg a \<equiv> \<lparr>lit_atom = a, lit_sign = 1\<rparr>"

text \<open>The literals are calloc'ed: the zero word with sign 0 in every slot.\<close>

definition fol_clause_new :: "nat \<Rightarrow> fol_clause option" where
  "fol_clause_new n =
     (if n > FOL_MAX_LITS then None else Some (replicate n \<lparr>lit_atom = zero_trm, lit_sign = 0\<rparr>))"

text \<open>A fresh clause whose slots the caller fills in order, NULL when it could not be made.\<close>

definition fol_fill :: "fol_clause option \<Rightarrow> fol_lit list \<Rightarrow> fol_clause option" where
  "fol_fill r ls = (case r of None \<Rightarrow> None | Some c \<Rightarrow> Some (ls @ drop (length ls) c))"

text \<open>The loops over all literals k of a clause that skip one index.\<close>

definition lits_except :: "fol_clause \<Rightarrow> nat \<Rightarrow> fol_clause" where
  "lits_except c i = map (nth c) (filter (\<lambda>k. k \<noteq> i) [0..<length c])"

text \<open>Multiset equality: each literal of a takes the first unused equal literal of b.\<close>

definition clause_eq_find :: "fol_lit \<Rightarrow> fol_clause \<Rightarrow> bool list \<Rightarrow> nat option" where
  "clause_eq_find l b used =
     List.find (\<lambda>j. \<not> used ! j \<and> lit_sign l = lit_sign (b ! j)
                     \<and> kbo_eq (lit_atom l) (lit_atom (b ! j))) [0..<length b]"

fun clause_eq_loop :: "fol_clause \<Rightarrow> fol_clause \<Rightarrow> bool list \<Rightarrow> bool" where
  "clause_eq_loop [] b used = True"
| "clause_eq_loop (l # a) b used =
     (case clause_eq_find l b used of
        None \<Rightarrow> False | Some j \<Rightarrow> clause_eq_loop a b (used[j := True]))"

fun fol_clause_eq :: "fol_clause option \<Rightarrow> fol_clause option \<Rightarrow> bool" where
  "fol_clause_eq (Some a) (Some b) =
     (if length a \<noteq> length b then False
      else if length a = 0 then True
      else clause_eq_loop a b (replicate FOL_MAX_LITS False))"
| "fol_clause_eq None None = True"
| "fol_clause_eq _ _ = False"

definition fol_rename_term :: "trm \<Rightarrow> u32 \<Rightarrow> trm" where
  "fol_rename_term t offset = thvm_rename_vars t offset"

definition lit_map :: "(trm \<Rightarrow> trm) \<Rightarrow> fol_lit \<Rightarrow> fol_lit" where
  "lit_map f l = \<lparr>lit_atom = f (lit_atom l), lit_sign = lit_sign l\<rparr>"

subsection \<open>Resolution and factoring\<close>

fun fol_resolve :: "fol_clause option \<Rightarrow> nat \<Rightarrow> fol_clause option \<Rightarrow> nat \<Rightarrow> fol_clause option" where
  "fol_resolve (Some c1) i (Some c2) j =
     (if i \<ge> length c1 \<or> j \<ge> length c2 then None
      else if lit_sign (c1 ! i) = lit_sign (c2 ! j) then None
      else let (ok, \<sigma>) = unify_top (lit_atom (c1 ! i))
                           (fol_rename_term (lit_atom (c2 ! j)) FOL_RENAME_OFFSET);
               out_n = (length c1 - 1) + (length c2 - 1)
           in if \<not> ok then None
              else if out_n > FOL_MAX_LITS then None
              else fol_fill (fol_clause_new out_n)
                     (map (lit_map (unify_apply_top \<sigma>)) (lits_except c1 i) @
                      map (lit_map (\<lambda>a. unify_apply_top \<sigma> (fol_rename_term a FOL_RENAME_OFFSET)))
                        (lits_except c2 j)))"
| "fol_resolve _ i _ j = None"

fun fol_factor :: "fol_clause option \<Rightarrow> nat \<Rightarrow> nat \<Rightarrow> fol_clause option" where
  "fol_factor (Some c) i j =
     (if i \<ge> length c \<or> j \<ge> length c \<or> i = j then None
      else if lit_sign (c ! i) \<noteq> lit_sign (c ! j) then None
      else let (ok, \<sigma>) = unify_top (lit_atom (c ! i)) (lit_atom (c ! j))
           in if \<not> ok then None
              else fol_fill (fol_clause_new (length c - 1))
                     (map (lit_map (unify_apply_top \<sigma>)) (lits_except c j)))"
| "fol_factor None i j = None"

fun fol_clause_is_empty :: "fol_clause option \<Rightarrow> bool" where
  "fol_clause_is_empty (Some c) = (length c = 0)"
| "fol_clause_is_empty None = False"

subsection \<open>Equality inferences\<close>

definition fol_atom_is_eq :: "trm \<Rightarrow> bool" where
  "fol_atom_is_eq a \<longleftrightarrow> is_ctr a \<and> trm_ext a = FOL_LAB_EQ \<and> term_ctr_n a = 2"

fun fol_paramodulate :: "fol_clause option \<Rightarrow> nat \<Rightarrow> bool \<Rightarrow> fol_clause option \<Rightarrow> nat \<Rightarrow> nat list
    \<Rightarrow> fol_clause option" where
  "fol_paramodulate (Some eqc) ei swap (Some tgt) ti path =
     (if ei \<ge> length eqc then None
      else if ti \<ge> length tgt then None
      else if lit_sign (eqc ! ei) \<noteq> 0 then None
      else if \<not> fol_atom_is_eq (lit_atom (eqc ! ei)) then None
      else let eq_atom = lit_atom (eqc ! ei);
               s = term_ctr_at eq_atom (if swap then 1 else 0);
               t = term_ctr_at eq_atom (if swap then 0 else 1);
               target = thvm_rename_vars (lit_atom (tgt ! ti)) FOL_RENAME_OFFSET
           in (case cp_subterm_at target path of
                 None \<Rightarrow> None
               | Some u \<Rightarrow>
                   if u = zero_trm then None
                   else if is_fvr u then None
                   else let (ok, \<sigma>) = unify_top s u;
                            new_atom = unify_apply_top \<sigma> (cp_replace_at target path t);
                            out_n = (length eqc - 1) + length tgt
                        in if \<not> ok then None
                           else if out_n > FOL_MAX_LITS then None
                           else fol_fill (fol_clause_new out_n)
                             (map (lit_map (unify_apply_top \<sigma>)) (lits_except eqc ei) @
                              map (\<lambda>k. if k = ti then \<lparr>lit_atom = new_atom, lit_sign = lit_sign (tgt ! k)\<rparr>
                                       else lit_map (\<lambda>a. unify_apply_top \<sigma>
                                              (thvm_rename_vars a FOL_RENAME_OFFSET)) (tgt ! k))
                                [0..<length tgt])))"
| "fol_paramodulate _ ei swap _ ti path = None"

fun fol_eq_factor :: "fol_clause option \<Rightarrow> nat \<Rightarrow> nat \<Rightarrow> fol_clause option" where
  "fol_eq_factor (Some c) i j =
     (if i = j then None
      else if i \<ge> length c \<or> j \<ge> length c then None
      else if lit_sign (c ! i) \<noteq> 0 \<or> lit_sign (c ! j) \<noteq> 0 then None
      else if \<not> fol_atom_is_eq (lit_atom (c ! i)) \<or> \<not> fol_atom_is_eq (lit_atom (c ! j)) then None
      else let s1 = term_ctr_at (lit_atom (c ! i)) 0; t1 = term_ctr_at (lit_atom (c ! i)) 1;
               s2 = term_ctr_at (lit_atom (c ! j)) 0; t2 = term_ctr_at (lit_atom (c ! j)) 1;
               (ok, \<sigma>) = unify_top s1 s2
           in if \<not> ok then None
              else let t1' = unify_apply_top \<sigma> t1; t2' = unify_apply_top \<sigma> t2;
                       s1' = unify_apply_top \<sigma> s1
                   in if length c > FOL_MAX_LITS then None
                      else fol_fill (fol_clause_new (length c))
                        (map (\<lambda>k. if k = i then Pos (CTR FOL_LAB_EQ [s1', t1'])
                                  else lit_map (unify_apply_top \<sigma>) (c ! k))
                           (filter (\<lambda>k. k \<noteq> j) [0..<length c]) @
                         [Neg (CTR FOL_LAB_EQ [t1', t2'])]))"
| "fol_eq_factor None i j = None"

fun fol_reflex_resolve :: "fol_clause option \<Rightarrow> nat \<Rightarrow> fol_clause option" where
  "fol_reflex_resolve (Some c) i =
     (if i \<ge> length c then None
      else if lit_sign (c ! i) \<noteq> 1 then None
      else if \<not> fol_atom_is_eq (lit_atom (c ! i)) then None
      else let (ok, \<sigma>) = unify_top (term_ctr_at (lit_atom (c ! i)) 0) (term_ctr_at (lit_atom (c ! i)) 1)
           in if \<not> ok then None
              else fol_fill (fol_clause_new (length c - 1))
                     (map (lit_map (unify_apply_top \<sigma>)) (lits_except c i)))"
| "fol_reflex_resolve None i = None"

subsection \<open>Subsumption and tautologies\<close>

text \<open>
  The backtracking matcher. The flags of the used literals and the table are threaded; an
  attempt that fails clears its flag and restores the snapshot of the table.
\<close>

function (sequential) fol_subsume_rec :: "fol_clause \<Rightarrow> fol_clause \<Rightarrow> bool list \<times> rsubst \<Rightarrow> bool \<times> bool list \<times> rsubst"
  and fol_subsume_try :: "fol_lit \<Rightarrow> fol_clause \<Rightarrow> fol_clause \<Rightarrow> nat list \<Rightarrow> bool list \<times> rsubst
      \<Rightarrow> bool \<times> bool list \<times> rsubst" where
  "fol_subsume_rec [] lits st = (True, st)"
| "fol_subsume_rec (l # c1) lits st = fol_subsume_try l c1 lits [0..<length lits] st"
| "fol_subsume_try l c1 lits [] st = (False, st)"
| "fol_subsume_try l c1 lits (j # js) (used, \<sigma>) =
     (if used ! j then fol_subsume_try l c1 lits js (used, \<sigma>)
      else if lit_sign (lits ! j) \<noteq> lit_sign l then fol_subsume_try l c1 lits js (used, \<sigma>)
      else let (ok, \<sigma>1) = thvm_match (lit_atom l) (lit_atom (lits ! j)) \<sigma>
           in if ok
              then let (found, used2, \<sigma>2) = fol_subsume_rec c1 lits (used[j := True], \<sigma>1)
                   in if found then (True, used2, \<sigma>2)
                      else fol_subsume_try l c1 lits js (used2[j := False], \<sigma>)
              else fol_subsume_try l c1 lits js (used, \<sigma>))"
  by pat_completeness auto
termination
  by (relation "measures [\<lambda>x. case x of Inl (c1, lits, st) \<Rightarrow> length c1
        | Inr (l, c1, lits, js, st) \<Rightarrow> length c1,
      \<lambda>x. case x of Inl _ \<Rightarrow> 0 | Inr (l, c1, lits, js, st) \<Rightarrow> Suc (length js)]") auto

fun fol_subsumes :: "fol_clause option \<Rightarrow> fol_clause option \<Rightarrow> bool" where
  "fol_subsumes (Some c1) (Some c2) =
     (if length c1 > length c2 then False
      else if length c1 = 0 then True
      else if length c2 > FOL_MAX_LITS then False
      else fst (fol_subsume_rec c1 (map (lit_map (\<lambda>a. thvm_rename_vars a FOL_RENAME_OFFSET)) c2)
                  (replicate FOL_MAX_LITS False, Map.empty)))"
| "fol_subsumes _ _ = False"

fun fol_is_tautology :: "fol_clause option \<Rightarrow> bool" where
  "fol_is_tautology (Some c) =
     (list_ex (\<lambda>i. list_ex (\<lambda>j. lit_sign (c ! i) \<noteq> lit_sign (c ! j)
                        \<and> kbo_eq (lit_atom (c ! i)) (lit_atom (c ! j)))
                      [i + 1..<length c]) [0..<length c]
      \<or> list_ex (\<lambda>i. lit_sign (c ! i) = 0 \<and> fol_atom_is_eq (lit_atom (c ! i))
                       \<and> kbo_eq (term_ctr_at (lit_atom (c ! i)) 0) (term_ctr_at (lit_atom (c ! i)) 1))
           [0..<length c])"
| "fol_is_tautology None = False"

subsection \<open>Directed demodulation\<close>

text \<open>
  The rewriter compares words, not terms: a rewrite counts when the word it returns is not the
  word it was given. The result of applying a match to t is the subject's own word exactly when
  t is no constructor and the terms are equal (t is then the variable bound to the whole
  subject, or an immediate); a constructor t is rebuilt, or is the rule's own cell. The flag
  carries this comparison. A subject that shares a cell with the right side of the rule it is
  an instance of is taken as not sharing it.
\<close>

definition word_moved :: "trm \<Rightarrow> trm \<Rightarrow> trm \<Rightarrow> bool" where
  "word_moved t r subj \<longleftrightarrow> is_ctr t \<or> r \<noteq> subj"

definition fol_rewrite_at_root :: "trm \<Rightarrow> trm \<Rightarrow> trm \<Rightarrow> trm \<times> bool" where
  "fol_rewrite_at_root subj s t =
     (let (ok, \<sigma>) = thvm_match s subj Map.empty; r = thvm_subst_apply \<sigma> t
      in if ok then (r, word_moved t r subj) else (subj, False))"

fun fol_rewrite_once :: "trm \<Rightarrow> trm \<Rightarrow> trm \<Rightarrow> trm \<times> bool" where
  "fol_rewrite_once (FVR x) s t =
     (let (root, moved) = fol_rewrite_at_root (FVR x) s t in if moved then (root, True) else (FVR x, False))"
| "fol_rewrite_once (ATM g e v) s t =
     (let (root, moved) = fol_rewrite_at_root (ATM g e v) s t
      in if moved then (root, True) else (ATM g e v, False))"
| "fol_rewrite_once (CTR l ts) s t =
     (let (root, moved) = fol_rewrite_at_root (CTR l ts) s t
      in if moved then (root, True)
         else if length ts = 0 then (CTR l ts, False)
         else if length ts > REWRITE_MAX_ARITY then (CTR l ts, False)
         else let kids = map (\<lambda>u. fol_rewrite_once u s t) ts
              in if list_ex snd kids then (CTR l (map fst kids), True) else (CTR l ts, False))"

definition fol_demodulate_atom :: "trm \<Rightarrow> trm \<Rightarrow> trm \<Rightarrow> trm" where
  "fol_demodulate_atom s t a = fst (fol_rewrite_once a s t)"

text \<open>The unit positive equality that can act as a rule, with its sides renamed apart.\<close>

definition unit_equation :: "fol_clause \<Rightarrow> (trm \<times> trm) option" where
  "unit_equation c =
     (if length c \<noteq> 1 then None
      else if lit_sign (c ! 0) \<noteq> 0 then None
      else if \<not> fol_atom_is_eq (lit_atom (c ! 0)) then None
      else Some (thvm_rename_vars (term_ctr_at (lit_atom (c ! 0)) 0) FOL_RENAME_OFFSET,
                 thvm_rename_vars (term_ctr_at (lit_atom (c ! 0)) 1) FOL_RENAME_OFFSET))"

text \<open>The literal loop of a demodulation by a rewriter, and the clause when a literal moved.\<close>

definition demod_lits :: "(trm \<Rightarrow> trm \<times> bool) \<Rightarrow> fol_clause \<Rightarrow> fol_clause option" where
  "demod_lits rw c =
     (let cache = map (\<lambda>l. rw (lit_atom l)) c
      in if \<not> list_ex snd cache then None
         else fol_fill (fol_clause_new (length c))
                (map2 (\<lambda>a l. \<lparr>lit_atom = fst a, lit_sign = lit_sign l\<rparr>) cache c))"

fun fol_demodulate :: "fol_clause option \<Rightarrow> fol_clause option \<Rightarrow> fol_clause option" where
  "fol_demodulate (Some eqc) (Some tgt) =
     (case unit_equation eqc of
        None \<Rightarrow> None
      | Some (s, t) \<Rightarrow> demod_lits (\<lambda>a. fol_rewrite_once a s t) tgt)"
| "fol_demodulate _ _ = None"

section \<open>Meaning\<close>

text \<open>
  A structure interprets every label on one domain and says which elements are true; the code
  keeps predicates and functions in one label space and lets a variable stand for any term, an
  atom included. An equality structure reads FOL_LAB_EQ as identity.
\<close>

record 'd interp =
  ifun :: "ext \<Rightarrow> 'd list \<Rightarrow> 'd"
  iatm :: "u8 \<Rightarrow> ext \<Rightarrow> u64 \<Rightarrow> 'd"
  itru :: "'d \<Rightarrow> bool"

fun teval :: "'d interp \<Rightarrow> (ext \<Rightarrow> 'd) \<Rightarrow> trm \<Rightarrow> 'd" where
  "teval I v (FVR x) = v x"
| "teval I v (CTR f ts) = ifun I f (map (teval I v) ts)"
| "teval I v (ATM g e w) = iatm I g e w"

definition eq_interp :: "'d interp \<Rightarrow> bool" where
  "eq_interp I \<longleftrightarrow> (\<forall>x y. itru I (ifun I FOL_LAB_EQ [x, y]) \<longleftrightarrow> x = y)"

definition lit_holds :: "'d interp \<Rightarrow> (ext \<Rightarrow> 'd) \<Rightarrow> fol_lit \<Rightarrow> bool" where
  "lit_holds I v l \<longleftrightarrow> (if lit_sign l = 0 then itru I (teval I v (lit_atom l))
                         else \<not> itru I (teval I v (lit_atom l)))"

definition clause_holds :: "'d interp \<Rightarrow> (ext \<Rightarrow> 'd) \<Rightarrow> fol_clause \<Rightarrow> bool" where
  "clause_holds I v c \<longleftrightarrow> (\<exists>l \<in> set c. lit_holds I v l)"

definition clause_valid :: "'d interp \<Rightarrow> fol_clause \<Rightarrow> bool" where
  "clause_valid I c \<longleftrightarrow> (\<forall>v. clause_holds I v c)"

text \<open>Signs are 0 or 1 and no atom exceeds the arity the term routines handle.\<close>

definition lit_ok :: "fol_lit \<Rightarrow> bool" where
  "lit_ok l \<longleftrightarrow> lit_sign l \<in> {0, 1} \<and> ar_ok (lit_atom l)"

definition clause_ok :: "fol_clause \<Rightarrow> bool" where
  "clause_ok c \<longleftrightarrow> (\<forall>l \<in> set c. lit_ok l)"

lemma teval_tsubst: "teval I v (tsubst \<theta> t) = teval I (\<lambda>x. teval I v (\<theta> x)) t"
  by (induction t) (auto simp: comp_def intro: arg_cong [where f = "ifun I _"])

lemma lit_map_simps [simp]:
  "lit_atom (lit_map f l) = f (lit_atom l)"
  "lit_sign (lit_map f l) = lit_sign l"
  by (simp_all add: lit_map_def)

lemma lit_holds_subst: "lit_holds I v (lit_map (tsubst \<theta>) l) = lit_holds I (\<lambda>x. teval I v (\<theta> x)) l"
  by (simp add: lit_holds_def teval_tsubst)

lemma valid_instance:
  "clause_valid I c \<Longrightarrow> \<exists>l \<in> set c. lit_holds I v (lit_map (tsubst \<theta>) l)"
  by (simp add: clause_valid_def clause_holds_def lit_holds_subst)

lemma valid_subst: "clause_valid I c \<Longrightarrow> clause_valid I (map (lit_map (tsubst \<theta>)) c)"
  using valid_instance by (fastforce simp: clause_valid_def clause_holds_def)

lemma valid_superset: "clause_valid I c \<Longrightarrow> set c \<subseteq> set d \<Longrightarrow> clause_valid I d"
  by (auto simp: clause_valid_def clause_holds_def)

lemma lit_holds_flip:
  "lit_sign l \<in> {0, 1} \<Longrightarrow> lit_sign m \<in> {0, 1} \<Longrightarrow> lit_sign l \<noteq> lit_sign m \<Longrightarrow> lit_atom l = lit_atom m
   \<Longrightarrow> lit_holds I v l \<Longrightarrow> \<not> lit_holds I v m"
  by (auto simp: lit_holds_def)

subsection \<open>Reading the code\<close>

lemma fill_new [simp]:
  "length ls = n \<Longrightarrow> fol_fill (fol_clause_new n) ls = (if n > FOL_MAX_LITS then None else Some ls)"
  by (simp add: fol_fill_def fol_clause_new_def)

lemma length_lits_except [simp]: "i < length c \<Longrightarrow> length (lits_except c i) = length c - 1"
proof -
  assume i: "i < length c"
  have "length (lits_except c i) = card ({k. k \<noteq> i} \<inter> {0..<length c})"
    by (simp add: lits_except_def distinct_length_filter)
  also have "{k. k \<noteq> i} \<inter> {0..<length c} = {0..<length c} - {i}" by auto
  finally show ?thesis using i by simp
qed

lemma set_lits_except: "set (lits_except c i) = {c ! k | k. k < length c \<and> k \<noteq> i}"
  by (auto simp: lits_except_def)

lemma lits_except_subset: "set (lits_except c i) \<subseteq> set c"
  by (auto simp: set_lits_except)

lemma lits_except_cases:
  assumes "l \<in> set c"
  obtains "l \<in> set (lits_except c i)" | "i < length c" "l = c ! i"
proof -
  obtain k where k: "k < length c" "l = c ! k" using assms by (auto simp: in_set_conv_nth)
  show ?thesis
  proof (cases "k = i")
    case True
    then show ?thesis using k that(2) by simp
  next
    case False
    then show ?thesis using k that(1) by (auto simp: set_lits_except)
  qed
qed

lemma atom_is_eq_conv:
  "fol_atom_is_eq a \<longleftrightarrow> (\<exists>s t. a = CTR FOL_LAB_EQ [s, t])"
  by (cases a) (auto simp: fol_atom_is_eq_def length_Suc_conv numeral_2_eq_2)

text \<open>The renaming apart, and substitution into all literals of a clause.\<close>

definition off_sub :: tsub where "off_sub x = FVR (x + 32)"

abbreviation csubst :: "tsub \<Rightarrow> fol_clause \<Rightarrow> fol_clause" where
  "csubst \<theta> \<equiv> map (lit_map (tsubst \<theta>))"

lemma rename_atom: "ar_ok a \<Longrightarrow> thvm_rename_vars a FOL_RENAME_OFFSET = tsubst off_sub a"
  by (simp add: rename_vars_tsubst FOL_RENAME_OFFSET_def off_sub_def [abs_def])

lemma lit_map_subst_cong:
  "(\<And>l. l \<in> set ls \<Longrightarrow> f (lit_atom l) = g (lit_atom l)) \<Longrightarrow> map (lit_map f) ls = map (lit_map g) ls"
  by (auto simp: lit_map_def)

text \<open>
  What every inference that unifies relies on: on success the table acts as one substitution,
  a most general unifier, on every atom of the clauses.
\<close>

lemma unify_top_sub:
  assumes "unify_top s t = (True, \<sigma>)" and "ar_ok s" and "ar_ok t"
  obtains \<theta> where "is_mgu \<theta> s t" and "tsubst \<theta> s = tsubst \<theta> t" and "\<And>x. ar_ok (\<theta> x)"
    and "\<And>u. ar_ok u \<Longrightarrow> unify_apply_top \<sigma> u = tsubst \<theta> u"
  using unify_top_apply [OF assms] by (metis is_mgu_def)

lemma clause_okD: "clause_ok c \<Longrightarrow> l \<in> set c \<Longrightarrow> lit_sign l \<in> {0, 1} \<and> ar_ok (lit_atom l)"
  by (simp add: clause_ok_def lit_ok_def)

lemma clause_ok_nth: "clause_ok c \<Longrightarrow> i < length c \<Longrightarrow> lit_sign (c ! i) \<in> {0, 1} \<and> ar_ok (lit_atom (c ! i))"
  by (rule clause_okD) auto

lemma clause_ok_append [simp]: "clause_ok (c @ d) \<longleftrightarrow> clause_ok c \<and> clause_ok d"
  by (auto simp: clause_ok_def)

lemma clause_ok_except: "clause_ok c \<Longrightarrow> clause_ok (lits_except c i)"
  using lits_except_subset [of c i] by (auto simp: clause_ok_def)

lemma clause_ok_subst:
  "clause_ok c \<Longrightarrow> (\<And>x. ar_ok (\<theta> x)) \<Longrightarrow> clause_ok (map (lit_map (tsubst \<theta>)) c)"
  by (auto simp: clause_ok_def lit_ok_def intro: ar_ok_tsubst)

lemma ar_ok_rename_off [simp]: "ar_ok a \<Longrightarrow> ar_ok (tsubst off_sub a)"
  by (rule ar_ok_tsubst) (auto simp: off_sub_def)

lemma clause_ok_off: "clause_ok c \<Longrightarrow> clause_ok (csubst off_sub c)"
  by (rule clause_ok_subst) (auto simp: off_sub_def)

subsection \<open>The conclusions of the inferences\<close>

lemma resolve_shape:
  assumes "fol_resolve (Some c1) i (Some c2) j = Some r" and "clause_ok c1" and "clause_ok c2"
  obtains \<theta> where "i < length c1" and "j < length c2" and "lit_sign (c1 ! i) \<noteq> lit_sign (c2 ! j)"
    and "is_mgu \<theta> (lit_atom (c1 ! i)) (tsubst off_sub (lit_atom (c2 ! j)))" and "\<And>x. ar_ok (\<theta> x)"
    and "r = csubst \<theta> (lits_except c1 i @ csubst off_sub (lits_except c2 j))"
proof -
  let ?a = "lit_atom (c1 ! i)" and ?b = "lit_atom (c2 ! j)"
  have ij: "i < length c1" "j < length c2" "lit_sign (c1 ! i) \<noteq> lit_sign (c2 ! j)"
    using assms(1) by (auto split: if_splits)
  have ar: "ar_ok ?a" "ar_ok ?b" using clause_ok_nth assms(2,3) ij by blast+
  obtain ok \<sigma> where u: "unify_top ?a (tsubst off_sub ?b) = (ok, \<sigma>)" by fastforce
  have ok: "ok = True"
    and r: "r = map (lit_map (unify_apply_top \<sigma>)) (lits_except c1 i) @
        map (lit_map (\<lambda>a. unify_apply_top \<sigma> (fol_rename_term a FOL_RENAME_OFFSET))) (lits_except c2 j)"
    using assms(1) ij u ar by (auto simp: Let_def fol_rename_term_def rename_atom split: if_splits)
  obtain \<theta> where \<theta>: "is_mgu \<theta> ?a (tsubst off_sub ?b)" "\<And>x. ar_ok (\<theta> x)"
      "\<And>u. ar_ok u \<Longrightarrow> unify_apply_top \<sigma> u = tsubst \<theta> u"
    using unify_top_sub [OF u [unfolded ok]] ar by (metis ar_ok_rename_off)
  have "map (lit_map (unify_apply_top \<sigma>)) (lits_except c1 i) = csubst \<theta> (lits_except c1 i)"
    by (rule lit_map_subst_cong) (use \<theta>(3) clause_okD [OF clause_ok_except [OF assms(2)]] in blast)
  moreover have "map (lit_map (\<lambda>a. unify_apply_top \<sigma> (fol_rename_term a FOL_RENAME_OFFSET))) (lits_except c2 j)
      = map (lit_map (\<lambda>a. tsubst \<theta> (tsubst off_sub a))) (lits_except c2 j)"
    by (rule lit_map_subst_cong)
      (use \<theta>(3) clause_okD [OF clause_ok_except [OF assms(3)]] in \<open>simp add: fol_rename_term_def rename_atom\<close>)
  ultimately have "r = csubst \<theta> (lits_except c1 i @ csubst off_sub (lits_except c2 j))"
    unfolding r by (simp add: lit_map_def comp_def)
  with ij \<theta> show ?thesis using that by blast
qed

lemma factor_shape:
  assumes "fol_factor (Some c) i j = Some r" and "clause_ok c"
  obtains \<theta> where "i < length c" and "j < length c" and "i \<noteq> j" and "lit_sign (c ! i) = lit_sign (c ! j)"
    and "is_mgu \<theta> (lit_atom (c ! i)) (lit_atom (c ! j))" and "\<And>x. ar_ok (\<theta> x)"
    and "r = csubst \<theta> (lits_except c j)"
proof -
  let ?a = "lit_atom (c ! i)" and ?b = "lit_atom (c ! j)"
  have ij: "i < length c" "j < length c" "i \<noteq> j" "lit_sign (c ! i) = lit_sign (c ! j)"
    using assms(1) by (auto split: if_splits)
  obtain ok \<sigma> where u: "unify_top ?a ?b = (ok, \<sigma>)" by fastforce
  have ok: "ok = True" and r: "r = map (lit_map (unify_apply_top \<sigma>)) (lits_except c j)"
    using assms(1) ij u by (auto split: if_splits)
  obtain \<theta> where \<theta>: "is_mgu \<theta> ?a ?b" "\<And>x. ar_ok (\<theta> x)" "\<And>u. ar_ok u \<Longrightarrow> unify_apply_top \<sigma> u = tsubst \<theta> u"
    using unify_top_sub [OF u [unfolded ok]] clause_ok_nth [OF assms(2)] ij by metis
  have "r = csubst \<theta> (lits_except c j)"
    unfolding r by (rule lit_map_subst_cong) (use \<theta>(3) clause_okD [OF clause_ok_except [OF assms(2)]] in blast)
  with ij \<theta> show ?thesis using that by blast
qed

lemma reflex_shape:
  assumes "fol_reflex_resolve (Some c) i = Some r" and "clause_ok c"
  obtains \<theta> s t where "i < length c" and "c ! i = Neg (CTR FOL_LAB_EQ [s, t])"
    and "is_mgu \<theta> s t" and "\<And>x. ar_ok (\<theta> x)" and "r = csubst \<theta> (lits_except c i)"
proof -
  have i: "i < length c" "lit_sign (c ! i) = 1" "fol_atom_is_eq (lit_atom (c ! i))"
    using assms(1) by (auto split: if_splits)
  then obtain s t where st: "lit_atom (c ! i) = CTR FOL_LAB_EQ [s, t]" by (auto simp: atom_is_eq_conv)
  have ar: "ar_ok s" "ar_ok t" using clause_ok_nth [OF assms(2) i(1)] st by auto
  obtain ok \<sigma> where u: "unify_top s t = (ok, \<sigma>)" by fastforce
  have ok: "ok = True" and r: "r = map (lit_map (unify_apply_top \<sigma>)) (lits_except c i)"
    using assms(1) i st u by (auto split: if_splits)
  obtain \<theta> where \<theta>: "is_mgu \<theta> s t" "\<And>x. ar_ok (\<theta> x)" "\<And>u. ar_ok u \<Longrightarrow> unify_apply_top \<sigma> u = tsubst \<theta> u"
    using unify_top_sub [OF u [unfolded ok]] ar by metis
  have "r = csubst \<theta> (lits_except c i)"
    unfolding r by (rule lit_map_subst_cong) (use \<theta>(3) clause_okD [OF clause_ok_except [OF assms(2)]] in blast)
  moreover have "c ! i = Neg (CTR FOL_LAB_EQ [s, t])" using i(2) st by simp
  ultimately show ?thesis using that i(1) \<theta> by blast
qed

lemma eq_factor_shape:
  assumes "fol_eq_factor (Some c) i j = Some r" and "clause_ok c"
  obtains \<theta> s1 t1 s2 t2 where "i < length c" and "j < length c" and "i \<noteq> j"
    and "c ! i = Pos (CTR FOL_LAB_EQ [s1, t1])" and "c ! j = Pos (CTR FOL_LAB_EQ [s2, t2])"
    and "is_mgu \<theta> s1 s2" and "\<And>x. ar_ok (\<theta> x)"
    and "r = csubst \<theta> (lits_except c j @ [Neg (CTR FOL_LAB_EQ [t1, t2])])"
proof -
  have ij: "i < length c" "j < length c" "i \<noteq> j" "lit_sign (c ! i) = 0" "lit_sign (c ! j) = 0"
      "fol_atom_is_eq (lit_atom (c ! i))" "fol_atom_is_eq (lit_atom (c ! j))"
    using assms(1) by (auto split: if_splits)
  then obtain s1 t1 s2 t2 where st: "lit_atom (c ! i) = CTR FOL_LAB_EQ [s1, t1]"
      "lit_atom (c ! j) = CTR FOL_LAB_EQ [s2, t2]"
    by (auto simp: atom_is_eq_conv)
  have ar: "ar_ok s1" "ar_ok t1" "ar_ok s2" "ar_ok t2"
    using clause_ok_nth [OF assms(2) ij(1)] clause_ok_nth [OF assms(2) ij(2)] st by auto
  obtain ok \<sigma> where u: "unify_top s1 s2 = (ok, \<sigma>)" by fastforce
  let ?ls = "map (\<lambda>k. if k = i then Pos (CTR FOL_LAB_EQ [unify_apply_top \<sigma> s1, unify_apply_top \<sigma> t1])
                 else lit_map (unify_apply_top \<sigma>) (c ! k)) (filter (\<lambda>k. k \<noteq> j) [0..<length c])"
  have len: "length ?ls = length c - 1"
    using length_lits_except [OF ij(2)] by (simp add: lits_except_def)
  have ok: "ok = True"
    and r: "r = ?ls @ [Neg (CTR FOL_LAB_EQ [unify_apply_top \<sigma> t1, unify_apply_top \<sigma> t2])]"
    using assms(1) ij st u len by (auto simp: Let_def split: if_splits)
  obtain \<theta> where \<theta>: "is_mgu \<theta> s1 s2" "\<And>x. ar_ok (\<theta> x)" "\<And>u. ar_ok u \<Longrightarrow> unify_apply_top \<sigma> u = tsubst \<theta> u"
    using unify_top_sub [OF u [unfolded ok]] ar by metis
  have "?ls = csubst \<theta> (lits_except c j)"
    using ij(1,4) st(1) \<theta>(3) ar clause_ok_nth [OF assms(2)]
    by (auto simp: lits_except_def lit_map_def)
  then have "r = csubst \<theta> (lits_except c j @ [Neg (CTR FOL_LAB_EQ [t1, t2])])"
    unfolding r using \<theta>(3) ar by (simp add: lit_map_def)
  moreover have "c ! i = Pos (CTR FOL_LAB_EQ [s1, t1])" "c ! j = Pos (CTR FOL_LAB_EQ [s2, t2])"
    using ij st by simp_all
  ultimately show ?thesis using that ij \<theta> by blast
qed

lemma paramod_shape:
  assumes "fol_paramodulate (Some eqc) ei swap (Some tgt) ti path = Some r"
    and "clause_ok eqc" and "clause_ok tgt"
  obtains \<theta> s t u where "ei < length eqc" and "ti < length tgt"
    and "eqc ! ei = Pos (CTR FOL_LAB_EQ (if swap then [t, s] else [s, t]))"
    and "cp_subterm_at (tsubst off_sub (lit_atom (tgt ! ti))) path = Some u" and "\<not> is_fvr u"
    and "is_mgu \<theta> s u" and "\<And>x. ar_ok (\<theta> x)" and "ar_ok t"
    and "r = csubst \<theta> (lits_except eqc ei @
        (csubst off_sub tgt)[ti := \<lparr>lit_atom = cp_replace_at (tsubst off_sub (lit_atom (tgt ! ti))) path t,
                                    lit_sign = lit_sign (tgt ! ti)\<rparr>])"
proof -
  have ij: "ei < length eqc" "ti < length tgt" "lit_sign (eqc ! ei) = 0" "fol_atom_is_eq (lit_atom (eqc ! ei))"
    using assms(1) by (auto simp: Let_def split: if_splits)
  then obtain l1 l2 where l: "lit_atom (eqc ! ei) = CTR FOL_LAB_EQ [l1, l2]" by (auto simp: atom_is_eq_conv)
  define s t where "s = (if swap then l2 else l1)" and "t = (if swap then l1 else l2)"
  have st: "CTR FOL_LAB_EQ [l1, l2] = CTR FOL_LAB_EQ (if swap then [t, s] else [s, t])"
    by (simp add: s_def t_def)
  have art: "ar_ok (lit_atom (tgt ! ti))" using clause_ok_nth [OF assms(3) ij(2)] by blast
  have ar: "ar_ok s" "ar_ok t" using clause_ok_nth [OF assms(2) ij(1)] l by (auto simp: s_def t_def)
  let ?target = "tsubst off_sub (lit_atom (tgt ! ti))"
  obtain u where u: "cp_subterm_at ?target path = Some u" "\<not> is_fvr u" "u \<noteq> zero_trm"
    using assms(1) ij l art by (auto simp: Let_def rename_atom split: if_splits option.splits)
  have aru: "ar_ok u" using ar_ok_subterm_at [OF _ u(1)] art by simp
  obtain ok \<sigma> where un: "unify_top s u = (ok, \<sigma>)" by fastforce
  let ?new = "unify_apply_top \<sigma> (cp_replace_at ?target path t)"
  let ?ls = "map (\<lambda>k. if k = ti then \<lparr>lit_atom = ?new, lit_sign = lit_sign (tgt ! k)\<rparr>
      else lit_map (\<lambda>a. unify_apply_top \<sigma> (thvm_rename_vars a FOL_RENAME_OFFSET)) (tgt ! k)) [0..<length tgt]"
  have ch: "term_ctr_at (CTR FOL_LAB_EQ [l1, l2]) (if swap then 1 else 0) = s"
      "term_ctr_at (CTR FOL_LAB_EQ [l1, l2]) (if swap then 0 else 1) = t"
    by (simp_all add: s_def t_def)
  have "fol_paramodulate (Some eqc) ei swap (Some tgt) ti path =
      (if \<not> ok then None else if (length eqc - 1) + length tgt > FOL_MAX_LITS then None
       else Some (map (lit_map (unify_apply_top \<sigma>)) (lits_except eqc ei) @ ?ls))"
    unfolding fol_paramodulate.simps Let_def l ch rename_atom [OF art] u(1) using ij u un l
    by (simp del: term_ctr_at.simps)
  then have ok: "ok = True" and r: "r = map (lit_map (unify_apply_top \<sigma>)) (lits_except eqc ei) @ ?ls"
    using assms(1) by (auto split: if_splits)
  obtain \<theta> where \<theta>: "is_mgu \<theta> s u" "\<And>x. ar_ok (\<theta> x)" "\<And>u. ar_ok u \<Longrightarrow> unify_apply_top \<sigma> u = tsubst \<theta> u"
    using unify_top_sub [OF un [unfolded ok]] ar aru by metis
  have "map (lit_map (unify_apply_top \<sigma>)) (lits_except eqc ei) = csubst \<theta> (lits_except eqc ei)"
    by (rule lit_map_subst_cong) (use \<theta>(3) clause_okD [OF clause_ok_except [OF assms(2)]] in blast)
  moreover have "?ls = csubst \<theta> ((csubst off_sub tgt)[ti := \<lparr>lit_atom = cp_replace_at ?target path t,
                                    lit_sign = lit_sign (tgt ! ti)\<rparr>])"
    using \<theta>(3) ar art clause_ok_nth [OF assms(3)] ar_ok_replace_at [of ?target t path]
    by (intro nth_equalityI) (auto simp: lit_map_def nth_list_update rename_atom)
  ultimately have r': "r = csubst \<theta> (lits_except eqc ei @
        (csubst off_sub tgt)[ti := \<lparr>lit_atom = cp_replace_at ?target path t, lit_sign = lit_sign (tgt ! ti)\<rparr>])"
    unfolding r by simp
  have "eqc ! ei = Pos (CTR FOL_LAB_EQ (if swap then [t, s] else [s, t]))"
    using ij(3) l st by simp
  with r' show ?thesis using that ij u \<theta> ar by blast
qed

subsection \<open>Demodulation\<close>

lemma match_ran_ar_ok_aux:
  "thvm_match p t \<sigma> = (ok, \<sigma>') \<Longrightarrow> ar_ok t \<Longrightarrow> \<forall>u \<in> ran \<sigma>. ar_ok u \<Longrightarrow> \<forall>u \<in> ran \<sigma>'. ar_ok u"
  "match_args ps ts \<sigma> = (ok, \<sigma>') \<Longrightarrow> list_all ar_ok ts \<Longrightarrow> \<forall>u \<in> ran \<sigma>. ar_ok u
     \<Longrightarrow> \<forall>u \<in> ran \<sigma>'. ar_ok u"
proof (induction p t \<sigma> and ps ts \<sigma> arbitrary: ok \<sigma>' and ok \<sigma>' rule: thvm_match_match_args.induct)
  case (6 p ps t ts \<sigma>)
  obtain ok1 \<sigma>1 where m: "thvm_match p t \<sigma> = (ok1, \<sigma>1)" by fastforce
  have "\<forall>u \<in> ran \<sigma>1. ar_ok u" using 6 m by simp
  with 6 m show ?case by (auto split: if_splits)
qed (auto split: if_splits option.splits simp: ran_def)

text \<open>A successful match at the root: an instance of the rule, by a substitution into bounded terms.\<close>

lemma rewrite_at_root_cases:
  assumes "fol_rewrite_at_root a s t = (r, moved)" and "ar_ok a" and "ar_ok t"
  shows "(r = a \<and> \<not> moved) \<or> (\<exists>\<delta>. (\<forall>x. ar_ok (\<delta> x)) \<and> a = tsubst \<delta> s \<and> r = tsubst \<delta> t)"
proof -
  obtain ok \<sigma> where m: "thvm_match s a Map.empty = (ok, \<sigma>)" by fastforce
  show ?thesis
  proof (cases ok)
    case True
    have "rs_in_range \<sigma>" using match_range_aux(1) [OF m] by simp
    moreover have "\<forall>u \<in> ran \<sigma>. ar_ok u" using match_ran_ar_ok_aux(1) [OF m assms(2)] by simp
    then have "ar_ok (rs_sub \<sigma> x)" for x by (cases "\<sigma> x") (auto simp: ran_def)
    moreover have "tsubst (rs_sub \<sigma>) s = a"
      using match_sound_aux(1) m True by (simp add: rs_matches_def)
    ultimately show ?thesis
      using assms m True by (auto simp: fol_rewrite_at_root_def subst_apply_tsubst Let_def)
  qed (use assms m in \<open>auto simp: fol_rewrite_at_root_def\<close>)
qed

text \<open>What a rewriter must keep: the value under a structure where the rule's sides agree.\<close>

definition keeps_value :: "'d interp \<Rightarrow> trm \<Rightarrow> trm \<Rightarrow> bool" where
  "keeps_value I a b \<longleftrightarrow> ar_ok b \<and> (\<forall>v. teval I v a = teval I v b)"

lemma keeps_value_refl [simp]: "keeps_value I a a \<longleftrightarrow> ar_ok a"
  by (simp add: keeps_value_def)

lemma keeps_value_root:
  assumes "fol_rewrite_at_root a s t = (r, moved)" and "ar_ok a" and "ar_ok t"
    and "\<forall>v. teval I v s = teval I v t"
  shows "keeps_value I a r"
  using rewrite_at_root_cases [OF assms(1-3)] assms(2-)
  by (auto simp: keeps_value_def teval_tsubst intro: ar_ok_tsubst)

lemma keeps_value_CTR:
  assumes "list_all2 (keeps_value I) ts us" and "length ts \<le> REWRITE_MAX_ARITY"
  shows "keeps_value I (CTR l ts) (CTR l us)"
proof -
  have "map (teval I v) ts = map (teval I v) us" for v
    using assms(1) by (induction rule: list_all2_induct) (auto simp: keeps_value_def)
  moreover have "list_all ar_ok us" using assms(1) by (induction rule: list_all2_induct) (auto simp: keeps_value_def)
  ultimately show ?thesis using assms by (auto simp: keeps_value_def dest: list_all2_lengthD)
qed

lemma rewrite_once_keeps:
  "ar_ok a \<Longrightarrow> ar_ok t \<Longrightarrow> \<forall>v. teval I v s = teval I v t \<Longrightarrow> keeps_value I a (fst (fol_rewrite_once a s t))"
proof (induction a s t rule: fol_rewrite_once.induct)
  case (3 l ts s t)
  obtain r moved where root: "fol_rewrite_at_root (CTR l ts) s t = (r, moved)" by fastforce
  have "keeps_value I (CTR l ts) r" using keeps_value_root [OF root] 3 by blast
  moreover have "keeps_value I (CTR l ts) (CTR l (map (\<lambda>u. fst (fol_rewrite_once u s t)) ts))"
    if "\<not> moved" "ts \<noteq> []"
    using 3 root that by (intro keeps_value_CTR) (auto simp: list_all2_map2 list_all2_same list_all_iff)
  ultimately show ?case using root 3(2) by (auto simp: comp_def Let_def)
qed (auto intro: keeps_value_root split: prod.splits)

text \<open>A valid unit equation has sides of equal value, renamed apart or not.\<close>

lemma unit_equation_sides:
  assumes "unit_equation c = Some (s, t)" and "clause_ok c"
  shows "ar_ok s \<and> ar_ok t"
    and "eq_interp I \<Longrightarrow> clause_valid I c \<Longrightarrow> teval I v s = teval I v t"
proof -
  have c: "length c = 1" "lit_sign (c ! 0) = 0" "fol_atom_is_eq (lit_atom (c ! 0))"
    using assms(1) by (auto simp: unit_equation_def split: if_splits)
  then obtain l where l: "c = [l]" by (auto simp: length_Suc_conv)
  obtain s' t' where st: "lit_atom l = CTR FOL_LAB_EQ [s', t']" using c l by (auto simp: atom_is_eq_conv)
  have ar: "ar_ok s'" "ar_ok t'" using clause_okD [OF assms(2), of l] l st by auto
  then have eqs: "s = tsubst off_sub s'" "t = tsubst off_sub t'"
    using assms(1) c l st by (auto simp: unit_equation_def rename_atom)
  then show "ar_ok s \<and> ar_ok t" using ar by simp
  show "teval I v s = teval I v t" if "eq_interp I" "clause_valid I c"
    using valid_instance [OF that(2), of v off_sub] that(1) l st c(2)
    by (simp add: eqs lit_holds_def eq_interp_def)
qed

lemma demod_lits_shape:
  assumes "demod_lits rw c = Some r"
  shows "r = map (\<lambda>l. lit_map (\<lambda>a. fst (rw a)) l) c"
proof -
  have "r = map2 (\<lambda>a l. \<lparr>lit_atom = fst a, lit_sign = lit_sign l\<rparr>) (map (\<lambda>l. rw (lit_atom l)) c) c"
    using assms by (auto simp: demod_lits_def Let_def split: if_splits)
  also have "\<dots> = map (\<lambda>l. lit_map (\<lambda>a. fst (rw a)) l) c"
    by (induction c) (auto simp: lit_map_def)
  finally show ?thesis .
qed

lemma demod_lits_valid:
  assumes "demod_lits rw c = Some r" and "clause_ok c" and "\<And>a. ar_ok a \<Longrightarrow> keeps_value I a (fst (rw a))"
  shows "clause_ok r" and "clause_valid I c \<Longrightarrow> clause_valid I r"
proof -
  have k: "keeps_value I (lit_atom l) (fst (rw (lit_atom l)))" if "l \<in> set c" for l
    using assms(3) clause_okD [OF assms(2) that] by blast
  show "clause_ok r" using k assms(2)
    by (auto simp: demod_lits_shape [OF assms(1)] clause_ok_def lit_ok_def keeps_value_def)
  have "lit_holds I v (lit_map (\<lambda>a. fst (rw a)) l) = lit_holds I v l" if "l \<in> set c" for l v
    using k [OF that] by (simp add: lit_holds_def keeps_value_def)
  then show "clause_valid I r" if "clause_valid I c"
    using that by (simp add: demod_lits_shape [OF assms(1)] clause_valid_def clause_holds_def)
qed

section \<open>The contract of an inference\<close>

text \<open>
  An inference maps its parameters to a clause or NULL and names its premises: it keeps clauses
  well formed and its conclusion holds in every equality structure in which the premises do.
\<close>

locale fol_inference =
  fixes infer :: "'p \<Rightarrow> fol_clause option" and prems :: "'p \<Rightarrow> fol_clause list" and I :: "'d interp"
  assumes infer_ok: "infer p = Some r \<Longrightarrow> \<forall>c \<in> set (prems p). clause_ok c \<Longrightarrow> clause_ok r"
    and infer_sound: "eq_interp I \<Longrightarrow> infer p = Some r \<Longrightarrow> \<forall>c \<in> set (prems p). clause_ok c \<and> clause_valid I c
      \<Longrightarrow> clause_valid I r"
begin

text \<open>A refuted premise set: an inference that returns the empty clause has no model.\<close>

lemma infer_empty: "infer p = Some [] \<Longrightarrow> eq_interp I \<Longrightarrow> \<forall>c \<in> set (prems p). clause_ok c
    \<Longrightarrow> \<exists>c \<in> set (prems p). \<not> clause_valid I c"
  using infer_sound [of p "[]"] by (fastforce simp: clause_valid_def clause_holds_def)

lemma infer_instance: "infer p = Some r \<Longrightarrow> eq_interp I \<Longrightarrow> \<forall>c \<in> set (prems p). clause_ok c \<and> clause_valid I c
    \<Longrightarrow> clause_valid I (csubst \<theta> r)"
  using infer_sound valid_subst by blast

end

lemma resolve_ok:
  "fol_resolve (Some c1) i (Some c2) j = Some r \<Longrightarrow> clause_ok c1 \<Longrightarrow> clause_ok c2 \<Longrightarrow> clause_ok r"
  by (erule resolve_shape)
    (auto simp del: map_map intro!: clause_ok_subst clause_ok_except clause_ok_off)

lemma resolve_sound:
  assumes "fol_resolve (Some c1) i (Some c2) j = Some r" and "clause_ok c1" and "clause_ok c2"
    and "clause_valid I c1" and "clause_valid I c2"
  shows "clause_valid I r"
  unfolding clause_valid_def clause_holds_def
proof
  fix v
  obtain \<theta> where s: "i < length c1" "j < length c2" "lit_sign (c1 ! i) \<noteq> lit_sign (c2 ! j)"
      "is_mgu \<theta> (lit_atom (c1 ! i)) (tsubst off_sub (lit_atom (c2 ! j)))"
    and r: "r = csubst \<theta> (lits_except c1 i @ csubst off_sub (lits_except c2 j))"
    using resolve_shape [OF assms(1-3)] by metis
  obtain l where l: "l \<in> set c1" "lit_holds I v (lit_map (tsubst \<theta>) l)"
    using valid_instance [OF assms(4)] by blast
  obtain m where m: "m \<in> set c2" "lit_holds I v (lit_map (tsubst \<theta>) (lit_map (tsubst off_sub) m))"
    using valid_instance [OF valid_subst [OF assms(5), where \<theta> = off_sub], where v = v and \<theta> = \<theta>] by auto
  show "\<exists>l \<in> set r. lit_holds I v l"
  proof (cases "l \<in> set (lits_except c1 i) \<or> m \<in> set (lits_except c2 j)")
    case True
    then show ?thesis using l(2) m(2) by (auto simp: r)
  next
    case False
    then have "l = c1 ! i" "m = c2 ! j" using l(1) m(1) lits_except_cases by metis+
    then show ?thesis
      using lit_holds_flip [of "lit_map (tsubst \<theta>) l" "lit_map (tsubst \<theta>) (lit_map (tsubst off_sub) m)" I v]
        l(2) m(2) s(3,4) clause_ok_nth [OF assms(2) s(1)] clause_ok_nth [OF assms(3) s(2)]
      by (auto simp: is_mgu_def)
  qed
qed

lemma factor_ok: "fol_factor (Some c) i j = Some r \<Longrightarrow> clause_ok c \<Longrightarrow> clause_ok r"
  by (erule factor_shape) (auto intro!: clause_ok_subst clause_ok_except)

lemma factor_sound:
  assumes "fol_factor (Some c) i j = Some r" and "clause_ok c" and "clause_valid I c"
  shows "clause_valid I r"
  unfolding clause_valid_def clause_holds_def
proof
  fix v
  obtain \<theta> where s: "i < length c" "j < length c" "i \<noteq> j" "lit_sign (c ! i) = lit_sign (c ! j)"
      "is_mgu \<theta> (lit_atom (c ! i)) (lit_atom (c ! j))"
    and r: "r = csubst \<theta> (lits_except c j)"
    using factor_shape [OF assms(1,2)] by metis
  obtain l where l: "l \<in> set c" "lit_holds I v (lit_map (tsubst \<theta>) l)"
    using valid_instance [OF assms(3)] by blast
  have ci: "c ! i \<in> set (lits_except c j)" using s by (auto simp: set_lits_except)
  from l(1) show "\<exists>l \<in> set r. lit_holds I v l"
  proof (cases rule: lits_except_cases [where i = j])
    case 1
    then show ?thesis using l(2) by (auto simp: r)
  next
    case 2
    then have "lit_map (tsubst \<theta>) l = lit_map (tsubst \<theta>) (c ! i)"
      using s by (simp add: lit_map_def is_mgu_def)
    then show ?thesis using l(2) ci by (force simp: r)
  qed
qed

lemma reflex_ok: "fol_reflex_resolve (Some c) i = Some r \<Longrightarrow> clause_ok c \<Longrightarrow> clause_ok r"
  by (erule reflex_shape) (auto intro!: clause_ok_subst clause_ok_except)

lemma reflex_sound:
  assumes "fol_reflex_resolve (Some c) i = Some r" and "clause_ok c" and "clause_valid I c" and "eq_interp I"
  shows "clause_valid I r"
  unfolding clause_valid_def clause_holds_def
proof
  fix v
  obtain \<theta> s t where s: "i < length c" "c ! i = Neg (CTR FOL_LAB_EQ [s, t])" "is_mgu \<theta> s t"
    and r: "r = csubst \<theta> (lits_except c i)"
    using reflex_shape [OF assms(1,2)] by metis
  obtain l where l: "l \<in> set c" "lit_holds I v (lit_map (tsubst \<theta>) l)"
    using valid_instance [OF assms(3)] by blast
  from l(1) show "\<exists>l \<in> set r. lit_holds I v l"
  proof (cases rule: lits_except_cases [where i = i])
    case 1
    then show ?thesis using l(2) by (auto simp: r)
  next
    case 2
    then show ?thesis using l(2) s assms(4) by (simp add: lit_holds_def is_mgu_def eq_interp_def)
  qed
qed

lemma eq_factor_ok: "fol_eq_factor (Some c) i j = Some r \<Longrightarrow> clause_ok c \<Longrightarrow> clause_ok r"
proof (erule eq_factor_shape)
  fix \<theta> s1 t1 s2 t2
  assume c: "clause_ok c" "i < length c" "j < length c" "c ! i = Pos (CTR FOL_LAB_EQ [s1, t1])"
    "c ! j = Pos (CTR FOL_LAB_EQ [s2, t2])" and ar: "\<And>x. ar_ok (\<theta> x)"
    and r: "r = csubst \<theta> (lits_except c j @ [Neg (CTR FOL_LAB_EQ [t1, t2])])"
  have "ar_ok t1" "ar_ok t2" using clause_ok_nth [OF c(1,2)] clause_ok_nth [OF c(1,3)] c(4,5) by auto
  then have "clause_ok (lits_except c j @ [Neg (CTR FOL_LAB_EQ [t1, t2])])"
    using clause_ok_except [OF c(1)] by (simp add: clause_ok_def lit_ok_def REWRITE_MAX_ARITY_def)
  then show "clause_ok r" unfolding r using ar by (rule clause_ok_subst)
qed

lemma eq_factor_sound:
  assumes "fol_eq_factor (Some c) i j = Some r" and "clause_ok c" and "clause_valid I c" and "eq_interp I"
  shows "clause_valid I r"
  unfolding clause_valid_def clause_holds_def
proof
  fix v
  obtain \<theta> s1 t1 s2 t2 where s: "i < length c" "i \<noteq> j" "c ! i = Pos (CTR FOL_LAB_EQ [s1, t1])"
      "c ! j = Pos (CTR FOL_LAB_EQ [s2, t2])" "is_mgu \<theta> s1 s2"
    and r: "r = csubst \<theta> (lits_except c j @ [Neg (CTR FOL_LAB_EQ [t1, t2])])"
    using eq_factor_shape [OF assms(1,2)] by metis
  obtain l where l: "l \<in> set c" "lit_holds I v (lit_map (tsubst \<theta>) l)"
    using valid_instance [OF assms(3)] by blast
  have ci: "c ! i \<in> set (lits_except c j)" unfolding set_lits_except using s(1,2) by blast
  from l(1) show "\<exists>l \<in> set r. lit_holds I v l"
  proof (cases rule: lits_except_cases [where i = j])
    case 1
    then show ?thesis using l(2) by (auto simp: r)
  next
    case 2
    then have eq: "teval I v (tsubst \<theta> s1) = teval I v (tsubst \<theta> t2)"
      using l(2) s assms(4) by (simp add: lit_holds_def is_mgu_def eq_interp_def)
    have "lit_holds I v (lit_map (tsubst \<theta>) (c ! i)) \<or> lit_holds I v (Neg (CTR FOL_LAB_EQ [tsubst \<theta> t1, tsubst \<theta> t2]))"
      using eq s(3) assms(4) by (auto simp: lit_holds_def eq_interp_def)
    then show ?thesis using ci by (force simp: r lit_map_def)
  qed
qed

lemma teval_replace_at:
  "cp_subterm_at t p = Some u \<Longrightarrow> teval I v u = teval I v w \<Longrightarrow> teval I v (cp_replace_at t p w) = teval I v t"
proof (induction t p w rule: cp_replace_at.induct)
  case (2 l ts i p w)
  show ?case
  proof (cases "i < length ts \<and> length ts \<le> REWRITE_MAX_ARITY")
    case True
    then have "map (teval I v) (ts[i := cp_replace_at (ts ! i) p w]) = map (teval I v) ts"
      using 2 by (simp add: list_update_same_conv map_update)
    then show ?thesis using True by simp
  qed auto
qed auto

lemma paramod_ok:
  assumes "fol_paramodulate (Some eqc) ei swap (Some tgt) ti path = Some r" and "clause_ok eqc" and "clause_ok tgt"
  shows "clause_ok r"
proof -
  obtain \<theta> s t u where p: "ti < length tgt" "\<And>x. ar_ok (\<theta> x)" "ar_ok t"
    and r: "r = csubst \<theta> (lits_except eqc ei @
        (csubst off_sub tgt)[ti := \<lparr>lit_atom = cp_replace_at (tsubst off_sub (lit_atom (tgt ! ti))) path t,
                                    lit_sign = lit_sign (tgt ! ti)\<rparr>])"
    using paramod_shape [OF assms] by metis
  let ?m = "\<lparr>lit_atom = cp_replace_at (tsubst off_sub (lit_atom (tgt ! ti))) path t, lit_sign = lit_sign (tgt ! ti)\<rparr>"
  have "lit_ok ?m" using clause_ok_nth [OF assms(3) p(1)] p(3) by (simp add: lit_ok_def ar_ok_replace_at)
  then have "clause_ok ((csubst off_sub tgt)[ti := ?m])"
    using clause_ok_off [OF assms(3)] set_update_subset_insert [of "csubst off_sub tgt" ti ?m]
    unfolding clause_ok_def by blast
  then show ?thesis unfolding r using clause_ok_except [OF assms(2)] p(2) by (intro clause_ok_subst) auto
qed

lemma paramod_sound:
  assumes "fol_paramodulate (Some eqc) ei swap (Some tgt) ti path = Some r" and "clause_ok eqc" and "clause_ok tgt"
    and "clause_valid I eqc" and "clause_valid I tgt" and "eq_interp I"
  shows "clause_valid I r"
  unfolding clause_valid_def clause_holds_def
proof
  fix v
  obtain \<theta> s t u where p: "ei < length eqc" "ti < length tgt"
      "eqc ! ei = Pos (CTR FOL_LAB_EQ (if swap then [t, s] else [s, t]))"
      "cp_subterm_at (tsubst off_sub (lit_atom (tgt ! ti))) path = Some u" "is_mgu \<theta> s u"
    and r: "r = csubst \<theta> (lits_except eqc ei @
        (csubst off_sub tgt)[ti := \<lparr>lit_atom = cp_replace_at (tsubst off_sub (lit_atom (tgt ! ti))) path t,
                                    lit_sign = lit_sign (tgt ! ti)\<rparr>])"
    using paramod_shape [OF assms(1-3)] by metis
  let ?target = "tsubst off_sub (lit_atom (tgt ! ti))"
  let ?m = "\<lparr>lit_atom = cp_replace_at ?target path t, lit_sign = lit_sign (tgt ! ti)\<rparr>"
  obtain l where l: "l \<in> set eqc" "lit_holds I v (lit_map (tsubst \<theta>) l)"
    using valid_instance [OF assms(4)] by blast
  obtain k where k: "k < length tgt" "lit_holds I v (lit_map (tsubst \<theta>) (lit_map (tsubst off_sub) (tgt ! k)))"
    using valid_instance [OF valid_subst [OF assms(5), where \<theta> = off_sub], where v = v and \<theta> = \<theta>]
    by (auto simp: in_set_conv_nth)
  from l(1) show "\<exists>l \<in> set r. lit_holds I v l"
  proof (cases rule: lits_except_cases [where i = ei])
    case 1
    then show ?thesis using l(2) by (auto simp: r)
  next
    case 2
    then have st: "teval I v (tsubst \<theta> s) = teval I v (tsubst \<theta> t)"
      using l(2) p(3) assms(6) by (cases swap) (auto simp: lit_holds_def eq_interp_def)
    have "teval I v (tsubst \<theta> u) = teval I v (tsubst \<theta> t)" using p(5) st by (simp add: is_mgu_def)
    then have rep: "teval I v (tsubst \<theta> (cp_replace_at ?target path t)) = teval I v (tsubst \<theta> ?target)"
      using teval_replace_at [OF subterm_at_tsubst [OF p(4)]] by (simp add: replace_at_tsubst [OF p(4)])
    let ?n = "(csubst off_sub tgt)[ti := ?m] ! k"
    have "lit_holds I v (lit_map (tsubst \<theta>) ?n)"
      using k rep by (cases "k = ti") (auto simp: lit_holds_def)
    moreover have "lit_map (tsubst \<theta>) ?n \<in> set r" using k(1) by (auto simp: r intro!: imageI nth_mem)
    ultimately show ?thesis by blast
  qed
qed

lemma demodulate_ok: "fol_demodulate (Some eqc) (Some c) = Some r \<Longrightarrow> clause_ok eqc \<Longrightarrow> clause_ok c \<Longrightarrow> clause_ok r"
proof -
  assume d: "fol_demodulate (Some eqc) (Some c) = Some r" and ok: "clause_ok eqc" "clause_ok c"
  then obtain s t where st: "unit_equation eqc = Some (s, t)" "demod_lits (\<lambda>a. fol_rewrite_once a s t) c = Some r"
    by (auto split: option.splits)
  let ?I = "\<lparr>ifun = \<lambda>f xs. (), iatm = \<lambda>g e w. (), itru = \<lambda>x. True\<rparr>"
  have "keeps_value ?I a (fst (fol_rewrite_once a s t))" if "ar_ok a" for a
    using rewrite_once_keeps [OF that, of t ?I s] unit_equation_sides(1) [OF st(1) ok(1)] by simp
  then show "clause_ok r" using demod_lits_valid(1) [OF st(2) ok(2)] by blast
qed

lemma demodulate_sound:
  assumes "fol_demodulate (Some eqc) (Some c) = Some r" and "clause_ok eqc" and "clause_ok c"
    and "clause_valid I eqc" and "clause_valid I c" and "eq_interp I"
  shows "clause_valid I r"
proof -
  obtain s t where st: "unit_equation eqc = Some (s, t)" "demod_lits (\<lambda>a. fol_rewrite_once a s t) c = Some r"
    using assms(1) by (auto split: option.splits)
  have "keeps_value I a (fst (fol_rewrite_once a s t))" if "ar_ok a" for a
    using rewrite_once_keeps [OF that] unit_equation_sides [OF st(1) assms(2)] assms(4,6) by blast
  then show ?thesis using demod_lits_valid(2) [OF st(2) assms(3)] assms(5) by blast
qed

subsection \<open>The code's inferences meet the contract\<close>

interpretation resolution: fol_inference
  "\<lambda>(c1, i, c2, j). fol_resolve (Some c1) i (Some c2) j" "\<lambda>(c1, i, c2, j). [c1, c2]" I for I
  by unfold_locales (auto intro: resolve_ok resolve_sound simp del: fol_resolve.simps)

interpretation factoring: fol_inference
  "\<lambda>(c, i, j). fol_factor (Some c) i j" "\<lambda>(c, i, j). [c]" I for I
  by unfold_locales (auto intro: factor_ok factor_sound simp del: fol_factor.simps)

interpretation reflexivity: fol_inference
  "\<lambda>(c, i). fol_reflex_resolve (Some c) i" "\<lambda>(c, i). [c]" I for I
  by unfold_locales (auto intro: reflex_ok reflex_sound simp del: fol_reflex_resolve.simps)

interpretation eq_factoring: fol_inference
  "\<lambda>(c, i, j). fol_eq_factor (Some c) i j" "\<lambda>(c, i, j). [c]" I for I
  by unfold_locales (auto intro: eq_factor_ok eq_factor_sound simp del: fol_eq_factor.simps)

interpretation paramodulation: fol_inference
  "\<lambda>(eqc, ei, swap, tgt, ti, path). fol_paramodulate (Some eqc) ei swap (Some tgt) ti path"
  "\<lambda>(eqc, ei, swap, tgt, ti, path). [eqc, tgt]" I for I
  by unfold_locales (auto intro: paramod_ok paramod_sound simp del: fol_paramodulate.simps)

interpretation demodulation: fol_inference
  "\<lambda>(eqc, c). fol_demodulate (Some eqc) (Some c)" "\<lambda>(eqc, c). [eqc, c]" I for I
  by unfold_locales (auto intro: demodulate_ok demodulate_sound simp del: fol_demodulate.simps)

section \<open>Matching literals one to one\<close>

text \<open>The literals of a clause whose flag is clear.\<close>

definition unused_lits :: "fol_clause \<Rightarrow> bool list \<Rightarrow> fol_clause" where
  "unused_lits b used = map (nth b) (filter (\<lambda>j. \<not> used ! j) [0..<length b])"

lemma unused_all: "length b \<le> n \<Longrightarrow> unused_lits b (replicate n False) = b"
proof -
  assume "length b \<le> n"
  then have "filter (\<lambda>j. \<not> replicate n False ! j) [0..<length b] = [0..<length b]"
    by (intro filter_True) auto
  then show ?thesis by (simp add: unused_lits_def map_nth)
qed

lemma unused_mark:
  assumes "j < length b" and "length b \<le> length used" and "\<not> used ! j"
  shows "mset (unused_lits b used) = add_mset (b ! j) (mset (unused_lits b (used[j := True])))"
proof -
  let ?P = "\<lambda>used k. \<not> used ! k"
  have "filter_mset (?P used) (mset [0..<length b])
      = add_mset j (filter_mset (?P (used[j := True])) (mset [0..<length b]))"
    using assms by (intro multiset_eqI) (auto simp: count_mset_set' nth_list_update)
  then show ?thesis by (simp add: unused_lits_def)
qed

lemma unused_mem:
  "l \<in># mset (unused_lits b used) \<longleftrightarrow> (\<exists>j < length b. \<not> used ! j \<and> b ! j = l)"
  by (auto simp: unused_lits_def)

lemma clause_eq_find_Some:
  "clause_eq_find l b used = Some j \<Longrightarrow> j < length b \<and> \<not> used ! j \<and> b ! j = l"
  by (auto simp: clause_eq_find_def find_Some_iff intro: fol_lit.equality)

lemma clause_eq_find_None:
  "clause_eq_find l b used = None \<longleftrightarrow> l \<notin># mset (unused_lits b used)"
  unfolding unused_mem clause_eq_find_def find_None_iff by (auto intro: fol_lit.equality)

lemma clause_eq_loop_iff:
  "length b \<le> length used \<Longrightarrow> clause_eq_loop a b used \<longleftrightarrow> mset a \<subseteq># mset (unused_lits b used)"
proof (induction a arbitrary: used)
  case (Cons l a)
  show ?case
  proof (cases "clause_eq_find l b used")
    case None
    then have "l \<notin># mset (unused_lits b used)" by (simp add: clause_eq_find_None)
    then have "\<not> mset (l # a) \<subseteq># mset (unused_lits b used)" using mset_subset_eq_insertD by fastforce
    then show ?thesis using None by simp
  next
    case (Some j)
    with clause_eq_find_Some [OF Some] Cons show ?thesis using unused_mark [of j b used] by simp
  qed
qed auto

subsection \<open>Subsumption\<close>

lemma unused_unmark: "j < length used \<Longrightarrow> \<not> used ! j \<Longrightarrow> used[j := True, j := False] = used"
  by (metis list_update_id list_update_overwrite)

text \<open>A failed search leaves its state as it found it.\<close>

lemma subsume_restores_aux:
  "fol_subsume_rec c1 lits st = (found, st') \<Longrightarrow> \<not> found \<Longrightarrow> length lits \<le> length (fst st) \<Longrightarrow> st' = st"
  "fol_subsume_try l c1 lits js st = (found, st') \<Longrightarrow> \<not> found \<Longrightarrow> length lits \<le> length (fst st)
     \<Longrightarrow> set js \<subseteq> {0..<length lits} \<Longrightarrow> st' = st"
proof (induction c1 lits st and l c1 lits js st arbitrary: found st' and found st'
    rule: fol_subsume_rec_fol_subsume_try.induct)
  case (2 l c1 lits st)
  then show ?case by auto
next
  case (4 l c1 lits j js used \<sigma>)
  obtain ok \<sigma>1 where m: "thvm_match (lit_atom l) (lit_atom (lits ! j)) \<sigma> = (ok, \<sigma>1)" by fastforce
  obtain f2 used2 \<sigma>2 where r: "fol_subsume_rec c1 lits (used[j := True], \<sigma>1) = (f2, used2, \<sigma>2)"
    by (metis prod.exhaust)
  consider "used ! j" | "\<not> used ! j" "lit_sign (lits ! j) \<noteq> lit_sign l"
    | "\<not> used ! j" "lit_sign (lits ! j) = lit_sign l" "\<not> ok"
    | "\<not> used ! j" "lit_sign (lits ! j) = lit_sign l" ok by blast
  then show ?case
  proof cases
    case 4
    have nf: "\<not> f2" using "4.prems" 4 m r by (auto split: if_splits)
    have "(used2, \<sigma>2) = (used[j := True], \<sigma>1)"
      using "4.IH"(3) [OF 4(1) _ refl m [symmetric] 4(3) r] nf "4.prems"(3) 4(2) by simp
    then have u: "used2[j := False] = used"
      using unused_unmark [of j used] "4.prems"(3,4) 4(1) by simp
    have "fol_subsume_try l c1 lits js (used, \<sigma>) = (found, st')"
      using "4.prems"(1) 4 m r nf u by simp
    then show ?thesis
      using "4.IH"(4) [OF 4(1) _ refl m [symmetric] 4(3) refl r [symmetric] refl nf, of found st'] 4(2) u "4.prems" by simp
  qed (use 4 m in auto)
qed auto

lemma subsume_sound_aux:
  "fol_subsume_rec c1 lits st = (True, st') \<Longrightarrow> length lits \<le> length (fst st)
     \<Longrightarrow> snd st \<subseteq>\<^sub>m snd st' \<and> mset (csubst (rs_sub (snd st')) c1) \<subseteq># mset (unused_lits lits (fst st))"
  "fol_subsume_try l c1 lits js st = (True, st') \<Longrightarrow> length lits \<le> length (fst st)
     \<Longrightarrow> set js \<subseteq> {0..<length lits}
     \<Longrightarrow> snd st \<subseteq>\<^sub>m snd st' \<and> mset (csubst (rs_sub (snd st')) (l # c1)) \<subseteq># mset (unused_lits lits (fst st))"
proof (induction c1 lits st and l c1 lits js st arbitrary: st' and st'
    rule: fol_subsume_rec_fol_subsume_try.induct)
  case (2 l c1 lits st)
  then show ?case by auto
next
  case (4 l c1 lits j js used \<sigma>)
  obtain ok \<sigma>1 where m: "thvm_match (lit_atom l) (lit_atom (lits ! j)) \<sigma> = (ok, \<sigma>1)" by fastforce
  obtain f2 used2 \<sigma>2 where r: "fol_subsume_rec c1 lits (used[j := True], \<sigma>1) = (f2, used2, \<sigma>2)"
    by (metis prod.exhaust)
  have j: "j < length lits" "j < length used" using "4.prems" by auto
  consider "used ! j" | "\<not> used ! j" "lit_sign (lits ! j) \<noteq> lit_sign l"
    | "\<not> used ! j" "lit_sign (lits ! j) = lit_sign l" "\<not> ok"
    | "\<not> used ! j" "lit_sign (lits ! j) = lit_sign l" ok by blast
  then show ?case
  proof cases
    case c: 4
    show ?thesis
    proof (cases f2)
      case True
      then have st': "st' = (used2, \<sigma>2)" using "4.prems"(1) c m r by auto
      have ih: "\<sigma>1 \<subseteq>\<^sub>m \<sigma>2" "mset (csubst (rs_sub \<sigma>2) c1) \<subseteq># mset (unused_lits lits (used[j := True]))"
        using "4.IH"(3) [OF c(1) _ refl m [symmetric] c(3), of "(used2, \<sigma>2)"] c(2) r True "4.prems"(2) by auto
      have "rs_matches \<sigma>2 (lit_atom l) (lit_atom (lits ! j))"
        using match_sound_aux(1) [of "lit_atom l" "lit_atom (lits ! j)" \<sigma> \<sigma>1] m c(3)
        by (auto intro: rs_matches_mono [OF _ ih(1)])
      then have "lit_map (tsubst (rs_sub \<sigma>2)) l = lits ! j"
        using c(2) by (intro fol_lit.equality) (auto simp: rs_matches_def)
      moreover have "\<sigma> \<subseteq>\<^sub>m \<sigma>2" using match_le_aux(1) [OF m] ih(1) by (rule map_le_trans)
      ultimately show ?thesis
        using ih(2) unused_mark [of j lits used] j(1) c(1) "4.prems"(2) by (simp add: st')
    next
      case False
      have "(used2, \<sigma>2) = (used[j := True], \<sigma>1)"
        using subsume_restores_aux(1) [OF r False] "4.prems"(2) by simp
      then have u: "used2[j := False] = used" using unused_unmark [of j used] j c(1) by simp
      have "fol_subsume_try l c1 lits js (used, \<sigma>) = (True, st')"
        using "4.prems"(1) c m r False u by simp
      then show ?thesis
        using "4.IH"(4) [OF c(1) _ refl m [symmetric] c(3) refl r [symmetric] refl False, of st'] c(2) u "4.prems"
        by simp
    qed
  qed (use 4 m in auto)
qed auto

lemma subsume_complete_aux:
  "rs_agrees (snd st) \<theta> \<Longrightarrow> mset (csubst \<theta> c1) \<subseteq># mset (unused_lits lits (fst st)) \<Longrightarrow> length lits \<le> length (fst st)
     \<Longrightarrow> \<forall>m \<in> set c1. vars_ok (lit_atom m) \<and> no_atm (lit_atom m) \<Longrightarrow> fst (fol_subsume_rec c1 lits st)"
  "rs_agrees (snd st) \<theta> \<Longrightarrow> length lits \<le> length (fst st)
     \<Longrightarrow> \<forall>m \<in> set (l # c1). vars_ok (lit_atom m) \<and> no_atm (lit_atom m) \<Longrightarrow> set js \<subseteq> {0..<length lits}
     \<Longrightarrow> \<exists>j \<in> set js. \<not> fst st ! j \<and> lits ! j = lit_map (tsubst \<theta>) l
            \<and> mset (csubst \<theta> c1) \<subseteq># mset (unused_lits lits ((fst st)[j := True]))
     \<Longrightarrow> fst (fol_subsume_try l c1 lits js st)"
proof (induction c1 lits st and l c1 lits js st rule: fol_subsume_rec_fol_subsume_try.induct)
  case (2 l c1 lits st)
  have "lit_map (tsubst \<theta>) l \<in># mset (unused_lits lits (fst st))"
    using "2.prems"(2) by (auto dest: mset_subset_eq_insertD simp del: set_mset_mset)
  then obtain j where j: "j < length lits" "\<not> fst st ! j" "lits ! j = lit_map (tsubst \<theta>) l"
    unfolding unused_mem by blast
  then have "mset (csubst \<theta> c1) \<subseteq># mset (unused_lits lits ((fst st)[j := True]))"
    using "2.prems"(2,3) unused_mark [of j lits "fst st"] by simp
  with j have "\<exists>j \<in> set [0..<length lits]. \<not> fst st ! j \<and> lits ! j = lit_map (tsubst \<theta>) l
      \<and> mset (csubst \<theta> c1) \<subseteq># mset (unused_lits lits ((fst st)[j := True]))"
    by (intro bexI [where x = j]) auto
  from "2.IH" [OF "2.prems"(1,3,4) _ this] show ?case by simp
next
  case (4 l c1 lits j js used \<sigma>)
  obtain ok \<sigma>1 where m: "thvm_match (lit_atom l) (lit_atom (lits ! j)) \<sigma> = (ok, \<sigma>1)" by fastforce
  obtain f2 used2 \<sigma>2 where r: "fol_subsume_rec c1 lits (used[j := True], \<sigma>1) = (f2, used2, \<sigma>2)"
    by (metis prod.exhaust)
  let ?good = "\<lambda>j. \<not> used ! j \<and> lits ! j = lit_map (tsubst \<theta>) l
      \<and> mset (csubst \<theta> c1) \<subseteq># mset (unused_lits lits (used[j := True]))"
  have j: "j < length lits" "j < length used" using "4.prems" by auto
  consider "used ! j" | "\<not> used ! j" "lit_sign (lits ! j) \<noteq> lit_sign l"
    | "\<not> used ! j" "lit_sign (lits ! j) = lit_sign l" "\<not> ok"
    | "\<not> used ! j" "lit_sign (lits ! j) = lit_sign l" ok f2
    | "\<not> used ! j" "lit_sign (lits ! j) = lit_sign l" ok "\<not> f2" by blast
  then show ?case
  proof cases
    case c: 5
    have agr: "\<not> ?good j"
    proof
      assume g: "?good j"
      obtain \<sigma>' where "thvm_match (lit_atom l) (lit_atom (lits ! j)) \<sigma> = (True, \<sigma>')" "rs_agrees \<sigma>' \<theta>"
        using match_complete_aux(1) [of "lit_atom l" \<sigma> \<theta>] g "4.prems"(1,3) by fastforce
      then have "rs_agrees \<sigma>1 \<theta>" using m by simp
      then show False
        using "4.IH"(3) [OF c(1) _ refl m [symmetric] c(3)] c(2,4) r g "4.prems"(2,3) by simp
    qed
    have "(used2, \<sigma>2) = (used[j := True], \<sigma>1)"
      using subsume_restores_aux(1) [OF r c(4)] "4.prems"(2) by simp
    then have u: "used2[j := False] = used" using unused_unmark [of j used] j c(1) by simp
    then show ?thesis
      using "4.IH"(4) [OF c(1) _ refl m [symmetric] c(3) refl r [symmetric] refl c(4)] agr c(1-3) m r "4.prems"
      by auto
  next
    case c: 3
    have "\<not> ?good j"
    proof
      assume g: "?good j"
      then show False
        using match_complete_aux(1) [of "lit_atom l" \<sigma> \<theta>] "4.prems"(1,3) m c(3) by fastforce
    qed
    then show ?thesis using "4.IH"(5) [OF c(1) _ refl m [symmetric] c(3)] c m "4.prems" by auto
  qed (use 4 m r in auto)
qed auto

lemma lit_map_subst_subst: "csubst \<theta> (csubst \<rho> c) = csubst (tcomp \<theta> \<rho>) c"
  by (auto simp: lit_map_def tsubst_tsubst)

lemma csubst_off_back: "csubst (\<lambda>x. FVR (x - 32)) (csubst off_sub c) = c"
proof -
  have "tcomp (\<lambda>x. FVR (x - 32)) off_sub = FVR" by (auto simp: tcomp_def off_sub_def)
  then show ?thesis unfolding lit_map_subst_subst by (simp add: lit_map_def map_idI)
qed

lemma off_csubst: "clause_ok c \<Longrightarrow> map (lit_map (\<lambda>a. thvm_rename_vars a FOL_RENAME_OFFSET)) c = csubst off_sub c"
  by (rule lit_map_subst_cong) (use clause_okD rename_atom in blast)

lemma mset_csubst_mono: "mset c \<subseteq># mset d \<Longrightarrow> mset (csubst \<theta> c) \<subseteq># mset (csubst \<theta> d)"
  by (simp add: image_mset_subseteq_mono)

lemma subsumes_instance:
  assumes "fol_subsumes (Some c1) (Some c2)" and "clause_ok c2"
  shows "\<exists>\<theta>. mset (csubst \<theta> c1) \<subseteq># mset c2"
proof (cases "c1 = []")
  case False
  let ?lits = "csubst off_sub c2"
  have len: "length c2 \<le> FOL_MAX_LITS" using assms(1) False by (auto split: if_splits)
  then obtain st' where "fol_subsume_rec c1 ?lits (replicate FOL_MAX_LITS False, Map.empty) = (True, st')"
    using assms False by (cases "fol_subsume_rec c1 ?lits (replicate FOL_MAX_LITS False, Map.empty)")
      (auto simp: off_csubst split: if_splits simp del: map_map)
  from subsume_sound_aux(1) [OF this] have "mset (csubst (rs_sub (snd st')) c1) \<subseteq># mset ?lits"
    using len by (simp add: unused_all del: map_map)
  from mset_csubst_mono [OF this, of "\<lambda>x. FVR (x - 32)"]
  show ?thesis unfolding csubst_off_back unfolding lit_map_subst_subst by blast
qed (auto intro: exI [where x = FVR])

lemma subsumes_complete:
  assumes "mset (csubst \<theta> c1) \<subseteq># mset c2" and "clause_ok c2" and "length c2 \<le> FOL_MAX_LITS"
    and "\<forall>l \<in> set c1. vars_ok (lit_atom l) \<and> no_atm (lit_atom l)"
  shows "fol_subsumes (Some c1) (Some c2)"
proof -
  have len: "length c1 \<le> length c2" using size_mset_mono [OF assms(1)] by simp
  have "mset (csubst (tcomp off_sub \<theta>) c1) \<subseteq># mset (csubst off_sub c2)"
    using mset_csubst_mono [OF assms(1), of off_sub] unfolding lit_map_subst_subst .
  then have "fst (fol_subsume_rec c1 (csubst off_sub c2) (replicate FOL_MAX_LITS False, Map.empty))"
    using assms(3,4) by (intro subsume_complete_aux(1) [where \<theta> = "tcomp off_sub \<theta>"]) (auto simp: unused_all simp del: map_map)
  then show ?thesis using len assms(2,3) by (simp add: off_csubst del: map_map)
qed

lemma subsumes_valid:
  "fol_subsumes (Some c1) (Some c2) \<Longrightarrow> clause_ok c2 \<Longrightarrow> clause_valid I c1 \<Longrightarrow> clause_valid I c2"
  using subsumes_instance valid_subst valid_superset set_mset_mono by (metis set_mset_mset)

subsection \<open>Tautologies\<close>

lemma tautology_valid:
  assumes "fol_is_tautology (Some c)" and "clause_ok c" and "eq_interp I"
  shows "clause_valid I c"
proof -
  consider i j where "i < length c" "j < length c" "lit_sign (c ! i) \<noteq> lit_sign (c ! j)"
      "lit_atom (c ! i) = lit_atom (c ! j)"
    | i where "i < length c" "lit_sign (c ! i) = 0" "fol_atom_is_eq (lit_atom (c ! i))"
      "term_ctr_at (lit_atom (c ! i)) 0 = term_ctr_at (lit_atom (c ! i)) 1"
    using assms(1) by (auto simp: list_ex_iff Suc_le_eq) (metis less_trans)
  then show ?thesis
  proof cases
    case 1
    then have "lit_holds I v (c ! i) \<or> lit_holds I v (c ! j)" for v
      using clause_ok_nth [OF assms(2) 1(1)] clause_ok_nth [OF assms(2) 1(2)] by (auto simp: lit_holds_def)
    then show ?thesis using 1 unfolding clause_valid_def clause_holds_def by (meson nth_mem)
  next
    case 2
    then obtain s where "lit_atom (c ! i) = CTR FOL_LAB_EQ [s, s]" by (auto simp: atom_is_eq_conv)
    then have "c ! i = Pos (CTR FOL_LAB_EQ [s, s])" using 2 by simp
    then have "lit_holds I v (c ! i)" for v using assms(3) by (simp add: lit_holds_def eq_interp_def)
    then show ?thesis using 2 unfolding clause_valid_def clause_holds_def by (meson nth_mem)
  qed
qed

lemma unify_top_complete_ok:
  assumes "vars_ok s" and "vars_ok t" and "tsubst \<delta> s = tsubst \<delta> t"
  obtains \<sigma> where "unify_top s t = (True, \<sigma>)"
  using unify_top_complete [OF _ assms] by (metis (full_types) surj_pair)

section \<open>Properties\<close>

text \<open>The conclusions the code can draw from two clauses.\<close>

definition fol_conclusions :: "fol_clause \<Rightarrow> fol_clause \<Rightarrow> fol_clause set" where
  "fol_conclusions c d = {r. \<exists>i j swap path.
     fol_resolve (Some c) i (Some d) j = Some r \<or> fol_factor (Some c) i j = Some r
     \<or> fol_reflex_resolve (Some c) i = Some r \<or> fol_eq_factor (Some c) i j = Some r
     \<or> fol_paramodulate (Some c) i swap (Some d) j path = Some r
     \<or> fol_demodulate (Some c) (Some d) = Some r}"

text \<open>C15: every clause that resolution, factoring, reflexivity resolution, equality factoring,
paramodulation or demodulation derives from well-formed clauses is well formed and holds in
every equality structure in which the premises hold.\<close>

theorem fol_inferences_sound:
  assumes "clause_ok c" and "clause_ok d" and "r \<in> fol_conclusions c d"
    and "eq_interp I" and "clause_valid I c" and "clause_valid I d"
  shows "clause_ok r \<and> clause_valid I r"
proof -
  have "\<exists>i j swap path. fol_resolve (Some c) i (Some d) j = Some r \<or> fol_factor (Some c) i j = Some r
     \<or> fol_reflex_resolve (Some c) i = Some r \<or> fol_eq_factor (Some c) i j = Some r
     \<or> fol_paramodulate (Some c) i swap (Some d) j path = Some r
     \<or> fol_demodulate (Some c) (Some d) = Some r"
    using assms(3) unfolding fol_conclusions_def by (rule CollectD)
  then consider i j where "fol_resolve (Some c) i (Some d) j = Some r"
    | i j where "fol_factor (Some c) i j = Some r"
    | i where "fol_reflex_resolve (Some c) i = Some r"
    | i j where "fol_eq_factor (Some c) i j = Some r"
    | i swap j path where "fol_paramodulate (Some c) i swap (Some d) j path = Some r"
    | "fol_demodulate (Some c) (Some d) = Some r" by metis
  then show ?thesis
  proof cases
    case (1 i j)
    then show ?thesis using resolution.infer_sound [of I "(c, i, d, j)" r] resolution.infer_ok [of "(c, i, d, j)" r] assms by simp
  next
    case (2 i j)
    then show ?thesis using factoring.infer_sound [of I "(c, i, j)" r] factoring.infer_ok [of "(c, i, j)" r] assms by simp
  next
    case (3 i)
    then show ?thesis using reflexivity.infer_sound [of I "(c, i)" r] reflexivity.infer_ok [of "(c, i)" r] assms by simp
  next
    case (4 i j)
    then show ?thesis using eq_factoring.infer_sound [of I "(c, i, j)" r] eq_factoring.infer_ok [of "(c, i, j)" r] assms by simp
  next
    case (5 i swap j path)
    then show ?thesis using paramodulation.infer_sound [of I "(c, i, swap, d, j, path)" r]
      paramodulation.infer_ok [of "(c, i, swap, d, j, path)" r] assms by simp
  next
    case 6
    then show ?thesis using demodulation.infer_sound [of I "(c, d)" r] demodulation.infer_ok [of "(c, d)" r] assms by simp
  qed
qed

definition clause_ex1 :: fol_clause where "clause_ex1 = [Pos (CTR 5 [FVR 0])]"
definition clause_ex2 :: fol_clause where "clause_ex2 = [Neg (CTR 5 [CTR 7 []]), Pos (CTR 6 [CTR 7 []])]"

definition bool_interp :: "bool interp" where
  "bool_interp = \<lparr>ifun = \<lambda>f xs. if f = FOL_LAB_EQ then (case xs of [x, y] \<Rightarrow> x = y | _ \<Rightarrow> True) else True,
     iatm = \<lambda>g e w. True, itru = \<lambda>x. x\<rparr>"

theorem fol_inferences_sound_witness:
  "clause_ok [Pos (CTR 6 [CTR 7 []])] \<and> clause_valid bool_interp [Pos (CTR 6 [CTR 7 []])]"
proof (rule fol_inferences_sound [of clause_ex1 clause_ex2])
  have "fol_resolve (Some clause_ex1) 0 (Some clause_ex2) 0 = Some [Pos (CTR 6 [CTR 7 []])]" by code_simp
  then show "[Pos (CTR 6 [CTR 7 []])] \<in> fol_conclusions clause_ex1 clause_ex2"
    unfolding fol_conclusions_def by blast
qed (auto simp: clause_ok_def lit_ok_def clause_ex1_def clause_ex2_def REWRITE_MAX_ARITY_def eq_interp_def
      bool_interp_def clause_valid_def clause_holds_def lit_holds_def FOL_LAB_EQ_def)

text \<open>C16: resolution is complete on a pair of literals: when the atoms have instances in common, the
resolvent exists, and every resolvent of instances of the two clauses on these literals is an
instance of it.\<close>

theorem fol_resolve_most_general:
  assumes "clause_ok c1" and "clause_ok c2" and "i < length c1" and "j < length c2"
    and "lit_sign (c1 ! i) \<noteq> lit_sign (c2 ! j)" and "length c1 + length c2 - 2 \<le> FOL_MAX_LITS"
    and low: "\<forall>l \<in> set c1 \<union> set c2. vars_low (lit_atom l)"
    and "tsubst \<delta> (lit_atom (c1 ! i)) = tsubst \<gamma> (lit_atom (c2 ! j))"
  shows "\<exists>r \<eta>. fol_resolve (Some c1) i (Some c2) j = Some r
    \<and> csubst \<eta> r = csubst \<delta> (lits_except c1 i) @ csubst \<gamma> (lits_except c2 j)"
proof -
  let ?a = "lit_atom (c1 ! i)" and ?b = "lit_atom (c2 ! j)"
  let ?\<eta> = "\<lambda>x. if unat x < 32 then \<delta> x else \<gamma> (x - 32)"
  have ar: "ar_ok ?a" "ar_ok ?b" using clause_ok_nth assms(1-4) by blast+
  have lowD: "tsubst ?\<eta> t = tsubst \<delta> t" if "vars_low t" for t
    using that by (intro tsubst_cong) (auto simp: vars_low_def)
  have highD: "tsubst ?\<eta> (tsubst off_sub t) = tsubst \<gamma> t" if "vars_low t" for t
    unfolding tsubst_tsubst using that
    by (intro tsubst_cong) (auto simp: tcomp_def off_sub_def vars_low_def shift_low)
  have la: "vars_low ?a" "vars_low ?b" using low assms(3,4) nth_mem by blast+
  have un: "tsubst ?\<eta> ?a = tsubst ?\<eta> (tsubst off_sub ?b)" using assms(8) lowD highD la by simp
  have "vars_ok ?a" using la(1) by (fastforce simp: vars_ok_def vars_low_def REWRITE_MAX_VAR_def)
  moreover have "vars_ok (tsubst off_sub ?b)"
    using la(2) by (auto simp: vars_ok_def vars_low_def tvars_tsubst off_sub_def shift_low REWRITE_MAX_VAR_def)
  ultimately obtain \<sigma> where "unify_top ?a (tsubst off_sub ?b) = (True, \<sigma>)"
    using unify_top_complete_ok un by blast
  then obtain r where r: "fol_resolve (Some c1) i (Some c2) j = Some r"
    using assms(3-6) ar by (auto simp: fol_rename_term_def rename_atom Let_def numeral_2_eq_2)
  obtain \<theta> where \<theta>: "is_mgu \<theta> ?a (tsubst off_sub ?b)"
    and shape: "r = csubst \<theta> (lits_except c1 i @ csubst off_sub (lits_except c2 j))"
    using resolve_shape [OF r assms(1,2)] by metis
  have "csubst ?\<eta> r = csubst ?\<eta> (lits_except c1 i @ csubst off_sub (lits_except c2 j))"
    using \<theta> un unfolding shape lit_map_subst_subst is_mgu_def by simp
  moreover have "csubst ?\<eta> (lits_except c1 i) = csubst \<delta> (lits_except c1 i)"
    by (rule lit_map_subst_cong) (use lowD low lits_except_subset [of c1 i] in blast)
  moreover have "csubst ?\<eta> (csubst off_sub (lits_except c2 j)) = csubst \<gamma> (lits_except c2 j)"
    using highD low lits_except_subset [of c2 j] by (auto simp: lit_map_def)
  ultimately have "csubst ?\<eta> r = csubst \<delta> (lits_except c1 i) @ csubst \<gamma> (lits_except c2 j)"
    by (simp only: map_append)
  with r show ?thesis by blast
qed

theorem fol_resolve_most_general_witness:
  "\<exists>r \<eta>. fol_resolve (Some clause_ex1) 0 (Some clause_ex2) 0 = Some r
    \<and> csubst \<eta> r = csubst (\<lambda>x. CTR 7 []) (lits_except clause_ex1 0) @ csubst FVR (lits_except clause_ex2 0)"
  by (rule fol_resolve_most_general)
    (auto simp: clause_ex1_def clause_ex2_def clause_ok_def lit_ok_def REWRITE_MAX_ARITY_def FOL_MAX_LITS_def
      vars_low_def)

text \<open>C17: subsumption is decided exactly: fol_subsumes holds when and only when some
substitution maps the literals of the first clause one to one into those of the second.\<close>

theorem fol_subsumes_correct:
  assumes "clause_ok c2" and "length c2 \<le> FOL_MAX_LITS"
    and "\<forall>l \<in> set c1. vars_ok (lit_atom l) \<and> no_atm (lit_atom l)"
  shows "fol_subsumes (Some c1) (Some c2) \<longleftrightarrow> (\<exists>\<theta>. mset (csubst \<theta> c1) \<subseteq># mset c2)"
  using subsumes_instance subsumes_complete assms by blast

theorem fol_subsumes_correct_witness:
  "\<exists>\<theta>. mset (csubst \<theta> [Pos (CTR 5 [FVR 0]), Pos (CTR 6 [FVR 0])])
       \<subseteq># mset [Pos (CTR 5 [CTR 7 []]), Pos (CTR 6 [CTR 8 []]), Pos (CTR 5 [CTR 8 []])]"
proof (rule fol_subsumes_correct [THEN iffD1])
  show "fol_subsumes (Some [Pos (CTR 5 [FVR 0]), Pos (CTR 6 [FVR 0])])
      (Some [Pos (CTR 5 [CTR 7 []]), Pos (CTR 6 [CTR 8 []]), Pos (CTR 5 [CTR 8 []])])"
    by code_simp
qed (auto simp: clause_ok_def lit_ok_def REWRITE_MAX_ARITY_def FOL_MAX_LITS_def REWRITE_MAX_VAR_def)

text \<open>The comparison fol_clause_eq is equality of the clauses as multisets of literals.\<close>

theorem fol_clause_eq_correct:
  assumes "length b \<le> FOL_MAX_LITS"
  shows "fol_clause_eq (Some a) (Some b) \<longleftrightarrow> mset a = mset b"
proof (cases "length a = length b")
  case True
  have "clause_eq_loop a b (replicate FOL_MAX_LITS False) \<longleftrightarrow> mset a \<subseteq># mset b"
    using clause_eq_loop_iff [of b "replicate FOL_MAX_LITS False" a] assms by (simp add: unused_all)
  also have "\<dots> \<longleftrightarrow> mset a = mset b"
    using True by (metis add.right_neutral add_left_cancel mset_subset_eq_exists_conv size_eq_0_iff_empty size_mset size_union order_refl)
  finally show ?thesis using True by auto
next
  case False
  then show ?thesis by (auto dest: mset_eq_length)
qed

theorem fol_clause_eq_correct_witness:
  "mset [Pos (CTR 5 []), Neg (FVR 1)] = mset [Neg (FVR 1), Pos (CTR 5 [])]"
proof (rule fol_clause_eq_correct [THEN iffD1])
  show "fol_clause_eq (Some [Pos (CTR 5 []), Neg (FVR 1)]) (Some [Neg (FVR 1), Pos (CTR 5 [])])" by code_simp
qed (simp add: FOL_MAX_LITS_def)

end
