(* ===== verification/FOL_Formula.thy ===== *)
theory FOL_Formula
  imports FOL_Clause
begin

text \<open>
  Formulas of the CNF pipeline (src/fol/cnf.c): terms whose reserved labels are the connectives,
  their negation normal form, and their truth in a structure. A formula is a term like any
  other: a node with a connective's label has its operands in its first children, a missing
  child reads as the zero word, and whatever is no such node is an atom.
\<close>

definition FOL_LAB_NOT :: ext where "FOL_LAB_NOT = 0xFFF0"
definition FOL_LAB_AND :: ext where "FOL_LAB_AND = 0xFFF1"
definition FOL_LAB_OR :: ext where "FOL_LAB_OR = 0xFFF2"
definition FOL_LAB_IMP :: ext where "FOL_LAB_IMP = 0xFFF3"
definition FOL_LAB_IFF :: ext where "FOL_LAB_IFF = 0xFFF4"
definition FOL_LAB_ALL :: ext where "FOL_LAB_ALL = 0xFFF5"
definition FOL_LAB_EX :: ext where "FOL_LAB_EX = 0xFFF6"

lemmas fol_lab_defs = FOL_LAB_NOT_def FOL_LAB_AND_def FOL_LAB_OR_def FOL_LAB_IMP_def
  FOL_LAB_IFF_def FOL_LAB_ALL_def FOL_LAB_EX_def

definition fol_is_connective :: "ext \<Rightarrow> bool" where
  "fol_is_connective label \<longleftrightarrow> FOL_LAB_NOT \<le> label \<and> label \<le> FOL_LAB_EX"

definition fol_mk_not :: "trm \<Rightarrow> trm" where "fol_mk_not p = CTR FOL_LAB_NOT [p]"
definition fol_mk_and :: "trm \<Rightarrow> trm \<Rightarrow> trm" where "fol_mk_and p q = CTR FOL_LAB_AND [p, q]"
definition fol_mk_or :: "trm \<Rightarrow> trm \<Rightarrow> trm" where "fol_mk_or p q = CTR FOL_LAB_OR [p, q]"
definition fol_mk_imp :: "trm \<Rightarrow> trm \<Rightarrow> trm" where "fol_mk_imp p q = CTR FOL_LAB_IMP [p, q]"
definition fol_mk_iff :: "trm \<Rightarrow> trm \<Rightarrow> trm" where "fol_mk_iff p q = CTR FOL_LAB_IFF [p, q]"
definition fol_mk_all :: "trm \<Rightarrow> trm \<Rightarrow> trm" where "fol_mk_all x p = CTR FOL_LAB_ALL [x, p]"
definition fol_mk_ex :: "trm \<Rightarrow> trm \<Rightarrow> trm" where "fol_mk_ex x p = CTR FOL_LAB_EX [x, p]"

lemmas fol_mk_defs = fol_mk_not_def fol_mk_and_def fol_mk_or_def fol_mk_imp_def fol_mk_iff_def
  fol_mk_all_def fol_mk_ex_def

lemma lab_distinct [simp]:
  "FOL_LAB_NOT \<noteq> FOL_LAB_AND" "FOL_LAB_NOT \<noteq> FOL_LAB_OR" "FOL_LAB_NOT \<noteq> FOL_LAB_IMP"
  "FOL_LAB_NOT \<noteq> FOL_LAB_IFF" "FOL_LAB_NOT \<noteq> FOL_LAB_ALL" "FOL_LAB_NOT \<noteq> FOL_LAB_EX"
  "FOL_LAB_AND \<noteq> FOL_LAB_OR" "FOL_LAB_AND \<noteq> FOL_LAB_IMP" "FOL_LAB_AND \<noteq> FOL_LAB_IFF"
  "FOL_LAB_AND \<noteq> FOL_LAB_ALL" "FOL_LAB_AND \<noteq> FOL_LAB_EX" "FOL_LAB_OR \<noteq> FOL_LAB_IMP"
  "FOL_LAB_OR \<noteq> FOL_LAB_IFF" "FOL_LAB_OR \<noteq> FOL_LAB_ALL" "FOL_LAB_OR \<noteq> FOL_LAB_EX"
  "FOL_LAB_IMP \<noteq> FOL_LAB_IFF" "FOL_LAB_IMP \<noteq> FOL_LAB_ALL" "FOL_LAB_IMP \<noteq> FOL_LAB_EX"
  "FOL_LAB_IFF \<noteq> FOL_LAB_ALL" "FOL_LAB_IFF \<noteq> FOL_LAB_EX" "FOL_LAB_ALL \<noteq> FOL_LAB_EX"
  by (simp_all add: fol_lab_defs)

lemmas lab_distinct_sym [simp] = lab_distinct [symmetric]

lemma is_connective_iff:
  "fol_is_connective l \<longleftrightarrow>
     l \<in> {FOL_LAB_NOT, FOL_LAB_AND, FOL_LAB_OR, FOL_LAB_IMP, FOL_LAB_IFF, FOL_LAB_ALL, FOL_LAB_EX}"
proof -
  have "fol_is_connective l \<longleftrightarrow> 65520 \<le> uint l \<and> uint l \<le> 65526"
    by (simp add: fol_is_connective_def fol_lab_defs word_le_def)
  also have "\<dots> \<longleftrightarrow> uint l \<in> {65520, 65521, 65522, 65523, 65524, 65525, 65526}" by auto
  also have "\<dots> \<longleftrightarrow> l \<in> {FOL_LAB_NOT, FOL_LAB_AND, FOL_LAB_OR, FOL_LAB_IMP, FOL_LAB_IFF, FOL_LAB_ALL, FOL_LAB_EX}"
    by (simp add: fol_lab_defs word_uint_eq_iff)
  finally show ?thesis .
qed

text \<open>The number of constructor nodes, which every descent into a child lowers.\<close>

fun ctr_count :: "trm \<Rightarrow> nat" where
  "ctr_count (CTR l ts) = Suc (sum_list (map ctr_count ts))"
| "ctr_count _ = 0"

lemma ctr_count_at [simp]: "ctr_count (term_ctr_at (CTR l ts) i) < ctr_count (CTR l ts)"
  using sum_list_member_le [of "ts ! i" ts ctr_count] by (auto simp: zero_trm_def)

lemma ctr_count_at_le: "ctr_count (if i < length ts then ts ! i else zero_trm) \<le> sum_list (map ctr_count ts)"
  using sum_list_member_le [of "ts ! i" ts ctr_count] by (auto simp: zero_trm_def)

section \<open>Negation normal form\<close>

definition fol_nnf_atom :: "trm \<Rightarrow> bool \<Rightarrow> trm" where
  "fol_nnf_atom a negate = (if negate then fol_mk_not a else a)"

function (sequential) fol_nnf_rec :: "trm \<Rightarrow> bool \<Rightarrow> trm" where
  "fol_nnf_rec (CTR lab ts) negate =
     (let p = term_ctr_at (CTR lab ts) 0; q = term_ctr_at (CTR lab ts) 1
      in if lab = FOL_LAB_NOT then fol_nnf_rec p (\<not> negate)
         else if lab = FOL_LAB_AND
         then if negate then fol_mk_or (fol_nnf_rec p True) (fol_nnf_rec q True)
              else fol_mk_and (fol_nnf_rec p False) (fol_nnf_rec q False)
         else if lab = FOL_LAB_OR
         then if negate then fol_mk_and (fol_nnf_rec p True) (fol_nnf_rec q True)
              else fol_mk_or (fol_nnf_rec p False) (fol_nnf_rec q False)
         else if lab = FOL_LAB_IMP
         then if negate then fol_mk_and (fol_nnf_rec p False) (fol_nnf_rec q True)
              else fol_mk_or (fol_nnf_rec p True) (fol_nnf_rec q False)
         else if lab = FOL_LAB_IFF
         then if negate
              then fol_mk_or (fol_mk_and (fol_nnf_rec p False) (fol_nnf_rec q True))
                             (fol_mk_and (fol_nnf_rec p True) (fol_nnf_rec q False))
              else fol_mk_and (fol_mk_or (fol_nnf_rec p True) (fol_nnf_rec q False))
                              (fol_mk_or (fol_nnf_rec p False) (fol_nnf_rec q True))
         else if lab = FOL_LAB_ALL
         then if negate then fol_mk_ex p (fol_nnf_rec q True) else fol_mk_all p (fol_nnf_rec q False)
         else if lab = FOL_LAB_EX
         then if negate then fol_mk_all p (fol_nnf_rec q True) else fol_mk_ex p (fol_nnf_rec q False)
         else fol_nnf_atom (CTR lab ts) negate)"
| "fol_nnf_rec f negate = fol_nnf_atom f negate"
  by pat_completeness auto
termination by (relation "measure (ctr_count \<circ> fst)") (auto simp del: ctr_count.simps term_ctr_at.simps)

definition fol_nnf :: "trm \<Rightarrow> trm" where
  "fol_nnf f = fol_nnf_rec f False"

section \<open>Truth\<close>

text \<open>
  A formula is true in a structure under an assignment. The clauses read the operands as the
  code does; an atom is true when its value is a true element of the structure.
\<close>

function (sequential) fol_holds :: "'d interp \<Rightarrow> (ext \<Rightarrow> 'd) \<Rightarrow> trm \<Rightarrow> bool" where
  "fol_holds I v (CTR lab ts) =
     (let p = term_ctr_at (CTR lab ts) 0; q = term_ctr_at (CTR lab ts) 1
      in if lab = FOL_LAB_NOT then \<not> fol_holds I v p
         else if lab = FOL_LAB_AND then fol_holds I v p \<and> fol_holds I v q
         else if lab = FOL_LAB_OR then fol_holds I v p \<or> fol_holds I v q
         else if lab = FOL_LAB_IMP then fol_holds I v p \<longrightarrow> fol_holds I v q
         else if lab = FOL_LAB_IFF then fol_holds I v p \<longleftrightarrow> fol_holds I v q
         else if lab = FOL_LAB_ALL then \<forall>d. fol_holds I (v(trm_ext p := d)) q
         else if lab = FOL_LAB_EX then \<exists>d. fol_holds I (v(trm_ext p := d)) q
         else itru I (teval I v (CTR lab ts)))"
| "fol_holds I v f = itru I (teval I v f)"
  by pat_completeness auto
termination by (relation "measure (\<lambda>(I, v, f). ctr_count f)") (auto simp del: ctr_count.simps term_ctr_at.simps)

declare fol_nnf_rec.simps(1) [simp del] fol_holds.simps(1) [simp del]

definition is_atom :: "trm \<Rightarrow> bool" where
  "is_atom f \<longleftrightarrow> (is_ctr f \<longrightarrow> \<not> fol_is_connective (trm_ext f))"

lemma is_atom_simps [simp]:
  "is_atom (FVR x)" "is_atom (ATM g e w)" "is_atom (CTR l ts) \<longleftrightarrow> \<not> fol_is_connective l"
  by (simp_all add: is_atom_def)

lemma connective_labs [simp]:
  "fol_is_connective FOL_LAB_NOT" "fol_is_connective FOL_LAB_AND" "fol_is_connective FOL_LAB_OR"
  "fol_is_connective FOL_LAB_IMP" "fol_is_connective FOL_LAB_IFF" "fol_is_connective FOL_LAB_ALL"
  "fol_is_connective FOL_LAB_EX"
  by (simp_all add: is_connective_iff)

lemma holds_atom: "is_atom a \<Longrightarrow> fol_holds I v a \<longleftrightarrow> itru I (teval I v a)"
  by (cases a) (auto simp: fol_holds.simps(1) is_connective_iff)

lemma holds_nodes [simp]:
  "fol_holds I v (CTR FOL_LAB_NOT (p # ts)) \<longleftrightarrow> \<not> fol_holds I v p"
  "fol_holds I v (CTR FOL_LAB_AND (p # q # ts)) \<longleftrightarrow> fol_holds I v p \<and> fol_holds I v q"
  "fol_holds I v (CTR FOL_LAB_OR (p # q # ts)) \<longleftrightarrow> fol_holds I v p \<or> fol_holds I v q"
  "fol_holds I v (CTR FOL_LAB_IMP (p # q # ts)) \<longleftrightarrow> (fol_holds I v p \<longrightarrow> fol_holds I v q)"
  "fol_holds I v (CTR FOL_LAB_IFF (p # q # ts)) \<longleftrightarrow> (fol_holds I v p \<longleftrightarrow> fol_holds I v q)"
  "fol_holds I v (CTR FOL_LAB_ALL (x # q # ts)) \<longleftrightarrow> (\<forall>d. fol_holds I (v(trm_ext x := d)) q)"
  "fol_holds I v (CTR FOL_LAB_EX (x # q # ts)) \<longleftrightarrow> (\<exists>d. fol_holds I (v(trm_ext x := d)) q)"
  by (simp_all add: fol_holds.simps(1))

lemma holds_mk [simp]:
  "fol_holds I v (fol_mk_not p) \<longleftrightarrow> \<not> fol_holds I v p"
  "fol_holds I v (fol_mk_and p q) \<longleftrightarrow> fol_holds I v p \<and> fol_holds I v q"
  "fol_holds I v (fol_mk_or p q) \<longleftrightarrow> fol_holds I v p \<or> fol_holds I v q"
  "fol_holds I v (fol_mk_imp p q) \<longleftrightarrow> (fol_holds I v p \<longrightarrow> fol_holds I v q)"
  "fol_holds I v (fol_mk_iff p q) \<longleftrightarrow> (fol_holds I v p \<longleftrightarrow> fol_holds I v q)"
  "fol_holds I v (fol_mk_all x p) \<longleftrightarrow> (\<forall>d. fol_holds I (v(trm_ext x := d)) p)"
  "fol_holds I v (fol_mk_ex x p) \<longleftrightarrow> (\<exists>d. fol_holds I (v(trm_ext x := d)) p)"
  by (simp_all add: fol_mk_defs)

lemma nnf_atom_holds: "is_atom a \<Longrightarrow> fol_holds I v (fol_nnf_atom a n) \<longleftrightarrow> fol_holds I v a \<noteq> n"
  by (simp add: fol_nnf_atom_def)

lemma nnf_rec_holds: "fol_holds I v (fol_nnf_rec f n) \<longleftrightarrow> fol_holds I v f \<noteq> n"
proof (induction f arbitrary: n v rule: measure_induct_rule [where f = ctr_count])
  case (less f)
  show ?case
  proof (cases f)
    case (CTR lab ts)
    have ih: "fol_holds I w (fol_nnf_rec (term_ctr_at (CTR lab ts) i) m) \<longleftrightarrow>
        fol_holds I w (term_ctr_at (CTR lab ts) i) \<noteq> m" for w i m
      using less.IH CTR ctr_count_at by blast
    have "fol_holds I v (fol_nnf_rec (CTR lab ts) n) \<longleftrightarrow> fol_holds I v (CTR lab ts) \<noteq> n"
    proof (cases "fol_is_connective lab")
      case True
      note eqs = fol_nnf_rec.simps(1) fol_holds.simps(1) Let_def
      from True consider "lab = FOL_LAB_NOT" | "lab = FOL_LAB_AND" | "lab = FOL_LAB_OR" | "lab = FOL_LAB_IMP"
        | "lab = FOL_LAB_IFF" | "lab = FOL_LAB_ALL" | "lab = FOL_LAB_EX"
        by (auto simp: is_connective_iff)
      then show ?thesis using ih
        by cases (cases n; simp add: eqs del: term_ctr_at.simps; blast)+
    next
      case False
      then show ?thesis
        by (simp add: is_connective_iff fol_nnf_rec.simps(1) nnf_atom_holds del: term_ctr_at.simps)
    qed
    then show ?thesis using CTR by simp
  qed (auto simp: fol_nnf_atom_def)
qed

section \<open>The shapes of the stages\<close>

text \<open>
  The formulas the pipeline takes, the negation normal forms, their quantifier-free part, the
  disjunctions of literals and the conjunctions of these.
\<close>

fun is_lit :: "trm \<Rightarrow> bool" where
  "is_lit (CTR l ts) \<longleftrightarrow> (if l = FOL_LAB_NOT then (\<exists>a. ts = [a] \<and> is_atom a) else \<not> fol_is_connective l)"
| "is_lit _ \<longleftrightarrow> True"

inductive is_formula :: "trm \<Rightarrow> bool" where
  form_atom: "is_atom a \<Longrightarrow> is_formula a"
| form_not: "is_formula p \<Longrightarrow> is_formula (CTR FOL_LAB_NOT [p])"
| form_two: "l \<in> {FOL_LAB_AND, FOL_LAB_OR, FOL_LAB_IMP, FOL_LAB_IFF} \<Longrightarrow> is_formula p \<Longrightarrow> is_formula q
    \<Longrightarrow> is_formula (CTR l [p, q])"
| form_quant: "l \<in> {FOL_LAB_ALL, FOL_LAB_EX} \<Longrightarrow> is_formula p \<Longrightarrow> is_formula (CTR l [FVR x, p])"

inductive is_nnf :: "trm \<Rightarrow> bool" where
  nnf_lit: "is_lit a \<Longrightarrow> is_nnf a"
| nnf_two: "l \<in> {FOL_LAB_AND, FOL_LAB_OR} \<Longrightarrow> is_nnf p \<Longrightarrow> is_nnf q \<Longrightarrow> is_nnf (CTR l [p, q])"
| nnf_quant: "l \<in> {FOL_LAB_ALL, FOL_LAB_EX} \<Longrightarrow> is_nnf p \<Longrightarrow> is_nnf (CTR l [FVR x, p])"

inductive is_qf :: "trm \<Rightarrow> bool" where
  qf_lit: "is_lit a \<Longrightarrow> is_qf a"
| qf_two: "l \<in> {FOL_LAB_AND, FOL_LAB_OR} \<Longrightarrow> is_qf p \<Longrightarrow> is_qf q \<Longrightarrow> is_qf (CTR l [p, q])"

inductive is_disj :: "trm \<Rightarrow> bool" where
  disj_lit: "is_lit a \<Longrightarrow> is_disj a"
| disj_or: "is_disj p \<Longrightarrow> is_disj q \<Longrightarrow> is_disj (CTR FOL_LAB_OR [p, q])"

inductive is_cnf :: "trm \<Rightarrow> bool" where
  cnf_disj: "is_disj a \<Longrightarrow> is_cnf a"
| cnf_and: "is_cnf p \<Longrightarrow> is_cnf q \<Longrightarrow> is_cnf (CTR FOL_LAB_AND [p, q])"

lemmas shape_intros = form_atom form_not form_two form_quant nnf_lit nnf_two nnf_quant qf_lit qf_two
  disj_lit disj_or cnf_disj cnf_and

lemma atom_is_lit: "is_atom a \<Longrightarrow> is_lit a"
  by (cases a) (auto simp: is_connective_iff)

lemma not_atom_is_lit: "is_atom a \<Longrightarrow> is_lit (CTR FOL_LAB_NOT [a])"
  by simp

lemma nnf_atom_shape: "is_atom a \<Longrightarrow> is_nnf (fol_nnf_atom a n)"
  by (auto simp: fol_nnf_atom_def fol_mk_defs intro: nnf_lit atom_is_lit not_atom_is_lit)

lemma nnf_mk [intro]:
  "is_nnf p \<Longrightarrow> is_nnf q \<Longrightarrow> is_nnf (fol_mk_and p q)"
  "is_nnf p \<Longrightarrow> is_nnf q \<Longrightarrow> is_nnf (fol_mk_or p q)"
  "is_nnf p \<Longrightarrow> is_nnf (fol_mk_all (FVR x) p)"
  "is_nnf p \<Longrightarrow> is_nnf (fol_mk_ex (FVR x) p)"
  by (auto simp: fol_mk_defs intro: shape_intros)

lemma nnf_rec_shape: "is_formula f \<Longrightarrow> is_nnf (fol_nnf_rec f n)"
proof (induction f arbitrary: n rule: is_formula.induct)
  case (form_atom a)
  then show ?case
    by (cases a) (auto simp: fol_nnf_rec.simps(1) is_connective_iff intro: nnf_atom_shape)
qed (auto simp: fol_nnf_rec.simps(1) Let_def)

lemma nnf_rec_lit: "is_lit a \<Longrightarrow> fol_nnf_rec a False = a"
proof (cases a)
  case (CTR l ts)
  assume "is_lit a"
  then consider t where "l = FOL_LAB_NOT" "ts = [t]" "is_atom t" | "\<not> fol_is_connective l"
    using CTR by (auto split: if_splits)
  then show ?thesis
  proof cases
    case (1 t)
    then have "fol_nnf_rec t True = fol_mk_not t"
      by (cases t) (auto simp: fol_nnf_rec.simps(1) is_connective_iff fol_nnf_atom_def)
    then show ?thesis using 1 CTR by (simp add: fol_nnf_rec.simps(1) fol_mk_defs)
  next
    case 2
    then show ?thesis using CTR by (simp add: fol_nnf_rec.simps(1) is_connective_iff fol_nnf_atom_def)
  qed
qed (auto simp: fol_nnf_atom_def)

lemma nnf_rec_idem: "is_nnf f \<Longrightarrow> fol_nnf_rec f False = f"
  by (induction f rule: is_nnf.induct) (auto simp: nnf_rec_lit fol_nnf_rec.simps(1) fol_mk_defs)

text \<open>C30: fol_nnf turns a formula into an equivalent negation normal form: the same truth value
  in every structure under every assignment, negations on atoms only, no implication left, and a
  formula already in that form is returned as it is.\<close>
theorem fol_nnf_correct:
  assumes "is_formula f"
  shows "fol_holds I v (fol_nnf f) = fol_holds I v f \<and> is_nnf (fol_nnf f)
    \<and> fol_nnf (fol_nnf f) = fol_nnf f"
  using assms by (simp add: fol_nnf_def nnf_rec_holds nnf_rec_shape nnf_rec_idem)

definition iff_example :: trm where
  "iff_example = fol_mk_not (fol_mk_all (FVR 1) (fol_mk_iff (CTR 5 [FVR 1]) (CTR 6 [FVR 1])))"

theorem fol_nnf_correct_witness:
  "is_nnf (fol_nnf iff_example) \<and> fol_nnf iff_example =
     fol_mk_ex (FVR 1) (fol_mk_or (fol_mk_and (CTR 5 [FVR 1]) (fol_mk_not (CTR 6 [FVR 1])))
                                  (fol_mk_and (fol_mk_not (CTR 5 [FVR 1])) (CTR 6 [FVR 1])))"
proof -
  have "is_formula iff_example"
    unfolding iff_example_def fol_mk_defs
    by (intro shape_intros) (simp_all add: is_connective_iff fol_lab_defs)
  then have "is_nnf (fol_nnf iff_example)" using fol_nnf_correct by blast
  then show ?thesis by simp code_simp
qed

end
