(* ===== verification/FOL_Skolem.thy ===== *)
theory FOL_Skolem
  imports FOL_Formula
begin

text \<open>
  Skolemisation (src/fol/cnf.c, fol_reset_skolem to fol_is_skolem): every existential variable
  is replaced by a term with a fresh label over the universal variables in scope, and the
  quantifiers are dropped. The counter of the fresh labels is a global of 32 bits, threaded
  here; a label keeps the 18 low bits of base plus counter. C leaves the order in which the two
  operands of a connective are processed open; the model takes the left one first. The recursion
  ends on every formula with fewer than 2^17 existentials, which is proved; beyond that a fresh
  label can be a connective's, so the function itself is partial.
\<close>

definition FOL_LAB_SKOLEM_BASE :: u32 where "FOL_LAB_SKOLEM_BASE = 0x20000"
definition FOL_SKOLEM_MAX_UNIV :: nat where "FOL_SKOLEM_MAX_UNIV = 256"

definition fol_reset_skolem :: u32 where "fol_reset_skolem = 0"

fun fol_var_subst :: "trm \<Rightarrow> ext \<Rightarrow> trm \<Rightarrow> trm" where
  "fol_var_subst (FVR x) var_id repl = (if x = var_id then repl else FVR x)"
| "fol_var_subst (CTR l ts) var_id repl =
     (if length ts = 0 then CTR l ts
      else if length ts > REWRITE_MAX_ARITY then CTR l ts
      else CTR l (map (\<lambda>t. fol_var_subst t var_id repl) ts))"
| "fol_var_subst (ATM g e w) var_id repl = ATM g e w"

definition skolem_label :: "u32 \<Rightarrow> ext" where
  "skolem_label next = ucast (FOL_LAB_SKOLEM_BASE + next)"

partial_function (option) fol_skolem_rec :: "trm \<Rightarrow> trm list \<Rightarrow> u32 \<Rightarrow> (trm \<times> u32) option" where
  "fol_skolem_rec f scope next =
     (case f of
        FVR x \<Rightarrow> Some (f, next)
      | ATM g e w \<Rightarrow> Some (f, next)
      | CTR lab ts \<Rightarrow>
          if lab = FOL_LAB_NOT
          then Option.bind (fol_skolem_rec (term_ctr_at f 0) scope next)
                 (\<lambda>(p, next1). Some (fol_mk_not p, next1))
          else if lab \<in> {FOL_LAB_AND, FOL_LAB_OR, FOL_LAB_IMP, FOL_LAB_IFF}
          then Option.bind (fol_skolem_rec (term_ctr_at f 0) scope next)
                 (\<lambda>(p, next1). Option.bind (fol_skolem_rec (term_ctr_at f 1) scope next1)
                    (\<lambda>(q, next2).
                       Some ((if lab = FOL_LAB_AND then fol_mk_and p q
                              else if lab = FOL_LAB_OR then fol_mk_or p q
                              else if lab = FOL_LAB_IMP then fol_mk_imp p q
                              else fol_mk_iff p q), next2)))
          else if lab = FOL_LAB_ALL
          then if length scope \<ge> FOL_SKOLEM_MAX_UNIV then Some (f, next)
               else fol_skolem_rec (term_ctr_at f 1) (scope @ [term_ctr_at f 0]) next
          else if lab = FOL_LAB_EX
          then if \<not> is_fvr (term_ctr_at f 0) then Some (f, next)
               else fol_skolem_rec
                      (fol_var_subst (term_ctr_at f 1) (trm_ext (term_ctr_at f 0))
                         (CTR (skolem_label next) scope))
                      scope (next + 1)
          else Some (f, next))"

declare fol_skolem_rec.simps [code]

definition fol_skolemize :: "trm \<Rightarrow> u32 \<Rightarrow> (trm \<times> u32) option" where
  "fol_skolemize f next = fol_skolem_rec f [] next"

definition fol_is_skolem :: "u32 \<Rightarrow> bool" where
  "fol_is_skolem label \<longleftrightarrow> FOL_LAB_SKOLEM_BASE \<le> label"

section \<open>Measures of a normal form\<close>

text \<open>
  Formula nodes, existentials, nesting of universals, free variables, and the absence of
  shadowing: no quantifier binds a variable of B or one bound above it.
\<close>

fun fnodes :: "trm \<Rightarrow> nat" where
  "fnodes (CTR l [p, q]) =
     (if l \<in> {FOL_LAB_AND, FOL_LAB_OR} then Suc (fnodes p + fnodes q)
      else if l \<in> {FOL_LAB_ALL, FOL_LAB_EX} then Suc (fnodes q) else 0)"
| "fnodes _ = 0"

fun ex_count :: "trm \<Rightarrow> nat" where
  "ex_count (CTR l [p, q]) =
     (if l \<in> {FOL_LAB_AND, FOL_LAB_OR} then ex_count p + ex_count q
      else if l = FOL_LAB_ALL then ex_count q
      else if l = FOL_LAB_EX then Suc (ex_count q) else 0)"
| "ex_count _ = 0"

fun all_depth :: "trm \<Rightarrow> nat" where
  "all_depth (CTR l [p, q]) =
     (if l \<in> {FOL_LAB_AND, FOL_LAB_OR} then max (all_depth p) (all_depth q)
      else if l = FOL_LAB_ALL then Suc (all_depth q)
      else if l = FOL_LAB_EX then all_depth q else 0)"
| "all_depth _ = 0"

fun free_vars :: "trm \<Rightarrow> ext set" where
  "free_vars (CTR l [p, q]) =
     (if l \<in> {FOL_LAB_ALL, FOL_LAB_EX} then free_vars q - {trm_ext p}
      else if l \<in> {FOL_LAB_AND, FOL_LAB_OR} then free_vars p \<union> free_vars q
      else tvars p \<union> tvars q)"
| "free_vars f = tvars f"

fun no_shadow :: "ext set \<Rightarrow> trm \<Rightarrow> bool" where
  "no_shadow B (CTR l [p, q]) =
     (if l \<in> {FOL_LAB_AND, FOL_LAB_OR} then no_shadow B p \<and> no_shadow B q
      else if l \<in> {FOL_LAB_ALL, FOL_LAB_EX}
      then trm_ext p \<notin> B \<and> no_shadow (insert (trm_ext p) B) q
      else True)"
| "no_shadow B _ = True"

text \<open>The variables bound by universals, and whether the two sides of every disjunction bind different ones.\<close>

fun uvars :: "trm \<Rightarrow> ext set" where
  "uvars (CTR l [p, q]) =
     (if l \<in> {FOL_LAB_AND, FOL_LAB_OR} then uvars p \<union> uvars q
      else if l = FOL_LAB_ALL then insert (trm_ext p) (uvars q)
      else if l = FOL_LAB_EX then uvars q else {})"
| "uvars _ = {}"

fun or_apart :: "trm \<Rightarrow> bool" where
  "or_apart (CTR l [p, q]) =
     (if l = FOL_LAB_AND then or_apart p \<and> or_apart q
      else if l = FOL_LAB_OR then or_apart p \<and> or_apart q \<and> uvars p \<inter> uvars q = {}
      else if l \<in> {FOL_LAB_ALL, FOL_LAB_EX} then or_apart q else True)"
| "or_apart _ = True"

fun labs :: "trm \<Rightarrow> ext set" where
  "labs (CTR l ts) = insert l (\<Union>t \<in> set ts. labs t)"
| "labs _ = {}"


lemma lit_cases:
  assumes "is_lit a"
  obtains "is_atom a" | b where "a = CTR FOL_LAB_NOT [b]" "is_atom b"
  using assms by (cases a) (auto split: if_splits)

lemma list_cases2: obtains "xs = []" | x where "xs = [x]" | x y where "xs = [x, y]" | x y z zs where "xs = x # y # z # zs"
  by (metis list.exhaust)

lemma atom_measures_conj:
  "is_atom a \<Longrightarrow> fnodes a = 0 \<and> ex_count a = 0 \<and> all_depth a = 0 \<and> free_vars a = tvars a \<and> no_shadow B a
    \<and> uvars a = {} \<and> or_apart a"
proof (cases a)
  case (CTR l ts)
  assume "is_atom a"
  then show ?thesis
    using CTR by (cases ts rule: list_cases2) (auto simp: is_connective_iff)
qed auto

lemma lit_measures [simp]:
  assumes "is_lit a"
  shows "fnodes a = 0" "ex_count a = 0" "all_depth a = 0" "free_vars a = tvars a" "no_shadow B a"
    "uvars a = {}" "or_apart a"
  using assms by (auto elim!: lit_cases simp: atom_measures_conj)

definition one_sub :: "ext \<Rightarrow> trm \<Rightarrow> tsub" where
  "one_sub y r x = (if x = y then r else FVR x)"

lemma one_sub_simps [simp]: "one_sub y r y = r" "x \<noteq> y \<Longrightarrow> one_sub y r x = FVR x"
  by (simp_all add: one_sub_def)

lemma var_subst_tsubst: "ar_ok t \<Longrightarrow> fol_var_subst t y r = tsubst (one_sub y r) t"
  by (induction t) (auto simp: list_all_iff map_idI one_sub_def)

lemma atom_tsubst: "is_atom a \<Longrightarrow> is_atom r \<Longrightarrow> is_atom (tsubst (one_sub y r) a)"
  by (cases a) (auto simp: one_sub_def)

lemma lit_tsubst: "is_lit a \<Longrightarrow> is_atom r \<Longrightarrow> is_lit (tsubst (one_sub y r) a)"
  by (erule lit_cases) (auto dest: atom_tsubst [of _ r y] atom_is_lit)

lemma no_shadow_mono: "no_shadow B f \<Longrightarrow> C \<subseteq> B \<Longrightarrow> no_shadow C f"
proof (induction B f arbitrary: C rule: no_shadow.induct)
  case (1 B l p q)
  show ?case
  proof (cases "l \<in> {FOL_LAB_ALL, FOL_LAB_EX}")
    case True
    moreover have "insert (trm_ext p) C \<subseteq> insert (trm_ext p) B" using 1(5) by blast
    ultimately show ?thesis using 1(3) [of "insert (trm_ext p) C"] 1(4,5) by auto
  next
    case False
    then show ?thesis using 1(1,2) [of C] 1(4,5) by auto
  qed
qed auto

lemma teval_cong: "(\<And>x. x \<in> tvars t \<Longrightarrow> v x = w x) \<Longrightarrow> teval I v t = teval I w t"
  by (induction t) (auto intro!: arg_cong [where f = "ifun I _"] map_cong)

text \<open>Replacing a free variable by an atom over variables that stay free keeps everything.\<close>

lemma subst_keeps:
  assumes "is_nnf f" and "no_shadow (insert y B) f" and "is_atom r"
  defines "f' \<equiv> tsubst (one_sub y r) f"
  shows "is_nnf f' \<and> fnodes f' = fnodes f \<and> ex_count f' = ex_count f \<and> all_depth f' = all_depth f
    \<and> no_shadow B f' \<and> free_vars f' \<subseteq> (free_vars f - {y}) \<union> tvars r
    \<and> uvars f' = uvars f \<and> or_apart f' = or_apart f"
  using assms(1,2) unfolding f'_def
proof (induction f arbitrary: B rule: is_nnf.induct)
  case (nnf_lit a)
  then have l: "is_lit (tsubst (one_sub y r) a)" using lit_tsubst assms(3) by blast
  have "tvars (tsubst (one_sub y r) a) \<subseteq> (tvars a - {y}) \<union> tvars r"
    by (auto simp: tvars_tsubst one_sub_def split: if_splits)
  then show ?case using l nnf_lit by (simp add: is_nnf.nnf_lit)
next
  case (nnf_two l p q)
  then have "no_shadow (insert y B) p" "no_shadow (insert y B) q" by auto
  with nnf_two.IH nnf_two.hyps(1) show ?case by (fastforce intro: is_nnf.nnf_two)
next
  case (nnf_quant l p x)
  then have x: "x \<noteq> y" "x \<notin> B" and ns: "no_shadow (insert y (insert x B)) p"
    by (auto simp: insert_commute)
  have "no_shadow B' p" if "B' \<subseteq> insert y (insert x B)" for B' using no_shadow_mono ns that .
  with nnf_quant.IH [OF ns] x nnf_quant.hyps show ?case
    by (auto intro: is_nnf.nnf_quant)
qed

lemma holds_subst:
  assumes "is_nnf f" and "no_shadow (insert y B) f" and "tvars r \<subseteq> B" and "is_atom r"
  shows "fol_holds I v (tsubst (one_sub y r) f) \<longleftrightarrow> fol_holds I (v(y := teval I v r)) f"
  using assms(1-3)
proof (induction f arbitrary: B v rule: is_nnf.induct)
  case (nnf_lit a)
  have e: "teval I v (tsubst (one_sub y r) t) = teval I (v(y := teval I v r)) t" for t
    unfolding teval_tsubst by (rule teval_cong) (simp add: one_sub_def)
  from nnf_lit(1) show ?case
    by (rule lit_cases) (simp_all add: holds_atom atom_tsubst assms(4) e del: fun_upd_apply)
next
  case (nnf_quant l p x)
  then have x: "x \<noteq> y" and ns: "no_shadow (insert y (insert x B)) p" and xr: "x \<notin> tvars r"
    by (auto simp: insert_commute)
  have "teval I (v(x := d)) r = teval I v r" for d
    by (rule teval_cong) (use xr in auto)
  then have "fol_holds I (v(x := d)) (tsubst (one_sub y r) p) \<longleftrightarrow> fol_holds I ((v(y := teval I v r))(x := d)) p" for d
    unfolding nnf_quant.IH [OF ns subset_insertI2 [OF nnf_quant.prems(2)]] using x by (simp only: fun_upd_twist)
  with nnf_quant.hyps(1) x show ?case by (auto simp del: fun_upd_apply)
qed auto


lemma labs_tsubst: "labs (tsubst (one_sub y r) t) \<subseteq> labs t \<union> labs r"
  by (induction t) (auto simp: one_sub_def)

lemma no_shadow_uvars: "no_shadow B f \<Longrightarrow> uvars f \<inter> B = {}"
  by (induction B f rule: no_shadow.induct) (auto split: if_splits)

lemma holds_vars:
  assumes "is_nnf f" and "\<And>x. x \<in> free_vars f \<Longrightarrow> v x = w x"
  shows "fol_holds I v f \<longleftrightarrow> fol_holds I w f"
  using assms
proof (induction f arbitrary: v w rule: is_nnf.induct)
  case (nnf_lit a)
  then have v: "\<And>x. x \<in> tvars a \<Longrightarrow> v x = w x" by simp
  from nnf_lit(1) show ?case
  proof (rule lit_cases)
    assume "is_atom a"
    then show ?thesis using teval_cong [OF v] by (simp add: holds_atom)
  next
    fix b assume b: "a = CTR FOL_LAB_NOT [b]" "is_atom b"
    then have "teval I v b = teval I w b" using v by (intro teval_cong) auto
    with b show ?thesis by (simp add: holds_atom)
  qed
next
  case (nnf_two l p q)
  have "fol_holds I v p = fol_holds I w p" "fol_holds I v q = fol_holds I w q"
    by (rule nnf_two.IH; use nnf_two in auto)+
  then show ?case using nnf_two.hyps(1) by auto
next
  case (nnf_quant l p x)
  have "fol_holds I (v(x := d)) p = fol_holds I (w(x := d)) p" for d
    by (rule nnf_quant.IH) (use nnf_quant in auto)
  then show ?case using nnf_quant.hyps(1) by auto
qed

text \<open>Two structures that differ at most in what they give the labels of L.\<close>

definition same_off :: "ext set \<Rightarrow> 'd interp \<Rightarrow> 'd interp \<Rightarrow> bool" where
  "same_off L I J \<longleftrightarrow> (\<forall>l. l \<notin> L \<longrightarrow> ifun J l = ifun I l) \<and> iatm J = iatm I \<and> itru J = itru I"

lemma same_off_refl [simp]: "same_off L I I"
  by (simp add: same_off_def)

lemma same_off_trans: "same_off L I J \<Longrightarrow> same_off M J K \<Longrightarrow> L \<union> M \<subseteq> N \<Longrightarrow> same_off N I K"
  unfolding same_off_def by (metis UnCI subsetD)

lemma teval_same_off: "same_off L I J \<Longrightarrow> labs t \<inter> L = {} \<Longrightarrow> teval J v t = teval I v t"
proof (induction t)
  case (CTR l ts)
  then have "map (teval J v) ts = map (teval I v) ts" by (intro map_cong) auto
  moreover have "ifun J l = ifun I l" using CTR.prems by (simp add: same_off_def)
  ultimately show ?case by (simp only: teval.simps)
qed (auto simp: same_off_def)

lemma holds_same_off:
  assumes "is_nnf f" and "same_off L I J" and "labs f \<inter> L = {}"
  shows "fol_holds J v f \<longleftrightarrow> fol_holds I v f"
  using assms(1,3)
proof (induction f arbitrary: v rule: is_nnf.induct)
  case (nnf_lit a)
  have t: "itru J = itru I" using assms(2) by (simp add: same_off_def)
  from nnf_lit(1) show ?case
  proof (rule lit_cases)
    assume "is_atom a"
    then show ?thesis using teval_same_off [OF assms(2) nnf_lit(2)] t by (simp add: holds_atom)
  next
    fix b assume b: "a = CTR FOL_LAB_NOT [b]" "is_atom b"
    then have "teval J v b = teval I v b" using nnf_lit(2) by (intro teval_same_off [OF assms(2)]) auto
    with b t show ?thesis by (simp add: holds_atom)
  qed
next
  case (nnf_two l p q)
  have "fol_holds J v p = fol_holds I v p" "fol_holds J v q = fol_holds I v q"
    by (rule nnf_two.IH; use nnf_two.prems in auto)+
  then show ?case using nnf_two.hyps(1) by auto
next
  case (nnf_quant l p x)
  have "fol_holds J (v(x := d)) p = fol_holds I (v(x := d)) p" for d
    by (rule nnf_quant.IH) (use nnf_quant.prems in auto)
  then show ?case using nnf_quant.hyps(1) by auto
qed


section \<open>What the recursion returns\<close>

text \<open>The labels the counter values from a to b give.\<close>

definition sk_labs :: "nat \<Rightarrow> nat \<Rightarrow> ext set" where
  "sk_labs a b = {l. 0x20000 + a \<le> unat l \<and> unat l < 0x20000 + b}"

lemma unat_skolem_label: "unat c < 2 ^ 17 \<Longrightarrow> unat (skolem_label c) = 0x20000 + unat c"
proof -
  assume c: "unat c < 2 ^ 17"
  have "unat (FOL_LAB_SKOLEM_BASE + c) = 0x20000 + unat c"
    unfolding FOL_LAB_SKOLEM_BASE_def by (subst unat_add_lem [THEN iffD1]) (use c in simp_all)
  then show ?thesis using c by (simp add: skolem_label_def unsigned_ucast_eq unsigned_take_bit_eq take_bit_nat_eq_self)
qed

lemma skolem_label_atom: "unat c < 2 ^ 17 \<Longrightarrow> is_atom (CTR (skolem_label c) ts)"
  using unat_skolem_label [of c]
  by (auto simp: is_connective_iff fol_lab_defs dest!: arg_cong [where f = unat])

lemma sk_labs_disjoint: "\<forall>l \<in> L. unat l < 0x20000 + a \<Longrightarrow> L \<inter> sk_labs a b = {}"
  by (auto simp: sk_labs_def)

lemma sk_labs_mono: "a' \<le> a \<Longrightarrow> b \<le> b' \<Longrightarrow> sk_labs a b \<subseteq> sk_labs a' b'"
  by (auto simp: sk_labs_def)

text \<open>
  The state of a call: a normal form whose free variables are the universals in scope, nothing
  shadowed, within the arity and label bounds.
\<close>

definition sk_pre :: "trm \<Rightarrow> ext list \<Rightarrow> u32 \<Rightarrow> bool" where
  "sk_pre f us c \<longleftrightarrow> is_nnf f \<and> no_shadow (set us) f \<and> free_vars f \<subseteq> set us \<and> ar_ok f
     \<and> length us + all_depth f \<le> REWRITE_MAX_ARITY \<and> (\<forall>l \<in> labs f. unat l < 0x20000 + unat c)
     \<and> unat c + ex_count f \<le> 2 ^ 17"

definition sk_post :: "trm \<Rightarrow> ext list \<Rightarrow> u32 \<Rightarrow> trm \<Rightarrow> u32 \<Rightarrow> bool" where
  "sk_post f us c f' c' \<longleftrightarrow> unat c' = unat c + ex_count f \<and> is_qf f' \<and> ar_ok f'
     \<and> labs f' \<subseteq> labs f \<union> sk_labs (unat c) (unat c') \<and> tvars f' \<subseteq> set us \<union> uvars f"

text \<open>A model of the formula extends to its skolem form, and a model of the skolem form is one of the formula.\<close>

definition sk_extends :: "'d interp \<Rightarrow> trm \<Rightarrow> u32 \<Rightarrow> trm \<Rightarrow> u32 \<Rightarrow> bool" where
  "sk_extends I f c f' c' \<longleftrightarrow>
     (\<exists>J. same_off (sk_labs (unat c) (unat c')) I J \<and> (\<forall>v. fol_holds I v f \<longrightarrow> fol_holds J v f'))"

definition sk_implies :: "'d interp \<Rightarrow> trm \<Rightarrow> trm \<Rightarrow> bool" where
  "sk_implies J f f' \<longleftrightarrow>
     (\<forall>v. (\<forall>w. (\<forall>x. x \<notin> uvars f \<longrightarrow> w x = v x) \<longrightarrow> fol_holds J w f') \<longrightarrow> fol_holds J v f)"

lemma qf_is_nnf: "is_qf f \<Longrightarrow> is_nnf f"
  by (induction rule: is_qf.induct) (auto intro: is_nnf.intros)

lemma qf_free_vars: "is_qf f \<Longrightarrow> free_vars f = tvars f"
  by (induction rule: is_qf.induct) auto

lemma holds_qf_vars:
  "is_qf f \<Longrightarrow> (\<And>x. x \<in> tvars f \<Longrightarrow> v x = w x) \<Longrightarrow> fol_holds I v f \<longleftrightarrow> fol_holds I w f"
  by (rule holds_vars) (auto simp: qf_is_nnf qf_free_vars)

lemma sk_extends_two:
  assumes l: "l \<in> {FOL_LAB_AND, FOL_LAB_OR}"
    and pre: "sk_pre (CTR l [p, q]) us c" and p: "sk_post p us c p' c1" and q: "sk_post q us c1 q' c2"
    and ep: "sk_extends I p c p' c1" and eq: "\<And>J. sk_extends (J :: 'd interp) q c1 q' c2"
  shows "sk_extends (I :: 'd interp) (CTR l [p, q]) c (CTR l [p', q']) c2"
proof -
  have nnf: "is_nnf p" "is_nnf q" using pre l by (auto simp: sk_pre_def elim: is_nnf.cases)
  obtain J where J: "same_off (sk_labs (unat c) (unat c1)) I J" "\<And>v. fol_holds I v p \<Longrightarrow> fol_holds J v p'"
    using ep by (auto simp: sk_extends_def)
  obtain K where K: "same_off (sk_labs (unat c1) (unat c2)) J K" "\<And>v. fol_holds J v q \<Longrightarrow> fol_holds K v q'"
    using eq [of J] by (auto simp: sk_extends_def)
  have le: "unat c \<le> unat c1" "unat c1 \<le> unat c2" using p q by (auto simp: sk_post_def)
  have "labs q \<inter> sk_labs (unat c) (unat c1) = {}"
    by (rule sk_labs_disjoint) (use pre in \<open>auto simp: sk_pre_def\<close>)
  then have qJ: "fol_holds J v q = fol_holds I v q" for v by (rule holds_same_off [OF nnf(2) J(1)])
  have "labs p' \<inter> sk_labs (unat c1) (unat c2) = {}"
    by (rule sk_labs_disjoint) (use pre p in \<open>force simp: sk_pre_def sk_post_def sk_labs_def\<close>)
  then have pK: "fol_holds K v p' = fol_holds J v p'" for v
    using p by (intro holds_same_off [OF _ K(1)]) (auto simp: sk_post_def qf_is_nnf)
  have "same_off (sk_labs (unat c) (unat c2)) I K"
    using same_off_trans [OF J(1) K(1)] le sk_labs_mono by (metis Un_least order_refl)
  moreover have "fol_holds I v (CTR l [p, q]) \<Longrightarrow> fol_holds K v (CTR l [p', q'])" for v
    using l J(2) K(2) by (auto simp: qJ pK)
  ultimately show ?thesis by (auto simp: sk_extends_def)
qed

lemma sk_implies_two:
  assumes l: "l \<in> {FOL_LAB_AND, FOL_LAB_OR}" and ap: "or_apart (CTR l [p, q])"
    and pre: "sk_pre (CTR l [p, q]) us c" and p: "sk_post p us c p' c1" and q: "sk_post q us c1 q' c2"
    and ip: "sk_implies J p p'" and iq: "sk_implies J q q'"
  shows "sk_implies J (CTR l [p, q]) (CTR l [p', q'])"
  unfolding sk_implies_def
proof (intro allI impI)
  fix v assume all: "\<forall>w. (\<forall>x. x \<notin> uvars (CTR l [p, q]) \<longrightarrow> w x = v x) \<longrightarrow> fol_holds J w (CTR l [p', q'])"
  have uv: "uvars (CTR l [p, q]) = uvars p \<union> uvars q" using l by auto
  show "fol_holds J v (CTR l [p, q])"
  proof (cases "l = FOL_LAB_AND")
    case True
    then have "fol_holds J w p' \<and> fol_holds J w q'" if "\<forall>x. x \<notin> uvars p \<union> uvars q \<longrightarrow> w x = v x" for w
      using all that unfolding uv by auto
    then have "fol_holds J v p" "fol_holds J v q" using ip iq unfolding sk_implies_def by auto
    then show ?thesis using True by simp
  next
    case False
    then have lo: "l = FOL_LAB_OR" using l by simp
    show ?thesis
    proof (rule ccontr)
      assume "\<not> ?thesis"
      then have "\<not> fol_holds J v p" "\<not> fol_holds J v q" using lo by auto
      then obtain w1 w2 where w: "\<And>x. x \<notin> uvars p \<Longrightarrow> w1 x = v x" "\<not> fol_holds J w1 p'"
          "\<And>x. x \<notin> uvars q \<Longrightarrow> w2 x = v x" "\<not> fol_holds J w2 q'"
        using ip iq unfolding sk_implies_def by metis
      define w where "w x = (if x \<in> uvars p then w1 x else w2 x)" for x
      have us: "set us \<inter> uvars p = {}" "set us \<inter> uvars q = {}" "uvars p \<inter> uvars q = {}"
        using pre lo ap no_shadow_uvars by (auto simp: sk_pre_def)
      have "w x = w1 x" if "x \<in> set us \<union> uvars p" for x
        using that us w(1) [of x] w(3) [of x] by (auto simp: w_def)
      then have "fol_holds J w p' = fol_holds J w1 p'"
        using p by (intro holds_qf_vars) (auto simp: sk_post_def)
      moreover have "w x = w2 x" if "x \<in> set us \<union> uvars q" for x
        using that us by (auto simp: w_def)
      then have "fol_holds J w q' = fol_holds J w2 q'"
        using q by (intro holds_qf_vars) (auto simp: sk_post_def)
      ultimately have "\<not> fol_holds J w (CTR l [p', q'])" using w lo by auto
      moreover have "\<forall>x. x \<notin> uvars p \<union> uvars q \<longrightarrow> w x = v x" using w(3) by (auto simp: w_def)
      ultimately show False using all uv by blast
    qed
  qed
qed


lemma sk_extends_ex:
  fixes I :: "'d interp"
  assumes pre: "sk_pre (CTR FOL_LAB_EX [FVR y, q]) us c"
    and q': "q' = tsubst (one_sub y (CTR (skolem_label c) (map FVR us))) q"
    and post: "unat c' = Suc (unat c) + ex_count q" and suc: "unat (c + 1) = Suc (unat c)"
    and ext: "\<And>J. sk_extends (J :: 'd interp) q' (c + 1) f' c'"
  shows "sk_extends I (CTR FOL_LAB_EX [FVR y, q]) c f' c'"
proof -
  let ?lab = "skolem_label c"
  let ?sk = "CTR ?lab (map FVR us)"
  have nnf: "is_nnf q" using pre by (auto simp: sk_pre_def elim: is_nnf.cases)
  have c: "unat c < 2 ^ 17" and ns: "no_shadow (insert y (set us)) q" and y: "y \<notin> set us"
    and fv: "free_vars q \<subseteq> insert y (set us)"
    using pre by (auto simp: sk_pre_def)
  note lab = unat_skolem_label [OF c] and at = skolem_label_atom [OF c]
  have fresh: "?lab \<notin> labs q" using pre lab by (auto simp: sk_pre_def)
  define g where "g ds = (SOME d. \<exists>v. map v us = ds \<and> fol_holds I (v(y := d)) q)" for ds
  define J where "J = I\<lparr>ifun := (ifun I)(?lab := g)\<rparr>"
  have IJ: "same_off {?lab} I J" by (simp add: same_off_def J_def)
  have step: "fol_holds J v q'" if ex: "fol_holds I v (CTR FOL_LAB_EX [FVR y, q])" for v
  proof -
    have "\<exists>d w. map w us = map v us \<and> fol_holds I (w(y := d)) q" using ex by auto
    then have "\<exists>w. map w us = map v us \<and> fol_holds I (w(y := g (map v us))) q"
      unfolding g_def by (rule someI_ex)
    then obtain w where w: "map w us = map v us" "fol_holds I (w(y := g (map v us))) q" by blast
    have val: "g (map v us) = teval J v ?sk" by (simp add: J_def comp_def)
    have "fol_holds I (w(y := g (map v us))) q = fol_holds I (v(y := g (map v us))) q"
      by (rule holds_vars [OF nnf]) (use w(1) fv in auto)
    also have "\<dots> = fol_holds J (v(y := g (map v us))) q"
      by (rule holds_same_off [OF nnf IJ, symmetric]) (use fresh in auto)
    also have "\<dots> = fol_holds J (v(y := teval J v ?sk)) q" unfolding val ..
    also have "\<dots> = fol_holds J v q'"
      unfolding q' by (rule holds_subst [OF nnf ns _ at, symmetric]) auto
    finally show ?thesis using w(2) by blast
  qed
  obtain K where K: "same_off (sk_labs (unat (c + 1)) (unat c')) J K" "\<And>v. fol_holds J v q' \<Longrightarrow> fol_holds K v f'"
    using ext [of J] by (auto simp: sk_extends_def)
  have "{?lab} \<union> sk_labs (unat (c + 1)) (unat c') \<subseteq> sk_labs (unat c) (unat c')"
    using lab post suc by (auto simp: sk_labs_def)
  then have "same_off (sk_labs (unat c) (unat c')) I K" by (rule same_off_trans [OF IJ K(1)])
  then show ?thesis using K(2) step unfolding sk_extends_def by blast
qed

lemma sk_implies_ex:
  assumes pre: "sk_pre (CTR FOL_LAB_EX [FVR y, q]) us c"
    and q': "q' = tsubst (one_sub y (CTR (skolem_label c) (map FVR us))) q"
    and uv: "uvars q' = uvars q" and imp: "sk_implies J q' f'"
  shows "sk_implies J (CTR FOL_LAB_EX [FVR y, q]) f'"
proof -
  have nnf: "is_nnf q" using pre by (auto simp: sk_pre_def elim: is_nnf.cases)
  have c: "unat c < 2 ^ 17" and ns: "no_shadow (insert y (set us)) q" using pre by (auto simp: sk_pre_def)
  have "fol_holds J v q' \<Longrightarrow> fol_holds J v (CTR FOL_LAB_EX [FVR y, q])" for v
    unfolding q' using holds_subst [OF nnf ns _ skolem_label_atom [OF c], of "map FVR us" J v] by auto
  then show ?thesis using imp uv unfolding sk_implies_def by auto
qed

lemma sk_extends_all:
  "sk_extends I p c f' c' \<Longrightarrow> sk_extends I (CTR FOL_LAB_ALL [FVR x, p]) c f' c'"
  unfolding sk_extends_def by (metis holds_nodes(6) fun_upd_triv trm_ext.simps(1))

lemma sk_implies_all:
  assumes "sk_implies J p f'"
  shows "sk_implies J (CTR FOL_LAB_ALL [FVR x, p]) f'"
  unfolding sk_implies_def
proof (intro allI impI)
  fix v assume all: "\<forall>w. (\<forall>y. y \<notin> uvars (CTR FOL_LAB_ALL [FVR x, p]) \<longrightarrow> w y = v y) \<longrightarrow> fol_holds J w f'"
  have "fol_holds J (v(x := d)) p" for d
  proof -
    have "fol_holds J w f'" if "\<forall>y. y \<notin> uvars p \<longrightarrow> w y = (v(x := d)) y" for w
      using all that by (auto split: if_splits)
    then show ?thesis using assms unfolding sk_implies_def by blast
  qed
  then show "fol_holds J v (CTR FOL_LAB_ALL [FVR x, p])" by simp
qed

lemma skolem_rec_lit:
  assumes "is_lit f" and "sk_pre f us c"
  shows "\<exists>f' c'. fol_skolem_rec f (map FVR us) c = Some (f', c') \<and> sk_post f us c f' c'
    \<and> (\<forall>I :: 'd interp. sk_extends I f c f' c')
    \<and> (or_apart f \<longrightarrow> (\<forall>J :: 'd interp. sk_implies J f f'))"
proof -
  have "is_atom a \<Longrightarrow> fol_skolem_rec a (map FVR us) c = Some (a, c)" for a
    by (subst fol_skolem_rec.simps) (cases a; auto simp: is_connective_iff)
  note atom = this
  from assms(1) have "fol_skolem_rec f (map FVR us) c = Some (f, c)"
  proof (rule lit_cases)
    fix b assume "f = CTR FOL_LAB_NOT [b]" "is_atom b"
    then show ?thesis using atom [of b] by (subst fol_skolem_rec.simps) (simp add: fol_mk_defs)
  qed (rule atom)
  moreover have "sk_post f us c f c"
    using assms by (auto simp: sk_post_def sk_pre_def intro: is_qf.qf_lit)
  moreover have "sk_extends I f c f c" for I :: "'d interp" by (auto simp: sk_extends_def intro: exI [of _ I])
  moreover have "sk_implies J f f" for J :: "'d interp" by (auto simp: sk_implies_def)
  ultimately show ?thesis by blast
qed

lemma sk_pre_ex:
  assumes pre: "sk_pre (CTR FOL_LAB_EX [FVR x, p]) us c" and suc: "unat (c + 1) = Suc (unat c)"
    and keeps: "is_nnf q \<and> fnodes q = fnodes p \<and> ex_count q = ex_count p \<and> all_depth q = all_depth p
      \<and> no_shadow (set us) q \<and> free_vars q \<subseteq> (free_vars p - {x}) \<union> tvars (CTR (skolem_label c) (map FVR us))
      \<and> uvars q = uvars p \<and> or_apart q = or_apart p"
    and q: "q = tsubst (one_sub x (CTR (skolem_label c) (map FVR us))) p"
  shows "sk_pre q us (c + 1)"
proof -
  have c: "unat c < 2 ^ 17" using pre by (auto simp: sk_pre_def)
  have "ar_ok q" unfolding q using pre
    by (intro ar_ok_tsubst) (auto simp: sk_pre_def one_sub_def list_all_iff)
  moreover have "unat l < 0x20000 + unat (c + 1)" if "l \<in> labs q" for l
  proof -
    have "l \<in> labs p \<or> l = skolem_label c" using that labs_tsubst [of x _ p] by (fastforce simp: q)
    then show ?thesis using pre unat_skolem_label [OF c] suc by (fastforce simp: sk_pre_def)
  qed
  moreover have "free_vars q \<subseteq> set us" using keeps pre by (auto simp: sk_pre_def)
  ultimately show ?thesis using pre keeps suc by (auto simp: sk_pre_def)
qed

lemma sk_post_ex:
  assumes pre: "sk_pre (CTR FOL_LAB_EX [FVR x, p]) us c" and suc: "unat (c + 1) = Suc (unat c)"
    and keeps: "is_nnf q \<and> fnodes q = fnodes p \<and> ex_count q = ex_count p \<and> all_depth q = all_depth p
      \<and> no_shadow (set us) q \<and> free_vars q \<subseteq> (free_vars p - {x}) \<union> tvars (CTR (skolem_label c) (map FVR us))
      \<and> uvars q = uvars p \<and> or_apart q = or_apart p"
    and q: "q = tsubst (one_sub x (CTR (skolem_label c) (map FVR us))) p"
    and post: "sk_post q us (c + 1) f' c'"
  shows "sk_post (CTR FOL_LAB_EX [FVR x, p]) us c f' c'"
proof -
  have c: "unat c < 2 ^ 17" using pre by (auto simp: sk_pre_def)
  have "labs q \<subseteq> labs p \<union> {skolem_label c}" using labs_tsubst [of x _ p] by (fastforce simp: q)
  moreover have "skolem_label c \<in> sk_labs (unat c) (unat c')"
    using post suc unat_skolem_label [OF c] by (simp add: sk_post_def sk_labs_def)
  moreover have "sk_labs (unat (c + 1)) (unat c') \<subseteq> sk_labs (unat c) (unat c')"
    by (rule sk_labs_mono) (simp_all add: suc)
  ultimately have "labs f' \<subseteq> labs p \<union> sk_labs (unat c) (unat c')" using post unfolding sk_post_def by blast
  then show ?thesis using post keeps suc by (auto simp: sk_post_def)
qed

lemma sk_post_two:
  assumes l: "l \<in> {FOL_LAB_AND, FOL_LAB_OR}" and p: "sk_post p us c p' c1" and q: "sk_post q us c1 q' c2"
  shows "sk_post (CTR l [p, q]) us c (CTR l [p', q']) c2"
proof -
  have ex: "ex_count (CTR l [p, q]) = ex_count p + ex_count q" "uvars (CTR l [p, q]) = uvars p \<union> uvars q"
    using l by auto
  have c: "unat c1 = unat c + ex_count p" "unat c2 = unat c1 + ex_count q" using p q by (auto simp: sk_post_def)
  then have "sk_labs (unat c) (unat c1) \<subseteq> sk_labs (unat c) (unat c2)"
      "sk_labs (unat c1) (unat c2) \<subseteq> sk_labs (unat c) (unat c2)"
    by (auto simp: sk_labs_def)
  moreover have "labs p' \<subseteq> labs p \<union> sk_labs (unat c) (unat c1)" "labs q' \<subseteq> labs q \<union> sk_labs (unat c1) (unat c2)"
    using p q unfolding sk_post_def by blast+
  ultimately have "labs p' \<union> labs q' \<subseteq> labs p \<union> labs q \<union> sk_labs (unat c) (unat c2)" by blast
  then have "labs (CTR l [p', q']) \<subseteq> labs (CTR l [p, q]) \<union> sk_labs (unat c) (unat c2)" by auto
  moreover have "is_qf (CTR l [p', q'])" using p q l by (auto simp: sk_post_def intro: is_qf.qf_two)
  moreover have "tvars (CTR l [p', q']) \<subseteq> set us \<union> (uvars p \<union> uvars q)" using p q by (auto simp: sk_post_def)
  moreover have "ar_ok (CTR l [p', q'])" using p q by (simp add: sk_post_def REWRITE_MAX_ARITY_def)
  ultimately show ?thesis using c unfolding sk_post_def ex by simp
qed

lemma sk_pre_two:
  assumes "l \<in> {FOL_LAB_AND, FOL_LAB_OR}" and "sk_pre (CTR l [p, q]) us c"
  shows "is_nnf p \<and> is_nnf q" "no_shadow (set us) p \<and> no_shadow (set us) q"
    "free_vars p \<subseteq> set us \<and> free_vars q \<subseteq> set us" "ar_ok p \<and> ar_ok q"
    "length us + all_depth p \<le> REWRITE_MAX_ARITY \<and> length us + all_depth q \<le> REWRITE_MAX_ARITY"
    "l' \<in> labs p \<union> labs q \<Longrightarrow> unat l' < 0x20000 + unat c"
    "unat c + ex_count p + ex_count q \<le> 2 ^ 17"
  using assms by (auto simp: sk_pre_def elim: is_nnf.cases)

lemma sk_pre_left:
  assumes "l \<in> {FOL_LAB_AND, FOL_LAB_OR}" and "sk_pre (CTR l [p, q]) us c"
  shows "sk_pre p us c"
  using sk_pre_two [OF assms] by (simp add: sk_pre_def)

lemma sk_pre_right:
  assumes "l \<in> {FOL_LAB_AND, FOL_LAB_OR}" and "sk_pre (CTR l [p, q]) us c" and "unat c1 = unat c + ex_count p"
  shows "sk_pre q us c1"
  using sk_pre_two [OF assms(1,2)] assms(3) by (fastforce simp: sk_pre_def)

text \<open>One pass over the recursion: it returns, and the result extends and implies its argument.\<close>

lemma skolem_rec_spec:
  assumes "sk_pre f us c"
  shows "\<exists>f' c'. fol_skolem_rec f (map FVR us) c = Some (f', c') \<and> sk_post f us c f' c'
    \<and> (\<forall>I :: 'd interp. sk_extends I f c f' c')
    \<and> (or_apart f \<longrightarrow> (\<forall>J :: 'd interp. sk_implies J f f'))"
  using assms
proof (induction f arbitrary: us c rule: measure_induct_rule [where f = fnodes])
  case (less f)
  note pre = less.prems
  have "is_nnf f" using pre by (simp add: sk_pre_def)
  then show ?case
  proof (cases rule: is_nnf.cases)
    case nnf_lit
    then show ?thesis using skolem_rec_lit pre by blast
  next
    case (nnf_two l p q)
    have pre': "sk_pre (CTR l [p, q]) us c" using pre nnf_two(1) by simp
    note prep = sk_pre_left [OF nnf_two(2) pre']
    have sz: "fnodes p < fnodes f" "fnodes q < fnodes f" using nnf_two by auto
    obtain p' c1 where p: "fol_skolem_rec p (map FVR us) c = Some (p', c1)" "sk_post p us c p' c1"
        "\<And>I :: 'd interp. sk_extends I p c p' c1" "\<And>J :: 'd interp. or_apart p \<Longrightarrow> sk_implies J p p'"
      using less.IH [OF sz(1) prep] by blast
    have "unat c1 = unat c + ex_count p" using p(2) by (simp add: sk_post_def)
    note preq = sk_pre_right [OF nnf_two(2) pre' this]
    obtain q' c2 where q: "fol_skolem_rec q (map FVR us) c1 = Some (q', c2)" "sk_post q us c1 q' c2"
        "\<And>I :: 'd interp. sk_extends I q c1 q' c2" "\<And>J :: 'd interp. or_apart q \<Longrightarrow> sk_implies J q q'"
      using less.IH [OF sz(2) preq] by blast
    have run: "fol_skolem_rec f (map FVR us) c = Some (CTR l [p', q'], c2)"
      using nnf_two(1,2) p(1) q(1) by (subst fol_skolem_rec.simps) (auto simp: fol_mk_defs)
    have post: "sk_post f us c (CTR l [p', q']) c2"
      using sk_post_two [OF nnf_two(2) p(2) q(2)] nnf_two(1) by simp
    have "\<forall>I :: 'd interp. sk_extends I f c (CTR l [p', q']) c2"
      using sk_extends_two [OF nnf_two(2) pre' p(2) q(2) p(3) q(3)] nnf_two(1) by simp
    moreover have "or_apart f \<longrightarrow> (\<forall>J :: 'd interp. sk_implies J f (CTR l [p', q']))"
    proof (intro impI allI)
      fix J :: "'d interp" assume ap: "or_apart f"
      then have "or_apart p" "or_apart q" using nnf_two by auto
      then show "sk_implies J f (CTR l [p', q'])"
        using sk_implies_two [OF nnf_two(2) _ pre' p(2) q(2) p(4) q(4)] ap nnf_two(1) by simp
    qed
    ultimately show ?thesis using run post by blast
  next
    case (nnf_quant l p x)
    show ?thesis
    proof (cases "l = FOL_LAB_ALL")
      case True
      then have f: "f = CTR FOL_LAB_ALL [FVR x, p]" using nnf_quant by simp
      have pre': "sk_pre p (us @ [x]) c"
        using pre nnf_quant(3) f by (auto simp: sk_pre_def insert_commute subset_insert_iff)
      have "length us < FOL_SKOLEM_MAX_UNIV"
        using pre by (simp add: sk_pre_def REWRITE_MAX_ARITY_def FOL_SKOLEM_MAX_UNIV_def)
      then have run: "fol_skolem_rec f (map FVR us) c = fol_skolem_rec p (map FVR (us @ [x])) c"
        unfolding f by (subst fol_skolem_rec.simps) simp
      obtain f' c' where r: "fol_skolem_rec p (map FVR (us @ [x])) c = Some (f', c')" "sk_post p (us @ [x]) c f' c'"
          "\<And>I :: 'd interp. sk_extends I p c f' c'" "\<And>J :: 'd interp. or_apart p \<Longrightarrow> sk_implies J p f'"
        using less.IH [OF _ pre'] f by auto
      have "sk_post f us c f' c'" using r(2) f by (auto simp: sk_post_def)
      then show ?thesis
        using run r(1) sk_extends_all [OF r(3)] sk_implies_all [OF r(4)] f by auto
    next
      case False
      then have f: "f = CTR FOL_LAB_EX [FVR x, p]" using nnf_quant by auto
      have pref: "sk_pre (CTR FOL_LAB_EX [FVR x, p]) us c" using pre f by simp
      let ?sk = "CTR (skolem_label c) (map FVR us)"
      let ?q = "tsubst (one_sub x ?sk) p"
      have c: "unat c < 2 ^ 17" and ns: "no_shadow (insert x (set us)) p" using pref by (auto simp: sk_pre_def)
      have suc: "unat (c + 1) = Suc (unat c)" using c by (simp add: unat_word_ariths(1))
      note keeps = subst_keeps [OF nnf_quant(3) ns skolem_label_atom [OF c], of "map FVR us"]
      have pre': "sk_pre ?q us (c + 1)" by (rule sk_pre_ex [OF pref suc keeps refl])
      have run: "fol_skolem_rec f (map FVR us) c = fol_skolem_rec ?q (map FVR us) (c + 1)"
        using pref unfolding f
        by (subst fol_skolem_rec.simps) (simp add: sk_pre_def var_subst_tsubst)
      have sz: "fnodes ?q < fnodes f" using keeps f by simp
      obtain f' c' where r: "fol_skolem_rec ?q (map FVR us) (c + 1) = Some (f', c')" "sk_post ?q us (c + 1) f' c'"
          "\<And>I :: 'd interp. sk_extends I ?q (c + 1) f' c'" "\<And>J :: 'd interp. or_apart ?q \<Longrightarrow> sk_implies J ?q f'"
        using less.IH [OF sz pre'] by blast
      have cc: "unat c' = Suc (unat c) + ex_count p" using r(2) keeps suc by (simp add: sk_post_def)
      have "sk_post f us c f' c'" by (rule sk_post_ex [OF pref suc keeps refl r(2), folded f])
      moreover have "sk_extends I f c f' c'" for I :: "'d interp"
        unfolding f by (rule sk_extends_ex [OF pref refl cc suc r(3)])
      moreover have "sk_implies J f f'" if "or_apart f" for J :: "'d interp"
        unfolding f using sk_implies_ex [OF pref refl _ r(4)] keeps that f by auto
      ultimately show ?thesis using run r(1) by auto
    qed
  qed
qed


section \<open>Skolemisation as a whole\<close>

text \<open>
  What the code asks of the formula it is given: a closed normal form in which no quantifier
  shadows another, at most 16 universals nested, labels below the Skolem base, and fewer than
  2^17 existentials.
\<close>

definition skolem_input :: "trm \<Rightarrow> bool" where
  "skolem_input f \<longleftrightarrow> is_nnf f \<and> no_shadow {} f \<and> free_vars f = {} \<and> ar_ok f
     \<and> all_depth f \<le> REWRITE_MAX_ARITY \<and> ex_count f \<le> 2 ^ 17
     \<and> (\<forall>l \<in> labs f. unat l < unat FOL_LAB_SKOLEM_BASE)"

definition base_labs :: "ext set" where
  "base_labs = {l. unat l < unat FOL_LAB_SKOLEM_BASE}"

lemma skolemize_spec:
  assumes "skolem_input f"
  shows "\<exists>f' c'. fol_skolemize f fol_reset_skolem = Some (f', c') \<and> sk_post f [] 0 f' c'
    \<and> (\<forall>I :: 'd interp. sk_extends I f 0 f' c')
    \<and> (or_apart f \<longrightarrow> (\<forall>J :: 'd interp. sk_implies J f f'))"
proof -
  have "sk_pre f [] 0" using assms by (auto simp: skolem_input_def sk_pre_def FOL_LAB_SKOLEM_BASE_def)
  from skolem_rec_spec [OF this, where 'd = 'd] show ?thesis
    by (simp add: fol_skolemize_def fol_reset_skolem_def)
qed

lemma skolem_labs_high: "sk_labs 0 n \<subseteq> - base_labs"
  by (auto simp: sk_labs_def base_labs_def FOL_LAB_SKOLEM_BASE_def)

text \<open>C27: Skolemisation keeps models. On such a formula it returns, the result is free of
  quantifiers, and every structure in which the formula is true becomes one in which every instance
  of the result is true by giving meaning to the fresh labels only. Where the two sides of each
  disjunction bind different variables, a structure satisfying every instance of the result
  satisfies the formula.\<close>
theorem fol_skolemize_models:
  fixes I :: "'d interp"
  assumes "skolem_input f"
  shows "\<exists>f' c'. fol_skolemize f fol_reset_skolem = Some (f', c') \<and> is_qf f' \<and> ar_ok f'
    \<and> unat c' = ex_count f
    \<and> (fol_holds I v f \<longrightarrow> (\<exists>J. same_off (- base_labs) I J \<and> (\<forall>w. fol_holds J w f')))
    \<and> (or_apart f \<and> (\<forall>w. fol_holds I w f') \<longrightarrow> fol_holds I v f)"
proof -
  obtain f' c' where r: "fol_skolemize f fol_reset_skolem = Some (f', c')" and post: "sk_post f [] 0 f' c'"
    and ext: "sk_extends I f 0 f' c'" and imp: "or_apart f \<Longrightarrow> sk_implies I f f'"
    using skolemize_spec [OF assms, where 'd = 'd] by blast
  obtain J where J: "same_off (sk_labs 0 (unat c')) I J" "\<And>w. fol_holds I w f \<Longrightarrow> fol_holds J w f'"
    using ext by (auto simp: sk_extends_def)
  have "same_off (- base_labs) I J" using J(1) skolem_labs_high by (auto simp: same_off_def)
  moreover have "fol_holds I w f = fol_holds I v f" for w
    using assms by (intro holds_vars) (auto simp: skolem_input_def)
  then have "fol_holds I v f \<Longrightarrow> fol_holds J w f'" for w using J(2) by blast
  moreover have "or_apart f \<Longrightarrow> \<forall>w. fol_holds I w f' \<Longrightarrow> fol_holds I v f"
    using imp by (auto simp: sk_implies_def)
  ultimately show ?thesis using r post by (auto simp: sk_post_def)
qed

definition skolem_example :: trm where
  "skolem_example = fol_mk_all (FVR 1) (fol_mk_ex (FVR 2) (CTR 5 [FVR 1, FVR 2]))"

theorem fol_skolemize_models_witness:
  "fol_skolemize skolem_example 0 = Some (CTR 5 [FVR 1, CTR 0x20000 [FVR 1]], 1)
   \<and> (\<exists>f'. is_qf f' \<and> f' = CTR 5 [FVR 1, CTR 0x20000 [FVR 1]])"
proof -
  have run: "fol_skolemize skolem_example 0 = Some (CTR 5 [FVR 1, CTR 0x20000 [FVR 1]], 1)" by code_simp
  have "skolem_input skolem_example"
    unfolding skolem_input_def skolem_example_def fol_mk_defs
    by (intro conjI is_nnf.intros)
      (simp_all add: REWRITE_MAX_ARITY_def FOL_LAB_SKOLEM_BASE_def fol_lab_defs fol_is_connective_def)
  from fol_skolemize_models [OF this, where 'd = bool] run show ?thesis by (auto simp: fol_reset_skolem_def)
qed

text \<open>
  With a shadowed variable the result says something else: the inner existential of
  forall x. exists y. S(x, y) and exists x. R(x, y) captures the argument of the first Skolem
  term, and R ends up about sk0(sk1(x)).
\<close>

lemma fol_skolemize_shadow:
  "fol_skolemize (fol_mk_all (FVR 1) (fol_mk_ex (FVR 2)
       (fol_mk_and (CTR 5 [FVR 1, FVR 2]) (fol_mk_ex (FVR 1) (CTR 6 [FVR 1, FVR 2]))))) 0
   = Some (fol_mk_and (CTR 5 [FVR 1, CTR 0x20000 [FVR 1]])
       (CTR 6 [CTR 0x20001 [FVR 1], CTR 0x20000 [CTR 0x20001 [FVR 1]]]), 2)"
  by code_simp

text \<open>A universal on each side of a disjunction, with the same variable: the two are joined.\<close>

lemma fol_skolemize_joins:
  "fol_skolemize (fol_mk_or (fol_mk_all (FVR 1) (CTR 5 [FVR 1])) (fol_mk_all (FVR 1) (CTR 6 [FVR 1]))) 0
   = Some (fol_mk_or (CTR 5 [FVR 1]) (CTR 6 [FVR 1]), 0)"
  by code_simp

end
