(* ===== verification/FOL_CNF.thy ===== *)
theory FOL_CNF
  imports FOL_Skolem
begin

text \<open>
  Distribution of disjunctions over conjunctions, the extraction of clauses and the whole
  pipeline from a formula to clauses (src/fol/cnf.c, fol_distribute to
  fol_formula_to_clauses). The arrays that grow by doubling are lists; an allocation does not
  fail. The recursion of the distribution is nested; it ends because distributing does not
  increase the number of clauses the formula multiplies out to.
\<close>

text \<open>The weight that a distribution step lowers and that distributing does not increase.\<close>

function (sequential) cnf_weight :: "trm \<Rightarrow> nat" where
  "cnf_weight (CTR lab ts) =
     (let p = cnf_weight (term_ctr_at (CTR lab ts) 0); q = cnf_weight (term_ctr_at (CTR lab ts) 1)
      in if lab = FOL_LAB_AND then Suc (p + q) else if lab = FOL_LAB_OR then p * q else 2)"
| "cnf_weight _ = 2"
  by pat_completeness auto
termination by (relation "measure ctr_count") (auto simp del: ctr_count.simps term_ctr_at.simps)

lemma cnf_weight_ge: "2 \<le> cnf_weight t"
proof (induction t rule: cnf_weight.induct)
  case (1 lab ts)
  let ?p = "cnf_weight (term_ctr_at (CTR lab ts) 0)" and ?q = "cnf_weight (term_ctr_at (CTR lab ts) 1)"
  have "2 * 1 \<le> ?p * ?q" by (rule mult_le_mono) (use 1 in auto)
  then show ?case using 1 unfolding cnf_weight.simps(1) [of lab ts] Let_def
    by (cases "lab = FOL_LAB_OR"; cases "lab = FOL_LAB_AND"; simp del: term_ctr_at.simps)
qed auto

declare cnf_weight.simps(1) [simp del]

lemma cnf_weight_mk:
  "cnf_weight (fol_mk_and p q) = Suc (cnf_weight p + cnf_weight q)"
  "cnf_weight (fol_mk_or p q) = cnf_weight p * cnf_weight q"
  by (simp_all add: fol_mk_defs cnf_weight.simps(1))

lemma cnf_weight_node:
  "cnf_weight (CTR FOL_LAB_AND ts) = Suc (cnf_weight (term_ctr_at (CTR FOL_LAB_AND ts) 0)
     + cnf_weight (term_ctr_at (CTR FOL_LAB_AND ts) 1))"
  "cnf_weight (CTR FOL_LAB_OR ts) = cnf_weight (term_ctr_at (CTR FOL_LAB_OR ts) 0)
     * cnf_weight (term_ctr_at (CTR FOL_LAB_OR ts) 1)"
  by (simp_all only: cnf_weight.simps(1) Let_def lab_distinct lab_distinct_sym if_True if_False refl)

lemma cnf_weight_or_child:
  "cnf_weight (term_ctr_at (CTR FOL_LAB_OR ts) 0) < cnf_weight (CTR FOL_LAB_OR ts)"
  "cnf_weight (term_ctr_at (CTR FOL_LAB_OR ts) 1) < cnf_weight (CTR FOL_LAB_OR ts)"
proof -
  let ?p = "cnf_weight (term_ctr_at (CTR FOL_LAB_OR ts) 0)" and ?q = "cnf_weight (term_ctr_at (CTR FOL_LAB_OR ts) 1)"
  have "2 \<le> ?p" "2 \<le> ?q" by (rule cnf_weight_ge)+
  then show "?p < cnf_weight (CTR FOL_LAB_OR ts)" "?q < cnf_weight (CTR FOL_LAB_OR ts)"
    unfolding cnf_weight_node by (simp_all del: term_ctr_at.simps)
qed

section \<open>Distribution\<close>

fun is_and :: "trm \<Rightarrow> bool" where
  "is_and (CTR l ts) \<longleftrightarrow> l = FOL_LAB_AND"
| "is_and _ \<longleftrightarrow> False"

lemma is_and_weight: "is_and t \<Longrightarrow> cnf_weight t = Suc (cnf_weight (term_ctr_at t 0) + cnf_weight (term_ctr_at t 1))"
  by (cases t) (auto simp: cnf_weight_node simp del: term_ctr_at.simps)

text \<open>Moving one side of a conjunction under the disjunction lowers the weight.\<close>

lemma weight_step:
  assumes "is_and d" and "cnf_weight d \<le> cnf_weight p" and "cnf_weight e \<le> cnf_weight q" and "i = 0 \<or> i = 1"
  shows "cnf_weight (fol_mk_or (term_ctr_at d i) e) < cnf_weight p * cnf_weight q"
    and "cnf_weight (fol_mk_or e (term_ctr_at d i)) < cnf_weight q * cnf_weight p"
proof -
  have "cnf_weight (term_ctr_at d i) < cnf_weight d" using is_and_weight [OF assms(1)] assms(4) by auto
  then have "cnf_weight (term_ctr_at d i) * cnf_weight e < cnf_weight d * cnf_weight e"
    using cnf_weight_ge [of e] by (intro mult_strict_right_mono) auto
  also have "\<dots> \<le> cnf_weight p * cnf_weight q" using assms by (intro mult_le_mono)
  finally have "cnf_weight (term_ctr_at d i) * cnf_weight e < cnf_weight p * cnf_weight q" .
  then show "cnf_weight (fol_mk_or (term_ctr_at d i) e) < cnf_weight p * cnf_weight q"
      "cnf_weight (fol_mk_or e (term_ctr_at d i)) < cnf_weight q * cnf_weight p"
    by (simp_all add: cnf_weight_mk mult.commute)
qed

text \<open>The weight of a disjunction distributed over the conjunction d.\<close>

lemma weight_split:
  assumes "is_and d" and "cnf_weight d \<le> m" and "cnf_weight e \<le> n"
    and "x \<le> cnf_weight (term_ctr_at d 0) * cnf_weight e" and "y \<le> cnf_weight (term_ctr_at d 1) * cnf_weight e"
  shows "Suc (x + y) \<le> m * n"
proof -
  have "Suc (x + y) \<le> Suc (cnf_weight (term_ctr_at d 0) + cnf_weight (term_ctr_at d 1)) * cnf_weight e"
    using assms(4,5) cnf_weight_ge [of e] by (simp add: algebra_simps)
  also have "\<dots> = cnf_weight d * cnf_weight e" using is_and_weight [OF assms(1)] by simp
  also have "\<dots> \<le> m * n" using assms(2,3) by (rule mult_le_mono)
  finally show ?thesis .
qed

function (sequential) fol_distribute :: "trm \<Rightarrow> trm" where
  "fol_distribute (CTR lab ts) =
     (if lab = FOL_LAB_AND
      then fol_mk_and (fol_distribute (term_ctr_at (CTR lab ts) 0)) (fol_distribute (term_ctr_at (CTR lab ts) 1))
      else if lab = FOL_LAB_OR
      then let dp = fol_distribute (term_ctr_at (CTR lab ts) 0);
               dq = fol_distribute (term_ctr_at (CTR lab ts) 1)
           in if is_and dp
              then fol_mk_and (fol_distribute (fol_mk_or (term_ctr_at dp 0) dq))
                              (fol_distribute (fol_mk_or (term_ctr_at dp 1) dq))
              else if is_and dq
              then fol_mk_and (fol_distribute (fol_mk_or dp (term_ctr_at dq 0)))
                              (fol_distribute (fol_mk_or dp (term_ctr_at dq 1)))
              else fol_mk_or dp dq
      else CTR lab ts)"
| "fol_distribute f = f"
  by pat_completeness auto
termination
proof -
  have le: "cnf_weight (fol_distribute t) \<le> cnf_weight t" if "fol_distribute_dom t" for t
    using that
  proof (induction t rule: fol_distribute.pinduct)
    case (1 lab ts)
    let ?p = "term_ctr_at (CTR lab ts) 0" and ?q = "term_ctr_at (CTR lab ts) 1"
    note d = fol_distribute.psimps(1) [OF 1(1)]
    let ?dp = "fol_distribute ?p" and ?dq = "fol_distribute ?q"
    consider "lab = FOL_LAB_AND" | "lab = FOL_LAB_OR" | "lab \<noteq> FOL_LAB_AND" "lab \<noteq> FOL_LAB_OR" by blast
    then show ?case
    proof cases
      case c1: 1
      then show ?thesis
        using 1(2,3) c1 unfolding d by (simp add: cnf_weight_mk cnf_weight_node del: term_ctr_at.simps)
    next
      case 2
      then have pq: "cnf_weight ?dp \<le> cnf_weight ?p" "cnf_weight ?dq \<le> cnf_weight ?q"
        using 1(4,5) by (auto simp del: term_ctr_at.simps)
      have w: "cnf_weight (CTR lab ts) = cnf_weight ?p * cnf_weight ?q" using 2 by (simp only: cnf_weight_node)
      show ?thesis
      proof (cases "is_and ?dp")
        case True
        then show ?thesis unfolding w d
          using 1(6,7) 2 weight_split [OF True pq]
          by (simp add: cnf_weight_mk Let_def del: term_ctr_at.simps)
      next
        case False
        then show ?thesis unfolding w d
          using 1(8,9) 2 pq weight_split [OF _ pq(2,1)] mult_le_mono [OF pq]
          by (simp add: cnf_weight_mk Let_def mult.commute del: term_ctr_at.simps)
      qed
    qed (simp add: d del: term_ctr_at.simps)
  qed (simp add: fol_distribute.psimps)+
  have node: "cnf_weight (CTR FOL_LAB_OR ts) = cnf_weight (term_ctr_at (CTR FOL_LAB_OR ts) 0)
      * cnf_weight (term_ctr_at (CTR FOL_LAB_OR ts) (Suc 0))"
    "cnf_weight (CTR FOL_LAB_AND ts) = Suc (cnf_weight (term_ctr_at (CTR FOL_LAB_AND ts) 0)
      + cnf_weight (term_ctr_at (CTR FOL_LAB_AND ts) (Suc 0)))" for ts
    using cnf_weight_node by (simp_all del: term_ctr_at.simps)
  note child = cnf_weight_or_child [unfolded One_nat_def, unfolded node]
  have left: "cnf_weight (fol_mk_or (term_ctr_at (fol_distribute p) i) (fol_distribute q)) < cnf_weight p * cnf_weight q"
    if "is_and (fol_distribute p)" "fol_distribute_dom q" "fol_distribute_dom p" "i = 0 \<or> i = Suc 0" for p q i
    using weight_step(1) [OF that(1) le [OF that(3)] le [OF that(2)]] that(4) by simp
  have right: "cnf_weight (fol_mk_or (fol_distribute p) (term_ctr_at (fol_distribute q) i)) < cnf_weight p * cnf_weight q"
    if "is_and (fol_distribute q)" "fol_distribute_dom q" "fol_distribute_dom p" "i = 0 \<or> i = Suc 0" for p q i
    using weight_step(2) [OF that(1) le [OF that(2)] le [OF that(3)]] that(4) by simp
  show ?thesis
    by (relation "measure cnf_weight") (auto simp: node child left right simp del: term_ctr_at.simps)
qed


declare fol_distribute.simps(1) [simp del]

fun is_or :: "trm \<Rightarrow> bool" where
  "is_or (CTR l ts) \<longleftrightarrow> l = FOL_LAB_OR"
| "is_or _ \<longleftrightarrow> False"

text \<open>To show a relation between a formula and its distribution, follow the cases of the code.\<close>

lemma distribute_rule [case_names conj left right disj other]:
  assumes conj: "\<And>ts p' q'. R (term_ctr_at (CTR FOL_LAB_AND ts) 0) p' \<Longrightarrow> R (term_ctr_at (CTR FOL_LAB_AND ts) 1) q'
      \<Longrightarrow> R (CTR FOL_LAB_AND ts) (fol_mk_and p' q')"
    and left: "\<And>ts dp dq a b. R (term_ctr_at (CTR FOL_LAB_OR ts) 0) dp \<Longrightarrow> R (term_ctr_at (CTR FOL_LAB_OR ts) 1) dq
      \<Longrightarrow> is_and dp \<Longrightarrow> R (fol_mk_or (term_ctr_at dp 0) dq) a \<Longrightarrow> R (fol_mk_or (term_ctr_at dp 1) dq) b
      \<Longrightarrow> R (CTR FOL_LAB_OR ts) (fol_mk_and a b)"
    and right: "\<And>ts dp dq a b. R (term_ctr_at (CTR FOL_LAB_OR ts) 0) dp \<Longrightarrow> R (term_ctr_at (CTR FOL_LAB_OR ts) 1) dq
      \<Longrightarrow> is_and dq \<Longrightarrow> R (fol_mk_or dp (term_ctr_at dq 0)) a \<Longrightarrow> R (fol_mk_or dp (term_ctr_at dq 1)) b
      \<Longrightarrow> R (CTR FOL_LAB_OR ts) (fol_mk_and a b)"
    and disj: "\<And>ts dp dq. R (term_ctr_at (CTR FOL_LAB_OR ts) 0) dp \<Longrightarrow> R (term_ctr_at (CTR FOL_LAB_OR ts) 1) dq
      \<Longrightarrow> \<not> is_and dp \<Longrightarrow> \<not> is_and dq \<Longrightarrow> R (CTR FOL_LAB_OR ts) (fol_mk_or dp dq)"
    and other: "\<And>f. \<not> is_and f \<Longrightarrow> \<not> is_or f \<Longrightarrow> R f f"
  shows "R f (fol_distribute f)"
proof (induction f rule: fol_distribute.induct)
  case (1 lab ts)
  let ?dp = "fol_distribute (term_ctr_at (CTR lab ts) 0)" and ?dq = "fol_distribute (term_ctr_at (CTR lab ts) 1)"
  consider "lab = FOL_LAB_AND" | "lab = FOL_LAB_OR" | "lab \<noteq> FOL_LAB_AND" "lab \<noteq> FOL_LAB_OR" by blast
  then show ?case
  proof cases
    case c1: 1
    then show ?thesis using conj 1(1,2) unfolding fol_distribute.simps(1) by simp
  next
    case 2
    then have pq: "R (term_ctr_at (CTR lab ts) 0) ?dp" "R (term_ctr_at (CTR lab ts) 1) ?dq"
      using 1(3,4) by (simp_all del: term_ctr_at.simps)
    consider "is_and ?dp" | "\<not> is_and ?dp" "is_and ?dq" | "\<not> is_and ?dp" "\<not> is_and ?dq" by blast
    then show ?thesis
    proof cases
      case c1: 1
      then show ?thesis using 2 1(5,6) left pq unfolding fol_distribute.simps(1)
        by (simp add: Let_def del: term_ctr_at.simps)
    next
      case c2: 2
      then show ?thesis using 2 1(7,8) right pq unfolding fol_distribute.simps(1)
        by (simp add: Let_def del: term_ctr_at.simps)
    next
      case c3: 3
      then show ?thesis using 2 disj pq unfolding fol_distribute.simps(1)
        by (simp add: Let_def del: term_ctr_at.simps)
    qed
  next
    case 3
    then show ?thesis using other unfolding fol_distribute.simps(1) by simp
  qed
qed (auto intro: other)

lemma holds_and_or:
  "fol_holds I v (CTR FOL_LAB_AND ts) \<longleftrightarrow> fol_holds I v (term_ctr_at (CTR FOL_LAB_AND ts) 0)
     \<and> fol_holds I v (term_ctr_at (CTR FOL_LAB_AND ts) 1)"
  "fol_holds I v (CTR FOL_LAB_OR ts) \<longleftrightarrow> fol_holds I v (term_ctr_at (CTR FOL_LAB_OR ts) 0)
     \<or> fol_holds I v (term_ctr_at (CTR FOL_LAB_OR ts) 1)"
  by (simp_all add: fol_holds.simps(1) Let_def del: term_ctr_at.simps)

lemma holds_is_and: "is_and t \<Longrightarrow> fol_holds I v t \<longleftrightarrow> fol_holds I v (term_ctr_at t 0) \<and> fol_holds I v (term_ctr_at t 1)"
  by (cases t) (auto simp: holds_and_or simp del: term_ctr_at.simps)

lemma distribute_holds: "fol_holds I v (fol_distribute f) \<longleftrightarrow> fol_holds I v f"
  by (induction rule: distribute_rule)
    (auto simp: holds_and_or holds_is_and simp del: term_ctr_at.simps)

text \<open>On a quantifier-free normal form the result is a conjunction of disjunctions of literals.\<close>

lemma lit_not_node: "is_lit t \<Longrightarrow> \<not> is_and t \<and> \<not> is_or t"
  by (cases t) auto

lemma disj_not_and: "is_disj t \<Longrightarrow> \<not> is_and t"
  by (erule is_disj.cases) (auto dest: lit_not_node)

lemma disj_is_qf: "is_disj f \<Longrightarrow> is_qf f"
  by (induction rule: is_disj.induct) (auto intro: is_qf.intros)

lemma cnf_is_qf: "is_cnf f \<Longrightarrow> is_qf f"
  by (induction rule: is_cnf.induct) (auto intro: is_qf.intros disj_is_qf)

lemma cnf_and_children: "is_cnf t \<Longrightarrow> is_and t \<Longrightarrow> is_cnf (term_ctr_at t 0) \<and> is_cnf (term_ctr_at t 1)"
  by (erule is_cnf.cases) (auto dest: disj_not_and)

lemma cnf_not_and: "is_cnf t \<Longrightarrow> \<not> is_and t \<Longrightarrow> is_disj t"
  by (erule is_cnf.cases) auto

lemma qf_children:
  assumes "is_qf (CTR lab ts)" and "lab = FOL_LAB_AND \<or> lab = FOL_LAB_OR"
  shows "is_qf (term_ctr_at (CTR lab ts) 0) \<and> is_qf (term_ctr_at (CTR lab ts) 1)"
  using assms by (cases rule: is_qf.cases) (auto split: if_splits)

lemma cnf_mk:
  "is_qf p \<Longrightarrow> is_qf q \<Longrightarrow> is_qf (fol_mk_or p q)"
  "is_cnf p \<Longrightarrow> is_cnf q \<Longrightarrow> is_cnf (fol_mk_and p q)"
  "is_disj p \<Longrightarrow> is_disj q \<Longrightarrow> is_cnf (fol_mk_or p q)"
  by (auto simp: fol_mk_defs intro: is_qf.intros is_cnf.intros is_disj.intros)

lemma distribute_cnf: "is_qf f \<longrightarrow> is_cnf (fol_distribute f)"
proof (induction rule: distribute_rule)
  case (conj ts p' q')
  then show ?case using qf_children [of FOL_LAB_AND ts] cnf_mk by blast
next
  case (left ts dp dq a b)
  then show ?case using qf_children [of FOL_LAB_OR ts] cnf_mk cnf_and_children cnf_is_qf by meson
next
  case (right ts dp dq a b)
  then show ?case using qf_children [of FOL_LAB_OR ts] cnf_mk cnf_and_children cnf_is_qf by meson
next
  case (disj ts dp dq)
  then show ?case using qf_children [of FOL_LAB_OR ts] cnf_mk cnf_not_and by meson
next
  case (other f)
  show ?case
  proof
    assume "is_qf f"
    then show "is_cnf f" using other by cases (auto intro: is_cnf.cnf_disj is_disj.disj_lit)
  qed
qed

lemma ar_ok_at [simp]: "ar_ok t \<Longrightarrow> ar_ok (term_ctr_at t i)"
  by (cases t) (auto simp: zero_trm_def list_all_length)

lemma ar_ok_mk [simp]:
  "ar_ok (fol_mk_and p q) \<longleftrightarrow> ar_ok p \<and> ar_ok q" "ar_ok (fol_mk_or p q) \<longleftrightarrow> ar_ok p \<and> ar_ok q"
  by (simp_all add: fol_mk_defs REWRITE_MAX_ARITY_def)

lemma distribute_ar_ok: "ar_ok f \<longrightarrow> ar_ok (fol_distribute f)"
  by (induction rule: distribute_rule) (auto simp del: term_ctr_at.simps ar_ok.simps)

section \<open>Extraction\<close>

definition fol_extract_lit :: "fol_lit list \<Rightarrow> fol_lit \<Rightarrow> fol_lit list" where
  "fol_extract_lit lits lit = lits @ [lit]"

function (sequential) fol_extract_or :: "trm \<Rightarrow> fol_lit list \<Rightarrow> fol_lit list" where
  "fol_extract_or (CTR lab ts) lits =
     (if lab = FOL_LAB_OR
      then fol_extract_or (term_ctr_at (CTR lab ts) 1) (fol_extract_or (term_ctr_at (CTR lab ts) 0) lits)
      else if lab = FOL_LAB_NOT then fol_extract_lit lits (Neg (term_ctr_at (CTR lab ts) 0))
      else fol_extract_lit lits (Pos (CTR lab ts)))"
| "fol_extract_or f lits = fol_extract_lit lits (Pos f)"
  by pat_completeness auto
termination by (relation "measure (ctr_count \<circ> fst)") (auto simp del: ctr_count.simps term_ctr_at.simps)

text \<open>A disjunct too long for a clause is left out, without a trace.\<close>

definition fol_append_clause :: "fol_clause list \<Rightarrow> trm \<Rightarrow> fol_clause list" where
  "fol_append_clause out or_root =
     (let lits = fol_extract_or or_root []
      in case fol_fill (fol_clause_new (length lits)) lits of None \<Rightarrow> out | Some c \<Rightarrow> out @ [c])"

function (sequential) fol_extract_and :: "trm \<Rightarrow> fol_clause list \<Rightarrow> fol_clause list" where
  "fol_extract_and (CTR lab ts) out =
     (if lab = FOL_LAB_AND
      then fol_extract_and (term_ctr_at (CTR lab ts) 1) (fol_extract_and (term_ctr_at (CTR lab ts) 0) out)
      else fol_append_clause out (CTR lab ts))"
| "fol_extract_and f out = fol_append_clause out f"
  by pat_completeness auto
termination by (relation "measure (ctr_count \<circ> fst)") (auto simp del: ctr_count.simps term_ctr_at.simps)

definition fol_extract_clauses :: "trm \<Rightarrow> fol_clause list" where
  "fol_extract_clauses cnf_formula = fol_extract_and cnf_formula []"

definition fol_formula_to_clauses :: "trm \<Rightarrow> fol_clause list option" where
  "fol_formula_to_clauses f =
     (case fol_skolemize (fol_nnf f) fol_reset_skolem of
        None \<Rightarrow> None
      | Some (sk, next) \<Rightarrow> Some (fol_extract_clauses (fol_distribute sk)))"

declare fol_extract_or.simps(1) [simp del] fol_extract_and.simps(1) [simp del]


section \<open>What the extraction yields\<close>

lemma extract_or_node:
  "fol_extract_or (CTR FOL_LAB_OR ts) lits = fol_extract_or (term_ctr_at (CTR FOL_LAB_OR ts) 1)
     (fol_extract_or (term_ctr_at (CTR FOL_LAB_OR ts) 0) lits)"
  by (simp add: fol_extract_or.simps(1) del: term_ctr_at.simps)

lemma extract_or_acc: "fol_extract_or f lits = lits @ fol_extract_or f []"
proof (induction f arbitrary: lits rule: measure_induct_rule [where f = ctr_count])
  case (less f)
  show ?case
  proof (cases "is_or f")
    case True
    then obtain ts where f: "f = CTR FOL_LAB_OR ts" by (cases f) auto
    have "fol_extract_or (term_ctr_at f i) m = m @ fol_extract_or (term_ctr_at f i) []" for i m
      unfolding f by (rule less.IH) (simp only: f ctr_count_at)
    then show ?thesis unfolding f extract_or_node by (metis append.assoc append_Nil)
  next
    case False
    then show ?thesis by (cases f) (auto simp: fol_extract_or.simps(1) fol_extract_lit_def)
  qed
qed

text \<open>The roots of the disjunctions, left to right.\<close>

function (sequential) conjuncts :: "trm \<Rightarrow> trm list" where
  "conjuncts (CTR lab ts) =
     (if lab = FOL_LAB_AND
      then conjuncts (term_ctr_at (CTR lab ts) 0) @ conjuncts (term_ctr_at (CTR lab ts) 1)
      else [CTR lab ts])"
| "conjuncts f = [f]"
  by pat_completeness auto
termination by (relation "measure ctr_count") (auto simp del: ctr_count.simps term_ctr_at.simps)

declare conjuncts.simps(1) [simp del]

lemma conjuncts_simps [simp]:
  "conjuncts (CTR FOL_LAB_AND [p, q]) = conjuncts p @ conjuncts q"
  "\<not> is_and f \<Longrightarrow> conjuncts f = [f]"
  by (simp add: conjuncts.simps(1)) (cases f; simp add: conjuncts.simps(1))

lemma fol_append_clause_eq:
  "fol_append_clause out f = out @ filter (\<lambda>c. length c \<le> FOL_MAX_LITS) [fol_extract_or f []]"
  by (simp add: fol_append_clause_def Let_def)

lemma extract_and_eq:
  "fol_extract_and f out = out @ filter (\<lambda>c. length c \<le> FOL_MAX_LITS) (map (\<lambda>d. fol_extract_or d []) (conjuncts f))"
proof (induction f out rule: fol_extract_and.induct)
  case (1 lab ts out)
  show ?case
  proof (cases "lab = FOL_LAB_AND")
    case True
    then show ?thesis
      using 1(1,2) unfolding fol_extract_and.simps(1) [of lab ts] conjuncts.simps(1) [of lab ts]
      by (simp del: term_ctr_at.simps)
  qed (simp add: fol_extract_and.simps(1) conjuncts.simps(1) fol_append_clause_eq)
qed (simp_all add: fol_append_clause_eq)

lemma extract_or_mk [simp]:
  "fol_extract_or (CTR FOL_LAB_OR [p, q]) [] = fol_extract_or p [] @ fol_extract_or q []"
  by (simp add: fol_extract_or.simps(1)) (rule extract_or_acc)

lemma extract_or_lit:
  assumes "is_lit a"
  shows "\<exists>b. is_atom b \<and> (ar_ok a \<longrightarrow> ar_ok b) \<and> labs b \<subseteq> labs a \<and>
    (a = b \<and> fol_extract_or a [] = [Pos b] \<or> a = CTR FOL_LAB_NOT [b] \<and> fol_extract_or a [] = [Neg b])"
  using assms
proof (rule lit_cases)
  assume "is_atom a"
  then show ?thesis
    by (intro exI [of _ a]) (cases a; auto simp: fol_extract_or.simps(1) fol_extract_lit_def is_connective_iff)
next
  fix b assume "a = CTR FOL_LAB_NOT [b]" "is_atom b"
  then show ?thesis
    by (intro exI [of _ b]) (auto simp: fol_extract_or.simps(1) fol_extract_lit_def)
qed

lemma extract_or_holds: "is_disj f \<Longrightarrow> clause_holds I v (fol_extract_or f []) \<longleftrightarrow> fol_holds I v f"
proof (induction rule: is_disj.induct)
  case (disj_lit a)
  from extract_or_lit [OF this] show ?case
    by (auto simp: clause_holds_def lit_holds_def holds_atom)
qed (auto simp: clause_holds_def)

text \<open>The clauses speak about atoms only.\<close>

definition clause_atoms :: "fol_clause \<Rightarrow> bool" where
  "clause_atoms c \<longleftrightarrow> (\<forall>l \<in> set c. is_atom (lit_atom l))"

lemma extract_or_typed: "is_disj f \<Longrightarrow> ar_ok f \<Longrightarrow> clause_ok (fol_extract_or f []) \<and> clause_atoms (fol_extract_or f [])"
proof (induction rule: is_disj.induct)
  case (disj_lit a)
  from extract_or_lit [OF this(1)] disj_lit(2) show ?case
    by (auto simp: clause_ok_def clause_atoms_def lit_ok_def)
qed (auto simp: clause_ok_def clause_atoms_def)

lemma conjuncts_cnf: "is_cnf f \<Longrightarrow> ar_ok f \<Longrightarrow> d \<in> set (conjuncts f) \<Longrightarrow> is_disj d \<and> ar_ok d"
proof (induction rule: is_cnf.induct)
  case (cnf_disj a)
  then show ?case using disj_not_and [OF cnf_disj(1)] by simp
qed auto

lemma conjuncts_holds: "is_cnf f \<Longrightarrow> fol_holds I v f \<longleftrightarrow> (\<forall>d \<in> set (conjuncts f). fol_holds I v d)"
  by (induction rule: is_cnf.induct) (auto dest: disj_not_and)

lemma extract_holds:
  assumes "is_cnf f" and "ar_ok f"
  shows "fol_holds I v f \<longleftrightarrow> (\<forall>c \<in> set (map (\<lambda>d. fol_extract_or d []) (conjuncts f)). clause_holds I v c)"
proof -
  have "clause_holds I v (fol_extract_or d []) = fol_holds I v d" if "d \<in> set (conjuncts f)" for d
    using conjuncts_cnf [OF assms that] extract_or_holds by blast
  then show ?thesis by (simp add: conjuncts_holds [OF assms(1)])
qed

text \<open>C28: distribution is an equivalence. The result has the truth value of the formula in
  every structure and, for a quantifier-free normal form, is a conjunction of disjunctions of
  literals, that the extraction then turns into clauses with the same meaning.\<close>
theorem fol_distribute_correct:
  assumes "is_qf f" and "ar_ok f"
  shows "is_cnf (fol_distribute f) \<and> ar_ok (fol_distribute f)
    \<and> (fol_holds I v (fol_distribute f) \<longleftrightarrow> fol_holds I v f)
    \<and> (fol_holds I v f \<longleftrightarrow>
        (\<forall>c \<in> set (map (\<lambda>d. fol_extract_or d []) (conjuncts (fol_distribute f))). clause_holds I v c))"
  using extract_holds [of "fol_distribute f"] distribute_cnf distribute_ar_ok distribute_holds assms by blast

definition dist_example :: trm where
  "dist_example = fol_mk_or (fol_mk_and (CTR 5 []) (CTR 6 [])) (fol_mk_and (CTR 7 []) (fol_mk_not (CTR 8 [])))"

theorem fol_distribute_correct_witness:
  "is_cnf (fol_distribute dist_example) \<and> fol_extract_clauses (fol_distribute dist_example) =
     [[Pos (CTR 5 []), Pos (CTR 7 [])], [Pos (CTR 5 []), Neg (CTR 8 [])],
      [Pos (CTR 6 []), Pos (CTR 7 [])], [Pos (CTR 6 []), Neg (CTR 8 [])]]"
proof -
  have "is_qf dist_example" unfolding dist_example_def fol_mk_defs
    by (intro is_qf.intros) (simp_all add: fol_is_connective_def fol_lab_defs)
  moreover have "ar_ok dist_example" by (simp add: dist_example_def fol_mk_defs REWRITE_MAX_ARITY_def)
  ultimately have "is_cnf (fol_distribute dist_example)" using fol_distribute_correct by blast
  then show ?thesis by simp code_simp
qed

text \<open>C32: the clauses of a formula in clausal form are exactly its disjunctions that have at
  most 64 literals; a longer one is dropped without notice. So a structure satisfying the formula
  satisfies the clauses, and the converse holds when no disjunction is too long.\<close>
theorem fol_extract_clauses_exact:
  assumes "is_cnf f" and "ar_ok f"
  shows "fol_extract_clauses f =
      filter (\<lambda>c. length c \<le> FOL_MAX_LITS) (map (\<lambda>d. fol_extract_or d []) (conjuncts f))
    \<and> (fol_holds I v f \<longrightarrow> (\<forall>c \<in> set (fol_extract_clauses f). clause_holds I v c))
    \<and> ((\<forall>d \<in> set (conjuncts f). length (fol_extract_or d []) \<le> FOL_MAX_LITS) \<longrightarrow>
        (\<forall>c \<in> set (fol_extract_clauses f). clause_holds I v c) \<longrightarrow> fol_holds I v f)"
  unfolding extract_holds [OF assms] by (auto simp: fol_extract_clauses_def extract_and_eq)

definition long_disj :: "nat \<Rightarrow> trm" where
  "long_disj n = (fol_mk_or (CTR 5 []) ^^ n) (CTR 6 [])"

theorem fol_extract_clauses_exact_witness:
  "fol_extract_clauses (fol_mk_and (long_disj 64) (CTR 7 [])) = [[Pos (CTR 7 [])]]"
proof -
  have d: "is_disj (long_disj n) \<and> ar_ok (long_disj n) \<and> length (fol_extract_or (long_disj n) []) = Suc n" for n
  proof (induction n)
    case 0
    then show ?case
      by (simp add: long_disj_def is_disj.disj_lit REWRITE_MAX_ARITY_def fol_is_connective_def fol_lab_defs
          fol_extract_or.simps(1) fol_extract_lit_def)
  next
    case (Suc n)
    have "is_lit (CTR 5 []) \<and> length (fol_extract_or (CTR 5 []) []) = 1"
      by (simp add: fol_is_connective_def fol_lab_defs fol_extract_or.simps(1) fol_extract_lit_def)
    moreover have "long_disj (Suc n) = CTR FOL_LAB_OR [CTR 5 [], long_disj n]"
      by (simp add: long_disj_def fol_mk_or_def)
    ultimately show ?case using Suc
      by (simp add: REWRITE_MAX_ARITY_def is_disj.disj_or is_disj.disj_lit del: is_lit.simps)
  qed
  have a: "is_lit (CTR 7 []) \<and> fol_extract_or (CTR 7 []) [] = [Pos (CTR 7 [])]"
    by (simp add: fol_is_connective_def fol_lab_defs fol_extract_or.simps(1) fol_extract_lit_def)
  let ?f = "fol_mk_and (long_disj 64) (CTR 7 [])"
  have f: "is_cnf ?f" "ar_ok ?f"
    using d a by (simp_all add: fol_mk_and_def REWRITE_MAX_ARITY_def is_cnf.intros is_disj.disj_lit del: is_lit.simps)
  have "FOL_LAB_AND \<noteq> 7" by (simp add: fol_lab_defs)
  then have cj: "conjuncts ?f = [long_disj 64, CTR 7 []]"
    using disj_not_and [of "long_disj 64"] d by (auto simp: fol_mk_and_def)
  have "FOL_MAX_LITS < length (fol_extract_or (long_disj 64) [])" using d by (simp add: FOL_MAX_LITS_def)
  then show ?thesis
    using fol_extract_clauses_exact [OF f, where I = "undefined :: bool interp", THEN conjunct1] cj a
    by (simp add: FOL_MAX_LITS_def)
qed

section \<open>From a formula to clauses\<close>

text \<open>C31: the stages fit together. For a formula whose normal form meets the conditions of the
  Skolemisation the pipeline returns, and every clause it returns is well formed: at most 64
  literals, signs 0 or 1, atoms that are no connectives and stay within the arity bound.\<close>
theorem fol_formula_to_clauses_typed:
  assumes "is_formula f" and "skolem_input (fol_nnf f)"
  shows "\<exists>cs. fol_formula_to_clauses f = Some cs
    \<and> (\<forall>c \<in> set cs. clause_ok c \<and> clause_atoms c \<and> length c \<le> FOL_MAX_LITS)"
proof -
  obtain g n where g: "fol_skolemize (fol_nnf f) fol_reset_skolem = Some (g, n)" "is_qf g" "ar_ok g"
    using skolemize_spec [OF assms(2), where 'd = bool] by (auto simp: sk_post_def)
  then have "is_cnf (fol_distribute g)" "ar_ok (fol_distribute g)" using distribute_cnf distribute_ar_ok by blast+
  then show ?thesis using g(1) conjuncts_cnf extract_or_typed
    by (fastforce simp: fol_formula_to_clauses_def fol_extract_clauses_def extract_and_eq)
qed

theorem fol_formula_to_clauses_typed_witness:
  "\<exists>cs. fol_formula_to_clauses skolem_example = Some cs \<and> cs = [[Pos (CTR 5 [FVR 1, CTR 0x20000 [FVR 1]])]]
     \<and> (\<forall>c \<in> set cs. clause_ok c)"
proof -
  have run: "fol_formula_to_clauses skolem_example = Some [[Pos (CTR 5 [FVR 1, CTR 0x20000 [FVR 1]])]]" by code_simp
  have "is_formula skolem_example" unfolding skolem_example_def fol_mk_defs
    by (intro is_formula.intros) (simp_all add: fol_is_connective_def fol_lab_defs)
  moreover have "skolem_input (fol_nnf skolem_example)"
  proof -
    have "fol_nnf skolem_example = CTR FOL_LAB_ALL [FVR 1, CTR FOL_LAB_EX [FVR 2, CTR 5 [FVR 1, FVR 2]]]"
      by code_simp
    moreover have "skolem_input (CTR FOL_LAB_ALL [FVR 1, CTR FOL_LAB_EX [FVR 2, CTR 5 [FVR 1, FVR 2]]])"
      unfolding skolem_input_def
      by (intro conjI is_nnf.intros)
        (simp_all add: REWRITE_MAX_ARITY_def FOL_LAB_SKOLEM_BASE_def fol_lab_defs fol_is_connective_def)
    ultimately show ?thesis by simp
  qed
  ultimately show ?thesis using fol_formula_to_clauses_typed [of skolem_example] run by auto
qed

end
