(* ===== verification/FOL_Tseitin.thy ===== *)
theory FOL_Tseitin
  imports FOL_CNF
begin

text \<open>
  The structural conversion (src/fol/cnf.c, Tseitin part): every conjunction and disjunction of
  a quantifier-free formula gets a fresh atom over its variables and three clauses that define
  it. The counter of the fresh labels is a global, threaded here; the clause array is a list.
\<close>

definition FOL_LAB_TSEITIN_BASE :: u32 where "FOL_LAB_TSEITIN_BASE = 0x10000"
definition FOL_TSEITIN_MAX_VARS :: nat where "FOL_TSEITIN_MAX_VARS = 128"

definition fol_reset_tseitin :: u32 where "fol_reset_tseitin = 0"

definition fol_is_tseitin_aux :: "u32 \<Rightarrow> bool" where
  "fol_is_tseitin_aux label \<longleftrightarrow> FOL_LAB_TSEITIN_BASE \<le> label \<and> label < FOL_LAB_SKOLEM_BASE"

text \<open>The distinct variables in order of first occurrence, at most cap of them.\<close>

fun fol_collect_vars :: "trm \<Rightarrow> nat \<Rightarrow> ext list \<Rightarrow> ext list" where
  "fol_collect_vars (FVR x) cap vars =
     (if x \<in> set vars then vars else if length vars < cap then vars @ [x] else vars)"
| "fol_collect_vars (CTR l ts) cap vars = fold (\<lambda>t vs. fol_collect_vars t cap vs) ts vars"
| "fol_collect_vars (ATM g e w) cap vars = vars"

definition fol_fresh_aux :: "ext list \<Rightarrow> u32 \<Rightarrow> trm \<times> u32" where
  "fol_fresh_aux vars next =
     (let label = ucast (FOL_LAB_TSEITIN_BASE + next)
      in (CTR label (map FVR (take FOL_TSEITIN_MAX_VARS vars)), next + 1))"

definition fol_tseitin_emit :: "fol_clause list \<Rightarrow> fol_lit list \<Rightarrow> fol_clause list" where
  "fol_tseitin_emit out lits =
     (case fol_fill (fol_clause_new (length lits)) lits of None \<Rightarrow> out | Some c \<Rightarrow> out @ [c])"

definition lit_flip :: "fol_lit \<Rightarrow> fol_lit" where
  "lit_flip l = \<lparr>lit_atom = lit_atom l, lit_sign = lit_sign l XOR 1\<rparr>"

function (sequential) fol_tseitin_rec :: "trm \<Rightarrow> fol_clause list \<times> u32 \<Rightarrow> fol_lit \<times> fol_clause list \<times> u32" where
  "fol_tseitin_rec (CTR lab ts) (out, next) =
     (if lab = FOL_LAB_NOT then (Neg (term_ctr_at (CTR lab ts) 0), out, next)
      else if \<not> fol_is_connective lab then (Pos (CTR lab ts), out, next)
      else let (name_b, st1) = fol_tseitin_rec (term_ctr_at (CTR lab ts) 0) (out, next);
               (name_c, out2, next2) = fol_tseitin_rec (term_ctr_at (CTR lab ts) 1) st1;
               vars = fol_collect_vars (CTR lab ts) FOL_TSEITIN_MAX_VARS [];
               (aux, next3) = fol_fresh_aux vars next2
           in if lab = FOL_LAB_AND
              then (Pos aux,
                    fol_tseitin_emit (fol_tseitin_emit (fol_tseitin_emit out2
                      [Neg aux, name_b]) [Neg aux, name_c]) [lit_flip name_b, lit_flip name_c, Pos aux],
                    next3)
              else (Pos aux,
                    fol_tseitin_emit (fol_tseitin_emit (fol_tseitin_emit out2
                      [Neg aux, name_b, name_c]) [lit_flip name_b, Pos aux]) [lit_flip name_c, Pos aux],
                    next3))"
| "fol_tseitin_rec f (out, next) = (Pos f, out, next)"
  by pat_completeness auto
termination by (relation "measure (ctr_count \<circ> fst)") (auto simp del: ctr_count.simps term_ctr_at.simps)

definition fol_tseitin_extract_clauses :: "trm \<Rightarrow> fol_clause list" where
  "fol_tseitin_extract_clauses f =
     (let (root, out, next) = fol_tseitin_rec f ([], fol_reset_tseitin) in fol_tseitin_emit out [root])"

definition fol_formula_to_clauses_tseitin :: "trm \<Rightarrow> fol_clause list option" where
  "fol_formula_to_clauses_tseitin f =
     (case fol_skolemize (fol_nnf f) fol_reset_skolem of
        None \<Rightarrow> None | Some (sk, next) \<Rightarrow> Some (fol_tseitin_extract_clauses sk))"

declare fol_tseitin_rec.simps(1) [simp del]


section \<open>One pass\<close>

text \<open>The literal and the clauses a quantifier-free formula yields; the array only grows.\<close>

definition ts_name :: "trm \<Rightarrow> u32 \<Rightarrow> fol_lit" where
  "ts_name f n = fst (fol_tseitin_rec f ([], n))"

definition ts_new :: "trm \<Rightarrow> u32 \<Rightarrow> fol_clause list" where
  "ts_new f n = fst (snd (fol_tseitin_rec f ([], n)))"

definition ts_aux :: "trm \<Rightarrow> u32 \<Rightarrow> trm" where
  "ts_aux f n = fst (fol_fresh_aux (fol_collect_vars f FOL_TSEITIN_MAX_VARS []) n)"

definition ts_defs :: "ext \<Rightarrow> trm \<Rightarrow> fol_lit \<Rightarrow> fol_lit \<Rightarrow> fol_clause list" where
  "ts_defs l aux b c =
     (if l = FOL_LAB_AND then [[Neg aux, b], [Neg aux, c], [lit_flip b, lit_flip c, Pos aux]]
      else [[Neg aux, b, c], [lit_flip b, Pos aux], [lit_flip c, Pos aux]])"

lemma tseitin_emit [simp]: "length lits \<le> FOL_MAX_LITS \<Longrightarrow> fol_tseitin_emit out lits = out @ [lits]"
  by (simp add: fol_tseitin_emit_def)

lemma fresh_aux_snd [simp]: "snd (fol_fresh_aux vs n) = n + 1"
  by (simp add: fol_fresh_aux_def Let_def)

lemma tseitin_two:
  assumes "l \<in> {FOL_LAB_AND, FOL_LAB_OR}" and "fol_tseitin_rec p (out, n) = (b, out1, n1)"
    and "fol_tseitin_rec q (out1, n1) = (c, out2, n2)"
  shows "fol_tseitin_rec (CTR l [p, q]) (out, n) =
    (Pos (ts_aux (CTR l [p, q]) n2), out2 @ ts_defs l (ts_aux (CTR l [p, q]) n2) b c, n2 + 1)"
proof -
  have conn: "fol_is_connective l" "l \<noteq> FOL_LAB_NOT" using assms(1) by auto
  obtain a where a: "fol_fresh_aux (fol_collect_vars (CTR l [p, q]) FOL_TSEITIN_MAX_VARS []) n2 = (a, n2 + 1)"
    by (metis fresh_aux_snd prod.collapse)
  then have "ts_aux (CTR l [p, q]) n2 = a" by (simp add: ts_aux_def)
  then show ?thesis
    unfolding fol_tseitin_rec.simps(1) [of l] Let_def using conn assms(2,3) a
    by (simp add: ts_defs_def FOL_MAX_LITS_def del: fol_collect_vars.simps)
qed

lemma tseitin_lit:
  assumes "is_lit a"
  shows "fol_tseitin_rec a (out, n) = (if \<exists>b. a = CTR FOL_LAB_NOT [b] then Neg (term_ctr_at a 0) else Pos a, out, n)"
  using assms by (rule lit_cases) (cases a; auto simp: fol_tseitin_rec.simps(1) is_connective_iff)+

lemma ts_acc: "is_qf f \<Longrightarrow> fol_tseitin_rec f (out, n) = (ts_name f n, out @ ts_new f n, n + of_nat (fnodes f))"
proof (induction f arbitrary: out n rule: is_qf.induct)
  case (qf_lit a)
  then show ?case by (simp add: ts_name_def ts_new_def tseitin_lit)
next
  case (qf_two l p q)
  note run = tseitin_two [OF qf_two(1) qf_two.IH(1) qf_two.IH(2)]
  have "fnodes (CTR l [p, q]) = Suc (fnodes p + fnodes q)" using qf_two(1) by simp
  then show ?case
    unfolding ts_name_def [of "CTR l [p, q]"] ts_new_def [of "CTR l [p, q]"] run by (simp add: algebra_simps)
qed

lemma ts_lit:
  assumes "is_lit a"
  shows "ts_name a n = (if \<exists>b. a = CTR FOL_LAB_NOT [b] then Neg (term_ctr_at a 0) else Pos a)" "ts_new a n = []"
  by (simp_all add: ts_name_def ts_new_def tseitin_lit [OF assms])

lemma ts_two:
  fixes n :: u32
  assumes "l \<in> {FOL_LAB_AND, FOL_LAB_OR}" and "is_qf p" and "is_qf q"
  defines "n1 \<equiv> n + of_nat (fnodes p)" and "n2 \<equiv> n + of_nat (fnodes p) + of_nat (fnodes q)"
  shows "ts_name (CTR l [p, q]) n = Pos (ts_aux (CTR l [p, q]) n2)"
    and "ts_new (CTR l [p, q]) n = ts_new p n @ ts_new q n1
      @ ts_defs l (ts_aux (CTR l [p, q]) n2) (ts_name p n) (ts_name q n1)"
  using tseitin_two [OF assms(1) ts_acc [OF assms(2)] ts_acc [OF assms(3)]]
  by (simp_all add: ts_name_def [of "CTR l [p, q]"] ts_new_def [of "CTR l [p, q]"] n1_def n2_def)

lemma ts_sign: "is_qf f \<Longrightarrow> lit_sign (ts_name f n) \<in> {0, 1}"
  by (induction rule: is_qf.induct) (auto simp: ts_lit ts_two)

lemma lit_flip_holds: "lit_sign l \<in> {0, 1} \<Longrightarrow> lit_holds I v (lit_flip l) \<longleftrightarrow> \<not> lit_holds I v l"
  by (auto simp: lit_holds_def lit_flip_def)

text \<open>The three clauses say that the fresh atom and the operation agree.\<close>

lemma ts_defs_holds:
  assumes "lit_sign b \<in> {0, 1}" and "lit_sign c \<in> {0, 1}"
  shows "(\<forall>d \<in> set (ts_defs l aux b c). clause_holds I v d) \<longleftrightarrow>
    (lit_holds I v (Pos aux) \<longleftrightarrow> (if l = FOL_LAB_AND then lit_holds I v b \<and> lit_holds I v c
       else lit_holds I v b \<or> lit_holds I v c))"
proof -
  have "lit_holds I v (Neg aux) \<longleftrightarrow> \<not> lit_holds I v (Pos aux)" by (simp add: lit_holds_def)
  moreover have two: "clause_holds I v [x, y] \<longleftrightarrow> lit_holds I v x \<or> lit_holds I v y" for x y
    by (simp add: clause_holds_def)
  moreover have three: "clause_holds I v [x, y, z] \<longleftrightarrow> lit_holds I v x \<or> lit_holds I v y \<or> lit_holds I v z" for x y z
    by (simp add: clause_holds_def)
  note flip = lit_flip_holds [OF assms(1), of I v] lit_flip_holds [OF assms(2), of I v]
  have ball: "(\<forall>d \<in> set [x, y, z]. P d) \<longleftrightarrow> P x \<and> P y \<and> P z" for x y z and P :: "fol_clause \<Rightarrow> bool"
    by simp
  have or: "((\<not> A \<or> B \<or> C) \<and> (\<not> B \<or> A) \<and> (\<not> C \<or> A)) = (A = (B \<or> C))" for A B C :: bool by blast
  show ?thesis
  proof (cases "l = FOL_LAB_AND")
    case True
    then have "ts_defs l aux b c = [[Neg aux, b], [Neg aux, c], [lit_flip b, lit_flip c, Pos aux]]"
      by (simp add: ts_defs_def)
    with True show ?thesis
      by (simp only: ball two three flip calculation(1) if_True refl) argo
  next
    case False
    then have "ts_defs l aux b c = [[Neg aux, b, c], [lit_flip b, Pos aux], [lit_flip c, Pos aux]]"
      by (simp add: ts_defs_def)
    with False show ?thesis
      by (simp only: ball two three flip calculation(1) if_False or)
  qed
qed

lemma lit_holds_name: "is_lit a \<Longrightarrow> lit_holds I v (ts_name a n) \<longleftrightarrow> fol_holds I v a"
proof -
  assume a: "is_lit a"
  then show ?thesis
  proof (rule lit_cases)
    assume "is_atom a"
    moreover from this have "\<not> (\<exists>b. a = CTR FOL_LAB_NOT [b])" by auto
    ultimately show ?thesis by (simp add: ts_lit [OF a] lit_holds_def holds_atom)
  next
    fix b assume "a = CTR FOL_LAB_NOT [b]" "is_atom b"
    then show ?thesis using ts_lit(1) [OF a, of n] by (simp add: lit_holds_def holds_atom)
  qed
qed

text \<open>Where the clauses hold, the literal has the truth value of the formula it names.\<close>

lemma ts_name_holds:
  assumes "is_qf f" and "\<forall>c \<in> set (ts_new f n). clause_holds I v c"
  shows "lit_holds I v (ts_name f n) \<longleftrightarrow> fol_holds I v f"
  using assms
proof (induction f arbitrary: n rule: is_qf.induct)
  case (qf_lit a)
  then show ?case by (simp add: lit_holds_name)
next
  case (qf_two l p q)
  note t = ts_two [OF qf_two(1-3), of n]
  let ?n1 = "n + of_nat (fnodes p)"
  have pq: "lit_holds I v (ts_name p n) = fol_holds I v p" "lit_holds I v (ts_name q ?n1) = fol_holds I v q"
    using qf_two.IH qf_two.prems unfolding t(2) by auto
  let ?aux = "ts_aux (CTR l [p, q]) (n + of_nat (fnodes p) + of_nat (fnodes q))"
  have "\<forall>d \<in> set (ts_defs l ?aux (ts_name p n) (ts_name q ?n1)). clause_holds I v d"
    using qf_two.prems unfolding t(2) by auto
  then have "lit_holds I v (Pos ?aux) \<longleftrightarrow> (if l = FOL_LAB_AND then fol_holds I v p \<and> fol_holds I v q
      else fol_holds I v p \<or> fol_holds I v q)"
    by (simp only: ts_defs_holds [OF ts_sign [OF qf_two(2)] ts_sign [OF qf_two(3)]] pq)
  then show ?case using qf_two(1) unfolding t(1) by auto
qed

lemma tseitin_clauses_eq:
  "is_qf f \<Longrightarrow> fol_tseitin_extract_clauses f = ts_new f 0 @ [[ts_name f 0]]"
  by (simp add: fol_tseitin_extract_clauses_def ts_acc fol_reset_tseitin_def FOL_MAX_LITS_def)

lemma tseitin_implies:
  assumes "is_qf f" and "\<forall>c \<in> set (fol_tseitin_extract_clauses f). clause_holds I v c"
  shows "fol_holds I v f"
  using ts_name_holds [OF assms(1), of 0 I v] assms(2)
  by (auto simp: tseitin_clauses_eq [OF assms(1)] clause_holds_def)

text \<open>the structural conversion is linear. For a quantifier-free formula with n conjunctions
  and disjunctions it returns 3 n + 1 clauses of at most three literals.\<close>
theorem tseitin_linear:
  assumes "is_qf f"
  shows "length (fol_tseitin_extract_clauses f) = 3 * fnodes f + 1
    \<and> (\<forall>c \<in> set (fol_tseitin_extract_clauses f). length c \<le> 3)"
proof -
  have "length (ts_new f n) = 3 * fnodes f \<and> (\<forall>c \<in> set (ts_new f n). length c \<le> 3)" for n
    using assms
  proof (induction f arbitrary: n rule: is_qf.induct)
    case (qf_two l p q)
    then have "fnodes (CTR l [p, q]) = Suc (fnodes p + fnodes q)" by simp
    then show ?case using qf_two.IH unfolding ts_two(2) [OF qf_two(1-3), of n] by (auto simp: ts_defs_def)
  qed (simp add: ts_lit)
  then show ?thesis by (auto simp: tseitin_clauses_eq [OF assms])
qed

theorem tseitin_linear_witness:
  "length (fol_tseitin_extract_clauses dist_example) = 10"
proof -
  have "is_qf dist_example" unfolding dist_example_def fol_mk_defs
    by (intro is_qf.intros) (simp_all add: fol_is_connective_def fol_lab_defs)
  from tseitin_linear [OF this] show ?thesis by (simp add: dist_example_def fol_mk_defs)
qed


section \<open>Models of the formula become models of the clauses\<close>

lemma collect_vars:
  "distinct vs \<Longrightarrow> card (set vs \<union> tvars t) \<le> cap \<Longrightarrow>
     set (fol_collect_vars t cap vs) = set vs \<union> tvars t \<and> distinct (fol_collect_vars t cap vs)"
proof (induction t arbitrary: vs)
  case (FVR x)
  then show ?case by (auto simp: distinct_card insert_absorb)
next
  case (CTR l ts)
  have "set us \<subseteq> set ts \<Longrightarrow> distinct vs \<Longrightarrow> card (set vs \<union> (\<Union>t \<in> set us. tvars t)) \<le> cap \<Longrightarrow>
      set (fold (\<lambda>t vs. fol_collect_vars t cap vs) us vs) = set vs \<union> (\<Union>t \<in> set us. tvars t)
      \<and> distinct (fold (\<lambda>t vs. fol_collect_vars t cap vs) us vs)" for us vs
  proof (induction us arbitrary: vs)
    case (Cons u us)
    have "card (set vs \<union> tvars u) \<le> card (set vs \<union> (\<Union>t \<in> set (u # us). tvars t))"
      by (intro card_mono) auto
    then have u: "set (fol_collect_vars u cap vs) = set vs \<union> tvars u \<and> distinct (fol_collect_vars u cap vs)"
      using CTR.IH [of u vs] Cons.prems by auto
    then show ?case
      using Cons.IH [of "fol_collect_vars u cap vs"] Cons.prems by (simp add: Un_assoc)
  qed simp
  from this [of ts vs] CTR.prems show ?case by simp
qed simp

definition ts_labs :: "nat \<Rightarrow> nat \<Rightarrow> ext set" where
  "ts_labs a b = {l. 0x10000 + a \<le> unat l \<and> unat l < 0x10000 + b}"

lemma ts_labs_disjoint: "b \<le> c \<Longrightarrow> ts_labs a b \<inter> ts_labs c d = {}"
  by (auto simp: ts_labs_def)

lemma ts_labs_mono: "a' \<le> a \<Longrightarrow> b \<le> b' \<Longrightarrow> ts_labs a b \<subseteq> ts_labs a' b'"
  by (auto simp: ts_labs_def)

lemma ts_label: "unat n < 2 ^ 16 \<Longrightarrow> unat (ucast (FOL_LAB_TSEITIN_BASE + n) :: ext) = 0x10000 + unat n"
proof -
  assume n: "unat n < 2 ^ 16"
  have "unat (FOL_LAB_TSEITIN_BASE + n) = 0x10000 + unat n"
    unfolding FOL_LAB_TSEITIN_BASE_def by (subst unat_add_lem [THEN iffD1]) (use n in simp_all)
  then show ?thesis using n by (simp add: unsigned_ucast_eq unsigned_take_bit_eq take_bit_nat_eq_self)
qed

text \<open>The fresh atom of a formula: its label and its arguments, the variables of the formula.\<close>

lemma ts_aux_eq:
  assumes "card (tvars f) \<le> FOL_TSEITIN_MAX_VARS"
  obtains vs where "ts_aux f n = CTR (ucast (FOL_LAB_TSEITIN_BASE + n)) (map FVR vs)" and "set vs = tvars f"
    and "length vs = card (tvars f)"
proof -
  let ?vs = "fol_collect_vars f FOL_TSEITIN_MAX_VARS []"
  have v: "set ?vs = tvars f" "distinct ?vs" using collect_vars [of "[]" f FOL_TSEITIN_MAX_VARS] assms by auto
  then have len: "length ?vs = card (tvars f)" using distinct_card by metis
  have "ts_aux f n = CTR (ucast (FOL_LAB_TSEITIN_BASE + n)) (map FVR ?vs)"
    using assms len by (simp add: ts_aux_def fol_fresh_aux_def Let_def)
  then show ?thesis using that v len by blast
qed

definition clabs :: "fol_clause \<Rightarrow> ext set" where
  "clabs c = (\<Union>l \<in> set c. labs (lit_atom l))"

lemma lit_holds_same_off:
  "same_off L I J \<Longrightarrow> labs (lit_atom l) \<inter> L = {} \<Longrightarrow> lit_holds J v l \<longleftrightarrow> lit_holds I v l"
  using teval_same_off [of L I J "lit_atom l" v] by (simp add: lit_holds_def same_off_def)

lemma clause_holds_same_off:
  "same_off L I J \<Longrightarrow> clabs c \<inter> L = {} \<Longrightarrow> clause_holds J v c \<longleftrightarrow> clause_holds I v c"
proof -
  assume "same_off L I J" "clabs c \<inter> L = {}"
  then have "lit_holds J v l = lit_holds I v l" if "l \<in> set c" for l
    using that by (intro lit_holds_same_off) (auto simp: clabs_def)
  then show ?thesis by (auto simp: clause_holds_def)
qed

text \<open>The bounds under which no fresh label meets another one.\<close>

definition ts_pre :: "trm \<Rightarrow> u32 \<Rightarrow> bool" where
  "ts_pre f n \<longleftrightarrow> is_qf f \<and> labs f \<inter> ts_labs 0 0x10000 = {} \<and> card (tvars f) \<le> REWRITE_MAX_ARITY
     \<and> unat n + fnodes f \<le> 0x10000"

lemma ts_pre_two:
  assumes pre: "ts_pre (CTR l [p, q]) n" and l: "l \<in> {FOL_LAB_AND, FOL_LAB_OR}" and q: "is_qf p" "is_qf q"
  defines "n1 \<equiv> n + of_nat (fnodes p)" and "n2 \<equiv> n + of_nat (fnodes p) + of_nat (fnodes q)"
  shows "ts_pre p n" and "ts_pre q n1" and "unat n1 = unat n + fnodes p"
    and "unat n2 = unat n + fnodes p + fnodes q" and "unat n2 < 2 ^ 16"
    and "card (tvars (CTR l [p, q])) \<le> REWRITE_MAX_ARITY"
proof -
  have s: "unat n + Suc (fnodes p + fnodes q) \<le> 0x10000" using pre l by (auto simp: ts_pre_def)
  have un: "unat (n + of_nat k) = unat n + k" if "unat n + k \<le> 0x10000" for k
    using that by (simp add: unat_word_ariths(1) unat_of_nat)
  show n1: "unat n1 = unat n + fnodes p" unfolding n1_def using s by (intro un) simp
  have "n2 = n + of_nat (fnodes p + fnodes q)" by (simp add: n2_def)
  then show n2: "unat n2 = unat n + fnodes p + fnodes q" using un [of "fnodes p + fnodes q"] s by simp
  show "unat n2 < 2 ^ 16" using n2 s by simp
  show c: "card (tvars (CTR l [p, q])) \<le> REWRITE_MAX_ARITY" using pre by (simp add: ts_pre_def)
  have "card (tvars p) \<le> card (tvars (CTR l [p, q]))" "card (tvars q) \<le> card (tvars (CTR l [p, q]))"
    by (intro card_mono; auto)+
  then show "ts_pre p n" "ts_pre q n1" using pre q c n1 s by (auto simp: ts_pre_def)
qed

lemma ts_max_vars: "k \<le> REWRITE_MAX_ARITY \<Longrightarrow> k \<le> FOL_TSEITIN_MAX_VARS"
  by (simp add: REWRITE_MAX_ARITY_def FOL_TSEITIN_MAX_VARS_def)

lemma union_bound: "A \<subseteq> U \<Longrightarrow> M \<union> P \<subseteq> U \<Longrightarrow> N \<union> Q \<subseteq> U \<Longrightarrow> D \<subseteq> A \<union> M \<union> N \<Longrightarrow> A \<union> (P \<union> (Q \<union> D)) \<subseteq> U"
  by blast

lemma ts_labels:
  assumes "is_qf f" and "ts_pre f n"
  shows "labs (lit_atom (ts_name f n)) \<union> (\<Union>c \<in> set (ts_new f n). clabs c)
    \<subseteq> labs f \<union> ts_labs (unat n) (unat n + fnodes f)"
  using assms
proof (induction f arbitrary: n rule: is_qf.induct)
  case (qf_lit a)
  then show ?case by (auto elim!: lit_cases simp: ts_lit)
next
  case (qf_two l p q)
  let ?n1 = "n + of_nat (fnodes p)" and ?n2 = "n + of_nat (fnodes p) + of_nat (fnodes q)"
  note t = ts_two [OF qf_two(1-3), of n] and b = ts_pre_two [OF qf_two.prems qf_two(1-3)]
  obtain vs where a: "ts_aux (CTR l [p, q]) ?n2 = CTR (ucast (FOL_LAB_TSEITIN_BASE + ?n2)) (map FVR vs)"
    using ts_aux_eq [OF ts_max_vars [OF b(6)]] by metis
  have fn: "fnodes (CTR l [p, q]) = Suc (fnodes p + fnodes q)" using qf_two(1) by simp
  have aux: "labs (ts_aux (CTR l [p, q]) ?n2) \<subseteq> ts_labs (unat n) (unat n + fnodes (CTR l [p, q]))"
    using ts_label [OF b(5)] b(4) fn by (auto simp: a ts_labs_def)
  have sub: "ts_labs (unat n) (unat n + fnodes p) \<subseteq> ts_labs (unat n) (unat n + fnodes (CTR l [p, q]))"
      "ts_labs (unat ?n1) (unat ?n1 + fnodes q) \<subseteq> ts_labs (unat n) (unat n + fnodes (CTR l [p, q]))"
    unfolding fn b(3) by (auto simp: ts_labs_def)
  have "labs p \<subseteq> labs (CTR l [p, q])" "labs q \<subseteq> labs (CTR l [p, q])" by auto
  note widen = Un_mono [OF this(1) sub(1)] Un_mono [OF this(2) sub(2)]
  have pq: "labs (lit_atom (ts_name p n)) \<union> (\<Union>c \<in> set (ts_new p n). clabs c)
        \<subseteq> labs (CTR l [p, q]) \<union> ts_labs (unat n) (unat n + fnodes (CTR l [p, q]))"
      "labs (lit_atom (ts_name q ?n1)) \<union> (\<Union>c \<in> set (ts_new q ?n1). clabs c)
        \<subseteq> labs (CTR l [p, q]) \<union> ts_labs (unat n) (unat n + fnodes (CTR l [p, q]))"
    using qf_two.IH(1) [OF b(1)] qf_two.IH(2) [OF b(2)] widen by (meson subset_trans)+
  have "(\<Union>c \<in> set (ts_defs l aux x y). clabs c) \<subseteq> labs aux \<union> labs (lit_atom x) \<union> labs (lit_atom y)" for aux x y
    by (auto simp: ts_defs_def clabs_def lit_flip_def split: if_splits)
  note defs = this [of "ts_aux (CTR l [p, q]) ?n2" "ts_name p n" "ts_name q ?n1"]
  show ?case unfolding t set_append UN_Un fol_lit.select_convs
    by (rule union_bound [OF le_supI2 [OF aux] pq defs])
qed


definition two_valued :: "'d interp \<Rightarrow> bool" where
  "two_valued I \<longleftrightarrow> (\<exists>d. itru I d) \<and> (\<exists>d. \<not> itru I d)"

lemma ts_extends:
  fixes I :: "'d interp"
  assumes "is_qf f" and "ts_pre f n" and "two_valued I"
  shows "\<exists>J. same_off (ts_labs (unat n) (unat n + fnodes f)) I J \<and> (\<forall>v. \<forall>c \<in> set (ts_new f n). clause_holds J v c)"
  using assms
proof (induction f arbitrary: n I rule: is_qf.induct)
  case (qf_lit a)
  then show ?case by (auto simp: ts_lit intro: exI [of _ I])
next
  case (qf_two l p q)
  let ?f = "CTR l [p, q]"
  let ?n1 = "n + of_nat (fnodes p)" and ?n2 = "n + of_nat (fnodes p) + of_nat (fnodes q)"
  let ?a = "unat n" and ?b = "unat n + fnodes p" and ?c = "unat n + fnodes p + fnodes q"
  note t = ts_two [OF qf_two(1-3), of n] and b = ts_pre_two [OF qf_two.prems(1) qf_two(1-3)]
  obtain J1 where J1: "same_off (ts_labs ?a ?b) I J1" "\<And>v c. c \<in> set (ts_new p n) \<Longrightarrow> clause_holds J1 v c"
    using qf_two.IH(1) [OF b(1) qf_two.prems(2)] by blast
  have "two_valued J1" using qf_two.prems(2) J1(1) by (simp add: two_valued_def same_off_def)
  from qf_two.IH(2) [OF b(2) this] obtain J2 where J2: "same_off (ts_labs ?b ?c) J1 J2"
      "\<And>v c. c \<in> set (ts_new q ?n1) \<Longrightarrow> clause_holds J2 v c"
    unfolding b(3) by auto
  obtain vs where aux: "ts_aux ?f ?n2 = CTR (ucast (FOL_LAB_TSEITIN_BASE + ?n2)) (map FVR vs)" "set vs = tvars ?f"
    using ts_aux_eq [OF ts_max_vars [OF b(6)]] by metis
  define lab :: ext where "lab = ucast (FOL_LAB_TSEITIN_BASE + ?n2)"
  have lab: "lab \<in> ts_labs ?c (Suc ?c)" using ts_label [OF b(5)] b(4) by (simp add: lab_def ts_labs_def)
  obtain d1 d0 where d: "itru J2 d1" "\<not> itru J2 d0"
    using qf_two.prems(2) J1(1) J2(1) by (auto simp: two_valued_def same_off_def)
  define g where "g ds = (if \<exists>w. map w vs = ds \<and> fol_holds J2 w ?f then d1 else d0)" for ds
  define J3 where "J3 = J2\<lparr>ifun := (ifun J2)(lab := g)\<rparr>"
  have J3: "same_off {lab} J2 J3" by (simp add: same_off_def J3_def)
  have qf: "is_qf ?f" using qf_two by (auto intro: is_qf.qf_two)
  have fn: "fnodes ?f = Suc (fnodes p + fnodes q)" using qf_two(1) by simp
  have off: "labs ?f \<inter> ts_labs x y = {}" if "y \<le> Suc ?c" for x y
  proof -
    have "ts_labs x y \<subseteq> ts_labs 0 0x10000" using that b(4,5) by (intro ts_labs_mono) auto
    then show ?thesis using qf_two.prems(1) by (auto simp: ts_pre_def)
  qed
  have val: "fol_holds J2 w ?f = fol_holds J2 v ?f" if "map w vs = map v vs" for w v
    by (rule holds_qf_vars [OF qf]) (use that aux(2) in auto)
  have "itru J2 (g (map v vs)) \<longleftrightarrow> fol_holds J2 v ?f" for v
  proof (cases "fol_holds J2 v ?f")
    case True
    then have "g (map v vs) = d1" unfolding g_def by (intro if_P exI [of _ v] conjI refl)
    then show ?thesis using d True by simp
  next
    case False
    then have "g (map v vs) = d0" unfolding g_def using val by (intro if_not_P) blast
    then show ?thesis using d False by simp
  qed
  moreover have "teval J3 v (ts_aux ?f ?n2) = g (map v vs)" for v
    by (simp add: aux(1) J3_def lab_def comp_def)
  moreover have "fol_holds J3 v ?f = fol_holds J2 v ?f" for v
    by (rule holds_same_off [OF qf_is_nnf [OF qf] J3]) (use off [of "Suc ?c" ?c] lab in auto)
  ultimately have name: "lit_holds J3 v (Pos (ts_aux ?f ?n2)) \<longleftrightarrow> fol_holds J3 v ?f" for v
    by (simp add: lit_holds_def J3_def)
  have p3: "clause_holds J3 v c" if c: "c \<in> set (ts_new p n)" for c v
  proof -
    have cl: "clabs c \<subseteq> labs p \<union> ts_labs ?a ?b" using ts_labels [OF qf_two(2) b(1)] c by auto
    have "clabs c \<inter> ts_labs ?b ?c = {}" "clabs c \<inter> {lab} = {}"
      using cl off [of ?c ?b] off [of "Suc ?c" ?c] lab by (auto simp: ts_labs_def)
    then show ?thesis using J1(2) [OF c] clause_holds_same_off [OF J2(1)] clause_holds_same_off [OF J3] by blast
  qed
  have q3: "clause_holds J3 v c" if c: "c \<in> set (ts_new q ?n1)" for c v
  proof -
    have "clabs c \<subseteq> labs q \<union> ts_labs ?b ?c" using ts_labels [OF qf_two(3) b(2)] c unfolding b(3) by auto
    then have "clabs c \<inter> {lab} = {}" using off [of "Suc ?c" ?c] lab by (auto simp: ts_labs_def)
    then show ?thesis using J2(2) [OF c] clause_holds_same_off [OF J3] by blast
  qed
  have "clause_holds J3 v c" if "c \<in> set (ts_defs l (ts_aux ?f ?n2) (ts_name p n) (ts_name q ?n1))" for c v
  proof -
    have "lit_holds J3 v (ts_name p n) = fol_holds J3 v p" "lit_holds J3 v (ts_name q ?n1) = fol_holds J3 v q"
      using ts_name_holds [OF qf_two(2)] ts_name_holds [OF qf_two(3)] p3 q3 by blast+
    then have "lit_holds J3 v (Pos (ts_aux ?f ?n2)) \<longleftrightarrow> (if l = FOL_LAB_AND
        then lit_holds J3 v (ts_name p n) \<and> lit_holds J3 v (ts_name q ?n1)
        else lit_holds J3 v (ts_name p n) \<or> lit_holds J3 v (ts_name q ?n1))"
      using name [of v] qf_two(1) by auto
    then show ?thesis
      using ts_defs_holds [OF ts_sign [OF qf_two(2)] ts_sign [OF qf_two(3)], where I = J3 and v = v] that by blast
  qed
  then have "\<forall>v. \<forall>c \<in> set (ts_new ?f n). clause_holds J3 v c" unfolding t using p3 q3 by auto
  moreover have "ts_labs ?a ?b \<union> ts_labs ?b ?c \<union> {lab} \<subseteq> ts_labs (unat n) (unat n + fnodes ?f)"
    using lab unfolding fn by (auto simp: ts_labs_def)
  then have "same_off (ts_labs (unat n) (unat n + fnodes ?f)) I J3"
    using same_off_trans [OF same_off_trans [OF J1(1) J2(1) order_refl] J3] by blast
  ultimately show ?case by blast
qed


lemma ts_clause_ok:
  assumes "is_qf f" and "ts_pre f n" and "ar_ok f"
  shows "lit_ok (ts_name f n) \<and> (\<forall>c \<in> set (ts_new f n). clause_ok c)"
  using assms
proof (induction f arbitrary: n rule: is_qf.induct)
  case (qf_lit a)
  then show ?case by (auto elim!: lit_cases simp: ts_lit lit_ok_def)
next
  case (qf_two l p q)
  note t = ts_two [OF qf_two(1-3), of n] and b = ts_pre_two [OF qf_two.prems(1) qf_two(1-3)]
  obtain vs where a: "ts_aux (CTR l [p, q]) (n + of_nat (fnodes p) + of_nat (fnodes q))
        = CTR (ucast (FOL_LAB_TSEITIN_BASE + (n + of_nat (fnodes p) + of_nat (fnodes q)))) (map FVR vs)"
      "length vs = card (tvars (CTR l [p, q]))"
    using ts_aux_eq [OF ts_max_vars [OF b(6)]] by metis
  then have ar: "ar_ok (ts_aux (CTR l [p, q]) (n + of_nat (fnodes p) + of_nat (fnodes q)))"
    using b(6) by (simp add: list_all_iff)
  have flip: "lit_ok (lit_flip x)" if "lit_ok x" for x using that by (auto simp: lit_ok_def lit_flip_def)
  have defs: "clause_ok c" if "c \<in> set (ts_defs l x y z)" "ar_ok x" "lit_ok y" "lit_ok z" for c x y z
    using that flip [of y] flip [of z] by (auto simp: ts_defs_def clause_ok_def lit_ok_def split: if_splits)
  show ?case
    using qf_two.IH(1) [OF b(1)] qf_two.IH(2) [OF b(2)] qf_two.prems(2) ar defs unfolding t
    by (auto simp: lit_ok_def)
qed

text \<open>
  What the structural conversion asks of its formula: the labels from 0x10000 up to the Skolem base
  are unused, at most 16 variables, at most 2^16 connectives.
\<close>

definition aux_labs :: "ext set" where
  "aux_labs = {l. fol_is_tseitin_aux (ucast l)}"

definition tseitin_input :: "trm \<Rightarrow> bool" where
  "tseitin_input f \<longleftrightarrow> is_qf f \<and> ar_ok f \<and> labs f \<inter> aux_labs = {} \<and> card (tvars f) \<le> REWRITE_MAX_ARITY
     \<and> fnodes f \<le> 2 ^ 16"

lemma aux_labs_eq: "aux_labs = ts_labs 0 0x10000"
proof -
  have "unat (ucast l :: u32) = unat l" for l :: ext
    using unsigned_less [of l, where 'a = nat] by (simp add: unsigned_ucast_eq unsigned_take_bit_eq take_bit_nat_eq_self)
  then show ?thesis
    by (auto simp: aux_labs_def ts_labs_def fol_is_tseitin_aux_def FOL_LAB_TSEITIN_BASE_def
        FOL_LAB_SKOLEM_BASE_def word_le_nat_alt word_less_nat_alt)
qed

lemma tseitin_input_pre: "tseitin_input f \<Longrightarrow> is_qf f \<and> ts_pre f 0"
  by (simp add: tseitin_input_def ts_pre_def aux_labs_eq)

lemma tseitin_input_models:
  fixes I :: "'d interp"
  assumes "tseitin_input f" and "two_valued I"
  shows "(\<forall>c \<in> set (fol_tseitin_extract_clauses f). clause_ok c)
    \<and> ((\<forall>v. fol_holds I v f) \<longrightarrow>
        (\<exists>J. same_off aux_labs I J \<and> (\<forall>c \<in> set (fol_tseitin_extract_clauses f). clause_valid J c)))
    \<and> (\<forall>v. (\<forall>c \<in> set (fol_tseitin_extract_clauses f). clause_holds I v c) \<longrightarrow> fol_holds I v f)"
proof (intro conjI allI impI)
  have qf: "is_qf f" and pre: "ts_pre f 0" and ar: "ar_ok f" and fn: "fnodes f \<le> 2 ^ 16"
    using tseitin_input_pre [OF assms(1)] assms(1) by (auto simp: tseitin_input_def)
  note cls = tseitin_clauses_eq [OF qf]
  show "\<forall>c \<in> set (fol_tseitin_extract_clauses f). clause_ok c"
    unfolding cls using ts_clause_ok [OF qf pre ar] by (auto simp: clause_ok_def)
  show "fol_holds I v f" if "\<forall>c \<in> set (fol_tseitin_extract_clauses f). clause_holds I v c" for v
    using tseitin_implies [OF qf that] .
  assume holds: "\<forall>v. fol_holds I v f"
  obtain J where J: "same_off (ts_labs 0 (fnodes f)) I J" "\<And>v c. c \<in> set (ts_new f 0) \<Longrightarrow> clause_holds J v c"
    using ts_extends [OF qf pre assms(2)] by auto
  have sub: "ts_labs 0 (fnodes f) \<subseteq> aux_labs" unfolding aux_labs_eq using fn by (intro ts_labs_mono) auto
  have "fol_holds J v f" for v
    using holds_same_off [OF qf_is_nnf [OF qf] J(1)] holds sub assms(1) by (fastforce simp: tseitin_input_def)
  then have "lit_holds J v (ts_name f 0)" for v using ts_name_holds [OF qf] J(2) by blast
  then have "\<forall>c \<in> set (fol_tseitin_extract_clauses f). clause_valid J c"
    unfolding cls using J(2) by (auto simp: clause_valid_def clause_holds_def)
  moreover have "same_off aux_labs I J" using J(1) sub by (auto simp: same_off_def)
  ultimately show "\<exists>J. same_off aux_labs I J \<and> (\<forall>c \<in> set (fol_tseitin_extract_clauses f). clause_valid J c)" by blast
qed

text \<open>C29: the clauses are well formed and as good as the formula. A structure that makes every
  instance of the formula true, and has a true and a false element, makes every clause valid once
  the fresh labels are interpreted; and whatever assignment satisfies the clauses in a structure
  satisfies the formula there.\<close>
theorem tseitin_models:
  fixes I :: "'d interp"
  assumes "tseitin_input f" and "two_valued I"
  shows "(\<forall>c \<in> set (fol_tseitin_extract_clauses f). clause_ok c)
    \<and> ((\<forall>v. fol_holds I v f) \<longrightarrow>
        (\<exists>J. same_off aux_labs I J \<and> (\<forall>c \<in> set (fol_tseitin_extract_clauses f). clause_valid J c)))
    \<and> (\<forall>v. (\<forall>c \<in> set (fol_tseitin_extract_clauses f). clause_holds I v c) \<longrightarrow> fol_holds I v f)"
  by (rule tseitin_input_models [OF assms])

definition prop_example :: trm where
  "prop_example = fol_mk_and (CTR 5 [FVR 1]) (fol_mk_not (CTR 6 [FVR 2]))"

definition five_interp :: "bool interp" where
  "five_interp = \<lparr>ifun = \<lambda>l ds. l = 5, iatm = \<lambda>_ _ _. False, itru = id\<rparr>"

theorem tseitin_models_witness:
  "\<exists>J. same_off aux_labs five_interp J \<and> (\<forall>c \<in> set (fol_tseitin_extract_clauses prop_example). clause_valid J c)"
proof -
  have f: "prop_example = CTR FOL_LAB_AND [CTR 5 [FVR 1], CTR FOL_LAB_NOT [CTR 6 [FVR 2]]]"
    by (simp add: prop_example_def fol_mk_defs)
  have "is_qf prop_example" unfolding f
    by (intro is_qf.intros) (simp_all add: fol_is_connective_def fol_lab_defs)
  moreover have "labs prop_example \<inter> aux_labs = {}"
    unfolding f aux_labs_eq by (auto simp: ts_labs_def fol_lab_defs)
  moreover have "tvars prop_example = {1, 2}" unfolding f by auto
  ultimately have "tseitin_input prop_example"
    unfolding tseitin_input_def by (simp add: f REWRITE_MAX_ARITY_def card_insert_if)
  moreover have "two_valued five_interp" by (auto simp: two_valued_def five_interp_def)
  moreover have "\<forall>v. fol_holds five_interp v prop_example"
    unfolding f holds_nodes by (simp add: holds_atom five_interp_def fol_is_connective_def fol_lab_defs)
  ultimately show ?thesis using tseitin_models by blast
qed

end
