(* ===== verification/KBO.thy ===== *)
theory KBO
  imports FTerm
begin

text \<open>
  The Knuth-Bendix ordering (src/kbo/_.c): the naive oracle (kbo_addto, kbo_diff, kbo_rec,
  thvm_kbo_naive) and the production comparator after Loechner (kbo_bump, the per-subtree weight
  and variable profile, kbo_lin_addto, kbo_vortest, kbo_lin_decide_clear, kbo_map_through,
  kbo_lin_rek, thvm_kbo, thvm_kbo_nomemo). Weights are summed in an unbounded integer for the
  long long of the source, of which a term of less than 2^31 nodes uses no more than the range.
  The memo tables are caches keyed by a 64-bit structural hash; what an entry holds is modelled
  (kbo_memo), the caching is not. The worklists are lists with the top first.
\<close>

definition KBO_MAX_VAR :: nat where "KBO_MAX_VAR = 64"
definition KBO_VPROF_CAP :: nat where "KBO_VPROF_CAP = 6"

datatype kbo_cmp = KBO_EQ | KBO_GT | KBO_LT | KBO_UN

record kbo_config =
  kc_weights :: "nat list"
  kc_precedence :: "nat list"
  kc_n_labels :: nat
  kc_var_weight :: nat

definition kbo_weight :: "kbo_config \<Rightarrow> ext \<Rightarrow> nat" where
  "kbo_weight cfg lab = (if unat lab < kc_n_labels cfg then kc_weights cfg ! unat lab else 0)"

definition kbo_prec :: "kbo_config \<Rightarrow> ext \<Rightarrow> nat" where
  "kbo_prec cfg lab = (if unat lab < kc_n_labels cfg then kc_precedence cfg ! unat lab else 0)"

subsection \<open>The naive comparator\<close>

type_synonym balance = "nat \<Rightarrow> int"

fun kbo_addto :: "kbo_config \<Rightarrow> int \<Rightarrow> trm \<Rightarrow> int \<times> balance \<Rightarrow> int \<times> balance" where
  "kbo_addto cfg sg (FVR x) (wb, bal) =
     (wb + sg * int (kc_var_weight cfg),
      if unat x < KBO_MAX_VAR then bal(unat x := bal (unat x) + sg) else bal)"
| "kbo_addto cfg sg (CTR l ts) (wb, bal) =
     fold (kbo_addto cfg sg) ts (wb + sg * int (kbo_weight cfg l), bal)"
| "kbo_addto cfg sg (ATM g e v) (wb, bal) = (wb, bal)"

definition kbo_diverge :: "kbo_config \<Rightarrow> trm \<Rightarrow> trm \<Rightarrow> int \<times> balance \<Rightarrow> int \<times> balance" where
  "kbo_diverge cfg s t acc = kbo_addto cfg (-1) t (kbo_addto cfg 1 s acc)"

fun kbo_diff :: "kbo_config \<Rightarrow> trm \<Rightarrow> trm \<Rightarrow> int \<times> balance \<Rightarrow> bool \<times> int \<times> balance"
  and kbo_diff_args :: "kbo_config \<Rightarrow> trm list \<Rightarrow> trm list \<Rightarrow> bool \<Rightarrow> int \<times> balance \<Rightarrow> bool \<times> int \<times> balance" where
  "kbo_diff cfg (FVR x) (FVR y) acc =
     (if x = y then (True, acc) else (False, kbo_diverge cfg (FVR x) (FVR y) acc))"
| "kbo_diff cfg (CTR f ss) (CTR g ts) acc =
     (if f = g \<and> length ss = length ts then kbo_diff_args cfg ss ts True acc
      else (False, kbo_diverge cfg (CTR f ss) (CTR g ts) acc))"
| "kbo_diff cfg (ATM a e v) (ATM b e' v') acc =
     (if a = b \<and> e = e' \<and> v = v' then (True, acc)
      else (False, kbo_diverge cfg (ATM a e v) (ATM b e' v') acc))"
| "kbo_diff cfg s t acc = (False, kbo_diverge cfg s t acc)"
| "kbo_diff_args cfg (s # ss) (t # ts) ident acc =
     (let (id1, acc1) = kbo_diff cfg s t acc in kbo_diff_args cfg ss ts (ident \<and> id1) acc1)"
| "kbo_diff_args cfg _ _ ident acc = (ident, acc)"

function (sequential) kbo_rec :: "kbo_config \<Rightarrow> trm \<Rightarrow> trm \<Rightarrow> kbo_cmp"
  and kbo_rec_args :: "kbo_config \<Rightarrow> bool \<Rightarrow> bool \<Rightarrow> trm list \<Rightarrow> trm list \<Rightarrow> kbo_cmp" where
  "kbo_rec cfg s t =
     (let (ident, wb, bal) = kbo_diff cfg s t (0, \<lambda>_. 0);
          s_dom = list_all (\<lambda>i. \<not> bal i < 0) [0..<KBO_MAX_VAR];
          t_dom = list_all (\<lambda>i. \<not> bal i > 0) [0..<KBO_MAX_VAR]
      in if ident then KBO_EQ
         else if \<not> s_dom \<and> \<not> t_dom then KBO_UN
         else if wb > 0 then (if s_dom then KBO_GT else KBO_UN)
         else if wb < 0 then (if t_dom then KBO_LT else KBO_UN)
         else (case (s, t) of
                 (CTR f ss, CTR g ts) \<Rightarrow>
                   if kbo_prec cfg f > kbo_prec cfg g then (if s_dom then KBO_GT else KBO_UN)
                   else if kbo_prec cfg f < kbo_prec cfg g then (if t_dom then KBO_LT else KBO_UN)
                   else if length ss \<noteq> length ts then KBO_UN
                   else kbo_rec_args cfg s_dom t_dom ss ts
               | _ \<Rightarrow> KBO_UN))"
| "kbo_rec_args cfg s_dom t_dom (s # ss) (t # ts) =
     (case kbo_rec cfg s t of
        KBO_EQ \<Rightarrow> kbo_rec_args cfg s_dom t_dom ss ts
      | KBO_GT \<Rightarrow> if s_dom then KBO_GT else KBO_UN
      | KBO_LT \<Rightarrow> if t_dom then KBO_LT else KBO_UN
      | KBO_UN \<Rightarrow> KBO_UN)"
| "kbo_rec_args cfg s_dom t_dom _ _ = KBO_EQ"
  by pat_completeness auto
termination
  by (relation "measure (\<lambda>x. case x of Inl (cfg, s, t) \<Rightarrow> 2 * tsize s
      | Inr (cfg, a, b, ss, ts) \<Rightarrow> Suc (2 * sum_list (map tsize ss)))") auto

declare kbo_rec.simps [simp del]

definition thvm_kbo_naive :: "kbo_config \<Rightarrow> trm \<Rightarrow> trm \<Rightarrow> kbo_cmp" where
  "thvm_kbo_naive cfg s t = kbo_rec cfg s t"

subsection \<open>The balance scope\<close>

text \<open>
  The file-static KboLin. A push past the end of touched[64] overwrites the count that follows
  it: kl_ub records that this happened, after which the code has no defined behaviour.
\<close>

record kbo_lin =
  kl_bal :: balance
  kl_touched :: "nat list"
  kl_ub :: bool

definition kbo_bump :: "nat \<Rightarrow> int \<Rightarrow> kbo_lin \<Rightarrow> kbo_lin" where
  "kbo_bump i delta st =
     (if i \<ge> KBO_MAX_VAR then st
      else let prev = kl_bal st i;
               st1 = (if prev = 0
                      then (if length (kl_touched st) < KBO_MAX_VAR
                            then st\<lparr>kl_touched := kl_touched st @ [i]\<rparr>
                            else st\<lparr>kl_ub := True\<rparr>)
                      else st)
           in st1\<lparr>kl_bal := (kl_bal st1)(i := prev + delta)\<rparr>)"

subsection \<open>What a memo entry holds\<close>

definition i16_range :: "int \<Rightarrow> bool" where
  "i16_range n \<longleftrightarrow> - 32768 \<le> n \<and> n \<le> 32767"

text \<open>One (id, count) profile; None is the overflow mark KBO_VPROF_OVF.\<close>

fun vprof_bump :: "(nat \<times> int) list \<Rightarrow> nat \<Rightarrow> int \<Rightarrow> (nat \<times> int) list option" where
  "vprof_bump [] i delta = None"
| "vprof_bump ((j, c) # ps) i delta =
     (if j = i then Some ((j, c + delta) # ps) else map_option ((#) (j, c)) (vprof_bump ps i delta))"

definition kbo_vprof_add :: "(nat \<times> int) list \<Rightarrow> nat \<Rightarrow> int \<Rightarrow> (nat \<times> int) list option" where
  "kbo_vprof_add ps i delta =
     (case map_of ps i of
        Some c \<Rightarrow> if i16_range (c + delta) then vprof_bump ps i delta else None
      | None \<Rightarrow> if length ps \<ge> KBO_VPROF_CAP then None
                else if \<not> i16_range delta then None
                else Some (ps @ [(i, delta)]))"

fun vprof_add_all :: "(nat \<times> int) list \<Rightarrow> (nat \<times> int) list \<Rightarrow> (nat \<times> int) list option" where
  "vprof_add_all ps [] = Some ps"
| "vprof_add_all ps ((i, c) # qs) =
     (case kbo_vprof_add ps i c of None \<Rightarrow> None | Some ps' \<Rightarrow> vprof_add_all ps' qs)"

fun kbo_memo :: "kbo_config \<Rightarrow> trm \<Rightarrow> int \<times> (nat \<times> int) list option" where
  "kbo_memo cfg (CTR l ts) =
     fold (\<lambda>c (w, ps).
       case c of
         FVR x \<Rightarrow> (w + int (kc_var_weight cfg),
                   if unat x < KBO_MAX_VAR then Option.bind ps (\<lambda>ps. kbo_vprof_add ps (unat x) 1) else ps)
       | CTR g us \<Rightarrow> (let (w', qs) = kbo_memo cfg c
                      in (w + w', case qs of None \<Rightarrow> None | Some qs \<Rightarrow> Option.bind ps (\<lambda>ps. vprof_add_all ps qs)))
       | ATM g e v \<Rightarrow> (w, ps))
       ts (int (kbo_weight cfg l), Some [])"
| "kbo_memo cfg _ = (0, Some [])"

subsection \<open>Accumulating a diverging subtree\<close>

function kbo_addvars_walk :: "int \<Rightarrow> trm list \<Rightarrow> kbo_lin \<Rightarrow> kbo_lin" where
  "kbo_addvars_walk sg [] st = st"
| "kbo_addvars_walk sg (FVR x # stack) st = kbo_addvars_walk sg stack (kbo_bump (unat x) sg st)"
| "kbo_addvars_walk sg (CTR l ts # stack) st = kbo_addvars_walk sg (rev ts @ stack) st"
| "kbo_addvars_walk sg (ATM g e v # stack) st = kbo_addvars_walk sg stack st"
  by pat_completeness auto
termination
  by (relation "measure (\<lambda>(sg, stack, st). sum_list (map tsize stack))")
    (auto simp: rev_map [symmetric])

function kbo_lin_addto_walk :: "kbo_config \<Rightarrow> int \<Rightarrow> trm list \<Rightarrow> kbo_lin \<times> int \<Rightarrow> kbo_lin \<times> int" where
  "kbo_lin_addto_walk cfg sg [] acc = acc"
| "kbo_lin_addto_walk cfg sg (FVR x # stack) acc =
     (case acc of (st, phi) \<Rightarrow> kbo_lin_addto_walk cfg sg stack
        (kbo_bump (unat x) sg st, phi + sg * int (kc_var_weight cfg)))"
| "kbo_lin_addto_walk cfg sg (CTR l ts # stack) acc =
     (case acc of (st, phi) \<Rightarrow> kbo_lin_addto_walk cfg sg (rev ts @ stack)
        (st, phi + sg * int (kbo_weight cfg l)))"
| "kbo_lin_addto_walk cfg sg (ATM g e v # stack) acc = kbo_lin_addto_walk cfg sg stack acc"
  by pat_completeness auto
termination
  by (relation "measure (\<lambda>(cfg, sg, stack, acc). sum_list (map tsize stack))")
    (auto simp: rev_map [symmetric])

text \<open>The flag is g_kbo_force_linear or the environment gate: walk instead of the memo.\<close>

definition kbo_lin_addto :: "bool \<Rightarrow> kbo_config \<Rightarrow> trm \<Rightarrow> int \<Rightarrow> kbo_lin \<times> int \<Rightarrow> kbo_lin \<times> int" where
  "kbo_lin_addto force cfg t sg acc =
     (if force then kbo_lin_addto_walk cfg sg [t] acc
      else case acc of (st, phi) \<Rightarrow>
        (case t of
           FVR x \<Rightarrow> (kbo_bump (unat x) sg st, phi + sg * int (kc_var_weight cfg))
         | CTR l ts \<Rightarrow>
             (let (w, ps) = kbo_memo cfg t
              in (case ps of
                    None \<Rightarrow> kbo_addvars_walk sg [t] st
                  | Some ps \<Rightarrow> fold (\<lambda>(i, c). kbo_bump i (sg * c)) ps st,
                  phi + sg * w))
         | ATM g e v \<Rightarrow> (st, phi)))"

subsection \<open>Vortest\<close>

lemma zip_size_le: "sum_list (map (tsize \<circ> fst) (zip ss ts)) \<le> sum_list (map tsize ss)"
  by (induction ss ts rule: list_induct2') auto

function kbo_vortest_loop :: "bool \<Rightarrow> kbo_config \<Rightarrow> (trm \<times> trm) list \<Rightarrow> bool \<Rightarrow> kbo_lin \<times> int \<Rightarrow> bool \<times> kbo_lin \<times> int" where
  "kbo_vortest_loop force cfg [] ident acc = (ident, acc)"
| "kbo_vortest_loop force cfg ((s, t) # stack) ident acc =
     (if s = t then kbo_vortest_loop force cfg stack ident acc
      else case (s, t) of
        (CTR f ss, CTR g ts) \<Rightarrow>
          if f = g \<and> length ss = length ts
          then kbo_vortest_loop force cfg (rev (zip ss ts) @ stack) ident acc
          else kbo_vortest_loop force cfg stack False
                 (kbo_lin_addto force cfg t (-1) (kbo_lin_addto force cfg s 1 acc))
      | _ \<Rightarrow> kbo_vortest_loop force cfg stack False
               (kbo_lin_addto force cfg t (-1) (kbo_lin_addto force cfg s 1 acc)))"
  by pat_completeness auto

termination
  by (relation "measure (\<lambda>(force, cfg, stack, ident, acc). sum_list (map (tsize \<circ> fst) stack))")
    (auto simp: rev_map [symmetric] less_Suc_eq_le zip_size_le)

definition kbo_vortest :: "bool \<Rightarrow> kbo_config \<Rightarrow> trm \<Rightarrow> trm \<Rightarrow> kbo_lin \<Rightarrow> bool \<times> kbo_lin \<times> int" where
  "kbo_vortest force cfg s t st = kbo_vortest_loop force cfg [(s, t)] True (st, 0)"

subsection \<open>Reading the verdict out of the scope\<close>

definition decide_step :: "kbo_cmp \<Rightarrow> int \<Rightarrow> kbo_cmp" where
  "decide_step erg v =
     (case erg of
        KBO_EQ \<Rightarrow> if v < 0 then KBO_LT else KBO_GT
      | KBO_LT \<Rightarrow> if v > 0 then KBO_UN else KBO_LT
      | KBO_GT \<Rightarrow> if v < 0 then KBO_UN else KBO_GT
      | KBO_UN \<Rightarrow> KBO_UN)"

fun decide_loop :: "nat list \<Rightarrow> kbo_cmp \<Rightarrow> balance \<Rightarrow> kbo_cmp \<times> balance" where
  "decide_loop [] erg bal = (erg, bal)"
| "decide_loop (i # ids) erg bal =
     (let v = bal i; bal' = bal(i := 0)
      in decide_loop ids (if v = 0 then erg else decide_step erg v) bal')"

definition kbo_lin_decide_clear :: "kbo_lin \<Rightarrow> kbo_cmp \<times> kbo_lin" where
  "kbo_lin_decide_clear st =
     (let (erg, bal) = decide_loop (kl_touched st) KBO_EQ (kl_bal st)
      in (erg, st\<lparr>kl_bal := bal, kl_touched := []\<rparr>))"

definition kbo_lin_clear :: "kbo_lin \<Rightarrow> kbo_lin" where
  "kbo_lin_clear st =
     st\<lparr>kl_bal := fold (\<lambda>i b. b(i := 0)) (kl_touched st) (kl_bal st), kl_touched := []\<rparr>"

fun kbo_map_through :: "kbo_cmp \<Rightarrow> kbo_cmp \<Rightarrow> kbo_cmp" where
  "kbo_map_through varcmp KBO_EQ = KBO_EQ"
| "kbo_map_through varcmp KBO_GT = (if varcmp = KBO_LT then KBO_UN else KBO_GT)"
| "kbo_map_through varcmp KBO_LT = (if varcmp = KBO_GT then KBO_UN else KBO_LT)"
| "kbo_map_through varcmp KBO_UN = KBO_UN"

subsection \<open>The decision\<close>

text \<open>
  The switch on varcmp and phidiff: a verdict, or None on a weight tie.
\<close>

definition kbo_phi_verdict :: "kbo_cmp \<Rightarrow> int \<Rightarrow> kbo_cmp option" where
  "kbo_phi_verdict varcmp phi =
     (case varcmp of
        KBO_GT \<Rightarrow> if phi < 0 then Some KBO_UN else if phi > 0 then Some KBO_GT else None
      | KBO_LT \<Rightarrow> if phi < 0 then Some KBO_LT else if phi > 0 then Some KBO_UN else None
      | KBO_EQ \<Rightarrow> if phi < 0 then Some KBO_LT else if phi > 0 then Some KBO_GT else None
      | KBO_UN \<Rightarrow> Some KBO_UN)"

text \<open>The first non-identical child pair, with the state, weight balance and variable verdict.\<close>

fun kbo_first_diff :: "bool \<Rightarrow> kbo_config \<Rightarrow> trm list \<Rightarrow> trm list \<Rightarrow> kbo_lin
    \<Rightarrow> (trm \<times> trm \<times> int \<times> kbo_cmp) option \<times> kbo_lin" where
  "kbo_first_diff force cfg (s # ss) (t # ts) st =
     (let (ident, st1, phi) = kbo_vortest force cfg s t st
      in if ident then kbo_first_diff force cfg ss ts (kbo_lin_clear st1)
         else let (cvar, st2) = kbo_lin_decide_clear st1 in (Some (s, t, phi, cvar), st2))"
| "kbo_first_diff force cfg _ _ st = (None, st)"

lemma first_diff_member:
  "kbo_first_diff force cfg ss ts st = (Some (s, t, phi, cvar), st') \<Longrightarrow> s \<in> set ss \<and> t \<in> set ts"
  by (induction force cfg ss ts st rule: kbo_first_diff.induct)
    (auto simp: Let_def split: prod.splits if_splits)

text \<open>The spine loop; vstack holds the variable verdicts of the levels above, innermost first.\<close>

function kbo_rek_loop :: "bool \<Rightarrow> kbo_config \<Rightarrow> trm \<Rightarrow> trm \<Rightarrow> int \<Rightarrow> kbo_cmp \<Rightarrow> kbo_cmp list \<Rightarrow> kbo_lin
    \<Rightarrow> kbo_cmp \<times> kbo_cmp list \<times> kbo_lin" where
  "kbo_rek_loop force cfg s t phi varcmp vstack st =
     (case kbo_phi_verdict varcmp phi of
        Some here \<Rightarrow> (here, vstack, st)
      | None \<Rightarrow>
          (case (s, t) of
             (CTR f ss, CTR g ts) \<Rightarrow>
               if kbo_prec cfg f > kbo_prec cfg g
               then (if varcmp = KBO_LT then KBO_UN else KBO_GT, vstack, st)
               else if kbo_prec cfg f < kbo_prec cfg g
               then (if varcmp = KBO_GT then KBO_UN else KBO_LT, vstack, st)
               else if f \<noteq> g then (KBO_UN, vstack, st)
               else if length ss \<noteq> length ts then (KBO_UN, vstack, st)
               else (case kbo_first_diff force cfg ss ts st of
                       (None, st') \<Rightarrow> (KBO_EQ, vstack, st')
                     | (Some (cs, ct, phi', cvar), st') \<Rightarrow>
                         kbo_rek_loop force cfg cs ct phi' cvar (varcmp # vstack) st')
           | _ \<Rightarrow> (KBO_UN, vstack, st)))"
  by pat_completeness auto
termination
  by (relation "measure (\<lambda>(force, cfg, s, t, phi, varcmp, vstack, st). tsize s)")
    (auto dest!: first_diff_member [OF sym] intro: sum_list_member_le [where f = tsize, THEN le_imp_less_Suc])

declare kbo_rek_loop.simps [simp del]

definition kbo_lin_rek :: "bool \<Rightarrow> kbo_config \<Rightarrow> trm \<Rightarrow> trm \<Rightarrow> int \<Rightarrow> kbo_cmp \<Rightarrow> kbo_lin \<Rightarrow> kbo_cmp \<times> kbo_lin" where
  "kbo_lin_rek force cfg s t phi varcmp st =
     (let (terminal, vstack, st') = kbo_rek_loop force cfg s t phi varcmp [] st
      in (fold kbo_map_through vstack terminal, st'))"

definition kbo_compare_core :: "bool \<Rightarrow> kbo_config \<Rightarrow> trm \<Rightarrow> trm \<Rightarrow> kbo_lin \<Rightarrow> kbo_cmp \<times> kbo_lin" where
  "kbo_compare_core force cfg s t st0 =
     (let (ident, st1, phi) = kbo_vortest force cfg s t (st0\<lparr>kl_touched := []\<rparr>)
      in if ident then (KBO_EQ, kbo_lin_clear st1)
         else let (varcmp, st2) = kbo_lin_decide_clear st1
              in kbo_lin_rek force cfg s t phi varcmp st2)"

definition thvm_kbo :: "kbo_config \<Rightarrow> trm \<Rightarrow> trm \<Rightarrow> kbo_lin \<Rightarrow> kbo_cmp \<times> kbo_lin" where
  "thvm_kbo = kbo_compare_core False"

definition thvm_kbo_nomemo :: "kbo_config \<Rightarrow> trm \<Rightarrow> trm \<Rightarrow> kbo_lin \<Rightarrow> kbo_cmp \<times> kbo_lin" where
  "thvm_kbo_nomemo = kbo_compare_core True"


subsection \<open>Weights and counts\<close>

fun kw :: "kbo_config \<Rightarrow> trm \<Rightarrow> int" where
  "kw cfg (FVR x) = int (kc_var_weight cfg)"
| "kw cfg (CTR l ts) = int (kbo_weight cfg l) + sum_list (map (kw cfg) ts)"
| "kw cfg (ATM g e v) = 0"

text \<open>Occurrences of a variable that the balance table has a slot for.\<close>

fun kcnt :: "trm \<Rightarrow> nat \<Rightarrow> int" where
  "kcnt (FVR x) i = (if unat x = i \<and> i < KBO_MAX_VAR then 1 else 0)"
| "kcnt (CTR l ts) i = sum_list (map (\<lambda>t. kcnt t i) ts)"
| "kcnt (ATM g e v) i = 0"

lemma kcnt_beyond: "KBO_MAX_VAR \<le> i \<Longrightarrow> kcnt t i = 0"
  by (induction t) (auto simp: sum_list_eq_0_iff intro: sum_list_0 cong: map_cong)

lemma kcnt_nonneg: "0 \<le> kcnt t i"
  by (induction t) (auto intro!: sum_list_nonneg)

definition kdom :: "trm \<Rightarrow> trm \<Rightarrow> bool" where
  "kdom s t \<longleftrightarrow> (\<forall>i. kcnt t i \<le> kcnt s i)"

lemma addto_spec:
  "kbo_addto cfg sg t (wb, bal) = (wb + sg * kw cfg t, \<lambda>i. bal i + sg * kcnt t i)"
proof (induction t arbitrary: wb bal)
  case (CTR l ts)
  have "fold (kbo_addto cfg sg) us (wb, bal)
      = (wb + sg * sum_list (map (kw cfg) us), \<lambda>i. bal i + sg * sum_list (map (\<lambda>t. kcnt t i) us))"
    if "set us \<subseteq> set ts" for us wb and bal :: balance
    using that by (induction us arbitrary: wb bal) (auto simp: CTR.IH algebra_simps)
  then show ?case by (simp add: algebra_simps)
qed auto

lemma diff_spec:
  "kbo_diff cfg s t (wb, bal) =
     (s = t, wb + (kw cfg s - kw cfg t), \<lambda>i. bal i + (kcnt s i - kcnt t i))"
  "length ss = length ts \<Longrightarrow> kbo_diff_args cfg ss ts ident (wb, bal) =
     (ident \<and> ss = ts, wb + (sum_list (map (kw cfg) ss) - sum_list (map (kw cfg) ts)),
      \<lambda>i. bal i + (sum_list (map (\<lambda>t. kcnt t i) ss) - sum_list (map (\<lambda>t. kcnt t i) ts)))"
proof (induction cfg s t "(wb, bal)" and cfg ss ts ident "(wb, bal)"
    arbitrary: wb bal and wb bal rule: kbo_diff_kbo_diff_args.induct)
qed (auto simp: kbo_diverge_def addto_spec algebra_simps fun_eq_iff split: prod.splits)

lemma dom_lists:
  assumes "bal = (\<lambda>i. kcnt s i - kcnt t i)"
  shows "list_all (\<lambda>i. \<not> bal i < 0) [0..<KBO_MAX_VAR] \<longleftrightarrow> kdom s t"
    and "list_all (\<lambda>i. \<not> bal i > 0) [0..<KBO_MAX_VAR] \<longleftrightarrow> kdom t s"
  using kcnt_beyond [of _ s] kcnt_beyond [of _ t] assms
  by (auto simp: kdom_def list_all_iff not_less)

lemma kbo_rec_eq:
  "kbo_rec cfg s t =
     (if s = t then KBO_EQ
      else if \<not> kdom s t \<and> \<not> kdom t s then KBO_UN
      else if kw cfg s > kw cfg t then (if kdom s t then KBO_GT else KBO_UN)
      else if kw cfg s < kw cfg t then (if kdom t s then KBO_LT else KBO_UN)
      else (case (s, t) of
              (CTR f ss, CTR g ts) \<Rightarrow>
                if kbo_prec cfg f > kbo_prec cfg g then (if kdom s t then KBO_GT else KBO_UN)
                else if kbo_prec cfg f < kbo_prec cfg g then (if kdom t s then KBO_LT else KBO_UN)
                else if length ss \<noteq> length ts then KBO_UN
                else kbo_rec_args cfg (kdom s t) (kdom t s) ss ts
            | _ \<Rightarrow> KBO_UN))"
  by (simp only: kbo_rec.simps [of cfg s t] diff_spec(1) add_0 prod.case Let_def dom_lists [OF refl])
    (auto split: trm.splits)

subsection \<open>The scope of the linear comparator\<close>

definition lin_cov :: "kbo_lin \<Rightarrow> bool" where
  "lin_cov st \<longleftrightarrow> (\<forall>i. kl_bal st i \<noteq> 0 \<longrightarrow> i \<in> set (kl_touched st))"

definition lin_step :: "kbo_lin \<Rightarrow> kbo_lin \<Rightarrow> balance \<Rightarrow> bool" where
  "lin_step st st' d \<longleftrightarrow> kl_bal st' = (\<lambda>i. kl_bal st i + d i) \<and> (kl_ub st \<longrightarrow> kl_ub st')
     \<and> (lin_cov st \<longrightarrow> \<not> kl_ub st' \<longrightarrow> lin_cov st')"

lemma lin_step_refl: "lin_step st st (\<lambda>i. 0)"
  by (simp add: lin_step_def)

lemma lin_step_trans: "lin_step a b d \<Longrightarrow> lin_step b c e \<Longrightarrow> lin_step a c (\<lambda>i. d i + e i)"
  by (auto simp: lin_step_def algebra_simps)

lemma lin_step_eq: "lin_step a b d \<Longrightarrow> (\<And>i. d i = e i) \<Longrightarrow> lin_step a b e"
  by (simp add: lin_step_def)

lemma bump_step: "lin_step st (kbo_bump i delta st) (\<lambda>j. if j = i \<and> i < KBO_MAX_VAR then delta else 0)"
  by (auto simp: kbo_bump_def lin_step_def lin_cov_def Let_def fun_eq_iff)

lemma bump_var_step: "lin_step st (kbo_bump (unat x) sg st) (\<lambda>i. sg * kcnt (FVR x) i)"
  by (rule lin_step_eq [OF bump_step]) auto

lemma addvars_walk_step:
  "lin_step st (kbo_addvars_walk sg stack st) (\<lambda>i. sg * sum_list (map (\<lambda>t. kcnt t i) stack))"
proof (induction sg stack st rule: kbo_addvars_walk.induct)
  case (1 sg st)
  then show ?case by (simp add: lin_step_refl)
next
  case (2 sg x stack st)
  from lin_step_trans [OF bump_var_step this] show ?case
    by (simp del: kcnt.simps) (erule lin_step_eq, simp add: algebra_simps)
next
  case (3 sg l ts stack st)
  then show ?case by (simp add: rev_map [symmetric])
qed simp

lemma addto_walk_step:
  "kbo_lin_addto_walk cfg sg stack (st, phi) = (st', phi') \<Longrightarrow>
     lin_step st st' (\<lambda>i. sg * sum_list (map (\<lambda>t. kcnt t i) stack))
     \<and> phi' = phi + sg * sum_list (map (kw cfg) stack)"
proof (induction cfg sg stack "(st, phi)" arbitrary: st phi rule: kbo_lin_addto_walk.induct)
  case (1 cfg sg)
  then show ?case by (simp add: lin_step_refl)
next
  case (2 cfg sg x stack)
  then have "lin_step (kbo_bump (unat x) sg st) st' (\<lambda>i. sg * sum_list (map (\<lambda>t. kcnt t i) stack))
      \<and> phi' = (phi + sg * int (kc_var_weight cfg)) + sg * sum_list (map (kw cfg) stack)"
    by simp
  then show ?case
    using lin_step_trans [OF bump_var_step [of st x sg]]
    by (simp del: kcnt.simps(1)) (auto simp: algebra_simps)
next
  case (3 cfg sg l ts stack)
  then show ?case by (auto simp: rev_map [symmetric] algebra_simps)
next
  case (4 cfg sg g e v stack)
  then show ?case by simp
qed

text \<open>The profile of a memo entry sums to the counts.\<close>

definition psum :: "(nat \<times> int) list \<Rightarrow> balance" where
  "psum ps i = sum_list (map (\<lambda>(j, c). if j = i \<and> i < KBO_MAX_VAR then c else 0) ps)"

lemma psum_simps [simp]:
  "psum [] i = 0"
  "psum ((j, c) # ps) i = (if j = i \<and> i < KBO_MAX_VAR then c else 0) + psum ps i"
  "psum (ps @ qs) i = psum ps i + psum qs i"
  by (auto simp: psum_def)

lemma vprof_bump_psum:
  "vprof_bump ps i d = Some qs \<Longrightarrow> psum qs j = psum ps j + (if j = i \<and> i < KBO_MAX_VAR then d else 0)"
  by (induction ps i d arbitrary: qs rule: vprof_bump.induct) (auto split: if_splits)

lemma vprof_add_psum:
  "kbo_vprof_add ps i d = Some qs \<Longrightarrow> psum qs j = psum ps j + (if j = i \<and> i < KBO_MAX_VAR then d else 0)"
  by (auto simp: kbo_vprof_add_def vprof_bump_psum split: option.splits if_splits)

lemma vprof_add_all_psum: "vprof_add_all ps qs = Some rs \<Longrightarrow> psum rs j = psum ps j + psum qs j"
  by (induction ps qs rule: vprof_add_all.induct) (auto simp: vprof_add_psum split: option.splits)

lemma kbo_memo_spec:
  "is_ctr t \<Longrightarrow> kbo_memo cfg t = (w, ps) \<Longrightarrow> w = kw cfg t \<and> (\<forall>qs. ps = Some qs \<longrightarrow> psum qs = kcnt t)"
proof (induction t arbitrary: w ps)
  case (CTR l ts)
  let ?step = "\<lambda>c (w, ps).
       case c of
         FVR x \<Rightarrow> (w + int (kc_var_weight cfg),
                   if unat x < KBO_MAX_VAR then Option.bind ps (\<lambda>ps. kbo_vprof_add ps (unat x) 1) else ps)
       | CTR g us \<Rightarrow> (let (w', qs) = kbo_memo cfg c
                      in (w + w', case qs of None \<Rightarrow> None | Some qs \<Rightarrow> Option.bind ps (\<lambda>ps. vprof_add_all ps qs)))
       | ATM g e v \<Rightarrow> (w, ps)"
  have step: "w' = w + kw cfg c \<and> (\<forall>qs. ps' = Some qs \<longrightarrow> (\<exists>rs. ps = Some rs \<and> (\<forall>i. psum qs i = psum rs i + kcnt c i)))"
    if "?step c (w, ps) = (w', ps')" and "c \<in> set ts" for c w ps w' ps'
  proof (cases c)
    case (FVR x)
    with that(1) show ?thesis
      by (auto simp: option_bind_Some_conv vprof_add_psum split: if_splits)
  next
    case c: (CTR g us)
    obtain w1 p1 where m: "kbo_memo cfg c = (w1, p1)" by fastforce
    have "w1 = kw cfg c" "\<And>qs. p1 = Some qs \<Longrightarrow> psum qs = kcnt c"
      using CTR.IH [OF that(2) _ m] c by auto
    then show ?thesis using that(1) m c
      by (auto simp: option_bind_Some_conv vprof_add_all_psum simp del: kbo_memo.simps kcnt.simps
          split: option.splits)
  next
    case (ATM g e v)
    with that(1) show ?thesis by auto
  qed
  have "w' = w + sum_list (map (kw cfg) us)
      \<and> (\<forall>qs. ps' = Some qs \<longrightarrow> (\<exists>rs. ps = Some rs \<and> (\<forall>i. psum qs i = psum rs i + sum_list (map (\<lambda>t. kcnt t i) us))))"
    if "fold ?step us (w, ps) = (w', ps')" and "set us \<subseteq> set ts" for us w ps w' ps'
    using that
  proof (induction us arbitrary: w ps)
    case (Cons c us)
    obtain w1 p1 where c: "?step c (w, ps) = (w1, p1)" by fastforce
    have s: "w1 = w + kw cfg c \<and> (\<forall>qs. p1 = Some qs \<longrightarrow> (\<exists>rs. ps = Some rs \<and> (\<forall>i. psum qs i = psum rs i + kcnt c i)))"
      using step [OF c] Cons.prems(2) by simp
    have "fold ?step us (w1, p1) = (w', ps')" using Cons.prems(1) c by (simp only: fold_simps)
    from Cons.IH [OF this] Cons.prems(2) s show ?case by fastforce
  qed auto
  from this [of ts "int (kbo_weight cfg l)" "Some []" w ps] CTR.prems(2) show ?case
    by (auto simp: fun_eq_iff)
qed auto

lemma fold_bump_step:
  "lin_step st (fold (\<lambda>(i, c). kbo_bump i (sg * c)) ps st) (\<lambda>i. sg * psum ps i)"
proof (induction ps arbitrary: st)
  case Nil
  then show ?case by (simp add: lin_step_refl)
next
  case (Cons p ps)
  obtain j c where p: "p = (j, c)" by fastforce
  from lin_step_trans [OF bump_step [of st j "sg * c"] Cons.IH] show ?case
    unfolding p by (simp) (erule lin_step_eq, simp add: algebra_simps)
qed

lemma lin_addto_step:
  assumes "kbo_lin_addto force cfg t sg (st, phi) = (st', phi')"
  shows "lin_step st st' (\<lambda>i. sg * kcnt t i) \<and> phi' = phi + sg * kw cfg t"
proof (cases force)
  case True
  then show ?thesis using addto_walk_step [of cfg sg "[t]" st phi st' phi'] assms
    by (simp add: kbo_lin_addto_def)
next
  case False
  show ?thesis
  proof (cases t)
    case (FVR x)
    then show ?thesis using assms False bump_var_step by (auto simp: kbo_lin_addto_def simp del: kcnt.simps)
  next
    case (CTR l ts)
    obtain w ps where m: "kbo_memo cfg t = (w, ps)" by fastforce
    have w: "w = kw cfg t" "\<And>qs. ps = Some qs \<Longrightarrow> psum qs = kcnt t"
      using kbo_memo_spec [OF _ m] CTR by auto
    show ?thesis
    proof (cases ps)
      case None
      then show ?thesis using assms False CTR m w addvars_walk_step [of st sg "[t]"]
        by (auto simp: kbo_lin_addto_def simp del: kcnt.simps kbo_memo.simps kbo_addvars_walk.simps)
    next
      case (Some qs)
      then show ?thesis using assms False CTR m w fold_bump_step [of st sg qs]
        by (auto simp: kbo_lin_addto_def simp del: kcnt.simps kbo_memo.simps)
    qed
  next
    case (ATM g e v)
    then show ?thesis using assms False by (auto simp: kbo_lin_addto_def lin_step_refl)
  qed
qed


subsection \<open>Vortest computes the balances\<close>

lemma vortest_loop_spec:
  "kbo_vortest_loop force cfg stack ident (st, phi) = (ident', st', phi') \<Longrightarrow>
     (ident' \<longleftrightarrow> ident \<and> (\<forall>(s, t) \<in> set stack. s = t))
     \<and> phi' = phi + sum_list (map (\<lambda>(s, t). kw cfg s - kw cfg t) stack)
     \<and> lin_step st st' (\<lambda>i. sum_list (map (\<lambda>(s, t). kcnt s i - kcnt t i) stack))"
proof (induction "sum_list (map (tsize \<circ> fst) stack)" arbitrary: stack ident st phi rule: less_induct)
  case (less stack0)
  show ?case
  proof (cases stack0)
    case Nil
    with less.prems show ?thesis by (simp add: lin_step_refl)
  next
    case (Cons p stack)
    obtain s t where p: "p = (s, t)" by fastforce
    note stack0 = Cons [unfolded p]
  let ?add = "kbo_lin_addto force cfg t (-1) (kbo_lin_addto force cfg s 1 (st, phi))"
  have zs: "(\<forall>(s, t) \<in> set (zip ss ts). s = t) \<longleftrightarrow> ss = ts" if "length ss = length ts" for ss ts :: "trm list"
    using that by (induction ss ts rule: list_induct2) auto
  have sums: "sum_list (map (\<lambda>(s, t). f s - f t) (zip ss ts)) = sum_list (map f ss) - sum_list (map f ts)"
    if "length ss = length ts" for ss ts and f :: "trm \<Rightarrow> int"
    using that by (induction ss ts rule: list_induct2) auto
  have small: "sum_list (map (tsize \<circ> fst) stack) < sum_list (map (tsize \<circ> fst) stack0)"
    by (simp add: stack0)
  have div: ?thesis if ne: "s \<noteq> t"
    and run: "kbo_vortest_loop force cfg stack False ?add = (ident', st', phi')"
  proof -
    obtain st1 phi1 where a1: "kbo_lin_addto force cfg s 1 (st, phi) = (st1, phi1)" by fastforce
    obtain st2 phi2 where a2: "kbo_lin_addto force cfg t (-1) (st1, phi1) = (st2, phi2)" by fastforce
    have l1: "lin_step st st1 (\<lambda>i. kcnt s i)" "phi1 = phi + kw cfg s"
      using lin_addto_step [OF a1] by simp_all
    have l2: "lin_step st1 st2 (\<lambda>i. - kcnt t i)" "phi2 = phi1 - kw cfg t"
      using lin_addto_step [OF a2] by simp_all
    have "?add = (st2, phi2)" by (simp add: a1 a2)
    with run have "kbo_vortest_loop force cfg stack False (st2, phi2) = (ident', st', phi')" by simp
    from less.hyps [OF small this] have r: "\<not> ident'"
        "phi' = phi2 + sum_list (map (\<lambda>(s, t). kw cfg s - kw cfg t) stack)"
        "lin_step st2 st' (\<lambda>i. sum_list (map (\<lambda>(s, t). kcnt s i - kcnt t i) stack))"
      by simp_all
    have "lin_step st st' (\<lambda>i. sum_list (map (\<lambda>(s, t). kcnt s i - kcnt t i) ((s, t) # stack)))"
      by (rule lin_step_eq [OF lin_step_trans [OF lin_step_trans [OF l1(1) l2(1)] r(3)]]) simp
    then show ?thesis using r(1,2) l1(2) l2(2) ne by (simp add: stack0)
  qed
  show ?thesis
  proof (cases "s = t")
    case True
    with less.prems have "kbo_vortest_loop force cfg stack ident (st, phi) = (ident', st', phi')"
      by (simp add: stack0)
    from less.hyps [OF small this] True show ?thesis by (simp add: stack0)
  next
    case ne: False
    show ?thesis
    proof (cases "\<exists>f ss ts. s = CTR f ss \<and> t = CTR f ts \<and> length ss = length ts")
      case True
      then obtain f ss ts where st: "s = CTR f ss" "t = CTR f ts" "length ss = length ts" by blast
      have run: "kbo_vortest_loop force cfg (rev (zip ss ts) @ stack) ident (st, phi) = (ident', st', phi')"
        using less.prems ne st by (simp add: stack0)
      have "sum_list (map (tsize \<circ> fst) (rev (zip ss ts) @ stack)) < sum_list (map (tsize \<circ> fst) stack0)"
        using zip_size_le [of ss ts] by (simp add: stack0 st(1) rev_map [symmetric])
      note IH = less.hyps [OF this run]
      have "\<not> (\<forall>(s, t) \<in> set (rev (zip ss ts) @ stack). s = t)"
        using zs [OF st(3)] ne st by (simp only: set_append set_rev ball_Un) simp
      with IH have "\<not> ident'" by blast
      then show ?thesis using IH sums [OF st(3)] ne st
        by (simp add: rev_map [symmetric] stack0)
    next
      case False
      then have "kbo_vortest_loop force cfg stack False ?add = (ident', st', phi')"
        using less.prems ne by (cases s; cases t) (auto simp: stack0)
      then show ?thesis by (rule div [OF ne])
    qed
  qed
  qed
qed


text \<open>The state between scopes: balances zero, nothing touched.\<close>

definition lin_clean :: "kbo_lin \<Rightarrow> bool" where
  "lin_clean st \<longleftrightarrow> kl_bal st = (\<lambda>_. 0) \<and> kl_touched st = []"

lemma vortest_spec:
  assumes "lin_clean st" and "kbo_vortest force cfg s t st = (ident, st', phi)"
  shows "ident \<longleftrightarrow> s = t" and "phi = kw cfg s - kw cfg t"
    and "kl_bal st' = (\<lambda>i. kcnt s i - kcnt t i)"
    and "kl_ub st \<Longrightarrow> kl_ub st'" and "\<not> kl_ub st' \<Longrightarrow> lin_cov st'"
proof -
  have "(ident \<longleftrightarrow> s = t) \<and> phi = kw cfg s - kw cfg t \<and> lin_step st st' (\<lambda>i. kcnt s i - kcnt t i)"
    using vortest_loop_spec [of force cfg "[(s, t)]" True st 0 ident st' phi] assms(2)
    by (simp add: kbo_vortest_def)
  moreover have "lin_cov st" using assms(1) by (simp add: lin_clean_def lin_cov_def)
  ultimately show "ident \<longleftrightarrow> s = t" and "phi = kw cfg s - kw cfg t"
    and "kl_bal st' = (\<lambda>i. kcnt s i - kcnt t i)"
    and "kl_ub st \<Longrightarrow> kl_ub st'" and "\<not> kl_ub st' \<Longrightarrow> lin_cov st'"
    using assms(1) by (auto simp: lin_step_def lin_clean_def)
qed

subsection \<open>The variable verdict\<close>

definition vcmp :: "balance \<Rightarrow> kbo_cmp" where
  "vcmp d =
     (if \<forall>i. d i = 0 then KBO_EQ
      else if \<forall>i. 0 \<le> d i then KBO_GT
      else if \<forall>i. d i \<le> 0 then KBO_LT else KBO_UN)"

text \<open>Adding to a verdict the signs found from here on.\<close>

fun vmerge :: "kbo_cmp \<Rightarrow> bool \<Rightarrow> bool \<Rightarrow> kbo_cmp" where
  "vmerge KBO_EQ pos neg = (if pos then (if neg then KBO_UN else KBO_GT) else if neg then KBO_LT else KBO_EQ)"
| "vmerge KBO_GT pos neg = (if neg then KBO_UN else KBO_GT)"
| "vmerge KBO_LT pos neg = (if pos then KBO_UN else KBO_LT)"
| "vmerge KBO_UN pos neg = KBO_UN"

lemma decide_loop_spec:
  "(\<And>i. bal i \<noteq> 0 \<Longrightarrow> i \<in> set ids) \<Longrightarrow>
   decide_loop ids erg bal = (vmerge erg (\<exists>i. bal i > 0) (\<exists>i. bal i < 0), \<lambda>_. 0)"
proof (induction ids erg bal rule: decide_loop.induct)
  case (1 erg bal)
  then have "bal = (\<lambda>_. 0)" by auto
  then show ?case by (cases erg) auto
next
  case (2 i ids erg bal)
  define b where "b = bal(i := 0)"
  have cov: "b j \<noteq> 0 \<Longrightarrow> j \<in> set ids" for j
    using "2.prems" [of j] by (auto simp: b_def split: if_splits)
  have pos: "(\<exists>j. bal j > 0) \<longleftrightarrow> bal i > 0 \<or> (\<exists>j. b j > 0)" by (auto simp: b_def)
  have neg: "(\<exists>j. bal j < 0) \<longleftrightarrow> bal i < 0 \<or> (\<exists>j. b j < 0)" by (auto simp: b_def)
  have "decide_loop (i # ids) erg bal = decide_loop ids (if bal i = 0 then erg else decide_step erg (bal i)) b"
    by (simp add: Let_def b_def)
  also have "\<dots> = (vmerge (if bal i = 0 then erg else decide_step erg (bal i)) (\<exists>j. b j > 0) (\<exists>j. b j < 0), \<lambda>_. 0)"
    using "2.IH" [OF refl b_def cov] by simp
  also have "\<dots> = (vmerge erg (\<exists>j. bal j > 0) (\<exists>j. bal j < 0), \<lambda>_. 0)"
    unfolding pos neg by (cases erg) (auto simp: decide_step_def)
  finally show ?case .
qed

lemma vcmp_vmerge: "vcmp d = vmerge KBO_EQ (\<exists>i. d i > 0) (\<exists>i. d i < 0)"
proof -
  have "(\<forall>i. 0 \<le> d i) \<longleftrightarrow> \<not> (\<exists>i. d i < 0)" and "(\<forall>i. d i \<le> 0) \<longleftrightarrow> \<not> (\<exists>i. d i > 0)"
    by (auto simp: not_less)
  moreover have "(\<forall>i. d i = 0) \<longleftrightarrow> (\<forall>i. 0 \<le> d i) \<and> (\<forall>i. d i \<le> 0)"
    by (auto intro: order_antisym)
  ultimately show ?thesis by (auto simp: vcmp_def)
qed

lemma decide_clear_spec:
  assumes "lin_cov st" and "kbo_lin_decide_clear st = (erg, st')"
  shows "erg = vcmp (kl_bal st)" and "lin_clean st'" and "kl_ub st' = kl_ub st"
proof -
  have l: "decide_loop (kl_touched st) KBO_EQ (kl_bal st)
      = (vmerge KBO_EQ (\<exists>i. kl_bal st i > 0) (\<exists>i. kl_bal st i < 0), \<lambda>_. 0)"
    using assms(1) by (intro decide_loop_spec) (simp add: lin_cov_def)
  then show "lin_clean st'" and "kl_ub st' = kl_ub st"
    using assms(2) by (auto simp: kbo_lin_decide_clear_def lin_clean_def)
  show "erg = vcmp (kl_bal st)"
    using assms(2) l by (auto simp: kbo_lin_decide_clear_def vcmp_vmerge)
qed

lemma clear_zero: "fold (\<lambda>i b. b(i := 0)) ids bal = (\<lambda>i. if i \<in> set ids then 0 else bal i)"
  by (induction ids arbitrary: bal) (auto simp: fun_eq_iff)

lemma clear_clean: "lin_cov st \<Longrightarrow> lin_clean (kbo_lin_clear st)"
  by (auto simp: kbo_lin_clear_def lin_clean_def clear_zero lin_cov_def fun_eq_iff)

lemma clear_ub [simp]: "kl_ub (kbo_lin_clear st) = kl_ub st"
  by (simp add: kbo_lin_clear_def)

lemma vcmp_dom:
  fixes s t
  defines "v \<equiv> vcmp (\<lambda>i. kcnt s i - kcnt t i)"
  shows "kdom s t \<longleftrightarrow> v = KBO_EQ \<or> v = KBO_GT" and "kdom t s \<longleftrightarrow> v = KBO_EQ \<or> v = KBO_LT"
  by (auto simp: v_def vcmp_def kdom_def split: if_splits) (meson linorder_linear order_antisym)+

subsection \<open>The two comparators agree\<close>

text \<open>
  The precedence tells the labels of both terms apart: on equal precedences of different labels
  the naive comparator descends into the arguments and the linear one gives up.
\<close>

fun tlabels :: "trm \<Rightarrow> ext set" where
  "tlabels (CTR l ts) = insert l (\<Union>t \<in> set ts. tlabels t)"
| "tlabels _ = {}"

definition prec_inj :: "kbo_config \<Rightarrow> trm \<Rightarrow> trm \<Rightarrow> bool" where
  "prec_inj cfg s t \<longleftrightarrow> inj_on (kbo_prec cfg) (tlabels s \<union> tlabels t)"

lemma prec_inj_child:
  "prec_inj cfg (CTR f ss) (CTR g ts) \<Longrightarrow> s \<in> set ss \<Longrightarrow> t \<in> set ts \<Longrightarrow> prec_inj cfg s t"
  unfolding prec_inj_def by (erule inj_on_subset) auto

lemma prec_inj_head: "prec_inj cfg (CTR f ss) (CTR g ts) \<Longrightarrow> kbo_prec cfg f = kbo_prec cfg g \<longleftrightarrow> f = g"
  using inj_onD [of "kbo_prec cfg" "tlabels (CTR f ss) \<union> tlabels (CTR g ts)" f g]
  by (auto simp del: inj_on_insert simp: prec_inj_def)

lemma kbo_rec_refl [simp]: "kbo_rec cfg s s = KBO_EQ"
  by (simp add: kbo_rec_eq)

lemma rec_args_EQ:
  assumes "length ss = length ts" and "\<And>s t. s \<in> set ss \<Longrightarrow> t \<in> set ts \<Longrightarrow> kbo_rec cfg s t = KBO_EQ \<Longrightarrow> s = t"
    and "kbo_rec_args cfg sd td ss ts = KBO_EQ"
  shows "ss = ts"
  using assms by (induction ss ts rule: list_induct2) (auto split: kbo_cmp.splits if_splits)

lemma kbo_rec_EQ: "prec_inj cfg s t \<Longrightarrow> kbo_rec cfg s t = KBO_EQ \<Longrightarrow> s = t"
proof (induction s arbitrary: t)
  case (CTR f ss)
  show ?case
  proof (rule ccontr)
    assume ne: "CTR f ss \<noteq> t"
    from CTR.prems(2) [unfolded kbo_rec_eq [of cfg "CTR f ss" t]] ne obtain g ts where
      t: "t = CTR g ts" and p: "kbo_prec cfg f = kbo_prec cfg g" and l: "length ss = length ts"
      and a: "kbo_rec_args cfg (kdom (CTR f ss) t) (kdom t (CTR f ss)) ss ts = KBO_EQ"
      by (auto split: if_splits trm.splits)
    have "ss = ts"
      using l _ a by (rule rec_args_EQ) (use CTR.IH prec_inj_child CTR.prems(1) t in blast)
    moreover have "f = g" using prec_inj_head CTR.prems(1) t p by blast
    ultimately show False using ne t by simp
  qed
qed (auto simp: kbo_rec_eq split: if_splits trm.splits)

text \<open>The first differing pair decides the lexicographic comparison.\<close>

lemma first_diff_spec:
  assumes "length ss = length ts" and "lin_clean st"
    and "kbo_first_diff force cfg ss ts st = (r, st')" and "\<not> kl_ub st'"
  shows "lin_clean st' \<and> \<not> kl_ub st \<and>
    (case r of
       None \<Rightarrow> ss = ts
     | Some (s, t, phi, cvar) \<Rightarrow> s \<noteq> t \<and> s \<in> set ss \<and> t \<in> set ts \<and> phi = kw cfg s - kw cfg t
         \<and> cvar = vcmp (\<lambda>i. kcnt s i - kcnt t i)
         \<and> (\<exists>us vs ws. ss = us @ s # vs \<and> ts = us @ t # ws))"
  using assms
proof (induction ss ts arbitrary: st rule: list_induct2)
  case Nil
  then show ?case by simp
next
  case (Cons s ss t ts)
  obtain ident st1 phi where v: "kbo_vortest force cfg s t st = (ident, st1, phi)" by (metis prod_cases3)
  note vs = vortest_spec [OF Cons.prems(1) v]
  show ?case
  proof (cases ident)
    case True
    then have run: "kbo_first_diff force cfg ss ts (kbo_lin_clear st1) = (r, st')"
      using Cons.prems(2) v by simp
    have st: "s = t" using True vs(1) by simp
    have "kl_bal st1 = (\<lambda>_. 0)" using vs(3) st by simp
    then have "lin_clean (kbo_lin_clear st1)" by (auto simp: kbo_lin_clear_def lin_clean_def clear_zero)
    from Cons.IH [OF this run Cons.prems(3)] vs(4) st show ?thesis
      by (cases r) (auto, metis append_Cons)
  next
    case False
    obtain cvar st2 where d: "kbo_lin_decide_clear st1 = (cvar, st2)" by fastforce
    have r: "r = Some (s, t, phi, cvar)" "st' = st2" using Cons.prems(2) v d False by auto
    have "kl_ub st2 = kl_ub st1" using d by (auto simp: kbo_lin_decide_clear_def split: prod.splits)
    then have nub: "\<not> kl_ub st1" using Cons.prems(3) r by simp
    from decide_clear_spec [OF vs(5) [OF nub] d] nub vs r False show ?thesis by auto
  qed
qed

lemma rec_args_diff:
  "s \<noteq> t \<Longrightarrow> kbo_rec cfg s t \<noteq> KBO_EQ \<Longrightarrow>
   kbo_rec_args cfg sd td (us @ s # vs) (us @ t # ws) =
     (case kbo_rec cfg s t of KBO_GT \<Rightarrow> if sd then KBO_GT else KBO_UN
      | KBO_LT \<Rightarrow> if td then KBO_LT else KBO_UN | _ \<Rightarrow> KBO_UN)"
  by (induction us) (auto split: kbo_cmp.splits)

lemma rec_args_same: "kbo_rec_args cfg sd td ss ss = KBO_EQ"
  by (induction ss) auto

text \<open>Once a push has gone past the end, the flag stays.\<close>

lemma vortest_ub: "kbo_vortest force cfg s t st = (ident, st', phi) \<Longrightarrow> kl_ub st \<Longrightarrow> kl_ub st'"
  using vortest_loop_spec [of force cfg "[(s, t)]" True st 0 ident st' phi]
  by (simp add: kbo_vortest_def lin_step_def)

lemma decide_ub: "kbo_lin_decide_clear st = (erg, st') \<Longrightarrow> kl_ub st' = kl_ub st"
  by (auto simp: kbo_lin_decide_clear_def split: prod.splits)

lemma first_diff_ub: "kbo_first_diff force cfg ss ts st = (r, st') \<Longrightarrow> kl_ub st \<Longrightarrow> kl_ub st'"
  by (induction force cfg ss ts st rule: kbo_first_diff.induct)
    (auto simp: Let_def decide_ub dest: vortest_ub split: prod.splits if_splits)

lemma rek_loop_ub:
  "kbo_rek_loop force cfg s t phi v vstack st = (terminal, vstack', st') \<Longrightarrow> kl_ub st \<Longrightarrow> kl_ub st'"
proof (induction force cfg s t phi v vstack st rule: kbo_rek_loop.induct)
  case (1 force cfg s t phi v vstack st)
  from 1(2) show ?case
    unfolding kbo_rek_loop.simps [of force cfg s t]
    using 1(1,3) first_diff_ub
    by (auto split: option.splits trm.splits if_splits prod.splits)
qed

text \<open>One level of the decision, as the naive comparator takes it.\<close>

lemma rek_loop_spec:
  assumes "prec_inj cfg s t" and "s \<noteq> t" and "lin_clean st"
    and "kbo_rek_loop force cfg s t (kw cfg s - kw cfg t) (vcmp (\<lambda>i. kcnt s i - kcnt t i)) vstack st
      = (terminal, vstack', st')"
    and "\<not> kl_ub st'"
  shows "fold kbo_map_through vstack' terminal = fold kbo_map_through vstack (kbo_rec cfg s t)
    \<and> lin_clean st' \<and> \<not> kl_ub st"
  using assms
proof (induction "tsize s" arbitrary: s t vstack st rule: less_induct)
  case less
  let ?phi = "kw cfg s - kw cfg t"
  let ?v = "vcmp (\<lambda>i. kcnt s i - kcnt t i)"
  note dom = vcmp_dom [where s = s and t = t]
  show ?case
  proof (cases "kbo_phi_verdict ?v ?phi")
    case (Some here)
    then have "terminal = here" "vstack' = vstack" "st' = st"
      using less.prems(4) by (auto simp: kbo_rek_loop.simps)
    moreover have "kbo_rec cfg s t = here"
      using Some less.prems(2) unfolding kbo_rec_eq [of cfg s t] dom
      by (cases ?v) (auto simp: kbo_phi_verdict_def split: if_splits)
    ultimately show ?thesis using less.prems by simp
  next
    case None
    have phi: "kw cfg s = kw cfg t" and vun: "?v \<noteq> KBO_UN"
      using None by (auto simp: kbo_phi_verdict_def split: kbo_cmp.splits if_splits)
    have nd: "\<not> (\<not> kdom s t \<and> \<not> kdom t s)" using vun dom by (cases ?v) auto
    show ?thesis
    proof (cases "is_ctr s \<and> is_ctr t")
      case False
      then have "terminal = KBO_UN" "vstack' = vstack" "st' = st"
        using less.prems(4) None by (cases s; cases t; auto simp: kbo_rek_loop.simps)+
      moreover have "kbo_rec cfg s t = KBO_UN"
        using False less.prems(2) nd phi unfolding kbo_rec_eq [of cfg s t] by (cases s; cases t) auto
      ultimately show ?thesis using less.prems by simp
    next
      case True
      then obtain f ss g ts where st: "s = CTR f ss" "t = CTR g ts" by (cases s; cases t) auto
      have rec: "kbo_rec cfg s t =
          (if kbo_prec cfg f > kbo_prec cfg g then (if kdom s t then KBO_GT else KBO_UN)
           else if kbo_prec cfg f < kbo_prec cfg g then (if kdom t s then KBO_LT else KBO_UN)
           else if length ss \<noteq> length ts then KBO_UN
           else kbo_rec_args cfg (kdom s t) (kdom t s) ss ts)"
        using less.prems(2) nd phi unfolding st kbo_rec_eq [of cfg "CTR f ss" "CTR g ts"]
        by (auto simp del: kw.simps trm.inject)
      show ?thesis
      proof (cases "f = g \<and> length ss = length ts")
        case False
        then have "terminal = kbo_rec cfg s t" "vstack' = vstack" "st' = st"
          using less.prems(4) None prec_inj_head [of cfg f ss g ts] less.prems(1) dom vun unfolding rec
          by (cases ?v; force simp: kbo_rek_loop.simps st split: if_splits)+
        then show ?thesis using less.prems by simp
      next
        case fg: True
        obtain r st2 where fd: "kbo_first_diff force cfg ss ts st = (r, st2)" by fastforce
        have run: "(case r of None \<Rightarrow> (KBO_EQ, vstack, st2)
             | Some (cs, ct, phi', cvar) \<Rightarrow> kbo_rek_loop force cfg cs ct phi' cvar (?v # vstack) st2)
           = (terminal, vstack', st')"
          using less.prems(4) [unfolded kbo_rek_loop.simps [of force cfg s t]] None fg fd
          by (simp add: st del: kw.simps kcnt.simps)
        show ?thesis
        proof (cases r)
          case None
          then have "\<not> kl_ub st2" using run less.prems(5) by simp
          from first_diff_spec [OF _ less.prems(3) fd this] None fg st less.prems(2) show ?thesis by simp
        next
          case (Some q)
          obtain cs ct phi' cvar where q: "q = (cs, ct, phi', cvar)" by (metis prod_cases4)
          have run': "kbo_rek_loop force cfg cs ct phi' cvar (?v # vstack) st2 = (terminal, vstack', st')"
            using run Some q by simp
          have nub: "\<not> kl_ub st2" using rek_loop_ub [OF run'] less.prems(5) by blast
          from first_diff_spec [OF _ less.prems(3) fd nub] fg Some q
          have d: "lin_clean st2" "\<not> kl_ub st" "cs \<noteq> ct" "cs \<in> set ss" "ct \<in> set ts"
              "phi' = kw cfg cs - kw cfg ct" "cvar = vcmp (\<lambda>i. kcnt cs i - kcnt ct i)"
              "\<exists>us vs ws. ss = us @ cs # vs \<and> ts = us @ ct # ws" by auto
          have inj: "prec_inj cfg cs ct" using prec_inj_child less.prems(1) st d(4,5) by blast
          have small: "tsize cs < tsize s" unfolding st using d(4) by (rule tsize_child)
          have IH: "fold kbo_map_through vstack' terminal = fold kbo_map_through (?v # vstack) (kbo_rec cfg cs ct)
              \<and> lin_clean st' \<and> \<not> kl_ub st2"
            by (rule less.hyps [OF small inj d(3,1) run' [unfolded d(6,7)] less.prems(5)])
          have "kbo_rec cfg s t = kbo_map_through ?v (kbo_rec cfg cs ct)"
          proof -
            have ne: "kbo_rec cfg cs ct \<noteq> KBO_EQ" using kbo_rec_EQ [OF inj] d(3) by blast
            obtain us vs ws where "ss = us @ cs # vs" "ts = us @ ct # ws" using d(8) by blast
            then have "kbo_rec_args cfg (kdom s t) (kdom t s) ss ts
              = (case kbo_rec cfg cs ct of KBO_GT \<Rightarrow> if kdom s t then KBO_GT else KBO_UN
                 | KBO_LT \<Rightarrow> if kdom t s then KBO_LT else KBO_UN | _ \<Rightarrow> KBO_UN)"
              using rec_args_diff [OF d(3) ne] by simp
            then show ?thesis using fg ne vun unfolding rec dom
              by (cases ?v; cases "kbo_rec cfg cs ct") auto
          qed
          then show ?thesis using IH d(2) by simp
        qed
      qed
    qed
  qed
qed


text \<open>
  The two comparators give one verdict: whichever way the subtrees are accumulated, as long as
  no push went past the end of the touched array.
\<close>

lemma compare_core_naive:
  assumes "prec_inj cfg s t" and "kl_bal st0 = (\<lambda>_. 0)"
    and "kbo_compare_core force cfg s t st0 = (erg, st')" and "\<not> kl_ub st'"
  shows "erg = thvm_kbo_naive cfg s t \<and> kl_bal st' = (\<lambda>_. 0)"
proof -
  let ?st = "st0\<lparr>kl_touched := []\<rparr>"
  have clean: "lin_clean ?st" using assms(2) by (simp add: lin_clean_def)
  obtain ident st1 phi where v: "kbo_vortest force cfg s t ?st = (ident, st1, phi)" by (metis prod_cases3)
  note vs = vortest_spec [OF clean v]
  show ?thesis
  proof (cases ident)
    case True
    then show ?thesis using assms(3) v vs(1,3)
      by (auto simp: kbo_compare_core_def thvm_kbo_naive_def kbo_lin_clear_def clear_zero)
  next
    case False
    obtain varcmp st2 where d: "kbo_lin_decide_clear st1 = (varcmp, st2)" by fastforce
    obtain terminal vstack st3 where l: "kbo_rek_loop force cfg s t phi varcmp [] st2 = (terminal, vstack, st3)"
      by (metis prod_cases3)
    have r: "erg = fold kbo_map_through vstack terminal" "st' = st3"
      using assms(3) v False d l by (auto simp: kbo_compare_core_def kbo_lin_rek_def)
    have nub: "\<not> kl_ub st1" using rek_loop_ub [OF l] decide_ub [OF d] assms(4) r by blast
    note ds = decide_clear_spec [OF vs(5) [OF nub] d]
    have ne: "s \<noteq> t" using False vs(1) by simp
    have "fold kbo_map_through vstack terminal = fold kbo_map_through [] (kbo_rec cfg s t)
        \<and> lin_clean st3 \<and> \<not> kl_ub st2"
      by (rule rek_loop_spec [OF assms(1) ne ds(2) l [unfolded ds(1) vs(2,3)]]) (use assms(4) r in simp)
    then show ?thesis using r by (simp add: thvm_kbo_naive_def lin_clean_def)
  qed
qed

subsection \<open>The array is long enough\<close>

text \<open>
  Every push is a bump at a variable occurrence of one of the two terms, so terms with together
  at most 64 occurrences cannot overflow touched[].
\<close>

fun nvars :: "trm \<Rightarrow> nat" where
  "nvars (FVR x) = 1"
| "nvars (CTR l ts) = sum_list (map nvars ts)"
| "nvars (ATM g e v) = 0"

definition lin_pushes :: "kbo_lin \<Rightarrow> kbo_lin \<Rightarrow> nat \<Rightarrow> bool" where
  "lin_pushes st st' k \<longleftrightarrow>
     (\<not> kl_ub st \<longrightarrow> length (kl_touched st) + k \<le> KBO_MAX_VAR
        \<longrightarrow> \<not> kl_ub st' \<and> length (kl_touched st') \<le> length (kl_touched st) + k)"

lemma lin_pushes_refl: "lin_pushes st st k"
  by (simp add: lin_pushes_def)

lemma lin_pushes_trans: "lin_pushes a b k \<Longrightarrow> lin_pushes b c m \<Longrightarrow> lin_pushes a c (k + m)"
  by (auto simp: lin_pushes_def)

lemma lin_pushes_mono: "lin_pushes a b k \<Longrightarrow> k \<le> m \<Longrightarrow> lin_pushes a b m"
  by (auto simp: lin_pushes_def)

lemma bump_pushes: "lin_pushes st (kbo_bump i d st) 1"
  by (auto simp: lin_pushes_def kbo_bump_def Let_def)

lemma addvars_walk_pushes: "lin_pushes st (kbo_addvars_walk sg stack st) (sum_list (map nvars stack))"
proof (induction sg stack st rule: kbo_addvars_walk.induct)
  case (2 sg x stack st)
  from lin_pushes_trans [OF bump_pushes this] show ?case by simp
qed (auto simp: lin_pushes_refl rev_map [symmetric])

lemma addto_walk_pushes:
  "kbo_lin_addto_walk cfg sg stack (st, phi) = (st', phi') \<Longrightarrow> lin_pushes st st' (sum_list (map nvars stack))"
proof (induction cfg sg stack "(st, phi)" arbitrary: st phi rule: kbo_lin_addto_walk.induct)
  case (2 cfg sg x stack)
  then have "lin_pushes (kbo_bump (unat x) sg st) st' (sum_list (map nvars stack))" by simp
  from lin_pushes_trans [OF bump_pushes this] show ?case by simp
qed (auto simp: lin_pushes_refl rev_map [symmetric])

lemma vprof_add_length: "kbo_vprof_add ps i d = Some qs \<Longrightarrow> length qs \<le> Suc (length ps)"
proof -
  have "vprof_bump ps i d = Some qs \<Longrightarrow> length qs = length ps" for qs
    by (induction ps i d arbitrary: qs rule: vprof_bump.induct) (auto split: if_splits)
  then show "kbo_vprof_add ps i d = Some qs \<Longrightarrow> length qs \<le> Suc (length ps)"
    by (force simp: kbo_vprof_add_def split: option.splits if_splits)
qed

lemma vprof_add_all_length: "vprof_add_all ps qs = Some rs \<Longrightarrow> length rs \<le> length ps + length qs"
proof (induction ps qs rule: vprof_add_all.induct)
  case (2 ps i c qs)
  then show ?case using vprof_add_length by (force split: option.splits)
qed simp

lemma kbo_memo_length: "kbo_memo cfg t = (w, Some ps) \<Longrightarrow> length ps \<le> nvars t"
proof (induction t arbitrary: w ps)
  case (CTR l ts)
  let ?step = "\<lambda>c (w, ps).
       case c of
         FVR x \<Rightarrow> (w + int (kc_var_weight cfg),
                   if unat x < KBO_MAX_VAR then Option.bind ps (\<lambda>ps. kbo_vprof_add ps (unat x) 1) else ps)
       | CTR g us \<Rightarrow> (let (w', qs) = kbo_memo cfg c
                      in (w + w', case qs of None \<Rightarrow> None | Some qs \<Rightarrow> Option.bind ps (\<lambda>ps. vprof_add_all ps qs)))
       | ATM g e v \<Rightarrow> (w, ps)"
  have step: "\<exists>rs. ps = Some rs \<and> length qs \<le> length rs + nvars c"
    if "?step c (w, ps) = (w', Some qs)" and "c \<in> set ts" for c w ps w' qs
  proof (cases c)
    case (FVR x)
    with that(1) show ?thesis
      by (auto simp: option_bind_Some_conv dest: vprof_add_length split: if_splits)
  next
    case c: (CTR g us)
    obtain w1 p1 where m: "kbo_memo cfg c = (w1, p1)" by fastforce
    with that(1) c obtain rs ps1 where "p1 = Some ps1" "ps = Some rs" "vprof_add_all rs ps1 = Some qs"
      by (auto simp: option_bind_Some_conv simp del: kbo_memo.simps nvars.simps split: option.splits)
    then show ?thesis using CTR.IH [OF that(2)] m vprof_add_all_length by fastforce
  next
    case (ATM g e v)
    with that(1) show ?thesis by auto
  qed
  have "\<exists>rs. ps = Some rs \<and> length qs \<le> length rs + sum_list (map nvars us)"
    if "fold ?step us (w, ps) = (w', Some qs)" and "set us \<subseteq> set ts" for us w ps w' qs
    using that
  proof (induction us arbitrary: w ps)
    case (Cons c us)
    obtain w1 p1 where c: "?step c (w, ps) = (w1, p1)" by fastforce
    have "fold ?step us (w1, p1) = (w', Some qs)" using Cons.prems(1) c by (simp only: fold_simps)
    then obtain rs where rs: "p1 = Some rs" "length qs \<le> length rs + sum_list (map nvars us)"
      using Cons.IH Cons.prems(2) by auto
    show ?case using step [OF c [unfolded rs(1)]] Cons.prems(2) rs(2) by fastforce
  qed auto
  from this [of ts "int (kbo_weight cfg l)" "Some []" w ps] CTR.prems show ?case by auto
qed auto

lemma fold_bump_pushes: "lin_pushes st (fold (\<lambda>(i, c). kbo_bump i (sg * c)) ps st) (length ps)"
proof (induction ps arbitrary: st)
  case (Cons p ps)
  show ?case using lin_pushes_trans [OF bump_pushes Cons.IH] by (cases p) simp
qed (simp add: lin_pushes_refl)

lemma lin_addto_pushes:
  assumes "kbo_lin_addto force cfg t sg (st, phi) = (st', phi')"
  shows "lin_pushes st st' (nvars t)"
proof (cases force)
  case True
  then show ?thesis using addto_walk_pushes [of cfg sg "[t]" st phi st' phi'] assms
    by (simp add: kbo_lin_addto_def)
next
  case False
  show ?thesis
  proof (cases t)
    case (FVR x)
    then show ?thesis using assms False bump_pushes by (auto simp: kbo_lin_addto_def)
  next
    case (CTR l ts)
    obtain w ps where m: "kbo_memo cfg t = (w, ps)" by fastforce
    show ?thesis
    proof (cases ps)
      case None
      then show ?thesis using assms False CTR m addvars_walk_pushes [of st sg "[t]"]
        by (auto simp: kbo_lin_addto_def simp del: nvars.simps kbo_memo.simps kbo_addvars_walk.simps)
    next
      case (Some qs)
      have "lin_pushes st (fold (\<lambda>(i, c). kbo_bump i (sg * c)) qs st) (nvars t)"
        using fold_bump_pushes kbo_memo_length m Some by (blast intro: lin_pushes_mono)
      then show ?thesis using assms False CTR m Some
        by (auto simp: kbo_lin_addto_def simp del: nvars.simps kbo_memo.simps)
    qed
  next
    case (ATM g e v)
    then show ?thesis using assms False by (auto simp: kbo_lin_addto_def lin_pushes_refl)
  qed
qed


lemma zip_nvars_le:
  "sum_list (map (\<lambda>(s, t). nvars s + nvars t) (zip ss ts)) \<le> sum_list (map nvars ss) + sum_list (map nvars ts)"
  by (induction ss ts rule: list_induct2') auto

lemma vortest_loop_pushes:
  "kbo_vortest_loop force cfg stack ident (st, phi) = (ident', st', phi') \<Longrightarrow>
     lin_pushes st st' (sum_list (map (\<lambda>(s, t). nvars s + nvars t) stack))"
proof (induction "sum_list (map (tsize \<circ> fst) stack)" arbitrary: stack ident st phi rule: less_induct)
  case (less stack0)
  show ?case
  proof (cases stack0)
    case Nil
    with less.prems show ?thesis by (simp add: lin_pushes_refl)
  next
    case (Cons p stack)
    obtain s t where p: "p = (s, t)" by fastforce
    note stack0 = Cons [unfolded p]
    have small: "sum_list (map (tsize \<circ> fst) stack) < sum_list (map (tsize \<circ> fst) stack0)"
      by (simp add: stack0)
    show ?thesis
    proof (cases "s = t")
      case True
      with less.prems have "kbo_vortest_loop force cfg stack ident (st, phi) = (ident', st', phi')"
        by (simp add: stack0)
      from less.hyps [OF small this] show ?thesis by (rule lin_pushes_mono) (simp add: stack0)
    next
      case ne: False
      show ?thesis
      proof (cases "\<exists>f ss ts. s = CTR f ss \<and> t = CTR f ts \<and> length ss = length ts")
        case True
        then obtain f ss ts where st: "s = CTR f ss" "t = CTR f ts" "length ss = length ts" by blast
        have run: "kbo_vortest_loop force cfg (rev (zip ss ts) @ stack) ident (st, phi) = (ident', st', phi')"
          using less.prems ne st by (simp add: stack0)
        have "sum_list (map (tsize \<circ> fst) (rev (zip ss ts) @ stack)) < sum_list (map (tsize \<circ> fst) stack0)"
          using zip_size_le [of ss ts] by (simp add: stack0 st(1) rev_map [symmetric])
        from less.hyps [OF this run] show ?thesis
          by (rule lin_pushes_mono) (use zip_nvars_le [of ss ts] in \<open>simp add: stack0 st rev_map [symmetric]\<close>)
      next
        case False
        obtain st1 phi1 where a1: "kbo_lin_addto force cfg s 1 (st, phi) = (st1, phi1)" by fastforce
        obtain st2 phi2 where a2: "kbo_lin_addto force cfg t (-1) (st1, phi1) = (st2, phi2)" by fastforce
        have "kbo_vortest_loop force cfg stack False (st2, phi2) = (ident', st', phi')"
          using less.prems ne False a1 a2 by (cases s; cases t) (auto simp: stack0)
        from lin_pushes_trans [OF lin_pushes_trans [OF lin_addto_pushes [OF a1] lin_addto_pushes [OF a2]]
            less.hyps [OF small this]]
        show ?thesis by (simp add: stack0)
      qed
    qed
  qed
qed

lemma vortest_pushes:
  assumes "kbo_vortest force cfg s t st = (ident, st', phi)"
    and "kl_touched st = []" and "\<not> kl_ub st" and "nvars s + nvars t \<le> KBO_MAX_VAR"
  shows "\<not> kl_ub st'"
  using vortest_loop_pushes [of force cfg "[(s, t)]" True st 0 ident st' phi] assms
  by (simp add: kbo_vortest_def lin_pushes_def)

lemma nvars_child: "t \<in> set ts \<Longrightarrow> nvars t \<le> nvars (CTR l ts)"
  by (simp add: sum_list_member_le)

lemma first_diff_pushes:
  "kbo_first_diff force cfg ss ts st = (r, st') \<Longrightarrow> kl_touched st = [] \<Longrightarrow> \<not> kl_ub st \<Longrightarrow>
   (\<And>s t. s \<in> set ss \<Longrightarrow> t \<in> set ts \<Longrightarrow> nvars s + nvars t \<le> KBO_MAX_VAR) \<Longrightarrow>
   \<not> kl_ub st' \<and> kl_touched st' = []"
proof (induction force cfg ss ts st rule: kbo_first_diff.induct)
  case (1 force cfg s ss t ts st)
  obtain ident st1 phi where v: "kbo_vortest force cfg s t st = (ident, st1, phi)" by (metis prod_cases3)
  have nub: "\<not> kl_ub st1" using vortest_pushes [OF v "1.prems"(2,3)] "1.prems"(4) by simp
  show ?case
  proof (cases ident)
    case True
    have "kl_touched (kbo_lin_clear st1) = []" by (simp add: kbo_lin_clear_def)
    then show ?thesis
      using "1.IH" [OF v [symmetric] refl refl True] "1.prems" v True nub by (auto simp: Let_def)
  next
    case False
    then show ?thesis using "1.prems"(1) v nub by (auto simp: kbo_lin_decide_clear_def split: prod.splits)
  qed
qed auto

lemma rek_loop_pushes:
  "kbo_rek_loop force cfg s t phi v vstack st = (terminal, vstack', st') \<Longrightarrow> kl_touched st = [] \<Longrightarrow>
   \<not> kl_ub st \<Longrightarrow> nvars s + nvars t \<le> KBO_MAX_VAR \<Longrightarrow> \<not> kl_ub st'"
proof (induction "tsize s" arbitrary: s t phi v vstack st rule: less_induct)
  case less
  show ?case
  proof (cases "\<exists>f ss ts. s = CTR f ss \<and> t = CTR f ts \<and> length ss = length ts \<and> kbo_phi_verdict v phi = None")
    case False
    then have "st' = st"
      using less.prems(1) [unfolded kbo_rek_loop.simps [of force cfg s t]]
      by (cases s; cases t) (auto split: option.splits if_splits)
    then show ?thesis using less.prems by simp
  next
    case True
    then obtain f ss ts where st: "s = CTR f ss" "t = CTR f ts" "length ss = length ts"
      and ph: "kbo_phi_verdict v phi = None" by blast
    obtain r st2 where fd: "kbo_first_diff force cfg ss ts st = (r, st2)" by fastforce
    have small: "nvars a + nvars b \<le> KBO_MAX_VAR" if "a \<in> set ss" "b \<in> set ts" for a b
      using nvars_child [OF that(1), of f] nvars_child [OF that(2), of f] less.prems(4) [unfolded st(1,2)]
      by linarith
    note p = first_diff_pushes [OF fd less.prems(2,3) small]
    show ?thesis
    proof (cases r)
      case None
      then show ?thesis using less.prems(1) [unfolded kbo_rek_loop.simps [of force cfg s t]] ph fd p
        by (simp add: st)
    next
      case (Some q)
      obtain cs ct phi' cvar where q: "q = (cs, ct, phi', cvar)" by (metis prod_cases4)
      have m: "cs \<in> set ss" "ct \<in> set ts" using first_diff_member fd Some q by blast+
      have run: "kbo_rek_loop force cfg cs ct phi' cvar (v # vstack) st2 = (terminal, vstack', st')"
        using less.prems(1) [unfolded kbo_rek_loop.simps [of force cfg s t]] ph fd Some q st(3)
        by (simp add: st(1,2))
      have "tsize cs < tsize s" unfolding st using m(1) by (rule tsize_child)
      then show ?thesis using less.hyps [OF _ run] p small m by blast
    qed
  qed
qed

lemma compare_core_no_overflow:
  assumes "nvars s + nvars t \<le> KBO_MAX_VAR" and "\<not> kl_ub st0"
    and "kbo_compare_core force cfg s t st0 = (erg, st')"
  shows "\<not> kl_ub st'"
proof -
  obtain ident st1 phi where v: "kbo_vortest force cfg s t (st0\<lparr>kl_touched := []\<rparr>) = (ident, st1, phi)"
    by (metis prod_cases3)
  have nub: "\<not> kl_ub st1" using vortest_pushes [OF v] assms(1,2) by simp
  show ?thesis
  proof (cases ident)
    case True
    then show ?thesis using assms(3) v nub by (auto simp: kbo_compare_core_def)
  next
    case False
    obtain varcmp st2 where d: "kbo_lin_decide_clear st1 = (varcmp, st2)" by fastforce
    obtain terminal vstack st3 where l: "kbo_rek_loop force cfg s t phi varcmp [] st2 = (terminal, vstack, st3)"
      by (metis prod_cases3)
    have "kl_touched st2 = []" "\<not> kl_ub st2"
      using d nub by (auto simp: kbo_lin_decide_clear_def split: prod.splits)
    from rek_loop_pushes [OF l this assms(1)] show ?thesis
      using assms(3) v False d l by (auto simp: kbo_compare_core_def kbo_lin_rek_def)
  qed
qed


subsection \<open>The Knuth-Bendix ordering\<close>

text \<open>The verdict GT, as an ordering on terms.\<close>

definition kbo_gt :: "kbo_config \<Rightarrow> trm \<Rightarrow> trm \<Rightarrow> bool" where
  "kbo_gt cfg s t \<longleftrightarrow> kbo_rec cfg s t = KBO_GT"

subsection \<open>Properties\<close>

definition kbo_scope :: kbo_lin where
  "kbo_scope = \<lparr>kl_bal = \<lambda>_. 0, kl_touched = [], kl_ub = False\<rparr>"


text \<open>A configuration for the applications: three labels of weight one, the precedence their index.\<close>

definition kbo_cfg3 :: kbo_config where
  "kbo_cfg3 = \<lparr>kc_weights = [1, 1, 1], kc_precedence = [0, 1, 2], kc_n_labels = 3, kc_var_weight = 1\<rparr>"

lemma kbo_cfg3_prec: "unat l < 3 \<Longrightarrow> kbo_prec kbo_cfg3 l = unat l"
  by (auto simp: kbo_prec_def kbo_cfg3_def less_Suc_eq numeral_3_eq_3 nth_Cons split: nat.splits)

lemma kbo_cfg3_inj: "\<forall>l \<in> tlabels s \<union> tlabels t. unat l < 3 \<Longrightarrow> prec_inj kbo_cfg3 s t"
  unfolding prec_inj_def by (rule inj_onI) (metis kbo_cfg3_prec word_unat_eq_iff)


text \<open>
  Beyond the bound the array does overflow: a balance that leaves zero again is pushed again, so
  one variable that oscillates 65 times is enough.
\<close>

lemma kbo_touched_overflow:
  "kl_ub (snd (thvm_kbo_nomemo kbo_cfg3
      (CTR 2 (concat (replicate 33 [FVR 0, CTR 0 [], CTR 0 [], FVR 0])))
      (CTR 2 (concat (replicate 33 [CTR 0 [], FVR 0, FVR 0, CTR 0 []]))) kbo_scope))"
  by code_simp

text \<open>
  With two labels of one precedence the two comparators part: the naive one descends into the
  arguments, the production one returns UN.
\<close>

lemma kbo_equal_precedence_diverges:
  "let cfg = kbo_cfg3\<lparr>kc_precedence := [0, 1, 1]\<rparr>;
       s = CTR 1 [CTR 1 [CTR 0 []], CTR 0 []]; t = CTR 2 [CTR 0 [], CTR 1 [CTR 0 []]]
   in thvm_kbo_naive cfg s t = KBO_GT \<and> fst (thvm_kbo cfg s t kbo_scope) = KBO_UN"
  by code_simp

end
