(* ===== verification/Orders.thy ===== *)
theory Orders
  imports Rewrite
begin

text \<open>
  What the rewriter relies on when rules are oriented by a term ordering: the interface between
  the comparators (thvm_kbo, thvm_lpo and their variants) and the rewriter. An ordering is given
  by its verdict "greater" and by the terms on which its laws hold.
\<close>

locale rewrite_order =
  fixes gt :: "trm \<Rightarrow> trm \<Rightarrow> bool" and ok :: "trm \<Rightarrow> bool"
  assumes gt_irrefl: "\<not> gt s s"
    and gt_stable: "gt s t \<Longrightarrow> ok s \<Longrightarrow> ok t \<Longrightarrow> (\<And>x. ok (\<sigma> x)) \<Longrightarrow> gt (tsubst \<sigma> s) (tsubst \<sigma> t)"
    and gt_context: "gt s t \<Longrightarrow> ok (CTR f (us @ s # vs)) \<Longrightarrow> ok (CTR f (us @ t # vs))
      \<Longrightarrow> gt (CTR f (us @ s # vs)) (CTR f (us @ t # vs))"
    and ok_child: "ok (CTR f ts) \<Longrightarrow> t \<in> set ts \<Longrightarrow> ok t"
    and ok_subst: "ok t \<Longrightarrow> (\<And>x. ok (\<sigma> x)) \<Longrightarrow> ok (tsubst \<sigma> t)"
    and ok_replace: "ok (CTR f (us @ s # vs)) \<Longrightarrow> ok t \<Longrightarrow> ok (CTR f (us @ t # vs))"
    and ok_instance: "ok (tsubst \<sigma> t) \<Longrightarrow> x \<in> tvars t \<Longrightarrow> ok (\<sigma> x)"
    and ok_fvr: "ok t \<Longrightarrow> \<exists>x. ok (FVR x)"
begin

definition oriented :: "(trm \<times> trm) set \<Rightarrow> bool" where
  "oriented R \<longleftrightarrow> (\<forall>(l, r) \<in> R. gt l r \<and> ok l \<and> ok r \<and> tvars r \<subseteq> tvars l)"

lemma rstep_gt:
  assumes "rstep R s t" and "oriented R" and "ok s"
  shows "gt s t \<and> ok t"
  using assms
proof (induction rule: rstep.induct)
  case (root l r \<sigma>)
  then have lr: "gt l r" "ok l" "ok r" "tvars r \<subseteq> tvars l" by (auto simp: oriented_def)
  obtain y where y: "ok (FVR y)" using ok_fvr lr(2) by blast
  let ?\<tau> = "\<lambda>x. if x \<in> tvars l then \<sigma> x else FVR y"
  have ok: "ok (?\<tau> x)" for x using ok_instance root.prems(2) y by simp
  have "gt (tsubst ?\<tau> l) (tsubst ?\<tau> r)" "ok (tsubst ?\<tau> r)"
    using gt_stable [of l r ?\<tau>] ok_subst [of r ?\<tau>] lr ok by blast+
  moreover have "tsubst ?\<tau> l = tsubst \<sigma> l" by (rule tsubst_cong) simp
  moreover have "tsubst ?\<tau> r = tsubst \<sigma> r" by (rule tsubst_cong) (use lr(4) in auto)
  ultimately show ?case by simp
next
  case (arg s t f ss us)
  then have "gt s t \<and> ok t" using ok_child by auto
  then show ?case using gt_context [of s t f ss us] ok_replace arg.prems(2) by blast
qed

text \<open>A step of the rewriter with oriented rules goes down in the ordering or does nothing.\<close>

lemma rewrite_step_down:
  assumes "rules_ok rules" and "oriented (set rules)" and "ok t"
  shows "thvm_rewrite_step rules t = t \<or> gt t (thvm_rewrite_step rules t)"
  using rewrite_step_rstep [OF assms(1)] rstep_gt assms(2,3) by blast

lemma normalize_ok:
  assumes "rules_ok rules" and "oriented (set rules)" and "ok t"
  shows "ok (thvm_rewrite_normalize rules cap t)"
proof -
  have "(rstep (set rules))\<^sup>*\<^sup>* t u \<Longrightarrow> ok u" for u
    by (induction rule: rtranclp_induct) (use assms rstep_gt in blast)+
  then show ?thesis using normalize_rtranclp [OF assms(1)] by blast
qed

end

text \<open>With a well-founded ordering the bounded loop of thvm_rewrite_normalize ends for some bound.\<close>

locale reduction_order = rewrite_order +
  assumes gt_wf: "wfp (\<lambda>t s. ok s \<and> ok t \<and> gt s t)"
begin

lemma normalize_terminates:
  assumes r: "rules_ok rules" "oriented (set rules)" and "ok t"
  shows "\<exists>n. \<forall>cap \<ge> n. thvm_rewrite_step rules (thvm_rewrite_normalize rules cap t)
      = thvm_rewrite_normalize rules cap t"
  using gt_wf assms(3)
proof (induction t rule: wfp_induct_rule)
  case (less t)
  let ?t = "thvm_rewrite_step rules t"
  show ?case
  proof (cases "?t = t")
    case True
    have "thvm_rewrite_normalize rules cap t = t" for cap
      by (cases cap) (simp_all add: True)
    then show ?thesis using True by simp
  next
    case False
    then have "gt t ?t \<and> ok ?t" using rewrite_step_rstep [OF r(1)] rstep_gt r(2) less.prems by blast
    then obtain n where n: "\<forall>cap \<ge> n. thvm_rewrite_step rules (thvm_rewrite_normalize rules cap ?t)
        = thvm_rewrite_normalize rules cap ?t" using less.IH less.prems by blast
    have "\<forall>cap \<ge> Suc n. thvm_rewrite_step rules (thvm_rewrite_normalize rules cap t)
        = thvm_rewrite_normalize rules cap t"
    proof (intro allI impI)
      fix cap
      assume "Suc n \<le> cap"
      then obtain k where "cap = Suc k" "n \<le> k" by (cases cap) auto
      then show "thvm_rewrite_step rules (thvm_rewrite_normalize rules cap t) = thvm_rewrite_normalize rules cap t"
        using n False by (simp add: Let_def)
    qed
    then show ?thesis by blast
  qed
qed

end

end
