(* ===== verification/Path_Order.thy ===== *)
theory Path_Order
  imports Orders KBO "HOL-Library.Multiset"
begin

text \<open>
  The recursive path ordering as mathematics: the reference the comparators of src/lpo/_.c and
  src/rpo/_.c are measured against. Terms are taken modulo the permutations of the arguments of
  multiset-status symbols (datatype aterm), so that "equal or greater" is literally so. The
  theory shows that the ordering is a reduction order: irreflexive, transitive, closed under
  contexts and substitutions, well-founded. Nothing here is code.
\<close>

section \<open>Terms modulo permutation\<close>

datatype aterm = AV ext | AL ext "aterm list" | AM ext "aterm multiset"

primrec akids :: "aterm \<Rightarrow> aterm set" where
  "akids (AV x) = {}"
| "akids (AL f ts) = set ts"
| "akids (AM f M) = set_mset M"

primrec asize :: "aterm \<Rightarrow> nat" where
  "asize (AV x) = 1"
| "asize (AL f ts) = Suc (sum_list (map asize ts))"
| "asize (AM f M) = Suc (sum_mset (image_mset asize M))"

lemma asize_kid: "u \<in> akids t \<Longrightarrow> asize u < asize t"
proof (cases t)
  case (AM f M)
  assume "u \<in> akids t"
  then have "u \<in># M" using AM by simp
  then obtain N where "M = add_mset u N" by (blast dest: multi_member_split)
  then show ?thesis using AM by simp
qed (auto intro: sum_list_member_le [where f = asize, THEN le_imp_less_Suc])

primrec ahead :: "aterm \<Rightarrow> ext" where
  "ahead (AV x) = x"
| "ahead (AL f ts) = f"
| "ahead (AM f M) = f"

primrec is_node :: "aterm \<Rightarrow> bool" where
  "is_node (AV x) = False"
| "is_node (AL f ts) = True"
| "is_node (AM f M) = True"

section \<open>The ordering\<close>

text \<open>The two extensions: lexicographic on lists, and multiset after cancelling what is common.\<close>

fun lex_ext :: "('a \<Rightarrow> 'a \<Rightarrow> bool) \<Rightarrow> 'a list \<Rightarrow> 'a list \<Rightarrow> bool" where
  "lex_ext P (a # as) (b # bs) = (if a = b then lex_ext P as bs else P a b)"
| "lex_ext P _ _ = False"

definition mul_ext :: "('a \<Rightarrow> 'a \<Rightarrow> bool) \<Rightarrow> 'a multiset \<Rightarrow> 'a multiset \<Rightarrow> bool" where
  "mul_ext P M N \<longleftrightarrow> M - N \<noteq> {#} \<and> (\<forall>y \<in> set_mset (N - M). \<exists>x \<in> set_mset (M - N). P x y)"

lemma lex_ext_cong [fundef_cong]:
  "as = as' \<Longrightarrow> bs = bs' \<Longrightarrow> (\<And>a b. a \<in> set as' \<Longrightarrow> b \<in> set bs' \<Longrightarrow> P a b = Q a b)
   \<Longrightarrow> lex_ext P as bs = lex_ext Q as' bs'"
  by (induction as bs arbitrary: as' bs' rule: lex_ext.induct [where P = "\<lambda>_. _"]) auto

lemma mul_ext_cong [fundef_cong]:
  "M = M' \<Longrightarrow> N = N' \<Longrightarrow> (\<And>a b. a \<in> set_mset M' \<Longrightarrow> b \<in> set_mset N' \<Longrightarrow> P a b = Q a b)
   \<Longrightarrow> mul_ext P M N = mul_ext Q M' N'"
  unfolding mul_ext_def by (metis in_diffD)

fun args_ext :: "(aterm \<Rightarrow> aterm \<Rightarrow> bool) \<Rightarrow> aterm \<Rightarrow> aterm \<Rightarrow> bool" where
  "args_ext P (AL f as) (AL g bs) = (length as = length bs \<and> lex_ext P as bs)"
| "args_ext P (AM f M) (AM g N) = mul_ext P M N"
| "args_ext P _ _ = False"

lemma args_ext_cong [fundef_cong]:
  "s = s' \<Longrightarrow> t = t' \<Longrightarrow> (\<And>a b. a \<in> akids s' \<Longrightarrow> b \<in> akids t' \<Longrightarrow> P a b = Q a b)
   \<Longrightarrow> args_ext P s t = args_ext Q s' t'"
  by (cases s'; cases t') (simp_all cong: lex_ext_cong mul_ext_cong)

function pgt :: "(ext \<Rightarrow> nat) \<Rightarrow> aterm \<Rightarrow> aterm \<Rightarrow> bool" where
  "pgt pr s t \<longleftrightarrow>
     (\<exists>u \<in> akids s. u = t \<or> pgt pr u t)
     \<or> (is_node s \<and> is_node t \<and> (\<forall>b \<in> akids t. pgt pr s b)
        \<and> (pr (ahead s) > pr (ahead t) \<or> ahead s = ahead t \<and> args_ext (pgt pr) s t))"
  by pat_completeness auto
termination
proof (relation "measure (\<lambda>(pr, s, t). asize s + asize t)", goal_cases)
  case (4 pr s t a b)
  then show ?case using asize_kid [of a s] asize_kid [of b t] by simp
qed (auto dest: asize_kid)

declare pgt.simps [simp del]

text \<open>A step at the root, without the condition on the arguments of the smaller side.\<close>

definition proot :: "(ext \<Rightarrow> nat) \<Rightarrow> aterm \<Rightarrow> aterm \<Rightarrow> bool" where
  "proot pr s t \<longleftrightarrow> is_node s \<and> is_node t
     \<and> (pr (ahead s) > pr (ahead t) \<or> ahead s = ahead t \<and> args_ext (pgt pr) s t)"

lemma pgt_iff:
  "pgt pr s t \<longleftrightarrow> (\<exists>u \<in> akids s. u = t \<or> pgt pr u t) \<or> proot pr s t \<and> (\<forall>b \<in> akids t. pgt pr s b)"
  unfolding proot_def by (subst pgt.simps) blast

lemma pgt_kid: "u \<in> akids s \<Longrightarrow> pgt pr s u"
  by (subst pgt_iff) blast

lemma pgt_via: "u \<in> akids s \<Longrightarrow> u = t \<or> pgt pr u t \<Longrightarrow> pgt pr s t"
  by (subst pgt_iff) blast

lemma pgt_root: "proot pr s t \<Longrightarrow> (\<And>b. b \<in> akids t \<Longrightarrow> pgt pr s b) \<Longrightarrow> pgt pr s t"
  by (subst pgt_iff) blast

lemma pgt_cases [consumes 1, case_names kid root]:
  assumes "pgt pr s t"
  obtains u where "u \<in> akids s" "u = t \<or> pgt pr u t"
    | "proot pr s t" "\<And>b. b \<in> akids t \<Longrightarrow> pgt pr s b"
  using assms by (subst (asm) pgt_iff) blast

lemma not_pgt_AV [simp]: "\<not> pgt pr (AV x) t"
  by (subst pgt_iff) (simp add: proot_def)

section \<open>A strict partial order\<close>

lemma pgt_sub: "pgt pr s t \<Longrightarrow> b \<in> akids t \<Longrightarrow> pgt pr s b"
proof (induction "asize s" arbitrary: s rule: less_induct)
  case less
  from less.prems(1) show ?case
  proof (cases rule: pgt_cases)
    case (kid u)
    then have "pgt pr u b"
      using less.hyps [OF asize_kid [OF kid(1)]] less.prems(2) pgt_kid by blast
    then show ?thesis using pgt_via kid(1) by blast
  qed (use less.prems(2) in blast)
qed

lemma lex_ext_irrefl [simp]: "\<not> lex_ext P as as"
  by (induction as) auto

lemma mul_ext_irrefl [simp]: "\<not> mul_ext P M M"
  by (simp add: mul_ext_def)

lemma proot_irrefl [simp]: "\<not> proot pr s s"
  by (cases s) (auto simp: proot_def)

lemma pgt_irrefl: "\<not> pgt pr s s"
proof (induction "asize s" arbitrary: s rule: less_induct)
  case less
  show ?case
  proof
    assume "pgt pr s s"
    then show False
    proof (cases rule: pgt_cases)
      case (kid u)
      have "u \<noteq> s" using asize_kid [OF kid(1)] by auto
      then have "pgt pr u u" using kid pgt_sub by blast
      then show False using less.hyps asize_kid [OF kid(1)] by blast
    qed simp
  qed
qed

lemma lex_ext_trans:
  assumes "lex_ext P as bs" and "lex_ext P bs cs"
    and "\<And>a b c. a \<in> set as \<Longrightarrow> b \<in> set bs \<Longrightarrow> c \<in> set cs \<Longrightarrow> P a b \<Longrightarrow> P b c \<Longrightarrow> P a c"
    and "\<And>a b. a \<in> set as \<Longrightarrow> b \<in> set bs \<Longrightarrow> P a b \<Longrightarrow> \<not> P b a"
  shows "lex_ext P as cs"
  using assms
proof (induction P as bs arbitrary: cs rule: lex_ext.induct)
  case (1 P a as b bs)
  then obtain c cs' where cs: "cs = c # cs'" by (cases cs) auto
  show ?case
  proof (cases "a = b \<and> b = c")
    case True
    then show ?thesis using 1 cs by auto
  next
    case False
    then show ?thesis using 1(2-) cs by (auto split: if_splits)
  qed
qed auto

text \<open>The multiset extension on elements where the relation is a strict order is the library's.\<close>

lemma mul_ext_multp:
  assumes "set_mset M \<union> set_mset N \<subseteq> A" and "\<And>a. a \<in> A \<Longrightarrow> \<not> P a a"
    and "\<And>a b c. a \<in> A \<Longrightarrow> b \<in> A \<Longrightarrow> c \<in> A \<Longrightarrow> P a b \<Longrightarrow> P b c \<Longrightarrow> P a c"
  shows "mul_ext P M N \<longleftrightarrow> multp (\<lambda>y x. P x y \<and> x \<in> A \<and> y \<in> A) N M"
proof -
  let ?R = "\<lambda>y x. P x y \<and> x \<in> A \<and> y \<in> A"
  have "irreflp_on (set_mset N \<inter> set_mset M) ?R" using assms(2) by (auto intro: irreflp_onI)
  moreover have "transp ?R" by (rule transpI) (use assms(3) in blast)
  ultimately have "multp_code ?R N M \<longleftrightarrow> multp ?R N M" by (rule multp_code_iff_multp)
  moreover have sub: "x \<in># M - N \<Longrightarrow> x \<in> A" "x \<in># N - M \<Longrightarrow> x \<in> A" for x
    using assms(1) by (meson in_diffD UnCI subsetD)+
  have "multp_code ?R N M \<longleftrightarrow> mul_ext P M N"
    unfolding multp_code_def mul_ext_def Let_def using sub
    by (simp add: diff_intersect_left_idem diff_intersect_right_idem)
  ultimately show ?thesis by simp
qed

lemma mul_ext_trans:
  assumes "mul_ext P M N" and "mul_ext P N K"
    and "set_mset M \<union> set_mset N \<union> set_mset K \<subseteq> A" and "\<And>a. a \<in> A \<Longrightarrow> \<not> P a a"
    and "\<And>a b c. a \<in> A \<Longrightarrow> b \<in> A \<Longrightarrow> c \<in> A \<Longrightarrow> P a b \<Longrightarrow> P b c \<Longrightarrow> P a c"
  shows "mul_ext P M K"
proof -
  let ?R = "\<lambda>y x. P x y \<and> x \<in> A \<and> y \<in> A"
  have i: "mul_ext P X Y \<longleftrightarrow> multp ?R Y X" if "set_mset X \<union> set_mset Y \<subseteq> A" for X Y
    using mul_ext_multp [of X Y A P] that assms(4,5) by blast
  have "multp ?R N M" "multp ?R K N" using i assms(1-3) by auto
  then have "multp ?R K M" unfolding multp_def mult_def using trancl_trans by fast
  then show ?thesis using i assms(3) by auto
qed

lemma args_ext_trans:
  assumes "args_ext P s t" and "args_ext P t u"
    and "\<And>a. a \<in> akids s \<union> akids t \<union> akids u \<Longrightarrow> \<not> P a a"
    and "\<And>a b c. a \<in> akids s \<union> akids t \<union> akids u \<Longrightarrow> b \<in> akids s \<union> akids t \<union> akids u
      \<Longrightarrow> c \<in> akids s \<union> akids t \<union> akids u \<Longrightarrow> P a b \<Longrightarrow> P b c \<Longrightarrow> P a c"
  shows "args_ext P s u"
proof (cases s)
  case (AL f as)
  then obtain bs cs g h where t: "t = AL g bs" "length as = length bs" "lex_ext P as bs"
      and u: "u = AL h cs" "length bs = length cs" "lex_ext P bs cs"
    using assms(1,2) by (cases t; cases u) auto
  have "lex_ext P as cs" using t(3) u(3)
  proof (rule lex_ext_trans)
    show "P a c" if "a \<in> set as" "b \<in> set bs" "c \<in> set cs" "P a b" "P b c" for a b c
      using assms(4) [of a b c] that AL t u by simp
    show "\<not> P b a" if "a \<in> set as" "b \<in> set bs" "P a b" for a b
      using assms(3) [of a] assms(4) [of a b a] that AL t by auto
  qed
  then show ?thesis using AL t u by simp
next
  case (AM f M)
  then obtain N K g h where t: "t = AM g N" "mul_ext P M N" and u: "u = AM h K" "mul_ext P N K"
    using assms(1,2) by (cases t; cases u) auto
  have "mul_ext P M K"
    using t(2) u(2)
  proof (rule mul_ext_trans [where A = "akids s \<union> akids t \<union> akids u"])
    show "set_mset M \<union> set_mset N \<union> set_mset K \<subseteq> akids s \<union> akids t \<union> akids u" using AM t u by auto
  qed (rule assms(3), assumption, rule assms(4))
  then show ?thesis using AM t u by simp
qed (use assms in simp)

lemma proot_trans:
  assumes "proot pr s t" and "proot pr t u"
    and "\<And>a b c. a \<in> akids s \<union> akids t \<union> akids u \<Longrightarrow> b \<in> akids s \<union> akids t \<union> akids u
      \<Longrightarrow> c \<in> akids s \<union> akids t \<union> akids u \<Longrightarrow> pgt pr a b \<Longrightarrow> pgt pr b c \<Longrightarrow> pgt pr a c"
  shows "proot pr s u"
  using assms args_ext_trans [of "pgt pr" s t u] pgt_irrefl unfolding proot_def
  by (metis less_trans)

lemma pgt_trans_upto:
  "asize s \<le> n \<Longrightarrow> asize t \<le> n \<Longrightarrow> asize u \<le> n \<Longrightarrow> pgt pr s t \<Longrightarrow> pgt pr t u \<Longrightarrow> pgt pr s u"
proof (induction n arbitrary: s t u)
  case 0
  then show ?case by (cases s) auto
next
  case (Suc n)
  show ?case using Suc.prems
  proof (induction "asize s + asize t + asize u" arbitrary: s t u rule: less_induct)
    case less
    note tu = \<open>pgt pr t u\<close> and IH = less.hyps
    from \<open>pgt pr s t\<close> show ?case
    proof (cases rule: pgt_cases)
      case (kid v)
      have "v = t \<or> pgt pr v t \<Longrightarrow> pgt pr v u"
        using IH [of v t u] asize_kid [OF kid(1)] less.prems tu by auto
      then show ?thesis using pgt_via kid by blast
    next
      case st: root
      from tu show ?thesis
      proof (cases rule: pgt_cases)
        case (kid b)
        then show ?thesis using st(2) [OF kid(1)] IH [of s b u] asize_kid [OF kid(1)] less.prems by auto
      next
        case tu: root
        have "pgt pr s c" if "c \<in> akids u" for c
          using IH [of s t c] asize_kid [OF that] tu(2) [OF that] less.prems by auto
        moreover have "asize a \<le> n" if "a \<in> akids s \<union> akids t \<union> akids u" for a
          using that asize_kid [of a s] asize_kid [of a t] asize_kid [of a u] less.prems by auto
        then have "proot pr s u"
          using proot_trans [OF st(1) tu(1)] Suc.IH by blast
        ultimately show ?thesis by (blast intro: pgt_root)
      qed
    qed
  qed
qed

lemma pgt_trans: "pgt pr s t \<Longrightarrow> pgt pr t u \<Longrightarrow> pgt pr s u"
  using pgt_trans_upto [of s "asize s + asize t + asize u" t u] by simp

section \<open>Well-foundedness\<close>

text \<open>
  A term whose arguments are accessible is accessible: by induction on the precedence of its
  head and its arguments under the two extensions of the ordering on accessible terms.
\<close>

abbreviation plt :: "(ext \<Rightarrow> nat) \<Rightarrow> aterm \<Rightarrow> aterm \<Rightarrow> bool" where
  "plt pr t s \<equiv> pgt pr s t"

definition acc_rel :: "(ext \<Rightarrow> nat) \<Rightarrow> (aterm \<times> aterm) set" where
  "acc_rel pr = {(y, x). pgt pr x y \<and> Wellfounded.accp (plt pr) x}"

fun aargs :: "aterm \<Rightarrow> aterm list \<times> aterm multiset" where
  "aargs (AV x) = ([], {#})"
| "aargs (AL f ts) = (ts, {#})"
| "aargs (AM f M) = ([], M)"

definition node_rel :: "(ext \<Rightarrow> nat) \<Rightarrow> (aterm \<times> aterm) set" where
  "node_rel pr = inv_image (less_than <*lex*> (lex (acc_rel pr) <*lex*> mult (acc_rel pr)))
     (\<lambda>s. (pr (ahead s), aargs s))"

lemma wf_acc_rel: "wf (acc_rel pr)"
  unfolding wf_def
proof (intro allI impI)
  fix P x
  assume step: "\<forall>x. (\<forall>y. (y, x) \<in> acc_rel pr \<longrightarrow> P y) \<longrightarrow> P x"
  have "P x" if "Wellfounded.accp (plt pr) x"
    using that
  proof (induction rule: accp.induct)
    case (accI x)
    then show ?case using step by (auto simp: acc_rel_def)
  qed
  moreover have "P x" if "\<not> Wellfounded.accp (plt pr) x"
    using step that by (simp add: acc_rel_def)
  ultimately show "P x" by blast
qed

lemma wf_node_rel: "wf (node_rel pr)"
  unfolding node_rel_def by (intro wf_inv_image wf_lex_prod wf_less_than wf_lex wf_mult wf_acc_rel)

lemma lex_ext_lex:
  "lex_ext (pgt pr) as bs \<Longrightarrow> length as = length bs \<Longrightarrow> \<forall>a \<in> set as. Wellfounded.accp (plt pr) a
   \<Longrightarrow> (bs, as) \<in> lex (acc_rel pr)"
  by (induction "pgt pr" as bs rule: lex_ext.induct) (auto simp: Cons_in_lex acc_rel_def split: if_splits)

lemma mul_ext_mult:
  assumes "mul_ext (pgt pr) M N" and "\<forall>a \<in> set_mset M. Wellfounded.accp (plt pr) a"
  shows "(N, M) \<in> mult (acc_rel pr)"
proof -
  have "(M \<inter># N + (N - M), M \<inter># N + (M - N)) \<in> mult (acc_rel pr)"
    using assms by (intro one_step_implies_mult) (fastforce simp: mul_ext_def acc_rel_def dest: in_diffD)+
  moreover have "M \<inter># N + (M - N) = M" "M \<inter># N + (N - M) = N"
    by (auto simp: multiset_eq_iff)
  ultimately show ?thesis by simp
qed

lemma proot_node_rel:
  assumes "proot pr s t" and "\<forall>a \<in> akids s. Wellfounded.accp (plt pr) a"
  shows "(t, s) \<in> node_rel pr"
proof (cases "pr (ahead s) > pr (ahead t)")
  case False
  then have "ahead s = ahead t" "args_ext (pgt pr) s t" using assms(1) by (auto simp: proot_def)
  then show ?thesis using assms(2)
    by (cases s; cases t) (auto simp: node_rel_def intro: lex_ext_lex mul_ext_mult)
qed (simp add: node_rel_def)

lemma node_accessible:
  "\<forall>u \<in> akids s. Wellfounded.accp (plt pr) u \<Longrightarrow> Wellfounded.accp (plt pr) s"
proof (induction s rule: wf_induct_rule [OF wf_node_rel [of pr]])
  case (1 s)
  have "Wellfounded.accp (plt pr) t" if "pgt pr s t" for t
    using that
  proof (induction "asize t" arbitrary: t rule: less_induct)
    case less
    from less.prems show ?case
    proof (cases rule: pgt_cases)
      case (kid u)
      then show ?thesis using "1.prems" by (blast dest: accp_downward)
    next
      case root
      have "\<forall>b \<in> akids t. Wellfounded.accp (plt pr) b" using less.hyps asize_kid root(2) by blast
      then show ?thesis using "1.IH" proot_node_rel [OF root(1)] "1.prems" by blast
    qed
  qed
  then show ?case by (blast intro: accpI)
qed

lemma all_accessible: "Wellfounded.accp (plt pr) t"
  by (induction "asize t" arbitrary: t rule: less_induct) (blast intro: node_accessible asize_kid)

lemma wfp_plt: "wfp (plt pr)"
  using all_accessible by (blast intro: accp_wfpI)

section \<open>Contexts and substitutions\<close>

lemma mul_ext_pgt: "mul_ext (pgt pr) M N \<longleftrightarrow> multp (plt pr) N M"
  using mul_ext_multp [of M N UNIV "pgt pr"] pgt_irrefl pgt_trans by simp

lemma pgt_list_context: "pgt pr s t \<Longrightarrow> pgt pr (AL f (us @ s # vs)) (AL f (us @ t # vs))"
proof (rule pgt_root)
  assume st: "pgt pr s t"
  then have "lex_ext (pgt pr) (us @ s # vs) (us @ t # vs)"
    using pgt_irrefl by (induction us) auto
  then show "proot pr (AL f (us @ s # vs)) (AL f (us @ t # vs))" by (simp add: proot_def)
  show "pgt pr (AL f (us @ s # vs)) b" if "b \<in> akids (AL f (us @ t # vs))" for b
    using that st by (auto intro: pgt_kid pgt_via)
qed

lemma pgt_mset_context: "pgt pr s t \<Longrightarrow> pgt pr (AM f (add_mset s M)) (AM f (add_mset t M))"
proof (rule pgt_root)
  assume st: "pgt pr s t"
  have "multp (plt pr) (M + {#t#}) (M + {#s#})" by (rule one_step_implies_multp) (use st in auto)
  then show "proot pr (AM f (add_mset s M)) (AM f (add_mset t M))" by (simp add: proot_def mul_ext_pgt)
  show "pgt pr (AM f (add_mset s M)) b" if "b \<in> akids (AM f (add_mset t M))" for b
    using that st by (auto intro: pgt_kid pgt_via)
qed

primrec asubst :: "(ext \<Rightarrow> aterm) \<Rightarrow> aterm \<Rightarrow> aterm" where
  "asubst \<sigma> (AV x) = \<sigma> x"
| "asubst \<sigma> (AL f ts) = AL f (map (asubst \<sigma>) ts)"
| "asubst \<sigma> (AM f M) = AM f (image_mset (asubst \<sigma>) M)"

lemma lex_ext_map:
  "lex_ext P as bs \<Longrightarrow> (\<And>a b. a \<in> set as \<Longrightarrow> b \<in> set bs \<Longrightarrow> P a b \<Longrightarrow> P (f a) (f b)) \<Longrightarrow> (\<And>a. \<not> P a a)
   \<Longrightarrow> lex_ext P (map f as) (map f bs)"
proof (induction P as bs rule: lex_ext.induct)
  case (1 P a as b bs)
  then have "f a \<noteq> f b" if "P a b" using that by (metis list.set_intros(1))
  with 1 show ?case by (auto split: if_splits)
qed auto

lemma mul_ext_image:
  assumes "mul_ext (pgt pr) M N"
    and "\<And>a b. a \<in> set_mset M \<Longrightarrow> b \<in> set_mset N \<Longrightarrow> pgt pr a b \<Longrightarrow> pgt pr (f a) (f b)"
  shows "mul_ext (pgt pr) (image_mset f M) (image_mset f N)"
proof -
  have "multp (plt pr) (image_mset f (M \<inter># N) + image_mset f (N - M)) (image_mset f (M \<inter># N) + image_mset f (M - N))"
    by (rule one_step_implies_multp) (use assms in \<open>fastforce simp: mul_ext_def dest: in_diffD\<close>)+
  moreover have "M \<inter># N + (M - N) = M" "M \<inter># N + (N - M) = N"
    by (auto simp: multiset_eq_iff)
  ultimately show ?thesis unfolding mul_ext_pgt by (metis image_mset_union)
qed

lemma pgt_subst: "pgt pr s t \<Longrightarrow> pgt pr (asubst \<sigma> s) (asubst \<sigma> t)"
proof (induction "asize s + asize t" arbitrary: s t rule: less_induct)
  case less
  from less.prems show ?case
  proof (cases rule: pgt_cases)
    case (kid u)
    then have "asubst \<sigma> u \<in> akids (asubst \<sigma> s)" by (cases s) auto
    moreover have "u = t \<or> pgt pr (asubst \<sigma> u) (asubst \<sigma> t)"
      using kid(2) less.hyps [of u t] asize_kid [OF kid(1)] by auto
    ultimately show ?thesis using pgt_via by blast
  next
    case root
    have IH: "pgt pr (asubst \<sigma> a) (asubst \<sigma> b)" if "a \<in> akids s" "b \<in> akids t" "pgt pr a b" for a b
      using less.hyps [of a b] asize_kid that by (metis add_strict_mono)
    have node: "is_node s" "is_node t" using root(1) by (auto simp: proot_def)
    have kids: "akids (asubst \<sigma> t) = asubst \<sigma> ` akids t" using node(2) by (cases t) auto
    have "args_ext (pgt pr) s t \<Longrightarrow> args_ext (pgt pr) (asubst \<sigma> s) (asubst \<sigma> t)"
      using IH pgt_irrefl by (cases s; cases t) (auto intro!: lex_ext_map mul_ext_image)
    then have "proot pr (asubst \<sigma> s) (asubst \<sigma> t)"
      using root(1) node by (cases s; cases t) (auto simp: proot_def)
    moreover have "pgt pr (asubst \<sigma> s) b" if "b \<in> akids (asubst \<sigma> t)" for b
      using that kids less.hyps [of s] asize_kid [of _ t] root(2) by auto
    ultimately show ?thesis by (rule pgt_root)
  qed
qed

section \<open>The ordering on first-order terms\<close>

text \<open>The terms of the program modulo the arguments of the symbols with multiset status.\<close>

fun aabs :: "(ext \<Rightarrow> bool) \<Rightarrow> trm \<Rightarrow> aterm" where
  "aabs m (FVR x) = AV x"
| "aabs m (CTR f ts) = (if m f then AM f (mset (map (aabs m) ts)) else AL f (map (aabs m) ts))"
| "aabs m (ATM g e v) = AV e"

lemma akids_aabs [simp]: "akids (aabs m (CTR f ts)) = aabs m ` set ts"
  by simp

lemma ahead_aabs [simp]: "ahead (aabs m (CTR f ts)) = f"
  by simp

lemma is_node_aabs [simp]: "is_node (aabs m (CTR f ts))"
  by simp

lemma aabs_tsubst: "no_atm t \<Longrightarrow> aabs m (tsubst \<sigma> t) = asubst (\<lambda>x. aabs m (\<sigma> x)) (aabs m t)"
proof (induction t)
  case (CTR f ts)
  then have "map (aabs m \<circ> tsubst \<sigma>) ts = map (asubst (\<lambda>x. aabs m (\<sigma> x)) \<circ> aabs m) ts"
    by (auto simp: list_all_iff)
  then show ?case by (simp del: map_eq_conv) (metis image_mset.compositionality mset_map)
qed auto

lemma aabs_inj: "no_atm s \<Longrightarrow> no_atm t \<Longrightarrow> aabs (\<lambda>_. False) s = aabs (\<lambda>_. False) t \<longleftrightarrow> s = t"
proof (induction s arbitrary: t)
  case (CTR f ss)
  show ?case
  proof (cases t)
    case (CTR g ts)
    have "map (aabs (\<lambda>_. False)) ss = map (aabs (\<lambda>_. False)) ts \<longleftrightarrow> ss = ts"
      using CTR.IH CTR.prems CTR
      by (auto simp: list_all_iff list_eq_iff_nth_eq)
    then show ?thesis using CTR by auto
  qed auto
qed (case_tac t; auto)+

definition path_gt :: "(ext \<Rightarrow> bool) \<Rightarrow> (ext \<Rightarrow> nat) \<Rightarrow> trm \<Rightarrow> trm \<Rightarrow> bool" where
  "path_gt m pr s t \<longleftrightarrow> pgt pr (aabs m s) (aabs m t)"

definition path_eq :: "(ext \<Rightarrow> bool) \<Rightarrow> trm \<Rightarrow> trm \<Rightarrow> bool" where
  "path_eq m s t \<longleftrightarrow> aabs m s = aabs m t"

lemma path_eq_refl [simp]: "path_eq m s s"
  by (simp add: path_eq_def)

lemma path_gt_not_eq: "path_gt m pr s t \<Longrightarrow> \<not> path_eq m s t"
  using pgt_irrefl by (auto simp: path_gt_def path_eq_def)

lemma path_gt_asym: "path_gt m pr s t \<Longrightarrow> \<not> path_gt m pr t s"
  using pgt_trans pgt_irrefl unfolding path_gt_def by blast

lemma path_gt_trans: "path_gt m pr s t \<Longrightarrow> path_gt m pr t u \<Longrightarrow> path_gt m pr s u"
  using pgt_trans unfolding path_gt_def by blast

lemma path_gt_arg: "s \<in> set ss \<Longrightarrow> path_eq m s t \<or> path_gt m pr s t \<Longrightarrow> path_gt m pr (CTR f ss) t"
  unfolding path_gt_def path_eq_def by (rule pgt_via [where u = "aabs m s"]) auto

lemma path_gt_below: "path_gt m pr s (CTR g ts) \<Longrightarrow> t \<in> set ts \<Longrightarrow> path_gt m pr s t"
  unfolding path_gt_def by (erule pgt_sub) simp

lemma path_gt_FVR [simp]: "\<not> path_gt m pr (FVR x) t"
  by (simp add: path_gt_def)

text \<open>The case analysis of the comparators: an argument, or the root.\<close>

lemma path_gt_CTR:
  "path_gt m pr (CTR f ss) (CTR g ts) \<longleftrightarrow>
     (\<exists>s \<in> set ss. path_eq m s (CTR g ts) \<or> path_gt m pr s (CTR g ts))
     \<or> (\<forall>t \<in> set ts. path_gt m pr (CTR f ss) t)
       \<and> (pr f > pr g \<or> f = g \<and> args_ext (pgt pr) (aabs m (CTR f ss)) (aabs m (CTR g ts)))"
  unfolding path_gt_def path_eq_def
  by (subst pgt_iff) (simp only: akids_aabs ahead_aabs is_node_aabs proot_def simp_thms ball_simps bex_simps, blast)

primrec avars :: "aterm \<Rightarrow> ext set" where
  "avars (AV x) = {x}"
| "avars (AL f ts) = \<Union> (set (map avars ts))"
| "avars (AM f M) = \<Union> (set_mset (image_mset avars M))"

lemma avars_kids: "avars t = (if is_node t then \<Union> (avars ` akids t) else {ahead t})"
  by (cases t) auto

lemma pgt_avars: "pgt pr s t \<Longrightarrow> avars t \<subseteq> avars s"
proof (induction "asize s + asize t" arbitrary: s t rule: less_induct)
  case less
  from less.prems show ?case
  proof (cases rule: pgt_cases)
    case (kid u)
    then have "avars u \<subseteq> avars s" by (cases s) auto
    moreover have "avars t \<subseteq> avars u" using kid(2) less.hyps [of u t] asize_kid [OF kid(1)] by auto
    ultimately show ?thesis by blast
  next
    case root
    have "avars b \<subseteq> avars s" if "b \<in> akids t" for b
      using less.hyps [of s b] root(2) [OF that] asize_kid [OF that] by simp
    then show ?thesis using root(1) by (subst avars_kids) (auto simp: proot_def)
  qed
qed

lemma pgt_AV: "pgt pr s (AV x) \<longleftrightarrow> x \<in> avars s \<and> s \<noteq> AV x"
proof
  assume "pgt pr s (AV x)"
  then show "x \<in> avars s \<and> s \<noteq> AV x" using pgt_avars pgt_irrefl by fastforce
next
  have "x \<in> avars s \<Longrightarrow> s = AV x \<or> pgt pr s (AV x)"
  proof (induction "asize s" arbitrary: s rule: less_induct)
    case less
    show ?case
    proof (cases "is_node s")
      case True
      then obtain u where u: "u \<in> akids s" "x \<in> avars u" using less.prems by (subst (asm) avars_kids) auto
      then have "u = AV x \<or> pgt pr u (AV x)" using less.hyps asize_kid by blast
      then show ?thesis using u(1) pgt_via by blast
    next
      case False
      then show ?thesis using less.prems by (cases s) auto
    qed
  qed
  then show "x \<in> avars s \<and> s \<noteq> AV x \<Longrightarrow> pgt pr s (AV x)" by blast
qed

lemma avars_aabs: "no_atm t \<Longrightarrow> avars (aabs m t) = tvars t"
  by (induction t) (auto simp: list_all_iff)

lemma path_gt_vars: "path_gt m pr s t \<Longrightarrow> no_atm s \<Longrightarrow> no_atm t \<Longrightarrow> tvars t \<subseteq> tvars s"
  unfolding path_gt_def using pgt_avars avars_aabs by metis

lemma path_gt_to_FVR: "no_atm s \<Longrightarrow> path_gt m pr s (FVR x) \<longleftrightarrow> x \<in> tvars s \<and> s \<noteq> FVR x"
  unfolding path_gt_def by (cases s) (auto simp: pgt_AV avars_aabs list_all_iff)

text \<open>What the laws need: labels told apart by the precedence, one arity per label, no immediates.\<close>

fun ar_cons :: "(ext \<Rightarrow> nat) \<Rightarrow> trm \<Rightarrow> bool" where
  "ar_cons ar (FVR x) = True"
| "ar_cons ar (CTR l ts) = (length ts = ar l \<and> list_all (ar_cons ar) ts)"
| "ar_cons ar (ATM g e v) = False"

fun labs_in :: "ext set \<Rightarrow> trm \<Rightarrow> bool" where
  "labs_in L (FVR x) = True"
| "labs_in L (CTR l ts) = (l \<in> L \<and> list_all (labs_in L) ts)"
| "labs_in L (ATM g e v) = True"

definition path_ok :: "(ext \<Rightarrow> nat) \<Rightarrow> (ext \<Rightarrow> nat) \<Rightarrow> ext set \<Rightarrow> trm \<Rightarrow> bool" where
  "path_ok pr ar L t \<longleftrightarrow> inj_on pr L \<and> ar_cons ar t \<and> labs_in L t"

lemma ar_cons_no_atm: "ar_cons ar t \<Longrightarrow> no_atm t"
  by (induction t) (auto simp: list_all_iff)

lemma path_ok_no_atm: "path_ok pr ar L t \<Longrightarrow> no_atm t"
  by (auto simp: path_ok_def intro: ar_cons_no_atm)

lemma path_ok_CTR: "path_ok pr ar L (CTR f ts) \<longleftrightarrow>
    inj_on pr L \<and> length ts = ar f \<and> f \<in> L \<and> (\<forall>t \<in> set ts. path_ok pr ar L t)"
  by (auto simp: path_ok_def list_all_iff)

lemma path_ok_FVR [simp]: "path_ok pr ar L (FVR x) \<longleftrightarrow> inj_on pr L"
  by (simp add: path_ok_def)

lemma path_ok_inj: "path_ok pr ar L t \<Longrightarrow> inj_on pr L"
  by (simp add: path_ok_def)

lemma path_ok_tsubst: "path_ok pr ar L t \<Longrightarrow> (\<And>x. path_ok pr ar L (\<sigma> x)) \<Longrightarrow> path_ok pr ar L (tsubst \<sigma> t)"
proof (induction t)
  case (CTR f ts)
  then show ?case by (auto simp: path_ok_CTR)
qed (auto simp: path_ok_def)

lemma path_ok_instance: "path_ok pr ar L (tsubst \<sigma> t) \<Longrightarrow> x \<in> tvars t \<Longrightarrow> path_ok pr ar L (\<sigma> x)"
  by (induction t) (auto simp: path_ok_CTR)

lemma path_gt_context: "path_gt m pr s t \<Longrightarrow> path_gt m pr (CTR f (us @ s # vs)) (CTR f (us @ t # vs))"
  using pgt_list_context [of pr "aabs m s" "aabs m t"] pgt_mset_context [of pr "aabs m s" "aabs m t"]
  unfolding path_gt_def by simp

lemma path_gt_stable:
  assumes "path_gt m pr s t" and "no_atm s" and "no_atm t"
  shows "path_gt m pr (tsubst \<sigma> s) (tsubst \<sigma> t)"
  using pgt_subst [of pr "aabs m s" "aabs m t"] assms by (simp add: path_gt_def aabs_tsubst)

lemma path_gt_wf: "wfp (\<lambda>t s. path_gt m pr s t)"
proof -
  have "wf (inv_image {(t, s). plt pr t s} (aabs m))" using wfp_plt by (simp add: wfp_def)
  then show ?thesis by (simp add: wfp_def inv_image_def path_gt_def)
qed

interpretation path: reduction_order "path_gt m pr" "path_ok pr ar L" for m pr ar L
proof unfold_locales
  show "\<not> path_gt m pr s s" for s by (simp add: path_gt_def pgt_irrefl)
  show "path_gt m pr (tsubst \<sigma> s) (tsubst \<sigma> t)"
    if "path_gt m pr s t" "path_ok pr ar L s" "path_ok pr ar L t" for s t \<sigma>
    using that path_gt_stable path_ok_no_atm by blast
  show "path_gt m pr (CTR f (us @ s # vs)) (CTR f (us @ t # vs))" if "path_gt m pr s t" for s t f us vs
    using that by (rule path_gt_context)
  show "path_ok pr ar L t" if "path_ok pr ar L (CTR f ts)" "t \<in> set ts" for f ts t
    using that by (simp add: path_ok_CTR)
  show "path_ok pr ar L (tsubst \<sigma> t)" if "path_ok pr ar L t" "\<And>x. path_ok pr ar L (\<sigma> x)" for t \<sigma>
    using that by (rule path_ok_tsubst)
  show "path_ok pr ar L (CTR f (us @ t # vs))" if "path_ok pr ar L (CTR f (us @ s # vs))" "path_ok pr ar L t"
    for f us s vs t
    using that by (simp add: path_ok_CTR)
  show "path_ok pr ar L (\<sigma> x)" if "path_ok pr ar L (tsubst \<sigma> t)" "x \<in> tvars t" for \<sigma> t x
    using that by (rule path_ok_instance)
  show "\<exists>x. path_ok pr ar L (FVR x)" if "path_ok pr ar L t" for t
    using that by (simp add: path_ok_def)
  show "wfp (\<lambda>t s. path_ok pr ar L s \<and> path_ok pr ar L t \<and> path_gt m pr s t)"
    by (rule wfp_if_convertible_to_wfp [OF path_gt_wf, where f = "\<lambda>t. t"]) auto
qed

section \<open>Verdicts\<close>

text \<open>
  What a comparator built on the ordering delivers: GT exactly on greater terms, EQ exactly on
  equal ones and LT at least where the other term is greater.
\<close>

definition verdict_ok :: "(ext \<Rightarrow> bool) \<Rightarrow> (ext \<Rightarrow> nat) \<Rightarrow> trm \<Rightarrow> trm \<Rightarrow> kbo_cmp \<Rightarrow> bool" where
  "verdict_ok m pr s t v \<longleftrightarrow> (v = KBO_GT \<longleftrightarrow> path_gt m pr s t) \<and> (v = KBO_EQ \<longleftrightarrow> path_eq m s t)
     \<and> (path_gt m pr t s \<longrightarrow> v = KBO_LT)"

lemma verdict_GT: "path_gt m pr s t \<Longrightarrow> verdict_ok m pr s t KBO_GT"
  by (simp add: verdict_ok_def path_gt_not_eq path_gt_asym)

lemma verdict_LT: "path_gt m pr t s \<Longrightarrow> verdict_ok m pr s t KBO_LT"
  using path_gt_asym path_gt_not_eq by (fastforce simp: verdict_ok_def path_eq_def)

lemma verdict_EQ: "path_eq m s t \<Longrightarrow> verdict_ok m pr s t KBO_EQ"
  using path_gt_not_eq by (fastforce simp: verdict_ok_def path_eq_def)

text \<open>LT is also returned for terms the ordering does not relate.\<close>

lemma verdict_not_GT_EQ:
  "\<not> path_gt m pr s t \<Longrightarrow> \<not> path_eq m s t \<Longrightarrow> (path_gt m pr t s \<Longrightarrow> v = KBO_LT) \<Longrightarrow> v = KBO_LT \<or> v = KBO_UN
   \<Longrightarrow> verdict_ok m pr s t v"
  by (auto simp: verdict_ok_def)

lemma path_gt_higher:
  assumes "pr f > pr g"
  shows "path_gt m pr (CTR f ss) (CTR g ts) \<longleftrightarrow> (\<forall>t \<in> set ts. path_gt m pr (CTR f ss) t)"
  using assms path_gt_below [of m pr "CTR f ss" g ts] by (subst path_gt_CTR) (auto intro: path_gt_arg)

lemma path_gt_lower:
  assumes "pr f < pr g"
  shows "path_gt m pr (CTR f ss) (CTR g ts)
    \<longleftrightarrow> (\<exists>s \<in> set ss. path_eq m s (CTR g ts) \<or> path_gt m pr s (CTR g ts))"
  using assms by (subst path_gt_CTR) auto

lemma path_gt_same_lex:
  assumes "\<not> m f" and "length ss = length ts"
  shows "path_gt m pr (CTR f ss) (CTR f ts) \<longleftrightarrow>
     (\<exists>s \<in> set ss. path_eq m s (CTR f ts) \<or> path_gt m pr s (CTR f ts))
     \<or> (\<forall>t \<in> set ts. path_gt m pr (CTR f ss) t) \<and> lex_ext (pgt pr) (map (aabs m) ss) (map (aabs m) ts)"
  using assms by (subst path_gt_CTR) auto

lemma path_gt_same_mul:
  assumes "m f"
  shows "path_gt m pr (CTR f ss) (CTR f ts) \<longleftrightarrow>
     (\<exists>s \<in> set ss. path_eq m s (CTR f ts) \<or> path_gt m pr s (CTR f ts))
     \<or> mul_ext (pgt pr) (mset (map (aabs m) ss)) (mset (map (aabs m) ts))"
proof -
  have "path_gt m pr (CTR f ss) t"
    if mul: "mul_ext (pgt pr) (mset (map (aabs m) ss)) (mset (map (aabs m) ts))" and t: "t \<in> set ts" for t
  proof (cases "aabs m t \<in># mset (map (aabs m) ts) - mset (map (aabs m) ss)")
    case True
    then obtain a where "a \<in># mset (map (aabs m) ss) - mset (map (aabs m) ts)" "pgt pr a (aabs m t)"
      using mul by (auto simp: mul_ext_def)
    then have "a \<in> aabs m ` set ss" "pgt pr a (aabs m t)" by (auto dest: in_diffD)
    then obtain s where "s \<in> set ss" "path_gt m pr s t" by (auto simp: path_gt_def)
    then show ?thesis using path_gt_arg by blast
  next
    case False
    then have "count (mset (map (aabs m) ts)) (aabs m t) \<le> count (mset (map (aabs m) ss)) (aabs m t)"
      by (simp add: not_in_iff)
    moreover have "0 < count (mset (map (aabs m) ts)) (aabs m t)" using t by (simp only: count_greater_zero_iff) auto
    ultimately have "0 < count (mset (map (aabs m) ss)) (aabs m t)" by linarith
    then have "aabs m t \<in> aabs m ` set ss" by (simp only: count_greater_zero_iff set_mset_mset set_map)
    then obtain s where "s \<in> set ss" "path_eq m s t" by (auto simp: path_eq_def)
    then show ?thesis using path_gt_arg by blast
  qed
  then show ?thesis using assms by (subst path_gt_CTR) auto
qed

lemma path_ok_same_label:
  "path_ok pr ar L (CTR f ss) \<Longrightarrow> path_ok pr ar L (CTR g ts) \<Longrightarrow> pr f = pr g \<Longrightarrow> f = g \<and> length ss = length ts"
  by (auto simp: path_ok_CTR inj_on_def)

end
