(* ===== verification/Flat_Term.thy ===== *)
theory Flat_Term
  imports KBO Path_Order
begin

text \<open>
  The pre-order arrays the flat comparators work on (KboFlatNode of src/kbo/_.c): each node
  holds its symbol, a value of its own and the length of its subtree. The two encoders,
  kbo_flat_encode and lpo_flat_encode_rec (src/lpo/_.c), and what it means that an array spells
  a term from a position on. An i32 symbol is an int: labels and ids have 18 bits.
\<close>

definition KBO_FLAT_CAP :: nat where "KBO_FLAT_CAP = 4096"

record flat_node =
  fl_sym :: int
  fl_w :: int
  fl_sz :: nat

type_synonym flat = "flat_node list"

definition var_sym :: "ext \<Rightarrow> int" where "var_sym x = - int (unat x + 1)"
definition lab_sym :: "ext \<Rightarrow> int" where "lab_sym l = int (unat l)"

text \<open>
  The encoders append to the buffer; the size of a node is patched in once its children are
  laid out. vw is the value of a variable node and w the value of a label.
\<close>

fun flat_encode :: "int \<Rightarrow> (ext \<Rightarrow> int) \<Rightarrow> trm \<Rightarrow> flat \<Rightarrow> flat option"
  and flat_encode_args :: "int \<Rightarrow> (ext \<Rightarrow> int) \<Rightarrow> trm list \<Rightarrow> flat \<Rightarrow> flat option" where
  "flat_encode vw w (FVR x) out =
     (if length out \<ge> KBO_FLAT_CAP then None
      else Some (out @ [\<lparr>fl_sym = var_sym x, fl_w = vw, fl_sz = 1\<rparr>]))"
| "flat_encode vw w (CTR l ts) out =
     (if length out \<ge> KBO_FLAT_CAP then None
      else case flat_encode_args vw w ts (out @ [\<lparr>fl_sym = lab_sym l, fl_w = w l, fl_sz = 0\<rparr>]) of
             None \<Rightarrow> None
           | Some out' \<Rightarrow> Some (out'[length out := (out' ! length out)\<lparr>fl_sz := length out' - length out\<rparr>]))"
| "flat_encode vw w (ATM g e v) out = None"
| "flat_encode_args vw w [] out = Some out"
| "flat_encode_args vw w (t # ts) out =
     (case flat_encode vw w t out of None \<Rightarrow> None | Some out' \<Rightarrow> flat_encode_args vw w ts out')"

text \<open>The cast of a u32 to i32.\<close>

definition as_i32 :: "nat \<Rightarrow> int" where
  "as_i32 n = (let m = int n mod 4294967296 in if m < 2147483648 then m else m - 4294967296)"

lemma as_i32_small: "int n < 2147483648 \<Longrightarrow> as_i32 n = int n"
  by (simp add: as_i32_def Let_def)

definition kbo_flat_encode :: "kbo_config \<Rightarrow> trm \<Rightarrow> flat \<Rightarrow> flat option" where
  "kbo_flat_encode cfg = flat_encode (as_i32 (kc_var_weight cfg)) (\<lambda>l. as_i32 (kbo_weight cfg l))"

section \<open>What an array spells\<close>

fun flat_of :: "int \<Rightarrow> (ext \<Rightarrow> int) \<Rightarrow> trm \<Rightarrow> flat" where
  "flat_of vw w (FVR x) = [\<lparr>fl_sym = var_sym x, fl_w = vw, fl_sz = 1\<rparr>]"
| "flat_of vw w (CTR l ts) =
     \<lparr>fl_sym = lab_sym l, fl_w = w l, fl_sz = Suc (sum_list (map tsize ts))\<rparr> # concat (map (flat_of vw w) ts)"
| "flat_of vw w (ATM g e v) = [\<lparr>fl_sym = 0, fl_w = 0, fl_sz = 1\<rparr>]"

lemma length_flat_of [simp]: "length (flat_of vw w t) = tsize t"
proof (induction t)
  case (CTR l ts)
  then have "map (length \<circ> flat_of vw w) ts = map tsize ts" by simp
  then show ?case by (simp add: length_concat del: map_eq_conv)
qed auto

lemma length_concat_flat [simp]: "length (concat (map (flat_of vw w) ts)) = sum_list (map tsize ts)"
  by (induction ts) auto

lemma var_sym_neg [simp]: "var_sym x < 0" unfolding var_sym_def by linarith
lemma lab_sym_nonneg [simp]: "\<not> lab_sym l < 0" by (simp add: lab_sym_def)
lemma var_sym_inj [simp]: "var_sym x = var_sym y \<longleftrightarrow> x = y" by (simp add: var_sym_def word_uint_eq_iff)
lemma lab_sym_inj [simp]: "lab_sym l = lab_sym m \<longleftrightarrow> l = m" by (simp add: lab_sym_def word_uint_eq_iff)
lemma var_lab_sym [simp]: "var_sym x \<noteq> lab_sym l" "lab_sym l \<noteq> var_sym x"
  using var_sym_neg [of x] lab_sym_nonneg [of l] by metis+

text \<open>Encoding succeeds within the buffer on terms without immediates and lays the term out.\<close>

lemma flat_encode_spec:
  "flat_encode vw w t out =
     (if no_atm t \<and> length out + tsize t \<le> KBO_FLAT_CAP then Some (out @ flat_of vw w t) else None)"
  "flat_encode_args vw w ts out =
     (if ts = [] then Some out
      else if list_all no_atm ts \<and> length out + sum_list (map tsize ts) \<le> KBO_FLAT_CAP
      then Some (out @ concat (map (flat_of vw w) ts)) else None)"
proof (induction vw w t out and vw w ts out rule: flat_encode_flat_encode_args.induct)
  case (5 vw w t ts out)
  have p: "0 < tsize u" for u by simp
  have "ts = [] \<or> 0 < sum_list (map tsize ts)" by (cases ts) auto
  with 5 show ?case by (auto split: if_splits)
qed (auto simp: list_update_append split: if_splits)

text \<open>The array a spells the term t at position p.\<close>

definition spells :: "int \<Rightarrow> (ext \<Rightarrow> int) \<Rightarrow> flat \<Rightarrow> nat \<Rightarrow> trm \<Rightarrow> bool" where
  "spells vw w a p t \<longleftrightarrow> (\<exists>xs ys. a = xs @ flat_of vw w t @ ys \<and> length xs = p)"

definition spells_args :: "int \<Rightarrow> (ext \<Rightarrow> int) \<Rightarrow> flat \<Rightarrow> nat \<Rightarrow> trm list \<Rightarrow> bool" where
  "spells_args vw w a p ts \<longleftrightarrow> (\<exists>xs ys. a = xs @ concat (map (flat_of vw w) ts) @ ys \<and> length xs = p)"

lemma spells_start [simp]: "spells vw w (flat_of vw w t) 0 t"
  by (auto simp: spells_def)

lemma spells_args_Cons:
  "spells_args vw w a p (t # ts) \<longleftrightarrow> spells vw w a p t \<and> spells_args vw w a (p + tsize t) ts"
proof
  assume "spells_args vw w a p (t # ts)"
  then obtain xs ys where a: "a = xs @ flat_of vw w t @ concat (map (flat_of vw w) ts) @ ys" "length xs = p"
    by (auto simp: spells_args_def)
  then have "spells vw w a p t" unfolding spells_def by blast
  moreover have "spells_args vw w a (p + tsize t) ts"
    unfolding spells_args_def by (rule exI [where x = "xs @ flat_of vw w t"]) (use a in auto)
  ultimately show "spells vw w a p t \<and> spells_args vw w a (p + tsize t) ts" by blast
next
  assume h: "spells vw w a p t \<and> spells_args vw w a (p + tsize t) ts"
  then obtain xs ys where a: "a = xs @ flat_of vw w t @ ys" "length xs = p" by (auto simp: spells_def)
  obtain xs' ys' where a': "a = xs' @ concat (map (flat_of vw w) ts) @ ys'" "length xs' = p + tsize t"
    using h by (auto simp: spells_args_def)
  then have "ys = concat (map (flat_of vw w) ts) @ ys'"
    using a append_eq_append_conv [of "xs @ flat_of vw w t" xs' ys "concat (map (flat_of vw w) ts) @ ys'"] by simp
  then show "spells_args vw w a p (t # ts)" unfolding spells_args_def using a by auto
qed

lemma spells_args_Nil: "spells_args vw w a p ts \<Longrightarrow> spells_args vw w a (p + sum_list (map tsize ts)) []"
  by (induction ts arbitrary: p) (auto simp: spells_args_Cons add.assoc [symmetric])

lemma spells_CTR: "spells vw w a p (CTR l ts) \<Longrightarrow> spells_args vw w a (Suc p) ts"
  unfolding spells_def spells_args_def
  by (elim exE conjE, rule_tac x = "xs @ [\<lparr>fl_sym = lab_sym l, fl_w = w l, fl_sz = Suc (sum_list (map tsize ts))\<rparr>]" in exI)
    auto

lemma spells_node:
  assumes "spells vw w a p t"
  shows "a ! p = flat_of vw w t ! 0" and "p + tsize t \<le> length a" and "take (tsize t) (drop p a) = flat_of vw w t"
proof -
  obtain xs ys where a: "a = xs @ flat_of vw w t @ ys" "length xs = p" using assms by (auto simp: spells_def)
  have "0 < length (flat_of vw w t)" by simp
  then show "a ! p = flat_of vw w t ! 0" using a by (auto simp: nth_append simp del: length_flat_of)
  show "p + tsize t \<le> length a" "take (tsize t) (drop p a) = flat_of vw w t" using a by auto
qed

lemma spells_sz: "spells vw w a p t \<Longrightarrow> fl_sz (a ! p) = tsize t"
  by (cases t) (auto dest: spells_node(1))

lemma spells_sym:
  "spells vw w a p (FVR x) \<Longrightarrow> fl_sym (a ! p) = var_sym x"
  "spells vw w a p (CTR l ts) \<Longrightarrow> fl_sym (a ! p) = lab_sym l"
  by (auto dest: spells_node(1))

text \<open>
  With one arity per label the symbols alone determine the term: no term spells a proper prefix
  of another.
\<close>

fun syms_of :: "trm \<Rightarrow> int list" where
  "syms_of (FVR x) = [var_sym x]"
| "syms_of (CTR l ts) = lab_sym l # concat (map syms_of ts)"
| "syms_of (ATM g e v) = [0]"

lemma map_sym_flat: "map fl_sym (flat_of vw w t) = syms_of t"
proof (induction t)
  case (CTR l ts)
  then have "map (map fl_sym \<circ> flat_of vw w) ts = map syms_of ts" by simp
  then show ?case by (simp add: map_concat del: map_eq_conv)
qed auto

lemma syms_prefix:
  "ar_cons ar s \<Longrightarrow> ar_cons ar t \<Longrightarrow> syms_of s @ xs = syms_of t @ ys \<Longrightarrow> s = t \<and> xs = ys"
proof (induction s arbitrary: t xs ys)
  case (FVR x)
  then show ?case by (cases t) auto
next
  case (CTR l ss)
  then obtain ts where t: "t = CTR l ts" by (cases t) auto
  have args: "ss' = ts' \<and> xs = ys"
    if "set ss' \<subseteq> set ss" "list_all (ar_cons ar) ts'" "length ss' = length ts'"
      "concat (map syms_of ss') @ xs = concat (map syms_of ts') @ ys" for ss' ts'
    using that
  proof (induction ss' arbitrary: ts')
    case (Cons s ss')
    then obtain u us where u: "ts' = u # us" by (cases ts') auto
    have "ar_cons ar s" using Cons.prems(1) CTR.prems(1) by (auto simp: list_all_iff)
    then have "s = u \<and> concat (map syms_of ss') @ xs = concat (map syms_of us) @ ys"
      using CTR.IH [of s u "concat (map syms_of ss') @ xs"] Cons.prems u by simp
    then show ?case using Cons.IH [of us] Cons.prems u by simp
  qed auto
  then show ?case using args [of ss ts] CTR.prems t by simp
qed auto

lemma syms_of_inj: "ar_cons ar s \<Longrightarrow> ar_cons ar t \<Longrightarrow> syms_of s = syms_of t \<longleftrightarrow> s = t"
  using syms_prefix [of ar s t "[]" "[]"] by auto

lemma length_syms [simp]: "length (syms_of t) = tsize t"
  using arg_cong [OF map_sym_flat [of 0 "\<lambda>_. 0" t], of length] by simp

end
