(* ===== verification/LPO.thy ===== *)
theory LPO
  imports Flat_Term "HOL-Library.Monad_Syntax"
begin

text \<open>
  The lexicographic path ordering (src/lpo/_.c): the recursion on terms (lpo_rec and its
  helpers) with the variable-set pretest, and the default path of thvm_lpo, which encodes both
  terms as pre-order arrays and runs the comparison there, with the subterm and constant
  pretest of lpo_pretest_groesser_flat at every level. The memo tables are caches and are
  modelled by the values they hold. The two environment gates are arguments. Functions on the
  arrays take a step bound and return None when it runs out; lpo_flat_total shows that it does
  not. The verdicts share the values of KboCmp, as the casts of the clients do.
\<close>

type_synonym lpo_cmp = kbo_cmp
abbreviation LPO_EQ :: lpo_cmp where "LPO_EQ \<equiv> KBO_EQ"
abbreviation LPO_GT :: lpo_cmp where "LPO_GT \<equiv> KBO_GT"
abbreviation LPO_LT :: lpo_cmp where "LPO_LT \<equiv> KBO_LT"
abbreviation LPO_UN :: lpo_cmp where "LPO_UN \<equiv> KBO_UN"

definition LPO_MAX_VAR :: nat where "LPO_MAX_VAR = 64"

record lpo_config =
  lc_precedence :: "nat list"
  lc_n_labels :: nat

definition lpo_prec :: "lpo_config \<Rightarrow> ext \<Rightarrow> nat" where
  "lpo_prec cfg lab = (if unat lab < lc_n_labels cfg then lc_precedence cfg ! unat lab else 0)"

section \<open>The recursion on terms\<close>

definition lpo_eq :: "trm \<Rightarrow> trm \<Rightarrow> bool" where "lpo_eq s t = kbo_eq s t"

fun lpo_var_occurs_in :: "trm \<Rightarrow> ext \<Rightarrow> bool" where
  "lpo_var_occurs_in (FVR y) x = (y = x)"
| "lpo_var_occurs_in (CTR l ts) x = list_ex (\<lambda>t. lpo_var_occurs_in t x) ts"
| "lpo_var_occurs_in (ATM g e v) x = False"

text \<open>The bitset of the variable ids below the bound.\<close>

fun lpo_var_set_acc :: "trm \<Rightarrow> bool list \<Rightarrow> bool list" where
  "lpo_var_set_acc (FVR x) seen = (if unat x < LPO_MAX_VAR then seen[unat x := True] else seen)"
| "lpo_var_set_acc (CTR l ts) seen = fold lpo_var_set_acc ts seen"
| "lpo_var_set_acc (ATM g e v) seen = seen"

fun lpo_vars_in_range :: "trm \<Rightarrow> bool" where
  "lpo_vars_in_range (FVR x) = (unat x < LPO_MAX_VAR)"
| "lpo_vars_in_range (CTR l ts) = list_all lpo_vars_in_range ts"
| "lpo_vars_in_range (ATM g e v) = True"

text \<open>The verdict when the variable sets are incomparable, None when the recursion decides.\<close>

definition varsets_incomparable :: "bool list \<Rightarrow> bool list \<Rightarrow> bool" where
  "varsets_incomparable vs vt \<longleftrightarrow>
     list_ex (\<lambda>i. vs ! i \<and> \<not> vt ! i) [0..<LPO_MAX_VAR] \<and> list_ex (\<lambda>i. vt ! i \<and> \<not> vs ! i) [0..<LPO_MAX_VAR]"

definition lpo_pretest_varset :: "trm \<Rightarrow> trm \<Rightarrow> lpo_cmp option" where
  "lpo_pretest_varset s t =
     (if \<not> lpo_vars_in_range s \<or> \<not> lpo_vars_in_range t then None
      else let vs = lpo_var_set_acc s (replicate LPO_MAX_VAR False);
               vt = lpo_var_set_acc t (replicate LPO_MAX_VAR False)
           in if varsets_incomparable vs vt then Some LPO_UN else None)"

function (sequential) lpo_rec :: "lpo_config \<Rightarrow> trm \<Rightarrow> trm \<Rightarrow> lpo_cmp"
  and lpo_dominates_all_args :: "lpo_config \<Rightarrow> trm \<Rightarrow> trm list \<Rightarrow> bool"
  and lpo_some_arg_dominates :: "lpo_config \<Rightarrow> trm list \<Rightarrow> trm \<Rightarrow> bool"
  and lpo_lex :: "lpo_config \<Rightarrow> trm list \<Rightarrow> trm list \<Rightarrow> lpo_cmp" where
  "lpo_rec cfg s t =
     (if lpo_eq s t then LPO_EQ
      else case (s, t) of
        (FVR x, FVR y) \<Rightarrow> LPO_UN
      | (FVR x, _) \<Rightarrow> if lpo_var_occurs_in t x then LPO_LT else LPO_UN
      | (_, FVR y) \<Rightarrow> if lpo_var_occurs_in s y then LPO_GT else LPO_UN
      | (CTR f ss, CTR g ts) \<Rightarrow>
          if lpo_some_arg_dominates cfg ss t then LPO_GT
          else if lpo_some_arg_dominates cfg ts s then LPO_LT
          else if lpo_prec cfg f > lpo_prec cfg g
          then (if lpo_dominates_all_args cfg s ts then LPO_GT else LPO_UN)
          else if lpo_prec cfg f < lpo_prec cfg g
          then (if lpo_dominates_all_args cfg t ss then LPO_LT else LPO_UN)
          else if length ss \<noteq> length ts then LPO_UN
          else (case lpo_lex cfg ss ts of
                  LPO_EQ \<Rightarrow> LPO_EQ
                | LPO_GT \<Rightarrow> if lpo_dominates_all_args cfg s ts then LPO_GT else LPO_UN
                | _ \<Rightarrow> if lpo_dominates_all_args cfg t ss then LPO_LT else LPO_UN)
      | _ \<Rightarrow> LPO_UN)"
| "lpo_dominates_all_args cfg s [] = True"
| "lpo_dominates_all_args cfg s (t # ts) =
     (if lpo_rec cfg s t \<noteq> LPO_GT then False else lpo_dominates_all_args cfg s ts)"
| "lpo_some_arg_dominates cfg [] t = False"
| "lpo_some_arg_dominates cfg (s # ss) t =
     (if lpo_rec cfg s t = LPO_EQ \<or> lpo_rec cfg s t = LPO_GT then True else lpo_some_arg_dominates cfg ss t)"
| "lpo_lex cfg (s # ss) (t # ts) =
     (let c = lpo_rec cfg s t in if c \<noteq> LPO_EQ then c else lpo_lex cfg ss ts)"
| "lpo_lex cfg _ _ = LPO_EQ"
  by pat_completeness auto
termination
  by (relation "measure (\<lambda>x. case x of
        Inl (Inl (cfg, s, t)) \<Rightarrow> 2 * (tsize s + tsize t)
      | Inl (Inr (cfg, s, ts)) \<Rightarrow> Suc (2 * (tsize s + sum_list (map tsize ts)))
      | Inr (Inl (cfg, ss, t)) \<Rightarrow> Suc (2 * (sum_list (map tsize ss) + tsize t))
      | Inr (Inr (cfg, ss, ts)) \<Rightarrow> Suc (2 * (sum_list (map tsize ss) + sum_list (map tsize ts))))") auto

declare lpo_rec.simps [simp del]

section \<open>The recursion on arrays\<close>

definition lpo_flat_encode :: "lpo_config \<Rightarrow> trm \<Rightarrow> flat \<Rightarrow> flat option" where
  "lpo_flat_encode cfg = flat_encode 0 (\<lambda>l. as_i32 (lpo_prec cfg l))"

definition lpo_sym_prec :: "lpo_config \<Rightarrow> int \<Rightarrow> nat" where
  "lpo_sym_prec cfg sy = (if nat sy < lc_n_labels cfg then lc_precedence cfg ! nat sy else 0)"

subsection \<open>The pretest\<close>

fun groesser_konst_a :: "lpo_config \<Rightarrow> nat \<Rightarrow> flat \<Rightarrow> int" where
  "groesser_konst_a cfg pa [] = 1"
| "groesser_konst_a cfg pa (n # b) =
     (if fl_sym n < 0 then -1
      else if lpo_sym_prec cfg (fl_sym n) \<ge> pa then -1
      else groesser_konst_a cfg pa b)"

fun groesser_konst_b :: "lpo_config \<Rightarrow> nat \<Rightarrow> flat \<Rightarrow> int" where
  "groesser_konst_b cfg pb [] = -1"
| "groesser_konst_b cfg pb (n # a) =
     (if fl_sym n < 0 then groesser_konst_b cfg pb a
      else if lpo_sym_prec cfg (fl_sym n) \<ge> pb then 1
      else groesser_konst_b cfg pb a)"

definition groesser_scan :: "flat \<Rightarrow> flat \<Rightarrow> bool" where
  "groesser_scan a b \<longleftrightarrow>
     list_ex (\<lambda>i. fl_sym (a ! i) = fl_sym (b ! 0) \<and> fl_sz (a ! i) = fl_sz (b ! 0)
                  \<and> list_all (\<lambda>j. fl_sym (a ! (i + j)) = fl_sym (b ! j)) [1..<length b])
       [1..<length a - length b + 1]"

text \<open>1: a is greater, -1: ruled out, 0: undecided. The operands are slices with their lengths.\<close>

definition lpo_pretest_groesser_flat :: "flat \<Rightarrow> flat \<Rightarrow> lpo_config \<Rightarrow> int" where
  "lpo_pretest_groesser_flat a b cfg =
     (if length a = 0 \<or> length b = 0 then 0
      else if fl_sym (a ! 0) < 0 then -1
      else if fl_sym (b ! 0) < 0
      then (if list_ex (\<lambda>i. fl_sym (a ! i) = fl_sym (b ! 0)) [1..<length a] then 1 else -1)
      else if fl_sz (a ! 0) = 1 then groesser_konst_a cfg (lpo_sym_prec cfg (fl_sym (a ! 0))) b
      else if fl_sz (b ! 0) = 1 then groesser_konst_b cfg (lpo_sym_prec cfg (fl_sym (b ! 0))) a
      else if length a \<le> length b then 0
      else if groesser_scan a b then 1 else 0)"

subsection \<open>Slices and loops over children\<close>

definition flat_slice :: "flat \<Rightarrow> nat \<Rightarrow> flat" where
  "flat_slice a p = take (fl_sz (a ! p)) (drop p a)"

definition lpo_flat_slice_eq :: "flat \<Rightarrow> nat \<Rightarrow> flat \<Rightarrow> nat \<Rightarrow> bool" where
  "lpo_flat_slice_eq a pa b pb =
     (if fl_sym (a ! pa) \<noteq> fl_sym (b ! pb) then False
      else if fl_sz (a ! pa) \<noteq> fl_sz (b ! pb) then False
      else list_all (\<lambda>i. fl_sym (a ! (pa + i)) = fl_sym (b ! (pb + i))) [1..<fl_sz (a ! pa)])"

definition lpo_flat_var_occurs :: "flat \<Rightarrow> nat \<Rightarrow> int \<Rightarrow> bool" where
  "lpo_flat_var_occurs t pos vsym = list_ex (\<lambda>i. fl_sym (t ! i) = vsym) [pos..<pos + fl_sz (t ! pos)]"

text \<open>The loops of lpo_flat_dominates_all_args and lpo_flat_dominates_from over the children of b.\<close>

fun flat_all_gt :: "nat \<Rightarrow> (nat \<Rightarrow> lpo_cmp option) \<Rightarrow> flat \<Rightarrow> nat \<Rightarrow> nat \<Rightarrow> bool option" where
  "flat_all_gt 0 cmp b child end' = None"
| "flat_all_gt (Suc n) cmp b child end' =
     (if child < end'
      then do {
        c \<leftarrow> cmp child;
        if c \<noteq> LPO_GT then Some False
        else flat_all_gt n cmp b (child + fl_sz (b ! child)) end'
      }
      else Some True)"

fun flat_some_geq :: "nat \<Rightarrow> (nat \<Rightarrow> lpo_cmp option) \<Rightarrow> flat \<Rightarrow> nat \<Rightarrow> nat \<Rightarrow> bool option" where
  "flat_some_geq 0 cmp a child end' = None"
| "flat_some_geq (Suc n) cmp a child end' =
     (if child < end'
      then do {
        c \<leftarrow> cmp child;
        if c = LPO_EQ \<or> c = LPO_GT then Some True
        else flat_some_geq n cmp a (child + fl_sz (a ! child)) end'
      }
      else Some False)"

text \<open>The first two rounds that the source unrolls are rounds of the same loop.\<close>

fun flat_lex_diff :: "nat \<Rightarrow> (nat \<Rightarrow> nat \<Rightarrow> lpo_cmp option) \<Rightarrow> flat \<Rightarrow> nat \<Rightarrow> nat \<Rightarrow> flat \<Rightarrow> nat \<Rightarrow> nat
    \<Rightarrow> (lpo_cmp \<times> nat \<times> nat) option" where
  "flat_lex_diff 0 cmp a ca ea b cb eb = None"
| "flat_lex_diff (Suc n) cmp a ca ea b cb eb =
     (if ca < ea \<and> cb < eb
      then do {
        c \<leftarrow> cmp ca cb;
        if c \<noteq> LPO_EQ then Some (c, ca, cb)
        else flat_lex_diff n cmp a (ca + fl_sz (a ! ca)) ea b (cb + fl_sz (b ! cb)) eb
      }
      else Some (LPO_EQ, 0, 0))"

text \<open>
  lpo_flat_rec with lpo_flat_rec_compute. The operands are always one position in each of the
  two buffers, so the test for one position in one buffer never holds.
\<close>

fun lpo_flat_rec :: "nat \<Rightarrow> lpo_config \<Rightarrow> flat \<Rightarrow> nat \<Rightarrow> flat \<Rightarrow> nat \<Rightarrow> lpo_cmp option" where
  "lpo_flat_rec 0 cfg a pa b pb = None"
| "lpo_flat_rec (Suc n) cfg a pa b pb =
     (let ea = pa + fl_sz (a ! pa); eb = pb + fl_sz (b ! pb);
          a_is_var = fl_sym (a ! pa) < 0; b_is_var = fl_sym (b ! pb) < 0;
          ab = lpo_flat_rec n cfg a; ba = lpo_flat_rec n cfg b
      in if lpo_flat_slice_eq a pa b pb then Some LPO_EQ
         else if a_is_var \<and> b_is_var then Some LPO_UN
         else if a_is_var then Some (if lpo_flat_var_occurs b pb (fl_sym (a ! pa)) then LPO_LT else LPO_UN)
         else if b_is_var then Some (if lpo_flat_var_occurs a pa (fl_sym (b ! pb)) then LPO_GT else LPO_UN)
         else if lpo_pretest_groesser_flat (flat_slice a pa) (flat_slice b pb) cfg > 0 then Some LPO_GT
         else if lpo_pretest_groesser_flat (flat_slice b pb) (flat_slice a pa) cfg > 0 then Some LPO_LT
         else if fl_w (a ! pa) > fl_w (b ! pb)
         then do {
           all \<leftarrow> flat_all_gt (Suc eb) (ab pa b) b (pb + 1) eb;
           if all then Some LPO_GT
           else do {
             some \<leftarrow> flat_some_geq (Suc eb) (\<lambda>c. ba c a pa) b (pb + 1) eb;
             Some (if some then LPO_LT else LPO_UN)
           }
         }
         else if fl_w (a ! pa) < fl_w (b ! pb)
         then do {
           all \<leftarrow> flat_all_gt (Suc ea) (ba pb a) a (pa + 1) ea;
           if all then Some LPO_LT
           else do {
             some \<leftarrow> flat_some_geq (Suc ea) (\<lambda>c. ab c b pb) a (pa + 1) ea;
             Some (if some then LPO_GT else LPO_UN)
           }
         }
         else do {
           some_a \<leftarrow> flat_some_geq (Suc ea) (\<lambda>c. ab c b pb) a (pa + 1) ea;
           if some_a then Some LPO_GT
           else do {
             some_b \<leftarrow> flat_some_geq (Suc eb) (\<lambda>c. ba c a pa) b (pb + 1) eb;
             if some_b then Some LPO_LT
             else do {
               (lex, diff_a, diff_b) \<leftarrow> flat_lex_diff (Suc ea) (\<lambda>c d. ab c b d) a (pa + 1) ea b (pb + 1) eb;
               if lex = LPO_EQ then Some LPO_EQ
               else if lex = LPO_GT
               then do {
                 all \<leftarrow> flat_all_gt (Suc eb) (ab pa b) b diff_b eb;
                 Some (if all then LPO_GT else LPO_UN)
               }
               else do {
                 all \<leftarrow> flat_all_gt (Suc ea) (ba pb a) a diff_a ea;
                 Some (if all then LPO_LT else LPO_UN)
               }
             }
           }
         })"

section \<open>The entry point\<close>

definition lpo_pretest_flat_dispatch :: "trm \<Rightarrow> trm \<Rightarrow> lpo_config \<Rightarrow> lpo_cmp option" where
  "lpo_pretest_flat_dispatch s t cfg =
     (let stub = \<lparr>kc_weights = [0], kc_precedence = [0], kc_n_labels = 0, kc_var_weight = 0\<rparr>
      in case (kbo_flat_encode stub s [], kbo_flat_encode stub t []) of
           (Some a, Some b) \<Rightarrow>
             if lpo_pretest_groesser_flat a b cfg > 0 then Some LPO_GT
             else if lpo_pretest_groesser_flat b a cfg > 0 then Some LPO_LT
             else None
         | _ \<Rightarrow> None)"

text \<open>The variable set of an array, None when an id is out of range.\<close>

fun flat_var_set :: "flat \<Rightarrow> bool list \<Rightarrow> bool list option" where
  "flat_var_set [] vs = Some vs"
| "flat_var_set (n # a) vs =
     (if fl_sym n < 0
      then let vid = nat (- fl_sym n - 1)
           in if vid \<ge> LPO_MAX_VAR then None else flat_var_set a (vs[vid := True])
      else flat_var_set a vs)"

definition lpo_flat_top :: "bool \<Rightarrow> lpo_config \<Rightarrow> flat \<Rightarrow> flat \<Rightarrow> lpo_cmp option" where
  "lpo_flat_top vortest cfg a b =
     (let none = replicate LPO_MAX_VAR False
      in if vortest \<and> lpo_pretest_groesser_flat a b cfg > 0 then Some LPO_GT
         else if vortest \<and> lpo_pretest_groesser_flat b a cfg > 0 then Some LPO_LT
         else if (case (flat_var_set a none, flat_var_set b none) of
                    (Some vs, Some vt) \<Rightarrow> varsets_incomparable vs vt | _ \<Rightarrow> False)
         then Some LPO_UN
         else lpo_flat_rec (Suc (length a + length b)) cfg a 0 b 0)"

definition lpo_tree :: "lpo_config \<Rightarrow> trm \<Rightarrow> trm \<Rightarrow> lpo_cmp" where
  "lpo_tree cfg s t = (case lpo_pretest_varset s t of Some c \<Rightarrow> c | None \<Rightarrow> lpo_rec cfg s t)"

text \<open>vortest and flatrec are the gates THVM_LPO_VORTEST_FLAT (default off) and THVM_LPO_FLAT_REC (default on).\<close>

definition thvm_lpo_gated :: "bool \<Rightarrow> bool \<Rightarrow> lpo_config \<Rightarrow> trm \<Rightarrow> trm \<Rightarrow> lpo_cmp option" where
  "thvm_lpo_gated vortest flatrec cfg s t =
     (case (if vortest \<and> \<not> flatrec then lpo_pretest_flat_dispatch s t cfg else None) of
        Some c \<Rightarrow> Some c
      | None \<Rightarrow>
          if flatrec
          then (case (lpo_flat_encode cfg s [], lpo_flat_encode cfg t []) of
                  (Some a, Some b) \<Rightarrow> lpo_flat_top vortest cfg a b
                | _ \<Rightarrow> Some (lpo_tree cfg s t))
          else Some (lpo_tree cfg s t))"

text \<open>The value; the step bound never runs out (lpo_flat_total), so the default is not taken.\<close>

definition thvm_lpo :: "bool \<Rightarrow> bool \<Rightarrow> lpo_config \<Rightarrow> trm \<Rightarrow> trm \<Rightarrow> lpo_cmp" where
  "thvm_lpo vortest flatrec cfg s t =
     (case thvm_lpo_gated vortest flatrec cfg s t of Some c \<Rightarrow> c | None \<Rightarrow> LPO_UN)"

end
