(* ===== verification/Arg_Compare.thy ===== *)
theory Arg_Compare
  imports LPO
begin

text \<open>
  The comparisons of argument lists that src/rpo/_.c and src/wpo/_.c share: lexicographic
  (rpo_lex, wpo_lex) and as multisets (rpo_multi, wpo_multi), over the comparison of two
  arguments. The arrays of used flags are modelled by the lists of the entries not yet used.
\<close>

definition MAX_KIDS :: nat where "MAX_KIDS = 16"

fun arg_lex :: "('a \<Rightarrow> 'a \<Rightarrow> kbo_cmp) \<Rightarrow> 'a list \<Rightarrow> 'a list \<Rightarrow> kbo_cmp" where
  "arg_lex cmp (s # ss) (t # ts) = (let c = cmp s t in if c \<noteq> KBO_EQ then c else arg_lex cmp ss ts)"
| "arg_lex cmp _ _ = KBO_EQ"

text \<open>The first unused entry equal to s is used up, None when there is none.\<close>

fun use_equal :: "('a \<Rightarrow> 'a \<Rightarrow> kbo_cmp) \<Rightarrow> 'a \<Rightarrow> 'a list \<Rightarrow> 'a list option" where
  "use_equal cmp s [] = None"
| "use_equal cmp s (t # ts) =
     (if cmp s t = KBO_EQ then Some ts else map_option (Cons t) (use_equal cmp s ts))"

text \<open>Phase 1: greedy cancellation; the unused entries of both sides.\<close>

fun cancel_equal :: "('a \<Rightarrow> 'a \<Rightarrow> kbo_cmp) \<Rightarrow> 'a list \<Rightarrow> 'a list \<Rightarrow> 'a list \<times> 'a list" where
  "cancel_equal cmp [] ts = ([], ts)"
| "cancel_equal cmp (s # ss) ts =
     (case use_equal cmp s ts of
        Some ts' \<Rightarrow> cancel_equal cmp ss ts'
      | None \<Rightarrow> (let (ss', ts') = cancel_equal cmp ss ts in (s # ss', ts')))"

text \<open>Phase 2: every unused entry of ts is below some unused entry of ss.\<close>

definition all_dominated :: "('a \<Rightarrow> 'a \<Rightarrow> kbo_cmp) \<Rightarrow> 'a list \<Rightarrow> 'a list \<Rightarrow> bool" where
  "all_dominated cmp ss ts \<longleftrightarrow> list_all (\<lambda>t. list_ex (\<lambda>s. cmp s t = KBO_GT) ss) ts"

definition arg_multi :: "('a \<Rightarrow> 'a \<Rightarrow> kbo_cmp) \<Rightarrow> 'a list \<Rightarrow> 'a list \<Rightarrow> kbo_cmp" where
  "arg_multi cmp ss ts =
     (if length ss > MAX_KIDS \<or> length ts > MAX_KIDS then KBO_UN
      else let (ss', ts') = cancel_equal cmp ss ts
           in if ss' = [] \<and> ts' = [] then KBO_EQ
              else if ts' = [] then KBO_GT
              else if ss' = [] then KBO_LT
              else if all_dominated cmp ss' ts' then KBO_GT
              else if all_dominated cmp ts' ss' then KBO_LT
              else KBO_UN)"

section \<open>Congruence, for the recursions through them\<close>

lemma arg_lex_cong [fundef_cong]:
  "ss = ss' \<Longrightarrow> ts = ts' \<Longrightarrow> (\<And>s t. s \<in> set ss' \<Longrightarrow> t \<in> set ts' \<Longrightarrow> cmp s t = cmp' s t)
   \<Longrightarrow> arg_lex cmp ss ts = arg_lex cmp' ss' ts'"
  by (induction cmp' ss' ts' arbitrary: ss ts rule: arg_lex.induct) (auto simp: Let_def)

lemma use_equal_cong: "(\<And>t. t \<in> set ts \<Longrightarrow> cmp s t = cmp' s t) \<Longrightarrow> use_equal cmp s ts = use_equal cmp' s ts"
  by (induction ts) auto

lemma use_equal_subset: "use_equal cmp s ts = Some ts' \<Longrightarrow> set ts' \<subseteq> set ts"
  by (induction ts arbitrary: ts') (auto split: if_splits)

lemma cancel_equal_cong:
  "(\<And>s t. s \<in> set ss \<Longrightarrow> t \<in> set ts \<Longrightarrow> cmp s t = cmp' s t) \<Longrightarrow> cancel_equal cmp ss ts = cancel_equal cmp' ss ts"
proof (induction ss arbitrary: ts)
  case (Cons s ss)
  have u: "use_equal cmp s ts = use_equal cmp' s ts" using Cons.prems by (intro use_equal_cong) simp
  have "cancel_equal cmp ss us = cancel_equal cmp' ss us" if "set us \<subseteq> set ts" for us
    using Cons.IH [of us] Cons.prems that by auto
  then show ?case using u use_equal_subset [of cmp' s ts] by (auto split: option.splits)
qed simp

lemma cancel_equal_subset: "cancel_equal cmp ss ts = (ss', ts') \<Longrightarrow> set ss' \<subseteq> set ss \<and> set ts' \<subseteq> set ts"
proof (induction ss arbitrary: ts ss' ts')
  case (Cons s ss)
  show ?case
  proof (cases "use_equal cmp s ts")
    case None
    then obtain us where "cancel_equal cmp ss ts = (us, ts')" "ss' = s # us"
      using Cons.prems by (auto split: prod.splits)
    then show ?thesis using Cons.IH by fastforce
  next
    case (Some ts'')
    then show ?thesis using Cons.IH [of ts''] Cons.prems use_equal_subset by fastforce
  qed
qed simp

lemma all_dominated_cong:
  "(\<And>s t. s \<in> set ss \<Longrightarrow> t \<in> set ts \<Longrightarrow> cmp s t = cmp' s t) \<Longrightarrow> all_dominated cmp ss ts = all_dominated cmp' ss ts"
  unfolding all_dominated_def by (auto simp: list_all_iff list_ex_iff)

lemma arg_multi_cong [fundef_cong]:
  assumes "ss = ss'" and "ts = ts'" and "\<And>s t. s \<in> set ss' \<Longrightarrow> t \<in> set ts' \<Longrightarrow> cmp s t = cmp' s t"
    and "\<And>s t. s \<in> set ss' \<Longrightarrow> t \<in> set ts' \<Longrightarrow> cmp t s = cmp' t s"
  shows "arg_multi cmp ss ts = arg_multi cmp' ss' ts'"
proof -
  obtain us vs where c: "cancel_equal cmp' ss' ts' = (us, vs)" by force
  then have sub: "set us \<subseteq> set ss'" "set vs \<subseteq> set ts'" using cancel_equal_subset by blast+
  have "cancel_equal cmp ss' ts' = cancel_equal cmp' ss' ts'" using assms(3) by (rule cancel_equal_cong)
  moreover have "all_dominated cmp us vs = all_dominated cmp' us vs" "all_dominated cmp vs us = all_dominated cmp' vs us"
    using assms(3,4) sub by (intro all_dominated_cong; blast)+
  ultimately show ?thesis unfolding arg_multi_def assms(1,2) using c by simp
qed

section \<open>What they compute\<close>

text \<open>
  The entries are compared through f: cmp returns EQ exactly on entries with equal images. Then
  the cancellation leaves the multiset differences of the images.
\<close>

lemma use_equal_mset:
  assumes "\<And>t. t \<in> set ts \<Longrightarrow> cmp s t = KBO_EQ \<longleftrightarrow> f s = f t"
  shows "case use_equal cmp s ts of
      None \<Rightarrow> f s \<notin># image_mset f (mset ts)
    | Some ts' \<Rightarrow> image_mset f (mset ts) = add_mset (f s) (image_mset f (mset ts'))"
  using assms by (induction ts) (auto split: option.splits)

lemma cancel_equal_mset:
  assumes "\<And>s t. s \<in> set ss \<Longrightarrow> t \<in> set ts \<Longrightarrow> cmp s t = KBO_EQ \<longleftrightarrow> f s = f t"
    and "cancel_equal cmp ss ts = (ss', ts')"
  shows "image_mset f (mset ss') = image_mset f (mset ss) - image_mset f (mset ts)
    \<and> image_mset f (mset ts') = image_mset f (mset ts) - image_mset f (mset ss)"
  using assms
proof (induction ss arbitrary: ts ss')
  case (Cons s ss)
  have u: "case use_equal cmp s ts of
      None \<Rightarrow> f s \<notin># image_mset f (mset ts)
    | Some ts' \<Rightarrow> image_mset f (mset ts) = add_mset (f s) (image_mset f (mset ts'))"
    using Cons.prems(1) by (intro use_equal_mset) simp
  show ?case
  proof (cases "use_equal cmp s ts")
    case None
    then obtain us where us: "cancel_equal cmp ss ts = (us, ts')" "ss' = s # us"
      using Cons.prems(2) by (auto split: prod.splits)
    have ih: "image_mset f (mset us) = image_mset f (mset ss) - image_mset f (mset ts)
        \<and> image_mset f (mset ts') = image_mset f (mset ts) - image_mset f (mset ss)"
      using Cons.IH [OF _ us(1)] Cons.prems(1) by simp
    have "f s \<notin># image_mset f (mset ts)" using u None by simp
    then show ?thesis using ih us(2) by (simp add: diff_add_mset_swap minus_add_mset_if_not_in_lhs)
  next
    case (Some ts'')
    then have "set ts'' \<subseteq> set ts" by (rule use_equal_subset)
    then have "image_mset f (mset ss') = image_mset f (mset ss) - image_mset f (mset ts'')
        \<and> image_mset f (mset ts') = image_mset f (mset ts'') - image_mset f (mset ss)"
      using Cons.IH [of ts'' ss'] Cons.prems Some by auto
    then show ?thesis using u Some by simp
  qed
qed simp

end
