(* ===== verification/KBO_Order.thy ===== *)
theory KBO_Order
  imports KBO Orders
begin

text \<open>
  The verdict GT of the Knuth-Bendix comparator is a reduction ordering: irreflexive, transitive,
  closed under substitutions and contexts, well-founded. The laws hold for configurations whose
  precedence tells the labels in use apart and in which a variable weighs at least one and no
  label in use weighs less than a variable, on terms with variable ids below 64 and no foreign
  atom.
\<close>

subsection \<open>The verdict GT\<close>

definition kbo_admissible :: "kbo_config \<Rightarrow> ext set \<Rightarrow> bool" where
  "kbo_admissible cfg L \<longleftrightarrow> inj_on (kbo_prec cfg) L \<and> 0 < kc_var_weight cfg
     \<and> (\<forall>l \<in> L. kc_var_weight cfg \<le> kbo_weight cfg l)"

definition kbo_ok :: "kbo_config \<Rightarrow> ext set \<Rightarrow> trm \<Rightarrow> bool" where
  "kbo_ok cfg L t \<longleftrightarrow> kbo_admissible cfg L \<and> tlabels t \<subseteq> L \<and> vars_ok t \<and> no_atm t"

lemma kdom_refl [simp]: "kdom s s"
  by (simp add: kdom_def)

lemma kdom_trans: "kdom s t \<Longrightarrow> kdom t u \<Longrightarrow> kdom s u"
  unfolding kdom_def by (meson order_trans)

lemma rec_args_prefix:
  "length ss = length ts \<Longrightarrow> (\<And>s t. s \<in> set ss \<Longrightarrow> t \<in> set ts \<Longrightarrow> prec_inj cfg s t) \<Longrightarrow>
   kbo_rec_args cfg sd td ss ts = KBO_GT \<Longrightarrow>
   \<exists>us s vs t ws. ss = us @ s # vs \<and> ts = us @ t # ws \<and> kbo_gt cfg s t"
proof (induction ss ts rule: list_induct2)
  case (Cons s ss t ts)
  show ?case
  proof (cases "kbo_rec cfg s t = KBO_EQ")
    case True
    then have st: "s = t" using kbo_rec_EQ Cons.prems(1) [of s t] by simp
    from Cons.prems(2) st have "kbo_rec_args cfg sd td ss ts = KBO_GT" by simp
    from Cons.IH [OF _ this] Cons.prems(1) obtain us a vs b ws
      where "ss = us @ a # vs" "ts = us @ b # ws" "kbo_gt cfg a b" by auto
    then have "s # ss = (s # us) @ a # vs \<and> t # ts = (s # us) @ b # ws \<and> kbo_gt cfg a b" using st by simp
    then show ?thesis by blast
  next
    case False
    then have "kbo_gt cfg s t"
      using Cons.prems(2) by (auto simp: kbo_gt_def split: kbo_cmp.splits if_splits)
    then have "s # ss = [] @ s # ss \<and> t # ts = [] @ t # ts \<and> kbo_gt cfg s t" by simp
    then show ?thesis by blast
  qed
qed simp

text \<open>Introduction and elimination of GT.\<close>

lemma kbo_gt_weight: "kdom s t \<Longrightarrow> kw cfg s > kw cfg t \<Longrightarrow> kbo_gt cfg s t"
  by (auto simp: kbo_gt_def kbo_rec_eq [of cfg s t])

lemma kbo_gt_prec:
  "kdom (CTR f ss) (CTR g ts) \<Longrightarrow> kw cfg (CTR f ss) = kw cfg (CTR g ts) \<Longrightarrow>
   kbo_prec cfg f > kbo_prec cfg g \<Longrightarrow> kbo_gt cfg (CTR f ss) (CTR g ts)"
  by (auto simp: kbo_gt_def kbo_rec_eq [of cfg "CTR f ss" "CTR g ts"] simp del: kw.simps)

lemma kbo_gt_neq: "kbo_gt cfg s t \<Longrightarrow> s \<noteq> t"
  by (auto simp: kbo_gt_def)

lemma kbo_gt_lex:
  assumes "kdom (CTR f (us @ s # vs)) (CTR f (us @ t # ws))"
    and "kw cfg (CTR f (us @ s # vs)) = kw cfg (CTR f (us @ t # ws))"
    and "length vs = length ws" and "kbo_gt cfg s t"
  shows "kbo_gt cfg (CTR f (us @ s # vs)) (CTR f (us @ t # ws))"
proof -
  have "s \<noteq> t" using assms(4) by (rule kbo_gt_neq)
  moreover have "kbo_rec_args cfg True td (us @ s # vs) (us @ t # ws) = KBO_GT" for td
    using rec_args_diff [OF \<open>s \<noteq> t\<close>, of cfg] assms(4) by (simp add: kbo_gt_def)
  ultimately show ?thesis
    using assms(1-3)
    by (auto simp: kbo_gt_def kbo_rec_eq [of cfg "CTR f (us @ s # vs)"] simp del: kw.simps)
qed

lemma kbo_gtE:
  assumes "kbo_gt cfg s t" and "prec_inj cfg s t"
  obtains (weight) "kdom s t" "kw cfg s > kw cfg t"
  | (prec) f ss g ts where "kdom s t" "kw cfg s = kw cfg t" "s = CTR f ss" "t = CTR g ts"
      "kbo_prec cfg f > kbo_prec cfg g"
  | (lex) f us a vs b ws where "kdom s t" "kw cfg s = kw cfg t" "s = CTR f (us @ a # vs)"
      "t = CTR f (us @ b # ws)" "length vs = length ws" "kbo_gt cfg a b"
proof -
  have ne: "s \<noteq> t" using assms(1) by (rule kbo_gt_neq)
  have gt: "kbo_rec cfg s t = KBO_GT" using assms(1) by (simp add: kbo_gt_def)
  show thesis
  proof (cases "kw cfg s > kw cfg t")
    case True
    then have "kdom s t" using gt ne unfolding kbo_rec_eq [of cfg s t] by (simp split: if_splits)
    then show ?thesis using weight True by blast
  next
    case False
    from gt ne False obtain f ss g ts where st: "s = CTR f ss" "t = CTR g ts" and kw: "kw cfg s = kw cfg t"
      and c: "kbo_prec cfg f > kbo_prec cfg g \<and> kdom s t \<or>
        kbo_prec cfg f = kbo_prec cfg g \<and> length ss = length ts
        \<and> kbo_rec_args cfg (kdom s t) (kdom t s) ss ts = KBO_GT"
      unfolding kbo_rec_eq [of cfg s t]
      by (auto split: if_splits trm.splits simp del: kw.simps simp: not_less intro: order_antisym)
    from c show ?thesis
    proof
      assume "kbo_prec cfg f > kbo_prec cfg g \<and> kdom s t"
      then show ?thesis using prec kw st by blast
    next
      assume a: "kbo_prec cfg f = kbo_prec cfg g \<and> length ss = length ts
        \<and> kbo_rec_args cfg (kdom s t) (kdom t s) ss ts = KBO_GT"
      have fg: "f = g" using prec_inj_head a assms(2) st by blast
      have "length ss = length ts" using a by simp
      then obtain us x vs y ws where u: "ss = us @ x # vs" "ts = us @ y # ws" "kbo_gt cfg x y"
        using rec_args_prefix [of ss ts cfg] a prec_inj_child assms(2) st by blast
      have "kdom s t"
      proof (rule ccontr)
        assume "\<not> kdom s t"
        then show False using a rec_args_diff [OF kbo_gt_neq [OF u(3)], of cfg False "kdom t s" us vs ws] u
          by (auto simp: kbo_gt_def)
      qed
      then show ?thesis using lex [of f us x vs y ws] kw st u fg a by simp
    qed
  qed
qed

text \<open>The verdict LT is GT with the sides swapped, for any configuration.\<close>

fun kbo_flip :: "kbo_cmp \<Rightarrow> kbo_cmp" where
  "kbo_flip KBO_GT = KBO_LT"
| "kbo_flip KBO_LT = KBO_GT"
| "kbo_flip c = c"

lemma rec_args_flip:
  assumes "\<And>s t. s \<in> set ss \<Longrightarrow> t \<in> set ts \<Longrightarrow> kbo_rec cfg t s = kbo_flip (kbo_rec cfg s t)"
  shows "kbo_rec_args cfg td sd ts ss = kbo_flip (kbo_rec_args cfg sd td ss ts)"
  using assms by (induction ss ts rule: list_induct2') (auto split: kbo_cmp.splits)

lemma kbo_rec_flip: "kbo_rec cfg t s = kbo_flip (kbo_rec cfg s t)"
proof (induction s arbitrary: t)
  case (FVR x)
  show ?case unfolding kbo_rec_eq [of cfg t "FVR x"] kbo_rec_eq [of cfg "FVR x" t]
    by (cases t) (auto simp del: kw.simps)
next
  case (ATM g e v)
  show ?case unfolding kbo_rec_eq [of cfg t "ATM g e v"] kbo_rec_eq [of cfg "ATM g e v" t]
    by (cases t) (auto simp del: kw.simps)
next
  case (CTR f ss)
  show ?case
  proof (cases "is_ctr t")
    case True
    then obtain g ts where t: "t = CTR g ts" by (cases t) auto
    have "kbo_rec_args cfg td sd ts ss = kbo_flip (kbo_rec_args cfg sd td ss ts)" for sd td
      by (rule rec_args_flip) (rule CTR.IH)
    then show ?thesis
      unfolding t kbo_rec_eq [of cfg "CTR g ts" "CTR f ss"] kbo_rec_eq [of cfg "CTR f ss" "CTR g ts"]
      by (auto simp del: kw.simps)
  next
    case False
    then show ?thesis unfolding kbo_rec_eq [of cfg t "CTR f ss"] kbo_rec_eq [of cfg "CTR f ss" t]
      by (cases t) (auto simp del: kw.simps)
  qed
qed


subsection \<open>Substitution\<close>

lemma kcnt_no_atm_weight:
  assumes "kbo_ok cfg L t"
  shows "int (kc_var_weight cfg) \<le> kw cfg t"
proof (cases t)
  case (CTR l ts)
  have "0 \<le> kw cfg u" for u by (induction u) (auto intro!: sum_list_nonneg add_nonneg_nonneg)
  then have "0 \<le> sum_list (map (kw cfg) ts)" by (auto intro!: sum_list_nonneg)
  moreover have "l \<in> L" using assms CTR by (simp add: kbo_ok_def)
  then have "kc_var_weight cfg \<le> kbo_weight cfg l" using assms by (simp add: kbo_ok_def kbo_admissible_def)
  ultimately show ?thesis by (simp add: CTR)
qed (use assms in \<open>auto simp: kbo_ok_def\<close>)

lemma sum_list_swap:
  "sum_list (map (\<lambda>t. \<Sum>i \<in> A. f t i * g i) ts) = (\<Sum>i \<in> A. sum_list (map (\<lambda>t. f t i) ts) * g i)"
  for g :: "'b \<Rightarrow> int"
  by (induction ts) (simp_all add: sum.distrib algebra_simps)

lemma unat_slot:
  "unat (x :: ext) = i \<Longrightarrow> of_nat i = x"
  by auto

text \<open>Weight and counts of an instance, as sums over the 64 slots.\<close>

lemma kcnt_FVR_sum:
  assumes "unat x < KBO_MAX_VAR"
  shows "(\<Sum>i < KBO_MAX_VAR. kcnt (FVR x) i * g i) = g (unat x)"
proof -
  have "(\<Sum>i < KBO_MAX_VAR. kcnt (FVR x) i * g i) = (\<Sum>i < KBO_MAX_VAR. if i = unat x then g i else 0)"
    by (rule sum.cong) auto
  then show ?thesis using assms by simp
qed

lemma kw_tsubst:
  "vars_ok t \<Longrightarrow> kw cfg (tsubst \<sigma> t)
     = kw cfg t + (\<Sum>i < KBO_MAX_VAR. kcnt t i * (kw cfg (\<sigma> (of_nat i)) - int (kc_var_weight cfg)))"
proof (induction t)
  case (FVR x)
  then have "unat x < KBO_MAX_VAR" by (simp add: KBO_MAX_VAR_def REWRITE_MAX_VAR_def)
  from kcnt_FVR_sum [OF this] show ?case by (simp del: kcnt.simps)
next
  case (CTR l ts)
  have "sum_list (map (\<lambda>t. kw cfg (tsubst \<sigma> t)) ts)
      = sum_list (map (kw cfg) ts)
        + sum_list (map (\<lambda>t. \<Sum>i < KBO_MAX_VAR. kcnt t i * (kw cfg (\<sigma> (of_nat i)) - int (kc_var_weight cfg))) ts)"
    using CTR by (induction ts) auto
  then show ?case by (simp add: sum_list_swap comp_def)
qed simp

lemma kcnt_tsubst:
  "vars_ok t \<Longrightarrow> kcnt (tsubst \<sigma> t) j = (\<Sum>i < KBO_MAX_VAR. kcnt t i * kcnt (\<sigma> (of_nat i)) j)"
proof (induction t)
  case (FVR x)
  then have "unat x < KBO_MAX_VAR" by (simp add: KBO_MAX_VAR_def REWRITE_MAX_VAR_def)
  from kcnt_FVR_sum [OF this] show ?case by (simp del: kcnt.simps)
next
  case (CTR l ts)
  have "sum_list (map (\<lambda>t. kcnt (tsubst \<sigma> t) j) ts)
      = sum_list (map (\<lambda>t. \<Sum>i < KBO_MAX_VAR. kcnt t i * kcnt (\<sigma> (of_nat i)) j) ts)"
    using CTR by (induction ts) auto
  then show ?case by (simp add: sum_list_swap comp_def)
qed simp

lemma kdom_tsubst:
  assumes "kdom s t" and "vars_ok s" and "vars_ok t"
  shows "kdom (tsubst \<sigma> s) (tsubst \<sigma> t)"
  unfolding kdom_def kcnt_tsubst [OF assms(2)] kcnt_tsubst [OF assms(3)]
  using assms(1) kcnt_nonneg by (auto simp: kdom_def intro!: sum_mono mult_right_mono)

lemma kw_diff_tsubst:
  assumes "kdom s t" and "vars_ok s" and "vars_ok t"
    and "\<And>x. int (kc_var_weight cfg) \<le> kw cfg (\<sigma> x)"
  shows "kw cfg s - kw cfg t \<le> kw cfg (tsubst \<sigma> s) - kw cfg (tsubst \<sigma> t)"
proof -
  let ?g = "\<lambda>i. kw cfg (\<sigma> (of_nat i)) - int (kc_var_weight cfg)"
  have "(\<Sum>i < KBO_MAX_VAR. kcnt t i * ?g i) \<le> (\<Sum>i < KBO_MAX_VAR. kcnt s i * ?g i)"
    using assms(1,4) by (auto simp: kdom_def intro!: sum_mono mult_right_mono)
  then show ?thesis unfolding kw_tsubst [OF assms(2)] kw_tsubst [OF assms(3)] by simp
qed

lemma kbo_ok_child: "kbo_ok cfg L (CTR f ts) \<Longrightarrow> t \<in> set ts \<Longrightarrow> kbo_ok cfg L t"
  by (auto simp: kbo_ok_def list_all_iff)

lemma kbo_ok_prec_inj: "kbo_ok cfg L s \<Longrightarrow> kbo_ok cfg L t \<Longrightarrow> prec_inj cfg s t"
  unfolding kbo_ok_def kbo_admissible_def prec_inj_def by (meson inj_on_subset Un_least)

lemma kbo_gt_stable:
  assumes "kbo_gt cfg s t" and "kbo_ok cfg L s" and "kbo_ok cfg L t" and "\<And>x. kbo_ok cfg L (\<sigma> x)"
  shows "kbo_gt cfg (tsubst \<sigma> s) (tsubst \<sigma> t)"
  using assms(1-3)
proof (induction s arbitrary: t)
  case (CTR f0 ss0)
  have v: "vars_ok (CTR f0 ss0)" "vars_ok t" using CTR.prems(2,3) by (auto simp: kbo_ok_def)
  have w: "int (kc_var_weight cfg) \<le> kw cfg (\<sigma> x)" for x by (rule kcnt_no_atm_weight [OF assms(4)])
  have kd: "kw cfg (CTR f0 ss0) - kw cfg t \<le> kw cfg (tsubst \<sigma> (CTR f0 ss0)) - kw cfg (tsubst \<sigma> t)"
    if "kdom (CTR f0 ss0) t" using kw_diff_tsubst [OF that v, of cfg \<sigma>] w by blast
  show ?case
    using CTR.prems(1) kbo_ok_prec_inj [OF CTR.prems(2,3)]
  proof (cases rule: kbo_gtE)
    case weight
    then have "kw cfg (tsubst \<sigma> t) < kw cfg (tsubst \<sigma> (CTR f0 ss0))" using kd [OF weight(1)] by linarith
    with kdom_tsubst [OF weight(1) v] show ?thesis by (rule kbo_gt_weight)
  next
    case (prec f ss g ts)
    note d = kdom_tsubst [OF prec(1) v, of \<sigma>]
    have "kw cfg (tsubst \<sigma> t) \<le> kw cfg (tsubst \<sigma> (CTR f0 ss0))"
      using kd [OF prec(1)] prec(2) by simp
    then show ?thesis using d prec kbo_gt_weight [OF d, of cfg]
        kbo_gt_prec [of f "map (tsubst \<sigma>) ss" g "map (tsubst \<sigma>) ts" cfg]
      by (auto simp: le_less simp del: kw.simps)
  next
    case (lex f us a vs b ws)
    note d = kdom_tsubst [OF lex(1) v, of \<sigma>]
    have le: "kw cfg (tsubst \<sigma> t) \<le> kw cfg (tsubst \<sigma> (CTR f0 ss0))"
      using kd [OF lex(1)] lex(2) by simp
    have "a \<in> set ss0" using lex(3) by simp
    moreover have "kbo_ok cfg L a" "kbo_ok cfg L b"
      using kbo_ok_child CTR.prems(2,3) lex(3,4) by fastforce+
    ultimately have IH: "kbo_gt cfg (tsubst \<sigma> a) (tsubst \<sigma> b)" using CTR.IH lex(6) by blast
    show ?thesis
    proof (cases "kw cfg (tsubst \<sigma> t) < kw cfg (tsubst \<sigma> (CTR f0 ss0))")
      case True
      with d show ?thesis by (rule kbo_gt_weight)
    next
      case False
      with le have eq: "kw cfg (tsubst \<sigma> (CTR f0 ss0)) = kw cfg (tsubst \<sigma> t)" by simp
      have s': "tsubst \<sigma> (CTR f0 ss0)
          = CTR f (map (tsubst \<sigma>) us @ tsubst \<sigma> a # map (tsubst \<sigma>) vs)" using lex(3) by simp
      have t': "tsubst \<sigma> t = CTR f (map (tsubst \<sigma>) us @ tsubst \<sigma> b # map (tsubst \<sigma>) ws)"
        using lex(4) by simp
      show ?thesis unfolding s' t'
        by (rule kbo_gt_lex [OF d [unfolded s' t'] eq [unfolded s' t'] _ IH]) (simp add: lex(5))
    qed
  qed
next
  case (FVR x)
  show ?case using FVR.prems(1) kbo_ok_prec_inj [OF FVR.prems(2,3)]
  proof (cases rule: kbo_gtE)
    case weight
    then show ?thesis using kcnt_no_atm_weight [OF FVR.prems(3)] by simp
  qed auto
next
  case (ATM g e v)
  then show ?case by (simp add: kbo_ok_def)
qed

subsection \<open>Contexts\<close>

lemma kdom_context: "kdom s t \<Longrightarrow> kdom (CTR f (us @ s # vs)) (CTR f (us @ t # vs))"
  by (simp add: kdom_def)

lemma rec_args_GT_dom: "kbo_rec_args cfg sd td ss ts = KBO_GT \<Longrightarrow> sd"
  by (induction ss ts rule: list_induct2') (auto split: kbo_cmp.splits if_splits)

lemma kbo_gt_context:
  assumes "kbo_gt cfg s t"
  shows "kbo_gt cfg (CTR f (us @ s # vs)) (CTR f (us @ t # vs))"
proof -
  have "kdom s t \<and> kw cfg t \<le> kw cfg s"
    using assms kbo_gt_neq [OF assms]
    unfolding kbo_gt_def kbo_rec_eq [of cfg s t]
    by (auto split: if_splits trm.splits simp del: kw.simps dest: rec_args_GT_dom)
  then have d: "kdom s t" and w: "kw cfg t \<le> kw cfg s" by auto
  show ?thesis
  proof (cases "kw cfg t < kw cfg s")
    case True
    then show ?thesis using kdom_context [OF d] by (intro kbo_gt_weight) auto
  next
    case False
    then show ?thesis using kdom_context [OF d] w assms by (intro kbo_gt_lex) auto
  qed
qed


subsection \<open>Transitivity and well-foundedness\<close>

lemma kbo_gt_trans:
  "kbo_gt cfg s t \<Longrightarrow> kbo_gt cfg t u \<Longrightarrow> kbo_ok cfg L s \<Longrightarrow> kbo_ok cfg L t \<Longrightarrow> kbo_ok cfg L u \<Longrightarrow>
   kbo_gt cfg s u"
proof (induction s arbitrary: t u)
  case (CTR f0 ss0)
  let ?s = "CTR f0 ss0"
  note inj1 = kbo_ok_prec_inj [OF CTR.prems(3,4)] and inj2 = kbo_ok_prec_inj [OF CTR.prems(4,5)]
  have st: "kdom ?s t" "kw cfg t \<le> kw cfg ?s"
    using CTR.prems(1) inj1 by (cases rule: kbo_gtE; simp)+
  have tu: "kdom t u" "kw cfg u \<le> kw cfg t"
    using CTR.prems(2) inj2 by (cases rule: kbo_gtE; simp)+
  have d: "kdom ?s u" using st tu kdom_trans by blast
  show ?case
  proof (cases "kw cfg u < kw cfg ?s")
    case True
    with d show ?thesis by (rule kbo_gt_weight)
  next
    case False
    then have eq: "kw cfg ?s = kw cfg t" "kw cfg t = kw cfg u" using st tu by linarith+
    from CTR.prems(1) inj1 show ?thesis
    proof (cases rule: kbo_gtE)
      case weight
      then show ?thesis using eq by simp
    next
      case p1: (prec f ss g ts)
      from CTR.prems(2) inj2 show ?thesis
      proof (cases rule: kbo_gtE)
        case weight
        then show ?thesis using eq by simp
      next
        case (prec f' ss' g' ts')
        then show ?thesis using p1 d eq kbo_gt_prec [of f ss g' ts' cfg] by simp
      next
        case (lex f' us a vs b ws)
        then show ?thesis using p1 d eq kbo_gt_prec [of f ss f' "us @ b # ws" cfg] by simp
      qed
    next
      case l1: (lex f us a vs b ws)
      from CTR.prems(2) inj2 show ?thesis
      proof (cases rule: kbo_gtE)
        case weight
        then show ?thesis using eq by simp
      next
        case (prec f' ss' g' ts')
        then show ?thesis using l1 d eq kbo_gt_prec [of f "us @ a # vs" g' ts' cfg] by simp
      next
        case l2: (lex f' us' c vs' e ws')
        have f': "f' = f" and split: "us @ b # ws = us' @ c # vs'" using l1(4) l2(3) by auto
        have ok: "kbo_ok cfg L a" "kbo_ok cfg L b" "kbo_ok cfg L c" "kbo_ok cfg L e"
          using kbo_ok_child [OF CTR.prems(3)] kbo_ok_child [OF CTR.prems(4) [unfolded l1(4)]]
            kbo_ok_child [OF CTR.prems(4) [unfolded l2(3)]] kbo_ok_child [OF CTR.prems(5) [unfolded l2(4)]]
            l1(3) by auto
        consider "us = us'" "b = c" "ws = vs'"
          | zs where "us' = us @ b # zs" "ws = zs @ c # vs'"
          | zs where "us = us' @ c # zs" "vs' = zs @ b # ws"
          using split by (auto simp: append_eq_append_conv2 Cons_eq_append_conv append_eq_Cons_conv)
        then show ?thesis
        proof cases
          case 1
          have "a \<in> set ss0" using l1(3) by simp
          then have "kbo_gt cfg a e" using CTR.IH l1(6) l2(6) ok 1 by blast
          then show ?thesis using l1 l2 1 f' d eq
            by (auto intro!: kbo_gt_lex simp del: kw.simps)
        next
          case 2
          have u: "u = CTR f (us @ b # (zs @ e # ws'))" using l2(4) 2 f' by simp
          have len: "length vs = length (zs @ e # ws')" using l1(5) l2(5) 2 by simp
          show ?thesis unfolding l1(3) u
            by (rule kbo_gt_lex) (use d eq l1 u len in simp_all)
        next
          case 3
          have s: "?s = CTR f (us' @ c # (zs @ a # vs))" using l1(3) 3 by simp
          have u: "u = CTR f (us' @ e # ws')" using l2(4) f' by simp
          have len: "length (zs @ a # vs) = length ws'" using l1(5) l2(5) 3 by simp
          show ?thesis unfolding s u
            by (rule kbo_gt_lex) (use d eq s u len l2(6) in simp_all)
        qed
      qed
    qed
  qed
next
  case (FVR x)
  from FVR.prems(1) kbo_ok_prec_inj [OF FVR.prems(3,4)] show ?case
  proof (cases rule: kbo_gtE)
    case weight
    then show ?thesis using kcnt_no_atm_weight [OF FVR.prems(4)] by simp
  qed auto
next
  case (ATM g e v)
  then show ?case by (simp add: kbo_ok_def)
qed

text \<open>
  Every symbol and variable in use weighs at least one, so a weight bounds the number of nodes;
  labels and variable ids are 18-bit words, so there are finitely many terms of a given size.
\<close>

lemma kw_tsize: "kbo_ok cfg L t \<Longrightarrow> int (tsize t) \<le> kw cfg t"
proof (induction t)
  case (CTR l ts)
  have "1 \<le> kbo_weight cfg l"
    using CTR.prems by (auto simp: kbo_ok_def kbo_admissible_def)
  moreover have "int (sum_list (map tsize ts)) \<le> sum_list (map (kw cfg) ts)"
  proof -
    have "int (tsize t) \<le> kw cfg t" if "t \<in> set ts" for t
      using CTR that kbo_ok_child by blast
    then show ?thesis by (induction ts) fastforce+
  qed
  ultimately show ?case by simp
qed (auto simp: kbo_ok_def kbo_admissible_def)

lemma finite_small_terms: "finite {t. no_atm t \<and> tsize t \<le> n}"
proof (induction n)
  case 0
  have "\<not> tsize t \<le> 0" for t using tsize_pos [of t] by linarith
  then have "{t. no_atm t \<and> tsize t \<le> 0} = {}" by blast
  then show ?case by (simp only: finite.emptyI)
next
  case (Suc n)
  let ?A = "{t. no_atm t \<and> tsize t \<le> n}"
  have "{t. no_atm t \<and> tsize t \<le> Suc n}
      \<subseteq> range FVR \<union> (\<lambda>(l, ts). CTR l ts) ` (UNIV \<times> {ts. set ts \<subseteq> ?A \<and> length ts \<le> n})"
  proof
    fix t
    assume t: "t \<in> {t. no_atm t \<and> tsize t \<le> Suc n}"
    show "t \<in> range FVR \<union> (\<lambda>(l, ts). CTR l ts) ` (UNIV \<times> {ts. set ts \<subseteq> ?A \<and> length ts \<le> n})"
    proof (cases t)
      case (CTR l ts)
      have "tsize u \<le> n" if "u \<in> set ts" for u
        using tsize_child [OF that, of l] t CTR by simp
      moreover have "length ts \<le> n"
      proof -
        have "length us \<le> sum_list (map tsize us)" for us
        proof (induction us)
          case (Cons u us)
          then show ?case using tsize_pos [of u] by (simp only: list.map sum_list.Cons list.size)
        qed simp
        from this [of ts] show ?thesis using t CTR by simp
      qed
      ultimately show ?thesis using t CTR by (auto simp: list_all_iff)
    qed (use t in auto)
  qed
  moreover have "finite {ts. set ts \<subseteq> ?A \<and> length ts \<le> n}"
    using Suc by (rule finite_lists_length_le)
  ultimately show ?case by (auto intro: finite_subset)
qed

lemma kbo_gt_wf: "wfp (\<lambda>t s. kbo_ok cfg L s \<and> kbo_ok cfg L t \<and> kbo_gt cfg s t)"
proof -
  let ?r = "\<lambda>t s. kbo_ok cfg L s \<and> kbo_ok cfg L t \<and> kbo_gt cfg s t"
  have down: "kw cfg t \<le> kw cfg s" if r: "?r t s" for s t
  proof -
    have "kbo_gt cfg s t" "prec_inj cfg s t" using r kbo_ok_prec_inj by blast+
    then show ?thesis by (cases rule: kbo_gtE) simp_all
  qed
  have "\<exists>z \<in> Q. \<forall>y. ?r y z \<longrightarrow> y \<notin> Q" if xQ: "x \<in> Q" for x :: trm and Q
  proof (cases "kbo_ok cfg L x")
    case False
    then show ?thesis using xQ by blast
  next
    case True
    let ?F = "{t \<in> Q. kbo_ok cfg L t \<and> kw cfg t \<le> kw cfg x}"
    have "?F \<subseteq> {t. no_atm t \<and> tsize t \<le> nat (kw cfg x)}"
      using kw_tsize by (fastforce simp: kbo_ok_def)
    then have fin: "finite ?F" using finite_small_terms finite_subset by blast
    have "\<exists>z \<in> ?F. \<forall>y \<in> ?F. \<not> kbo_gt cfg z y"
    proof (rule ccontr)
      assume c: "\<not> (\<exists>z \<in> ?F. \<forall>y \<in> ?F. \<not> kbo_gt cfg z y)"
      let ?R = "{(y, z). y \<in> ?F \<and> z \<in> ?F \<and> kbo_gt cfg z y}"
      have "finite ?R" using fin by (auto intro: finite_subset [of _ "?F \<times> ?F"])
      moreover have "trans ?R" using kbo_gt_trans by (auto simp: trans_def)
      then have "acyclic ?R" using kbo_gt_neq by (auto simp: acyclic_def)
      ultimately have "wf ?R" by (rule finite_acyclic_wf)
      then obtain z where "z \<in> ?F" "\<And>y. (y, z) \<in> ?R \<Longrightarrow> y \<notin> ?F"
        using xQ True by (elim wfE_min [of ?R x ?F]) auto
      then show False using c by blast
    qed
    then obtain z where z: "z \<in> ?F" "\<forall>y \<in> ?F. \<not> kbo_gt cfg z y" by blast
    have "y \<notin> Q" if r: "?r y z" for y
    proof
      assume "y \<in> Q"
      then have "y \<in> ?F" using r z(1) down [OF r] by simp
      then show False using z(2) r by blast
    qed
    then show ?thesis using z by blast
  qed
  then show ?thesis unfolding wfp_eq_minimal by blast
qed

subsection \<open>The interface\<close>

lemma tlabels_tsubst: "tlabels (tsubst \<sigma> t) = tlabels t \<union> (\<Union>x \<in> tvars t. tlabels (\<sigma> x))"
  by (induction t) auto

lemma vars_ok_tsubst: "vars_ok (tsubst \<sigma> t) \<longleftrightarrow> (\<forall>x \<in> tvars t. vars_ok (\<sigma> x))"
  by (auto simp: vars_ok_def tvars_tsubst)

lemma no_atm_tsubst: "no_atm (tsubst \<sigma> t) \<longleftrightarrow> no_atm t \<and> (\<forall>x \<in> tvars t. no_atm (\<sigma> x))"
  by (induction t) (auto simp: list_all_iff)

interpretation kbo: reduction_order "kbo_gt cfg" "kbo_ok cfg L" for cfg L
proof unfold_locales
  show "\<not> kbo_gt cfg s s" for s by (simp add: kbo_gt_def)
  show "kbo_gt cfg (tsubst \<sigma> s) (tsubst \<sigma> t)"
    if "kbo_gt cfg s t" "kbo_ok cfg L s" "kbo_ok cfg L t" "\<And>x. kbo_ok cfg L (\<sigma> x)" for s t \<sigma>
    using that by (rule kbo_gt_stable)
  show "kbo_gt cfg (CTR f (us @ s # vs)) (CTR f (us @ t # vs))" if "kbo_gt cfg s t" for s t f us vs
    using that by (rule kbo_gt_context)
  show "kbo_ok cfg L t" if "kbo_ok cfg L (CTR f ts)" "t \<in> set ts" for f ts t
    using that by (rule kbo_ok_child)
  show "kbo_ok cfg L (tsubst \<sigma> t)" if "kbo_ok cfg L t" "\<And>x. kbo_ok cfg L (\<sigma> x)" for t \<sigma>
    using that unfolding kbo_ok_def tlabels_tsubst vars_ok_tsubst no_atm_tsubst by blast
  show "kbo_ok cfg L (CTR f (us @ t # vs))" if "kbo_ok cfg L (CTR f (us @ s # vs))" "kbo_ok cfg L t"
    for f us s vs t using that by (auto simp: kbo_ok_def)
  show "kbo_ok cfg L (\<sigma> x)" if "kbo_ok cfg L (tsubst \<sigma> t)" "x \<in> tvars t" for \<sigma> t x
    using that unfolding kbo_ok_def tlabels_tsubst vars_ok_tsubst no_atm_tsubst by blast
  show "\<exists>x. kbo_ok cfg L (FVR x)" if "kbo_ok cfg L t" for t
    using that by (intro exI [of _ 0]) (auto simp: kbo_ok_def REWRITE_MAX_VAR_def)
  show "wfp (\<lambda>t s. kbo_ok cfg L s \<and> kbo_ok cfg L t \<and> kbo_gt cfg s t)" by (rule kbo_gt_wf)
qed

subsection \<open>Properties\<close>

lemma kbo_cfg3_admissible: "kbo_admissible kbo_cfg3 {0, 1, 2}"
proof -
  have "inj_on (kbo_prec kbo_cfg3) {0, 1, 2}"
    by (simp add: kbo_prec_def kbo_cfg3_def)
  moreover have "kc_var_weight kbo_cfg3 \<le> kbo_weight kbo_cfg3 l" if "l \<in> {0, 1, 2}" for l
    using that by (elim insertE) (simp_all add: kbo_cfg3_def kbo_weight_def)
  ultimately show ?thesis by (auto simp: kbo_admissible_def) (simp add: kbo_cfg3_def)
qed

lemma kbo_cfg3_ok: "kbo_ok kbo_cfg3 {0, 1, 2} t \<longleftrightarrow> tlabels t \<subseteq> {0, 1, 2} \<and> vars_ok t \<and> no_atm t"
  by (simp add: kbo_ok_def kbo_cfg3_admissible)

text \<open>C13: the Knuth-Bendix verdict is a simplification-style reduction ordering. For an admissible
  configuration, GT is irreflexive, transitive, closed under substitutions and contexts and
  well-founded, and LT is GT with the sides swapped.\<close>
theorem kbo_reduction_order:
  "(thvm_kbo_naive cfg s s = KBO_EQ)
   \<and> (thvm_kbo_naive cfg s t = KBO_LT \<longleftrightarrow> thvm_kbo_naive cfg t s = KBO_GT)
   \<and> (kbo_ok cfg L s \<and> kbo_ok cfg L t \<and> kbo_ok cfg L u \<and> thvm_kbo_naive cfg s t = KBO_GT
        \<and> thvm_kbo_naive cfg t u = KBO_GT \<longrightarrow> thvm_kbo_naive cfg s u = KBO_GT)
   \<and> (kbo_ok cfg L s \<and> kbo_ok cfg L t \<and> (\<forall>x. kbo_ok cfg L (\<sigma> x)) \<and> thvm_kbo_naive cfg s t = KBO_GT
        \<longrightarrow> thvm_kbo_naive cfg (tsubst \<sigma> s) (tsubst \<sigma> t) = KBO_GT)
   \<and> (thvm_kbo_naive cfg s t = KBO_GT
        \<longrightarrow> thvm_kbo_naive cfg (CTR f (us @ s # vs)) (CTR f (us @ t # vs)) = KBO_GT)
   \<and> wfp (\<lambda>t s. kbo_ok cfg L s \<and> kbo_ok cfg L t \<and> thvm_kbo_naive cfg s t = KBO_GT)"
proof -
  have flip: "thvm_kbo_naive cfg s t = KBO_LT \<longleftrightarrow> thvm_kbo_naive cfg t s = KBO_GT"
    unfolding thvm_kbo_naive_def using kbo_rec_flip [of cfg t s] by (cases "kbo_rec cfg s t") auto
  note gt = kbo_gt_def thvm_kbo_naive_def
  show ?thesis
  proof (intro conjI impI)
    show "thvm_kbo_naive cfg s s = KBO_EQ" by (simp add: thvm_kbo_naive_def)
    show "thvm_kbo_naive cfg s t = KBO_LT \<longleftrightarrow> thvm_kbo_naive cfg t s = KBO_GT" by (rule flip)
  next
    assume "kbo_ok cfg L s \<and> kbo_ok cfg L t \<and> kbo_ok cfg L u \<and> thvm_kbo_naive cfg s t = KBO_GT
        \<and> thvm_kbo_naive cfg t u = KBO_GT"
    then show "thvm_kbo_naive cfg s u = KBO_GT" using kbo_gt_trans [of cfg s t u L] unfolding gt by blast
  next
    assume "kbo_ok cfg L s \<and> kbo_ok cfg L t \<and> (\<forall>x. kbo_ok cfg L (\<sigma> x)) \<and> thvm_kbo_naive cfg s t = KBO_GT"
    then show "thvm_kbo_naive cfg (tsubst \<sigma> s) (tsubst \<sigma> t) = KBO_GT"
      using kbo.gt_stable [of cfg s t L \<sigma>] unfolding gt by blast
  next
    assume "thvm_kbo_naive cfg s t = KBO_GT"
    then show "thvm_kbo_naive cfg (CTR f (us @ s # vs)) (CTR f (us @ t # vs)) = KBO_GT"
      using kbo_gt_context [of cfg s t f us vs] unfolding gt by blast
  next
    show "wfp (\<lambda>t s. kbo_ok cfg L s \<and> kbo_ok cfg L t \<and> thvm_kbo_naive cfg s t = KBO_GT)"
      using kbo.gt_wf [of cfg L] unfolding gt .
  qed
qed

theorem kbo_reduction_order_witness:
  "thvm_kbo_naive kbo_cfg3 (CTR 1 [CTR 2 [FVR 0]]) (CTR 1 [CTR 1 [FVR 0]]) = KBO_GT"
proof -
  have "thvm_kbo_naive kbo_cfg3 (CTR 2 [FVR 0]) (CTR 1 [FVR 0]) = KBO_GT" by code_simp
  then show ?thesis
    using kbo_reduction_order [where cfg = kbo_cfg3 and s = "CTR 2 [FVR 0]" and t = "CTR 1 [FVR 0]"
        and f = 1 and us = "[]" and vs = "[]" and L = "{0, 1, 2}" and u = "FVR 0" and \<sigma> = FVR]
    by simp
qed

text \<open>Normalisation with rules oriented by the Knuth-Bendix ordering ends. Given an admissible
  configuration and rules whose left sides the comparator puts above their right sides, there is
  a step cap from which on thvm_rewrite_normalize returns a term no rule rewrites.\<close>
theorem kbo_normalize_terminates:
  assumes "rules_ok rules" and "kbo.oriented cfg L (set rules)" and "kbo_ok cfg L t"
  shows "\<exists>n. \<forall>cap \<ge> n. thvm_rewrite_step rules (thvm_rewrite_normalize rules cap t)
      = thvm_rewrite_normalize rules cap t"
  by (rule kbo.normalize_terminates [OF assms])

theorem kbo_normalize_terminates_witness:
  "\<exists>n. \<forall>cap \<ge> n. thvm_rewrite_step [(CTR 2 [FVR 0], CTR 1 [FVR 0])]
      (thvm_rewrite_normalize [(CTR 2 [FVR 0], CTR 1 [FVR 0])] cap (CTR 2 [CTR 2 [CTR 0 []]]))
    = thvm_rewrite_normalize [(CTR 2 [FVR 0], CTR 1 [FVR 0])] cap (CTR 2 [CTR 2 [CTR 0 []]])"
proof (rule kbo_normalize_terminates)
  show "rules_ok [(CTR 2 [FVR 0], CTR 1 [FVR 0])]"
    by (simp add: REWRITE_MAX_VAR_def REWRITE_MAX_ARITY_def)
  have "thvm_kbo_naive kbo_cfg3 (CTR 2 [FVR 0]) (CTR 1 [FVR 0]) = KBO_GT" by code_simp
  then show "kbo.oriented kbo_cfg3 {0, 1, 2} (set [(CTR 2 [FVR 0], CTR 1 [FVR 0])])"
    by (simp add: kbo.oriented_def kbo_gt_def thvm_kbo_naive_def kbo_cfg3_ok REWRITE_MAX_VAR_def)
  show "kbo_ok kbo_cfg3 {0, 1, 2} (CTR 2 [CTR 2 [CTR 0 []]])" by (simp add: kbo_cfg3_ok)
qed

end
