(* ===== verification/RPO.thy ===== *)
theory RPO
  imports Arg_Compare KBO_Order
begin

text \<open>
  The recursive path ordering (src/rpo/_.c): precedence and a status per symbol, lexicographic
  or multiset. The memo table, emptied at every call of thvm_rpo, is a cache and is modelled by
  the values it holds. The verdict is shown to be exact: each of GT, EQ and LT is returned
  exactly where the ordering of theory Path_Order says so.
\<close>

type_synonym rpo_cmp = kbo_cmp
abbreviation RPO_EQ :: rpo_cmp where "RPO_EQ \<equiv> KBO_EQ"
abbreviation RPO_GT :: rpo_cmp where "RPO_GT \<equiv> KBO_GT"
abbreviation RPO_LT :: rpo_cmp where "RPO_LT \<equiv> KBO_LT"
abbreviation RPO_UN :: rpo_cmp where "RPO_UN \<equiv> KBO_UN"

datatype rpo_status = RPO_STATUS_LEX | RPO_STATUS_MUL

text \<open>The status table may be absent (NULL): all labels are lexicographic then.\<close>

record rpo_config =
  rc_precedence :: "nat list"
  rc_status :: "rpo_status list option"
  rc_n_labels :: nat

definition rpo_prec :: "rpo_config \<Rightarrow> ext \<Rightarrow> nat" where
  "rpo_prec cfg lab = (if unat lab < rc_n_labels cfg then rc_precedence cfg ! unat lab else 0)"

definition rpo_status_is_mul :: "rpo_config \<Rightarrow> ext \<Rightarrow> bool" where
  "rpo_status_is_mul cfg lab =
     (case rc_status cfg of
        None \<Rightarrow> False
      | Some st \<Rightarrow> if unat lab \<ge> rc_n_labels cfg then False else st ! unat lab = RPO_STATUS_MUL)"

definition rpo_eq :: "trm \<Rightarrow> trm \<Rightarrow> bool" where "rpo_eq s t = kbo_eq s t"
definition rpo_var_occurs_in :: "trm \<Rightarrow> ext \<Rightarrow> bool" where "rpo_var_occurs_in t x = lpo_var_occurs_in t x"

definition rpo_lex :: "(trm \<Rightarrow> trm \<Rightarrow> rpo_cmp) \<Rightarrow> trm list \<Rightarrow> trm list \<Rightarrow> rpo_cmp" where
  "rpo_lex cmp ss ts = arg_lex cmp ss ts"

definition rpo_multi :: "(trm \<Rightarrow> trm \<Rightarrow> rpo_cmp) \<Rightarrow> trm list \<Rightarrow> trm list \<Rightarrow> rpo_cmp" where
  "rpo_multi cmp ss ts = arg_multi cmp ss ts"

definition rpo_dominates_all_args :: "(trm \<Rightarrow> trm \<Rightarrow> rpo_cmp) \<Rightarrow> trm \<Rightarrow> trm list \<Rightarrow> bool" where
  "rpo_dominates_all_args cmp s ts \<longleftrightarrow> list_all (\<lambda>t. cmp s t = RPO_GT) ts"

definition rpo_some_arg_dominates :: "(trm \<Rightarrow> trm \<Rightarrow> rpo_cmp) \<Rightarrow> trm list \<Rightarrow> trm \<Rightarrow> bool" where
  "rpo_some_arg_dominates cmp ss t \<longleftrightarrow> list_ex (\<lambda>s. cmp s t = RPO_EQ \<or> cmp s t = RPO_GT) ss"

lemma rpo_lex_cong [fundef_cong]:
  "ss = ss' \<Longrightarrow> ts = ts' \<Longrightarrow> (\<And>s t. s \<in> set ss' \<Longrightarrow> t \<in> set ts' \<Longrightarrow> cmp s t = cmp' s t)
   \<Longrightarrow> rpo_lex cmp ss ts = rpo_lex cmp' ss' ts'"
  unfolding rpo_lex_def by (rule arg_lex_cong)

lemma rpo_multi_cong [fundef_cong]:
  "ss = ss' \<Longrightarrow> ts = ts' \<Longrightarrow> (\<And>s t. s \<in> set ss' \<Longrightarrow> t \<in> set ts' \<Longrightarrow> cmp s t = cmp' s t)
   \<Longrightarrow> (\<And>s t. s \<in> set ss' \<Longrightarrow> t \<in> set ts' \<Longrightarrow> cmp t s = cmp' t s)
   \<Longrightarrow> rpo_multi cmp ss ts = rpo_multi cmp' ss' ts'"
  unfolding rpo_multi_def by (rule arg_multi_cong)

lemma rpo_dominates_all_args_cong [fundef_cong]:
  "s = s' \<Longrightarrow> ts = ts' \<Longrightarrow> (\<And>t. t \<in> set ts' \<Longrightarrow> cmp s' t = cmp' s' t)
   \<Longrightarrow> rpo_dominates_all_args cmp s ts = rpo_dominates_all_args cmp' s' ts'"
  by (auto simp: rpo_dominates_all_args_def list_all_iff)

lemma rpo_some_arg_dominates_cong [fundef_cong]:
  "ss = ss' \<Longrightarrow> t = t' \<Longrightarrow> (\<And>s. s \<in> set ss' \<Longrightarrow> cmp s t' = cmp' s t')
   \<Longrightarrow> rpo_some_arg_dominates cmp ss t = rpo_some_arg_dominates cmp' ss' t'"
  by (auto simp: rpo_some_arg_dominates_def list_ex_iff)

lemma tsize_children:
  "s \<in> set ss \<Longrightarrow> t \<in> set ts \<Longrightarrow> tsize s + tsize t < tsize (CTR f ss) + tsize (CTR g ts)"
  "s \<in> set ss \<Longrightarrow> t \<in> set ts \<Longrightarrow> tsize t + tsize s < tsize (CTR f ss) + tsize (CTR g ts)"
  using tsize_child by (metis add_strict_mono add.commute)+

text \<open>The recursion, on two constructor terms with the comparison of arguments as a parameter.\<close>

function (sequential) rpo_rec :: "rpo_config \<Rightarrow> trm \<Rightarrow> trm \<Rightarrow> rpo_cmp" where
  "rpo_rec cfg s t =
     (if rpo_eq s t then RPO_EQ
      else case (s, t) of
        (FVR x, FVR y) \<Rightarrow> RPO_UN
      | (FVR x, _) \<Rightarrow> if rpo_var_occurs_in t x then RPO_LT else RPO_UN
      | (_, FVR y) \<Rightarrow> if rpo_var_occurs_in s y then RPO_GT else RPO_UN
      | (CTR f ss, CTR g ts) \<Rightarrow>
          if rpo_some_arg_dominates (rpo_rec cfg) ss t then RPO_GT
          else if rpo_some_arg_dominates (rpo_rec cfg) ts s then RPO_LT
          else if rpo_prec cfg f > rpo_prec cfg g
          then (if rpo_dominates_all_args (rpo_rec cfg) s ts then RPO_GT else RPO_UN)
          else if rpo_prec cfg f < rpo_prec cfg g
          then (if rpo_dominates_all_args (rpo_rec cfg) t ss then RPO_LT else RPO_UN)
          else if length ss \<noteq> length ts then RPO_UN
          else if rpo_status_is_mul cfg f then rpo_multi (rpo_rec cfg) ss ts
          else (case rpo_lex (rpo_rec cfg) ss ts of
                  RPO_EQ \<Rightarrow> RPO_EQ
                | RPO_GT \<Rightarrow> if rpo_dominates_all_args (rpo_rec cfg) s ts then RPO_GT else RPO_UN
                | RPO_LT \<Rightarrow> if rpo_dominates_all_args (rpo_rec cfg) t ss then RPO_LT else RPO_UN
                | RPO_UN \<Rightarrow> RPO_UN)
      | _ \<Rightarrow> RPO_UN)"
  by pat_completeness auto
termination
  by (relation "measure (\<lambda>(cfg, s, t). tsize s + tsize t)")
    (auto dest: tsize_child intro: tsize_children simp del: tsize.simps)

declare rpo_rec.simps [simp del]

definition thvm_rpo :: "rpo_config \<Rightarrow> trm \<Rightarrow> trm \<Rightarrow> rpo_cmp" where
  "thvm_rpo cfg s t = rpo_rec cfg s t"

section \<open>The verdict\<close>

definition rpo_gt :: "rpo_config \<Rightarrow> trm \<Rightarrow> trm \<Rightarrow> bool" where
  "rpo_gt cfg = path_gt (rpo_status_is_mul cfg) (rpo_prec cfg)"

definition rpo_same :: "rpo_config \<Rightarrow> trm \<Rightarrow> trm \<Rightarrow> bool" where
  "rpo_same cfg = path_eq (rpo_status_is_mul cfg)"

text \<open>Admissible terms; symbols with multiset status fit the arrays of rpo_multi.\<close>

definition rpo_ok :: "rpo_config \<Rightarrow> (ext \<Rightarrow> nat) \<Rightarrow> ext set \<Rightarrow> trm \<Rightarrow> bool" where
  "rpo_ok cfg ar L t \<longleftrightarrow> path_ok (rpo_prec cfg) ar L t \<and> (\<forall>f \<in> L. rpo_status_is_mul cfg f \<longrightarrow> ar f \<le> MAX_KIDS)"

lemma rpo_ok_path: "rpo_ok cfg ar L t \<Longrightarrow> path_ok (rpo_prec cfg) ar L t"
  by (simp add: rpo_ok_def)

lemma rpo_ok_CTR: "rpo_ok cfg ar L (CTR f ts) \<Longrightarrow> t \<in> set ts \<Longrightarrow> rpo_ok cfg ar L t"
  by (auto simp: rpo_ok_def path_ok_CTR)

text \<open>The exact verdict: also LT is returned only where the other term is greater.\<close>

definition rpo_exact :: "rpo_config \<Rightarrow> trm \<Rightarrow> trm \<Rightarrow> rpo_cmp \<Rightarrow> bool" where
  "rpo_exact cfg s t v \<longleftrightarrow> (v = RPO_GT \<longleftrightarrow> rpo_gt cfg s t) \<and> (v = RPO_EQ \<longleftrightarrow> rpo_same cfg s t)
     \<and> (v = RPO_LT \<longleftrightarrow> rpo_gt cfg t s)"

lemma rpo_same_sym: "rpo_same cfg s t \<longleftrightarrow> rpo_same cfg t s"
  by (auto simp: rpo_same_def path_eq_def)

lemma rpo_exactI:
  assumes "v = RPO_GT \<Longrightarrow> rpo_gt cfg s t" and "v = RPO_EQ \<Longrightarrow> rpo_same cfg s t" and "v = RPO_LT \<Longrightarrow> rpo_gt cfg t s"
    and "v = RPO_UN \<Longrightarrow> \<not> rpo_gt cfg s t \<and> \<not> rpo_same cfg s t \<and> \<not> rpo_gt cfg t s"
  shows "rpo_exact cfg s t v"
proof -
  have "rpo_gt cfg s t \<Longrightarrow> \<not> rpo_gt cfg t s" "rpo_gt cfg s t \<Longrightarrow> \<not> rpo_same cfg s t"
      "rpo_gt cfg t s \<Longrightarrow> \<not> rpo_same cfg t s"
    unfolding rpo_gt_def rpo_same_def using path_gt_asym path_gt_not_eq by blast+
  then show ?thesis using assms rpo_same_sym [of cfg s t] by (cases v) (auto simp: rpo_exact_def)
qed

lemma rpo_rec_CTR:
  "CTR f ss \<noteq> CTR g ts \<Longrightarrow> rpo_rec cfg (CTR f ss) (CTR g ts) =
     (if rpo_some_arg_dominates (rpo_rec cfg) ss (CTR g ts) then RPO_GT
      else if rpo_some_arg_dominates (rpo_rec cfg) ts (CTR f ss) then RPO_LT
      else if rpo_prec cfg f > rpo_prec cfg g
      then (if rpo_dominates_all_args (rpo_rec cfg) (CTR f ss) ts then RPO_GT else RPO_UN)
      else if rpo_prec cfg f < rpo_prec cfg g
      then (if rpo_dominates_all_args (rpo_rec cfg) (CTR g ts) ss then RPO_LT else RPO_UN)
      else if length ss \<noteq> length ts then RPO_UN
      else if rpo_status_is_mul cfg f then rpo_multi (rpo_rec cfg) ss ts
      else (case rpo_lex (rpo_rec cfg) ss ts of
              RPO_EQ \<Rightarrow> RPO_EQ
            | RPO_GT \<Rightarrow> if rpo_dominates_all_args (rpo_rec cfg) (CTR f ss) ts then RPO_GT else RPO_UN
            | RPO_LT \<Rightarrow> if rpo_dominates_all_args (rpo_rec cfg) (CTR g ts) ss then RPO_LT else RPO_UN
            | RPO_UN \<Rightarrow> RPO_UN))"
  by (subst rpo_rec.simps) (simp add: rpo_eq_def del: trm.inject)

text \<open>The argument comparisons over exact verdicts.\<close>

abbreviation rpo_abs :: "rpo_config \<Rightarrow> trm \<Rightarrow> aterm" where "rpo_abs cfg \<equiv> aabs (rpo_status_is_mul cfg)"

lemma arg_lex_exact:
  assumes "length ss = length ts" and "\<And>s t. s \<in> set ss \<Longrightarrow> t \<in> set ts \<Longrightarrow> rpo_exact cfg s t (cmp s t)"
  shows "(arg_lex cmp ss ts = RPO_GT \<longleftrightarrow> lex_ext (pgt (rpo_prec cfg)) (map (rpo_abs cfg) ss) (map (rpo_abs cfg) ts))
    \<and> (arg_lex cmp ss ts = RPO_EQ \<longleftrightarrow> map (rpo_abs cfg) ss = map (rpo_abs cfg) ts)
    \<and> (arg_lex cmp ss ts = RPO_LT \<longleftrightarrow> lex_ext (pgt (rpo_prec cfg)) (map (rpo_abs cfg) ts) (map (rpo_abs cfg) ss))"
  using assms
proof (induction ss ts rule: list_induct2)
  case (Cons s ss t ts)
  have "rpo_exact cfg s t (cmp s t)" using Cons.prems by simp
  moreover have "pgt (rpo_prec cfg) (rpo_abs cfg s) (rpo_abs cfg t) \<Longrightarrow> rpo_abs cfg s \<noteq> rpo_abs cfg t" for s t
    using pgt_irrefl by metis
  ultimately show ?case
    using Cons by (auto simp: rpo_exact_def rpo_gt_def rpo_same_def path_gt_def path_eq_def Let_def)
qed simp

lemma all_dominated_exact:
  assumes "\<And>s t. s \<in> set ss \<Longrightarrow> t \<in> set ts \<Longrightarrow> cmp s t = RPO_GT \<longleftrightarrow> rpo_gt cfg s t"
  shows "all_dominated cmp ss ts \<longleftrightarrow>
    (\<forall>y \<in># image_mset (rpo_abs cfg) (mset ts). \<exists>x \<in># image_mset (rpo_abs cfg) (mset ss). pgt (rpo_prec cfg) x y)"
  using assms by (auto simp: all_dominated_def list_all_iff list_ex_iff rpo_gt_def path_gt_def)

lemma arg_multi_exact:
  assumes len: "length ss \<le> MAX_KIDS" "length ts \<le> MAX_KIDS" "length ss = length ts"
    and ex: "\<And>s t. s \<in> set ss \<Longrightarrow> t \<in> set ts \<Longrightarrow> rpo_exact cfg s t (cmp s t)"
      "\<And>s t. s \<in> set ss \<Longrightarrow> t \<in> set ts \<Longrightarrow> rpo_exact cfg t s (cmp t s)"
  defines "M \<equiv> image_mset (rpo_abs cfg) (mset ss)" and "N \<equiv> image_mset (rpo_abs cfg) (mset ts)"
  shows "(arg_multi cmp ss ts = RPO_GT \<longleftrightarrow> mul_ext (pgt (rpo_prec cfg)) M N)
    \<and> (arg_multi cmp ss ts = RPO_EQ \<longleftrightarrow> M = N)
    \<and> (arg_multi cmp ss ts = RPO_LT \<longleftrightarrow> mul_ext (pgt (rpo_prec cfg)) N M)"
proof -
  obtain us vs where c: "cancel_equal cmp ss ts = (us, vs)" by force
  then have sub: "set us \<subseteq> set ss" "set vs \<subseteq> set ts" using cancel_equal_subset by blast+
  have "cmp s t = RPO_EQ \<longleftrightarrow> rpo_abs cfg s = rpo_abs cfg t" if "s \<in> set ss" "t \<in> set ts" for s t
    using ex(1) that by (simp add: rpo_exact_def rpo_same_def path_eq_def)
  then have d: "image_mset (rpo_abs cfg) (mset us) = M - N" "image_mset (rpo_abs cfg) (mset vs) = N - M"
    using cancel_equal_mset [OF _ c] unfolding M_def N_def by blast+
  have e: "us = [] \<longleftrightarrow> M - N = {#}" "vs = [] \<longleftrightarrow> N - M = {#}"
    using d by (metis image_mset_is_empty_iff mset_zero_iff)+
  have size: "size M = size N" unfolding M_def N_def using len(3) by simp
  have MN: "M - N = {#} \<longleftrightarrow> M = N" "N - M = {#} \<longleftrightarrow> M = N"
    using size by (auto simp: Diff_eq_empty_iff_mset subset_mset.le_less dest: mset_subset_size)
  have dom: "all_dominated cmp us vs \<longleftrightarrow> (\<forall>y \<in># N - M. \<exists>x \<in># M - N. pgt (rpo_prec cfg) x y)"
      "all_dominated cmp vs us \<longleftrightarrow> (\<forall>y \<in># M - N. \<exists>x \<in># N - M. pgt (rpo_prec cfg) x y)"
    unfolding d [symmetric]
    using ex sub by (intro all_dominated_exact; fastforce simp: rpo_exact_def)+
  have asym: "\<not> (mul_ext (pgt (rpo_prec cfg)) M N \<and> mul_ext (pgt (rpo_prec cfg)) N M)"
    using mul_ext_trans [where P = "pgt (rpo_prec cfg)" and M = M and N = N and K = M and A = UNIV]
      pgt_trans pgt_irrefl mul_ext_irrefl by blast
  show ?thesis
    using len c e MN dom asym by (auto simp: arg_multi_def mul_ext_def)
qed

text \<open>The decision on two nodes, once the subterm tests have failed.\<close>

lemma rpo_root_exact:
  assumes ok: "rpo_ok cfg ar L (CTR f ss)" "rpo_ok cfg ar L (CTR g ts)"
    and no: "\<not> (\<exists>u \<in> set ss. rpo_same cfg u (CTR g ts) \<or> rpo_gt cfg u (CTR g ts))"
      "\<not> (\<exists>u \<in> set ts. rpo_same cfg u (CTR f ss) \<or> rpo_gt cfg u (CTR f ss))"
    and all: "r \<longleftrightarrow> (\<forall>t \<in> set ts. rpo_gt cfg (CTR f ss) t)" "q \<longleftrightarrow> (\<forall>s \<in> set ss. rpo_gt cfg (CTR g ts) s)"
    and ex: "\<And>s t. s \<in> set ss \<Longrightarrow> t \<in> set ts \<Longrightarrow> rpo_exact cfg s t (cmp s t)"
      "\<And>s t. s \<in> set ss \<Longrightarrow> t \<in> set ts \<Longrightarrow> rpo_exact cfg t s (cmp t s)"
  shows "rpo_exact cfg (CTR f ss) (CTR g ts)
     (if rpo_prec cfg f > rpo_prec cfg g then (if r then RPO_GT else RPO_UN)
      else if rpo_prec cfg f < rpo_prec cfg g then (if q then RPO_LT else RPO_UN)
      else if length ss \<noteq> length ts then RPO_UN
      else if rpo_status_is_mul cfg f then rpo_multi cmp ss ts
      else (case rpo_lex cmp ss ts of
              RPO_EQ \<Rightarrow> RPO_EQ
            | RPO_GT \<Rightarrow> if r then RPO_GT else RPO_UN
            | RPO_LT \<Rightarrow> if q then RPO_LT else RPO_UN
            | RPO_UN \<Rightarrow> RPO_UN))" (is "rpo_exact cfg ?s ?t ?v")
proof -
  note defs = rpo_gt_def rpo_same_def
  consider (high) "rpo_prec cfg f > rpo_prec cfg g" | (low) "rpo_prec cfg f < rpo_prec cfg g"
    | (same) "rpo_prec cfg f = rpo_prec cfg g" "g = f" "length ss = length ts"
    using path_ok_same_label [OF rpo_ok_path [OF ok(1)] rpo_ok_path [OF ok(2)]] by (metis linorder_neqE_nat)
  then show ?thesis
  proof cases
    case high
    then have "rpo_gt cfg ?s ?t \<longleftrightarrow> r" "\<not> rpo_gt cfg ?t ?s" "\<not> rpo_same cfg ?s ?t"
      using path_gt_higher [OF high] path_gt_lower [OF high] no all unfolding defs path_eq_def by auto
    then show ?thesis using high by (simp add: rpo_exact_def)
  next
    case low
    then have "rpo_gt cfg ?t ?s \<longleftrightarrow> q" "\<not> rpo_gt cfg ?s ?t" "\<not> rpo_same cfg ?s ?t"
      using path_gt_higher [OF low] path_gt_lower [OF low] no all unfolding defs path_eq_def by auto
    then show ?thesis using low by (simp add: rpo_exact_def)
  next
    case same
    show ?thesis
    proof (cases "rpo_status_is_mul cfg f")
      case True
      then have "length ss \<le> MAX_KIDS" using ok(1) by (auto simp: rpo_ok_def path_ok_CTR)
      then have "rpo_exact cfg ?s ?t (rpo_multi cmp ss ts)"
        using arg_multi_exact [of ss ts cfg cmp, OF _ _ same(3) ex] same no
          path_gt_same_mul [of "rpo_status_is_mul cfg" f "rpo_prec cfg", OF True]
        by (simp add: rpo_exact_def defs rpo_multi_def path_eq_def True)
      then show ?thesis using same True by simp
    next
      case False
      have "lex_ext (pgt (rpo_prec cfg)) (map (rpo_abs cfg) us) (map (rpo_abs cfg) vs)
          \<Longrightarrow> map (rpo_abs cfg) us \<noteq> map (rpo_abs cfg) vs" for us vs
        by (rule notI) (simp add: lex_ext_irrefl)
      then have "rpo_exact cfg ?s ?t (case rpo_lex cmp ss ts of
              RPO_EQ \<Rightarrow> RPO_EQ
            | RPO_GT \<Rightarrow> if r then RPO_GT else RPO_UN
            | RPO_LT \<Rightarrow> if q then RPO_LT else RPO_UN
            | RPO_UN \<Rightarrow> RPO_UN)"
        using arg_lex_exact [of ss ts cfg cmp, OF same(3) ex(1)] same no all False
          path_gt_same_lex [of "rpo_status_is_mul cfg" f ss ts "rpo_prec cfg", OF False same(3)]
          path_gt_same_lex [of "rpo_status_is_mul cfg" f ts ss "rpo_prec cfg", OF False same(3) [symmetric]]
        by (cases "rpo_lex cmp ss ts") (auto simp: rpo_exact_def defs rpo_lex_def path_eq_def)
      then show ?thesis using same False by simp
    qed
  qed
qed

lemma rpo_occurs: "rpo_var_occurs_in t x \<longleftrightarrow> x \<in> tvars t"
  unfolding rpo_var_occurs_in_def by (induction t) (auto simp: list_ex_iff)

lemma rpo_rec_exact: "rpo_ok cfg ar L s \<Longrightarrow> rpo_ok cfg ar L t \<Longrightarrow> rpo_exact cfg s t (rpo_rec cfg s t)"
proof (induction "tsize s + tsize t" arbitrary: s t rule: less_induct)
  case less
  have na: "no_atm s" "no_atm t" using less.prems rpo_ok_path path_ok_no_atm by blast+
  have self: "rpo_exact cfg s s RPO_EQ"
    by (rule rpo_exactI) (simp_all add: rpo_same_def)
  show ?case
  proof (cases "s = t \<or> \<not> (\<exists>f ss g ts. s = CTR f ss \<and> t = CTR g ts)")
    case True
    then show ?thesis
      using na self path_gt_to_FVR [of s "rpo_status_is_mul cfg" "rpo_prec cfg"]
        path_gt_to_FVR [of t "rpo_status_is_mul cfg" "rpo_prec cfg"]
      by (cases s; cases t)
        (auto simp: rpo_rec.simps rpo_eq_def rpo_occurs rpo_exact_def rpo_gt_def rpo_same_def path_eq_def)
  next
    case False
    then obtain f ss g ts where st: "s = CTR f ss" "t = CTR g ts" and ne: "s \<noteq> t" by blast
    have v: "rpo_exact cfg u w (rpo_rec cfg u w)"
      if "tsize u + tsize w < tsize s + tsize t" "rpo_ok cfg ar L u" "rpo_ok cfg ar L w" for u w
      using less.hyps that by blast
    have sz: "u \<in> set ss \<Longrightarrow> tsize u < tsize s" "u \<in> set ts \<Longrightarrow> tsize u < tsize t" for u
      using tsize_child unfolding st by blast+
    have oks: "u \<in> set ss \<union> set ts \<Longrightarrow> rpo_ok cfg ar L u" for u
      using less.prems rpo_ok_CTR unfolding st by blast
    have ex: "rpo_exact cfg u w (rpo_rec cfg u w)" "rpo_exact cfg w u (rpo_rec cfg w u)"
      if "u \<in> insert s (set ss)" "w \<in> insert t (set ts)" "u \<noteq> s \<or> w \<noteq> t" for u w
    proof -
      have "tsize u \<le> tsize s" "tsize w \<le> tsize t" "tsize u < tsize s \<or> tsize w < tsize t"
        using that sz by (auto intro: less_imp_le)
      then have "tsize u + tsize w < tsize s + tsize t" "tsize w + tsize u < tsize s + tsize t" by linarith+
      moreover have "rpo_ok cfg ar L u" "rpo_ok cfg ar L w" using that oks less.prems by auto
      ultimately show "rpo_exact cfg u w (rpo_rec cfg u w)" "rpo_exact cfg w u (rpo_rec cfg w u)" using v by blast+
    qed
    have ns: "u \<in> set ss \<Longrightarrow> u \<noteq> s" "u \<in> set ts \<Longrightarrow> u \<noteq> t" for u using sz by blast+
    have some1: "rpo_some_arg_dominates (rpo_rec cfg) ss t \<longleftrightarrow> (\<exists>u \<in> set ss. rpo_same cfg u t \<or> rpo_gt cfg u t)"
      using ex(1) [of _ t] ns by (fastforce simp: rpo_some_arg_dominates_def list_ex_iff rpo_exact_def)
    have some2: "rpo_some_arg_dominates (rpo_rec cfg) ts s \<longleftrightarrow> (\<exists>u \<in> set ts. rpo_same cfg u s \<or> rpo_gt cfg u s)"
      using ex(2) [of s] ns by (fastforce simp: rpo_some_arg_dominates_def list_ex_iff rpo_exact_def)
    have all1: "rpo_dominates_all_args (rpo_rec cfg) s ts \<longleftrightarrow> (\<forall>u \<in> set ts. rpo_gt cfg s u)"
      using ex(1) [of s] ns by (fastforce simp: rpo_dominates_all_args_def list_all_iff rpo_exact_def)
    have all2: "rpo_dominates_all_args (rpo_rec cfg) t ss \<longleftrightarrow> (\<forall>u \<in> set ss. rpo_gt cfg t u)"
      using ex(2) [of _ t] ns by (fastforce simp: rpo_dominates_all_args_def list_all_iff rpo_exact_def)
    note rec = rpo_rec_CTR [OF ne [unfolded st], of cfg, folded st]
    consider "rpo_some_arg_dominates (rpo_rec cfg) ss t"
      | "\<not> rpo_some_arg_dominates (rpo_rec cfg) ss t" "rpo_some_arg_dominates (rpo_rec cfg) ts s"
      | "\<not> rpo_some_arg_dominates (rpo_rec cfg) ss t" "\<not> rpo_some_arg_dominates (rpo_rec cfg) ts s" by blast
    then show ?thesis
    proof cases
      case 1
      then have "rpo_gt cfg s t" using some1 path_gt_arg unfolding st rpo_gt_def rpo_same_def by blast
      then show ?thesis using rec 1 by (intro rpo_exactI) auto
    next
      case 2
      then have "rpo_gt cfg t s" using some2 path_gt_arg unfolding st rpo_gt_def rpo_same_def by blast
      then show ?thesis using rec 2 by (intro rpo_exactI) auto
    next
      case 3
      have "rpo_exact cfg s t (if rpo_prec cfg f > rpo_prec cfg g
          then (if rpo_dominates_all_args (rpo_rec cfg) s ts then RPO_GT else RPO_UN)
          else if rpo_prec cfg f < rpo_prec cfg g
          then (if rpo_dominates_all_args (rpo_rec cfg) t ss then RPO_LT else RPO_UN)
          else if length ss \<noteq> length ts then RPO_UN
          else if rpo_status_is_mul cfg f then rpo_multi (rpo_rec cfg) ss ts
          else (case rpo_lex (rpo_rec cfg) ss ts of
              RPO_EQ \<Rightarrow> RPO_EQ
            | RPO_GT \<Rightarrow> if rpo_dominates_all_args (rpo_rec cfg) s ts then RPO_GT else RPO_UN
            | RPO_LT \<Rightarrow> if rpo_dominates_all_args (rpo_rec cfg) t ss then RPO_LT else RPO_UN
            | RPO_UN \<Rightarrow> RPO_UN))"
        using less.prems 3 some1 some2 all1 all2 ex ns unfolding st
        by (intro rpo_root_exact) (auto simp del: trm.inject)
      then show ?thesis using rec 3 by simp
    qed
  qed
qed

section \<open>Properties\<close>

text \<open>C20: the value of thvm_rpo. On admissible terms whose multiset-status symbols have at most
  16 arguments, the verdict is exact: GT and LT are returned exactly where one term is greater in
  the recursive path ordering of the configured precedence and statuses, EQ exactly on terms that
  are equal up to permutations of the arguments of multiset symbols, and therefore UN exactly on
  the rest; the verdict of the swapped call is the mirrored one.\<close>
theorem thvm_rpo_correct:
  assumes "rpo_ok cfg ar L s" and "rpo_ok cfg ar L t"
  shows "(thvm_rpo cfg s t = RPO_GT \<longleftrightarrow> rpo_gt cfg s t) \<and> (thvm_rpo cfg s t = RPO_EQ \<longleftrightarrow> rpo_same cfg s t)
    \<and> (thvm_rpo cfg s t = RPO_LT \<longleftrightarrow> rpo_gt cfg t s) \<and> thvm_rpo cfg t s = kbo_flip (thvm_rpo cfg s t)"
proof -
  have "rpo_exact cfg s t (thvm_rpo cfg s t)" "rpo_exact cfg t s (thvm_rpo cfg t s)"
    unfolding thvm_rpo_def using rpo_rec_exact assms by blast+
  then show ?thesis
    using rpo_same_sym [of cfg s t]
    by (cases "thvm_rpo cfg s t"; cases "thvm_rpo cfg t s") (auto simp: rpo_exact_def)
qed

text \<open>Labels 0 < 1 < 2 of arities 0, 1 and 2, the last with multiset status.\<close>

definition rpo_cfg3 :: rpo_config where
  "rpo_cfg3 = \<lparr>rc_precedence = [1, 2, 3], rc_status = Some [RPO_STATUS_LEX, RPO_STATUS_LEX, RPO_STATUS_MUL], rc_n_labels = 3\<rparr>"

lemma rpo_cfg3_ok: "rpo_ok rpo_cfg3 unat {0, 1, 2} t \<longleftrightarrow> ar_cons unat t \<and> labs_in {0, 1, 2} t"
  by (simp add: rpo_ok_def path_ok_def rpo_prec_def rpo_cfg3_def inj_on_def MAX_KIDS_def)

theorem thvm_rpo_correct_witness:
  "rpo_gt rpo_cfg3 (CTR 2 [FVR 4, CTR 1 [FVR 3]]) (CTR 2 [FVR 3, FVR 4])"
proof -
  let ?s = "CTR 2 [FVR 4, CTR 1 [FVR 3]]" and ?t = "CTR 2 [FVR 3, FVR 4]"
  have ok: "rpo_ok rpo_cfg3 unat {0, 1, 2} ?s" "rpo_ok rpo_cfg3 unat {0, 1, 2} ?t"
    unfolding rpo_cfg3_ok by simp_all
  have "thvm_rpo rpo_cfg3 ?s ?t = RPO_GT" by code_simp
  then show ?thesis using thvm_rpo_correct [OF ok] by blast
qed

text \<open>Rewriting with rules oriented by thvm_rpo ends. When the comparator returns GT on every
  rule of an admissible system, there is a step cap from which on thvm_rewrite_normalize returns
  a term no rule rewrites.\<close>
theorem rpo_normalize_terminates:
  assumes "rules_ok rules" and "\<forall>(l, r) \<in> set rules. thvm_rpo cfg l r = RPO_GT"
    and "\<forall>(l, r) \<in> set rules. rpo_ok cfg ar L l \<and> rpo_ok cfg ar L r" and "rpo_ok cfg ar L t"
  shows "\<exists>n. \<forall>cap \<ge> n. thvm_rewrite_step rules (thvm_rewrite_normalize rules cap t)
      = thvm_rewrite_normalize rules cap t"
proof (rule path.normalize_terminates [OF assms(1) _ rpo_ok_path [OF assms(4)]])
  show "path.oriented (rpo_status_is_mul cfg) (rpo_prec cfg) ar L (set rules)"
    unfolding path.oriented_def
  proof (rule ballI, clarify)
    fix l r
    assume "(l, r) \<in> set rules"
    then have "thvm_rpo cfg l r = RPO_GT" "rpo_ok cfg ar L l" "rpo_ok cfg ar L r" using assms(2,3) by auto
    moreover from this have "path_gt (rpo_status_is_mul cfg) (rpo_prec cfg) l r"
      using rpo_rec_exact [of cfg ar L l r] by (simp add: rpo_exact_def thvm_rpo_def rpo_gt_def)
    ultimately show "path_gt (rpo_status_is_mul cfg) (rpo_prec cfg) l r \<and> path_ok (rpo_prec cfg) ar L l
        \<and> path_ok (rpo_prec cfg) ar L r \<and> tvars r \<subseteq> tvars l"
      using path_gt_vars rpo_ok_path path_ok_no_atm by blast
  qed
qed

theorem rpo_normalize_terminates_witness:
  "\<exists>n. \<forall>cap \<ge> n. thvm_rewrite_step [(CTR 2 [FVR 4, CTR 1 [FVR 3]], CTR 2 [FVR 3, FVR 4])]
      (thvm_rewrite_normalize [(CTR 2 [FVR 4, CTR 1 [FVR 3]], CTR 2 [FVR 3, FVR 4])] cap
        (CTR 2 [CTR 0 [], CTR 1 [CTR 0 []]]))
    = thvm_rewrite_normalize [(CTR 2 [FVR 4, CTR 1 [FVR 3]], CTR 2 [FVR 3, FVR 4])] cap
        (CTR 2 [CTR 0 [], CTR 1 [CTR 0 []]])"
proof (rule rpo_normalize_terminates [where cfg = rpo_cfg3 and ar = unat and L = "{0, 1, 2}"])
  show "rules_ok [(CTR 2 [FVR 4, CTR 1 [FVR 3]], CTR 2 [FVR 3, FVR 4])]" by code_simp
  show "\<forall>(l, r) \<in> set [(CTR 2 [FVR 4, CTR 1 [FVR 3]], CTR 2 [FVR 3, FVR 4])]. thvm_rpo rpo_cfg3 l r = RPO_GT"
    by code_simp
qed (simp_all add: rpo_cfg3_ok)

text \<open>EQ is not structural identity: it identifies permuted arguments of a multiset symbol.\<close>

lemma rpo_permuted_equal:
  "thvm_rpo rpo_cfg3 (CTR 2 [FVR 3, FVR 4]) (CTR 2 [FVR 4, FVR 3]) = RPO_EQ
   \<and> \<not> rpo_eq (CTR 2 [FVR 3, FVR 4]) (CTR 2 [FVR 4, FVR 3])"
  by code_simp

end
