(* ===== verification/WPO.thy ===== *)
theory WPO
  imports RPO
begin

text \<open>
  The weighted path ordering (src/wpo/_.c): weights first, then precedence and status, under
  the condition that no variable occurs more often on the smaller side. The memo table, emptied
  at every call, is a cache. The counters cover 64 variable ids; the comparison with a variable
  indexes them unchecked, so what lies beyond the array is the parameter oob of the model.
\<close>

type_synonym wpo_cmp = kbo_cmp
abbreviation WPO_EQ :: wpo_cmp where "WPO_EQ \<equiv> KBO_EQ"
abbreviation WPO_GT :: wpo_cmp where "WPO_GT \<equiv> KBO_GT"
abbreviation WPO_LT :: wpo_cmp where "WPO_LT \<equiv> KBO_LT"
abbreviation WPO_UN :: wpo_cmp where "WPO_UN \<equiv> KBO_UN"

definition WPO_MAX_VAR :: nat where "WPO_MAX_VAR = 64"

datatype wpo_status = WPO_STATUS_LEX | WPO_STATUS_MUL

record wpo_config =
  wc_weights :: "nat list"
  wc_precedence :: "nat list"
  wc_status :: "wpo_status list option"
  wc_n_labels :: nat
  wc_var_weight :: nat

definition wpo_prec :: "wpo_config \<Rightarrow> ext \<Rightarrow> nat" where
  "wpo_prec cfg lab = (if unat lab < wc_n_labels cfg then wc_precedence cfg ! unat lab else 0)"

definition wpo_status_is_mul :: "wpo_config \<Rightarrow> ext \<Rightarrow> bool" where
  "wpo_status_is_mul cfg lab =
     (case wc_status cfg of
        None \<Rightarrow> False
      | Some st \<Rightarrow> if unat lab \<ge> wc_n_labels cfg then False else st ! unat lab = WPO_STATUS_MUL)"

definition wpo_eq :: "trm \<Rightarrow> trm \<Rightarrow> bool" where "wpo_eq s t = kbo_eq s t"

section \<open>Variable counts and weight\<close>

record wpo_var_mult =
  vm_count :: "nat list"
  vm_spilled :: bool

definition no_vars :: wpo_var_mult where
  "no_vars = \<lparr>vm_count = replicate WPO_MAX_VAR 0, vm_spilled = False\<rparr>"

fun wpo_var_mult_acc :: "trm \<Rightarrow> wpo_var_mult \<Rightarrow> wpo_var_mult" where
  "wpo_var_mult_acc (FVR x) vm =
     (if unat x \<ge> WPO_MAX_VAR then vm\<lparr>vm_spilled := True\<rparr>
      else vm\<lparr>vm_count := (vm_count vm)[unat x := Suc (vm_count vm ! unat x)]\<rparr>)"
| "wpo_var_mult_acc (CTR l ts) vm = fold wpo_var_mult_acc ts vm"
| "wpo_var_mult_acc (ATM g e v) vm = vm"

definition wpo_vars_subset :: "wpo_var_mult \<Rightarrow> wpo_var_mult \<Rightarrow> bool" where
  "wpo_vars_subset vs vt =
     (if vm_spilled vs \<or> vm_spilled vt then False
      else list_all (\<lambda>i. \<not> vm_count vt ! i > vm_count vs ! i) [0..<WPO_MAX_VAR])"

definition thvm_kbo_term_weight :: "kbo_config \<Rightarrow> trm \<Rightarrow> int" where
  "thvm_kbo_term_weight cfg t =
     (case t of CTR l ts \<Rightarrow> fst (kbo_memo cfg t) | _ \<Rightarrow> int (kc_var_weight cfg))"

definition wpo_weight :: "wpo_config \<Rightarrow> trm \<Rightarrow> int" where
  "wpo_weight cfg t = thvm_kbo_term_weight
     \<lparr>kc_weights = wc_weights cfg, kc_precedence = wc_precedence cfg, kc_n_labels = wc_n_labels cfg,
      kc_var_weight = wc_var_weight cfg\<rparr> t"

text \<open>The unchecked read of a counter.\<close>

definition count_at :: "(nat \<Rightarrow> nat) \<Rightarrow> wpo_var_mult \<Rightarrow> ext \<Rightarrow> nat" where
  "count_at oob vm x = (if unat x < WPO_MAX_VAR then vm_count vm ! unat x else oob (unat x))"

section \<open>The comparison\<close>

definition wpo_lex :: "(trm \<Rightarrow> trm \<Rightarrow> wpo_cmp) \<Rightarrow> trm list \<Rightarrow> trm list \<Rightarrow> wpo_cmp" where
  "wpo_lex cmp ss ts = arg_lex cmp ss ts"

definition wpo_multi :: "(trm \<Rightarrow> trm \<Rightarrow> wpo_cmp) \<Rightarrow> trm list \<Rightarrow> trm list \<Rightarrow> wpo_cmp" where
  "wpo_multi cmp ss ts = arg_multi cmp ss ts"

definition wpo_dominates_all_args :: "(trm \<Rightarrow> trm \<Rightarrow> wpo_cmp) \<Rightarrow> trm \<Rightarrow> trm list \<Rightarrow> bool" where
  "wpo_dominates_all_args cmp s ts \<longleftrightarrow> list_all (\<lambda>t. cmp s t = WPO_GT) ts"

definition wpo_some_arg_dominates :: "(trm \<Rightarrow> trm \<Rightarrow> wpo_cmp) \<Rightarrow> trm list \<Rightarrow> trm \<Rightarrow> bool" where
  "wpo_some_arg_dominates cmp ss t \<longleftrightarrow> list_ex (\<lambda>s. cmp s t = WPO_EQ \<or> cmp s t = WPO_GT) ss"

lemma wpo_lex_cong [fundef_cong]:
  "ss = ss' \<Longrightarrow> ts = ts' \<Longrightarrow> (\<And>s t. s \<in> set ss' \<Longrightarrow> t \<in> set ts' \<Longrightarrow> cmp s t = cmp' s t)
   \<Longrightarrow> wpo_lex cmp ss ts = wpo_lex cmp' ss' ts'"
  unfolding wpo_lex_def by (rule arg_lex_cong)

lemma wpo_multi_cong [fundef_cong]:
  "ss = ss' \<Longrightarrow> ts = ts' \<Longrightarrow> (\<And>s t. s \<in> set ss' \<Longrightarrow> t \<in> set ts' \<Longrightarrow> cmp s t = cmp' s t)
   \<Longrightarrow> (\<And>s t. s \<in> set ss' \<Longrightarrow> t \<in> set ts' \<Longrightarrow> cmp t s = cmp' t s)
   \<Longrightarrow> wpo_multi cmp ss ts = wpo_multi cmp' ss' ts'"
  unfolding wpo_multi_def by (rule arg_multi_cong)

lemma wpo_dominates_all_args_cong [fundef_cong]:
  "s = s' \<Longrightarrow> ts = ts' \<Longrightarrow> (\<And>t. t \<in> set ts' \<Longrightarrow> cmp s' t = cmp' s' t)
   \<Longrightarrow> wpo_dominates_all_args cmp s ts = wpo_dominates_all_args cmp' s' ts'"
  by (auto simp: wpo_dominates_all_args_def list_all_iff)

lemma wpo_some_arg_dominates_cong [fundef_cong]:
  "ss = ss' \<Longrightarrow> t = t' \<Longrightarrow> (\<And>s. s \<in> set ss' \<Longrightarrow> cmp s t' = cmp' s t')
   \<Longrightarrow> wpo_some_arg_dominates cmp ss t = wpo_some_arg_dominates cmp' ss' t'"
  by (auto simp: wpo_some_arg_dominates_def list_ex_iff)

function (sequential) wpo_rec :: "(nat \<Rightarrow> nat) \<Rightarrow> wpo_config \<Rightarrow> trm \<Rightarrow> trm \<Rightarrow> wpo_cmp" where
  "wpo_rec oob cfg s t =
     (if wpo_eq s t then WPO_EQ
      else let vs = wpo_var_mult_acc s no_vars; vt = wpo_var_mult_acc t no_vars;
               s_dom = wpo_vars_subset vs vt; t_dom = wpo_vars_subset vt vs
      in case (s, t) of
        (FVR x, FVR y) \<Rightarrow> WPO_UN
      | (FVR x, _) \<Rightarrow> if count_at oob vt x > 0 then WPO_LT else WPO_UN
      | (_, FVR y) \<Rightarrow> if count_at oob vs y > 0 then WPO_GT else WPO_UN
      | (CTR f ss, CTR g ts) \<Rightarrow>
          let ws = wpo_weight cfg s; wt = wpo_weight cfg t
          in if ws > wt then (if \<not> s_dom then WPO_UN else WPO_GT)
          else if ws < wt then (if \<not> t_dom then WPO_UN else WPO_LT)
          else if wpo_some_arg_dominates (wpo_rec oob cfg) ss t then (if s_dom then WPO_GT else WPO_UN)
          else if wpo_some_arg_dominates (wpo_rec oob cfg) ts s then (if t_dom then WPO_LT else WPO_UN)
          else if wpo_prec cfg f > wpo_prec cfg g
          then (if s_dom \<and> wpo_dominates_all_args (wpo_rec oob cfg) s ts then WPO_GT else WPO_UN)
          else if wpo_prec cfg f < wpo_prec cfg g
          then (if t_dom \<and> wpo_dominates_all_args (wpo_rec oob cfg) t ss then WPO_LT else WPO_UN)
          else if length ss \<noteq> length ts then WPO_UN
          else if wpo_status_is_mul cfg f
          then let mc = wpo_multi (wpo_rec oob cfg) ss ts
               in if mc = WPO_GT \<and> \<not> s_dom then WPO_UN
                  else if mc = WPO_LT \<and> \<not> t_dom then WPO_UN
                  else mc
          else (case wpo_lex (wpo_rec oob cfg) ss ts of
                  WPO_EQ \<Rightarrow> WPO_EQ
                | WPO_GT \<Rightarrow> if s_dom \<and> wpo_dominates_all_args (wpo_rec oob cfg) s ts then WPO_GT else WPO_UN
                | WPO_LT \<Rightarrow> if t_dom \<and> wpo_dominates_all_args (wpo_rec oob cfg) t ss then WPO_LT else WPO_UN
                | WPO_UN \<Rightarrow> WPO_UN)
      | _ \<Rightarrow> WPO_UN)"
  by pat_completeness auto
termination
  by (relation "measure (\<lambda>(oob, cfg, s, t). tsize s + tsize t)")
    (auto dest: tsize_child intro: tsize_children simp del: tsize.simps)

declare wpo_rec.simps [simp del]

definition thvm_wpo :: "(nat \<Rightarrow> nat) \<Rightarrow> wpo_config \<Rightarrow> trm \<Rightarrow> trm \<Rightarrow> wpo_cmp" where
  "thvm_wpo oob cfg s t = wpo_rec oob cfg s t"

section \<open>The counters and the weight\<close>

text \<open>On terms with ids in range the counters are the counts of theory KBO, and nothing spills.\<close>

lemma wpo_acc_counts:
  "vars_ok t \<Longrightarrow> length (vm_count vm) = WPO_MAX_VAR \<Longrightarrow>
     length (vm_count (wpo_var_mult_acc t vm)) = WPO_MAX_VAR
     \<and> vm_spilled (wpo_var_mult_acc t vm) = vm_spilled vm
     \<and> (\<forall>i < WPO_MAX_VAR. int (vm_count (wpo_var_mult_acc t vm) ! i) = int (vm_count vm ! i) + kcnt t i)"
proof (induction t arbitrary: vm)
  case (FVR x)
  then show ?case by (auto simp: WPO_MAX_VAR_def KBO_MAX_VAR_def REWRITE_MAX_VAR_def nth_list_update)
next
  case (CTR l ts)
  have "length (vm_count (fold wpo_var_mult_acc us vm)) = WPO_MAX_VAR
     \<and> vm_spilled (fold wpo_var_mult_acc us vm) = vm_spilled vm
     \<and> (\<forall>i < WPO_MAX_VAR. int (vm_count (fold wpo_var_mult_acc us vm) ! i) = int (vm_count vm ! i) + sum_list (map (\<lambda>t. kcnt t i) us))"
    if "set us \<subseteq> set ts" "length (vm_count vm) = WPO_MAX_VAR" for us vm
    using that
  proof (induction us arbitrary: vm)
    case (Cons u us)
    have "vars_ok u" using Cons.prems(1) CTR.prems(1) by (auto simp: list_all_iff)
    then have "length (vm_count (wpo_var_mult_acc u vm)) = WPO_MAX_VAR
        \<and> vm_spilled (wpo_var_mult_acc u vm) = vm_spilled vm
        \<and> (\<forall>i < WPO_MAX_VAR. int (vm_count (wpo_var_mult_acc u vm) ! i) = int (vm_count vm ! i) + kcnt u i)"
      using CTR.IH [of u vm] Cons.prems by simp
    then show ?case using Cons.IH [of "wpo_var_mult_acc u vm"] Cons.prems by auto
  qed simp
  then show ?case using CTR.prems(2) by simp
qed simp

lemma wpo_counts:
  assumes "vars_ok t"
  shows "vm_spilled (wpo_var_mult_acc t no_vars) = False"
    and "i < WPO_MAX_VAR \<Longrightarrow> int (vm_count (wpo_var_mult_acc t no_vars) ! i) = kcnt t i"
  using wpo_acc_counts [OF assms, of no_vars] by (auto simp: no_vars_def)

lemma wpo_vars_subset_kdom:
  assumes "vars_ok s" and "vars_ok t"
  shows "wpo_vars_subset (wpo_var_mult_acc s no_vars) (wpo_var_mult_acc t no_vars) \<longleftrightarrow> kdom s t"
proof -
  have "wpo_vars_subset (wpo_var_mult_acc s no_vars) (wpo_var_mult_acc t no_vars)
      \<longleftrightarrow> (\<forall>i < WPO_MAX_VAR. kcnt t i \<le> kcnt s i)"
    using wpo_counts(1) [OF assms(1)] wpo_counts(1) [OF assms(2)]
    by (auto simp: wpo_vars_subset_def list_all_iff not_less wpo_counts(2) [OF assms(1), symmetric]
        wpo_counts(2) [OF assms(2), symmetric])
  also have "\<dots> \<longleftrightarrow> kdom s t"
    using kcnt_beyond [of _ s] kcnt_beyond [of _ t]
    by (auto simp: kdom_def WPO_MAX_VAR_def KBO_MAX_VAR_def) (metis not_le order_refl)
  finally show ?thesis .
qed

definition wpo_kbo :: "wpo_config \<Rightarrow> kbo_config" where
  "wpo_kbo cfg = \<lparr>kc_weights = wc_weights cfg, kc_precedence = wc_precedence cfg, kc_n_labels = wc_n_labels cfg,
      kc_var_weight = wc_var_weight cfg\<rparr>"

lemma wpo_weight_kw: "no_atm t \<Longrightarrow> wpo_weight cfg t = kw (wpo_kbo cfg) t"
  using kbo_memo_spec [of t "wpo_kbo cfg"]
  by (cases t) (auto simp: wpo_weight_def thvm_kbo_term_weight_def wpo_kbo_def prod_eq_iff)

lemma count_at_pos: "vars_ok t \<Longrightarrow> unat x < 64 \<Longrightarrow> count_at oob (wpo_var_mult_acc t no_vars) x > 0 \<longleftrightarrow> kcnt t (unat x) > 0"
  using wpo_counts(2) [of t "unat x", symmetric] by (simp add: count_at_def WPO_MAX_VAR_def)

section \<open>What a verdict says\<close>

lemma cancel_all_mset:
  "cancel_equal cmp ss ts = ([], []) \<Longrightarrow> (\<And>s t. s \<in> set ss \<Longrightarrow> t \<in> set ts \<Longrightarrow> cmp s t = KBO_EQ \<Longrightarrow> f s = f t)
   \<Longrightarrow> image_mset f (mset ss) = image_mset f (mset ts)"
proof (induction ss arbitrary: ts)
  case (Cons s ss)
  obtain us where us: "use_equal cmp s ts = Some us" "cancel_equal cmp ss us = ([], [])"
    using Cons.prems(1) by (auto split: option.splits prod.splits)
  have "use_equal cmp s vs = Some ws \<Longrightarrow> \<exists>t \<in> set vs. cmp s t = KBO_EQ \<and> mset vs = add_mset t (mset ws)" for vs ws
    by (induction vs arbitrary: ws) (auto split: if_splits)
  then obtain t where t: "t \<in> set ts" "cmp s t = KBO_EQ" "mset ts = add_mset t (mset us)" using us(1) by blast
  then have "image_mset f (mset ss) = image_mset f (mset us)"
    using Cons.IH [OF us(2)] Cons.prems(2) use_equal_subset [OF us(1)] by auto
  then show ?case using t Cons.prems(2) by simp
qed simp

lemma arg_lex_EQ:
  "arg_lex cmp ss ts = KBO_EQ \<Longrightarrow> length ss = length ts
   \<Longrightarrow> (\<And>s t. s \<in> set ss \<Longrightarrow> t \<in> set ts \<Longrightarrow> cmp s t = KBO_EQ \<Longrightarrow> f s = f t) \<Longrightarrow> map f ss = map f ts"
  by (induction cmp ss ts rule: arg_lex.induct) (auto simp: Let_def split: if_splits)

lemma arg_multi_EQ:
  assumes "arg_multi cmp ss ts = KBO_EQ"
    and "\<And>s t. s \<in> set ss \<Longrightarrow> t \<in> set ts \<Longrightarrow> cmp s t = KBO_EQ \<Longrightarrow> f s = f t"
  shows "image_mset f (mset ss) = image_mset f (mset ts)"
  using cancel_all_mset [of cmp ss ts f] assms by (auto simp: arg_multi_def split: if_splits prod.splits)

lemma kcnt_weight: "no_atm t \<Longrightarrow> kcnt t i > 0 \<Longrightarrow> int (kc_var_weight cfg) \<le> kw cfg t"
proof (induction t)
  case (CTR l ts)
  have "\<exists>u \<in> set ts. kcnt u i > 0"
  proof (rule ccontr)
    assume "\<not> (\<exists>u \<in> set ts. kcnt u i > 0)"
    then have "sum_list (map (\<lambda>t. kcnt t i) ts) \<le> 0" by (intro sum_list_nonpos) auto
    then show False using CTR.prems(2) by simp
  qed
  then obtain u where u: "u \<in> set ts" "kcnt u i > 0" by blast
  have "0 \<le> kw cfg t" for t by (induction t) (auto intro!: sum_list_nonneg add_nonneg_nonneg)
  then have "kw cfg u \<le> sum_list (map (kw cfg) ts)"
    using u(1) by (intro member_le_sum_list) auto
  moreover have "int (kc_var_weight cfg) \<le> kw cfg u" using CTR.IH [OF u(1)] CTR.prems(1) u by (simp add: list_all_iff)
  ultimately show ?case by simp
qed auto

definition wpo_fact :: "wpo_config \<Rightarrow> trm \<Rightarrow> trm \<Rightarrow> wpo_cmp \<Rightarrow> bool" where
  "wpo_fact cfg s t v \<longleftrightarrow>
     (v = WPO_GT \<longrightarrow> kdom s t \<and> kw (wpo_kbo cfg) t \<le> kw (wpo_kbo cfg) s)
     \<and> (v = WPO_LT \<longrightarrow> kdom t s \<and> kw (wpo_kbo cfg) s \<le> kw (wpo_kbo cfg) t)
     \<and> (v = WPO_EQ \<longrightarrow> kcnt s = kcnt t \<and> kw (wpo_kbo cfg) s = kw (wpo_kbo cfg) t)"

lemma kcnt_CTR_eq: "map kcnt ss = map kcnt ts \<or> image_mset kcnt (mset ss) = image_mset kcnt (mset ts) \<Longrightarrow> kcnt (CTR f ss) = kcnt (CTR g ts)"
proof
  fix i
  assume h: "map kcnt ss = map kcnt ts \<or> image_mset kcnt (mset ss) = image_mset kcnt (mset ts)"
  then have "image_mset kcnt (mset ss) = image_mset kcnt (mset ts)" by (metis mset_map)
  then have "image_mset (\<lambda>k. k i) (image_mset kcnt (mset ss)) = image_mset (\<lambda>k. k i) (image_mset kcnt (mset ts))" by simp
  then have "mset (map (\<lambda>t. kcnt t i) ss) = mset (map (\<lambda>t. kcnt t i) ts)" by (simp add: image_mset.compositionality comp_def)
  then have "sum_list (map (\<lambda>t. kcnt t i) ss) = sum_list (map (\<lambda>t. kcnt t i) ts)" by (metis sum_mset_sum_list)
  then show "kcnt (CTR f ss) i = kcnt (CTR g ts) i" by simp
qed

lemma wpo_rec_fact:
  "vars_ok s \<Longrightarrow> vars_ok t \<Longrightarrow> no_atm s \<Longrightarrow> no_atm t \<Longrightarrow> wpo_fact cfg s t (wpo_rec oob cfg s t)"
proof (induction "tsize s + tsize t" arbitrary: s t rule: less_induct)
  case less
  have dom: "wpo_vars_subset (wpo_var_mult_acc s no_vars) (wpo_var_mult_acc t no_vars) \<longleftrightarrow> kdom s t"
      "wpo_vars_subset (wpo_var_mult_acc t no_vars) (wpo_var_mult_acc s no_vars) \<longleftrightarrow> kdom t s"
    using wpo_vars_subset_kdom less.prems by blast+
  have w: "wpo_weight cfg s = kw (wpo_kbo cfg) s" "wpo_weight cfg t = kw (wpo_kbo cfg) t"
    using wpo_weight_kw less.prems by blast+
  have occ: "kdom u (FVR x) \<and> kw (wpo_kbo cfg) (FVR x) \<le> kw (wpo_kbo cfg) u"
    if "count_at oob (wpo_var_mult_acc u no_vars) x > 0" "vars_ok u" "no_atm u" "unat x < 64" for u x
    using that count_at_pos [of u x oob] kcnt_weight [of u "unat x" "wpo_kbo cfg"] kcnt_nonneg [of u]
    by (auto simp: kdom_def)
  show ?case
  proof (cases "s = t \<or> \<not> (\<exists>f ss g ts. s = CTR f ss \<and> t = CTR g ts)")
    case True
    then show ?thesis
      using less.prems occ
      by (cases s; cases t) (auto simp: wpo_rec.simps wpo_eq_def wpo_fact_def Let_def REWRITE_MAX_VAR_def simp del: kw.simps)
  next
    case False
    then obtain f ss g ts where st: "s = CTR f ss" "t = CTR g ts" and ne: "s \<noteq> t" by blast
    have eq: "wpo_rec oob cfg u v = WPO_EQ \<Longrightarrow> kcnt u = kcnt v" if "u \<in> set ss" "v \<in> set ts" for u v
    proof -
      have "tsize u + tsize v < tsize s + tsize t" using tsize_children(1) [OF that] unfolding st .
      moreover have "vars_ok u" "vars_ok v" "no_atm u" "no_atm v" using that less.prems by (auto simp: st list_all_iff)
      ultimately show "wpo_rec oob cfg u v = WPO_EQ \<Longrightarrow> kcnt u = kcnt v"
        using less.hyps [of u v] by (simp add: wpo_fact_def)
    qed
    have "wpo_multi (wpo_rec oob cfg) ss ts = WPO_EQ \<Longrightarrow> kcnt s = kcnt t"
      using arg_multi_EQ [of "wpo_rec oob cfg" ss ts kcnt] eq kcnt_CTR_eq unfolding wpo_multi_def st by blast
    moreover have "length ss = length ts \<Longrightarrow> wpo_lex (wpo_rec oob cfg) ss ts = WPO_EQ \<Longrightarrow> kcnt s = kcnt t"
      using arg_lex_EQ [of "wpo_rec oob cfg" ss ts kcnt] eq kcnt_CTR_eq unfolding wpo_lex_def st by blast
    ultimately show ?thesis
      using ne dom w unfolding st
      by (subst wpo_rec.simps) (auto simp: wpo_eq_def wpo_fact_def Let_def simp del: trm.inject split: kbo_cmp.split)
  qed
qed

text \<open>With ids in range nothing beyond the counters is read.\<close>

lemma wpo_rec_oob:
  "vars_ok s \<Longrightarrow> vars_ok t \<Longrightarrow> wpo_rec oob cfg s t = wpo_rec oob' cfg s t"
proof (induction "tsize s + tsize t" arbitrary: s t rule: less_induct)
  case less
  have read: "count_at oob vm x = count_at oob' vm x" if "unat x < 64" for vm x
    using that by (simp add: count_at_def WPO_MAX_VAR_def)
  show ?case
  proof (cases "\<exists>f ss g ts. s = CTR f ss \<and> t = CTR g ts")
    case False
    then show ?thesis using less.prems read
      by (cases s; cases t) (simp_all add: wpo_rec.simps REWRITE_MAX_VAR_def)
  next
    case True
    then obtain f ss g ts where st: "s = CTR f ss" "t = CTR g ts" by blast
    have ok: "vars_ok u" if "u \<in> set ss \<union> set ts" for u using that less.prems by (auto simp: st list_all_iff)
    have ih: "wpo_rec oob cfg u v = wpo_rec oob' cfg u v"
      if "tsize u + tsize v < tsize s + tsize t" "vars_ok u" "vars_ok v" for u v using less.hyps that by blast
    have children: "wpo_rec oob cfg u v = wpo_rec oob' cfg u v" "wpo_rec oob cfg v u = wpo_rec oob' cfg v u"
        "wpo_rec oob cfg u t = wpo_rec oob' cfg u t" "wpo_rec oob cfg v s = wpo_rec oob' cfg v s"
        "wpo_rec oob cfg s v = wpo_rec oob' cfg s v" "wpo_rec oob cfg t u = wpo_rec oob' cfg t u"
      if "u \<in> set ss" "v \<in> set ts" for u v
      using that ih ok less.prems tsize_children [OF that, of f g] tsize_child [OF that(1), of f] tsize_child [OF that(2), of g]
      unfolding st [symmetric] by simp_all
    have child1: "wpo_rec oob cfg u t = wpo_rec oob' cfg u t" "wpo_rec oob cfg t u = wpo_rec oob' cfg t u" if "u \<in> set ss" for u
      using that ih ok less.prems tsize_child [OF that, of f] unfolding st [symmetric] by simp_all
    have child2: "wpo_rec oob cfg u s = wpo_rec oob' cfg u s" "wpo_rec oob cfg s u = wpo_rec oob' cfg s u" if "u \<in> set ts" for u
      using that ih ok less.prems tsize_child [OF that, of g] unfolding st [symmetric] by simp_all
    have "wpo_some_arg_dominates (wpo_rec oob cfg) ss t = wpo_some_arg_dominates (wpo_rec oob' cfg) ss t"
        "wpo_some_arg_dominates (wpo_rec oob cfg) ts s = wpo_some_arg_dominates (wpo_rec oob' cfg) ts s"
        "wpo_dominates_all_args (wpo_rec oob cfg) s ts = wpo_dominates_all_args (wpo_rec oob' cfg) s ts"
        "wpo_dominates_all_args (wpo_rec oob cfg) t ss = wpo_dominates_all_args (wpo_rec oob' cfg) t ss"
        "wpo_lex (wpo_rec oob cfg) ss ts = wpo_lex (wpo_rec oob' cfg) ss ts"
        "wpo_multi (wpo_rec oob cfg) ss ts = wpo_multi (wpo_rec oob' cfg) ss ts"
      using children child1 child2
      by (intro wpo_some_arg_dominates_cong wpo_dominates_all_args_cong wpo_lex_cong wpo_multi_cong refl; blast)+
    note eqs = this [unfolded st]
    show ?thesis unfolding st
      by (subst (1 2) wpo_rec.simps) (simp only: eqs prod.case trm.case)
  qed
qed

section \<open>Properties\<close>


definition wpo_cfg3 :: wpo_config where
  "wpo_cfg3 = \<lparr>wc_weights = [0, 0, 0], wc_precedence = [1, 2, 3], wc_status = None, wc_n_labels = 3, wc_var_weight = 0\<rparr>"


text \<open>
  Beyond 64 the verdict on a variable and a term that contains it depends on the memory after
  the counters.
\<close>

lemma wpo_out_of_bounds:
  "thvm_wpo (\<lambda>_. 0) wpo_cfg3 (FVR 70) (CTR 1 [FVR 70]) = WPO_UN
   \<and> thvm_wpo (\<lambda>_. 1) wpo_cfg3 (FVR 70) (CTR 1 [FVR 70]) = WPO_LT"
  by code_simp

text \<open>
  With all weights zero the ordering is not the path ordering of the same precedence: the
  variable condition still counts occurrences.
\<close>

lemma wpo_not_rpo:
  "thvm_wpo oob wpo_cfg3 (CTR 2 [FVR 3, CTR 0 []]) (CTR 1 [CTR 1 [FVR 3]]) = WPO_GT
   \<and> thvm_wpo oob \<lparr>wc_weights = [0, 0, 0], wc_precedence = [1, 3, 2], wc_status = None, wc_n_labels = 3, wc_var_weight = 0\<rparr>
       (CTR 1 [FVR 3]) (CTR 2 [FVR 3, FVR 3]) = WPO_UN
   \<and> thvm_rpo \<lparr>rc_precedence = [1, 3, 2], rc_status = None, rc_n_labels = 3\<rparr>
       (CTR 1 [FVR 3]) (CTR 2 [FVR 3, FVR 3]) = RPO_GT"
  by code_simp

end
