(* ===== verification/FOL_Sat.thy ===== *)
theory FOL_Sat
  imports FOL_Clause LPO RPO WPO
begin

text \<open>
  The given-clause saturation loop (src/fol/sat.c): the state with its clause store, active set,
  passive queue and inference trace, the redundancy filters, the generation of inferences, one
  step and the run. A clause id is an index of the store; a slot is None once the clause was
  deleted. Arrays that double when full are lists (growing does not fail); clauses on the
  deferred-free queue are recorded, their release is not modelled. What the comparators read
  from their process is a field of the state.
\<close>

datatype atp_status = ATP_RUNNING | ATP_PROVED | ATP_REFUTED | ATP_TIMEOUT | ATP_QUEUE_EMPTY | ATP_ABORTED

datatype cnf_selection = CNF_SELECT_NONE | CNF_SELECT_NEGATIVE | CNF_SELECT_POSITIVE

datatype fol_inf = FOL_INF_INPUT | FOL_INF_RESOLVE | FOL_INF_FACTOR | FOL_INF_PARAMOD | FOL_INF_REFLEX
  | FOL_INF_EQ_FACTOR | FOL_INF_DEMOD

text \<open>FOL_NO_PARENT is None.\<close>

record fol_trace =
  tr_rule :: fol_inf
  tr_parent_a :: "nat option"
  tr_parent_b :: "nat option"

text \<open>The gates of thvm_lpo and the memory behind the counters of thvm_wpo.\<close>

record sat_env =
  env_vortest :: bool
  env_flatrec :: bool
  env_oob :: "nat \<Rightarrow> nat"

record cnf_state =
  cnf_clauses :: "fol_clause option list"
  cnf_active :: "nat list"
  cnf_passive :: "nat list"
  cnf_passive_head :: nat
  cnf_deferred :: "fol_clause list"
  cnf_steps :: nat
  cnf_step_cap :: nat
  cnf_status :: atp_status
  cnf_kbo :: "kbo_config option"
  cnf_lpo :: "lpo_config option"
  cnf_rpo :: "rpo_config option"
  cnf_wpo :: "wpo_config option"
  cnf_select :: cnf_selection
  cnf_trace :: "fol_trace list"
  cnf_env :: sat_env

definition cnf_init :: "sat_env \<Rightarrow> nat \<Rightarrow> cnf_state" where
  "cnf_init env step_cap =
     \<lparr>cnf_clauses = [], cnf_active = [], cnf_passive = [], cnf_passive_head = 0, cnf_deferred = [],
      cnf_steps = 0, cnf_step_cap = (if step_cap = 0 then 2 ^ 30 else step_cap), cnf_status = ATP_RUNNING,
      cnf_kbo = None, cnf_lpo = None, cnf_rpo = None, cnf_wpo = None, cnf_select = CNF_SELECT_NONE,
      cnf_trace = [], cnf_env = env\<rparr>"

section \<open>The clause store\<close>

text \<open>The id, or None for -1.\<close>

definition cnf_add_clause_traced :: "cnf_state \<Rightarrow> fol_clause option \<Rightarrow> fol_inf \<Rightarrow> nat option \<Rightarrow> nat option
    \<Rightarrow> cnf_state \<times> nat option" where
  "cnf_add_clause_traced s c rule pa pb =
     (if c = None then (s, None)
      else let id = length (cnf_clauses s)
           in (s\<lparr>cnf_clauses := cnf_clauses s @ [c],
                cnf_trace := cnf_trace s @ [\<lparr>tr_rule = rule, tr_parent_a = pa, tr_parent_b = pb\<rparr>],
                cnf_passive := cnf_passive s @ [id]\<rparr>, Some id))"

definition cnf_add_clause :: "cnf_state \<Rightarrow> fol_clause option \<Rightarrow> cnf_state \<times> nat option" where
  "cnf_add_clause s c = cnf_add_clause_traced s c FOL_INF_INPUT None None"

section \<open>Orderings and selection\<close>

text \<open>The linear comparison leaves its scope clean, so every call starts with the clean one.\<close>

definition cnf_compare :: "cnf_state \<Rightarrow> trm \<Rightarrow> trm \<Rightarrow> kbo_cmp" where
  "cnf_compare s lhs rhs =
     (case cnf_wpo s of
        Some w \<Rightarrow> thvm_wpo (env_oob (cnf_env s)) w lhs rhs
      | None \<Rightarrow> (case cnf_rpo s of
          Some r \<Rightarrow> thvm_rpo r lhs rhs
        | None \<Rightarrow> (case cnf_lpo s of
            Some l \<Rightarrow> thvm_lpo (env_vortest (cnf_env s)) (env_flatrec (cnf_env s)) l lhs rhs
          | None \<Rightarrow> (case cnf_kbo s of
              Some k \<Rightarrow> fst (thvm_kbo k lhs rhs kbo_scope)
            | None \<Rightarrow> KBO_UN))))"

definition cnf_has_ordering :: "cnf_state \<Rightarrow> bool" where
  "cnf_has_ordering s \<longleftrightarrow> cnf_kbo s \<noteq> None \<or> cnf_lpo s \<noteq> None \<or> cnf_rpo s \<noteq> None \<or> cnf_wpo s \<noteq> None"

definition cnf_set_kbo :: "cnf_state \<Rightarrow> kbo_config option \<Rightarrow> cnf_state" where "cnf_set_kbo s k = s\<lparr>cnf_kbo := k\<rparr>"
definition cnf_set_lpo :: "cnf_state \<Rightarrow> lpo_config option \<Rightarrow> cnf_state" where "cnf_set_lpo s k = s\<lparr>cnf_lpo := k\<rparr>"
definition cnf_set_rpo :: "cnf_state \<Rightarrow> rpo_config option \<Rightarrow> cnf_state" where "cnf_set_rpo s k = s\<lparr>cnf_rpo := k\<rparr>"
definition cnf_set_wpo :: "cnf_state \<Rightarrow> wpo_config option \<Rightarrow> cnf_state" where "cnf_set_wpo s k = s\<lparr>cnf_wpo := k\<rparr>"
definition cnf_set_select :: "cnf_state \<Rightarrow> cnf_selection \<Rightarrow> cnf_state" where "cnf_set_select s k = s\<lparr>cnf_select := k\<rparr>"

text \<open>The selected literal, None for the fallback to all literals.\<close>

definition cnf_select_lit :: "cnf_state \<Rightarrow> fol_clause \<Rightarrow> nat option" where
  "cnf_select_lit s c =
     (if cnf_select s = CNF_SELECT_NONE then None
      else let want_sign = (if cnf_select s = CNF_SELECT_NEGATIVE then 1 else 0)
           in List.find (\<lambda>i. lit_sign (c ! i) = want_sign) [0..<length c])"

section \<open>Demodulation\<close>

text \<open>The flag says that the word returned is not the word given (word_moved in theory FOL_Clause).\<close>

definition ordered_root :: "cnf_state \<Rightarrow> trm \<Rightarrow> trm \<Rightarrow> trm \<Rightarrow> (trm \<times> bool) option" where
  "ordered_root s term' lhs rhs =
     (let (matched, \<sigma>) = thvm_match lhs term' Map.empty; sub_rhs = thvm_subst_apply \<sigma> rhs
      in if matched \<and> (cnf_has_ordering s \<longrightarrow> cnf_compare s term' sub_rhs = KBO_GT)
         then Some (sub_rhs, word_moved rhs sub_rhs term') else None)"

fun cnf_rewrite_once :: "cnf_state \<Rightarrow> trm \<Rightarrow> trm \<Rightarrow> trm \<Rightarrow> trm \<times> bool" where
  "cnf_rewrite_once s (CTR l ts) lhs rhs =
     (case ordered_root s (CTR l ts) lhs rhs of
        Some r \<Rightarrow> r
      | None \<Rightarrow>
          if length ts = 0 then (CTR l ts, False)
          else if length ts > REWRITE_MAX_ARITY then (CTR l ts, False)
          else let kids = map (\<lambda>u. cnf_rewrite_once s u lhs rhs) ts
               in if list_ex snd kids then (CTR l (map fst kids), True) else (CTR l ts, False))"
| "cnf_rewrite_once s term' lhs rhs =
     (case ordered_root s term' lhs rhs of Some r \<Rightarrow> r | None \<Rightarrow> (term', False))"

fun cnf_demodulate_ordered :: "cnf_state \<Rightarrow> fol_clause option \<Rightarrow> fol_clause option \<Rightarrow> fol_clause option" where
  "cnf_demodulate_ordered s (Some eqc) (Some tgt) =
     (case unit_equation eqc of
        None \<Rightarrow> None
      | Some (lhs, rhs) \<Rightarrow> demod_lits (\<lambda>a. cnf_rewrite_once s a lhs rhs) tgt)"
| "cnf_demodulate_ordered s _ _ = None"

definition CNF_DEMOD_BUDGET :: nat where "CNF_DEMOD_BUDGET = 16"

text \<open>
  One round tries the active rules in order and stops at the first that changes the clause. The
  clause is not stored yet, so it is none of them. The first argument is the budget left.
\<close>

fun demod_round :: "cnf_state \<Rightarrow> nat list \<Rightarrow> fol_clause \<Rightarrow> fol_clause option" where
  "demod_round s [] c = None"
| "demod_round s (a # as) c =
     (case cnf_demodulate_ordered s (cnf_clauses s ! a) (Some c) of
        Some d \<Rightarrow> Some d
      | None \<Rightarrow> demod_round s as c)"

fun forward_demod_loop :: "nat \<Rightarrow> cnf_state \<Rightarrow> fol_clause \<Rightarrow> fol_clause" where
  "forward_demod_loop 0 s c = c"
| "forward_demod_loop (Suc n) s c =
     (case demod_round s (cnf_active s) c of
        None \<Rightarrow> c
      | Some d \<Rightarrow> forward_demod_loop n s d)"

definition cnf_forward_demod :: "cnf_state \<Rightarrow> fol_clause \<Rightarrow> fol_clause" where
  "cnf_forward_demod s c = forward_demod_loop CNF_DEMOD_BUDGET s c"

section \<open>Redundancy\<close>

definition cnf_is_subsumed :: "cnf_state \<Rightarrow> fol_clause \<Rightarrow> bool" where
  "cnf_is_subsumed s c \<longleftrightarrow>
     list_ex (\<lambda>a. fol_subsumes (cnf_clauses s ! a) (Some c)) (cnf_active s)
     \<or> list_ex (\<lambda>p. fol_subsumes (cnf_clauses s ! p) (Some c)) (cnf_passive s)"

text \<open>The slot is cleared and the clause queued for release.\<close>

definition clear_slot :: "cnf_state \<Rightarrow> nat \<Rightarrow> fol_clause \<Rightarrow> cnf_state" where
  "clear_slot s i old = s\<lparr>cnf_clauses := (cnf_clauses s)[i := None], cnf_deferred := cnf_deferred s @ [old]\<rparr>"

fun backward_demod_loop :: "fol_clause \<Rightarrow> nat \<Rightarrow> nat list \<Rightarrow> cnf_state \<Rightarrow> cnf_state" where
  "backward_demod_loop rule new_id [] s = s"
| "backward_demod_loop rule new_id (i # is) s =
     (if i = new_id then backward_demod_loop rule new_id is s
      else case cnf_clauses s ! i of
        None \<Rightarrow> backward_demod_loop rule new_id is s
      | Some old \<Rightarrow>
          (case cnf_demodulate_ordered s (Some rule) (Some old) of
             None \<Rightarrow> backward_demod_loop rule new_id is s
           | Some d \<Rightarrow>
               let s = clear_slot s i old
               in if fol_clause_is_empty (Some d)
                  then (fst (cnf_add_clause_traced s (Some d) FOL_INF_DEMOD (Some new_id) (Some i)))\<lparr>cnf_status := ATP_PROVED\<rparr>
                  else if fol_is_tautology (Some d) then backward_demod_loop rule new_id is s
                  else if cnf_is_subsumed s d then backward_demod_loop rule new_id is s
                  else backward_demod_loop rule new_id is
                         (fst (cnf_add_clause_traced s (Some d) FOL_INF_DEMOD (Some new_id) (Some i)))))"

definition cnf_backward_demod :: "cnf_state \<Rightarrow> nat \<Rightarrow> cnf_state" where
  "cnf_backward_demod s new_id =
     (case cnf_clauses s ! new_id of
        None \<Rightarrow> s
      | Some rule \<Rightarrow>
          if length rule \<noteq> 1 \<or> lit_sign (rule ! 0) \<noteq> 0 then s
          else if \<not> fol_atom_is_eq (lit_atom (rule ! 0)) then s
          else backward_demod_loop rule new_id [0..<length (cnf_clauses s)] s)"

fun backward_subsume_loop :: "fol_clause \<Rightarrow> nat \<Rightarrow> nat list \<Rightarrow> cnf_state \<Rightarrow> cnf_state" where
  "backward_subsume_loop new_c new_id [] s = s"
| "backward_subsume_loop new_c new_id (i # is) s =
     (if i = new_id then backward_subsume_loop new_c new_id is s
      else case cnf_clauses s ! i of
        None \<Rightarrow> backward_subsume_loop new_c new_id is s
      | Some old \<Rightarrow>
          if fol_subsumes (Some new_c) (Some old)
          then backward_subsume_loop new_c new_id is (clear_slot s i old)
          else backward_subsume_loop new_c new_id is s)"

definition cnf_backward_subsume :: "cnf_state \<Rightarrow> nat \<Rightarrow> cnf_state" where
  "cnf_backward_subsume s new_id =
     (case cnf_clauses s ! new_id of
        None \<Rightarrow> s
      | Some new_c \<Rightarrow> backward_subsume_loop new_c new_id [0..<length (cnf_clauses s)] s)"

definition cnf_flush_deferred :: "cnf_state \<Rightarrow> cnf_state" where
  "cnf_flush_deferred s = s\<lparr>cnf_deferred := []\<rparr>"

fun cnf_consider :: "cnf_state \<Rightarrow> fol_clause option \<Rightarrow> fol_inf \<Rightarrow> nat option \<Rightarrow> nat option \<Rightarrow> cnf_state" where
  "cnf_consider s None rule pa pb = s"
| "cnf_consider s (Some c) rule pa pb =
     (if cnf_status s \<noteq> ATP_RUNNING then s
      else let c = cnf_forward_demod s c
           in if fol_clause_is_empty (Some c)
              then (fst (cnf_add_clause_traced s (Some c) rule pa pb))\<lparr>cnf_status := ATP_PROVED\<rparr>
              else if fol_is_tautology (Some c) then s
              else if cnf_is_subsumed s c then s
              else case cnf_add_clause_traced s (Some c) rule pa pb of
                     (s, None) \<Rightarrow> s
                   | (s, Some new_id) \<Rightarrow> cnf_backward_demod (cnf_backward_subsume s new_id) new_id)"

section \<open>Generating inferences\<close>

text \<open>A loop whose body may end the run: it returns as soon as the status is not running.\<close>

fun while_running :: "(cnf_state \<Rightarrow> cnf_state) list \<Rightarrow> cnf_state \<Rightarrow> cnf_state" where
  "while_running [] s = s"
| "while_running (f # fs) s =
     (let s' = f s in if cnf_status s' \<noteq> ATP_RUNNING then s' else while_running fs s')"

text \<open>The literal index passes the selection.\<close>

definition selected :: "nat option \<Rightarrow> nat \<Rightarrow> bool" where
  "selected sel i \<longleftrightarrow> (case sel of None \<Rightarrow> True | Some k \<Rightarrow> i = k)"

definition cnf_gen_resolution :: "cnf_state \<Rightarrow> nat \<Rightarrow> nat \<Rightarrow> cnf_state" where
  "cnf_gen_resolution s a_id b_id =
     (case (cnf_clauses s ! a_id, cnf_clauses s ! b_id) of
        (Some a, Some b) \<Rightarrow>
          let sel_a = cnf_select_lit s a; sel_b = cnf_select_lit s b
          in while_running
               [\<lambda>s. cnf_consider s (fol_resolve (Some a) i (Some b) j) FOL_INF_RESOLVE (Some a_id) (Some b_id).
                 i \<leftarrow> filter (selected sel_a) [0..<length a],
                 j \<leftarrow> filter (\<lambda>j. selected sel_b j \<and> lit_sign (a ! i) \<noteq> lit_sign (b ! j)) [0..<length b]] s
      | _ \<Rightarrow> s)"

definition cnf_gen_factoring :: "cnf_state \<Rightarrow> nat \<Rightarrow> cnf_state" where
  "cnf_gen_factoring s c_id =
     (case cnf_clauses s ! c_id of
        None \<Rightarrow> s
      | Some c \<Rightarrow> while_running
          [\<lambda>s. cnf_consider s (fol_factor (Some c) i j) FOL_INF_FACTOR (Some c_id) None.
            i \<leftarrow> [0..<length c], j \<leftarrow> [i + 1..<length c]] s)"

definition is_eq_lit :: "fol_clause \<Rightarrow> u8 \<Rightarrow> nat \<Rightarrow> bool" where
  "is_eq_lit c sign i \<longleftrightarrow> lit_sign (c ! i) = sign \<and> fol_atom_is_eq (lit_atom (c ! i))"

definition cnf_gen_reflex :: "cnf_state \<Rightarrow> nat \<Rightarrow> cnf_state" where
  "cnf_gen_reflex s c_id =
     (case cnf_clauses s ! c_id of
        None \<Rightarrow> s
      | Some c \<Rightarrow> while_running
          [\<lambda>s. cnf_consider s (fol_reflex_resolve (Some c) i) FOL_INF_REFLEX (Some c_id) None.
            i \<leftarrow> filter (is_eq_lit c 1) [0..<length c]] s)"

text \<open>
  The callback at every constructor position, parents first, down to the depth cap. The first
  argument is the depth left.
\<close>

fun cnf_walk_positions :: "(nat list \<Rightarrow> 's \<Rightarrow> 's) \<Rightarrow> nat \<Rightarrow> trm \<Rightarrow> nat list \<Rightarrow> 's \<Rightarrow> 's" where
  "cnf_walk_positions cb d (CTR l ts) path s =
     (let s = cb path s
      in case d of
           0 \<Rightarrow> s
         | Suc d \<Rightarrow> fold (\<lambda>(i, t). cnf_walk_positions cb d t (path @ [i])) (zip [0..<length ts] ts) s)"
| "cnf_walk_positions cb d t path s = s"

definition cnf_paramod_at_pos :: "fol_clause \<Rightarrow> nat \<Rightarrow> nat \<Rightarrow> fol_clause \<Rightarrow> nat \<Rightarrow> nat \<Rightarrow> nat list \<Rightarrow> cnf_state
    \<Rightarrow> cnf_state" where
  "cnf_paramod_at_pos eqc ei eq_id tgt ti target_id p s =
     (if cnf_status s \<noteq> ATP_RUNNING then s
      else let s = cnf_consider s (fol_paramodulate (Some eqc) ei False (Some tgt) ti p) FOL_INF_PARAMOD (Some eq_id) (Some target_id)
           in if cnf_status s \<noteq> ATP_RUNNING then s
              else cnf_consider s (fol_paramodulate (Some eqc) ei True (Some tgt) ti p) FOL_INF_PARAMOD (Some eq_id) (Some target_id))"

definition cnf_gen_paramod :: "cnf_state \<Rightarrow> nat \<Rightarrow> nat \<Rightarrow> cnf_state" where
  "cnf_gen_paramod s eq_id target_id =
     (case (cnf_clauses s ! eq_id, cnf_clauses s ! target_id) of
        (Some eqc, Some tgt) \<Rightarrow>
          let sel_t = cnf_select_lit s tgt
          in while_running
               [cnf_walk_positions (cnf_paramod_at_pos eqc i eq_id tgt j target_id) CP_MAX_DEPTH (lit_atom (tgt ! j)) [].
                 i \<leftarrow> filter (is_eq_lit eqc 0) [0..<length eqc],
                 j \<leftarrow> filter (\<lambda>j. selected sel_t j \<and> \<not> (eq_id = target_id \<and> i = j)) [0..<length tgt]] s
      | _ \<Rightarrow> s)"

definition cnf_gen_eq_factoring :: "cnf_state \<Rightarrow> nat \<Rightarrow> cnf_state" where
  "cnf_gen_eq_factoring s c_id =
     (case cnf_clauses s ! c_id of
        None \<Rightarrow> s
      | Some c \<Rightarrow> while_running
          [\<lambda>s. cnf_consider s (fol_eq_factor (Some c) i j) FOL_INF_EQ_FACTOR (Some c_id) None.
            i \<leftarrow> filter (is_eq_lit c 0) [0..<length c],
            j \<leftarrow> filter (\<lambda>j. i \<noteq> j \<and> is_eq_lit c 0 j) [0..<length c]] s)"

section \<open>The loop\<close>

text \<open>The pop: the next queued id whose clause is still there; the head moves past what is skipped.\<close>

fun pop_passive :: "fol_clause option list \<Rightarrow> nat list \<Rightarrow> nat \<Rightarrow> nat option \<times> nat" where
  "pop_passive clauses [] head = (None, head)"
| "pop_passive clauses (cand # rest) head =
     (if clauses ! cand \<noteq> None then (Some cand, head + 1) else pop_passive clauses rest (head + 1))"

text \<open>The inferences between the given clause and one active clause.\<close>

definition cross_inferences :: "nat \<Rightarrow> nat \<Rightarrow> cnf_state \<Rightarrow> cnf_state" where
  "cross_inferences given_id a_id s =
     (if a_id = given_id then s
      else if cnf_clauses s ! a_id = None then s
      else while_running
        [\<lambda>s. cnf_gen_resolution s given_id a_id, \<lambda>s. cnf_gen_resolution s a_id given_id,
         \<lambda>s. cnf_gen_paramod s given_id a_id, \<lambda>s. cnf_gen_paramod s a_id given_id] s)"

definition cnf_step :: "cnf_state \<Rightarrow> cnf_state" where
  "cnf_step s =
     (if cnf_status s \<noteq> ATP_RUNNING then s
      else if cnf_steps s \<ge> cnf_step_cap s then s\<lparr>cnf_status := ATP_ABORTED\<rparr>
      else case pop_passive (cnf_clauses s) (drop (cnf_passive_head s) (cnf_passive s)) (cnf_passive_head s) of
        (None, head) \<Rightarrow> s\<lparr>cnf_passive_head := head, cnf_status := ATP_QUEUE_EMPTY\<rparr>
      | (Some given_id, head) \<Rightarrow>
          let s = s\<lparr>cnf_passive_head := head, cnf_active := cnf_active s @ [given_id]\<rparr>;
              s = while_running
                [\<lambda>s. cnf_gen_factoring s given_id, \<lambda>s. cnf_gen_reflex s given_id,
                 \<lambda>s. cnf_gen_eq_factoring s given_id, \<lambda>s. cnf_gen_paramod s given_id given_id] s
          in if cnf_status s \<noteq> ATP_RUNNING then s
             else if cnf_clauses s ! given_id = None
             then cnf_flush_deferred (s\<lparr>cnf_steps := cnf_steps s + 1\<rparr>)
             else let s = while_running (map (cross_inferences given_id) (butlast (cnf_active s))) s
                  in if cnf_status s \<noteq> ATP_RUNNING then s
                     else cnf_flush_deferred (s\<lparr>cnf_steps := cnf_steps s + 1\<rparr>))"

section \<open>What the parts of a step leave alone\<close>

declare fol_is_tautology.simps [simp del] and fol_subsumes.simps [simp del]

text \<open>
  The shape of a state: every id is queued once in order, the trace runs parallel to the store
  and points backwards, and the active ids are the popped ids whose clause was there.
\<close>

definition tr_parents :: "fol_trace \<Rightarrow> nat set" where
  "tr_parents t = set_option (tr_parent_a t) \<union> set_option (tr_parent_b t)"

definition sat_wf :: "cnf_state \<Rightarrow> bool" where
  "sat_wf s \<longleftrightarrow> cnf_passive s = [0..<length (cnf_clauses s)] \<and> length (cnf_trace s) = length (cnf_clauses s)
     \<and> (\<forall>i < length (cnf_clauses s). \<forall>p \<in> tr_parents (cnf_trace s ! i). p < i)
     \<and> cnf_passive_head s \<le> length (cnf_clauses s) \<and> set (cnf_active s) \<subseteq> {..<cnf_passive_head s}
     \<and> distinct (cnf_active s)
     \<and> (\<forall>i < cnf_passive_head s. cnf_clauses s ! i \<noteq> None \<longrightarrow> i \<in> set (cnf_active s))"

text \<open>
  Inside a step only the store, the queue, the trace and the status change, and they only grow.
  The shape is kept when the ids involved exist, which is the condition P.
\<close>

definition grows :: "bool \<Rightarrow> cnf_state \<Rightarrow> cnf_state \<Rightarrow> bool" where
  "grows P s s' \<longleftrightarrow> cnf_active s' = cnf_active s \<and> cnf_passive_head s' = cnf_passive_head s
     \<and> cnf_steps s' = cnf_steps s \<and> cnf_step_cap s' = cnf_step_cap s
     \<and> cnf_status s' \<in> {cnf_status s, ATP_PROVED}
     \<and> length (cnf_clauses s) \<le> length (cnf_clauses s') \<and> (P \<and> sat_wf s \<longrightarrow> sat_wf s')"

lemma grows_refl [simp, intro]: "grows P s s"
  by (simp add: grows_def)

lemma grows_trans [trans]: "grows P s t \<Longrightarrow> grows P t u \<Longrightarrow> grows P s u"
  by (auto simp: grows_def)

lemma grows_length: "grows P s s' \<Longrightarrow> i < length (cnf_clauses s) \<Longrightarrow> i < length (cnf_clauses s')"
  by (auto simp: grows_def)

lemma sat_wf_status [simp]: "sat_wf (s\<lparr>cnf_status := v\<rparr>) = sat_wf s"
  by (simp add: sat_wf_def)

lemma grows_proved [simp]: "grows P s s' \<Longrightarrow> grows P s (s'\<lparr>cnf_status := ATP_PROVED\<rparr>)"
  unfolding grows_def by simp

lemma grows_add:
  assumes "P \<Longrightarrow> set_option pa \<union> set_option pb \<subseteq> {..<length (cnf_clauses s)}"
  shows "grows P s (fst (cnf_add_clause_traced s c rule pa pb))"
  using assms by (fastforce simp: grows_def sat_wf_def cnf_add_clause_traced_def tr_parents_def nth_append Let_def)

lemma grows_clear: "grows P s (clear_slot s i old)"
proof -
  have "(cnf_clauses s)[i := None] ! j \<noteq> None \<Longrightarrow> cnf_clauses s ! j \<noteq> None" if "j < length (cnf_clauses s)" for j
    using that by (cases "i = j") auto
  then show ?thesis by (auto simp: grows_def sat_wf_def clear_slot_def)
qed

lemma grows_backward_demod_loop:
  "(P \<Longrightarrow> new_id < length (cnf_clauses s)) \<Longrightarrow> (P \<Longrightarrow> set is \<subseteq> {..<length (cnf_clauses s)})
   \<Longrightarrow> grows P s (backward_demod_loop rule new_id is s)"
proof (induction "is" arbitrary: s)
  case (Cons i "is")
  have skip: "grows P s (backward_demod_loop rule new_id is s)" using Cons by simp
  show ?case
  proof (cases "i = new_id \<or> cnf_clauses s ! i = None
      \<or> cnf_demodulate_ordered s (Some rule) (cnf_clauses s ! i) = None")
    case True
    then show ?thesis using skip by (auto split: option.splits)
  next
    case False
    then obtain old d where d: "cnf_clauses s ! i = Some old" "cnf_demodulate_ordered s (Some rule) (Some old) = Some d"
        "i \<noteq> new_id" by auto
    let ?s = "clear_slot s i old"
    let ?t = "fst (cnf_add_clause_traced ?s (Some d) FOL_INF_DEMOD (Some new_id) (Some i))"
    have g1: "grows P s ?s" by (rule grows_clear)
    have bounds: "P \<Longrightarrow> new_id < length (cnf_clauses ?s)" "P \<Longrightarrow> i < length (cnf_clauses ?s)" "P \<Longrightarrow> set is \<subseteq> {..<length (cnf_clauses ?s)}"
      using Cons.prems by (auto simp: clear_slot_def)
    then have g2: "grows P ?s ?t" by (intro grows_add) auto
    have "P \<Longrightarrow> new_id < length (cnf_clauses ?t)" "P \<Longrightarrow> set is \<subseteq> {..<length (cnf_clauses ?t)}"
      using bounds grows_length [OF g2] by auto
    then have g3: "grows P ?t (backward_demod_loop rule new_id is ?t)" by (rule Cons.IH)
    have "grows P ?s (backward_demod_loop rule new_id is ?s)" using bounds by (intro Cons.IH)
    then show ?thesis
      using d grows_trans [OF g1] grows_trans [OF g1 g2] grows_trans [OF g1 grows_trans [OF g2 g3]]
      by (auto simp: Let_def simp del: cnf_demodulate_ordered.simps)
  qed
qed simp

lemma grows_backward_demod: "(P \<Longrightarrow> new_id < length (cnf_clauses s)) \<Longrightarrow> grows P s (cnf_backward_demod s new_id)"
  by (auto simp: cnf_backward_demod_def split: option.splits intro!: grows_backward_demod_loop)

lemma grows_backward_subsume_loop: "grows P s (backward_subsume_loop c new_id is s)"
proof (induction "is" arbitrary: s)
  case (Cons i "is")
  have "grows P s (backward_subsume_loop c new_id is (clear_slot s i old))" for old
    using grows_trans [OF grows_clear Cons.IH] .
  then show ?case using Cons.IH [of s] by (simp split: option.split)
qed simp

lemma grows_backward_subsume: "grows P s (cnf_backward_subsume s new_id)"
  by (auto simp: cnf_backward_subsume_def split: option.splits intro: grows_backward_subsume_loop)

text \<open>The parents named in the trace are ids of the store.\<close>

lemma grows_consider:
  assumes "P \<Longrightarrow> set_option pa \<union> set_option pb \<subseteq> {..<length (cnf_clauses s)}"
  shows "grows P s (cnf_consider s c rule pa pb)"
proof (cases c)
  case (Some d)
  let ?d = "cnf_forward_demod s d"
  let ?t = "fst (cnf_add_clause_traced s (Some ?d) rule pa pb)" and ?id = "length (cnf_clauses s)"
  have g: "grows P s ?t" by (rule grows_add [OF assms])
  have "?id < length (cnf_clauses ?t)" by (simp add: cnf_add_clause_traced_def Let_def)
  then have "?id < length (cnf_clauses (cnf_backward_subsume ?t ?id))"
    using grows_length [OF grows_backward_subsume] by blast
  then have "grows P s (cnf_backward_demod (cnf_backward_subsume ?t ?id) ?id)"
    using grows_trans [OF g grows_trans [OF grows_backward_subsume grows_backward_demod]] by blast
  then show ?thesis using g Some by (auto simp: Let_def cnf_add_clause_traced_def)
qed simp

lemma grows_while_running:
  "(\<And>f t. f \<in> set fs \<Longrightarrow> grows P s t \<Longrightarrow> grows P t (f t)) \<Longrightarrow> grows P s t \<Longrightarrow> grows P s (while_running fs t)"
proof (induction fs arbitrary: t)
  case (Cons f fs)
  have "grows P s (f t)" using Cons.prems grows_trans by fastforce
  then show ?case using Cons by (simp add: Let_def)
qed simp

lemma grows_walk:
  "(\<And>p t. grows P s t \<Longrightarrow> grows P s (cb p t)) \<Longrightarrow> grows P s t \<Longrightarrow> grows P s (cnf_walk_positions cb d u path t)"
proof (induction u arbitrary: d path t)
  case (CTR l us)
  have "grows P s (fold (\<lambda>(i, u). cnf_walk_positions cb d' u (path @ [i])) ius t')"
    if "set ius \<subseteq> set (zip [0..<length us] us)" "grows P s t'" for ius t' d'
    using that
  proof (induction ius arbitrary: t')
    case (Cons iu ius)
    obtain i u where iu: "iu = (i, u)" by fastforce
    then have "u \<in> set us" using Cons.prems(1) set_zip_rightD by fastforce
    then have "grows P s (cnf_walk_positions cb d' u (path @ [i]) t')" using CTR.IH CTR.prems(1) Cons.prems(2) by blast
    then show ?case using Cons iu by simp
  qed simp
  then show ?case using CTR.prems by (simp add: Let_def split: nat.split)
qed simp_all

lemma grows_gens:
  assumes "P \<Longrightarrow> a < length (cnf_clauses s)" and "P \<Longrightarrow> b < length (cnf_clauses s)"
  shows "grows P s (cnf_gen_resolution s a b)" and "grows P s (cnf_gen_factoring s a)" and "grows P s (cnf_gen_reflex s a)"
    and "grows P s (cnf_gen_eq_factoring s a)" and "grows P s (cnf_gen_paramod s a b)"
proof -
  have one: "grows P t (cnf_consider t c rule (Some a) None)" if "grows P s t" for t c rule
    using grows_length [OF that] assms by (intro grows_consider) auto
  have two: "grows P t (cnf_consider t c rule (Some a) (Some b))" if "grows P s t" for t c rule
    using grows_length [OF that] assms by (intro grows_consider) auto
  show "grows P s (cnf_gen_resolution s a b)"
    unfolding cnf_gen_resolution_def by (auto simp: Let_def split: option.split intro!: grows_while_running two)
  show "grows P s (cnf_gen_factoring s a)"
    unfolding cnf_gen_factoring_def by (auto split: option.split intro!: grows_while_running one)
  show "grows P s (cnf_gen_reflex s a)"
    unfolding cnf_gen_reflex_def by (auto split: option.split intro!: grows_while_running one)
  show "grows P s (cnf_gen_eq_factoring s a)"
    unfolding cnf_gen_eq_factoring_def by (auto split: option.split intro!: grows_while_running one)
  have pos: "grows P u (cnf_paramod_at_pos ec ei a tc ti b p t)" if "grows P s u" "grows P u t" for u ec ei tc ti p t
  proof -
    have st: "grows P s t" using that by (rule grows_trans)
    let ?t = "cnf_consider t (fol_paramodulate (Some ec) ei False (Some tc) ti p) FOL_INF_PARAMOD (Some a) (Some b)"
    have t: "grows P t ?t" using st by (rule two)
    have "grows P s ?t" using st t by (rule grows_trans)
    then have "grows P ?t (cnf_consider ?t (fol_paramodulate (Some ec) ei True (Some tc) ti p) FOL_INF_PARAMOD (Some a) (Some b))"
      by (rule two)
    then show ?thesis
      using that(2) grows_trans [OF that(2) t] grows_trans [OF that(2) grows_trans [OF t]]
      unfolding cnf_paramod_at_pos_def by (auto simp: Let_def)
  qed
  show "grows P s (cnf_gen_paramod s a b)"
    unfolding cnf_gen_paramod_def
    by (auto simp: Let_def split: option.split intro!: grows_while_running grows_walk intro: pos)
qed

lemma grows_self:
  assumes "P \<Longrightarrow> g < length (cnf_clauses s)"
  shows "grows P s (while_running
    [\<lambda>s. cnf_gen_factoring s g, \<lambda>s. cnf_gen_reflex s g, \<lambda>s. cnf_gen_eq_factoring s g, \<lambda>s. cnf_gen_paramod s g g] s)"
proof (rule grows_while_running)
  show "grows P t (f t)"
    if "f \<in> set [\<lambda>s. cnf_gen_factoring s g, \<lambda>s. cnf_gen_reflex s g, \<lambda>s. cnf_gen_eq_factoring s g, \<lambda>s. cnf_gen_paramod s g g]"
      "grows P s t" for f t
  proof -
    have "P \<Longrightarrow> g < length (cnf_clauses t)" using assms grows_length [OF that(2)] by blast
    then show ?thesis using that(1) grows_gens [of P g t g] by auto
  qed
qed simp

lemma grows_cross:
  assumes "P \<Longrightarrow> g < length (cnf_clauses s)" and "P \<Longrightarrow> a < length (cnf_clauses s)"
  shows "grows P s (cross_inferences g a s)"
proof -
  let ?fs = "[\<lambda>s. cnf_gen_resolution s g a, \<lambda>s. cnf_gen_resolution s a g, \<lambda>s. cnf_gen_paramod s g a, \<lambda>s. cnf_gen_paramod s a g]"
  have "grows P s (while_running ?fs s)"
  proof (rule grows_while_running)
    show "grows P t (f t)" if "f \<in> set ?fs" "grows P s t" for f t
    proof -
      have "P \<Longrightarrow> g < length (cnf_clauses t)" "P \<Longrightarrow> a < length (cnf_clauses t)"
        using assms grows_length [OF that(2)] by blast+
      then show ?thesis using that(1) grows_gens [of P g t a] grows_gens [of P a t g] by auto
    qed
  qed simp
  then show ?thesis by (simp add: cross_inferences_def)
qed

lemma grows_crosses:
  assumes "P \<Longrightarrow> g < length (cnf_clauses s)" and "P \<Longrightarrow> set as \<subseteq> {..<length (cnf_clauses s)}"
  shows "grows P s (while_running (map (cross_inferences g) as) s)"
proof (rule grows_while_running)
  show "grows P t (f t)" if f: "f \<in> set (map (cross_inferences g) as)" and g: "grows P s t" for f t
  proof -
    obtain a where a: "a \<in> set as" "f = cross_inferences g a" using f by auto
    have "P \<Longrightarrow> g < length (cnf_clauses t)" "P \<Longrightarrow> a < length (cnf_clauses t)"
      using assms a(1) grows_length [OF g] by blast+
    then show ?thesis unfolding a(2) by (rule grows_cross)
  qed
qed simp

text \<open>What the pop passes over is deleted; what it returns is not.\<close>

lemma pop_passive_spec:
  "pop_passive cl xs h = (r, h') \<Longrightarrow> case r of
     None \<Rightarrow> h' = h + length xs \<and> (\<forall>x \<in> set xs. cl ! x = None)
   | Some g \<Rightarrow> (\<exists>ys zs. xs = ys @ g # zs \<and> h' = h + length ys + 1 \<and> (\<forall>x \<in> set ys. cl ! x = None) \<and> cl ! g \<noteq> None)"
proof (induction cl xs h arbitrary: r h' rule: pop_passive.induct)
  case (2 cl c xs h)
  show ?case
  proof (cases "cl ! c = None")
    case True
    then have "pop_passive cl xs (h + 1) = (r, h')" using "2.prems" by simp
    then have ih: "case r of None \<Rightarrow> h' = h + 1 + length xs \<and> (\<forall>x \<in> set xs. cl ! x = None)
       | Some g \<Rightarrow> (\<exists>ys zs. xs = ys @ g # zs \<and> h' = h + 1 + length ys + 1 \<and> (\<forall>x \<in> set ys. cl ! x = None) \<and> cl ! g \<noteq> None)"
      using "2.IH" True by simp
    show ?thesis
    proof (cases r)
      case (Some g)
      then obtain ys zs where "xs = ys @ g # zs" "h' = h + 1 + length ys + 1" "\<forall>x \<in> set ys. cl ! x = None" "cl ! g \<noteq> None"
        using ih by auto
      then have "c # xs = (c # ys) @ g # zs \<and> h' = h + length (c # ys) + 1 \<and> (\<forall>x \<in> set (c # ys). cl ! x = None) \<and> cl ! g \<noteq> None"
        using True by simp
      then show ?thesis unfolding Some option.case by blast
    qed (use ih True in auto)
  next
    case False
    then have "r = Some c" "h' = h + 1" using "2.prems" by auto
    moreover have "c # xs = [] @ c # xs" by simp
    ultimately show ?thesis using False by fastforce
  qed
qed auto

text \<open>The state a step works on: the given clause has become active.\<close>

definition with_given :: "cnf_state \<Rightarrow> nat \<Rightarrow> nat \<Rightarrow> cnf_state" where
  "with_given s g head = s\<lparr>cnf_passive_head := head, cnf_active := cnf_active s @ [g]\<rparr>"

definition after_self :: "cnf_state \<Rightarrow> nat \<Rightarrow> nat \<Rightarrow> cnf_state" where
  "after_self s g head = while_running
    [\<lambda>s. cnf_gen_factoring s g, \<lambda>s. cnf_gen_reflex s g, \<lambda>s. cnf_gen_eq_factoring s g, \<lambda>s. cnf_gen_paramod s g g]
    (with_given s g head)"

definition after_cross :: "cnf_state \<Rightarrow> nat \<Rightarrow> cnf_state" where
  "after_cross s g = while_running (map (cross_inferences g) (butlast (cnf_active s))) s"

lemma cnf_step_cases:
  obtains (stopped) "cnf_status s \<noteq> ATP_RUNNING" "cnf_step s = s"
  | (capped) "cnf_status s = ATP_RUNNING" "cnf_step_cap s \<le> cnf_steps s" "cnf_step s = s\<lparr>cnf_status := ATP_ABORTED\<rparr>"
  | (exhausted) head where "cnf_status s = ATP_RUNNING" "cnf_steps s < cnf_step_cap s"
      "pop_passive (cnf_clauses s) (drop (cnf_passive_head s) (cnf_passive s)) (cnf_passive_head s) = (None, head)"
      "cnf_step s = s\<lparr>cnf_passive_head := head, cnf_status := ATP_QUEUE_EMPTY\<rparr>"
  | (given) g head where "cnf_status s = ATP_RUNNING" "cnf_steps s < cnf_step_cap s"
      "pop_passive (cnf_clauses s) (drop (cnf_passive_head s) (cnf_passive s)) (cnf_passive_head s) = (Some g, head)"
      "cnf_step s = (let s1 = after_self s g head
         in if cnf_status s1 \<noteq> ATP_RUNNING then s1
            else if cnf_clauses s1 ! g = None then cnf_flush_deferred (s1\<lparr>cnf_steps := cnf_steps s1 + 1\<rparr>)
            else let s2 = after_cross s1 g
                 in if cnf_status s2 \<noteq> ATP_RUNNING then s2
                    else cnf_flush_deferred (s2\<lparr>cnf_steps := cnf_steps s2 + 1\<rparr>))"
proof -
  obtain r head where p: "pop_passive (cnf_clauses s) (drop (cnf_passive_head s) (cnf_passive s)) (cnf_passive_head s) = (r, head)"
    by fastforce
  show ?thesis
  proof (cases "cnf_status s = ATP_RUNNING \<and> cnf_steps s < cnf_step_cap s")
    case False
    then show ?thesis using stopped capped by (cases "cnf_status s = ATP_RUNNING") (simp_all add: cnf_step_def)
  next
    case True
    show ?thesis
    proof (cases r)
      case None
      then show ?thesis using exhausted [of head] True p by (simp add: cnf_step_def)
    next
      case (Some g)
      then show ?thesis
        using given [of g head] True p
        by (simp add: cnf_step_def after_self_def after_cross_def with_given_def Let_def)
    qed
  qed
qed

lemma after_frame:
  "cnf_steps (after_self s g head) = cnf_steps s" "cnf_step_cap (after_self s g head) = cnf_step_cap s"
  "cnf_steps (after_cross s g) = cnf_steps s" "cnf_step_cap (after_cross s g) = cnf_step_cap s"
  using grows_self [of False g "with_given s g head"] grows_crosses [of False g s "butlast (cnf_active s)"]
  by (simp_all add: after_self_def after_cross_def grows_def with_given_def)

lemma after_status:
  "cnf_status (after_self s g head) \<in> {cnf_status s, ATP_PROVED}"
  "cnf_status (after_cross s g) \<in> {cnf_status s, ATP_PROVED}"
  using grows_self [of False g "with_given s g head"] grows_crosses [of False g s "butlast (cnf_active s)"]
  by (simp_all add: after_self_def after_cross_def grows_def with_given_def)

text \<open>A step ends the run or counts.\<close>

lemma cnf_step_progress:
  "cnf_status (cnf_step s) = ATP_RUNNING \<Longrightarrow>
     cnf_steps s < cnf_step_cap s \<and> cnf_steps (cnf_step s) = Suc (cnf_steps s) \<and> cnf_step_cap (cnf_step s) = cnf_step_cap s"
  by (cases rule: cnf_step_cases [of s]) (auto simp: Let_def cnf_flush_deferred_def after_frame split: if_splits)

section \<open>The run\<close>

function cnf_run :: "cnf_state \<Rightarrow> cnf_state" where
  "cnf_run s =
     (if cnf_status s = ATP_RUNNING
      then let s' = cnf_step s in if cnf_status s' \<noteq> ATP_RUNNING then s' else cnf_run s'
      else s)"
  by pat_completeness auto
termination
  by (relation "measure (\<lambda>s. cnf_step_cap s - cnf_steps s)") (auto dest!: cnf_step_progress)

declare cnf_run.simps [simp del]

end
