(* ===== verification/FOL_Sat_Props.thy ===== *)
theory FOL_Sat_Props
  imports FOL_Sat
begin

text \<open>
  What the saturation loop guarantees: it keeps its shape, every stored clause holds in every
  equality structure of the clauses it was given, so a proved status means that there is none,
  it ends within its step bound, and an empty queue means that every clause left was given.
\<close>

declare fol_resolve.simps [simp del] and fol_factor.simps [simp del] and fol_reflex_resolve.simps [simp del]
  and fol_eq_factor.simps [simp del] and fol_paramodulate.simps [simp del]

section \<open>Soundness\<close>

definition good :: "'d interp \<Rightarrow> fol_clause \<Rightarrow> bool" where
  "good I c \<longleftrightarrow> clause_ok c \<and> clause_valid I c"

text \<open>All stored clauses are good; no empty clause was found.\<close>

definition sat_sound :: "'d interp \<Rightarrow> cnf_state \<Rightarrow> bool" where
  "sat_sound I s \<longleftrightarrow> (\<forall>c. Some c \<in> set (cnf_clauses s) \<longrightarrow> good I c) \<and> cnf_status s \<noteq> ATP_PROVED"

lemma good_not_empty [simp]: "\<not> good I []"
  by (simp add: good_def clause_valid_def clause_holds_def)

lemma sat_sound_nth: "sat_sound I s \<Longrightarrow> cnf_clauses s ! i = Some c \<Longrightarrow> i < length (cnf_clauses s) \<Longrightarrow> good I c"
  unfolding sat_sound_def by (metis nth_mem)

subsection \<open>Demodulation\<close>

lemma ordered_root_keeps:
  assumes "ordered_root s a l r = Some (b, moved)" and "ar_ok a" and "ar_ok r" and "\<forall>v. teval I v l = teval I v r"
  shows "keeps_value I a b"
proof -
  obtain m \<sigma> where m: "thvm_match l a Map.empty = (m, \<sigma>)" by fastforce
  then have "fol_rewrite_at_root a l r = (b, moved)"
    using assms(1) by (auto simp: ordered_root_def fol_rewrite_at_root_def Let_def split: if_splits)
  then show ?thesis using keeps_value_root assms(2-4) by blast
qed

lemma cnf_rewrite_once_keeps:
  "ar_ok a \<Longrightarrow> ar_ok r \<Longrightarrow> \<forall>v. teval I v l = teval I v r \<Longrightarrow> keeps_value I a (fst (cnf_rewrite_once s a l r))"
proof (induction a)
  case (CTR f ts)
  show ?case
  proof (cases "ordered_root s (CTR f ts) l r")
    case None
    have "keeps_value I (CTR f ts) (CTR f (map (\<lambda>u. fst (cnf_rewrite_once s u l r)) ts))"
      using CTR by (intro keeps_value_CTR) (auto simp: list_all2_map2 list_all2_same list_all_iff)
    then show ?thesis using None CTR.prems(1) by (auto simp: comp_def Let_def)
  next
    case (Some x)
    then show ?thesis using ordered_root_keeps [of s "CTR f ts" l r "fst x" "snd x" I] CTR.prems by auto
  qed
next
  case (FVR x)
  then show ?case using ordered_root_keeps [of s "FVR x" l r _ _ I] by (auto split: option.split)
next
  case (ATM g e v)
  then show ?case using ordered_root_keeps [of s "ATM g e v" l r _ _ I] by (auto split: option.split)
qed

lemma demodulate_ordered_good:
  assumes "cnf_demodulate_ordered s (Some eqc) (Some c) = Some d" and "good I eqc" and "good I c" and "eq_interp I"
  shows "good I d"
proof -
  obtain l r where lr: "unit_equation eqc = Some (l, r)" "demod_lits (\<lambda>a. cnf_rewrite_once s a l r) c = Some d"
    using assms(1) by (auto split: option.splits)
  have ok: "clause_ok eqc" "clause_ok c" "clause_valid I eqc" "clause_valid I c" using assms(2,3) by (auto simp: good_def)
  have k: "keeps_value I a (fst (cnf_rewrite_once s a l r))" if "ar_ok a" for a
    using cnf_rewrite_once_keeps [OF that] unit_equation_sides [OF lr(1) ok(1)] ok(3) assms(4) by blast
  show ?thesis using demod_lits_valid [OF lr(2) ok(2) k] ok(4) by (simp add: good_def)
qed

lemma demod_round_good:
  assumes "demod_round s as c = Some d" and "sat_sound I s" and "set as \<subseteq> {..<length (cnf_clauses s)}"
    and "good I c" and "eq_interp I"
  shows "good I d"
  using assms(1,3)
proof (induction as)
  case (Cons a as)
  show ?case
  proof (cases "cnf_demodulate_ordered s (cnf_clauses s ! a) (Some c)")
    case (Some e)
    then obtain r where r: "cnf_clauses s ! a = Some r" by (cases "cnf_clauses s ! a") auto
    have "good I r" using sat_sound_nth [OF assms(2) r] Cons.prems(2) by auto
    then show ?thesis using demodulate_ordered_good [of s r c e I] Some r Cons.prems(1) assms(4,5) by simp
  qed (use Cons in auto)
qed simp

lemma forward_demod_good:
  assumes "sat_sound I s" and "sat_wf s" and "good I c" and "eq_interp I"
  shows "good I (cnf_forward_demod s c)"
proof -
  have act: "set (cnf_active s) \<subseteq> {..<length (cnf_clauses s)}" using assms(2) by (auto simp: sat_wf_def)
  have "good I c \<Longrightarrow> good I (forward_demod_loop n s c)" for n c
    by (induction n arbitrary: c) (auto split: option.split intro: demod_round_good [OF _ assms(1) act _ assms(4)])
  then show ?thesis using assms(3) by (simp add: cnf_forward_demod_def)
qed

subsection \<open>The filters and the store\<close>

lemma sat_sound_add: "sat_sound I s \<Longrightarrow> good I c \<Longrightarrow> sat_sound I (fst (cnf_add_clause_traced s (Some c) rule pa pb))"
  by (auto simp: sat_sound_def cnf_add_clause_traced_def Let_def)

lemma sat_sound_clear: "sat_sound I s \<Longrightarrow> sat_sound I (clear_slot s i old)"
  by (auto simp: sat_sound_def clear_slot_def dest!: set_update_subset_insert [THEN subsetD])

lemma backward_subsume_sound: "sat_sound I s \<Longrightarrow> sat_sound I (cnf_backward_subsume s new_id)"
proof -
  have "sat_sound I s \<Longrightarrow> sat_sound I (backward_subsume_loop c new_id is s)" for c "is" s
    by (induction "is" arbitrary: s) (auto split: option.split intro: sat_sound_clear)
  then show "sat_sound I s \<Longrightarrow> sat_sound I (cnf_backward_subsume s new_id)"
    by (simp add: cnf_backward_subsume_def split: option.split)
qed

lemma backward_demod_loop_sound:
  assumes "eq_interp I" and "good I rule"
  shows "sat_sound I s \<Longrightarrow> set is \<subseteq> {..<length (cnf_clauses s)} \<Longrightarrow> sat_sound I (backward_demod_loop rule new_id is s)"
proof (induction "is" arbitrary: s)
  case (Cons i "is")
  show ?case
  proof (cases "i = new_id \<or> cnf_clauses s ! i = None
      \<or> cnf_demodulate_ordered s (Some rule) (cnf_clauses s ! i) = None")
    case True
    then show ?thesis using Cons by (auto split: option.splits)
  next
    case False
    then obtain old d where d: "cnf_clauses s ! i = Some old" "cnf_demodulate_ordered s (Some rule) (Some old) = Some d"
        "i \<noteq> new_id" by auto
    let ?s = "clear_slot s i old"
    let ?t = "fst (cnf_add_clause_traced ?s (Some d) FOL_INF_DEMOD (Some new_id) (Some i))"
    have gd: "good I d"
      using demodulate_ordered_good [OF d(2) assms(2) _ assms(1)] sat_sound_nth [OF Cons.prems(1) d(1)] Cons.prems(2) by simp
    then have ne: "d \<noteq> []" by auto
    have s: "sat_sound I ?s" "set is \<subseteq> {..<length (cnf_clauses ?s)}"
      using sat_sound_clear Cons.prems by (auto simp: clear_slot_def)
    moreover have "sat_sound I ?t" using sat_sound_add [OF s(1) gd] .
    moreover have "set is \<subseteq> {..<length (cnf_clauses ?t)}" using s(2) by (auto simp: cnf_add_clause_traced_def Let_def)
    ultimately show ?thesis
      using d ne Cons.IH [of ?s] Cons.IH [of ?t] by (simp add: Let_def del: cnf_demodulate_ordered.simps)
  qed
qed simp

lemma backward_demod_sound:
  assumes "eq_interp I" and "sat_sound I s" and "new_id < length (cnf_clauses s)"
  shows "sat_sound I (cnf_backward_demod s new_id)"
proof (cases "cnf_clauses s ! new_id")
  case (Some rule)
  have g: "good I rule" using sat_sound_nth assms(2,3) Some by blast
  have sub: "set [0..<length (cnf_clauses s)] \<subseteq> {..<length (cnf_clauses s)}" by auto
  show ?thesis using backward_demod_loop_sound [OF assms(1) g assms(2) sub] assms(2) Some
    by (simp add: cnf_backward_demod_def)
qed (use assms in \<open>simp add: cnf_backward_demod_def\<close>)

text \<open>A good clause may be considered.\<close>

lemma consider_sound:
  assumes "eq_interp I" and "sat_sound I s" and "sat_wf s" and "\<And>d. c = Some d \<Longrightarrow> good I d"
  shows "sat_sound I (cnf_consider s c rule pa pb)"
proof (cases c)
  case (Some d)
  let ?d = "cnf_forward_demod s d" and ?id = "length (cnf_clauses s)"
  let ?t = "fst (cnf_add_clause_traced s (Some ?d) rule pa pb)"
  have gd: "good I ?d" using forward_demod_good assms Some by blast
  then have ne: "?d \<noteq> []" by auto
  have t: "sat_sound I ?t" using sat_sound_add [OF assms(2) gd] .
  have "?id < length (cnf_clauses ?t)" by (simp add: cnf_add_clause_traced_def Let_def)
  then have "?id < length (cnf_clauses (cnf_backward_subsume ?t ?id))"
    using grows_length [OF grows_backward_subsume [of True]] by blast
  then have "sat_sound I (cnf_backward_demod (cnf_backward_subsume ?t ?id) ?id)"
    using backward_demod_sound [OF assms(1) backward_subsume_sound [OF t]] by blast
  then show ?thesis using assms(2) ne Some by (auto simp: Let_def cnf_add_clause_traced_def)
qed (use assms in simp)

subsection \<open>The inferences\<close>

text \<open>The contract of the inferences is what the loop needs to consider their conclusions.\<close>

context fol_inference
begin

lemma consider_infer:
  assumes "eq_interp I" and "\<forall>c \<in> set (prems p). good I c" and "sat_sound I s" and "sat_wf s"
  shows "sat_sound I (cnf_consider s (infer p) rule pa pb)"
proof (rule consider_sound [OF assms(1,3,4)])
  show "good I d" if "infer p = Some d" for d
    using infer_ok [OF that] infer_sound [OF assms(1) that] assms(2) by (auto simp: good_def)
qed

end

text \<open>Soundness and shape together, relative to the state the ids come from.\<close>

definition sat_inv :: "'d interp \<Rightarrow> cnf_state \<Rightarrow> cnf_state \<Rightarrow> bool" where
  "sat_inv I s t \<longleftrightarrow> grows True s t \<and> sat_wf t \<and> sat_sound I t"

lemma sat_inv_refl: "sat_wf s \<Longrightarrow> sat_sound I s \<Longrightarrow> sat_inv I s s"
  by (simp add: sat_inv_def)

lemma sat_inv_consider:
  assumes "sat_inv I s t" and "sat_sound I (cnf_consider t c rule pa pb)"
    and "set_option pa \<union> set_option pb \<subseteq> {..<length (cnf_clauses s)}"
  shows "sat_inv I s (cnf_consider t c rule pa pb)"
proof -
  have "grows True t (cnf_consider t c rule pa pb)"
    using assms(1,3) by (intro grows_consider) (auto simp: sat_inv_def grows_def)
  then show ?thesis using assms(1,2) grows_trans [of True s t] by (auto simp: sat_inv_def grows_def)
qed

lemma while_running_inv:
  "(\<And>f t. f \<in> set fs \<Longrightarrow> sat_inv I s t \<Longrightarrow> sat_inv I s (f t)) \<Longrightarrow> sat_inv I s t \<Longrightarrow> sat_inv I s (while_running fs t)"
  by (induction fs arbitrary: t) (auto simp: Let_def)

lemma walk_inv:
  "(\<And>p t. sat_inv I s t \<Longrightarrow> sat_inv I s (cb p t)) \<Longrightarrow> sat_inv I s t \<Longrightarrow> sat_inv I s (cnf_walk_positions cb d u path t)"
proof (induction u arbitrary: d path t)
  case (CTR l us)
  have "sat_inv I s (fold (\<lambda>(i, u). cnf_walk_positions cb d' u (path @ [i])) ius t')"
    if "set ius \<subseteq> set (zip [0..<length us] us)" "sat_inv I s t'" for ius t' d'
    using that
  proof (induction ius arbitrary: t')
    case (Cons iu ius)
    obtain i u where iu: "iu = (i, u)" by fastforce
    then have "u \<in> set us" using Cons.prems(1) set_zip_rightD by fastforce
    then have "sat_inv I s (cnf_walk_positions cb d' u (path @ [i]) t')" using CTR.IH CTR.prems(1) Cons.prems(2) by blast
    then show ?case using Cons iu by simp
  qed simp
  then show ?case using CTR.prems by (simp add: Let_def split: nat.split)
qed simp_all

lemma gens_inv:
  assumes I: "eq_interp I" and inv: "sat_inv I s0 s" and ids: "a < length (cnf_clauses s0)" "b < length (cnf_clauses s0)"
  shows "sat_inv I s0 (cnf_gen_resolution s a b)" and "sat_inv I s0 (cnf_gen_factoring s a)"
    and "sat_inv I s0 (cnf_gen_reflex s a)" and "sat_inv I s0 (cnf_gen_eq_factoring s a)"
    and "sat_inv I s0 (cnf_gen_paramod s a b)"
proof -
  have s: "sat_sound I s" "a < length (cnf_clauses s)" "b < length (cnf_clauses s)"
    using inv ids grows_length unfolding sat_inv_def by blast+
  have good: "cnf_clauses s ! a = Some c \<Longrightarrow> good I c" "cnf_clauses s ! b = Some c \<Longrightarrow> good I c" for c
    using sat_sound_nth s by blast+
  have one: "sat_inv I s0 (cnf_consider t c rule (Some a) None)"
    if "sat_inv I s0 t" "sat_sound I (cnf_consider t c rule (Some a) None)" for t c rule
    using that ids by (intro sat_inv_consider) auto
  have two: "sat_inv I s0 (cnf_consider t c rule (Some a) (Some b))"
    if "sat_inv I s0 t" "sat_sound I (cnf_consider t c rule (Some a) (Some b))" for t c rule
    using that ids by (intro sat_inv_consider) auto
  have st: "sat_inv I s0 t \<Longrightarrow> sat_sound I t" "sat_inv I s0 t \<Longrightarrow> sat_wf t" for t by (auto simp: sat_inv_def)
  have res: "sat_inv I s0 (cnf_consider t (fol_resolve (Some c) i (Some d) j) rule (Some a) (Some b))"
    if "sat_inv I s0 t" "good I c" "good I d" for t c d i j rule
    using that resolution.consider_infer [OF I, of "(c, i, d, j)" t rule] st by (intro two) auto
  have fac: "sat_inv I s0 (cnf_consider t (fol_factor (Some c) i j) rule (Some a) None)"
    if "sat_inv I s0 t" "good I c" for t c i j rule
    using that factoring.consider_infer [OF I, of "(c, i, j)" t rule] st by (intro one) auto
  have ref: "sat_inv I s0 (cnf_consider t (fol_reflex_resolve (Some c) i) rule (Some a) None)"
    if "sat_inv I s0 t" "good I c" for t c i rule
    using that reflexivity.consider_infer [OF I, of "(c, i)" t rule] st by (intro one) auto
  have eqf: "sat_inv I s0 (cnf_consider t (fol_eq_factor (Some c) i j) rule (Some a) None)"
    if "sat_inv I s0 t" "good I c" for t c i j rule
    using that eq_factoring.consider_infer [OF I, of "(c, i, j)" t rule] st by (intro one) auto
  have par: "sat_inv I s0 (cnf_consider t (fol_paramodulate (Some c) i sw (Some d) j p) rule (Some a) (Some b))"
    if "sat_inv I s0 t" "good I c" "good I d" for t c d i sw j p rule
    using that paramodulation.consider_infer [OF I, of "(c, i, sw, d, j, p)" t rule] st by (intro two) auto
  have pos: "sat_inv I s0 (cnf_paramod_at_pos c i a d j b p t)" if "sat_inv I s0 t" "good I c" "good I d" for c i d j p t
    using par [OF par [OF that(1)]] par [OF that(1)] that by (auto simp: cnf_paramod_at_pos_def Let_def)
  show "sat_inv I s0 (cnf_gen_resolution s a b)"
    unfolding cnf_gen_resolution_def using inv good
    by (auto simp: Let_def split: option.split intro!: while_running_inv res)
  show "sat_inv I s0 (cnf_gen_factoring s a)"
    unfolding cnf_gen_factoring_def using inv good by (auto split: option.split intro!: while_running_inv fac)
  show "sat_inv I s0 (cnf_gen_reflex s a)"
    unfolding cnf_gen_reflex_def using inv good by (auto split: option.split intro!: while_running_inv ref)
  show "sat_inv I s0 (cnf_gen_eq_factoring s a)"
    unfolding cnf_gen_eq_factoring_def using inv good by (auto split: option.split intro!: while_running_inv eqf)
  show "sat_inv I s0 (cnf_gen_paramod s a b)"
    unfolding cnf_gen_paramod_def using inv good
    by (auto simp: Let_def split: option.split intro!: while_running_inv walk_inv pos)
qed

section \<open>A step\<close>

lemma pop_given:
  assumes "sat_wf s"
    and "pop_passive (cnf_clauses s) (drop (cnf_passive_head s) (cnf_passive s)) (cnf_passive_head s) = (Some g, head)"
  shows "sat_wf (with_given s g head)" and "g < length (cnf_clauses s)"
proof -
  let ?n = "length (cnf_clauses s)" and ?h = "cnf_passive_head s"
  have q: "drop ?h (cnf_passive s) = [?h..<?n]" using assms(1) by (simp add: sat_wf_def)
  obtain ys zs where p: "[?h..<?n] = ys @ g # zs" "head = ?h + length ys + 1"
      "\<forall>x \<in> set ys. cnf_clauses s ! x = None"
    using pop_passive_spec [OF assms(2)] unfolding q by auto
  have len: "length ys < ?n - ?h" using arg_cong [OF p(1), of length] by simp
  have g: "g = ?h + length ys" using arg_cong [OF p(1), of "\<lambda>xs. xs ! length ys"] len by simp
  have ys: "ys = [?h..<g]"
    using arg_cong [OF p(1), of "take (length ys)"] len by (simp add: g take_upt)
  have skipped: "cnf_clauses s ! i = None" if "?h \<le> i" "i < g" for i using p(3) that ys by simp
  show "g < ?n" using g len by simp
  have act: "set (cnf_active s) \<subseteq> {..<?h}" "\<And>i. i < ?h \<Longrightarrow> cnf_clauses s ! i \<noteq> None \<Longrightarrow> i \<in> set (cnf_active s)"
    using assms(1) by (auto simp: sat_wf_def)
  have hg: "head = Suc g" "?h \<le> g" using p(2) g by simp_all
  have d: "distinct (cnf_active s)" using assms(1) by (simp add: sat_wf_def)
  have below: "i < g" if "i \<in> set (cnf_active s)" for i
    using subsetD [OF act(1) that] hg(2) by (simp only: lessThan_iff less_le_trans)
  have "set (cnf_active s @ [g]) \<subseteq> {..<head}" "distinct (cnf_active s @ [g])"
    unfolding hg(1) using below d by (auto intro: less_SucI)
  moreover have "i \<in> set (cnf_active s @ [g])" if "i < head" "cnf_clauses s ! i \<noteq> None" for i
  proof (cases "i < ?h \<or> i = g")
    case False
    then have "?h \<le> i" "i < g" using that(1) hg by auto
    from skipped [OF this] that(2) show ?thesis by simp
  next
    case True
    then show ?thesis using act(2) [OF _ that(2)] by auto
  qed
  ultimately show "sat_wf (with_given s g head)"
    using assms(1) hg \<open>g < ?n\<close> by (simp add: sat_wf_def with_given_def)
qed

lemma pop_exhausted:
  assumes "sat_wf s"
    and "pop_passive (cnf_clauses s) (drop (cnf_passive_head s) (cnf_passive s)) (cnf_passive_head s) = (None, head)"
  shows "head = length (cnf_clauses s)" and "\<And>i. cnf_passive_head s \<le> i \<Longrightarrow> i < length (cnf_clauses s) \<Longrightarrow> cnf_clauses s ! i = None"
  using pop_passive_spec [OF assms(2)] assms(1) by (auto simp: sat_wf_def)

lemma butlast_active: "sat_wf s \<Longrightarrow> set (butlast (cnf_active s)) \<subseteq> {..<length (cnf_clauses s)}"
  using in_set_butlastD by (fastforce simp: sat_wf_def)

lemma with_given_simps [simp]:
  "cnf_clauses (with_given s g h) = cnf_clauses s" "cnf_status (with_given s g h) = cnf_status s"
  by (simp_all add: with_given_def)

lemma sat_wf_simps [simp]:
  "sat_wf (cnf_flush_deferred s) = sat_wf s" "sat_wf (s\<lparr>cnf_steps := k\<rparr>) = sat_wf s"
  by (simp_all add: sat_wf_def cnf_flush_deferred_def)

lemma sat_sound_simps [simp]:
  "sat_sound I (cnf_flush_deferred s) = sat_sound I s" "sat_sound I (s\<lparr>cnf_steps := k\<rparr>) = sat_sound I s"
  "sat_sound I (with_given s g h) = sat_sound I s"
  by (simp_all add: sat_sound_def cnf_flush_deferred_def)

lemma after_self_wf:
  assumes "sat_wf (with_given s g h)" and "g < length (cnf_clauses s)"
  shows "sat_wf (after_self s g h)" and "g < length (cnf_clauses (after_self s g h))"
  using grows_self [of True g "with_given s g h"] assms by (auto simp: grows_def after_self_def)

lemma after_cross_wf:
  assumes "sat_wf s" and "g < length (cnf_clauses s)"
  shows "sat_wf (after_cross s g)"
  using grows_crosses [of True g s "butlast (cnf_active s)"] butlast_active [OF assms(1)] assms
  by (auto simp: grows_def after_cross_def)

lemma cnf_step_wf:
  assumes "sat_wf s"
  shows "sat_wf (cnf_step s)"
proof (cases rule: cnf_step_cases [of s])
  case (exhausted head)
  have "i \<in> set (cnf_active s)" if "i < length (cnf_clauses s)" "cnf_clauses s ! i \<noteq> None" for i
    using that assms pop_exhausted(2) [OF assms exhausted(3), of i]
    by (cases "i < cnf_passive_head s") (auto simp: sat_wf_def)
  then have "sat_wf (s\<lparr>cnf_passive_head := length (cnf_clauses s)\<rparr>)"
    using assms by (force simp: sat_wf_def)
  then show ?thesis using exhausted(4) pop_exhausted(1) [OF assms exhausted(3)]
    by (simp add: sat_wf_def)
next
  case (given g head)
  note p = pop_given [OF assms given(3)]
  have "sat_wf (after_self s g head)" "sat_wf (after_cross (after_self s g head) g)"
    using after_self_wf [OF p] after_cross_wf by blast+
  then show ?thesis using given(4) by (auto simp: Let_def)
qed (use assms in auto)

lemma after_self_sound:
  assumes "eq_interp I" and "sat_wf (with_given s g h)" and "sat_sound I s" and "g < length (cnf_clauses s)"
  shows "sat_inv I (with_given s g h) (after_self s g h)"
  unfolding after_self_def
proof (rule while_running_inv)
  show "sat_inv I (with_given s g h) (f t)"
    if "f \<in> set [\<lambda>s. cnf_gen_factoring s g, \<lambda>s. cnf_gen_reflex s g, \<lambda>s. cnf_gen_eq_factoring s g, \<lambda>s. cnf_gen_paramod s g g]"
      "sat_inv I (with_given s g h) t" for f t
    using that gens_inv [OF assms(1) that(2), of g g] assms(4) by auto
qed (use assms in \<open>auto intro: sat_inv_refl\<close>)

lemma after_cross_sound:
  assumes "eq_interp I" and "sat_wf s" and "sat_sound I s" and "g < length (cnf_clauses s)"
  shows "sat_inv I s (after_cross s g)"
  unfolding after_cross_def
proof (rule while_running_inv)
  fix f t
  assume f: "f \<in> set (map (cross_inferences g) (butlast (cnf_active s)))" and t: "sat_inv I s t"
  then obtain a where a: "f = cross_inferences g a" "a < length (cnf_clauses s)" using butlast_active [OF assms(2)] by auto
  have "sat_inv I s (while_running
        [\<lambda>s. cnf_gen_resolution s g a, \<lambda>s. cnf_gen_resolution s a g, \<lambda>s. cnf_gen_paramod s g a, \<lambda>s. cnf_gen_paramod s a g] t)"
  proof (rule while_running_inv [OF _ t])
    show "sat_inv I s (k u)"
      if "k \<in> set [\<lambda>s. cnf_gen_resolution s g a, \<lambda>s. cnf_gen_resolution s a g, \<lambda>s. cnf_gen_paramod s g a, \<lambda>s. cnf_gen_paramod s a g]"
        "sat_inv I s u" for k u
      using that gens_inv [OF assms(1) that(2) assms(4) a(2)] gens_inv [OF assms(1) that(2) a(2) assms(4)] by auto
  qed
  then show "sat_inv I s (f t)" using t by (simp add: a(1) cross_inferences_def)
qed (use assms in \<open>auto intro: sat_inv_refl\<close>)

lemma cnf_step_sound:
  assumes "eq_interp I" and "sat_wf s" and "sat_sound I s"
  shows "sat_sound I (cnf_step s)"
proof (cases rule: cnf_step_cases [of s])
  case (given g head)
  note p = pop_given [OF assms(2) given(3)]
  let ?s = "after_self s g head"
  have s: "sat_sound I ?s" using after_self_sound [OF assms(1) p(1) assms(3) p(2)] by (simp add: sat_inv_def)
  then have "sat_sound I (after_cross ?s g)"
    using after_cross_sound [OF assms(1)] after_self_wf [OF p] by (simp add: sat_inv_def)
  then show ?thesis using s given(4) by (auto simp: Let_def)
qed (use assms in \<open>auto simp: sat_sound_def\<close>)

section \<open>The run\<close>

lemma cnf_run_ends: "cnf_status (cnf_run s) \<noteq> ATP_RUNNING"
  by (induction s rule: cnf_run.induct) (subst cnf_run.simps, auto simp: Let_def)

lemma cnf_run_inv:
  assumes "\<And>s. Q s \<Longrightarrow> Q (cnf_step s)"
  shows "Q s \<Longrightarrow> Q (cnf_run s)"
  using assms by (induction s rule: cnf_run.induct) (subst cnf_run.simps, auto simp: Let_def)

lemma cnf_run_steps: "cnf_steps (cnf_run s) \<le> max (cnf_steps s) (cnf_step_cap s)"
proof (induction s rule: cnf_run.induct)
  case (1 s)
  have le: "cnf_steps (cnf_step s) \<le> max (cnf_steps s) (cnf_step_cap s)"
    by (cases rule: cnf_step_cases [of s]) (auto simp: Let_def cnf_flush_deferred_def after_frame)
  show ?case
  proof (cases "cnf_status s = ATP_RUNNING \<and> cnf_status (cnf_step s) = ATP_RUNNING")
    case True
    then show ?thesis using "1.IH" [OF _ refl] cnf_step_progress [of s] by (subst cnf_run.simps) (simp add: Let_def)
  next
    case False
    then show ?thesis using le by (subst cnf_run.simps) (auto simp: Let_def)
  qed
qed

text \<open>How a step ends the run.\<close>

lemma cnf_step_status:
  "cnf_status s = ATP_RUNNING \<Longrightarrow> cnf_status (cnf_step s) \<in> {ATP_RUNNING, ATP_PROVED, ATP_QUEUE_EMPTY, ATP_ABORTED}
     \<and> (cnf_status (cnf_step s) = ATP_ABORTED \<longrightarrow> cnf_step_cap (cnf_step s) \<le> cnf_steps (cnf_step s))"
proof (cases rule: cnf_step_cases [of s])
  case (given g head)
  then show ?thesis
    using after_status(1) [of s g head] after_status(2) [of "after_self s g head" g]
    by (auto simp: Let_def cnf_flush_deferred_def)
qed auto

lemma cnf_run_status:
  "cnf_status s = ATP_RUNNING \<Longrightarrow> cnf_status (cnf_run s) \<in> {ATP_PROVED, ATP_QUEUE_EMPTY, ATP_ABORTED}
     \<and> (cnf_status (cnf_run s) = ATP_ABORTED \<longrightarrow> cnf_step_cap (cnf_run s) \<le> cnf_steps (cnf_run s))"
proof (induction s rule: cnf_run.induct)
  case (1 s)
  show ?case
  proof (cases "cnf_status (cnf_step s) = ATP_RUNNING")
    case True
    then show ?thesis using "1.IH" [OF 1(2) refl] 1(2) by (subst (1 2 3 4) cnf_run.simps) (simp add: Let_def)
  next
    case False
    then have "cnf_run s = cnf_step s" using 1(2) by (subst cnf_run.simps) (simp add: Let_def)
    then show ?thesis using cnf_step_status [OF 1(2)] False by auto
  qed
qed

text \<open>On an exhausted queue nothing waits.\<close>

definition drained :: "cnf_state \<Rightarrow> bool" where
  "drained s \<longleftrightarrow> (cnf_status s = ATP_QUEUE_EMPTY \<longrightarrow> cnf_passive_head s = length (cnf_clauses s))"

lemma cnf_step_drained: "sat_wf s \<Longrightarrow> drained s \<Longrightarrow> drained (cnf_step s)"
proof (cases rule: cnf_step_cases [of s])
  case (given g head)
  then show ?thesis
    using after_status(1) [of s g head] after_status(2) [of "after_self s g head" g]
    by (auto simp: Let_def drained_def cnf_flush_deferred_def)
next
  case (exhausted head)
  assume "sat_wf s"
  then show ?thesis using exhausted pop_exhausted(1) by (auto simp: drained_def)
qed (auto simp: drained_def)

lemma cnf_run_wf: "sat_wf s \<Longrightarrow> drained s \<Longrightarrow> sat_wf (cnf_run s) \<and> drained (cnf_run s)"
  using cnf_run_inv [of "\<lambda>s. sat_wf s \<and> drained s" s] cnf_step_wf cnf_step_drained by blast

lemma cnf_run_sound_aux:
  assumes "eq_interp I" and "sat_wf s" and "sat_sound I s"
  shows "sat_sound I (cnf_run s)"
  using cnf_run_inv [of "\<lambda>s. sat_wf s \<and> sat_sound I s" s] cnf_step_wf cnf_step_sound [OF assms(1)] assms(2,3) by blast

section \<open>Properties\<close>

text \<open>A prover set up by its interface: the clauses, the orderings and the selection.\<close>

definition cnf_load :: "cnf_state \<Rightarrow> fol_clause list \<Rightarrow> cnf_state" where
  "cnf_load s cs = fold (\<lambda>c s. fst (cnf_add_clause s (Some c))) cs s"

definition cnf_configure :: "kbo_config option \<Rightarrow> lpo_config option \<Rightarrow> rpo_config option \<Rightarrow> wpo_config option
    \<Rightarrow> cnf_selection \<Rightarrow> cnf_state \<Rightarrow> cnf_state" where
  "cnf_configure k l r w sel s = cnf_set_select (cnf_set_wpo (cnf_set_rpo (cnf_set_lpo (cnf_set_kbo s k) l) r) w) sel"

lemma cnf_load_spec:
  "cnf_clauses (cnf_load s cs) = cnf_clauses s @ map Some cs"
  "cnf_status (cnf_load s cs) = cnf_status s" "sat_wf s \<Longrightarrow> sat_wf (cnf_load s cs)"
proof -
  show "cnf_clauses (cnf_load s cs) = cnf_clauses s @ map Some cs"
    unfolding cnf_load_def by (induction cs arbitrary: s) (auto simp: cnf_add_clause_def cnf_add_clause_traced_def Let_def)
  show "cnf_status (cnf_load s cs) = cnf_status s"
    unfolding cnf_load_def by (induction cs arbitrary: s) (auto simp: cnf_add_clause_def cnf_add_clause_traced_def Let_def)
  have "sat_wf s \<Longrightarrow> sat_wf (fst (cnf_add_clause s (Some c)))" for s c
    using grows_add [of True None None s "Some c" FOL_INF_INPUT] by (simp add: grows_def cnf_add_clause_def)
  then show "sat_wf s \<Longrightarrow> sat_wf (cnf_load s cs)"
    unfolding cnf_load_def by (induction cs arbitrary: s) auto
qed

lemma cnf_configure_simps [simp]:
  "cnf_clauses (cnf_configure k l r w sel s) = cnf_clauses s" "cnf_status (cnf_configure k l r w sel s) = cnf_status s"
  "sat_wf (cnf_configure k l r w sel s) = sat_wf s"
  by (simp_all add: cnf_configure_def cnf_set_kbo_def cnf_set_lpo_def cnf_set_rpo_def cnf_set_wpo_def
      cnf_set_select_def sat_wf_def)

lemma cnf_init_simps [simp]:
  "cnf_clauses (cnf_init env cap) = []" "cnf_status (cnf_init env cap) = ATP_RUNNING" "sat_wf (cnf_init env cap)"
  by (simp_all add: cnf_init_def sat_wf_def)

lemma cnf_run_refutes:
  assumes "\<forall>c \<in> set cs. clause_ok c \<and> clause_valid I c" and "eq_interp I"
  shows "cnf_status (cnf_run (cnf_configure k l r w sel (cnf_load (cnf_init env cap) cs))) \<noteq> ATP_PROVED"
proof -
  have "sat_sound I (cnf_configure k l r w sel (cnf_load (cnf_init env cap) cs))"
    using assms(1) by (auto simp: sat_sound_def good_def cnf_load_spec)
  then show ?thesis using cnf_run_sound_aux [OF assms(2)] by (simp add: sat_sound_def cnf_load_spec)
qed


definition env0 :: sat_env where "env0 = \<lparr>env_vortest = False, env_flatrec = True, env_oob = \<lambda>_. 0\<rparr>"

definition socrates :: "fol_clause list" where
  "socrates = [[Neg (CTR 5 [FVR 0]), Pos (CTR 6 [FVR 0])], [Pos (CTR 5 [CTR 7 []])], [Neg (CTR 6 [FVR 1])]]"


text \<open>C23: the run ends. From a running state the loop stops with the status proved, exhausted or
  aborted, aborted only when the step count has reached the cap, and it never counts beyond the
  cap.\<close>
theorem cnf_run_terminates:
  assumes "cnf_status s = ATP_RUNNING"
  shows "cnf_status (cnf_run s) \<in> {ATP_PROVED, ATP_QUEUE_EMPTY, ATP_ABORTED}
    \<and> (cnf_status (cnf_run s) = ATP_ABORTED \<longrightarrow> cnf_step_cap (cnf_run s) \<le> cnf_steps (cnf_run s))
    \<and> cnf_steps (cnf_run s) \<le> max (cnf_steps s) (cnf_step_cap s)"
  using cnf_run_status [OF assms] cnf_run_steps by blast

theorem cnf_run_terminates_witness:
  "cnf_steps (cnf_run (cnf_load (cnf_init env0 9) socrates)) \<le> 9"
proof -
  have "cnf_status (cnf_load (cnf_init env0 9) socrates) = ATP_RUNNING" by (simp add: cnf_load_spec)
  from cnf_run_terminates [OF this]
  have "cnf_steps (cnf_run (cnf_load (cnf_init env0 9) socrates))
      \<le> max (cnf_steps (cnf_load (cnf_init env0 9) socrates)) (cnf_step_cap (cnf_load (cnf_init env0 9) socrates))"
    by blast
  also have "\<dots> = 9" by code_simp
  finally show ?thesis .
qed

text \<open>C24: the shape of the state. Run from a well-formed state, the loop leaves every id queued
  once in order, the trace parallel to the store with parents of smaller ids only (so the
  derivation has no cycles), and no id active twice; if the queue is exhausted, every clause
  that is still stored has been a given clause.\<close>
theorem cnf_run_shape:
  assumes "sat_wf s" and "cnf_status s = ATP_RUNNING"
  shows "cnf_passive (cnf_run s) = [0..<length (cnf_clauses (cnf_run s))]
    \<and> length (cnf_trace (cnf_run s)) = length (cnf_clauses (cnf_run s))
    \<and> (\<forall>i < length (cnf_clauses (cnf_run s)). \<forall>p \<in> tr_parents (cnf_trace (cnf_run s) ! i). p < i)
    \<and> distinct (cnf_active (cnf_run s))
    \<and> (cnf_status (cnf_run s) = ATP_QUEUE_EMPTY \<longrightarrow>
        (\<forall>i < length (cnf_clauses (cnf_run s)). cnf_clauses (cnf_run s) ! i \<noteq> None \<longrightarrow> i \<in> set (cnf_active (cnf_run s))))"
proof -
  have "drained s" using assms(2) by (simp add: drained_def)
  then have "sat_wf (cnf_run s)" "drained (cnf_run s)" using cnf_run_wf [OF assms(1)] by blast+
  then show ?thesis by (auto simp: sat_wf_def drained_def)
qed

theorem cnf_run_shape_witness:
  "distinct (cnf_active (cnf_run (cnf_load (cnf_init env0 9) socrates)))"
  using cnf_run_shape [of "cnf_load (cnf_init env0 9) socrates"] by (simp add: cnf_load_spec)

text \<open>
  An empty clause among the inputs is not noticed: only derived clauses are tested, so the run
  ends with an exhausted queue although the clauses are unsatisfiable.
\<close>

lemma cnf_empty_input_missed:
  "cnf_status (cnf_run (cnf_load (cnf_init env0 9) [[]])) = ATP_QUEUE_EMPTY \<and> \<not> clause_valid I []"
  by (rule conjI, code_simp) (simp add: clause_valid_def clause_holds_def)

end
