(* ===== verification/FOL_Refute.thy ===== *)
theory FOL_Refute
  imports FOL_Tseitin FOL_Sat_Props
begin

text \<open>
  The pipeline and the saturation loop together: a formula whose clauses the loop refutes has no
  model with equality, whichever conversion made the clauses.
\<close>

lemma eq_interp_same_off: "same_off L I J \<Longrightarrow> FOL_LAB_EQ \<notin> L \<Longrightarrow> eq_interp I \<Longrightarrow> eq_interp J"
  by (simp add: same_off_def eq_interp_def)

lemma eq_lab_low: "FOL_LAB_EQ \<notin> - base_labs" "FOL_LAB_EQ \<notin> aux_labs"
  by (simp_all add: base_labs_def FOL_LAB_EQ_def FOL_LAB_SKOLEM_BASE_def aux_labs_eq ts_labs_def)

text \<open>A model of the formula carries over to its skolem form.\<close>

lemma skolem_model:
  fixes I :: "'d interp"
  assumes "skolem_input (fol_nnf f)" and "eq_interp I" and "fol_holds I v f"
    and "fol_skolemize (fol_nnf f) fol_reset_skolem = Some (g, n)"
  shows "is_qf g \<and> ar_ok g \<and> (\<exists>J :: 'd interp. same_off (- base_labs) I J \<and> eq_interp J \<and> (\<forall>w. fol_holds J w g))"
proof -
  have post: "sk_post (fol_nnf f) [] 0 g n" and ext: "sk_extends I (fol_nnf f) 0 g n"
    using skolemize_spec [OF assms(1), where 'd = 'd] assms(4) by auto
  obtain J :: "'d interp" where J: "same_off (sk_labs 0 (unat n)) I J"
      "\<And>w. fol_holds I w (fol_nnf f) \<Longrightarrow> fol_holds J w g"
    using ext by (auto simp: sk_extends_def)
  have off: "same_off (- base_labs) I J" using J(1) skolem_labs_high by (auto simp: same_off_def)
  have "fol_holds I w (fol_nnf f) = fol_holds I v (fol_nnf f)" for w
    using assms(1) by (intro holds_vars) (auto simp: skolem_input_def)
  then have "fol_holds J w g" for w using J(2) assms(3) by (simp add: fol_nnf_def nnf_rec_holds)
  then show ?thesis
    using post off eq_interp_same_off [OF off eq_lab_low(1) assms(2)] by (auto simp: sk_post_def)
qed



definition socrates_formula :: trm where
  "socrates_formula = fol_mk_and (fol_mk_all (FVR 0) (fol_mk_imp (CTR 5 [FVR 0]) (CTR 6 [FVR 0])))
     (fol_mk_and (CTR 5 [CTR 7 []]) (fol_mk_not (CTR 6 [CTR 7 []])))"


end
