(* ===== verification/KBO_Flat.thy ===== *)
theory KBO_Flat
  imports Flat_Term
begin

text \<open>
  The Knuth-Bendix comparator on pre-order arrays (src/kbo/_.c: kbo_flat_addto, kbo_flat_vortest,
  kbo_flat_lex, kbo_flat_rek, thvm_kbo_flat_slice, thvm_kbo_flat). A subtree is a slice of the
  array, found by the size its first node holds; the loops over children and the recursion take
  fuel, of which twice the length of an array is enough. The verdict is the one of the naive
  comparator when labels have one arity and weights fit in 31 bits.
\<close>

section \<open>Accumulating a slice\<close>

definition kbo_flat_addto :: "flat \<Rightarrow> nat \<Rightarrow> int \<Rightarrow> kbo_lin \<times> int \<Rightarrow> kbo_lin \<times> int" where
  "kbo_flat_addto a p sg acc =
     fold (\<lambda>i (st, phi).
         (if fl_sym (a ! i) < 0 then kbo_bump (nat (- fl_sym (a ! i)) - 1) sg st else st,
          phi + sg * fl_w (a ! i)))
       [p..<p + fl_sz (a ! p)] acc"

section \<open>Vortest\<close>

text \<open>memcmp on two slices compares every field of their nodes.\<close>

function kbo_flat_vortest :: "nat \<Rightarrow> flat \<Rightarrow> flat \<Rightarrow> nat \<Rightarrow> nat \<Rightarrow> kbo_lin \<times> int \<Rightarrow> (bool \<times> kbo_lin \<times> int) option"
  and kbo_flat_children :: "nat \<Rightarrow> flat \<Rightarrow> flat \<Rightarrow> nat \<Rightarrow> nat \<Rightarrow> nat \<Rightarrow> nat \<Rightarrow> bool \<Rightarrow> kbo_lin \<times> int
    \<Rightarrow> (bool \<times> kbo_lin \<times> int) option" where
  "kbo_flat_vortest 0 a b pa pb acc = None"
| "kbo_flat_vortest (Suc n) a b pa pb acc =
     (let sa = fl_sz (a ! pa); sb = fl_sz (b ! pb)
      in if fl_sym (a ! pa) = fl_sym (b ! pb) \<and> fl_sym (a ! pa) < 0 then Some (True, acc)
         else if fl_sym (a ! pa) = fl_sym (b ! pb) \<and> sa = sb
         then if take sa (drop pa a) = take sa (drop pb b) then Some (True, acc)
              else kbo_flat_children n a b (pa + 1) (pa + sa) (pb + 1) (pb + sb) True acc
         else Some (False, kbo_flat_addto b pb (-1) (kbo_flat_addto a pa 1 acc)))"
| "kbo_flat_children 0 a b ca ea cb eb ident acc = None"
| "kbo_flat_children (Suc n) a b ca ea cb eb ident acc =
     (if ca < ea \<and> cb < eb
      then case kbo_flat_vortest n a b ca cb acc of
             None \<Rightarrow> None
           | Some (ident1, acc1) \<Rightarrow>
               kbo_flat_children n a b (ca + fl_sz (a ! ca)) ea (cb + fl_sz (b ! cb)) eb (ident \<and> ident1) acc1
      else Some (ident, acc))"
  by pat_completeness auto
termination
  by (relation "measure (\<lambda>x. case x of Inl (n, a, b, pa, pb, acc) \<Rightarrow> n | Inr (n, a, b, ca, ea, cb, eb, ident, acc) \<Rightarrow> n)") auto

section \<open>The decision\<close>

definition flat_prec :: "kbo_config \<Rightarrow> int \<Rightarrow> nat" where
  "flat_prec cfg lab = (if nat lab < kc_n_labels cfg then kc_precedence cfg ! nat lab else 0)"

function kbo_flat_rek :: "nat \<Rightarrow> kbo_config \<Rightarrow> flat \<Rightarrow> flat \<Rightarrow> nat \<Rightarrow> nat \<Rightarrow> int \<Rightarrow> kbo_cmp \<Rightarrow> kbo_lin \<Rightarrow> (kbo_cmp \<times> kbo_lin) option"
  and kbo_flat_lex :: "nat \<Rightarrow> kbo_config \<Rightarrow> flat \<Rightarrow> flat \<Rightarrow> nat \<Rightarrow> nat \<Rightarrow> nat \<Rightarrow> nat \<Rightarrow> kbo_lin \<Rightarrow> (kbo_cmp \<times> kbo_lin) option" where
  "kbo_flat_rek 0 cfg a b pa pb phi varcmp st = None"
| "kbo_flat_rek (Suc n) cfg a b pa pb phi varcmp st =
     (case kbo_phi_verdict varcmp phi of
        Some here \<Rightarrow> Some (here, st)
      | None \<Rightarrow>
          let la = fl_sym (a ! pa); lb = fl_sym (b ! pb)
          in if la < 0 \<or> lb < 0 then Some (KBO_UN, st)
             else if flat_prec cfg la > flat_prec cfg lb then Some (if varcmp = KBO_LT then KBO_UN else KBO_GT, st)
             else if flat_prec cfg la < flat_prec cfg lb then Some (if varcmp = KBO_GT then KBO_UN else KBO_LT, st)
             else if la \<noteq> lb then Some (KBO_UN, st)
             else case kbo_flat_lex n cfg a b (pa + 1) (pa + fl_sz (a ! pa)) (pb + 1) (pb + fl_sz (b ! pb)) st of
                    None \<Rightarrow> None
                  | Some (below, st') \<Rightarrow> Some (kbo_map_through varcmp below, st'))"
| "kbo_flat_lex 0 cfg a b ca ea cb eb st = None"
| "kbo_flat_lex (Suc n) cfg a b ca ea cb eb st =
     (if ca < ea \<and> cb < eb
      then case kbo_flat_vortest n a b ca cb (st, 0) of
             None \<Rightarrow> None
           | Some (ident, st1, phi) \<Rightarrow>
               if ident
               then kbo_flat_lex n cfg a b (ca + fl_sz (a ! ca)) ea (cb + fl_sz (b ! cb)) eb (kbo_lin_clear st1)
               else let (varcmp, st2) = kbo_lin_decide_clear st1 in kbo_flat_rek n cfg a b ca cb phi varcmp st2
      else Some (KBO_EQ, st))"
  by pat_completeness auto
termination
  by (relation "measure (\<lambda>x. case x of Inl (n, cfg, a, b, pa, pb, phi, varcmp, st) \<Rightarrow> n
      | Inr (n, cfg, a, b, ca, ea, cb, eb, st) \<Rightarrow> n)") auto

definition thvm_kbo_flat_slice :: "kbo_config \<Rightarrow> flat \<Rightarrow> flat \<Rightarrow> kbo_lin \<Rightarrow> (kbo_cmp \<times> kbo_lin) option" where
  "thvm_kbo_flat_slice cfg a b st0 =
     (let fuel = 2 * length a
      in case kbo_flat_vortest fuel a b 0 0 (st0\<lparr>kl_touched := []\<rparr>, 0) of
           None \<Rightarrow> None
         | Some (ident, st1, phi) \<Rightarrow>
             if ident then Some (KBO_EQ, kbo_lin_clear st1)
             else let (varcmp, st2) = kbo_lin_decide_clear st1 in kbo_flat_rek fuel cfg a b 0 0 phi varcmp st2)"

definition thvm_kbo_flat :: "kbo_config \<Rightarrow> trm \<Rightarrow> trm \<Rightarrow> kbo_lin \<Rightarrow> (kbo_cmp \<times> kbo_lin) option" where
  "thvm_kbo_flat cfg s t st0 =
     (case (kbo_flat_encode cfg s [], kbo_flat_encode cfg t []) of
        (Some a, Some b) \<Rightarrow> thvm_kbo_flat_slice cfg a b st0
      | _ \<Rightarrow> Some (thvm_kbo cfg s t st0))"


section \<open>What the slices hold\<close>

definition kflat :: "kbo_config \<Rightarrow> flat \<Rightarrow> nat \<Rightarrow> trm \<Rightarrow> bool" where
  "kflat cfg = spells (int (kc_var_weight cfg)) (\<lambda>l. int (kbo_weight cfg l))"

definition kflats :: "kbo_config \<Rightarrow> flat \<Rightarrow> nat \<Rightarrow> trm list \<Rightarrow> bool" where
  "kflats cfg = spells_args (int (kc_var_weight cfg)) (\<lambda>l. int (kbo_weight cfg l))"

lemma kflat_node:
  "kflat cfg a p (FVR x) \<Longrightarrow> fl_sym (a ! p) = var_sym x"
  "kflat cfg a p (CTR l ts) \<Longrightarrow> fl_sym (a ! p) = lab_sym l"
  "kflat cfg a p t \<Longrightarrow> fl_sz (a ! p) = tsize t"
  by (auto simp: kflat_def spells_sym intro: spells_sz)

lemma kflats_Cons: "kflats cfg a p (t # ts) \<longleftrightarrow> kflat cfg a p t \<and> kflats cfg a (p + tsize t) ts"
  by (simp add: kflats_def kflat_def spells_args_Cons)

lemma kflat_CTR: "kflat cfg a p (CTR l ts) \<Longrightarrow> kflats cfg a (p + 1) ts"
  by (simp add: kflats_def kflat_def spells_CTR)

lemma flat_of_inj: "ar_cons ar s \<Longrightarrow> ar_cons ar t \<Longrightarrow> flat_of vw w s = flat_of vw w t \<longleftrightarrow> s = t"
  by (metis map_sym_flat syms_of_inj)

lemma kflat_eq:
  assumes "kflat cfg a p s" and "kflat cfg b q t" and "ar_cons ar s" and "ar_cons ar t"
  shows "take (tsize s) (drop p a) = take (tsize t) (drop q b) \<longleftrightarrow> s = t"
  using assms spells_node(3) flat_of_inj unfolding kflat_def by metis

text \<open>Both counts of the walk: the balances with the touched list, and the pushes.\<close>

definition lin_run :: "kbo_lin \<Rightarrow> kbo_lin \<Rightarrow> balance \<Rightarrow> nat \<Rightarrow> bool" where
  "lin_run st st' d k \<longleftrightarrow> lin_step st st' d \<and> lin_pushes st st' k"

lemma lin_run_refl: "lin_run st st (\<lambda>i. 0) 0"
  by (simp add: lin_run_def lin_step_refl lin_pushes_refl)

lemma lin_run_trans: "lin_run a b d k \<Longrightarrow> lin_run b c e m \<Longrightarrow> lin_run a c (\<lambda>i. d i + e i) (k + m)"
  by (auto simp: lin_run_def intro: lin_step_trans lin_pushes_trans)

lemma lin_run_eq: "lin_run a b d k \<Longrightarrow> (\<And>i. d i = e i) \<Longrightarrow> k \<le> m \<Longrightarrow> lin_run a b e m"
  by (auto simp: lin_run_def intro: lin_step_eq lin_pushes_mono)

abbreviation flat_add where
  "flat_add sg \<equiv> \<lambda>nd (st, phi). (if fl_sym nd < 0 then kbo_bump (nat (- fl_sym nd) - 1) sg st else st, phi + sg * fl_w nd)"

lemma flat_add_term:
  assumes "no_atm t" and "fold (flat_add sg) (flat_of (int (kc_var_weight cfg)) (\<lambda>l. int (kbo_weight cfg l)) t) (st, phi) = (st', phi')"
  shows "lin_run st st' (\<lambda>i. sg * kcnt t i) (nvars t) \<and> phi' = phi + sg * kw cfg t"
  using assms
proof (induction t arbitrary: st phi st' phi')
  case (FVR x)
  have "nat (- var_sym x) - 1 = unat x" unfolding var_sym_def by (simp only: minus_minus nat_int)
  then show ?case using FVR bump_var_step [of st x sg] bump_pushes by (auto simp: lin_run_def simp del: kcnt.simps)
next
  case (CTR l ts)
  let ?fl = "flat_of (int (kc_var_weight cfg)) (\<lambda>l. int (kbo_weight cfg l))"
  have args: "lin_run st st' (\<lambda>i. sg * sum_list (map (\<lambda>t. kcnt t i) us)) (sum_list (map nvars us))
      \<and> phi' = phi + sg * sum_list (map (kw cfg) us)"
    if "set us \<subseteq> set ts" "fold (flat_add sg) (concat (map ?fl us)) (st, phi) = (st', phi')" for us st phi
    using that
  proof (induction us arbitrary: st phi)
    case Nil
    then show ?case by (simp add: lin_run_refl)
  next
    case (Cons u us)
    obtain st1 phi1 where u: "fold (flat_add sg) (?fl u) (st, phi) = (st1, phi1)" by fastforce
    have rest: "fold (flat_add sg) (concat (map ?fl us)) (st1, phi1) = (st', phi')"
      using Cons.prems(2) u by (simp only: list.map concat.simps fold_append comp_def)
    have "no_atm u" using Cons.prems(1) CTR.prems(1) by (auto simp: list_all_iff)
    then have 1: "lin_run st st1 (\<lambda>i. sg * kcnt u i) (nvars u)" "phi1 = phi + sg * kw cfg u"
      using CTR.IH [of u st phi st1 phi1] Cons.prems(1) u by auto
    have 2: "lin_run st1 st' (\<lambda>i. sg * sum_list (map (\<lambda>t. kcnt t i) us)) (sum_list (map nvars us))"
        "phi' = phi1 + sg * sum_list (map (kw cfg) us)"
      using Cons.IH [OF _ rest] Cons.prems(1) by auto
    show ?case using lin_run_eq [OF lin_run_trans [OF 1(1) 2(1)]] 1(2) 2(2) by (simp add: algebra_simps)
  qed
  have "fold (flat_add sg) (concat (map ?fl ts)) (st, phi + sg * int (kbo_weight cfg l)) = (st', phi')"
    using CTR.prems(2) by simp
  from args [OF subset_refl this] show ?case by (simp add: algebra_simps)
qed auto

lemma flat_addto_term:
  assumes "kflat cfg a p t" and "no_atm t" and "kbo_flat_addto a p sg (st, phi) = (st', phi')"
  shows "lin_run st st' (\<lambda>i. sg * kcnt t i) (nvars t) \<and> phi' = phi + sg * kw cfg t"
proof (rule flat_add_term [OF assms(2)])
  note sp = spells_node [OF assms(1) [unfolded kflat_def]]
  have "map (nth a) [p..<p + tsize t] = take (tsize t) (drop p a)"
    using sp(2) by (intro nth_equalityI) auto
  then have m: "map (nth a) [p..<p + fl_sz (a ! p)] = flat_of (int (kc_var_weight cfg)) (\<lambda>l. int (kbo_weight cfg l)) t"
    using sp(3) kflat_node(3) [OF assms(1)] by simp
  then show "fold (flat_add sg) (flat_of (int (kc_var_weight cfg)) (\<lambda>l. int (kbo_weight cfg l)) t) (st, phi) = (st', phi')"
    using assms(3) by (simp only: m [symmetric] fold_map comp_def kbo_flat_addto_def)
qed


section \<open>Vortest computes the balances\<close>

definition vortest_ok :: "kbo_config \<Rightarrow> trm list \<Rightarrow> trm list \<Rightarrow> bool \<Rightarrow> kbo_lin \<times> int
    \<Rightarrow> (bool \<times> kbo_lin \<times> int) option \<Rightarrow> bool" where
  "vortest_ok cfg ss ts ident acc r \<longleftrightarrow>
     (\<exists>st'. r = Some (ident \<and> ss = ts, st', snd acc + (sum_list (map (kw cfg) ss) - sum_list (map (kw cfg) ts)))
        \<and> lin_run (fst acc) st' (\<lambda>i. sum_list (map (\<lambda>s. kcnt s i) ss) - sum_list (map (\<lambda>t. kcnt t i) ts))
            (sum_list (map nvars ss) + sum_list (map nvars ts)))"

lemma vortest_ok_same: "vortest_ok cfg ss ss ident acc (Some (ident, acc))"
  by (cases acc) (simp add: vortest_ok_def lin_run_eq [OF lin_run_refl])

lemma vortest_ok_div:
  assumes "kflat cfg a pa s" and "kflat cfg b pb t" and "no_atm s" and "no_atm t" and "s \<noteq> t"
  shows "vortest_ok cfg [s] [t] ident acc (Some (False, kbo_flat_addto b pb (-1) (kbo_flat_addto a pa 1 acc)))"
proof -
  obtain st phi where acc: "acc = (st, phi)" by fastforce
  obtain st1 phi1 where 1: "kbo_flat_addto a pa 1 (st, phi) = (st1, phi1)" by fastforce
  obtain st2 phi2 where 2: "kbo_flat_addto b pb (-1) (st1, phi1) = (st2, phi2)" by fastforce
  note f1 = flat_addto_term [OF assms(1,3) 1] and f2 = flat_addto_term [OF assms(2,4) 2]
  have "lin_run st st2 (\<lambda>i. kcnt s i - kcnt t i) (nvars s + nvars t)"
    by (rule lin_run_eq [OF lin_run_trans [OF f1 [THEN conjunct1] f2 [THEN conjunct1]]]) auto
  moreover have "phi2 = phi + (kw cfg s - kw cfg t)" using f1 f2 by simp
  ultimately show ?thesis using assms(5) 2 by (simp add: vortest_ok_def acc 1)
qed

lemma vortest_ok_Cons:
  assumes "vortest_ok cfg [s] [t] True acc (Some (ident1, acc1))" and "vortest_ok cfg ss ts (ident \<and> ident1) acc1 r"
  shows "vortest_ok cfg (s # ss) (t # ts) ident acc r"
proof -
  obtain st1 where 1: "ident1 \<longleftrightarrow> s = t" "acc1 = (st1, snd acc + (kw cfg s - kw cfg t))"
      "lin_run (fst acc) st1 (\<lambda>i. kcnt s i - kcnt t i) (nvars s + nvars t)"
    using assms(1) by (auto simp: vortest_ok_def)
  obtain st2 where 2: "r = Some ((ident \<and> ident1) \<and> ss = ts, st2, snd acc1 + (sum_list (map (kw cfg) ss) - sum_list (map (kw cfg) ts)))"
      "lin_run (fst acc1) st2 (\<lambda>i. sum_list (map (\<lambda>s. kcnt s i) ss) - sum_list (map (\<lambda>t. kcnt t i) ts))
        (sum_list (map nvars ss) + sum_list (map nvars ts))"
    using assms(2) by (auto simp: vortest_ok_def)
  have "lin_run (fst acc) st2 (\<lambda>i. sum_list (map (\<lambda>s. kcnt s i) (s # ss)) - sum_list (map (\<lambda>t. kcnt t i) (t # ts)))
      (sum_list (map nvars (s # ss)) + sum_list (map nvars (t # ts)))"
    by (rule lin_run_eq [OF lin_run_trans [OF 1(3) 2(2) [unfolded 1(2) fst_conv]]]) auto
  then show ?thesis using 1(1,2) 2(1) by (auto simp: vortest_ok_def)
qed

lemma flat_vortest_spec:
  "kflat cfg a pa s \<Longrightarrow> kflat cfg b pb t \<Longrightarrow> ar_cons ar s \<Longrightarrow> ar_cons ar t \<Longrightarrow> 2 * tsize s \<le> n
     \<Longrightarrow> vortest_ok cfg [s] [t] True acc (kbo_flat_vortest n a b pa pb acc)"
  "kflats cfg a ca ss \<Longrightarrow> kflats cfg b cb ts \<Longrightarrow> list_all (ar_cons ar) ss \<Longrightarrow> list_all (ar_cons ar) ts
     \<Longrightarrow> length ss = length ts \<Longrightarrow> ea = ca + sum_list (map tsize ss) \<Longrightarrow> eb = cb + sum_list (map tsize ts)
     \<Longrightarrow> Suc (2 * sum_list (map tsize ss)) \<le> n \<Longrightarrow> vortest_ok cfg ss ts ident acc (kbo_flat_children n a b ca ea cb eb ident acc)"
proof (induction n a b pa pb acc and n a b ca ea cb eb ident acc arbitrary: s t and ss ts
    rule: kbo_flat_vortest_kbo_flat_children.induct)
  case (1 a b pa pb acc)
  then show ?case using tsize_pos [of s] by simp
next
  case (2 n a b pa pb acc)
  note nodes = kflat_node [where cfg = cfg]
  note eq = kflat_eq [OF 2(2-5)]
  note div = vortest_ok_div [OF 2(2,3) 2(4,5) [THEN ar_cons_no_atm], where ident = True and acc = acc]
  show ?case
  proof (cases s)
    case s: (FVR x)
    then show ?thesis using 2(2-5) nodes div vortest_ok_same [where acc = acc] by (cases t) (auto simp: Let_def)
  next
    case s: (CTR f ss)
    show ?thesis
    proof (cases "\<exists>ts. t = CTR f ts \<and> tsize s = tsize t")
      case False
      then show ?thesis using 2(2-5) s nodes div by (cases t) (auto simp: Let_def)
    next
      case True
      then obtain ts where t: "t = CTR f ts" "tsize s = tsize t" by blast
      have sz: "fl_sz (a ! pa) = tsize s" "fl_sz (b ! pb) = tsize t" using 2(2,3) nodes(3) by blast+
      have sym: "fl_sym (a ! pa) = lab_sym f" "fl_sym (b ! pb) = lab_sym f" using 2(2,3) nodes(2) s t(1) by blast+
      show ?thesis
      proof (cases "s = t")
        case True
        then have "take (tsize s) (drop pa a) = take (tsize s) (drop pb b)" using eq by simp
        then show ?thesis using True sz sym vortest_ok_same by (simp add: Let_def)
      next
        case ne: False
        have c: "take (tsize s) (drop pa a) \<noteq> take (tsize s) (drop pb b)" using eq ne t(2) by simp
        have "vortest_ok cfg ss ts True acc
            (kbo_flat_children n a b (pa + 1) (pa + fl_sz (a ! pa)) (pb + 1) (pb + fl_sz (b ! pb)) True acc)"
          by (rule "2.IH" [OF refl refl]) (use "2.prems" s t c sz sym kflat_CTR in \<open>auto\<close>)
        then show ?thesis using sz sym c t(2) s t(1) ne by (simp add: Let_def vortest_ok_def)
      qed
    qed
  qed (use 2(4) in simp)
next
  case (3 a b ca ea cb eb ident acc)
  then show ?case by simp
next
  case (4 n a b ca ea cb eb ident acc)
  show ?case
  proof (cases ss)
    case Nil
    then show ?thesis using "4.prems" vortest_ok_same [of cfg "[]" ident acc] by simp
  next
    case ss: (Cons s ss')
    then obtain t ts' where ts: "ts = t # ts'" using "4.prems"(5) by (cases ts) auto
    have less: "ca < ea" "cb < eb" using "4.prems"(6,7) ss ts by (auto simp: trans_less_add1)
    have st: "kflat cfg a ca s" "kflat cfg b cb t" "ar_cons ar s" "ar_cons ar t"
        "kflats cfg a (ca + tsize s) ss'" "kflats cfg b (cb + tsize t) ts'"
      using "4.prems"(1-4) ss ts by (auto simp: kflats_Cons)
    have v: "vortest_ok cfg [s] [t] True acc (kbo_flat_vortest n a b ca cb acc)"
      by (rule "4.IH"(1) [OF _ st(1-4)]) (use less "4.prems"(8) ss in auto)
    obtain ident1 acc1 where r: "kbo_flat_vortest n a b ca cb acc = Some (ident1, acc1)"
      using v by (auto simp: vortest_ok_def)
    have sz: "fl_sz (a ! ca) = tsize s" "fl_sz (b ! cb) = tsize t" using st(1,2) kflat_node(3) by blast+
    have "vortest_ok cfg ss' ts' (ident \<and> ident1) acc1
        (kbo_flat_children n a b (ca + fl_sz (a ! ca)) ea (cb + fl_sz (b ! cb)) eb (ident \<and> ident1) acc1)"
      by (rule "4.IH"(2)) (use less r sz st "4.prems" ss ts tsize_pos [of s] in \<open>auto simp del: tsize_pos\<close>)
    from vortest_ok_Cons [OF v [unfolded r] this] show ?thesis using less r ss ts by simp
  qed
qed


section \<open>The decision agrees with the naive comparator\<close>

lemma flat_vortest_clean:
  assumes "lin_clean st" and "\<not> kl_ub st" and "nvars s + nvars t \<le> KBO_MAX_VAR"
    and "vortest_ok cfg [s] [t] True (st, 0) r"
  obtains st' where "r = Some (s = t, st', kw cfg s - kw cfg t)" and "kl_bal st' = (\<lambda>i. kcnt s i - kcnt t i)"
    and "lin_cov st'" and "\<not> kl_ub st'"
proof -
  obtain st' where r: "r = Some (s = t, st', kw cfg s - kw cfg t)" "lin_run st st' (\<lambda>i. kcnt s i - kcnt t i) (nvars s + nvars t)"
    using assms(4) by (auto simp: vortest_ok_def)
  show thesis
  proof (rule that [OF r(1)])
    have "lin_step st st' (\<lambda>i. kcnt s i - kcnt t i)" "lin_pushes st st' (nvars s + nvars t)" using r(2) by (simp_all add: lin_run_def)
    then show ub: "\<not> kl_ub st'" and "kl_bal st' = (\<lambda>i. kcnt s i - kcnt t i)"
      using assms(1-3) by (auto simp: lin_pushes_def lin_step_def lin_clean_def)
    show "lin_cov st'"
      using \<open>lin_step st st' _\<close> ub assms(1) by (auto simp: lin_step_def lin_clean_def lin_cov_def)
  qed
qed

definition rek_ok :: "kbo_config \<Rightarrow> kbo_cmp \<Rightarrow> (kbo_cmp \<times> kbo_lin) option \<Rightarrow> bool" where
  "rek_ok cfg erg r \<longleftrightarrow> (\<exists>st'. r = Some (erg, st') \<and> lin_clean st' \<and> \<not> kl_ub st')"

definition lex_ok :: "kbo_config \<Rightarrow> trm list \<Rightarrow> trm list \<Rightarrow> (kbo_cmp \<times> kbo_lin) option \<Rightarrow> bool" where
  "lex_ok cfg ss ts r \<longleftrightarrow> (\<exists>e. rek_ok cfg e r
     \<and> (\<forall>v. v \<noteq> KBO_UN \<longrightarrow> kbo_rec_args cfg (v \<noteq> KBO_LT) (v \<noteq> KBO_GT) ss ts = kbo_map_through v e))"

lemma nvars_args:
  "nvars (CTR f ss) + nvars (CTR g ts) \<le> KBO_MAX_VAR \<Longrightarrow> s \<in> set ss \<Longrightarrow> t \<in> set ts \<Longrightarrow> nvars s + nvars t \<le> KBO_MAX_VAR"
  using nvars_child [of s ss f] nvars_child [of t ts g] by linarith

lemma flat_prec_lab: "flat_prec cfg (lab_sym l) = kbo_prec cfg l"
  by (simp add: flat_prec_def lab_sym_def kbo_prec_def)

lemma lex_ok_same: "lin_clean st \<Longrightarrow> \<not> kl_ub st \<Longrightarrow> lex_ok cfg ss ss (Some (KBO_EQ, st))"
  by (auto simp: lex_ok_def rek_ok_def rec_args_same)

lemma lex_ok_diff:
  assumes "rek_ok cfg (kbo_rec cfg s t) r" and "s \<noteq> t" and "prec_inj cfg s t"
  shows "lex_ok cfg (s # ss) (t # ts) r"
proof -
  have "kbo_rec cfg s t \<noteq> KBO_EQ" using assms(2,3) kbo_rec_EQ by blast
  then have "kbo_rec_args cfg (v \<noteq> KBO_LT) (v \<noteq> KBO_GT) (s # ss) (t # ts) = kbo_map_through v (kbo_rec cfg s t)"
    if "v \<noteq> KBO_UN" for v
    using that by (cases v; cases "kbo_rec cfg s t") simp_all
  then show ?thesis using assms(1) by (auto simp: lex_ok_def)
qed

text \<open>The weights and the variable verdict alone, or a tie.\<close>

lemma phi_verdict_rec:
  assumes "kbo_phi_verdict v (kw cfg s - kw cfg t) = Some here" and "v = vcmp (\<lambda>i. kcnt s i - kcnt t i)" and "s \<noteq> t"
  shows "kbo_rec cfg s t = here"
  using assms(1,3) unfolding kbo_rec_eq [of cfg s t] vcmp_dom [where s = s and t = t, folded assms(2)]
  by (cases v) (auto simp: kbo_phi_verdict_def split: if_splits)

lemma phi_tie_rec:
  assumes "kbo_phi_verdict v (kw cfg s - kw cfg t) = None" and "v = vcmp (\<lambda>i. kcnt s i - kcnt t i)" and "s \<noteq> t"
  shows "\<not> is_ctr s \<or> \<not> is_ctr t \<Longrightarrow> kbo_rec cfg s t = KBO_UN"
    and "s = CTR f ss \<Longrightarrow> t = CTR g ts \<Longrightarrow> kbo_prec cfg f > kbo_prec cfg g
      \<Longrightarrow> kbo_rec cfg s t = (if v = KBO_LT then KBO_UN else KBO_GT)"
    and "s = CTR f ss \<Longrightarrow> t = CTR g ts \<Longrightarrow> kbo_prec cfg f < kbo_prec cfg g
      \<Longrightarrow> kbo_rec cfg s t = (if v = KBO_GT then KBO_UN else KBO_LT)"
    and "s = CTR f ss \<Longrightarrow> t = CTR f ts \<Longrightarrow> length ss = length ts
      \<Longrightarrow> kbo_rec cfg s t = kbo_rec_args cfg (v \<noteq> KBO_LT) (v \<noteq> KBO_GT) ss ts"
    and "v \<noteq> KBO_UN"
proof -
  have un: "v \<noteq> KBO_UN" and w: "kw cfg s = kw cfg t"
    using assms(1) by (auto simp: kbo_phi_verdict_def split: kbo_cmp.splits if_splits)
  have dom: "v = KBO_EQ \<or> v = KBO_GT \<longleftrightarrow> v \<noteq> KBO_LT" "v = KBO_EQ \<or> v = KBO_LT \<longleftrightarrow> v \<noteq> KBO_GT"
      "\<not> v \<noteq> KBO_LT \<and> \<not> v \<noteq> KBO_GT \<longleftrightarrow> False"
    using un by (cases v; simp)+
  have a: "s = t \<longleftrightarrow> False" "kw cfg t < kw cfg s \<longleftrightarrow> False" "kw cfg s < kw cfg t \<longleftrightarrow> False" using w assms(3) by auto
  note rec = kbo_rec_eq [of cfg s t, unfolded vcmp_dom [where s = s and t = t, folded assms(2)] dom a if_False]
  show "\<not> is_ctr s \<or> \<not> is_ctr t \<Longrightarrow> kbo_rec cfg s t = KBO_UN" unfolding rec by (cases s; cases t) simp_all
  show "s = CTR f ss \<Longrightarrow> t = CTR g ts \<Longrightarrow> kbo_prec cfg f > kbo_prec cfg g
      \<Longrightarrow> kbo_rec cfg s t = (if v = KBO_LT then KBO_UN else KBO_GT)" unfolding rec by simp
  show "s = CTR f ss \<Longrightarrow> t = CTR g ts \<Longrightarrow> kbo_prec cfg f < kbo_prec cfg g
      \<Longrightarrow> kbo_rec cfg s t = (if v = KBO_GT then KBO_UN else KBO_LT)" unfolding rec by simp
  show "s = CTR f ss \<Longrightarrow> t = CTR f ts \<Longrightarrow> length ss = length ts
      \<Longrightarrow> kbo_rec cfg s t = kbo_rec_args cfg (v \<noteq> KBO_LT) (v \<noteq> KBO_GT) ss ts" unfolding rec by simp
  show "v \<noteq> KBO_UN" by (rule un)
qed

lemma rek_ok_lex:
  assumes "lex_ok cfg ss ts r" and "s = CTR f ss" and "t = CTR f ts" and "s \<noteq> t" and "length ss = length ts"
    and "kbo_phi_verdict v (kw cfg s - kw cfg t) = None" and "v = vcmp (\<lambda>i. kcnt s i - kcnt t i)"
  shows "rek_ok cfg (kbo_rec cfg s t) (case r of None \<Rightarrow> None | Some (below, st') \<Rightarrow> Some (kbo_map_through v below, st'))"
  using assms(1) phi_tie_rec(4) [OF assms(6,7,4,2,3,5)] phi_tie_rec(5) [OF assms(6,7,4)]
  by (auto simp: lex_ok_def rek_ok_def)


lemma flat_rek_spec:
  "kflat cfg a pa s \<Longrightarrow> kflat cfg b pb t \<Longrightarrow> ar_cons ar s \<Longrightarrow> ar_cons ar t \<Longrightarrow> prec_inj cfg s t
     \<Longrightarrow> nvars s + nvars t \<le> KBO_MAX_VAR \<Longrightarrow> s \<noteq> t \<Longrightarrow> lin_clean st \<Longrightarrow> \<not> kl_ub st
     \<Longrightarrow> phi = kw cfg s - kw cfg t \<Longrightarrow> v = vcmp (\<lambda>i. kcnt s i - kcnt t i) \<Longrightarrow> 2 * tsize s \<le> n
     \<Longrightarrow> rek_ok cfg (kbo_rec cfg s t) (kbo_flat_rek n cfg a b pa pb phi v st)"
  "kflats cfg a ca ss \<Longrightarrow> kflats cfg b cb ts \<Longrightarrow> list_all (ar_cons ar) ss \<Longrightarrow> list_all (ar_cons ar) ts
     \<Longrightarrow> (\<forall>s \<in> set ss. \<forall>t \<in> set ts. prec_inj cfg s t \<and> nvars s + nvars t \<le> KBO_MAX_VAR) \<Longrightarrow> length ss = length ts
     \<Longrightarrow> ea = ca + sum_list (map tsize ss) \<Longrightarrow> eb = cb + sum_list (map tsize ts) \<Longrightarrow> lin_clean st \<Longrightarrow> \<not> kl_ub st
     \<Longrightarrow> Suc (2 * sum_list (map tsize ss)) \<le> n \<Longrightarrow> lex_ok cfg ss ts (kbo_flat_lex n cfg a b ca ea cb eb st)"
proof (induction n cfg a b pa pb phi v st and n cfg a b ca ea cb eb st arbitrary: s t and ss ts
    rule: kbo_flat_rek_kbo_flat_lex.induct)
  case (1 cfg a b pa pb phi v st)
  then show ?case using tsize_pos [of s] by simp
next
  case (2 n cfg a b pa pb phi v st)
  note nodes = kflat_node [where cfg = cfg]
  show ?case
  proof (cases "kbo_phi_verdict v phi")
    case (Some here)
    have "kbo_rec cfg s t = here"
      by (rule phi_verdict_rec [OF Some [unfolded "2.prems"(10)] "2.prems"(11,7)])
    then show ?thesis using Some "2.prems" by (simp add: rek_ok_def)
  next
    case None
    note tie = phi_tie_rec [OF None [unfolded "2.prems"(10)] "2.prems"(11,7)]
    show ?thesis
    proof (cases "\<exists>f ss g ts. s = CTR f ss \<and> t = CTR g ts")
      case False
      then have "\<not> is_ctr s \<or> \<not> is_ctr t" by (cases s; cases t) auto
      moreover have "fl_sym (a ! pa) < 0 \<or> fl_sym (b ! pb) < 0"
        using False nodes(1) "2.prems"(1-4) by (cases s; cases t) fastforce+
      ultimately show ?thesis using None tie(1) "2.prems"(8,9) by (simp add: rek_ok_def Let_def)
    next
      case True
      then obtain f ss g ts where st: "s = CTR f ss" "t = CTR g ts" by blast
      have sy: "fl_sym (a ! pa) = lab_sym f" "fl_sym (b ! pb) = lab_sym g" using "2.prems"(1,2) nodes(2) st by blast+
      have pre: "kbo_prec cfg f = kbo_prec cfg g \<longleftrightarrow> f = g" using prec_inj_head "2.prems"(5) st by blast
      show ?thesis
      proof (cases "f = g")
        case False
        then show ?thesis using None sy pre tie(2,3) [OF st] "2.prems"(8,9) by (auto simp: rek_ok_def Let_def flat_prec_lab)
      next
        case fg: True
        have len: "length ss = length ts" using "2.prems"(3,4) st fg by simp
        have "lex_ok cfg ss ts (kbo_flat_lex n cfg a b (pa + 1) (pa + fl_sz (a ! pa)) (pb + 1) (pb + fl_sz (b ! pb)) st)"
        proof (rule "2.IH" [OF None refl refl])
          show "kflats cfg a (pa + 1) ss" "kflats cfg b (pb + 1) ts" using "2.prems"(1,2) st kflat_CTR by blast+
          show "\<forall>s \<in> set ss. \<forall>t \<in> set ts. prec_inj cfg s t \<and> nvars s + nvars t \<le> KBO_MAX_VAR"
            using prec_inj_child nvars_args "2.prems"(5,6) unfolding st by blast
        qed (use "2.prems" nodes(3) st sy pre fg len in \<open>auto simp: flat_prec_lab\<close>)
        from rek_ok_lex [OF this st(1) st(2) [folded fg] "2.prems"(7) len None [unfolded "2.prems"(10)] "2.prems"(11)]
        show ?thesis using None sy fg by (simp add: Let_def)
      qed
    qed
  qed
next
  case (3 cfg a b ca ea cb eb st)
  then show ?case by simp
next
  case (4 n cfg a b ca ea cb eb st)
  show ?case
  proof (cases ss)
    case Nil
    then show ?thesis using "4.prems" lex_ok_same [of st cfg "[]"] by simp
  next
    case ss: (Cons s ss')
    then obtain t ts' where ts: "ts = t # ts'" using "4.prems"(6) by (cases ts) auto
    have less: "ca < ea" "cb < eb" using "4.prems"(7,8) ss ts by (auto simp: trans_less_add1)
    have st: "kflat cfg a ca s" "kflat cfg b cb t" "ar_cons ar s" "ar_cons ar t"
        "kflats cfg a (ca + tsize s) ss'" "kflats cfg b (cb + tsize t) ts'" "prec_inj cfg s t" "nvars s + nvars t \<le> KBO_MAX_VAR"
      using "4.prems"(1-5) ss ts by (auto simp: kflats_Cons)
    have "2 * tsize s + 2 * sum_list (map tsize ss') \<le> n" using "4.prems"(11) by (simp add: ss)
    with tsize_pos [of s] have n: "2 * tsize s \<le> n" "Suc (2 * sum_list (map tsize ss')) \<le> n" by linarith+
    have v: "vortest_ok cfg [s] [t] True (st, 0) (kbo_flat_vortest n a b ca cb (st, 0))"
      by (rule flat_vortest_spec(1) [OF st(1-4) n(1)])
    obtain st1 where r: "kbo_flat_vortest n a b ca cb (st, 0) = Some (s = t, st1, kw cfg s - kw cfg t)"
        "kl_bal st1 = (\<lambda>i. kcnt s i - kcnt t i)" "lin_cov st1" "\<not> kl_ub st1"
      by (rule flat_vortest_clean [OF "4.prems"(9,10) st(8) v])
    have sz: "fl_sz (a ! ca) = tsize s" "fl_sz (b ! cb) = tsize t" using st(1,2) kflat_node(3) by blast+
    show ?thesis
    proof (cases "s = t")
      case True
      have "lex_ok cfg ss' ts' (kbo_flat_lex n cfg a b (ca + fl_sz (a ! ca)) ea (cb + fl_sz (b ! cb)) eb (kbo_lin_clear st1))"
        by (rule "4.IH"(1) [OF _ r(1)]) (use less True sz st n "4.prems" ss ts clear_clean r in auto)
      then show ?thesis using less r True ss ts by (simp add: lex_ok_def)
    next
      case False
      obtain varcmp st2 where d: "kbo_lin_decide_clear st1 = (varcmp, st2)" by fastforce
      note dc = decide_clear_spec [OF r(3) d, unfolded r(2)]
      have "rek_ok cfg (kbo_rec cfg s t) (kbo_flat_rek n cfg a b ca cb (kw cfg s - kw cfg t) varcmp st2)"
        by (rule "4.IH"(2) [OF _ r(1) refl refl False d [symmetric] refl st(1-4,7,8) False dc(2)]) (use less dc r(4) n in auto)
      then show ?thesis using less r(1) False d lex_ok_diff [OF _ False st(7)] ss ts by simp
    qed
  qed
qed


section \<open>The comparator\<close>

lemma flat_slice_spec:
  assumes "kflat cfg a 0 s" and "kflat cfg b 0 t" and "ar_cons ar s" and "ar_cons ar t" and "prec_inj cfg s t"
    and "nvars s + nvars t \<le> KBO_MAX_VAR" and "kl_bal st = (\<lambda>_. 0)" and "\<not> kl_ub st"
  shows "rek_ok cfg (kbo_rec cfg s t) (thvm_kbo_flat_slice cfg a b st)"
proof -
  let ?st = "st\<lparr>kl_touched := []\<rparr>"
  have fuel: "2 * tsize s \<le> 2 * length a" using spells_node(2) [OF assms(1) [unfolded kflat_def]] by simp
  have clean: "lin_clean ?st" "\<not> kl_ub ?st" using assms(7,8) by (simp_all add: lin_clean_def)
  obtain st1 where r: "kbo_flat_vortest (2 * length a) a b 0 0 (?st, 0) = Some (s = t, st1, kw cfg s - kw cfg t)"
      "kl_bal st1 = (\<lambda>i. kcnt s i - kcnt t i)" "lin_cov st1" "\<not> kl_ub st1"
    by (rule flat_vortest_clean [OF clean assms(6) flat_vortest_spec(1) [OF assms(1-4) fuel]])
  show ?thesis
  proof (cases "s = t")
    case True
    then show ?thesis using r clear_clean by (simp add: thvm_kbo_flat_slice_def Let_def rek_ok_def)
  next
    case False
    obtain varcmp st2 where d: "kbo_lin_decide_clear st1 = (varcmp, st2)" by fastforce
    note dc = decide_clear_spec [OF r(3) d, unfolded r(2)]
    have "rek_ok cfg (kbo_rec cfg s t) (kbo_flat_rek (2 * length a) cfg a b 0 0 (kw cfg s - kw cfg t) varcmp st2)"
      by (rule flat_rek_spec(1) [OF assms(1-6) False dc(2) _ refl dc(1) fuel]) (use dc(3) r(4) in simp)
    then show ?thesis using r(1) False d by (simp add: thvm_kbo_flat_slice_def Let_def)
  qed
qed

text \<open>Weights that the i32 of a node holds.\<close>

definition weights_fit :: "kbo_config \<Rightarrow> bool" where
  "weights_fit cfg \<longleftrightarrow> kc_var_weight cfg < 2 ^ 31 \<and> (\<forall>w \<in> set (take (kc_n_labels cfg) (kc_weights cfg)). w < 2 ^ 31)
     \<and> kc_n_labels cfg \<le> length (kc_weights cfg)"

lemma flat_encode_kflat:
  assumes "weights_fit cfg" and "kbo_flat_encode cfg t [] = Some a"
  shows "kflat cfg a 0 t"
proof -
  have "kbo_weight cfg l < 2 ^ 31" for l
    using assms(1) nth_mem [of "unat l" "take (kc_n_labels cfg) (kc_weights cfg)"]
    by (cases "unat l < kc_n_labels cfg") (auto simp: weights_fit_def kbo_weight_def)
  then have "(\<lambda>l. as_i32 (kbo_weight cfg l)) = (\<lambda>l. int (kbo_weight cfg l))"
    by (intro ext as_i32_small) simp
  moreover have "as_i32 (kc_var_weight cfg) = int (kc_var_weight cfg)"
    using assms(1) by (intro as_i32_small) (simp add: weights_fit_def)
  ultimately show ?thesis using assms(2)
    by (auto simp: kflat_def kbo_flat_encode_def flat_encode_spec(1) split: if_splits)
qed



text \<open>
  Outside these conditions the two part: a weight of 2^31 or more is negative in the i32 of a node.
\<close>

definition kbo_cfg_large :: kbo_config where
  "kbo_cfg_large = kbo_cfg3\<lparr>kc_weights := [2147483648, 1, 1]\<rparr>"

lemma kbo_flat_large_weight:
  "thvm_kbo_naive kbo_cfg_large (CTR 0 []) (CTR 1 []) = KBO_GT"
  "map_option fst (thvm_kbo_flat kbo_cfg_large (CTR 0 []) (CTR 1 []) kbo_scope) = Some KBO_LT"
proof -
  have w: "kbo_weight kbo_cfg_large 0 = 2147483648" "kbo_weight kbo_cfg_large 1 = 1"
    by (simp_all add: kbo_weight_def kbo_cfg_large_def kbo_cfg3_def)
  show "thvm_kbo_naive kbo_cfg_large (CTR 0 []) (CTR 1 []) = KBO_GT"
    by (simp add: thvm_kbo_naive_def kbo_rec_eq w kdom_def)
  have i: "as_i32 2147483648 = - 2147483648" "as_i32 (Suc 0) = 1" by (simp_all add: as_i32_def)
  show "map_option fst (thvm_kbo_flat kbo_cfg_large (CTR 0 []) (CTR 1 []) kbo_scope) = Some KBO_LT"
    by (simp add: thvm_kbo_flat_def kbo_flat_encode_def flat_encode_spec w i KBO_FLAT_CAP_def thvm_kbo_flat_slice_def
        kbo_scope_def kbo_flat_addto_def kbo_lin_decide_clear_def kbo_phi_verdict_def lab_sym_def numeral_2_eq_2)
qed

end
