(* ===== verification/LPO_Order.thy ===== *)
theory LPO_Order
  imports LPO
begin

text \<open>
  The comparator of theory LPO against the ordering of theory Path_Order: the recursion on terms
  and the default recursion on arrays both return GT exactly on greater terms, whatever the
  gates, and the array recursion never runs out of its step bound.
\<close>

abbreviation lex_st :: "ext \<Rightarrow> bool" where "lex_st \<equiv> \<lambda>_. False"

definition lpo_gt :: "lpo_config \<Rightarrow> trm \<Rightarrow> trm \<Rightarrow> bool" where
  "lpo_gt cfg = path_gt lex_st (lpo_prec cfg)"

abbreviation lpo_ok :: "lpo_config \<Rightarrow> (ext \<Rightarrow> nat) \<Rightarrow> ext set \<Rightarrow> trm \<Rightarrow> bool" where
  "lpo_ok cfg \<equiv> path_ok (lpo_prec cfg)"

abbreviation lpo_verdict :: "lpo_config \<Rightarrow> trm \<Rightarrow> trm \<Rightarrow> lpo_cmp \<Rightarrow> bool" where
  "lpo_verdict cfg \<equiv> verdict_ok lex_st (lpo_prec cfg)"

lemma path_eq_lex: "no_atm s \<Longrightarrow> no_atm t \<Longrightarrow> path_eq lex_st s t \<longleftrightarrow> s = t"
  by (simp add: path_eq_def aabs_inj)

lemma lpo_eq_iff [simp]: "lpo_eq s t \<longleftrightarrow> s = t"
  by (simp add: lpo_eq_def)

lemma occurs_tvars [simp]: "lpo_var_occurs_in t x \<longleftrightarrow> x \<in> tvars t"
  by (induction t) (auto simp: list_ex_iff)

lemma lpo_gt_arg: "s \<in> set ss \<Longrightarrow> s = t \<or> lpo_gt cfg s t \<Longrightarrow> lpo_gt cfg (CTR f ss) t"
  unfolding lpo_gt_def by (rule path_gt_arg) auto

section \<open>Combining the verdicts on arguments\<close>

text \<open>What a comparison of argument lists from left to right delivers.\<close>

definition lex_verdict :: "lpo_config \<Rightarrow> trm list \<Rightarrow> trm list \<Rightarrow> lpo_cmp \<Rightarrow> bool" where
  "lex_verdict cfg ss ts v \<longleftrightarrow>
     (v = LPO_GT \<longleftrightarrow> lex_ext (pgt (lpo_prec cfg)) (map (aabs lex_st) ss) (map (aabs lex_st) ts))
     \<and> (v = LPO_EQ \<longleftrightarrow> map (aabs lex_st) ss = map (aabs lex_st) ts)
     \<and> (lex_ext (pgt (lpo_prec cfg)) (map (aabs lex_st) ts) (map (aabs lex_st) ss) \<longrightarrow> v = LPO_LT)"

lemma lex_verdict_Nil: "lex_verdict cfg [] [] LPO_EQ"
  by (simp add: lex_verdict_def)

lemma lex_verdict_Cons:
  assumes "lpo_verdict cfg s t c" and "c = LPO_EQ \<Longrightarrow> lex_verdict cfg ss ts v" and "c \<noteq> LPO_EQ \<Longrightarrow> v = c"
  shows "lex_verdict cfg (s # ss) (t # ts) v"
proof (cases "c = LPO_EQ")
  case True
  then have "aabs lex_st s = aabs lex_st t" using assms(1) by (simp add: verdict_ok_def path_eq_def)
  then show ?thesis using assms(2) True by (simp add: lex_verdict_def)
next
  case False
  then have "aabs lex_st s \<noteq> aabs lex_st t" using assms(1) by (simp add: verdict_ok_def path_eq_def)
  then show ?thesis using assms(1) assms(3) [OF False] False
    by (auto simp: lex_verdict_def verdict_ok_def path_gt_def)
qed

text \<open>
  The decision on two constructor terms with equal heads, once the two subterm tests have failed:
  the lexicographic verdict, confirmed by the domination of the other side's arguments.
\<close>

lemma same_head_verdict:
  assumes len: "length ss = length ts"
    and some: "\<not> (\<exists>s \<in> set ss. path_eq lex_st s (CTR f ts) \<or> lpo_gt cfg s (CTR f ts))"
      "\<not> (\<exists>t \<in> set ts. path_eq lex_st t (CTR f ss) \<or> lpo_gt cfg t (CTR f ss))"
    and lex: "lex_verdict cfg ss ts c"
    and v: "c = LPO_EQ \<Longrightarrow> v = LPO_EQ"
      "c = LPO_GT \<Longrightarrow> v = (if \<forall>t \<in> set ts. lpo_gt cfg (CTR f ss) t then LPO_GT else LPO_UN)"
      "c \<noteq> LPO_EQ \<Longrightarrow> c \<noteq> LPO_GT \<Longrightarrow> v = (if \<forall>s \<in> set ss. lpo_gt cfg (CTR f ts) s then LPO_LT else LPO_UN)"
  shows "lpo_verdict cfg (CTR f ss) (CTR f ts) v"
proof -
  have gt: "lpo_gt cfg (CTR f ss) (CTR f ts) \<longleftrightarrow> (\<forall>t \<in> set ts. lpo_gt cfg (CTR f ss) t) \<and> c = LPO_GT"
    using path_gt_same_lex [of lex_st f ss ts "lpo_prec cfg"] some(1) lex len
    by (auto simp: lpo_gt_def lex_verdict_def)
  have lt: "lpo_gt cfg (CTR f ts) (CTR f ss) \<Longrightarrow> (\<forall>s \<in> set ss. lpo_gt cfg (CTR f ts) s) \<and> c = LPO_LT"
    using path_gt_same_lex [of lex_st f ts ss "lpo_prec cfg"] some(2) lex len
    by (auto simp: lpo_gt_def lex_verdict_def)
  have eq: "path_eq lex_st (CTR f ss) (CTR f ts) \<longleftrightarrow> c = LPO_EQ"
    using lex by (simp add: path_eq_def lex_verdict_def)
  show ?thesis
    using gt lt eq v by (cases c) (auto simp: verdict_ok_def lpo_gt_def split: if_splits)
qed

text \<open>The decisions for different precedences that look at domination first.\<close>

lemma higher_verdict:
  assumes "lpo_prec cfg f > lpo_prec cfg g" and "\<not> path_eq lex_st (CTR f ss) (CTR g ts)"
    and "r \<longleftrightarrow> (\<forall>t \<in> set ts. lpo_gt cfg (CTR f ss) t)"
    and "q \<longleftrightarrow> (\<exists>t \<in> set ts. path_eq lex_st t (CTR f ss) \<or> lpo_gt cfg t (CTR f ss))"
  shows "lpo_verdict cfg (CTR f ss) (CTR g ts) (if r then LPO_GT else if q then LPO_LT else LPO_UN)"
proof -
  have "path_gt lex_st (lpo_prec cfg) (CTR f ss) (CTR g ts) \<longleftrightarrow> r"
    using path_gt_higher [OF assms(1)] assms(3) by (simp add: lpo_gt_def)
  moreover have "path_gt lex_st (lpo_prec cfg) (CTR g ts) (CTR f ss) \<longleftrightarrow> q"
    using path_gt_lower [OF assms(1)] assms(4) by (simp add: lpo_gt_def)
  ultimately show ?thesis using assms(2) path_gt_asym by (auto simp: verdict_ok_def)
qed

lemma lower_verdict:
  assumes "lpo_prec cfg f < lpo_prec cfg g" and "\<not> path_eq lex_st (CTR f ss) (CTR g ts)"
    and "r \<longleftrightarrow> (\<forall>s \<in> set ss. lpo_gt cfg (CTR g ts) s)"
    and "q \<longleftrightarrow> (\<exists>s \<in> set ss. path_eq lex_st s (CTR g ts) \<or> lpo_gt cfg s (CTR g ts))"
  shows "lpo_verdict cfg (CTR f ss) (CTR g ts) (if r then LPO_LT else if q then LPO_GT else LPO_UN)"
proof -
  have "path_gt lex_st (lpo_prec cfg) (CTR g ts) (CTR f ss) \<longleftrightarrow> r"
    using path_gt_higher [OF assms(1)] assms(3) by (simp add: lpo_gt_def)
  moreover have "path_gt lex_st (lpo_prec cfg) (CTR f ss) (CTR g ts) \<longleftrightarrow> q"
    using path_gt_lower [OF assms(1)] assms(4) by (simp add: lpo_gt_def)
  ultimately show ?thesis using assms(2) path_gt_asym by (auto simp: verdict_ok_def)
qed

section \<open>The recursion on terms\<close>

lemma lpo_rec_CTR:
  "CTR f ss \<noteq> CTR g ts \<Longrightarrow> lpo_rec cfg (CTR f ss) (CTR g ts) =
     (if lpo_some_arg_dominates cfg ss (CTR g ts) then LPO_GT
      else if lpo_some_arg_dominates cfg ts (CTR f ss) then LPO_LT
      else if lpo_prec cfg f > lpo_prec cfg g
      then (if lpo_dominates_all_args cfg (CTR f ss) ts then LPO_GT else LPO_UN)
      else if lpo_prec cfg f < lpo_prec cfg g
      then (if lpo_dominates_all_args cfg (CTR g ts) ss then LPO_LT else LPO_UN)
      else if length ss \<noteq> length ts then LPO_UN
      else (case lpo_lex cfg ss ts of
              LPO_EQ \<Rightarrow> LPO_EQ
            | LPO_GT \<Rightarrow> if lpo_dominates_all_args cfg (CTR f ss) ts then LPO_GT else LPO_UN
            | _ \<Rightarrow> if lpo_dominates_all_args cfg (CTR g ts) ss then LPO_LT else LPO_UN))"
  by (subst lpo_rec.simps) (simp del: trm.inject)

lemma dominates_all_iff:
  "(\<And>t. t \<in> set ts \<Longrightarrow> lpo_verdict cfg s t (lpo_rec cfg s t))
   \<Longrightarrow> lpo_dominates_all_args cfg s ts \<longleftrightarrow> (\<forall>t \<in> set ts. lpo_gt cfg s t)"
  by (induction ts) (auto simp: verdict_ok_def lpo_gt_def)

lemma some_arg_iff:
  "(\<And>s. s \<in> set ss \<Longrightarrow> lpo_verdict cfg s t (lpo_rec cfg s t))
   \<Longrightarrow> lpo_some_arg_dominates cfg ss t \<longleftrightarrow> (\<exists>s \<in> set ss. path_eq lex_st s t \<or> lpo_gt cfg s t)"
  by (induction ss) (auto simp: verdict_ok_def lpo_gt_def)

lemma lpo_lex_verdict:
  "length ss = length ts \<Longrightarrow> (\<And>s t. s \<in> set ss \<Longrightarrow> t \<in> set ts \<Longrightarrow> lpo_verdict cfg s t (lpo_rec cfg s t))
   \<Longrightarrow> lex_verdict cfg ss ts (lpo_lex cfg ss ts)"
  by (induction ss ts rule: list_induct2) (auto simp: Let_def lex_verdict_Nil intro!: lex_verdict_Cons)

lemma lpo_rec_verdict:
  "lpo_ok cfg ar L s \<Longrightarrow> lpo_ok cfg ar L t \<Longrightarrow> lpo_verdict cfg s t (lpo_rec cfg s t)"
proof (induction "tsize s + tsize t" arbitrary: s t rule: less_induct)
  case less
  have na: "no_atm s" "no_atm t" using less.prems path_ok_no_atm by blast+
  show ?case
  proof (cases "s = t \<or> \<not> (\<exists>f ss g ts. s = CTR f ss \<and> t = CTR g ts)")
    case True
    then show ?thesis
      using na path_gt_to_FVR [of s lex_st "lpo_prec cfg"] path_gt_to_FVR [of t lex_st "lpo_prec cfg"]
        path_eq_lex [OF na] verdict_EQ [of lex_st s s]
      by (cases s; cases t) (auto simp: lpo_rec.simps verdict_ok_def)
  next
    case False
    then obtain f ss g ts where st: "s = CTR f ss" "t = CTR g ts" and ne: "s \<noteq> t" by blast
    have neq: "\<not> path_eq lex_st s t" "\<not> path_eq lex_st t s" using ne na by (auto simp: path_eq_lex)
    have oks: "\<forall>u \<in> set ss. lpo_ok cfg ar L u" "\<forall>u \<in> set ts. lpo_ok cfg ar L u"
      using less.prems by (auto simp: st path_ok_CTR)
    have v: "lpo_verdict cfg u w (lpo_rec cfg u w)"
      if "tsize u + tsize w < tsize s + tsize t" "lpo_ok cfg ar L u" "lpo_ok cfg ar L w" for u w
      using less.hyps that by blast
    have sz: "u \<in> set ss \<Longrightarrow> tsize u < tsize s" "u \<in> set ts \<Longrightarrow> tsize u < tsize t" for u
      using tsize_child unfolding st by blast+
    have some1: "lpo_some_arg_dominates cfg ss t \<longleftrightarrow> (\<exists>u \<in> set ss. path_eq lex_st u t \<or> lpo_gt cfg u t)"
      using v sz oks less.prems by (intro some_arg_iff) auto
    have some2: "lpo_some_arg_dominates cfg ts s \<longleftrightarrow> (\<exists>u \<in> set ts. path_eq lex_st u s \<or> lpo_gt cfg u s)"
      using v sz oks less.prems by (intro some_arg_iff) auto
    have all1: "lpo_dominates_all_args cfg s ts \<longleftrightarrow> (\<forall>u \<in> set ts. lpo_gt cfg s u)"
      using v sz oks less.prems by (intro dominates_all_iff) auto
    have all2: "lpo_dominates_all_args cfg t ss \<longleftrightarrow> (\<forall>u \<in> set ss. lpo_gt cfg t u)"
      using v sz oks less.prems by (intro dominates_all_iff) auto
    let ?some1 = "\<exists>u \<in> set ss. path_eq lex_st u t \<or> lpo_gt cfg u t"
    let ?some2 = "\<exists>u \<in> set ts. path_eq lex_st u s \<or> lpo_gt cfg u s"
    note rec = lpo_rec_CTR [OF ne [unfolded st], of cfg, folded st, unfolded some1 some2 all1 all2]
    consider ?some1 | "\<not> ?some1" ?some2 | "\<not> ?some1" "\<not> ?some2" by blast
    then show ?thesis
    proof cases
      case 1
      moreover from 1 have "path_gt lex_st (lpo_prec cfg) s t" using path_gt_arg unfolding lpo_gt_def st by metis
      ultimately show ?thesis using rec by (simp add: verdict_GT)
    next
      case 2
      moreover from 2 have "path_gt lex_st (lpo_prec cfg) t s" using path_gt_arg unfolding lpo_gt_def st by metis
      ultimately show ?thesis using rec by (simp add: verdict_LT)
    next
      case none: 3
      consider "lpo_prec cfg f > lpo_prec cfg g" | "lpo_prec cfg f < lpo_prec cfg g"
        | "lpo_prec cfg f = lpo_prec cfg g" "f = g" "length ss = length ts"
        using path_ok_same_label less.prems unfolding st by (metis linorder_neqE_nat)
      then show ?thesis
      proof cases
        case 1
        then have "lpo_gt cfg s t \<longleftrightarrow> (\<forall>u \<in> set ts. lpo_gt cfg s u)" "\<not> lpo_gt cfg t s"
          using none path_gt_higher path_gt_lower unfolding lpo_gt_def st by metis+
        then show ?thesis using rec none 1 neq by (simp add: verdict_ok_def lpo_gt_def)
      next
        case 2
        then have "lpo_gt cfg t s \<longleftrightarrow> (\<forall>u \<in> set ss. lpo_gt cfg t u)" "\<not> lpo_gt cfg s t"
          using none path_gt_higher path_gt_lower unfolding lpo_gt_def st by metis+
        then show ?thesis using rec none 2 neq by (simp add: verdict_ok_def lpo_gt_def)
      next
        case 3
        have lex: "lex_verdict cfg ss ts (lpo_lex cfg ss ts)"
          by (rule lpo_lex_verdict [OF 3(3)]) (use v sz oks add_strict_mono in blast)
        have t: "t = CTR f ts" using st 3 by simp
        show ?thesis unfolding st(1) t
          by (rule same_head_verdict [OF 3(3) none [unfolded st(1), unfolded t] lex])
            (use rec none 3 in \<open>simp_all add: st split: kbo_cmp.splits\<close>)
      qed
    qed
  qed
qed

section \<open>The pretest on arrays\<close>

lemma sym_prec_lab [simp]: "lpo_sym_prec cfg (lab_sym l) = lpo_prec cfg l"
  by (simp add: lpo_sym_prec_def lpo_prec_def lab_sym_def)

lemma konst_a_pos: "groesser_konst_a cfg pa b > 0 \<Longrightarrow> n \<in> set b \<Longrightarrow> \<not> fl_sym n < 0 \<and> lpo_sym_prec cfg (fl_sym n) < pa"
  by (induction b) (auto split: if_splits)

lemma konst_b_pos: "groesser_konst_b cfg pb a > 0 \<Longrightarrow> \<exists>n \<in> set a. \<not> fl_sym n < 0 \<and> lpo_sym_prec cfg (fl_sym n) \<ge> pb"
  by (induction a) (auto split: if_splits)

text \<open>A constant above every symbol of a ground term is greater.\<close>

lemma konst_greater:
  "no_atm t \<Longrightarrow> (\<And>n. n \<in> set (flat_of vw w t) \<Longrightarrow> \<not> fl_sym n < 0 \<and> lpo_sym_prec cfg (fl_sym n) < lpo_prec cfg c)
   \<Longrightarrow> lpo_gt cfg (CTR c []) t"
proof (induction t)
  case (CTR g ts)
  have "lpo_gt cfg (CTR c []) u" if "u \<in> set ts" for u
    using CTR that by (auto simp: list_all_iff)
  moreover have "lpo_prec cfg c > lpo_prec cfg g" using CTR.prems(2) [of "flat_of vw w (CTR g ts) ! 0"] by simp
  ultimately show ?case unfolding lpo_gt_def by (simp add: path_gt_higher)
qed auto

text \<open>A constant not above some symbol of another term is that term or smaller.\<close>

lemma konst_smaller:
  "lpo_ok cfg ar L s \<Longrightarrow> lpo_ok cfg ar L (CTR c [])
   \<Longrightarrow> \<exists>n \<in> set (flat_of vw w s). \<not> fl_sym n < 0 \<and> lpo_sym_prec cfg (fl_sym n) \<ge> lpo_prec cfg c
   \<Longrightarrow> s = CTR c [] \<or> lpo_gt cfg s (CTR c [])"
proof (induction s)
  case (CTR g ts)
  consider "lpo_prec cfg g > lpo_prec cfg c" | "lpo_prec cfg g = lpo_prec cfg c"
    | u where "u \<in> set ts" "\<exists>n \<in> set (flat_of vw w u). \<not> fl_sym n < 0 \<and> lpo_sym_prec cfg (fl_sym n) \<ge> lpo_prec cfg c"
    using CTR.prems(3) by (auto simp: le_less)
  then show ?case
  proof cases
    case 1
    then show ?thesis by (simp add: lpo_gt_def path_gt_higher)
  next
    case 2
    then have "g = c \<and> length ts = length ([] :: trm list)" using path_ok_same_label CTR.prems(1,2) by blast
    then show ?thesis by simp
  next
    case (3 u)
    have "lpo_ok cfg ar L u" using CTR.prems(1) 3(1) by (simp add: path_ok_CTR)
    then have "u = CTR c [] \<or> lpo_gt cfg u (CTR c [])" using CTR.IH [OF 3(1)] CTR.prems(2) 3(2) by blast
    then show ?thesis using lpo_gt_arg [OF 3(1)] by blast
  qed
qed (auto simp: path_ok_def)

lemma subterm_lpo_gt: "u \<in> subterms s \<Longrightarrow> u = s \<or> lpo_gt cfg s u"
proof (induction s)
  case (CTR f ss)
  from CTR.prems consider "u = CTR f ss" | s where "s \<in> set ss" "u \<in> subterms s" by auto
  then show ?case
  proof cases
    case (2 s)
    then have "s = u \<or> lpo_gt cfg s u" using CTR.IH by blast
    then show ?thesis using lpo_gt_arg [OF 2(1)] by blast
  qed simp
qed auto

text \<open>Every position of the array of a term holds a subterm, proper but at the start.\<close>

lemma flat_position:
  "i < tsize s \<Longrightarrow> \<exists>u \<in> subterms s. spells vw w (flat_of vw w s) i u \<and> (0 < i \<longrightarrow> u \<noteq> s)"
proof (induction s arbitrary: i)
  case (CTR f ss)
  show ?case
  proof (cases i)
    case (Suc k)
    have "k < sum_list (map tsize ss')
      \<Longrightarrow> \<exists>s \<in> set ss'. \<exists>u \<in> subterms s. spells vw w (concat (map (flat_of vw w) ss')) k u"
      if "set ss' \<subseteq> set ss" for ss'
      using that
    proof (induction ss' arbitrary: k)
      case (Cons s ss')
      show ?case
      proof (cases "k < tsize s")
        case True
        then obtain u where u: "u \<in> subterms s" "spells vw w (flat_of vw w s) k u" using CTR.IH Cons.prems by force
        then obtain xs ys where "flat_of vw w s = xs @ flat_of vw w u @ ys" "length xs = k" by (auto simp: spells_def)
        then have "spells vw w (concat (map (flat_of vw w) (s # ss'))) k u"
          unfolding spells_def by (intro exI [where x = xs] exI [where x = "ys @ concat (map (flat_of vw w) ss')"]) simp
        then show ?thesis using u(1) by auto
      next
        case False
        then have "k - tsize s < sum_list (map tsize ss')" using Cons.prems by simp
        then obtain s' u where u: "s' \<in> set ss'" "u \<in> subterms s'"
            "spells vw w (concat (map (flat_of vw w) ss')) (k - tsize s) u"
          using Cons.IH [of "k - tsize s"] Cons.prems(2) by auto
        then obtain xs ys where "concat (map (flat_of vw w) ss') = xs @ flat_of vw w u @ ys" "length xs = k - tsize s"
          by (auto simp: spells_def)
        then have "spells vw w (concat (map (flat_of vw w) (s # ss'))) k u"
          unfolding spells_def using False
          by (intro exI [where x = "flat_of vw w s @ xs"] exI [where x = ys]) simp
        then show ?thesis using u(1,2) by auto
      qed
    qed simp
    then obtain s u where u: "s \<in> set ss" "u \<in> subterms s" "spells vw w (concat (map (flat_of vw w) ss)) k u"
      using CTR.prems Suc by fastforce
    then obtain xs ys where "concat (map (flat_of vw w) ss) = xs @ flat_of vw w u @ ys" "length xs = k"
      by (auto simp: spells_def)
    then have "spells vw w (flat_of vw w (CTR f ss)) i u"
      unfolding spells_def using Suc
      by (intro exI [where x = "flat_of vw w (CTR f ss) ! 0 # xs"] exI [where x = ys]) simp
    moreover have "u \<noteq> CTR f ss" using u(1,2) tsize_child [OF u(1)] subterms_tsize [OF u(2)] by auto
    ultimately show ?thesis using u(1,2) by auto
  qed (auto simp: spells_def)
qed (auto simp: spells_def)

lemma flat_vars: "n \<in> set (flat_of vw w t) \<Longrightarrow> fl_sym n = var_sym x \<Longrightarrow> x \<in> tvars t"
proof (induction t)
  case (ATM g e v)
  then show ?case using var_sym_neg [of x] by simp
qed auto

lemma tsize_eq_1: "tsize (CTR f ts) = 1 \<longleftrightarrow> ts = []"
  by (cases ts) auto

lemma spells_syms:
  "spells vw w a p t \<Longrightarrow> map fl_sym (take (tsize t) (drop p a)) = syms_of t"
  by (simp add: spells_node(3) map_sym_flat)

lemma scan_sound:
  assumes ok: "ar_cons ar s" "ar_cons ar t" and scan: "groesser_scan (flat_of vw w s) (flat_of vw' w' t)"
    and len: "tsize t < tsize s"
  shows "lpo_gt cfg s t"
proof -
  let ?a = "flat_of vw w s" and ?b = "flat_of vw' w' t"
  from scan obtain i where i: "1 \<le> i" "i < tsize s - tsize t + 1" "fl_sym (?a ! i) = fl_sym (?b ! 0)"
      "fl_sz (?a ! i) = fl_sz (?b ! 0)" "\<And>j. 1 \<le> j \<Longrightarrow> j < tsize t \<Longrightarrow> fl_sym (?a ! (i + j)) = fl_sym (?b ! j)"
    by (auto simp: groesser_scan_def list_ex_iff list_all_iff)
  have p: "0 < tsize t" by simp
  have "i < tsize s" using i(2) p len by linarith
  then obtain u where u: "u \<in> subterms s" "spells vw w ?a i u" "u \<noteq> s" using flat_position [of i s vw w] i(1) by auto
  have sz: "tsize u = tsize t"
    using i(4) spells_sz [OF u(2)] spells_sz [OF spells_start [of vw' w' t]] by simp
  have "fl_sym (?a ! (i + j)) = fl_sym (?b ! j)" if "j < tsize t" for j
    using i(3) i(5) [of j] that by (cases j) auto
  moreover have "i + tsize t \<le> tsize s" using spells_node(2) [OF u(2)] sz by simp
  ultimately have "map fl_sym (take (tsize u) (drop i ?a)) = map fl_sym ?b"
    by (intro nth_equalityI) (auto simp: sz)
  then have "syms_of u = syms_of t" using spells_syms [OF u(2)] by (simp add: map_sym_flat)
  moreover have "ar_cons ar u" using ok(1) u(1)
  proof (induction s)
    case (CTR f ss)
    then show ?case by (auto simp: list_all_iff)
  qed auto
  ultimately have "u = t" using ok(2) syms_of_inj by blast
  then show ?thesis using subterm_lpo_gt [OF u(1)] u(3) by blast
qed

lemma groesser_CTR:
  "lpo_pretest_groesser_flat (flat_of vw w (CTR f ss)) (flat_of vw' w' (CTR g ts)) cfg =
     (if ss = [] then groesser_konst_a cfg (lpo_prec cfg f) (flat_of vw' w' (CTR g ts))
      else if ts = [] then groesser_konst_b cfg (lpo_prec cfg g) (flat_of vw w (CTR f ss))
      else if tsize (CTR f ss) \<le> tsize (CTR g ts) then 0
      else if groesser_scan (flat_of vw w (CTR f ss)) (flat_of vw' w' (CTR g ts)) then 1 else 0)"
proof -
  have n: "fl_sym (flat_of vw w (CTR f ss) ! 0) = lab_sym f" "fl_sz (flat_of vw w (CTR f ss) ! 0) = 1 \<longleftrightarrow> ss = []"
    for vw w f ss by (cases ss; simp)+
  show ?thesis unfolding lpo_pretest_groesser_flat_def n length_flat_of by simp
qed

text \<open>The pretest only claims what the ordering confirms.\<close>

lemma groesser_sound:
  assumes ok: "lpo_ok cfg ar L s" "lpo_ok cfg ar L t"
    and pos: "lpo_pretest_groesser_flat (flat_of vw w s) (flat_of vw' w' t) cfg > 0"
  shows "lpo_gt cfg s t"
proof -
  have na: "no_atm s" "no_atm t" using ok path_ok_no_atm by blast+
  have ar: "ar_cons ar s" "ar_cons ar t" using ok by (auto simp: path_ok_def)
  obtain f ss where s: "s = CTR f ss" using pos na(1)
    by (cases s) (auto simp: lpo_pretest_groesser_flat_def split: if_splits)
  show ?thesis
  proof (cases t)
    case (FVR x)
    then have "list_ex (\<lambda>i. fl_sym (flat_of vw w s ! i) = var_sym x) [1..<tsize s]"
      using pos by (auto simp: lpo_pretest_groesser_flat_def s simp del: upt_Suc split: if_splits)
    then obtain i where "i < tsize s" "fl_sym (flat_of vw w s ! i) = var_sym x"
      by (auto simp: list_ex_iff)
    then have "x \<in> tvars s" using flat_vars [of "flat_of vw w s ! i" vw w s x] by simp
    then show ?thesis using na FVR s by (simp add: lpo_gt_def path_gt_to_FVR)
  next
    case t: (CTR g ts)
    consider (a) "ss = []" "groesser_konst_a cfg (lpo_prec cfg f) (flat_of vw' w' t) > 0"
      | (b) "ss \<noteq> []" "ts = []" "groesser_konst_b cfg (lpo_prec cfg g) (flat_of vw w s) > 0"
      | (scan) "groesser_scan (flat_of vw w s) (flat_of vw' w' t)" "tsize t < tsize s"
      using pos unfolding s t groesser_CTR by (auto split: if_splits)
    then show ?thesis
    proof cases
      case a
      then show ?thesis unfolding s a by (intro konst_greater [OF na(2)]) (rule konst_a_pos)
    next
      case b
      from konst_smaller [OF ok(1) ok(2) [unfolded t b] konst_b_pos [OF b(3)]]
      show ?thesis using b by (simp add: s t)
    next
      case scan
      then show ?thesis using scan_sound ar by blast
    qed
  qed (use na in auto)
qed

section \<open>The recursion on arrays\<close>

abbreviation lw :: "lpo_config \<Rightarrow> ext \<Rightarrow> int" where "lw cfg \<equiv> \<lambda>l. as_i32 (lpo_prec cfg l)"

text \<open>The arrays hold precedences as i32; they agree with the u32 values below two to the 31.\<close>

definition prec_i32 :: "lpo_config \<Rightarrow> bool" where
  "prec_i32 cfg \<longleftrightarrow> (\<forall>p \<in> set (lc_precedence cfg). int p < 2147483648) \<and> lc_n_labels cfg \<le> length (lc_precedence cfg)"

lemma lw_prec: "prec_i32 cfg \<Longrightarrow> lw cfg l = int (lpo_prec cfg l)"
  by (intro as_i32_small) (auto simp: prec_i32_def lpo_prec_def)

lemma flat_slice_spells: "spells vw w a p t \<Longrightarrow> flat_slice a p = flat_of vw w t"
  by (simp add: flat_slice_def spells_sz spells_node(3))

lemma spells_nth: "spells vw w a p t \<Longrightarrow> i < tsize t \<Longrightarrow> a ! (p + i) = flat_of vw w t ! i"
  using spells_node [of vw w a p t] by (metis add_leD1 nth_drop nth_take)

lemma slice_eq_spells:
  assumes "spells vw w a p s" "spells vw w b q t" "ar_cons ar s" "ar_cons ar t"
  shows "lpo_flat_slice_eq a p b q \<longleftrightarrow> s = t"
proof
  assume h: "lpo_flat_slice_eq a p b q"
  then have sz: "tsize s = tsize t" using assms(1,2) by (simp add: lpo_flat_slice_eq_def spells_sz split: if_splits)
  have p: "p + i < length a" "q + i < length b" if "i < tsize s" for i
    using that spells_node(2) [OF assms(1)] spells_node(2) [OF assms(2)] sz by auto
  have "fl_sym (a ! (p + i)) = fl_sym (b ! (q + i))" if "i < tsize s" for i
    using h that assms(1) by (cases "i = 0") (auto simp: lpo_flat_slice_eq_def spells_sz list_all_iff split: if_splits)
  then have "map fl_sym (flat_of vw w s) = map fl_sym (flat_of vw w t)"
    using spells_nth [OF assms(1)] spells_nth [OF assms(2)] sz by (intro nth_equalityI) auto
  then show "s = t" using syms_of_inj assms(3,4) by (simp add: map_sym_flat)
next
  assume eq: "s = t"
  have "a ! (p + i) = b ! (q + i)" if "i < tsize s" for i
    using that spells_nth [OF assms(1)] spells_nth [OF assms(2)] eq by simp
  moreover have "a ! p = b ! q" using spells_node(1) [OF assms(1)] spells_node(1) [OF assms(2)] eq by simp
  ultimately show "lpo_flat_slice_eq a p b q"
    using spells_sz [OF assms(1)] spells_sz [OF assms(2)] eq by (auto simp: lpo_flat_slice_eq_def list_all_iff)
qed

lemma flat_has_var: "no_atm t \<Longrightarrow> x \<in> tvars t \<Longrightarrow> \<exists>n \<in> set (flat_of vw w t). fl_sym n = var_sym x"
  by (induction t) (auto simp: list_all_iff, blast)

lemma var_occurs_spells:
  assumes "spells vw w a p t" and "no_atm t"
  shows "lpo_flat_var_occurs a p (var_sym x) \<longleftrightarrow> x \<in> tvars t"
proof -
  have "lpo_flat_var_occurs a p (var_sym x) \<longleftrightarrow> (\<exists>i. i < tsize t \<and> fl_sym (a ! (p + i)) = var_sym x)"
    using assms(1) by (auto simp: lpo_flat_var_occurs_def list_ex_iff spells_sz)
      (metis add_diff_inverse_nat less_diff_conv2 add.commute not_less nat_add_left_cancel_less)
  also have "\<dots> \<longleftrightarrow> (\<exists>n \<in> set (flat_of vw w t). fl_sym n = var_sym x)"
    using spells_nth [OF assms(1)] by (metis in_set_conv_nth length_flat_of)
  also have "\<dots> \<longleftrightarrow> x \<in> tvars t" using flat_has_var [OF assms(2)] flat_vars by blast
  finally show ?thesis .
qed

text \<open>
  The loops: they never run out, and they decide what their names say, where A is the condition
  under which the comparisons are right.
\<close>

lemma flat_all_gt_spec:
  assumes "spells_args vw w b p ts" and "end' = p + sum_list (map tsize ts)" and "length ts < n"
    and "\<And>t q. t \<in> set ts \<Longrightarrow> spells vw w b q t \<Longrightarrow> \<exists>v. cmp q = Some v \<and> (A \<longrightarrow> (v = LPO_GT \<longleftrightarrow> G t))"
  shows "\<exists>r. flat_all_gt n cmp b p end' = Some r \<and> (A \<longrightarrow> (r \<longleftrightarrow> (\<forall>t \<in> set ts. G t)))"
  using assms
proof (induction ts arbitrary: n p)
  case Nil
  then show ?case by (cases n) auto
next
  case (Cons t ts)
  then obtain m where n: "n = Suc m" by (cases n) auto
  have sp: "spells vw w b p t" "spells_args vw w b (p + tsize t) ts" using Cons.prems(1) by (auto simp: spells_args_Cons)
  obtain v where v: "cmp p = Some v" "A \<longrightarrow> (v = LPO_GT \<longleftrightarrow> G t)" using Cons.prems(4) [of t p] sp(1) by auto
  have lt: "p < end'" using Cons.prems(2) tsize_pos [of t] by simp
  show ?case
  proof (cases "v = LPO_GT")
    case True
    have "\<exists>r. flat_all_gt m cmp b (p + tsize t) end' = Some r \<and> (A \<longrightarrow> (r \<longleftrightarrow> (\<forall>t \<in> set ts. G t)))"
      using Cons.prems by (intro Cons.IH [OF sp(2)]) (auto simp: n)
    then show ?thesis using v True lt by (auto simp: n spells_sz [OF sp(1)])
  qed (use v lt in \<open>auto simp: n\<close>)
qed

lemma flat_some_geq_spec:
  assumes "spells_args vw w b p ts" and "end' = p + sum_list (map tsize ts)" and "length ts < n"
    and "\<And>t q. t \<in> set ts \<Longrightarrow> spells vw w b q t
      \<Longrightarrow> \<exists>v. cmp q = Some v \<and> (A \<longrightarrow> (v = LPO_EQ \<or> v = LPO_GT \<longleftrightarrow> G t))"
  shows "\<exists>r. flat_some_geq n cmp b p end' = Some r \<and> (A \<longrightarrow> (r \<longleftrightarrow> (\<exists>t \<in> set ts. G t)))"
  using assms
proof (induction ts arbitrary: n p)
  case Nil
  then show ?case by (cases n) auto
next
  case (Cons t ts)
  then obtain m where n: "n = Suc m" by (cases n) auto
  have sp: "spells vw w b p t" "spells_args vw w b (p + tsize t) ts" using Cons.prems(1) by (auto simp: spells_args_Cons)
  obtain v where v: "cmp p = Some v" "A \<longrightarrow> (v = LPO_EQ \<or> v = LPO_GT \<longleftrightarrow> G t)" using Cons.prems(4) [of t p] sp(1) by auto
  have lt: "p < end'" using Cons.prems(2) tsize_pos [of t] by simp
  show ?case
  proof (cases "v = LPO_EQ \<or> v = LPO_GT")
    case False
    have "\<exists>r. flat_some_geq m cmp b (p + tsize t) end' = Some r \<and> (A \<longrightarrow> (r \<longleftrightarrow> (\<exists>t \<in> set ts. G t)))"
      using Cons.prems by (intro Cons.IH [OF sp(2)]) (auto simp: n)
    then show ?thesis using v False lt by (auto simp: n spells_sz [OF sp(1)])
  qed (use v lt in \<open>auto simp: n\<close>)
qed

text \<open>The lexicographic loop stops at the first difference; what it passed over is equal.\<close>

definition lex_stop :: "bool \<Rightarrow> (ext \<Rightarrow> int) \<Rightarrow> trm list \<Rightarrow> flat \<Rightarrow> nat \<Rightarrow> nat \<Rightarrow> trm list \<Rightarrow> flat \<Rightarrow> nat \<Rightarrow> nat \<Rightarrow> bool" where
  "lex_stop A w ss a da ea ts b db eb \<longleftrightarrow>
     (\<exists>us ss' vs ts'. ss = us @ ss' \<and> ts = vs @ ts' \<and> (A \<longrightarrow> us = vs)
        \<and> spells_args 0 w a da ss' \<and> ea = da + sum_list (map tsize ss')
        \<and> spells_args 0 w b db ts' \<and> eb = db + sum_list (map tsize ts'))"

lemma lex_stop_Cons:
  assumes "lex_stop A w ss a da ea ts b db eb" and "A \<longrightarrow> s = t"
  shows "lex_stop A w (s # ss) a da ea (t # ts) b db eb"
proof -
  obtain us ss' vs ts' where "ss = us @ ss' \<and> ts = vs @ ts' \<and> (A \<longrightarrow> us = vs)
        \<and> spells_args 0 w a da ss' \<and> ea = da + sum_list (map tsize ss')
        \<and> spells_args 0 w b db ts' \<and> eb = db + sum_list (map tsize ts')"
    using assms(1) unfolding lex_stop_def by (elim exE)
  then show ?thesis
    unfolding lex_stop_def using assms(2)
    by (intro exI [where x = "s # us"] exI [where x = ss'] exI [where x = "t # vs"] exI [where x = ts']) simp
qed

lemma lex_stop_here:
  "spells_args 0 w a p ss \<Longrightarrow> ea = p + sum_list (map tsize ss) \<Longrightarrow> spells_args 0 w b q ts
   \<Longrightarrow> eb = q + sum_list (map tsize ts) \<Longrightarrow> lex_stop A w ss a p ea ts b q eb"
  unfolding lex_stop_def
  by (intro exI [where x = "[]"] exI [where x = ss] exI [where x = ts]) simp

lemma flat_lex_diff_spec:
  assumes "spells_args 0 w a p ss" and "ea = p + sum_list (map tsize ss)" and "length ss < n"
    and "spells_args 0 w b q ts" and "eb = q + sum_list (map tsize ts)"
    and "A \<Longrightarrow> length ss = length ts" and "A \<Longrightarrow> list_all no_atm (ss @ ts)"
    and "\<And>s t i j. s \<in> set ss \<Longrightarrow> t \<in> set ts \<Longrightarrow> spells 0 w a i s \<Longrightarrow> spells 0 w b j t
      \<Longrightarrow> \<exists>v. cmp i j = Some v \<and> (A \<longrightarrow> lpo_verdict cfg s t v)"
  shows "\<exists>c da db. flat_lex_diff n cmp a p ea b q eb = Some (c, da, db) \<and> (A \<longrightarrow> lex_verdict cfg ss ts c)
    \<and> (c \<noteq> LPO_EQ \<longrightarrow> lex_stop A w ss a da ea ts b db eb)"
  using assms
proof (induction ss arbitrary: n p q ts)
  case Nil
  then show ?case by (cases n) (auto simp: lex_verdict_Nil)
next
  case (Cons s ss)
  obtain m where n: "n = Suc m" using Cons.prems(3) by (cases n) auto
  show ?case
  proof (cases ts)
    case Nil
    then show ?thesis using Cons.prems by (auto simp: n)
  next
    case ts: (Cons t us)
    have sp: "spells 0 w a p s" "spells_args 0 w a (p + tsize s) ss"
        "spells 0 w b q t" "spells_args 0 w b (q + tsize t) us"
      using Cons.prems(1,4) by (auto simp: ts spells_args_Cons)
    have lt: "p < ea" "q < eb" using Cons.prems(2,5) tsize_pos [of s] tsize_pos [of t] by (simp_all add: ts)
    obtain v where v: "cmp p q = Some v" "A \<longrightarrow> lpo_verdict cfg s t v"
      using Cons.prems(8) [OF _ _ sp(1,3)] by (auto simp: ts)
    show ?thesis
    proof (cases "v = LPO_EQ")
      case True
      have st: "A \<longrightarrow> s = t" using v(2) Cons.prems(7) True by (auto simp: verdict_ok_def path_eq_lex ts)
      have "\<exists>c da db. flat_lex_diff m cmp a (p + tsize s) ea b (q + tsize t) eb = Some (c, da, db)
          \<and> (A \<longrightarrow> lex_verdict cfg ss us c) \<and> (c \<noteq> LPO_EQ \<longrightarrow> lex_stop A w ss a da ea us b db eb)"
        by (rule Cons.IH [OF sp(2) _ _ sp(4)]) (use Cons.prems(2,3,5-8) ts n in simp_all)
      then obtain c da db where c: "flat_lex_diff m cmp a (p + tsize s) ea b (q + tsize t) eb = Some (c, da, db)"
          "A \<longrightarrow> lex_verdict cfg ss us c" "c \<noteq> LPO_EQ \<longrightarrow> lex_stop A w ss a da ea us b db eb"
        by blast
      have "flat_lex_diff n cmp a p ea b q eb = Some (c, da, db)"
        using c(1) v(1) True lt by (simp add: n spells_sz [OF sp(1)] spells_sz [OF sp(3)])
      moreover have "A \<longrightarrow> lex_verdict cfg (s # ss) ts c"
        using lex_verdict_Cons [of cfg s t v ss us c] v(2) c(2) True by (simp add: ts)
      ultimately show ?thesis using lex_stop_Cons c(3) st unfolding ts by blast
    next
      case False
      have "flat_lex_diff n cmp a p ea b q eb = Some (v, p, q)" using v(1) False lt by (simp add: n)
      moreover have "A \<longrightarrow> lex_verdict cfg (s # ss) ts v"
        using lex_verdict_Cons [of cfg s t v ss us v] v(2) False by (simp add: ts)
      moreover have "lex_stop A w (s # ss) a p ea ts b q eb"
        using Cons.prems(1,2,4,5) by (rule lex_stop_here)
      ultimately show ?thesis by blast
    qed
  qed
qed

text \<open>
  A comparison of positions that answers, and answers right under A, for all terms of two sets;
  the loops over it on the children that the recursion runs.
\<close>

definition cmp_good :: "bool \<Rightarrow> lpo_config \<Rightarrow> flat \<Rightarrow> flat \<Rightarrow> (nat \<Rightarrow> nat \<Rightarrow> lpo_cmp option) \<Rightarrow> trm set \<Rightarrow> trm set \<Rightarrow> bool" where
  "cmp_good A cfg a b cmp U V \<longleftrightarrow>
     (\<forall>u \<in> U. \<forall>v \<in> V. \<forall>i j. spells 0 (lw cfg) a i u \<and> spells 0 (lw cfg) b j v
        \<longrightarrow> (\<exists>c. cmp i j = Some c \<and> (A \<longrightarrow> lpo_verdict cfg u v c)))"

abbreviation geq :: "lpo_config \<Rightarrow> trm \<Rightarrow> trm \<Rightarrow> bool" where
  "geq cfg s t \<equiv> path_eq lex_st s t \<or> lpo_gt cfg s t"

lemma length_le_tsizes: "length ts \<le> sum_list (map tsize ts)"
proof (induction ts)
  case (Cons t ts)
  have "0 < tsize t" by (rule tsize_pos)
  then show ?case using Cons.IH by (simp add: Suc_le_eq del: tsize_pos)
qed simp

lemma all_loop:
  assumes "cmp_good A cfg a b cmp {s} V" and "spells 0 (lw cfg) a pa s"
    and "spells_args 0 (lw cfg) b d ts" and "e = d + sum_list (map tsize ts)" and "set ts \<subseteq> V"
  shows "\<exists>r. flat_all_gt (Suc e) (cmp pa) b d e = Some r \<and> (A \<longrightarrow> (r \<longleftrightarrow> (\<forall>v \<in> set ts. lpo_gt cfg s v)))"
proof (rule flat_all_gt_spec [OF assms(3,4)])
  show "length ts < Suc e" using assms(4) length_le_tsizes [of ts] by simp
  show "\<exists>v. cmp pa q = Some v \<and> (A \<longrightarrow> (v = LPO_GT \<longleftrightarrow> lpo_gt cfg s t))"
    if "t \<in> set ts" "spells 0 (lw cfg) b q t" for t q
    using assms(1,2,5) that by (fastforce simp: cmp_good_def verdict_ok_def lpo_gt_def)
qed

lemma some_loop:
  assumes "cmp_good A cfg a b cmp (set ss) {t}" and "spells 0 (lw cfg) b pb t"
    and "spells_args 0 (lw cfg) a d ss" and "e = d + sum_list (map tsize ss)"
  shows "\<exists>r. flat_some_geq (Suc e) (\<lambda>c. cmp c pb) a d e = Some r \<and> (A \<longrightarrow> (r \<longleftrightarrow> (\<exists>u \<in> set ss. geq cfg u t)))"
proof (rule flat_some_geq_spec [OF assms(3,4)])
  show "length ss < Suc e" using assms(4) length_le_tsizes [of ss] by simp
  show "\<exists>v. cmp q pb = Some v \<and> (A \<longrightarrow> (v = LPO_EQ \<or> v = LPO_GT \<longleftrightarrow> geq cfg s t))"
    if "s \<in> set ss" "spells 0 (lw cfg) a q s" for s q
    using assms(1,2) that by (fastforce simp: cmp_good_def verdict_ok_def lpo_gt_def)
qed

lemma lex_loop:
  assumes "cmp_good A cfg a b cmp (set ss) (set ts)"
    and "spells_args 0 (lw cfg) a p ss" and "ea = p + sum_list (map tsize ss)"
    and "spells_args 0 (lw cfg) b q ts" and "eb = q + sum_list (map tsize ts)"
    and "A \<Longrightarrow> length ss = length ts" and "list_all no_atm (ss @ ts)"
  shows "\<exists>c da db. flat_lex_diff (Suc ea) cmp a p ea b q eb = Some (c, da, db) \<and> (A \<longrightarrow> lex_verdict cfg ss ts c)
    \<and> (c \<noteq> LPO_EQ \<longrightarrow> lex_stop A (lw cfg) ss a da ea ts b db eb)"
proof (rule flat_lex_diff_spec [OF assms(2,3) _ assms(4,5)])
  show "length ss < Suc ea" using assms(3) length_le_tsizes [of ss] by simp
qed (use assms in \<open>auto simp: cmp_good_def\<close>)

text \<open>Past the first difference only the rest of the arguments has to be dominated.\<close>

lemma rest_loop:
  assumes "cmp_good A cfg a b cmp {CTR f ss} (set ts)" and "spells 0 (lw cfg) a pa (CTR f ss)"
    and "ts = us @ ts'" and "A \<longrightarrow> set us \<subseteq> set ss"
    and "spells_args 0 (lw cfg) b d ts'" and "e = d + sum_list (map tsize ts')"
  shows "\<exists>r. flat_all_gt (Suc e) (cmp pa) b d e = Some r \<and> (A \<longrightarrow> (r \<longleftrightarrow> (\<forall>v \<in> set ts. lpo_gt cfg (CTR f ss) v)))"
proof -
  obtain r where r: "flat_all_gt (Suc e) (cmp pa) b d e = Some r"
      "A \<longrightarrow> (r \<longleftrightarrow> (\<forall>v \<in> set ts'. lpo_gt cfg (CTR f ss) v))"
    using all_loop [OF assms(1,2,5,6)] assms(3) by auto
  have "A \<longrightarrow> (\<forall>v \<in> set us. lpo_gt cfg (CTR f ss) v)" using assms(4) lpo_gt_arg by blast
  then have "A \<longrightarrow> (r \<longleftrightarrow> (\<forall>v \<in> set ts. lpo_gt cfg (CTR f ss) v))" using r(2) assms(3) by auto
  then show ?thesis using r(1) by blast
qed

text \<open>The branch for equal precedences.\<close>

lemma same_head_branch:
  assumes good: "cmp_good A cfg a b ab (set ss) {CTR g ts}" "cmp_good A cfg b a ba (set ts) {CTR f ss}"
      "cmp_good A cfg a b ab (set ss) (set ts)"
      "cmp_good A cfg a b ab {CTR f ss} (set ts)" "cmp_good A cfg b a ba {CTR g ts} (set ss)"
    and sp: "spells 0 (lw cfg) a pa (CTR f ss)" "spells 0 (lw cfg) b pb (CTR g ts)"
    and end': "ea = Suc pa + sum_list (map tsize ss)" "eb = Suc pb + sum_list (map tsize ts)"
    and same: "A \<Longrightarrow> g = f" "A \<Longrightarrow> length ss = length ts" and na: "list_all no_atm (ss @ ts)"
  shows "\<exists>v. do {
           some_a \<leftarrow> flat_some_geq (Suc ea) (\<lambda>c. ab c pb) a (pa + 1) ea;
           if some_a then Some LPO_GT
           else do {
             some_b \<leftarrow> flat_some_geq (Suc eb) (\<lambda>c. ba c pa) b (pb + 1) eb;
             if some_b then Some LPO_LT
             else do {
               (lex, diff_a, diff_b) \<leftarrow> flat_lex_diff (Suc ea) ab a (pa + 1) ea b (pb + 1) eb;
               if lex = LPO_EQ then Some LPO_EQ
               else if lex = LPO_GT
               then do {
                 all \<leftarrow> flat_all_gt (Suc eb) (ab pa) b diff_b eb;
                 Some (if all then LPO_GT else LPO_UN)
               }
               else do {
                 all \<leftarrow> flat_all_gt (Suc ea) (ba pb) a diff_a ea;
                 Some (if all then LPO_LT else LPO_UN)
               }
             }
           }
         } = Some v \<and> (A \<longrightarrow> lpo_verdict cfg (CTR f ss) (CTR g ts) v)" (is "\<exists>v. ?branch = Some v \<and> _")
proof -
  note args = spells_CTR [OF sp(1)] spells_CTR [OF sp(2)]
  obtain p where p: "flat_some_geq (Suc ea) (\<lambda>c. ab c pb) a (Suc pa) ea = Some p"
      "A \<longrightarrow> (p \<longleftrightarrow> (\<exists>u \<in> set ss. geq cfg u (CTR g ts)))"
    using some_loop [OF good(1) sp(2) args(1) end'(1)] by blast
  obtain q where q: "flat_some_geq (Suc eb) (\<lambda>c. ba c pa) b (Suc pb) eb = Some q"
      "A \<longrightarrow> (q \<longleftrightarrow> (\<exists>u \<in> set ts. geq cfg u (CTR f ss)))"
    using some_loop [OF good(2) sp(1) args(2) end'(2)] by blast
  obtain c da db where lex: "flat_lex_diff (Suc ea) ab a (Suc pa) ea b (Suc pb) eb = Some (c, da, db)"
      "A \<longrightarrow> lex_verdict cfg ss ts c" "c \<noteq> LPO_EQ \<longrightarrow> lex_stop A (lw cfg) ss a da ea ts b db eb"
    using lex_loop [OF good(3) args(1) end'(1) args(2) end'(2) same(2) na] by blast
  have dom: "\<exists>r. flat_all_gt (Suc eb) (ab pa) b db eb = Some r \<and> (A \<longrightarrow> (r \<longleftrightarrow> (\<forall>v \<in> set ts. lpo_gt cfg (CTR f ss) v)))"
    "\<exists>r. flat_all_gt (Suc ea) (ba pb) a da ea = Some r \<and> (A \<longrightarrow> (r \<longleftrightarrow> (\<forall>v \<in> set ss. lpo_gt cfg (CTR g ts) v)))"
    if "c \<noteq> LPO_EQ"
  proof -
    have "lex_stop A (lw cfg) ss a da ea ts b db eb" using lex(3) that by simp
    then obtain us ss' vs ts' where d: "ss = us @ ss'" "ts = vs @ ts'" "A \<longrightarrow> us = vs"
        "spells_args 0 (lw cfg) a da ss'" "ea = da + sum_list (map tsize ss')"
        "spells_args 0 (lw cfg) b db ts'" "eb = db + sum_list (map tsize ts')"
      unfolding lex_stop_def by (elim exE conjE)
    show "\<exists>r. flat_all_gt (Suc eb) (ab pa) b db eb = Some r \<and> (A \<longrightarrow> (r \<longleftrightarrow> (\<forall>v \<in> set ts. lpo_gt cfg (CTR f ss) v)))"
      by (rule rest_loop [OF good(4) sp(1) d(2) _ d(6,7)]) (use d(1,3) in simp)
    show "\<exists>r. flat_all_gt (Suc ea) (ba pb) a da ea = Some r \<and> (A \<longrightarrow> (r \<longleftrightarrow> (\<forall>v \<in> set ss. lpo_gt cfg (CTR g ts) v)))"
      by (rule rest_loop [OF good(5) sp(2) d(1) _ d(4,5)]) (use d(2,3) in simp)
  qed
  consider p | "\<not> p" q | "\<not> p" "\<not> q" by blast
  then show ?thesis
  proof cases
    case 1
    then have "A \<longrightarrow> lpo_verdict cfg (CTR f ss) (CTR g ts) LPO_GT"
      using p(2) lpo_gt_arg path_gt_arg verdict_GT unfolding lpo_gt_def by blast
    then show ?thesis using p(1) 1 by simp
  next
    case 2
    then have "A \<longrightarrow> lpo_verdict cfg (CTR f ss) (CTR g ts) LPO_LT"
      using q(2) path_gt_arg verdict_LT unfolding lpo_gt_def by blast
    then show ?thesis using p(1) q(1) 2 by simp
  next
    case 3
    obtain v where v: "?branch = Some v" "c = LPO_EQ \<longrightarrow> v = LPO_EQ"
        "A \<and> c = LPO_GT \<longrightarrow> v = (if \<forall>t \<in> set ts. lpo_gt cfg (CTR f ss) t then LPO_GT else LPO_UN)"
        "A \<and> c \<noteq> LPO_EQ \<and> c \<noteq> LPO_GT \<longrightarrow> v = (if \<forall>s \<in> set ss. lpo_gt cfg (CTR g ts) s then LPO_LT else LPO_UN)"
    proof (cases "c = LPO_EQ")
      case True
      then show ?thesis using that [of LPO_EQ] p(1) q(1) lex(1) 3 by simp
    next
      case False
      obtain r r' where r: "flat_all_gt (Suc eb) (ab pa) b db eb = Some r" "A \<longrightarrow> (r \<longleftrightarrow> (\<forall>v \<in> set ts. lpo_gt cfg (CTR f ss) v))"
          "flat_all_gt (Suc ea) (ba pb) a da ea = Some r'" "A \<longrightarrow> (r' \<longleftrightarrow> (\<forall>v \<in> set ss. lpo_gt cfg (CTR g ts) v))"
        using dom [OF False] by blast
      then show ?thesis
        using that [of "if c = LPO_GT then if r then LPO_GT else LPO_UN else if r' then LPO_LT else LPO_UN"]
          p(1) q(1) lex(1) 3 False by simp
    qed
    have "lpo_verdict cfg (CTR f ss) (CTR g ts) v" if A
    proof -
      have g: "g = f" using same(1) that by simp
      have no: "\<not> (\<exists>u \<in> set ss. geq cfg u (CTR f ts))" "\<not> (\<exists>u \<in> set ts. geq cfg u (CTR f ss))"
        using p(2) q(2) 3 that unfolding g by blast+
      have vs: "c = LPO_GT \<Longrightarrow> v = (if \<forall>t \<in> set ts. lpo_gt cfg (CTR f ss) t then LPO_GT else LPO_UN)"
          "c \<noteq> LPO_EQ \<Longrightarrow> c \<noteq> LPO_GT \<Longrightarrow> v = (if \<forall>s \<in> set ss. lpo_gt cfg (CTR f ts) s then LPO_LT else LPO_UN)"
        using v(3,4) that unfolding g by blast+
      show ?thesis unfolding g
        by (rule same_head_verdict [OF same(2) [OF that] no lex(2) [rule_format, OF that] v(2) [rule_format] vs])
    qed
    then show ?thesis using v(1) by blast
  qed
qed

text \<open>The recursion: total within the bound, and right on admissible terms.\<close>

lemma fl_w_CTR: "spells vw w a p (CTR f ss) \<Longrightarrow> fl_w (a ! p) = w f"
  by (auto dest: spells_node(1))

lemma lpo_flat_rec_leaf:
  "lpo_flat_slice_eq a pa b pb \<or> fl_sym (a ! pa) < 0 \<or> fl_sym (b ! pb) < 0 \<Longrightarrow>
   lpo_flat_rec (Suc n) cfg a pa b pb = Some
     (if lpo_flat_slice_eq a pa b pb then LPO_EQ
      else if fl_sym (a ! pa) < 0 \<and> fl_sym (b ! pb) < 0 then LPO_UN
      else if fl_sym (a ! pa) < 0
      then (if lpo_flat_var_occurs b pb (fl_sym (a ! pa)) then LPO_LT else LPO_UN)
      else (if lpo_flat_var_occurs a pa (fl_sym (b ! pb)) then LPO_GT else LPO_UN))"
  by (auto simp: Let_def)

text \<open>One level on two constructor nodes.\<close>

lemma lpo_flat_rec_node:
  fixes cfg :: lpo_config and s t :: trm and f g :: ext and ss ts :: "trm list" and n :: nat and a b :: flat
    and ar :: "ext \<Rightarrow> nat" and L :: "ext set"
  defines "ab \<equiv> \<lambda>i j. lpo_flat_rec n cfg a i b j" and "ba \<equiv> \<lambda>j i. lpo_flat_rec n cfg b j a i"
    and "A \<equiv> prec_i32 cfg \<and> lpo_ok cfg ar L (CTR f ss) \<and> lpo_ok cfg ar L (CTR g ts)"
  assumes sp: "spells 0 (lw cfg) a pa (CTR f ss)" "spells 0 (lw cfg) b pb (CTR g ts)"
    and na: "no_atm (CTR f ss)" "no_atm (CTR g ts)" and ne: "\<not> lpo_flat_slice_eq a pa b pb"
    and good: "cmp_good A cfg a b ab (set ss) {CTR g ts}" "cmp_good A cfg b a ba (set ts) {CTR f ss}"
      "cmp_good A cfg a b ab (set ss) (set ts)"
      "cmp_good A cfg a b ab {CTR f ss} (set ts)" "cmp_good A cfg b a ba {CTR g ts} (set ss)"
  shows "\<exists>v. lpo_flat_rec (Suc n) cfg a pa b pb = Some v \<and> (A \<longrightarrow> lpo_verdict cfg (CTR f ss) (CTR g ts) v)"
proof -
  let ?s = "CTR f ss" and ?t = "CTR g ts" and ?w = "lw cfg"
  let ?ea = "pa + fl_sz (a ! pa)" and ?eb = "pb + fl_sz (b ! pb)"
  note args = spells_CTR [OF sp(1)] spells_CTR [OF sp(2)]
  have ends: "?ea = Suc pa + sum_list (map tsize ss)" "?eb = Suc pb + sum_list (map tsize ts)"
    using spells_sz [OF sp(1)] spells_sz [OF sp(2)] by simp_all
  have neq: "\<not> path_eq lex_st ?s ?t" if A
    using that ne slice_eq_spells [OF sp] path_eq_lex [OF na] by (auto simp: A_def path_ok_def)
  have prec: "lw cfg l = int (lpo_prec cfg l)" if A for l using that lw_prec by (simp add: A_def)
  note node = flat_slice_spells [OF sp(1)] flat_slice_spells [OF sp(2)] spells_sym(2) [OF sp(1)]
    spells_sym(2) [OF sp(2)] fl_w_CTR [OF sp(1)] fl_w_CTR [OF sp(2)] lab_sym_nonneg ne
  let ?pre = "\<lambda>x y. lpo_pretest_groesser_flat (flat_of 0 ?w x) (flat_of 0 ?w y) cfg > 0"
  have pre: "?pre ?s ?t \<Longrightarrow> A \<Longrightarrow> lpo_gt cfg ?s ?t" "?pre ?t ?s \<Longrightarrow> A \<Longrightarrow> lpo_gt cfg ?t ?s"
    unfolding A_def using groesser_sound by blast+
  note step = lpo_flat_rec.simps(2) [of n cfg a pa b pb] Let_def node if_False if_True
  consider (pre1) "?pre ?s ?t" | (pre2) "\<not> ?pre ?s ?t" "?pre ?t ?s"
    | (high) "\<not> ?pre ?s ?t" "\<not> ?pre ?t ?s" "lw cfg g < lw cfg f"
    | (low) "\<not> ?pre ?s ?t" "\<not> ?pre ?t ?s" "lw cfg f < lw cfg g"
    | (same) "\<not> ?pre ?s ?t" "\<not> ?pre ?t ?s" "lw cfg f = lw cfg g"
    by linarith
  then show ?thesis
  proof cases
    case pre1
    then have "lpo_flat_rec (Suc n) cfg a pa b pb = Some LPO_GT" by (simp only: step) simp
    then show ?thesis using pre(1) [OF pre1] verdict_GT by (auto simp: lpo_gt_def)
  next
    case pre2
    then have "lpo_flat_rec (Suc n) cfg a pa b pb = Some LPO_LT" by (simp only: step) simp
    then show ?thesis using pre(2) [OF pre2(2)] verdict_LT by (auto simp: lpo_gt_def)
  next
    case high
    have lt: "A \<Longrightarrow> lpo_prec cfg g < lpo_prec cfg f" using high(3) prec by simp
    obtain r q where r: "flat_all_gt (Suc ?eb) (ab pa) b (Suc pb) ?eb = Some r"
        "A \<longrightarrow> (r \<longleftrightarrow> (\<forall>v \<in> set ts. lpo_gt cfg ?s v))"
        "flat_some_geq (Suc ?eb) (\<lambda>c. ba c pa) b (Suc pb) ?eb = Some q"
        "A \<longrightarrow> (q \<longleftrightarrow> (\<exists>u \<in> set ts. geq cfg u ?s))"
      using all_loop [OF good(4) sp(1) args(2) ends(2)] some_loop [OF good(2) sp(1) args(2) ends(2)] by blast
    let ?v = "if r then LPO_GT else if q then LPO_LT else LPO_UN"
    have "lpo_flat_rec (Suc n) cfg a pa b pb = Some ?v"
      using r(1,3) high unfolding ab_def ba_def by (simp only: step) simp
    moreover have "A \<longrightarrow> lpo_verdict cfg ?s ?t ?v"
      using higher_verdict [of cfg g f ss ts r q, OF lt] neq r(2,4) by blast
    ultimately show ?thesis by blast
  next
    case low
    have lt: "A \<Longrightarrow> lpo_prec cfg f < lpo_prec cfg g" using low(3) prec by simp
    obtain r q where r: "flat_all_gt (Suc ?ea) (ba pb) a (Suc pa) ?ea = Some r"
        "A \<longrightarrow> (r \<longleftrightarrow> (\<forall>v \<in> set ss. lpo_gt cfg ?t v))"
        "flat_some_geq (Suc ?ea) (\<lambda>c. ab c pb) a (Suc pa) ?ea = Some q"
        "A \<longrightarrow> (q \<longleftrightarrow> (\<exists>u \<in> set ss. geq cfg u ?t))"
      using all_loop [OF good(5) sp(2) args(1) ends(1)] some_loop [OF good(1) sp(2) args(1) ends(1)] by blast
    let ?v = "if r then LPO_LT else if q then LPO_GT else LPO_UN"
    have "lpo_flat_rec (Suc n) cfg a pa b pb = Some ?v"
      using r(1,3) low unfolding ab_def ba_def by (simp only: step) simp
    moreover have "A \<longrightarrow> lpo_verdict cfg ?s ?t ?v"
      using lower_verdict [of cfg f g ss ts r q, OF lt] neq r(2,4) by blast
    ultimately show ?thesis by blast
  next
    case same
    have lab: "A \<Longrightarrow> g = f" "A \<Longrightarrow> length ss = length ts"
      using path_ok_same_label [of "lpo_prec cfg" ar L f ss g ts] same(3) prec by (auto simp: A_def)
    have "list_all no_atm (ss @ ts)" using na by simp
    from same_head_branch [OF good sp ends lab this]
    show ?thesis unfolding ab_def ba_def using same by (simp only: step) simp
  qed
qed

lemma lpo_flat_rec_spec:
  "spells 0 (lw cfg) a pa s \<Longrightarrow> spells 0 (lw cfg) b pb t \<Longrightarrow> no_atm s \<Longrightarrow> no_atm t \<Longrightarrow> tsize s + tsize t < n
   \<Longrightarrow> \<exists>v. lpo_flat_rec n cfg a pa b pb = Some v
    \<and> (prec_i32 cfg \<and> lpo_ok cfg ar L s \<and> lpo_ok cfg ar L t \<longrightarrow> lpo_verdict cfg s t v)"
proof (induction n arbitrary: a pa s b pb t)
  case (Suc n)
  note sp = Suc.prems(1,2) and na = Suc.prems(3,4)
  have eq: "lpo_flat_slice_eq a pa b pb \<longleftrightarrow> s = t" if "lpo_ok cfg ar L s \<and> lpo_ok cfg ar L t"
    using that slice_eq_spells [OF sp] by (auto simp: path_ok_def)
  show ?case
  proof (cases "lpo_flat_slice_eq a pa b pb \<or> \<not> (\<exists>f ss g ts. s = CTR f ss \<and> t = CTR g ts)")
    case True
    with True show ?thesis
      using eq na path_gt_to_FVR [of s lex_st "lpo_prec cfg"] path_gt_to_FVR [of t lex_st "lpo_prec cfg"]
        path_eq_lex [OF na] var_occurs_spells [OF sp(1)] var_occurs_spells [OF sp(2)] verdict_EQ [of lex_st s s] sp
      by (cases s; cases t)
        (auto simp: verdict_ok_def spells_sym lpo_flat_rec_leaf simp del: lpo_flat_rec.simps)
  next
    case False
    then obtain f ss g ts where st: "s = CTR f ss" "t = CTR g ts" by blast
    let ?A = "prec_i32 cfg \<and> lpo_ok cfg ar L s \<and> lpo_ok cfg ar L t"
    let ?small = "\<lambda>U V. \<forall>u \<in> U. \<forall>v \<in> V. tsize u + tsize v < n \<and> no_atm u \<and> no_atm v
      \<and> (?A \<longrightarrow> lpo_ok cfg ar L u \<and> lpo_ok cfg ar L v)"
    have good: "cmp_good ?A cfg x y (\<lambda>i j. lpo_flat_rec n cfg x i y j) U V" if "?small U V" for x y U V
      unfolding cmp_good_def using Suc.IH [where a = x and b = y] that by blast
    have lt: "u \<in> set ss \<Longrightarrow> tsize u < tsize s" "u \<in> set ts \<Longrightarrow> tsize u < tsize t" for u
      using tsize_child unfolding st by blast+
    have child: "u \<in> set ss \<union> set ts \<Longrightarrow> no_atm u \<and> (?A \<longrightarrow> lpo_ok cfg ar L u)" for u
      using na by (auto simp: st list_all_iff path_ok_CTR)
    have bound: "tsize s + tsize t < Suc n" by fact
    have small: "?small (set ss) {t}" "?small (set ts) {s}" "?small (set ss) (set ts)" "?small {s} (set ts)" "?small {t} (set ss)"
      using child na lt bound by fastforce+
    note goods = good [OF small(1), of a b] good [OF small(2), of b a] good [OF small(3), of a b]
      good [OF small(4), of a b] good [OF small(5), of b a]
    have "\<not> lpo_flat_slice_eq a pa b pb" using False by blast
    then show ?thesis using goods sp na unfolding st by (intro lpo_flat_rec_node)
  qed
qed simp

end
