(* ===== verification/LPO_Props.thy ===== *)
theory LPO_Props
  imports LPO_Order
begin

text \<open>
  What thvm_lpo promises its clients: the verdict of the entry point against the lexicographic
  path ordering for every setting of the gates, the variable-set pretest included, and what
  follows for rewriting with rules it orients.
\<close>

section \<open>The variable-set pretest\<close>

lemma varsets_incomparableD:
  assumes "varsets_incomparable vs vt"
    and "\<And>i. i < LPO_MAX_VAR \<Longrightarrow> vs ! i \<longleftrightarrow> (\<exists>x \<in> S. unat x = i)" and "\<And>i. i < LPO_MAX_VAR \<Longrightarrow> vt ! i \<longleftrightarrow> (\<exists>x \<in> T. unat x = i)"
  shows "\<not> S \<subseteq> T" and "\<not> T \<subseteq> S"
  using assms by (auto simp: varsets_incomparable_def list_ex_iff)

lemma flat_var_set_nth:
  "flat_var_set a vs = Some r \<Longrightarrow> length vs = LPO_MAX_VAR \<Longrightarrow> i < LPO_MAX_VAR
   \<Longrightarrow> r ! i \<longleftrightarrow> vs ! i \<or> (\<exists>n \<in> set a. fl_sym n < 0 \<and> nat (- fl_sym n - 1) = i)"
proof (induction a arbitrary: vs)
  case (Cons n a)
  show ?case
  proof (cases "fl_sym n < 0")
    case True
    let ?vid = "nat (- fl_sym n - 1)"
    have "flat_var_set a (vs[?vid := True]) = Some r" "?vid < LPO_MAX_VAR"
      using Cons.prems(1) True by (auto simp: Let_def split: if_splits)
    then show ?thesis using Cons.IH [of "vs[?vid := True]"] Cons.prems(2,3) True by (auto simp: nth_list_update)
  next
    case False
    then show ?thesis using Cons by simp
  qed
qed simp

lemma flat_var_set_terms:
  assumes "flat_var_set (flat_of vw w t) (replicate LPO_MAX_VAR False) = Some r" and "no_atm t" and "i < LPO_MAX_VAR"
  shows "r ! i \<longleftrightarrow> (\<exists>x \<in> tvars t. unat x = i)"
proof -
  have "(\<exists>n \<in> set (flat_of vw w t). fl_sym n < 0 \<and> nat (- fl_sym n - 1) = i) \<longleftrightarrow> (\<exists>x \<in> tvars t. unat x = i)"
    using assms(2)
  proof (induction t)
    case (FVR x)
    then show ?case by (auto simp: var_sym_def intro: order_less_le_trans [OF _ unsigned_greater_eq])
  next
    case (CTR l ts)
    then show ?case by (fastforce simp: list_all_iff)
  qed simp
  then show ?thesis using flat_var_set_nth [OF assms(1) _ assms(3)] assms(3) by simp
qed

lemma lpo_var_set_acc_nth:
  "length vs = LPO_MAX_VAR \<Longrightarrow> length (lpo_var_set_acc t vs) = LPO_MAX_VAR
   \<and> (\<forall>i < LPO_MAX_VAR. lpo_var_set_acc t vs ! i \<longleftrightarrow> vs ! i \<or> (\<exists>x \<in> tvars t. unat x = i))"
proof (induction t arbitrary: vs)
  case (CTR l ts)
  have "length vs = LPO_MAX_VAR \<Longrightarrow> length (fold lpo_var_set_acc us vs) = LPO_MAX_VAR
     \<and> (\<forall>i < LPO_MAX_VAR. fold lpo_var_set_acc us vs ! i \<longleftrightarrow> vs ! i \<or> (\<exists>u \<in> set us. \<exists>x \<in> tvars u. unat x = i))"
    if "set us \<subseteq> set ts" for us vs
    using that
  proof (induction us arbitrary: vs)
    case (Cons u us)
    have "length (lpo_var_set_acc u vs) = LPO_MAX_VAR
        \<and> (\<forall>i < LPO_MAX_VAR. lpo_var_set_acc u vs ! i \<longleftrightarrow> vs ! i \<or> (\<exists>x \<in> tvars u. unat x = i))"
      using CTR.IH [of u vs] Cons.prems by simp
    then show ?case using Cons.IH [of "lpo_var_set_acc u vs"] Cons.prems by auto
  qed simp
  from this [of ts vs] show ?case using CTR.prems by auto
qed (auto simp: nth_list_update)

lemma incomparable_verdict:
  assumes "\<not> tvars s \<subseteq> tvars t" and "\<not> tvars t \<subseteq> tvars s" and "no_atm s" and "no_atm t"
  shows "lpo_verdict cfg s t LPO_UN"
proof -
  have "\<not> path_gt lex_st (lpo_prec cfg) s t" "\<not> path_gt lex_st (lpo_prec cfg) t s"
    using path_gt_vars assms by blast+
  moreover have "s \<noteq> t" using assms(1) by blast
  ultimately show ?thesis using path_eq_lex [OF assms(3,4)] by (simp add: verdict_ok_def)
qed

lemma lpo_tree_verdict:
  assumes "lpo_ok cfg ar L s" and "lpo_ok cfg ar L t"
  shows "lpo_verdict cfg s t (lpo_tree cfg s t)"
proof (cases "lpo_pretest_varset s t")
  case None
  then show ?thesis using lpo_rec_verdict [OF assms] by (simp add: lpo_tree_def)
next
  case (Some c)
  let ?v = "\<lambda>t. lpo_var_set_acc t (replicate LPO_MAX_VAR False)"
  have "varsets_incomparable (?v s) (?v t)" "c = LPO_UN"
    using Some by (auto simp: lpo_pretest_varset_def Let_def split: if_splits)
  moreover from this(1) have "\<not> tvars s \<subseteq> tvars t" "\<not> tvars t \<subseteq> tvars s"
    using varsets_incomparableD [of "?v s" "?v t" "tvars s" "tvars t"]
      lpo_var_set_acc_nth [of "replicate LPO_MAX_VAR False"] by auto
  ultimately show ?thesis
    using incomparable_verdict path_ok_no_atm assms Some by (simp add: lpo_tree_def)
qed

section \<open>The entry point\<close>

lemma lpo_encode: "lpo_flat_encode cfg t [] = (if no_atm t \<and> tsize t \<le> KBO_FLAT_CAP then Some (flat_of 0 (lw cfg) t) else None)"
  by (simp add: lpo_flat_encode_def flat_encode_spec)

lemma lpo_flat_top_spec:
  assumes "no_atm s" and "no_atm t"
  shows "\<exists>v. lpo_flat_top vortest cfg (flat_of 0 (lw cfg) s) (flat_of 0 (lw cfg) t) = Some v
    \<and> (prec_i32 cfg \<and> lpo_ok cfg ar L s \<and> lpo_ok cfg ar L t \<longrightarrow> lpo_verdict cfg s t v)"
proof -
  let ?A = "prec_i32 cfg \<and> lpo_ok cfg ar L s \<and> lpo_ok cfg ar L t"
  let ?a = "flat_of 0 (lw cfg) s" and ?b = "flat_of 0 (lw cfg) t" and ?none = "replicate LPO_MAX_VAR False"
  let ?inc = "case (flat_var_set ?a ?none, flat_var_set ?b ?none) of
                (Some vs, Some vt) \<Rightarrow> varsets_incomparable vs vt | _ \<Rightarrow> False"
  obtain v where v: "lpo_flat_rec (Suc (length ?a + length ?b)) cfg ?a 0 ?b 0 = Some v" "?A \<longrightarrow> lpo_verdict cfg s t v"
    using lpo_flat_rec_spec [OF spells_start spells_start assms, of _ cfg ar L] by fastforce
  have pre: "?A \<Longrightarrow> lpo_pretest_groesser_flat ?a ?b cfg > 0 \<Longrightarrow> lpo_verdict cfg s t LPO_GT"
      "?A \<Longrightarrow> lpo_pretest_groesser_flat ?b ?a cfg > 0 \<Longrightarrow> lpo_verdict cfg s t LPO_LT"
    using groesser_sound verdict_GT verdict_LT unfolding lpo_gt_def by blast+
  have inc: "lpo_verdict cfg s t LPO_UN" if ?inc
  proof -
    obtain vs vt where v: "flat_var_set ?a ?none = Some vs" "flat_var_set ?b ?none = Some vt" "varsets_incomparable vs vt"
      using \<open>?inc\<close> by (auto split: option.splits)
    show ?thesis
      using varsets_incomparableD [OF v(3), of "tvars s" "tvars t"] flat_var_set_terms [OF v(1) assms(1)]
        flat_var_set_terms [OF v(2) assms(2)] by (intro incomparable_verdict assms) auto
  qed
  show ?thesis
    using v pre inc unfolding lpo_flat_top_def Let_def by (simp split: if_split)
qed

lemma dispatch_verdict:
  assumes "lpo_ok cfg ar L s" and "lpo_ok cfg ar L t" and "lpo_pretest_flat_dispatch s t cfg = Some c"
  shows "lpo_verdict cfg s t c"
  using assms groesser_sound [OF assms(1,2)] groesser_sound [OF assms(2,1)] verdict_GT verdict_LT
  by (auto simp: lpo_pretest_flat_dispatch_def kbo_flat_encode_def flat_encode_spec Let_def lpo_gt_def split: if_splits)

text \<open>The step bound of the model never runs out.\<close>

lemma lpo_flat_total: "thvm_lpo_gated vortest flatrec cfg s t = Some (thvm_lpo vortest flatrec cfg s t)"
proof -
  have "\<exists>v. thvm_lpo_gated vortest flatrec cfg s t = Some v"
    using lpo_flat_top_spec [of s t vortest cfg undefined undefined]
    by (auto simp: thvm_lpo_gated_def lpo_encode split: option.splits)
  then show ?thesis by (auto simp: thvm_lpo_def)
qed

lemma thvm_lpo_verdict:
  assumes prec: "prec_i32 cfg" and ok: "lpo_ok cfg ar L s" "lpo_ok cfg ar L t"
  shows "lpo_verdict cfg s t (thvm_lpo vortest flatrec cfg s t)"
proof -
  have na: "no_atm s" "no_atm t" using ok path_ok_no_atm by blast+
  obtain v where v: "lpo_flat_top vortest cfg (flat_of 0 (lw cfg) s) (flat_of 0 (lw cfg) t) = Some v" "lpo_verdict cfg s t v"
    using lpo_flat_top_spec [OF na, of vortest cfg ar L] prec ok by blast
  show ?thesis
    using v lpo_tree_verdict [OF ok] dispatch_verdict [OF ok] na
    by (auto simp: thvm_lpo_def thvm_lpo_gated_def lpo_encode split: option.splits)
qed

section \<open>Properties\<close>

text \<open>C18: the value of thvm_lpo. On admissible terms (labels of L told apart by the precedence
  with values below 2 ^ 31, one arity per label, no immediates) and for all settings of the two gates, the entry point
  returns GT exactly if the first term is greater in the lexicographic path ordering and EQ
  exactly on equal terms, returns LT whenever the second term is greater, and never runs out of
  the step bound; the array recursion therefore agrees with the recursion on terms on GT and EQ.\<close>
theorem thvm_lpo_correct:
  assumes "prec_i32 cfg" and "lpo_ok cfg ar L s" and "lpo_ok cfg ar L t"
  shows "thvm_lpo_gated vortest flatrec cfg s t = Some (thvm_lpo vortest flatrec cfg s t)
    \<and> (thvm_lpo vortest flatrec cfg s t = LPO_GT \<longleftrightarrow> lpo_gt cfg s t)
    \<and> (thvm_lpo vortest flatrec cfg s t = LPO_EQ \<longleftrightarrow> s = t)
    \<and> (lpo_gt cfg t s \<longrightarrow> thvm_lpo vortest flatrec cfg s t = LPO_LT)
    \<and> (thvm_lpo vortest flatrec cfg s t = LPO_GT \<longleftrightarrow> lpo_tree cfg s t = LPO_GT)"
  using thvm_lpo_verdict [OF assms, of vortest flatrec] lpo_tree_verdict [OF assms(2,3)]
    path_eq_lex [OF path_ok_no_atm [OF assms(2)] path_ok_no_atm [OF assms(3)]] lpo_flat_total
  by (auto simp: verdict_ok_def lpo_gt_def)

text \<open>Three labels 0 < 1 < 2 of arities 0, 1 and 2.\<close>

definition lpo_cfg3 :: lpo_config where
  "lpo_cfg3 = \<lparr>lc_precedence = [1, 2, 3], lc_n_labels = 3\<rparr>"

abbreviation ar3 :: "ext \<Rightarrow> nat" where "ar3 \<equiv> unat"

lemma lpo_cfg3_ok: "lpo_ok lpo_cfg3 ar3 {0, 1, 2} t \<longleftrightarrow> ar_cons ar3 t \<and> labs_in {0, 1, 2} t"
  by (simp add: path_ok_def lpo_prec_def lpo_cfg3_def inj_on_def)

theorem thvm_lpo_correct_witness:
  "lpo_gt lpo_cfg3 (CTR 2 [CTR 1 [FVR 3], FVR 4]) (CTR 1 [CTR 2 [FVR 3, FVR 4]])"
proof -
  let ?s = "CTR 2 [CTR 1 [FVR 3], FVR 4]" and ?t = "CTR 1 [CTR 2 [FVR 3, FVR 4]]"
  have ok: "lpo_ok lpo_cfg3 ar3 {0, 1, 2} ?s" "lpo_ok lpo_cfg3 ar3 {0, 1, 2} ?t"
    unfolding lpo_cfg3_ok by simp_all
  have prec: "prec_i32 lpo_cfg3" by code_simp
  have "thvm_lpo False True lpo_cfg3 ?s ?t = LPO_GT" by code_simp
  then show ?thesis using thvm_lpo_correct [OF prec ok, of False True] by blast
qed



text \<open>
  LT is also returned for incomparable terms: on f(x, y) and f(y, x) each is reported smaller
  than the other, since a lexicographic difference that is not GT is taken as LT.
\<close>

lemma lpo_lt_both_ways:
  "thvm_lpo vortest flatrec lpo_cfg3 (CTR 2 [FVR 3, FVR 4]) (CTR 2 [FVR 4, FVR 3]) = LPO_LT
   \<and> thvm_lpo vortest flatrec lpo_cfg3 (CTR 2 [FVR 4, FVR 3]) (CTR 2 [FVR 3, FVR 4]) = LPO_LT"
  by (cases vortest; cases flatrec) (simp; code_simp)+

end
