(* ===== verification/FOL_Print.thy ===== *)
theory FOL_Print
  imports FOL_Sat_Props
begin

text \<open>
  The proof printer of src/fol/sat.c: the walk over the inference trace that prints every
  ancestor of a clause once, parents first. The output file is the list of lines; the walk has a
  depth bound and is None when it runs out, which it does not on the states of the loop.
\<close>

section \<open>Lines\<close>

fun dec :: "nat \<Rightarrow> string" where
  "dec n = (if n < 10 then [char_of (48 + n)] else dec (n div 10) @ [char_of (48 + n mod 10)])"

declare dec.simps [simp del]

fun cnf_rule_name :: "fol_inf \<Rightarrow> string" where
  "cnf_rule_name FOL_INF_INPUT = ''input''"
| "cnf_rule_name FOL_INF_RESOLVE = ''resolve''"
| "cnf_rule_name FOL_INF_FACTOR = ''factor''"
| "cnf_rule_name FOL_INF_PARAMOD = ''paramod''"
| "cnf_rule_name FOL_INF_REFLEX = ''reflex''"
| "cnf_rule_name FOL_INF_EQ_FACTOR = ''eq-factor''"
| "cnf_rule_name FOL_INF_DEMOD = ''demod''"

text \<open>Strings with a separator between them.\<close>

fun sep_by :: "string \<Rightarrow> string list \<Rightarrow> string" where
  "sep_by d [] = []"
| "sep_by d [x] = x"
| "sep_by d (x # xs) = x @ d @ sep_by d xs"

fun cnf_print_atom :: "trm \<Rightarrow> string" where
  "cnf_print_atom (FVR x) = ''v'' @ dec (unat x)"
| "cnf_print_atom (CTR l ts) =
     ''s'' @ dec (unat l) @ (if ts = [] then [] else ''('' @ sep_by '', '' (map cnf_print_atom ts) @ '')'')"
| "cnf_print_atom (ATM g e v) = ''?''"

definition cnf_print_clause_line :: "cnf_state \<Rightarrow> nat \<Rightarrow> string" where
  "cnf_print_clause_line s cid =
     (case cnf_clauses s ! cid of
        None \<Rightarrow> ''c'' @ dec cid @ '': <freed>'' @ [CHR 0x0A]
      | Some c \<Rightarrow>
          let t = cnf_trace s ! cid
          in ''c'' @ dec cid @ '': '' @ cnf_rule_name (tr_rule t) @
             (case tr_parent_a t of
                None \<Rightarrow> []
              | Some a \<Rightarrow> '' [c'' @ dec a @
                  (case tr_parent_b t of None \<Rightarrow> [] | Some b \<Rightarrow> '', c'' @ dec b) @ '']'') @
             ''   '' @
             (if length c = 0 then ''FALSE''
              else sep_by '' | '' (map (\<lambda>l. (if lit_sign l \<noteq> 0 then ''~'' else []) @ cnf_print_atom (lit_atom l)) c)) @
             [CHR 0x0A])"

section \<open>The walk\<close>

text \<open>The visited flags and the lines so far, with the ids they are for.\<close>

fun cnf_print_proof_rec :: "nat \<Rightarrow> cnf_state \<Rightarrow> nat \<Rightarrow> bool list \<times> (nat \<times> string) list
    \<Rightarrow> (bool list \<times> (nat \<times> string) list) option" where
  "cnf_print_proof_rec 0 s cid st = None"
| "cnf_print_proof_rec (Suc d) s cid (visited, out) =
     (if cid \<ge> length visited \<or> visited ! cid then Some (visited, out)
      else let t = cnf_trace s ! cid
      in do {
        st \<leftarrow> (case tr_parent_a t of None \<Rightarrow> Some (visited[cid := True], out)
              | Some a \<Rightarrow> cnf_print_proof_rec d s a (visited[cid := True], out));
        (visited, out) \<leftarrow> (case tr_parent_b t of None \<Rightarrow> Some st | Some b \<Rightarrow> cnf_print_proof_rec d s b st);
        Some (visited, out @ [(cid, cnf_print_clause_line s cid)])
      })"

definition cnf_print_proof :: "cnf_state \<Rightarrow> nat \<Rightarrow> (nat \<times> string) list option" where
  "cnf_print_proof s root_id =
     (if root_id \<ge> length (cnf_clauses s) then Some []
      else map_option snd
        (cnf_print_proof_rec (Suc (length (cnf_clauses s))) s root_id (replicate (length (cnf_clauses s)) False, [])))"

section \<open>What the walk prints\<close>

text \<open>Every printed id comes after its parents.\<close>

definition after_parents :: "cnf_state \<Rightarrow> nat list \<Rightarrow> bool" where
  "after_parents s xs \<longleftrightarrow> (\<forall>k < length xs. tr_parents (cnf_trace s ! (xs ! k)) \<subseteq> set (take k xs))"

definition ancestors :: "cnf_state \<Rightarrow> nat \<Rightarrow> nat set" where
  "ancestors s c = {p. (\<lambda>a b. b \<in> tr_parents (cnf_trace s ! a))\<^sup>*\<^sup>* c p}"

lemma ancestors_self [simp]: "c \<in> ancestors s c"
  by (simp add: ancestors_def)

lemma ancestors_step: "p \<in> tr_parents (cnf_trace s ! c) \<Longrightarrow> ancestors s p \<subseteq> ancestors s c"
  by (auto simp: ancestors_def intro: converse_rtranclp_into_rtranclp)

lemma after_parents_snoc: "after_parents s (xs @ [c]) \<longleftrightarrow> after_parents s xs \<and> tr_parents (cnf_trace s ! c) \<subseteq> set xs"
  by (auto simp: after_parents_def nth_append less_Suc_eq)

definition walk_inv :: "cnf_state \<Rightarrow> bool list \<times> (nat \<times> string) list \<Rightarrow> bool" where
  "walk_inv s st \<longleftrightarrow> (case st of (visited, out) \<Rightarrow>
     length visited = length (cnf_clauses s) \<and> (\<forall>i \<in> fst ` set out. i < length visited \<and> visited ! i)
     \<and> distinct (map fst out) \<and> after_parents s (map fst out)
     \<and> (\<forall>(i, l) \<in> set out. l = cnf_print_clause_line s i))"

text \<open>The ids entered but not yet printed.\<close>

definition in_progress :: "bool list \<times> (nat \<times> string) list \<Rightarrow> nat set" where
  "in_progress st = {i. i < length (fst st) \<and> fst st ! i \<and> i \<notin> fst ` set (snd st)}"

text \<open>A visit of c leads from one state to another.\<close>

definition visits :: "cnf_state \<Rightarrow> nat \<Rightarrow> bool list \<times> (nat \<times> string) list \<Rightarrow> bool list \<times> (nat \<times> string) list \<Rightarrow> bool" where
  "visits s c st st' \<longleftrightarrow> walk_inv s st' \<and> in_progress st' = in_progress st
     \<and> (\<exists>new. snd st' = snd st @ new \<and> fst ` set new \<subseteq> ancestors s c) \<and> c \<in> fst ` set (snd st')"

lemma proof_rec_visits:
  assumes shape: "sat_wf s"
  shows "c < length (cnf_clauses s) \<Longrightarrow> c < d \<Longrightarrow> walk_inv s st \<Longrightarrow> \<forall>i \<in> in_progress st. c < i
    \<Longrightarrow> \<exists>st'. cnf_print_proof_rec d s c st = Some st' \<and> visits s c st st'
        \<and> (\<not> fst st ! c \<longrightarrow> (\<exists>out. snd st' = out @ [(c, cnf_print_clause_line s c)]))"
proof (induction d arbitrary: c st)
  case (Suc d)
  obtain visited out where st: "st = (visited, out)" by fastforce
  have len: "length visited = length (cnf_clauses s)" using Suc.prems(3) by (simp add: walk_inv_def st)
  show ?case
  proof (cases "visited ! c")
    case True
    then have "c \<in> fst ` set out" using Suc.prems(1,4) len by (auto simp: in_progress_def st)
    then show ?thesis using True Suc.prems(3) by (auto simp: st visits_def)
  next
    case False
    let ?t = "cnf_trace s ! c" and ?st0 = "(visited[c := True], out)"
    have below: "p < c" if "p \<in> tr_parents ?t" for p using shape that Suc.prems(1) by (auto simp: sat_wf_def)
    have notout: "c \<notin> fst ` set out" using Suc.prems(3) False by (auto simp: walk_inv_def st)
    have upd: "visited[c := True] ! i \<longleftrightarrow> visited ! i \<or> i = c" for i
      using Suc.prems(1) len by (cases "i = c") auto
    have inv0: "walk_inv s ?st0" using Suc.prems(3) by (auto simp: walk_inv_def st upd)
    have prog0: "in_progress ?st0 = insert c (in_progress st)"
      using Suc.prems(1) len notout by (auto simp: in_progress_def st upd)
    text \<open>Visiting an optional parent.\<close>
    have parent: "\<exists>v. (case p of None \<Rightarrow> Some u | Some a \<Rightarrow> cnf_print_proof_rec d s a u) = Some v
        \<and> walk_inv s v \<and> in_progress v = in_progress u
        \<and> (\<exists>new. snd v = snd u @ new \<and> fst ` set new \<subseteq> ancestors s c) \<and> set_option p \<subseteq> fst ` set (snd v)"
      if h: "set_option p \<subseteq> tr_parents ?t" "walk_inv s u" "in_progress u = insert c (in_progress st)" for p u
    proof (cases p)
      case (Some a)
      then have a: "a < c" "a \<in> tr_parents ?t" using below h(1) by auto
      then obtain v where "cnf_print_proof_rec d s a u = Some v" "visits s a u v"
        using Suc.IH [of a u] Suc.prems(1,2,4) h(2,3) by fastforce
      then show ?thesis using ancestors_step [OF a(2)] Some unfolding visits_def by auto
    qed (use h in auto)
    obtain u where u: "(case tr_parent_a ?t of None \<Rightarrow> Some ?st0 | Some a \<Rightarrow> cnf_print_proof_rec d s a ?st0) = Some u"
        "walk_inv s u" "in_progress u = insert c (in_progress st)"
        "\<exists>new. snd u = out @ new \<and> fst ` set new \<subseteq> ancestors s c" "set_option (tr_parent_a ?t) \<subseteq> fst ` set (snd u)"
      using parent [of "tr_parent_a ?t" ?st0] inv0 prog0 by (auto simp: tr_parents_def)
    obtain v where v: "(case tr_parent_b ?t of None \<Rightarrow> Some u | Some b \<Rightarrow> cnf_print_proof_rec d s b u) = Some v"
        "walk_inv s v" "in_progress v = insert c (in_progress st)"
        "\<exists>new. snd v = snd u @ new \<and> fst ` set new \<subseteq> ancestors s c" "set_option (tr_parent_b ?t) \<subseteq> fst ` set (snd v)"
      using parent [of "tr_parent_b ?t" u] u(2,3) by (auto simp: tr_parents_def)
    obtain visited' out' where vv: "v = (visited', out')" by fastforce
    let ?st' = "(visited', out' @ [(c, cnf_print_clause_line s c)])"
    have rec: "cnf_print_proof_rec (Suc d) s c st = Some ?st'"
      using u(1) v(1) False Suc.prems(1) len by (simp add: st vv Let_def)
    have c: "c < length visited'" "visited' ! c" "c \<notin> fst ` set out'"
      using v(3) by (auto simp: in_progress_def vv set_eq_iff)
    have "tr_parents ?t \<subseteq> fst ` set out'" using u(5) v(4,5) by (auto simp: tr_parents_def vv)
    then have inv: "walk_inv s ?st'" using v(2) c by (auto simp: walk_inv_def vv after_parents_snoc)
    have "c \<notin> in_progress st" using Suc.prems(4) by blast
    then have "in_progress ?st' = in_progress st" using v(3) c by (auto simp: in_progress_def vv set_eq_iff)
    moreover have "\<exists>new. out' @ [(c, cnf_print_clause_line s c)] = out @ new \<and> fst ` set new \<subseteq> ancestors s c"
    proof -
      obtain n1 n2 where n: "snd u = out @ n1" "out' = snd u @ n2"
          "fst ` set n1 \<subseteq> ancestors s c" "fst ` set n2 \<subseteq> ancestors s c"
        using u(4) v(4) by (auto simp: vv)
      then show ?thesis by (intro exI [where x = "n1 @ n2 @ [(c, cnf_print_clause_line s c)]"]) auto
    qed
    ultimately show ?thesis using rec inv by (auto simp: visits_def st)
  qed
qed simp

section \<open>Properties\<close>

text \<open>C25: the printed proof. On a well-formed state the walk ends, prints each line for its id,
  no id twice, only ancestors of the root in the inference trace, every clause after its
  parents, and the root last.\<close>
theorem cnf_print_proof_order:
  assumes "sat_wf s" and "root_id < length (cnf_clauses s)"
  shows "\<exists>out. cnf_print_proof s root_id = Some (out @ [(root_id, cnf_print_clause_line s root_id)])
    \<and> distinct (map fst out @ [root_id]) \<and> after_parents s (map fst out @ [root_id])
    \<and> set (map fst out) \<subseteq> ancestors s root_id \<and> (\<forall>(i, l) \<in> set out. l = cnf_print_clause_line s i)"
proof -
  let ?n = "length (cnf_clauses s)" and ?st = "(replicate (length (cnf_clauses s)) False, [] :: (nat \<times> string) list)"
  have "walk_inv s ?st" "in_progress ?st = {}" by (simp_all add: walk_inv_def in_progress_def after_parents_def)
  then obtain st' out where w: "cnf_print_proof_rec (Suc ?n) s root_id ?st = Some st'" "visits s root_id ?st st'"
      "snd st' = out @ [(root_id, cnf_print_clause_line s root_id)]"
    using proof_rec_visits [OF assms(1), of root_id "Suc ?n" ?st] assms(2)
    by (auto simp del: cnf_print_proof_rec.simps)
  have "cnf_print_proof s root_id = Some (snd st')"
    using w(1) assms(2) by (simp add: cnf_print_proof_def del: cnf_print_proof_rec.simps)
  then show ?thesis
    using w(2,3) by (intro exI [where x = out]) (auto simp: visits_def walk_inv_def split: prod.splits)
qed

theorem cnf_print_proof_order_witness:
  "\<exists>out. cnf_print_proof (cnf_run (cnf_load (cnf_init env0 9) socrates)) 2
     = Some (out @ [(2, cnf_print_clause_line (cnf_run (cnf_load (cnf_init env0 9) socrates)) 2)])"
proof -
  have "length (cnf_clauses (cnf_run (cnf_load (cnf_init env0 9) socrates))) > 2" by code_simp
  moreover have "sat_wf (cnf_run (cnf_load (cnf_init env0 9) socrates))"
    using cnf_run_wf [of "cnf_load (cnf_init env0 9) socrates"] by (simp add: cnf_load_spec drained_def)
  ultimately show ?thesis using cnf_print_proof_order [of _ 2] by blast
qed

end
