(* ===== verification/CC_Table.thy ===== *)
theory CC_Table
  imports Term_Word "HOL-Library.Monad_Syntax" "HOL-Library.Multiset"
begin

text \<open>
  The signature table of the congruence closure (src/cc/_.c, "signature table"): an
  open-addressed hash table with linear probing, doubling at three quarters full, and
  backward-shift deletion. A slot is None when its node is CC_NONE; sig_cap is the number of
  slots, a power of two. The loops are partial functions, None when they would not end. Node ids,
  counts and slot numbers are natural numbers: at 2^30 entries the 32-bit computations of the
  code wrap, which is not modelled. Allocation does not fail.
\<close>

record cc_sig_entry =
  se_hash :: u32
  se_node :: nat
  se_key :: "nat list"

record cc_table =
  sig_slots :: "cc_sig_entry option list"
  sig_count :: nat

abbreviation sig_cap :: "cc_table \<Rightarrow> nat" where "sig_cap t \<equiv> length (sig_slots t)"

text \<open>The hash of a canonical key, as cc_sig_key and cc_app compute it.\<close>

definition key_hash :: "nat list \<Rightarrow> u32" where
  "key_hash key = foldl (\<lambda>h r. (h XOR of_nat r) * 0x01000193) 0x811c9dc5 key"

definition cc_key_eq :: "nat list \<Rightarrow> nat list \<Rightarrow> bool" where
  "cc_key_eq a b = (if length a \<noteq> length b then False else list_all2 (=) a b)"

definition cc_sig_init :: "nat \<Rightarrow> cc_table" where
  "cc_sig_init cap = \<lparr>sig_slots = replicate cap None, sig_count = 0\<rparr>"

text \<open>The node found, None for CC_NONE, and the slot where the probe stopped.\<close>

partial_function (option) sig_probe :: "cc_table \<Rightarrow> u32 \<Rightarrow> nat list \<Rightarrow> nat \<Rightarrow> (nat option \<times> nat) option" where
  "sig_probe t hash key i =
     (case sig_slots t ! i of
        None \<Rightarrow> Some (None, i)
      | Some e \<Rightarrow>
          if se_hash e = hash \<and> cc_key_eq (se_key e) key then Some (Some (se_node e), i)
          else sig_probe t hash key ((i + 1) AND (sig_cap t - 1)))"

definition cc_sig_lookup :: "cc_table \<Rightarrow> u32 \<Rightarrow> nat list \<Rightarrow> (nat option \<times> nat) option" where
  "cc_sig_lookup t hash key = sig_probe t hash key (unat hash AND (sig_cap t - 1))"

text \<open>Placing an entry in an empty slot, and moving all entries to a table twice the size.\<close>

definition sig_place :: "nat \<Rightarrow> cc_sig_entry \<Rightarrow> cc_table \<Rightarrow> cc_table" where
  "sig_place slot e t = t\<lparr>sig_slots := (sig_slots t)[slot := Some e], sig_count := sig_count t + 1\<rparr>"

fun sig_rehash_loop :: "cc_sig_entry option list \<Rightarrow> cc_table \<Rightarrow> cc_table option" where
  "sig_rehash_loop [] t = Some t"
| "sig_rehash_loop (None # old) t = sig_rehash_loop old t"
| "sig_rehash_loop (Some e # old) t =
     do { (found, slot) \<leftarrow> cc_sig_lookup t (se_hash e) (se_key e);
          sig_rehash_loop old (sig_place slot e t) }"

definition cc_sig_rehash :: "cc_table \<Rightarrow> cc_table option" where
  "cc_sig_rehash t = sig_rehash_loop (sig_slots t) (cc_sig_init (sig_cap t * 2))"

definition cc_sig_put_raw :: "cc_table \<Rightarrow> nat \<Rightarrow> u32 \<Rightarrow> nat list \<Rightarrow> nat \<Rightarrow> cc_table option" where
  "cc_sig_put_raw t slot hash key node =
     (let t' = sig_place slot \<lparr>se_hash = hash, se_node = node, se_key = key\<rparr> t
      in if sig_count t' * 4 \<ge> sig_cap t' * 3 then cc_sig_rehash t' else Some t')"

text \<open>Backward-shift deletion: the hole moves on while an entry further down may fill it.\<close>

definition cyc_dist :: "nat \<Rightarrow> nat \<Rightarrow> nat \<Rightarrow> nat" where
  "cyc_dist cap a b = nat ((int b - int a) mod int cap)"

partial_function (option) sig_shift :: "nat \<Rightarrow> nat \<Rightarrow> cc_sig_entry option list \<Rightarrow> cc_sig_entry option list option" where
  "sig_shift slot i slots =
     (case slots ! i of
        None \<Rightarrow> Some slots
      | Some e \<Rightarrow>
          let cap = length slots; home = unat (se_hash e) AND (cap - 1)
          in if cyc_dist cap home slot \<le> cyc_dist cap home i
             then sig_shift i ((i + 1) AND (cap - 1)) (slots[slot := Some e, i := None])
             else sig_shift slot ((i + 1) AND (cap - 1)) slots)"

definition cc_sig_remove_raw :: "cc_table \<Rightarrow> u32 \<Rightarrow> nat list \<Rightarrow> cc_table option" where
  "cc_sig_remove_raw t hash key =
     do { (removed, slot) \<leftarrow> cc_sig_lookup t hash key;
          (case removed of
             None \<Rightarrow> Some t
           | Some n \<Rightarrow>
               do { slots \<leftarrow> sig_shift slot ((slot + 1) AND (sig_cap t - 1)) ((sig_slots t)[slot := None]);
                    Some (t\<lparr>sig_slots := slots, sig_count := sig_count t - 1\<rparr>) }) }"

declare sig_probe.simps [code] sig_shift.simps [code]

section \<open>Cyclic positions\<close>

lemma and_mask_mod: "cap = 2 ^ k \<Longrightarrow> x AND (cap - 1) = x mod cap" for x :: nat
  by (metis take_bit_eq_mask take_bit_nat_def mask_nat_def)


lemma cyc_dist_eq: "a < n \<Longrightarrow> b < n \<Longrightarrow> cyc_dist n a b = (if a \<le> b then b - a else b + n - a)"
proof -
  assume ab: "a < n" "b < n"
  show ?thesis
  proof (cases "a \<le> b")
    case True
    then have "(int b - int a) mod int n = int (b - a)" using ab by (simp add: of_nat_diff)
    then show ?thesis using True by (simp add: cyc_dist_def)
  next
    case False
    have "(int b - int a) mod int n = (int b - int a + int n) mod int n" by simp
    also have "\<dots> = int (b + n - a)" using False ab by (subst mod_pos_pos_trivial) (auto simp: of_nat_diff)
    finally show ?thesis using False by (simp add: cyc_dist_def)
  qed
qed

lemma cyc_dist_less: "a < n \<Longrightarrow> b < n \<Longrightarrow> cyc_dist n a b < n"
  by (auto simp: cyc_dist_eq)

lemma cyc_dist_reach: "a < n \<Longrightarrow> b < n \<Longrightarrow> (a + cyc_dist n a b) mod n = b"
  by (auto simp: cyc_dist_eq)

lemma cyc_dist_step: "a < n \<Longrightarrow> d < n \<Longrightarrow> cyc_dist n a ((a + d) mod n) = d"
  by (subst cyc_dist_eq) (auto simp: mod_if)

lemma cyc_dist_self [simp]: "a < n \<Longrightarrow> cyc_dist n a a = 0"
  by (simp add: cyc_dist_eq)

lemma cyc_dist_inj: "a < n \<Longrightarrow> b < n \<Longrightarrow> c < n \<Longrightarrow> cyc_dist n a b = cyc_dist n a c \<Longrightarrow> b = c"
  by (metis cyc_dist_reach)

section \<open>Well-formed tables\<close>

definition home :: "nat \<Rightarrow> cc_sig_entry \<Rightarrow> nat" where
  "home n e = unat (se_hash e) mod n"

definition occupied :: "cc_sig_entry option list \<Rightarrow> nat set" where
  "occupied slots = {j. j < length slots \<and> slots ! j \<noteq> None}"

definition entries :: "cc_sig_entry option list \<Rightarrow> cc_sig_entry set" where
  "entries slots = {e. Some e \<in> set slots}"

text \<open>Every entry is reached from its home without meeting an empty slot.\<close>

definition probe_ok :: "cc_sig_entry option list \<Rightarrow> bool" where
  "probe_ok slots \<longleftrightarrow> (\<forall>j e. j < length slots \<longrightarrow> slots ! j = Some e \<longrightarrow>
     (\<forall>d < cyc_dist (length slots) (home (length slots) e) j.
        slots ! ((home (length slots) e + d) mod length slots) \<noteq> None))"

fun entry_list :: "'a option list \<Rightarrow> 'a list" where
  "entry_list [] = []"
| "entry_list (None # xs) = entry_list xs"
| "entry_list (Some e # xs) = e # entry_list xs"

definition keys_ok :: "cc_sig_entry option list \<Rightarrow> bool" where
  "keys_ok slots \<longleftrightarrow> (\<forall>e \<in> entries slots. se_hash e = key_hash (se_key e))
     \<and> distinct (map se_key (entry_list slots))"

definition table_wf :: "cc_table \<Rightarrow> bool" where
  "table_wf t \<longleftrightarrow> (\<exists>k. sig_cap t = 2 ^ k) \<and> sig_count t = card (occupied (sig_slots t))
     \<and> keys_ok (sig_slots t) \<and> probe_ok (sig_slots t)"

definition table_ok :: "cc_table \<Rightarrow> bool" where
  "table_ok t \<longleftrightarrow> table_wf t \<and> sig_count t * 4 < sig_cap t * 3"

definition tentries :: "cc_table \<Rightarrow> cc_sig_entry set" where
  "tentries t = entries (sig_slots t)"

text \<open>The map a table stands for.\<close>

definition tmap :: "cc_table \<Rightarrow> nat list \<rightharpoonup> nat" where
  "tmap t key = map_option se_node (List.find (\<lambda>e. se_key e = key) (entry_list (sig_slots t)))"

lemma occupied_finite [simp]: "finite (occupied slots)"
  by (simp add: occupied_def)

lemma entries_nth: "e \<in> entries slots \<longleftrightarrow> (\<exists>j < length slots. slots ! j = Some e)"
  by (auto simp: entries_def in_set_conv_nth)

lemma entries_simps [simp]:
  "entries [] = {}" "entries (None # slots) = entries slots" "entries (Some e # slots) = insert e (entries slots)"
  by (auto simp: entries_def)

lemma set_entry_list: "set (entry_list slots) = entries slots"
  by (induction slots rule: entry_list.induct) auto

lemma mset_entry_list: "mset (entry_list xs) = image_mset the (filter_mset (\<lambda>x. x \<noteq> None) (mset xs))"
  by (induction xs rule: entry_list.induct) auto

lemma entry_list_update:
  "slot < length xs \<Longrightarrow> xs ! slot = None \<Longrightarrow> mset (entry_list (xs[slot := Some e])) = add_mset e (mset (entry_list xs))"
  "slot < length xs \<Longrightarrow> xs ! slot = Some e \<Longrightarrow> add_mset e (mset (entry_list (xs[slot := None]))) = mset (entry_list xs)"
proof (induction xs arbitrary: slot)
  case (Cons x xs)
  { case 1 then show ?case using Cons by (cases slot; cases x) auto }
  { case 2 then show ?case using Cons by (cases slot; cases x) (auto simp: add_mset_commute) }
qed auto

lemma mset_eq_keys:
  assumes "mset (entry_list xs) = mset (entry_list ys)" and "keys_ok xs"
  shows "keys_ok ys" and "entries xs = entries ys"
proof -
  show "entries xs = entries ys" using mset_eq_setD [OF assms(1)] by (simp add: set_entry_list)
  moreover have "mset (map se_key (entry_list xs)) = mset (map se_key (entry_list ys))" using assms(1) by simp
  ultimately show "keys_ok ys" using assms(2) mset_eq_imp_distinct_iff unfolding keys_ok_def by metis
qed

lemma keys_ok_unique: "keys_ok slots \<Longrightarrow> e \<in> entries slots \<Longrightarrow> f \<in> entries slots \<Longrightarrow> se_key e = se_key f \<Longrightarrow> e = f"
  unfolding keys_ok_def set_entry_list [symmetric] distinct_map by (meson inj_onD)

lemma keys_ok_hash: "keys_ok slots \<Longrightarrow> e \<in> entries slots \<Longrightarrow> se_hash e = key_hash (se_key e)"
  by (simp add: keys_ok_def)

lemma tmap_Some:
  assumes "keys_ok (sig_slots t)"
  shows "tmap t key = Some n \<longleftrightarrow> \<lparr>se_hash = key_hash key, se_node = n, se_key = key\<rparr> \<in> tentries t"
proof
  assume "tmap t key = Some n"
  then obtain e where "List.find (\<lambda>e. se_key e = key) (entry_list (sig_slots t)) = Some e" "se_node e = n"
    by (auto simp: tmap_def)
  then have e: "e \<in> entries (sig_slots t)" "se_key e = key"
    by (auto simp: find_Some_iff set_entry_list [symmetric])
  moreover have "e = \<lparr>se_hash = key_hash key, se_node = n, se_key = key\<rparr>"
    using keys_ok_hash [OF assms e(1)] e(2) \<open>se_node e = n\<close> by (cases e) simp
  ultimately show "\<lparr>se_hash = key_hash key, se_node = n, se_key = key\<rparr> \<in> tentries t"
    by (simp add: tentries_def)
next
  let ?e = "\<lparr>se_hash = key_hash key, se_node = n, se_key = key\<rparr>"
  assume e: "?e \<in> tentries t"
  then obtain f where f: "List.find (\<lambda>e. se_key e = key) (entry_list (sig_slots t)) = Some f"
    by (cases "List.find (\<lambda>e. se_key e = key) (entry_list (sig_slots t))")
      (auto simp: find_None_iff set_entry_list tentries_def)
  then have "f \<in> entries (sig_slots t)" "se_key f = key"
    by (auto simp: find_Some_iff set_entry_list [symmetric])
  then have "f = ?e" using keys_ok_unique [OF assms] e by (simp add: tentries_def)
  then show "tmap t key = Some n" using f by (simp add: tmap_def)
qed

lemma tmap_None:
  assumes "keys_ok (sig_slots t)"
  shows "tmap t key = None \<longleftrightarrow> (\<forall>e \<in> tentries t. se_key e \<noteq> key)"
  by (auto simp: tmap_def find_None_iff set_entry_list tentries_def)

lemma map_eqI: "(\<And>k n. f k = Some n \<longleftrightarrow> g k = Some n) \<Longrightarrow> f = g"
  by (rule ext) (metis option.exhaust)

lemma tmap_eqI: "keys_ok (sig_slots t) \<Longrightarrow> keys_ok (sig_slots u) \<Longrightarrow> tentries t = tentries u \<Longrightarrow> tmap t = tmap u"
  by (rule map_eqI) (simp add: tmap_Some)

section \<open>Probing\<close>

lemma key_eq_iff [simp]: "cc_key_eq a b \<longleftrightarrow> a = b"
  by (auto simp: cc_key_eq_def list_all2_same_iff list.rel_eq)

definition stops :: "cc_sig_entry option list \<Rightarrow> nat list \<Rightarrow> nat \<Rightarrow> bool" where
  "stops slots key j \<longleftrightarrow> (case slots ! j of None \<Rightarrow> True | Some e \<Rightarrow> se_hash e = key_hash key \<and> se_key e = key)"

lemma sig_probe_at:
  assumes "sig_cap t = 2 ^ k" and "h < sig_cap t"
    and "\<forall>d' < d. \<not> stops (sig_slots t) key ((h + d') mod sig_cap t)"
  shows "sig_probe t (key_hash key) key h = sig_probe t (key_hash key) key ((h + d) mod sig_cap t)"
  using assms(3)
proof (induction d)
  case 0
  then show ?case using assms(2) by simp
next
  case (Suc d)
  let ?j = "(h + d) mod sig_cap t"
  have "\<not> stops (sig_slots t) key ?j" using Suc.prems by blast
  then obtain e where e: "sig_slots t ! ?j = Some e" "\<not> (se_hash e = key_hash key \<and> se_key e = key)"
    by (auto simp: stops_def split: option.splits)
  have "sig_probe t (key_hash key) key h = sig_probe t (key_hash key) key ?j" using Suc by simp
  also have "\<dots> = sig_probe t (key_hash key) key ((?j + 1) AND (sig_cap t - 1))"
    using e by (subst sig_probe.simps) auto
  also have "(?j + 1) AND (sig_cap t - 1) = (h + Suc d) mod sig_cap t"
    using and_mask_mod [OF assms(1)] by (simp add: mod_Suc_eq)
  finally show ?case .
qed

lemma room_empty:
  assumes "table_wf t" and "sig_count t < sig_cap t"
  obtains j where "j < sig_cap t" and "sig_slots t ! j = None"
proof -
  have "card (occupied (sig_slots t)) < sig_cap t" using assms unfolding table_wf_def by metis
  then have "occupied (sig_slots t) \<noteq> {..<sig_cap t}" by (metis card_lessThan nat_neq_iff)
  then show ?thesis using that by (auto simp: occupied_def)
qed

text \<open>The lookup of a key returns what the map says and a slot to place it.\<close>

lemma lookup_spec:
  assumes wf: "table_wf t" and room: "sig_count t < sig_cap t"
  obtains slot where "cc_sig_lookup t (key_hash key) key = Some (tmap t key, slot)" and "slot < sig_cap t"
    and "tmap t key = None \<Longrightarrow> sig_slots t ! slot = None
          \<and> (\<forall>d < cyc_dist (sig_cap t) (unat (key_hash key) mod sig_cap t) slot.
                sig_slots t ! ((unat (key_hash key) mod sig_cap t + d) mod sig_cap t) \<noteq> None)"
    and "\<And>n. tmap t key = Some n \<Longrightarrow> sig_slots t ! slot = Some \<lparr>se_hash = key_hash key, se_node = n, se_key = key\<rparr>"
proof -
  let ?n = "sig_cap t" and ?h = "unat (key_hash key) mod sig_cap t"
  obtain k where k: "?n = 2 ^ k" and keys: "keys_ok (sig_slots t)" and probe: "probe_ok (sig_slots t)"
    using wf by (auto simp: table_wf_def)
  have h: "?h < ?n" using k by simp
  obtain j0 where j0: "j0 < ?n" "sig_slots t ! j0 = None" using room_empty [OF wf room] by blast
  define d where "d = (LEAST d. stops (sig_slots t) key ((?h + d) mod ?n))"
  have ex: "stops (sig_slots t) key ((?h + cyc_dist ?n ?h j0) mod ?n)"
    using j0 h by (simp add: cyc_dist_reach stops_def)
  have st: "stops (sig_slots t) key ((?h + d) mod ?n)" unfolding d_def by (rule LeastI [of _ "cyc_dist ?n ?h j0"]) (rule ex)
  have least: "\<forall>d' < d. \<not> stops (sig_slots t) key ((?h + d') mod ?n)" unfolding d_def using not_less_Least by blast
  have "d \<le> cyc_dist ?n ?h j0" unfolding d_def by (rule Least_le) (rule ex)
  then have dn: "d < ?n" using cyc_dist_less [OF h j0(1)] by simp
  define slot where "slot = (?h + d) mod ?n"
  have slot: "slot < ?n" "cyc_dist ?n ?h slot = d"
    using k cyc_dist_step [OF h dn] by (simp_all add: slot_def)
  have run: "cc_sig_lookup t (key_hash key) key = sig_probe t (key_hash key) key slot"
    unfolding cc_sig_lookup_def and_mask_mod [OF k] slot_def by (rule sig_probe_at [OF k h least])
  show ?thesis
  proof (cases "sig_slots t ! slot")
    case None
    have "tmap t key = None"
    proof (rule ccontr)
      assume "tmap t key \<noteq> None"
      then obtain n where "tmap t key = Some n" by blast
      then obtain j where j: "j < ?n" "sig_slots t ! j = Some \<lparr>se_hash = key_hash key, se_node = n, se_key = key\<rparr>"
        using tmap_Some [OF keys] by (auto simp: tentries_def entries_nth)
      then have "stops (sig_slots t) key ((?h + cyc_dist ?n ?h j) mod ?n)" using h by (simp add: cyc_dist_reach stops_def)
      then have "d \<le> cyc_dist ?n ?h j" unfolding d_def by (rule Least_le)
      moreover have "d \<noteq> cyc_dist ?n ?h j" using None j h cyc_dist_reach [OF h j(1)] by (auto simp: slot_def)
      ultimately have "d < cyc_dist ?n ?h j" by simp
      then have "sig_slots t ! ((?h + d) mod ?n) \<noteq> None"
        using probe j unfolding probe_ok_def home_def by fastforce
      then show False using None by (simp add: slot_def)
    qed
    moreover have "sig_slots t ! ((?h + d') mod ?n) \<noteq> None" if "d' < d" for d'
    proof -
      have "\<not> stops (sig_slots t) key ((?h + d') mod ?n)" using least that by blast
      then show ?thesis unfolding stops_def
        by (cases "sig_slots t ! ((?h + d') mod ?n)") simp_all
    qed
    moreover have "sig_probe t (key_hash key) key slot = Some (None, slot)"
      using None by (subst sig_probe.simps) simp
    ultimately show ?thesis using that [of slot] slot run None by auto
  next
    case (Some e)
    then have e: "se_hash e = key_hash key" "se_key e = key" using st by (simp_all add: stops_def slot_def)
    have "e = \<lparr>se_hash = key_hash key, se_node = se_node e, se_key = key\<rparr>" using e by (cases e) simp
    moreover from this have "tmap t key = Some (se_node e)"
      using tmap_Some [OF keys] Some slot(1) by (metis tentries_def entries_nth)
    moreover have "sig_probe t (key_hash key) key slot = Some (Some (se_node e), slot)"
      using Some e by (subst sig_probe.simps) simp
    ultimately show ?thesis using that [of slot] slot run Some by auto
  qed
qed


section \<open>Insertion\<close>

lemma occupied_update_Some: "slot < length slots \<Longrightarrow> occupied (slots[slot := Some e]) = insert slot (occupied slots)"
  by (auto simp: occupied_def nth_list_update)

lemma entries_update_Some:
  assumes "slot < length slots" and "slots ! slot = None"
  shows "entries (slots[slot := Some e]) = insert e (entries slots)"
proof (rule set_eqI)
  fix f
  show "f \<in> entries (slots[slot := Some e]) \<longleftrightarrow> f \<in> insert e (entries slots)"
    unfolding entries_nth insert_iff using assms by (auto simp: nth_list_update) (metis option.distinct(1))
qed

lemma place_spec:
  assumes wf: "table_wf t" and slot: "slot < sig_cap t" "sig_slots t ! slot = None"
    and e: "se_hash e = key_hash (se_key e)" and new: "\<forall>f \<in> tentries t. se_key f \<noteq> se_key e"
    and path: "\<forall>d < cyc_dist (sig_cap t) (home (sig_cap t) e) slot. sig_slots t ! ((home (sig_cap t) e + d) mod sig_cap t) \<noteq> None"
  shows "table_wf (sig_place slot e t)" and "tentries (sig_place slot e t) = insert e (tentries t)"
    and "sig_count (sig_place slot e t) = sig_count t + 1" and "sig_cap (sig_place slot e t) = sig_cap t"
proof -
  let ?s = "sig_slots t" and ?s' = "(sig_slots t)[slot := Some e]"
  show ent: "tentries (sig_place slot e t) = insert e (tentries t)"
    using entries_update_Some [OF slot] by (simp add: tentries_def sig_place_def)
  show "sig_count (sig_place slot e t) = sig_count t + 1" "sig_cap (sig_place slot e t) = sig_cap t"
    by (simp_all add: sig_place_def)
  have "slot \<notin> occupied ?s" using slot by (simp add: occupied_def)
  then have "card (occupied ?s') = Suc (card (occupied ?s))"
    using slot by (simp add: occupied_update_Some)
  moreover have "keys_ok ?s'"
  proof -
    have m: "mset (entry_list ?s') = add_mset e (mset (entry_list ?s))" by (rule entry_list_update(1) [OF slot])
    then have "mset (map se_key (entry_list ?s')) = mset (map se_key (e # entry_list ?s))" by simp
    moreover have "distinct (map se_key (e # entry_list ?s))"
      using wf new by (auto simp: table_wf_def keys_ok_def set_entry_list tentries_def)
    ultimately have "distinct (map se_key (entry_list ?s'))" using mset_eq_imp_distinct_iff by blast
    then show ?thesis
      using entries_update_Some [OF slot] e wf by (auto simp: table_wf_def keys_ok_def)
  qed
  moreover have "probe_ok ?s'"
    unfolding probe_ok_def
  proof (intro allI impI)
    fix j f d assume j: "j < length ?s'" "?s' ! j = Some f" and d: "d < cyc_dist (length ?s') (home (length ?s') f) j"
    let ?p = "(home (length ?s') f + d) mod length ?s'"
    have "?s ! ?p \<noteq> None"
    proof (cases "j = slot")
      case True
      then show ?thesis using path j d slot by simp
    next
      case False
      then show ?thesis using wf j d unfolding table_wf_def probe_ok_def by fastforce
    qed
    then show "?s' ! ?p \<noteq> None" using slot by (cases "?p = slot") (auto simp: nth_list_update)
  qed
  ultimately show "table_wf (sig_place slot e t)"
    using wf by (auto simp: table_wf_def sig_place_def)
qed

lemma tentries_fresh:
  assumes "table_wf t" and "\<forall>f \<in> tentries t. se_key f \<noteq> key"
  shows "tmap t key = None"
  using assms tmap_None by (auto simp: table_wf_def)

lemma lookup_place:
  assumes "table_wf t" and "sig_count t < sig_cap t"
    and "se_hash e = key_hash (se_key e)" and "\<forall>f \<in> tentries t. se_key f \<noteq> se_key e"
  obtains slot where "cc_sig_lookup t (se_hash e) (se_key e) = Some (None, slot)" and "table_wf (sig_place slot e t)"
    and "tentries (sig_place slot e t) = insert e (tentries t)" and "sig_count (sig_place slot e t) = sig_count t + 1"
    and "sig_cap (sig_place slot e t) = sig_cap t"
proof -
  have none: "tmap t (se_key e) = None" using tentries_fresh assms by blast
  obtain slot where s: "cc_sig_lookup t (key_hash (se_key e)) (se_key e) = Some (tmap t (se_key e), slot)" "slot < sig_cap t"
      "sig_slots t ! slot = None"
      "\<forall>d < cyc_dist (sig_cap t) (unat (key_hash (se_key e)) mod sig_cap t) slot.
         sig_slots t ! ((unat (key_hash (se_key e)) mod sig_cap t + d) mod sig_cap t) \<noteq> None"
    using lookup_spec [OF assms(1,2), of "se_key e"] none by metis
  show ?thesis
    using that [of slot] s none assms(3) place_spec [OF assms(1) s(2,3) assms(3,4)] by (simp add: home_def)
qed

lemma cc_sig_init_spec:
  assumes "cap = 2 ^ k"
  shows "table_wf (cc_sig_init cap)" and "tentries (cc_sig_init cap) = {}" and "sig_count (cc_sig_init cap) = 0"
    and "sig_cap (cc_sig_init cap) = cap"
proof -
  have "occupied (replicate cap None) = {}" "entries (replicate cap None) = {}" by (auto simp: occupied_def entries_def)
  moreover have "entry_list (replicate cap None :: cc_sig_entry option list) = []" by (induction cap) auto
  ultimately show "table_wf (cc_sig_init cap)" "tentries (cc_sig_init cap) = {}" "sig_count (cc_sig_init cap) = 0"
    "sig_cap (cc_sig_init cap) = cap"
    using assms by (auto simp: cc_sig_init_def table_wf_def keys_ok_def probe_ok_def tentries_def)
qed

lemma rehash_loop_spec:
  assumes "table_wf t" and "\<forall>e \<in> entries old. se_hash e = key_hash (se_key e) \<and> (\<forall>f \<in> tentries t. se_key f \<noteq> se_key e)"
    and "distinct (map se_key (entry_list old))" and "sig_count t + length (entry_list old) < sig_cap t"
  shows "\<exists>t'. sig_rehash_loop old t = Some t' \<and> table_wf t' \<and> tentries t' = tentries t \<union> entries old
    \<and> sig_count t' = sig_count t + length (entry_list old) \<and> sig_cap t' = sig_cap t"
  using assms
proof (induction old arbitrary: t)
  case Nil
  then show ?case by simp
next
  case (Cons o' old)
  show ?case
  proof (cases o')
    case None
    then show ?thesis using Cons None by simp
  next
    case (Some e)
    have ent: "entries (o' # old) = insert e (entries old)" "entry_list (o' # old) = e # entry_list old"
      using Some by simp_all
    have e: "se_hash e = key_hash (se_key e)" "\<forall>f \<in> tentries t. se_key f \<noteq> se_key e" using Cons.prems(2) ent by auto
    have "sig_count t < sig_cap t" using Cons.prems(4) by simp
    then obtain slot where s: "cc_sig_lookup t (se_hash e) (se_key e) = Some (None, slot)" "table_wf (sig_place slot e t)"
        "tentries (sig_place slot e t) = insert e (tentries t)" "sig_count (sig_place slot e t) = sig_count t + 1"
        "sig_cap (sig_place slot e t) = sig_cap t"
      using lookup_place [OF Cons.prems(1) _ e] by metis
    have "se_key e \<notin> se_key ` entries old" using Cons.prems(3) ent by (simp add: set_entry_list)
    then have "\<forall>f \<in> entries old. se_hash f = key_hash (se_key f) \<and> (\<forall>g \<in> tentries (sig_place slot e t). se_key g \<noteq> se_key f)"
      using Cons.prems(2) unfolding ent s(3) by auto
    then show ?thesis
      using Cons.IH [OF s(2)] Cons.prems(3,4) s unfolding Some ent(1) ent(2) [unfolded Some] by auto
  qed
qed

text \<open>As many entries as occupied slots.\<close>

lemma occupied_Cons: "occupied (x # slots) = (if x = None then {} else {0}) \<union> Suc ` occupied slots"
  unfolding occupied_def by (rule set_eqI) (auto simp: nth_Cons image_iff split: nat.splits)

lemma length_entry_list: "length (entry_list slots) = card (occupied slots)"
proof (induction slots)
  case (Cons x slots)
  have "card (Suc ` occupied slots) = card (occupied slots)" by (rule card_image) simp
  then show ?case using Cons unfolding occupied_Cons
    by (cases x) (auto simp: card_insert_if)
qed (simp add: occupied_def)


lemma occupied_le: "card (occupied slots) \<le> length slots"
  using card_mono [of "{..<length slots}" "occupied slots"] by (auto simp: occupied_def)

lemma rehash_spec:
  assumes "table_wf t"
  obtains t' where "cc_sig_rehash t = Some t'" and "table_ok t'" and "tentries t' = tentries t"
proof -
  obtain k where k: "sig_cap t = 2 ^ k" and keys: "keys_ok (sig_slots t)" and c: "sig_count t = card (occupied (sig_slots t))"
    using assms by (auto simp: table_wf_def)
  have pos: "0 < sig_cap t" using k by simp
  have "sig_cap t * 2 = 2 ^ Suc k" using k by simp
  note init = cc_sig_init_spec [OF this]
  have le: "sig_count t \<le> sig_cap t" using occupied_le c by simp
  then have room: "sig_count (cc_sig_init (sig_cap t * 2)) + length (entry_list (sig_slots t)) < sig_cap (cc_sig_init (sig_cap t * 2))"
    using init(3,4) pos c unfolding length_entry_list by linarith
  obtain t' where t': "cc_sig_rehash t = Some t'" "table_wf t'" "tentries t' = tentries t"
      "sig_count t' = sig_count t" "sig_cap t' = sig_cap t * 2"
    using rehash_loop_spec [OF init(1) _ _ room] keys init(2,3,4) c
    unfolding cc_sig_rehash_def keys_ok_def tentries_def [of t] length_entry_list by auto
  moreover have "sig_count t' * 4 < sig_cap t' * 3" using t'(4,5) le pos by linarith
  then have "table_ok t'" using t' by (simp add: table_ok_def)
  ultimately show ?thesis using that by blast
qed

lemma put_spec:
  assumes ok: "table_ok t" and none: "tmap t key = None"
    and lk: "cc_sig_lookup t (key_hash key) key = Some (None, slot)"
  obtains t' where "cc_sig_put_raw t slot (key_hash key) key node = Some t'" and "table_ok t'"
    and "tmap t' = (tmap t)(key \<mapsto> node)"
proof -
  let ?e = "\<lparr>se_hash = key_hash key, se_node = node, se_key = key\<rparr>"
  let ?p = "sig_place slot ?e t"
  have wf: "table_wf t" and room: "sig_count t < sig_cap t" using ok by (auto simp: table_ok_def)
  have keys: "keys_ok (sig_slots t)" using wf by (simp add: table_wf_def)
  have fresh: "\<forall>f \<in> tentries t. se_key f \<noteq> se_key ?e" using none tmap_None [OF keys] by simp
  have p: "table_wf ?p" "tentries ?p = insert ?e (tentries t)" "sig_count ?p = sig_count t + 1" "sig_cap ?p = sig_cap t"
    using lookup_place [OF wf room _ fresh] lk by auto
  obtain t' where t': "cc_sig_put_raw t slot (key_hash key) key node = Some t'" "table_ok t'" "tentries t' = tentries ?p"
  proof (cases "sig_count ?p * 4 \<ge> sig_cap ?p * 3")
    case True
    then show ?thesis using rehash_spec [OF p(1)] that by (auto simp: cc_sig_put_raw_def Let_def)
  next
    case False
    then show ?thesis using that p(1) by (auto simp: cc_sig_put_raw_def Let_def table_ok_def)
  qed
  have keys': "keys_ok (sig_slots t')" using t'(2) by (simp add: table_ok_def table_wf_def)
  have "tmap t' = (tmap t)(key \<mapsto> node)"
  proof (rule map_eqI)
    fix k n
    show "tmap t' k = Some n \<longleftrightarrow> ((tmap t)(key \<mapsto> node)) k = Some n"
      using none tmap_None [OF keys, of key]
      by (auto simp: tmap_Some [OF keys'] tmap_Some [OF keys, symmetric] t'(3) p(2))
  qed
  then show ?thesis using that t' by blast
qed


section \<open>Deletion\<close>

text \<open>Distances around the table add up along the way.\<close>

lemma cyc_dist_add:
  assumes "a < n" and "b < n" and "c < n" and "cyc_dist n a b \<le> cyc_dist n a c"
  shows "cyc_dist n a c = cyc_dist n a b + cyc_dist n b c"
  using assms by (auto simp: cyc_dist_eq split: if_splits)

lemma cyc_dist_pass:
  assumes "a < n" and "b < n" and "c < n" and "i < n"
    and "cyc_dist n a b \<le> cyc_dist n a c" and "cyc_dist n b i \<le> cyc_dist n b c"
  shows "cyc_dist n a i = cyc_dist n a b + cyc_dist n b i"
  using assms by (auto simp: cyc_dist_eq split: if_splits)

lemma cyc_dist_next:
  assumes "a < n" and "i < n" and "z < n" and "cyc_dist n a i < cyc_dist n a z"
  shows "cyc_dist n a ((i + 1) mod n) = cyc_dist n a i + 1" and "cyc_dist n ((i + 1) mod n) z + 1 = cyc_dist n i z"
    and "(i + 1) mod n < n"
proof -
  show lt: "(i + 1) mod n < n" using assms by simp
  show "cyc_dist n a ((i + 1) mod n) = cyc_dist n a i + 1" "cyc_dist n ((i + 1) mod n) z + 1 = cyc_dist n i z"
    using assms lt by (auto simp: cyc_dist_eq mod_Suc split: if_splits)
qed

text \<open>
  The state of the shift: a hole that excuses one gap on every probe path, the entries between the
  hole and i do not need it, and an empty slot z that the scan has not passed.
\<close>

definition shift_inv :: "nat \<Rightarrow> nat \<Rightarrow> nat \<Rightarrow> cc_sig_entry option list \<Rightarrow> bool" where
  "shift_inv slot i z slots \<longleftrightarrow>
     slot < length slots \<and> i < length slots \<and> z < length slots \<and> slots ! slot = None \<and> slots ! z = None
     \<and> 0 < cyc_dist (length slots) slot i \<and> cyc_dist (length slots) slot i \<le> cyc_dist (length slots) slot z
     \<and> (\<forall>j e. j < length slots \<longrightarrow> slots ! j = Some e \<longrightarrow> (\<forall>d < cyc_dist (length slots) (home (length slots) e) j.
          slots ! ((home (length slots) e + d) mod length slots) \<noteq> None
          \<or> (home (length slots) e + d) mod length slots = slot))
     \<and> (\<forall>j < length slots. 0 < cyc_dist (length slots) slot j \<longrightarrow> cyc_dist (length slots) slot j < cyc_dist (length slots) slot i
          \<longrightarrow> (\<exists>e. slots ! j = Some e \<and> cyc_dist (length slots) (home (length slots) e) j
                < cyc_dist (length slots) (home (length slots) e) slot))"

lemma home_less: "0 < n \<Longrightarrow> home n e < n"
  by (simp add: home_def)

lemma shift_done:
  assumes inv: "shift_inv slot i z slots" and none: "slots ! i = None"
  shows "probe_ok slots"
  unfolding probe_ok_def
proof (intro allI impI)
  fix j e d
  let ?n = "length slots"
  assume j: "j < ?n" "slots ! j = Some e" and d: "d < cyc_dist ?n (home ?n e) j"
  have b: "slot < ?n" "i < ?n" "z < ?n" "slots ! slot = None" "0 < cyc_dist ?n slot i"
    using inv by (auto simp: shift_inv_def)
  have h: "home ?n e < ?n" using b by (intro home_less) linarith
  have dn: "d < ?n" using d cyc_dist_less [OF h j(1)] by simp
  have path: "slots ! ((home ?n e + d') mod ?n) \<noteq> None \<or> (home ?n e + d') mod ?n = slot" if "d' < cyc_dist ?n (home ?n e) j" for d'
    using inv j that unfolding shift_inv_def by blast
  show "slots ! ((home ?n e + d) mod ?n) \<noteq> None"
  proof (rule ccontr)
    assume empty: "\<not> ?thesis"
    then have "(home ?n e + d) mod ?n = slot" using path [OF d] by blast
    then have ds: "cyc_dist ?n (home ?n e) slot = d" using cyc_dist_step [OF h dn] by simp
    then have le: "cyc_dist ?n (home ?n e) slot \<le> cyc_dist ?n (home ?n e) j" using d by simp
    note add = cyc_dist_add [OF h b(1) j(1) le]
    show False
    proof (cases "cyc_dist ?n slot j < cyc_dist ?n slot i")
      case True
      have "0 < cyc_dist ?n slot j" using add ds d by simp
      then have "cyc_dist ?n (home ?n e) j < cyc_dist ?n (home ?n e) slot"
        using inv j True unfolding shift_inv_def by (metis option.inject)
      then show False using le by simp
    next
      case False
      then have "cyc_dist ?n (home ?n e) i = cyc_dist ?n (home ?n e) slot + cyc_dist ?n slot i"
        using cyc_dist_pass [OF h b(1) j(1) b(2) le] by simp
      moreover have "i \<noteq> j" using none j by auto
      then have "cyc_dist ?n slot i \<noteq> cyc_dist ?n slot j" using cyc_dist_inj b(1,2) j(1) by blast
      ultimately have "cyc_dist ?n (home ?n e) i < cyc_dist ?n (home ?n e) j" using add False by simp
      from path [OF this] have "slots ! i \<noteq> None \<or> i = slot" using cyc_dist_reach [OF h b(2)] by simp
      then show False using none b(4,5) b(1) by auto
    qed
  qed
qed

lemma shift_keep:
  assumes inv: "shift_inv slot i z slots" and e: "slots ! i = Some e"
    and no: "\<not> cyc_dist (length slots) (home (length slots) e) slot \<le> cyc_dist (length slots) (home (length slots) e) i"
  shows "shift_inv slot ((i + 1) mod length slots) z slots"
    and "cyc_dist (length slots) ((i + 1) mod length slots) z < cyc_dist (length slots) i z"
proof -
  let ?n = "length slots"
  have b: "slot < ?n" "i < ?n" "z < ?n" "cyc_dist ?n slot i \<le> cyc_dist ?n slot z" and z: "slots ! z = None"
    using inv by (auto simp: shift_inv_def)
  have "i \<noteq> z" using e z by auto
  then have lt: "cyc_dist ?n slot i < cyc_dist ?n slot z" using b cyc_dist_inj by (metis le_neq_implies_less)
  note nx = cyc_dist_next [OF b(1-3) lt]
  show "cyc_dist ?n ((i + 1) mod ?n) z < cyc_dist ?n i z" using nx(2) by simp
  have "\<exists>f. slots ! j = Some f \<and> cyc_dist ?n (home ?n f) j < cyc_dist ?n (home ?n f) slot"
    if j: "j < ?n" "0 < cyc_dist ?n slot j" "cyc_dist ?n slot j < cyc_dist ?n slot i + 1" for j
  proof (cases "j = i")
    case True
    then show ?thesis using e no by auto
  next
    case False
    then have "cyc_dist ?n slot j \<noteq> cyc_dist ?n slot i" using cyc_dist_inj b j by blast
    then have "cyc_dist ?n slot j < cyc_dist ?n slot i" using j by simp
    then show ?thesis using inv j unfolding shift_inv_def by blast
  qed
  then show "shift_inv slot ((i + 1) mod ?n) z slots"
    using inv nx lt unfolding shift_inv_def nx(1) by auto
qed

lemma shift_move:
  assumes inv: "shift_inv slot i z slots" and e: "slots ! i = Some e"
    and yes: "cyc_dist (length slots) (home (length slots) e) slot \<le> cyc_dist (length slots) (home (length slots) e) i"
  defines "slots' \<equiv> slots[slot := Some e, i := None]"
  shows "shift_inv i ((i + 1) mod length slots) z slots'"
    and "cyc_dist (length slots) ((i + 1) mod length slots) z < cyc_dist (length slots) i z"
    and "mset slots' = mset slots" and "length slots' = length slots"
proof -
  let ?n = "length slots"
  show len: "length slots' = ?n" by (simp add: slots'_def)
  have b: "slot < ?n" "i < ?n" "z < ?n" "cyc_dist ?n slot i \<le> cyc_dist ?n slot z" and z: "slots ! z = None"
    and hole: "slots ! slot = None"
    using inv by (auto simp: shift_inv_def)
  have iz: "i \<noteq> z" and ne: "i \<noteq> slot" using e z hole by auto
  have zs: "z \<noteq> slot" using inv by (auto simp: shift_inv_def)
  have "0 < cyc_dist ?n i z" using iz cyc_dist_reach [OF b(2,3)] b by (cases "cyc_dist ?n i z") auto
  then have lt: "cyc_dist ?n i i < cyc_dist ?n i z" using b by simp
  note nx = cyc_dist_next [OF b(2,2,3) lt]
  show "cyc_dist ?n ((i + 1) mod ?n) z < cyc_dist ?n i z" using nx(2) by simp
  have "slots' = slots[slot := slots ! i, i := slots ! slot]" by (simp add: slots'_def e hole)
  then show "mset slots' = mset slots" using b mset_swap by metis
  have nth: "slots' ! j = (if j = i then None else if j = slot then Some e else slots ! j)" if "j < ?n" for j
    using that b by (simp add: slots'_def nth_list_update)
  have path: "slots ! ((home ?n f + d) mod ?n) \<noteq> None \<or> (home ?n f + d) mod ?n = slot"
    if "j < ?n" "slots ! j = Some f" "d < cyc_dist ?n (home ?n f) j" for j f d
    using inv that unfolding shift_inv_def by blast
  have "slots' ! ((home ?n f + d) mod ?n) \<noteq> None \<or> (home ?n f + d) mod ?n = i"
    if j: "j < ?n" "slots' ! j = Some f" "d < cyc_dist ?n (home ?n f) j" for j f d
  proof -
    have p: "(home ?n f + d) mod ?n < ?n" by (rule mod_less_divisor) (use b in linarith)
    have "slots ! ((home ?n f + d) mod ?n) \<noteq> None \<or> (home ?n f + d) mod ?n = slot"
    proof (cases "j = slot")
      case True
      then have "f = e" using j ne nth [of slot] b by auto
      then show ?thesis using path [OF b(2) e, of d] j(3) yes True by simp
    next
      case False
      then have "slots ! j = Some f" using j nth [of j] by (auto split: if_splits)
      then show ?thesis using path j by blast
    qed
    then show ?thesis using nth [OF p] by auto
  qed
  then show "shift_inv i ((i + 1) mod ?n) z slots'"
    using b iz z ne zs nx lt unfolding shift_inv_def len by (auto simp: nth)
qed

lemma sig_shift_spec:
  assumes "shift_inv slot i z slots" and "length slots = 2 ^ k"
  shows "\<exists>slots'. sig_shift slot i slots = Some slots' \<and> probe_ok slots' \<and> mset slots' = mset slots"
  using assms
proof (induction "cyc_dist (length slots) i z" arbitrary: slot i slots rule: less_induct)
  case less
  have m: "(i + 1) AND (length slots - 1) = (i + 1) mod length slots" by (rule and_mask_mod [OF less.prems(2)])
  have hm: "unat (se_hash e) AND (length slots - 1) = home (length slots) e" for e
    unfolding home_def by (rule and_mask_mod [OF less.prems(2)])
  show ?case
  proof (cases "slots ! i")
    case None
    then show ?thesis using shift_done [OF less.prems(1) None] by (subst sig_shift.simps) simp
  next
    case (Some e)
    show ?thesis
    proof (cases "cyc_dist (length slots) (home (length slots) e) slot \<le> cyc_dist (length slots) (home (length slots) e) i")
      case True
      note mv = shift_move [OF less.prems(1) Some True]
      have run: "sig_shift slot i slots = sig_shift i ((i + 1) mod length slots) (slots[slot := Some e, i := None])"
        using Some True by (subst sig_shift.simps) (simp only: option.case Let_def hm m if_True)
      show ?thesis unfolding run using less.hyps [OF _ mv(1) [folded mv(4)]] mv less.prems(2) by simp
    next
      case False
      note kp = shift_keep [OF less.prems(1) Some False]
      have run: "sig_shift slot i slots = sig_shift slot ((i + 1) mod length slots) slots"
        using Some False by (subst sig_shift.simps) (simp only: option.case Let_def hm m if_False)
      show ?thesis unfolding run using less.hyps [OF kp(2,1)] less.prems(2) by auto
    qed
  qed
qed


lemma shift_start:
  assumes wf: "table_wf t" and slot: "slot < sig_cap t" "sig_slots t ! slot = Some e"
    and z: "z < sig_cap t" "sig_slots t ! z = None"
  shows "shift_inv slot ((slot + 1) mod sig_cap t) z ((sig_slots t)[slot := None])"
proof -
  let ?n = "sig_cap t"
  have ne: "slot \<noteq> z" using slot z by auto
  have "0 < cyc_dist ?n slot z" using ne cyc_dist_reach [OF slot(1) z(1)] slot(1) by (cases "cyc_dist ?n slot z") auto
  then have lt: "cyc_dist ?n slot slot < cyc_dist ?n slot z" using slot by simp
  note nx = cyc_dist_next [OF slot(1,1) z(1) lt]
  have "(sig_slots t)[slot := None] ! p \<noteq> None \<or> p = slot" if "sig_slots t ! p \<noteq> None" for p
    using that by (cases "p = slot") auto
  moreover have "sig_slots t ! ((home ?n f + d) mod ?n) \<noteq> None"
    if "j < ?n" "(sig_slots t)[slot := None] ! j = Some f" "d < cyc_dist ?n (home ?n f) j" for j f d
    using wf that slot unfolding table_wf_def probe_ok_def by (cases "j = slot") auto
  ultimately show ?thesis
    using slot z ne nx lt unfolding shift_inv_def by (auto simp: nth_list_update_neq)
qed

lemma remove_spec:
  assumes ok: "table_ok t"
  obtains t' where "cc_sig_remove_raw t (key_hash key) key = Some t'" and "table_ok t'"
    and "tmap t' = (tmap t)(key := None)"
proof -
  have wf: "table_wf t" and room: "sig_count t < sig_cap t" using ok by (auto simp: table_ok_def)
  obtain k where k: "sig_cap t = 2 ^ k" and keys: "keys_ok (sig_slots t)" using wf by (auto simp: table_wf_def)
  obtain slot where s: "cc_sig_lookup t (key_hash key) key = Some (tmap t key, slot)" "slot < sig_cap t"
      "\<And>n. tmap t key = Some n \<Longrightarrow> sig_slots t ! slot = Some \<lparr>se_hash = key_hash key, se_node = n, se_key = key\<rparr>"
    using lookup_spec [OF wf room, of key] by metis
  show ?thesis
  proof (cases "tmap t key")
    case None
    then show ?thesis using that [of t] s(1) ok by (simp add: cc_sig_remove_raw_def fun_upd_idem)
  next
    case (Some n)
    let ?e = "\<lparr>se_hash = key_hash key, se_node = n, se_key = key\<rparr>"
    let ?s = "(sig_slots t)[slot := None]"
    have e: "sig_slots t ! slot = Some ?e" using s(3) Some by blast
    obtain z where "z < sig_cap t" "sig_slots t ! z = None" using room_empty [OF wf room] by blast
    then have "shift_inv slot ((slot + 1) mod sig_cap t) z ?s" by (rule shift_start [OF wf s(2) e])
    then obtain slots' where sh: "sig_shift slot ((slot + 1) mod sig_cap t) ?s = Some slots'" "probe_ok slots'"
        "mset slots' = mset ?s"
      using sig_shift_spec k by (metis length_list_update)
    let ?t = "t\<lparr>sig_slots := slots', sig_count := sig_count t - 1\<rparr>"
    have run: "cc_sig_remove_raw t (key_hash key) key = Some ?t"
      using s(1) Some sh(1) by (simp add: cc_sig_remove_raw_def and_mask_mod [OF k] del: One_nat_def)
    have len: "length slots' = sig_cap t" using sh(3) by (metis length_list_update size_mset)
    have el: "mset (entry_list (sig_slots t)) = add_mset ?e (mset (entry_list slots'))"
      using entry_list_update(2) [OF s(2) e] sh(3) by (simp add: mset_entry_list)
    have keys': "keys_ok slots'" and ent: "entries (sig_slots t) = insert ?e (entries slots')"
      and fresh: "\<forall>f \<in> entries slots'. se_key f \<noteq> key"
    proof -
      show ent: "entries (sig_slots t) = insert ?e (entries slots')"
        using arg_cong [OF el, of set_mset] by (simp add: set_entry_list)
      have "mset (map se_key (entry_list (sig_slots t))) = mset (key # map se_key (entry_list slots'))"
        using arg_cong [OF el, of "image_mset se_key"] by simp
      then have "distinct (key # map se_key (entry_list slots'))"
        using keys mset_eq_imp_distinct_iff unfolding keys_ok_def by metis
      then show "keys_ok slots'" "\<forall>f \<in> entries slots'. se_key f \<noteq> key"
        using keys ent by (auto simp: keys_ok_def set_entry_list)
    qed
    have cnt: "card (occupied (sig_slots t)) = Suc (card (occupied slots'))"
      using arg_cong [OF el, of size] by (simp add: length_entry_list)
    then have ok': "table_ok ?t"
      using wf ok k keys' sh(2) len by (auto simp: table_ok_def table_wf_def)
    have "tmap ?t = (tmap t)(key := None)"
    proof (rule map_eqI)
      fix k' n'
      show "tmap ?t k' = Some n' \<longleftrightarrow> ((tmap t)(key := None)) k' = Some n'"
        using keys' fresh ent by (auto simp: tmap_Some [OF keys] tmap_Some tentries_def)
    qed
    then show ?thesis using that run ok' by blast
  qed
qed

text \<open>The table is a map; looking a key up needs no more than the map.\<close>

lemma lookup_tmap:
  assumes "table_ok t"
  obtains slot where "cc_sig_lookup t (key_hash key) key = Some (tmap t key, slot)"
proof -
  have "table_wf t" "sig_count t < sig_cap t" using assms by (auto simp: table_ok_def)
  from lookup_spec [OF this, of key] show ?thesis using that by metis
qed

lemma init_ok: "table_ok (cc_sig_init 64)" "tmap (cc_sig_init 64) = Map.empty"
proof -
  have "(64 :: nat) = 2 ^ 6" by simp
  note i = cc_sig_init_spec [OF this]
  then show "table_ok (cc_sig_init 64)" by (simp add: table_ok_def)
  show "tmap (cc_sig_init 64) = Map.empty"
    using i by (intro ext) (simp add: tmap_None table_wf_def)
qed


section \<open>The table as a map\<close>

text \<open>
  What the closure relies on: a lookup reads the map, an insertion at the slot a failed lookup
  returned adds the key, a removal deletes it, and none of them fails to return.
\<close>

locale probed_map =
  fixes ok :: "'t \<Rightarrow> bool" and view :: "'t \<Rightarrow> 'k \<rightharpoonup> 'v"
    and find :: "'t \<Rightarrow> 'k \<Rightarrow> ('v option \<times> nat) option"
    and put :: "'t \<Rightarrow> nat \<Rightarrow> 'k \<Rightarrow> 'v \<Rightarrow> 't option" and del :: "'t \<Rightarrow> 'k \<Rightarrow> 't option"
  assumes find_view: "ok t \<Longrightarrow> \<exists>slot. find t k = Some (view t k, slot)"
    and put_view: "ok t \<Longrightarrow> find t k = Some (None, slot) \<Longrightarrow>
      \<exists>t'. put t slot k v = Some t' \<and> ok t' \<and> view t' = (view t)(k \<mapsto> v)"
    and del_view: "ok t \<Longrightarrow> \<exists>t'. del t k = Some t' \<and> ok t' \<and> view t' = (view t)(k := None)"
begin

lemma find_None: "ok t \<Longrightarrow> find t k = Some (None, slot) \<Longrightarrow> view t k = None"
  using find_view [of t k] by auto

lemma find_put:
  assumes "ok t" and "find t k = Some (None, slot)" and "put t slot k v = Some t'"
  shows "\<exists>slot'. find t' l = Some (if l = k then Some v else view t l, slot')"
  using put_view [OF assms(1,2), of v] find_view [of t' l] assms(3) by auto

lemma put_del:
  assumes "ok t" and "find t k = Some (None, slot)"
  shows "\<exists>t1 t2. put t slot k v = Some t1 \<and> del t1 k = Some t2 \<and> ok t1 \<and> ok t2 \<and> view t2 = view t"
proof -
  obtain t1 where t1: "put t slot k v = Some t1" "ok t1" "view t1 = (view t)(k \<mapsto> v)"
    using put_view [OF assms] by blast
  moreover obtain t2 where "del t1 k = Some t2" "ok t2" "view t2 = (view t1)(k := None)" using del_view [OF t1(2)] by blast
  ultimately show ?thesis using find_None [OF assms] by (auto simp: fun_upd_idem)
qed

lemma del_put:
  assumes "ok t" and "view t k = Some v"
  shows "\<exists>t1 slot t2. del t k = Some t1 \<and> find t1 k = Some (None, slot) \<and> put t1 slot k v = Some t2 \<and> ok t2 \<and> view t2 = view t"
proof -
  obtain t1 where t1: "del t k = Some t1" "ok t1" "view t1 = (view t)(k := None)" using del_view [OF assms(1)] by blast
  moreover obtain slot where slot: "find t1 k = Some (None, slot)" using find_view [OF t1(2), of k] t1(3) by auto
  moreover obtain t2 where "put t1 slot k v = Some t2" "ok t2" "view t2 = (view t1)(k \<mapsto> v)"
    using put_view [OF t1(2) slot] by blast
  ultimately show ?thesis using assms(2) by (auto simp: fun_upd_idem)
qed

end

abbreviation sig_find :: "cc_table \<Rightarrow> nat list \<Rightarrow> (nat option \<times> nat) option" where
  "sig_find t k \<equiv> cc_sig_lookup t (key_hash k) k"

abbreviation sig_ins :: "cc_table \<Rightarrow> nat \<Rightarrow> nat list \<Rightarrow> nat \<Rightarrow> cc_table option" where
  "sig_ins t slot k v \<equiv> cc_sig_put_raw t slot (key_hash k) k v"

abbreviation sig_del :: "cc_table \<Rightarrow> nat list \<Rightarrow> cc_table option" where
  "sig_del t k \<equiv> cc_sig_remove_raw t (key_hash k) k"

interpretation tab: probed_map table_ok tmap sig_find sig_ins sig_del
proof
  fix t k slot v
  assume ok: "table_ok t"
  show "\<exists>slot. sig_find t k = Some (tmap t k, slot)" using lookup_tmap [OF ok] by metis
  show "\<exists>t'. sig_ins t slot k v = Some t' \<and> table_ok t' \<and> tmap t' = (tmap t)(k \<mapsto> v)"
    if "sig_find t k = Some (None, slot)"
  proof -
    have "tmap t k = None" using lookup_tmap [OF ok, of k] that by (metis option.inject prod.inject)
    from put_spec [OF ok this that] show ?thesis by metis
  qed
  show "\<exists>t'. sig_del t k = Some t' \<and> table_ok t' \<and> tmap t' = (tmap t)(k := None)" using remove_spec [OF ok] by metis
qed

text \<open>C37: the open-addressed table is a map. In a well-formed table a lookup returns what the
  map holds; inserting at the slot a failed lookup gave, with a rehash when the table is three
  quarters full, changes the map at that key only; removing a key with backward shift deletes that
  key only; the three always return and keep the table well formed, so that removing what was
  inserted restores the map.\<close>
theorem sig_table_map:
  assumes "table_ok t"
  shows "\<exists>slot t'. sig_find t k = Some (tmap t k, slot)
    \<and> sig_del t k = Some t' \<and> table_ok t' \<and> tmap t' = (tmap t)(k := None)
    \<and> (tmap t k = None \<longrightarrow> (\<exists>t1 t2. sig_ins t slot k v = Some t1 \<and> table_ok t1 \<and> tmap t1 = (tmap t)(k \<mapsto> v)
          \<and> sig_del t1 k = Some t2 \<and> tmap t2 = tmap t))"
proof -
  obtain slot where f: "sig_find t k = Some (tmap t k, slot)" using tab.find_view [OF assms] by blast
  obtain t' where d: "sig_del t k = Some t'" "table_ok t'" "tmap t' = (tmap t)(k := None)"
    using tab.del_view [OF assms] by blast
  have p: "\<exists>t1 t2. sig_ins t slot k v = Some t1 \<and> table_ok t1 \<and> tmap t1 = (tmap t)(k \<mapsto> v)
      \<and> sig_del t1 k = Some t2 \<and> tmap t2 = tmap t" if "tmap t k = None"
    using tab.put_view [OF assms, of k slot v] tab.put_del [OF assms, of k slot v] f that by auto
  show ?thesis
    by (rule exI [of _ slot], rule exI [of _ t'], intro conjI impI f d) (rule p)
qed

theorem sig_table_map_witness:
  "\<exists>slot t1 t2. sig_ins (cc_sig_init 64) slot [9, 2] 4 = Some t1 \<and> tmap t1 [9, 2] = Some 4
     \<and> sig_del t1 [9, 2] = Some t2 \<and> tmap t2 = Map.empty"
proof -
  obtain slot t1 t2 where "sig_ins (cc_sig_init 64) slot [9, 2] 4 = Some t1" "tmap t1 = (Map.empty)([9, 2] \<mapsto> 4)"
      "sig_del t1 [9, 2] = Some t2" "tmap t2 = Map.empty"
    using sig_table_map [OF init_ok(1), of "[9, 2]" 4] unfolding init_ok(2) by blast
  then show ?thesis by (intro exI conjI) auto
qed

end
