(* ===== verification/Cong_Closure.thy ===== *)
theory Cong_Closure
  imports CC_Table
begin

text \<open>
  Ground congruence closure (src/cc/_.c): the node store, the union-find without path
  compression, the per-class use lists, the propagation of congruences through a queue of
  pending merges, the disequalities, and the undo trail. Arrays are lists of their current length
  (growing does not fail), CC_NONE is None, the pending queue and the trail have their newest
  element first. The loops are partial functions, None when they would not end; that they end in
  every state the interface can reach is proved in theory CC_Props.
\<close>

text \<open>A node is an atom, a fresh constant, or an application to earlier nodes.\<close>

datatype cc_node = CC_ATOM u32 | CC_APP u32 "nat list"

datatype cc_trail =
    TR_UNION nat nat nat
  | TR_SIG_PUT u32 "nat list"
  | TR_SIG_DEL nat u32 "nat list"
  | TR_USE nat nat "nat option"
  | TR_USE_SPLICE nat nat "nat option" nat "nat option"
  | TR_NODE
  | TR_NE

record cc_state =
  cc_nodes :: "cc_node list"
  cc_parent :: "nat list"
  cc_rank :: "nat list"
  cc_use_head :: "nat option list"
  cc_use_node :: "nat list"
  cc_use_next :: "nat option list"
  cc_sig :: cc_table
  cc_pend :: "(nat \<times> nat) list"
  cc_ne :: "(nat \<times> nat) list"
  cc_trail :: "cc_trail list"

datatype cc_result = CC_SAT | CC_UNSAT

definition cc_init :: cc_state where
  "cc_init = \<lparr>cc_nodes = [], cc_parent = [], cc_rank = [], cc_use_head = [], cc_use_node = [], cc_use_next = [],
     cc_sig = cc_sig_init 64, cc_pend = [], cc_ne = [], cc_trail = []\<rparr>"

definition cc_trail_push :: "cc_trail \<Rightarrow> cc_state \<Rightarrow> cc_state" where
  "cc_trail_push e s = s\<lparr>cc_trail := e # cc_trail s\<rparr>"

section \<open>Use lists and union-find\<close>

definition cc_use_add :: "nat \<Rightarrow> nat \<Rightarrow> cc_state \<Rightarrow> cc_state" where
  "cc_use_add r app s0 =
     (let s = cc_trail_push (TR_USE app r (cc_use_head s0 ! r)) s0; c = length (cc_use_node s)
      in s\<lparr>cc_use_node := cc_use_node s @ [app], cc_use_next := cc_use_next s @ [cc_use_head s ! r],
           cc_use_head := (cc_use_head s)[r := Some c]\<rparr>)"

partial_function (option) cc_find :: "nat list \<Rightarrow> nat \<Rightarrow> nat option" where
  "cc_find parent n = (if parent ! n = n then Some n else cc_find parent (parent ! n))"

fun cc_find_all :: "nat list \<Rightarrow> nat list \<Rightarrow> nat list option" where
  "cc_find_all parent [] = Some []"
| "cc_find_all parent (a # as) =
     do { r \<leftarrow> cc_find parent a; rs \<leftarrow> cc_find_all parent as; Some (r # rs) }"

text \<open>The canonical key of an application, with its hash.\<close>

definition cc_key :: "cc_state \<Rightarrow> u32 \<Rightarrow> nat list \<Rightarrow> (u32 \<times> nat list) option" where
  "cc_key s f args =
     do { rs \<leftarrow> cc_find_all (cc_parent s) args; let key = unat f # rs; Some (key_hash key, key) }"

definition cc_sig_key :: "cc_state \<Rightarrow> nat \<Rightarrow> (u32 \<times> nat list) option" where
  "cc_sig_key s app = (case cc_nodes s ! app of CC_APP f args \<Rightarrow> cc_key s f args
     | CC_ATOM a \<Rightarrow> cc_key s 0xffffffff [])"

section \<open>Trailed table operations\<close>

definition cc_sig_put :: "nat \<Rightarrow> u32 \<Rightarrow> nat list \<Rightarrow> nat \<Rightarrow> cc_state \<Rightarrow> cc_state option" where
  "cc_sig_put slot hash key node s0 =
     (let s = cc_trail_push (TR_SIG_PUT hash key) s0
      in do { t \<leftarrow> cc_sig_put_raw (cc_sig s) slot hash key node; Some (s\<lparr>cc_sig := t\<rparr>) })"

definition cc_sig_remove :: "u32 \<Rightarrow> nat list \<Rightarrow> cc_state \<Rightarrow> cc_state option" where
  "cc_sig_remove hash key s =
     do { (removed, slot) \<leftarrow> cc_sig_lookup (cc_sig s) hash key;
          (case removed of
             None \<Rightarrow> Some s
           | Some n \<Rightarrow> do { t \<leftarrow> cc_sig_remove_raw (cc_sig s) hash key;
                            Some ((cc_trail_push (TR_SIG_DEL n hash key) s)\<lparr>cc_sig := t\<rparr>) }) }"

definition cc_pend_push :: "nat \<Rightarrow> nat \<Rightarrow> cc_state \<Rightarrow> cc_state" where
  "cc_pend_push a b s = s\<lparr>cc_pend := (a, b) # cc_pend s\<rparr>"

section \<open>Terms\<close>

definition cc_new_node :: "cc_node \<Rightarrow> cc_state \<Rightarrow> nat \<times> cc_state" where
  "cc_new_node nd s =
     (let n = length (cc_nodes s)
      in (n, cc_trail_push TR_NODE (s\<lparr>cc_nodes := cc_nodes s @ [nd], cc_parent := cc_parent s @ [n],
             cc_rank := cc_rank s @ [0], cc_use_head := cc_use_head s @ [None]\<rparr>)))"

definition cc_atom :: "cc_state \<Rightarrow> u32 \<Rightarrow> nat \<times> cc_state" where
  "cc_atom s atom_id = cc_new_node (CC_ATOM atom_id) s"

fun cc_use_args :: "nat list \<Rightarrow> nat \<Rightarrow> cc_state \<Rightarrow> cc_state option" where
  "cc_use_args [] n s = Some s"
| "cc_use_args (a # as) n s = do { r \<leftarrow> cc_find (cc_parent s) a; cc_use_args as n (cc_use_add r n s) }"

definition cc_app :: "cc_state \<Rightarrow> u32 \<Rightarrow> nat list \<Rightarrow> (nat \<times> cc_state) option" where
  "cc_app s f args =
     do { (h, key) \<leftarrow> cc_key s f args;
          (found, slot) \<leftarrow> cc_sig_lookup (cc_sig s) h key;
          (case found of
             Some m \<Rightarrow> Some (m, s)
           | None \<Rightarrow>
               let (n, s1) = cc_new_node (CC_APP f args) s
               in do { s2 \<leftarrow> cc_sig_put slot h key n s1;
                       s3 \<leftarrow> cc_use_args args n s2;
                       Some (n, s3) }) }"

section \<open>Propagation\<close>

definition cc_canonicalize :: "nat \<Rightarrow> cc_state \<Rightarrow> cc_state option" where
  "cc_canonicalize app s =
     do { (h, key) \<leftarrow> cc_sig_key s app;
          (other, slot) \<leftarrow> cc_sig_lookup (cc_sig s) h key;
          (case other of
             None \<Rightarrow> cc_sig_put slot h key app s
           | Some o' \<Rightarrow>
               do { ro \<leftarrow> cc_find (cc_parent s) o'; ra \<leftarrow> cc_find (cc_parent s) app;
                    Some (if ro \<noteq> ra then cc_pend_push o' app s else s) }) }"

partial_function (option) cc_recanon :: "nat option \<Rightarrow> cc_state \<Rightarrow> cc_state option" where
  "cc_recanon cell s =
     (case cell of
        None \<Rightarrow> Some s
      | Some c \<Rightarrow> Option.bind (cc_canonicalize (cc_use_node s ! c) s)
                    (\<lambda>s'. cc_recanon (cc_use_next s' ! c) s'))"

partial_function (option) cc_tail :: "nat option list \<Rightarrow> nat \<Rightarrow> nat option" where
  "cc_tail next c = (case next ! c of None \<Rightarrow> Some c | Some d \<Rightarrow> cc_tail next d)"

text \<open>Redirecting the root rb to ra, and moving the use list of rb to the front of that of ra.\<close>

definition cc_link :: "nat \<Rightarrow> nat \<Rightarrow> cc_state \<Rightarrow> cc_state" where
  "cc_link ra rb s0 =
     (let s = cc_trail_push (TR_UNION rb ra (cc_rank s0 ! ra)) s0
      in s\<lparr>cc_rank := (if cc_rank s ! ra = cc_rank s ! rb then (cc_rank s)[ra := cc_rank s ! ra + 1] else cc_rank s),
           cc_parent := (cc_parent s)[rb := ra]\<rparr>)"

definition cc_splice :: "nat \<Rightarrow> nat \<Rightarrow> cc_state \<Rightarrow> cc_state option" where
  "cc_splice ra rb s0 =
     (case cc_use_head s0 ! rb of
        None \<Rightarrow> Some s0
      | Some rb_head \<Rightarrow>
          do { tail \<leftarrow> cc_tail (cc_use_next s0) rb_head;
               let s = cc_trail_push (TR_USE_SPLICE rb ra (Some rb_head) tail (cc_use_head s0 ! ra)) s0;
               Some (s\<lparr>cc_use_next := (cc_use_next s)[tail := cc_use_head s ! ra],
                       cc_use_head := (cc_use_head s)[ra := Some rb_head, rb := None]\<rparr>) })"

partial_function (option) cc_propagate :: "cc_state \<Rightarrow> cc_state option" where
  "cc_propagate s =
     (case cc_pend s of
        [] \<Rightarrow> Some s
      | (a, b) # rest \<Rightarrow>
          Option.bind (cc_find (cc_parent s) a) (\<lambda>ra0.
          Option.bind (cc_find (cc_parent s) b) (\<lambda>rb0.
            if ra0 = rb0 then cc_propagate (s\<lparr>cc_pend := rest\<rparr>)
            else (let (ra, rb) = (if cc_rank s ! ra0 < cc_rank s ! rb0 then (rb0, ra0) else (ra0, rb0));
                      s1 = cc_link ra rb (s\<lparr>cc_pend := rest\<rparr>)
                  in Option.bind (cc_recanon (cc_use_head s1 ! rb) s1) (\<lambda>s2.
                     Option.bind (cc_splice ra rb s2) (\<lambda>s3. cc_propagate s3))))))"

section \<open>The interface\<close>

definition cc_assert_eq :: "cc_state \<Rightarrow> nat \<Rightarrow> nat \<Rightarrow> cc_state option" where
  "cc_assert_eq s a b = cc_propagate (cc_pend_push a b s)"

definition cc_assert_ne :: "cc_state \<Rightarrow> nat \<Rightarrow> nat \<Rightarrow> cc_state" where
  "cc_assert_ne s a b = cc_trail_push TR_NE (s\<lparr>cc_ne := cc_ne s @ [(a, b)]\<rparr>)"

fun cc_check_loop :: "nat list \<Rightarrow> (nat \<times> nat) list \<Rightarrow> cc_result option" where
  "cc_check_loop parent [] = Some CC_SAT"
| "cc_check_loop parent ((a, b) # ne) =
     do { ra \<leftarrow> cc_find parent a; rb \<leftarrow> cc_find parent b;
          (if ra = rb then Some CC_UNSAT else cc_check_loop parent ne) }"

definition cc_check :: "cc_state \<Rightarrow> cc_result option" where
  "cc_check s = cc_check_loop (cc_parent s) (cc_ne s)"

definition cc_push :: "cc_state \<Rightarrow> nat" where
  "cc_push s = length (cc_trail s)"

text \<open>Undoing one record; pool cells, nodes and disequalities are given back from the end.\<close>

fun cc_undo :: "cc_trail \<Rightarrow> cc_state \<Rightarrow> cc_state option" where
  "cc_undo (TR_UNION a b r) s = Some (s\<lparr>cc_parent := (cc_parent s)[a := a], cc_rank := (cc_rank s)[b := r]\<rparr>)"
| "cc_undo (TR_USE_SPLICE a b r tail old) s =
     Some (s\<lparr>cc_use_next := (cc_use_next s)[tail := None], cc_use_head := (cc_use_head s)[b := old, a := r]\<rparr>)"
| "cc_undo (TR_SIG_PUT hash key) s =
     do { t \<leftarrow> cc_sig_remove_raw (cc_sig s) hash key; Some (s\<lparr>cc_sig := t\<rparr>) }"
| "cc_undo (TR_SIG_DEL a hash key) s =
     do { (found, slot) \<leftarrow> cc_sig_lookup (cc_sig s) hash key;
          t \<leftarrow> cc_sig_put_raw (cc_sig s) slot hash key a; Some (s\<lparr>cc_sig := t\<rparr>) }"
| "cc_undo (TR_USE a b r) s =
     Some (s\<lparr>cc_use_head := (cc_use_head s)[b := r], cc_use_node := butlast (cc_use_node s),
             cc_use_next := butlast (cc_use_next s)\<rparr>)"
| "cc_undo TR_NODE s =
     Some (s\<lparr>cc_nodes := butlast (cc_nodes s), cc_parent := butlast (cc_parent s), cc_rank := butlast (cc_rank s),
             cc_use_head := butlast (cc_use_head s)\<rparr>)"
| "cc_undo TR_NE s = Some (s\<lparr>cc_ne := butlast (cc_ne s)\<rparr>)"

fun cc_pop_loop :: "cc_trail list \<Rightarrow> nat \<Rightarrow> cc_state \<Rightarrow> cc_state option" where
  "cc_pop_loop [] mark s = Some s"
| "cc_pop_loop (e # es) mark s =
     (if length (e # es) > mark
      then do { s' \<leftarrow> cc_undo e (s\<lparr>cc_trail := es\<rparr>); cc_pop_loop es mark s' }
      else Some s)"

definition cc_pop :: "cc_state \<Rightarrow> nat \<Rightarrow> cc_state option" where
  "cc_pop s mark = cc_pop_loop (cc_trail s) mark s"

declare cc_find.simps [code] cc_recanon.simps [code] cc_tail.simps [code] cc_propagate.simps [code]

end
