(* ===== verification/CC_Struct.thy ===== *)
theory CC_Struct
  imports Cong_Closure
begin

text \<open>
  The structural invariants of the congruence closure and what its loops return: the union-find
  with ranks, the use lists as disjoint chains of cells, one canonicalisation, the walk over a use
  list, and the splice.
\<close>

section \<open>Union-find\<close>

text \<open>Ranks grow strictly along parents, so every path ends.\<close>

definition uf_ok :: "nat list \<Rightarrow> nat list \<Rightarrow> bool" where
  "uf_ok p rk \<longleftrightarrow> length rk = length p
     \<and> (\<forall>x < length p. p ! x < length p \<and> (p ! x \<noteq> x \<longrightarrow> rk ! x < rk ! (p ! x)))"

definition root :: "nat list \<Rightarrow> nat \<Rightarrow> nat" where
  "root p x = the (cc_find p x)"

lemma uf_induct:
  assumes "uf_ok p rk" and "x < length p"
    and base: "\<And>x. x < length p \<Longrightarrow> p ! x = x \<Longrightarrow> P x"
    and step: "\<And>x. x < length p \<Longrightarrow> p ! x \<noteq> x \<Longrightarrow> P (p ! x) \<Longrightarrow> P x"
  shows "P x"
  using assms(2)
proof (induction "Max (set rk) - rk ! x" arbitrary: x rule: less_induct)
  case less
  show ?case
  proof (cases "p ! x = x")
    case True
    then show ?thesis using base less.prems by blast
  next
    case False
    then have p: "p ! x < length p" "rk ! x < rk ! (p ! x)" "length rk = length p"
      using assms(1) less.prems by (auto simp: uf_ok_def)
    then have le: "rk ! (p ! x) \<le> Max (set rk)" by (intro Max_ge) auto
    have "Max (set rk) - rk ! (p ! x) < Max (set rk) - rk ! x"
      by (rule diff_less_mono2 [OF p(2)]) (use p(2) le in linarith)
    from less.hyps [OF this p(1)] have "P (p ! x)" .
    then show ?thesis using step less.prems False by blast
  qed
qed

lemma cc_find_root [simp]: "p ! x = x \<Longrightarrow> cc_find p x = Some x"
  by (subst cc_find.simps) simp

lemma cc_find_step: "p ! x \<noteq> x \<Longrightarrow> cc_find p x = cc_find p (p ! x)"
  by (subst cc_find.simps) simp

lemma find_some:
  assumes "uf_ok p rk" and "x < length p"
  shows "cc_find p x = Some (root p x)" and "root p x < length p" and "p ! root p x = root p x"
proof -
  have "\<exists>r. cc_find p x = Some r \<and> r < length p \<and> p ! r = r"
    by (rule uf_induct [OF assms]) (auto simp: cc_find_step)
  then show "cc_find p x = Some (root p x)" "root p x < length p" "p ! root p x = root p x"
    by (auto simp: root_def)
qed

lemma root_self [simp]: "p ! x = x \<Longrightarrow> root p x = x"
  by (simp add: root_def)

lemma root_parent: "root p (p ! x) = root p x"
  by (cases "p ! x = x") (simp_all add: root_def cc_find_step [of p x])

lemma root_idem: "uf_ok p rk \<Longrightarrow> x < length p \<Longrightarrow> root p (root p x) = root p x"
  using find_some(3) by simp

lemma find_all_some:
  "uf_ok p rk \<Longrightarrow> \<forall>a \<in> set as. a < length p \<Longrightarrow> cc_find_all p as = Some (map (root p) as)"
  by (induction as) (auto simp: find_some)

text \<open>Redirecting one root to another of at least its rank.\<close>

lemma uf_link:
  assumes ok: "uf_ok p rk" and ra: "ra < length p" "p ! ra = ra" and rb: "rb < length p" "p ! rb = rb"
    and ne: "ra \<noteq> rb" and le: "rk ! rb \<le> rk ! ra"
  defines "p' \<equiv> p[rb := ra]"
    and "rk' \<equiv> if rk ! ra = rk ! rb then rk[ra := rk ! ra + 1] else rk"
  shows "uf_ok p' rk'" and "x < length p \<Longrightarrow> root p' x = (if root p x = rb then ra else root p x)"
proof -
  have len: "length rk = length p" using ok by (simp add: uf_ok_def)
  show ok': "uf_ok p' rk'"
    unfolding uf_ok_def
  proof (intro conjI allI impI)
    show "length rk' = length p'" using len by (simp add: p'_def rk'_def)
    fix x assume "x < length p'"
    then have x: "x < length p" by (simp add: p'_def)
    show "p' ! x < length p'" using ok x ra rb by (cases "x = rb") (auto simp: uf_ok_def p'_def)
    assume "p' ! x \<noteq> x"
    show "rk' ! x < rk' ! (p' ! x)"
    proof (cases "x = rb")
      case True
      then show ?thesis using ne le ra rb len by (auto simp: p'_def rk'_def nth_list_update)
    next
      case False
      then have px: "p' ! x = p ! x" by (simp add: p'_def)
      then have lt: "rk ! x < rk ! (p ! x)" "p ! x < length p" using ok x \<open>p' ! x \<noteq> x\<close> by (auto simp: uf_ok_def)
      have "x \<noteq> ra" using px ra \<open>p' ! x \<noteq> x\<close> by auto
      then have "rk' ! x = rk ! x" by (simp add: rk'_def)
      moreover have "rk ! (p ! x) \<le> rk' ! (p ! x)" using lt(2) len by (cases "p ! x = ra") (auto simp: rk'_def)
      ultimately show ?thesis using lt px by simp
    qed
  qed
  show "root p' x = (if root p x = rb then ra else root p x)" if "x < length p"
  proof (rule uf_induct [OF ok that])
    fix x assume x: "x < length p" "p ! x = x"
    show "root p' x = (if root p x = rb then ra else root p x)"
    proof (cases "x = rb")
      case True
      have "p' ! ra = ra" using ne ra by (simp add: p'_def)
      then have "root p' ra = ra" by simp
      moreover have "root p' x = root p' (p' ! x)" by (simp add: root_parent)
      ultimately show ?thesis using True rb x by (simp add: p'_def)
    next
      case False
      then have "p' ! x = x" using x by (simp add: p'_def)
      then show ?thesis using x False by simp
    qed
  next
    fix x assume x: "x < length p" "p ! x \<noteq> x" and ih: "root p' (p ! x) = (if root p (p ! x) = rb then ra else root p (p ! x))"
    have px: "p' ! x = p ! x" using x rb by (auto simp: p'_def nth_list_update)
    show "root p' x = (if root p x = rb then ra else root p x)"
      using ih root_parent [of p' x] unfolding px root_parent [of p x] by simp
  qed
qed

text \<open>A new node is a class of its own.\<close>

lemma uf_append:
  assumes ok: "uf_ok p rk"
  shows "uf_ok (p @ [length p]) (rk @ [0])" and "root (p @ [length p]) (length p) = length p"
    and "x < length p \<Longrightarrow> root (p @ [length p]) x = root p x"
proof -
  show "uf_ok (p @ [length p]) (rk @ [0])" using ok by (auto simp: uf_ok_def nth_append less_Suc_eq)
  show "root (p @ [length p]) (length p) = length p" by simp
  show "root (p @ [length p]) x = root p x" if "x < length p"
  proof (rule uf_induct [OF ok that])
    fix x assume x: "x < length p" "p ! x \<noteq> x" "root (p @ [length p]) (p ! x) = root p (p ! x)"
    then show "root (p @ [length p]) x = root p x"
      using root_parent [of "p @ [length p]" x] root_parent [of p x] by (simp add: nth_append)
  qed (simp add: nth_append)
qed

section \<open>Chains of cells\<close>

primrec chain :: "nat option list \<Rightarrow> nat option \<Rightarrow> nat list \<Rightarrow> bool" where
  "chain nx h [] \<longleftrightarrow> h = None"
| "chain nx h (c # cs) \<longleftrightarrow> h = Some c \<and> c < length nx \<and> chain nx (nx ! c) cs"

lemma chain_update: "c \<notin> set cs \<Longrightarrow> chain nx h cs \<Longrightarrow> chain (nx[c := v]) h cs"
  by (induction cs arbitrary: h) auto

lemma chain_append_pool: "chain nx h cs \<Longrightarrow> chain (nx @ ys) h cs"
  by (induction cs arbitrary: h) (auto simp: nth_append)

lemma chain_less: "chain nx h cs \<Longrightarrow> c \<in> set cs \<Longrightarrow> c < length nx"
  by (induction cs arbitrary: h) auto

lemma chain_last: "chain nx h cs \<Longrightarrow> cs \<noteq> [] \<Longrightarrow> nx ! last cs = None"
proof (induction cs arbitrary: h)
  case (Cons c cs)
  then show ?case by (cases cs) auto
qed simp

lemma chain_det: "chain nx h cs \<Longrightarrow> chain nx h ds \<Longrightarrow> cs = ds"
proof (induction cs arbitrary: h ds)
  case (Cons c cs)
  then show ?case by (cases ds) auto
next
  case Nil
  then show ?case by (cases ds) auto
qed

lemma cc_tail_last: "chain nx (Some c) cs \<Longrightarrow> cc_tail nx c = Some (last cs)"
proof (induction cs arbitrary: c)
  case (Cons d cs)
  then show ?case by (subst cc_tail.simps) (cases cs; auto)
qed simp

lemma chain_join:
  assumes "chain nx h cs" and "cs \<noteq> []" and "distinct cs" and "chain nx h2 ds" and "set cs \<inter> set ds = {}"
  shows "chain (nx[last cs := h2]) h (cs @ ds)"
  using assms
proof (induction cs arbitrary: h)
  case (Cons c cs)
  show ?case
  proof (cases "cs = []")
    case True
    then have "chain (nx[c := h2]) h2 ds" using Cons.prems chain_update by auto
    then show ?thesis using Cons.prems True by simp
  next
    case False
    then have "c \<noteq> last cs" using Cons.prems by auto
    then show ?thesis using Cons False by auto
  qed
qed simp


section \<open>The invariant\<close>

text \<open>Arguments are earlier nodes; the table holds applications under keys that are theirs up to roots.\<close>

definition nodes_ok :: "cc_node list \<Rightarrow> bool" where
  "nodes_ok nodes \<longleftrightarrow> (\<forall>m f args. m < length nodes \<longrightarrow> nodes ! m = CC_APP f args \<longrightarrow> (\<forall>a \<in> set args. a < m))"

definition sig_ok :: "cc_node list \<Rightarrow> (nat \<Rightarrow> nat) \<Rightarrow> (nat list \<rightharpoonup> nat) \<Rightarrow> bool" where
  "sig_ok nodes R M \<longleftrightarrow> (\<forall>key m. M key = Some m \<longrightarrow> m < length nodes \<and>
     (\<exists>f args ks. nodes ! m = CC_APP f args \<and> key = unat f # ks \<and> list_all2 (\<lambda>k a. k < length nodes \<and> R k = R a) ks args))"

text \<open>The use lists: disjoint chains of cells, one per class, that hold applications.\<close>

definition lists_ok :: "cc_state \<Rightarrow> (nat \<Rightarrow> nat list) \<Rightarrow> bool" where
  "lists_ok s L \<longleftrightarrow> length (cc_use_next s) = length (cc_use_node s)
     \<and> (\<forall>r < length (cc_nodes s). chain (cc_use_next s) (cc_use_head s ! r) (L r) \<and> distinct (L r))
     \<and> (\<forall>r < length (cc_nodes s). \<forall>q < length (cc_nodes s). r \<noteq> q \<longrightarrow> set (L r) \<inter> set (L q) = {})
     \<and> (\<forall>m \<in> set (cc_use_node s). m < length (cc_nodes s) \<and> (\<exists>f args. cc_nodes s ! m = CC_APP f args))"

definition uses :: "cc_state \<Rightarrow> nat list \<Rightarrow> nat set" where
  "uses s cs = (\<lambda>c. cc_use_node s ! c) ` set cs"

definition covered :: "cc_state \<Rightarrow> (nat \<Rightarrow> nat) \<Rightarrow> (nat \<Rightarrow> nat list) \<Rightarrow> bool" where
  "covered s R L \<longleftrightarrow> (\<forall>m f args. m < length (cc_nodes s) \<longrightarrow> cc_nodes s ! m = CC_APP f args \<longrightarrow>
     (\<forall>a \<in> set args. m \<in> uses s (L (R a))))"

definition pairs_ok :: "nat \<Rightarrow> (nat \<times> nat) list \<Rightarrow> bool" where
  "pairs_ok n ps \<longleftrightarrow> (\<forall>(a, b) \<in> set ps. a < n \<and> b < n)"

text \<open>What holds at every point, the use lists apart.\<close>

definition base_ok :: "cc_state \<Rightarrow> bool" where
  "base_ok s \<longleftrightarrow> uf_ok (cc_parent s) (cc_rank s) \<and> length (cc_parent s) = length (cc_nodes s)
     \<and> length (cc_use_head s) = length (cc_nodes s) \<and> nodes_ok (cc_nodes s) \<and> table_ok (cc_sig s)
     \<and> sig_ok (cc_nodes s) (root (cc_parent s)) (tmap (cc_sig s))
     \<and> pairs_ok (length (cc_nodes s)) (cc_pend s) \<and> pairs_ok (length (cc_nodes s)) (cc_ne s)"

definition use_ok :: "cc_state \<Rightarrow> bool" where
  "use_ok s \<longleftrightarrow> (\<exists>L. lists_ok s L \<and> covered s (root (cc_parent s)) L
     \<and> (\<forall>r < length (cc_nodes s). cc_parent s ! r \<noteq> r \<longrightarrow> L r = []))"

text \<open>The equivalence that the classes and the pending merges generate.\<close>

definition cc_gen :: "cc_state \<Rightarrow> (nat \<times> nat) set" where
  "cc_gen s = {(x, y). x < length (cc_nodes s) \<and> y < length (cc_nodes s) \<and> root (cc_parent s) x = root (cc_parent s) y}
     \<union> set (cc_pend s)"

definition cc_eqv :: "cc_state \<Rightarrow> (nat \<times> nat) set" where
  "cc_eqv s = (cc_gen s \<union> (cc_gen s)\<inverse>)\<^sup>*"

text \<open>Every application outside T has its canonical key in the table, for a node it will be merged with.\<close>

definition keyed :: "cc_state \<Rightarrow> nat set \<Rightarrow> bool" where
  "keyed s T \<longleftrightarrow> (\<forall>m f args. m < length (cc_nodes s) \<longrightarrow> m \<notin> T \<longrightarrow> cc_nodes s ! m = CC_APP f args \<longrightarrow>
     (\<exists>m'. tmap (cc_sig s) (unat f # map (root (cc_parent s)) args) = Some m' \<and> (m', m) \<in> cc_eqv s))"

lemma eqv_refl [simp]: "(x, x) \<in> cc_eqv s"
  by (simp add: cc_eqv_def)

lemma eqv_sym: "(x, y) \<in> cc_eqv s \<Longrightarrow> (y, x) \<in> cc_eqv s"
  unfolding cc_eqv_def by (metis Un_commute converse_Un converse_converse rtrancl_converseD rtrancl_converseI converseI)

lemma eqv_trans: "(x, y) \<in> cc_eqv s \<Longrightarrow> (y, z) \<in> cc_eqv s \<Longrightarrow> (x, z) \<in> cc_eqv s"
  unfolding cc_eqv_def by (rule rtrancl_trans)

lemma gen_eqv: "(x, y) \<in> cc_gen s \<Longrightarrow> (x, y) \<in> cc_eqv s"
  by (auto simp: cc_eqv_def)

lemma eqv_induct:
  assumes "(x, y) \<in> cc_eqv s" and "\<And>x. P x x" and "\<And>x y. P x y \<Longrightarrow> P y x"
    and "\<And>x y z. P x y \<Longrightarrow> P y z \<Longrightarrow> P x z" and "\<And>x y. (x, y) \<in> cc_gen s \<Longrightarrow> P x y"
  shows "P x y"
  using assms(1) unfolding cc_eqv_def
  by (induction rule: rtrancl_induct) (use assms(2-) in blast)+

lemma eqv_mono: "(\<And>x y. (x, y) \<in> cc_gen s \<Longrightarrow> (x, y) \<in> cc_eqv t) \<Longrightarrow> (x, y) \<in> cc_eqv s \<Longrightarrow> (x, y) \<in> cc_eqv t"
  by (erule eqv_induct) (auto intro: eqv_sym eqv_trans)


section \<open>Models\<close>

text \<open>A reading of the nodes under which applications are applications, and the equations it makes true.\<close>

definition cc_models :: "(u32 \<Rightarrow> 'd list \<Rightarrow> 'd) \<Rightarrow> (nat \<Rightarrow> 'd) \<Rightarrow> cc_node list \<Rightarrow> bool" where
  "cc_models F v nodes \<longleftrightarrow> (\<forall>m f args. m < length nodes \<longrightarrow> nodes ! m = CC_APP f args \<longrightarrow> v m = F f (map v args))"

definition agrees :: "(nat \<Rightarrow> 'd) \<Rightarrow> cc_state \<Rightarrow> bool" where
  "agrees v s \<longleftrightarrow> (\<forall>(x, y) \<in> cc_gen s. v x = v y)"

lemma agrees_eqv: "agrees v s \<Longrightarrow> (x, y) \<in> cc_eqv s \<Longrightarrow> v x = v y"
  by (erule eqv_induct) (auto simp: agrees_def)

section \<open>Undoing\<close>

text \<open>
  Two states agree when everything but the layout of the table and the transient queue is equal.
  What is undone is restored up to that.
\<close>

definition state_eq :: "cc_state \<Rightarrow> cc_state \<Rightarrow> bool" where
  "state_eq s t \<longleftrightarrow> cc_nodes s = cc_nodes t \<and> cc_parent s = cc_parent t \<and> cc_rank s = cc_rank t
     \<and> cc_use_head s = cc_use_head t \<and> cc_use_node s = cc_use_node t \<and> cc_use_next s = cc_use_next t
     \<and> cc_ne s = cc_ne t \<and> cc_trail s = cc_trail t
     \<and> table_ok (cc_sig s) \<and> table_ok (cc_sig t) \<and> tmap (cc_sig s) = tmap (cc_sig t)"

definition undo_ok :: "cc_state \<Rightarrow> cc_state \<Rightarrow> bool" where
  "undo_ok s s' \<longleftrightarrow> (\<exists>es. cc_trail s' = es @ cc_trail s) \<and>
     (\<forall>t. state_eq t s' \<longrightarrow> (\<exists>u. cc_pop_loop (cc_trail s') (length (cc_trail s)) t = Some u \<and> state_eq u s
        \<and> cc_pend u = cc_pend t))"

lemma pop_loop_here [simp]: "cc_pop_loop es (length es) s = Some s"
  by (cases es) auto

lemma pop_loop_split:
  "mark \<le> length tr \<Longrightarrow> cc_pop_loop (es @ tr) mark t = Option.bind (cc_pop_loop (es @ tr) (length tr) t) (cc_pop_loop tr mark)"
proof (induction es arbitrary: t)
  case (Cons e es)
  then show ?case by (cases "cc_undo e (t\<lparr>cc_trail := es @ tr\<rparr>)") auto
qed simp

lemma undo_ok_same: "cc_trail s' = cc_trail s \<Longrightarrow> (\<And>t. state_eq t s' \<Longrightarrow> state_eq t s) \<Longrightarrow> undo_ok s s'"
  by (auto simp: undo_ok_def)

lemma undo_ok_trans:
  assumes "undo_ok s t" and "undo_ok t u"
  shows "undo_ok s u"
proof -
  obtain es ds where tr: "cc_trail t = es @ cc_trail s" "cc_trail u = ds @ cc_trail t" using assms by (auto simp: undo_ok_def)
  have "\<exists>y. cc_pop_loop (cc_trail u) (length (cc_trail s)) x = Some y \<and> state_eq y s \<and> cc_pend y = cc_pend x" if h: "state_eq x u" for x
  proof -
    obtain y where y: "cc_pop_loop (cc_trail u) (length (cc_trail t)) x = Some y" "state_eq y t" "cc_pend y = cc_pend x"
      using assms(2) h unfolding undo_ok_def by blast
    obtain z where "cc_pop_loop (cc_trail t) (length (cc_trail s)) y = Some z" "state_eq z s" "cc_pend z = cc_pend y"
      using assms(1) y(2) unfolding undo_ok_def by blast
    then show ?thesis using y pop_loop_split [of "length (cc_trail s)" "cc_trail t" ds x] tr by auto
  qed
  then show ?thesis using tr by (auto simp: undo_ok_def)
qed

text \<open>A step that pushes one record is undone by it.\<close>

lemma undo_ok_step:
  assumes "cc_trail s' = e # cc_trail s"
    and "\<And>t. state_eq t s' \<Longrightarrow> \<exists>u. cc_undo e (t\<lparr>cc_trail := cc_trail s\<rparr>) = Some u \<and> state_eq u s \<and> cc_pend u = cc_pend t"
  shows "undo_ok s s'"
  using assms by (fastforce simp: undo_ok_def)

lemma undo_ok_put:
  assumes "table_ok (cc_sig s)" and "table_ok t" and "tmap (cc_sig s) key = None" and "tmap t = (tmap (cc_sig s))(key \<mapsto> n)"
  shows "undo_ok s (s\<lparr>cc_trail := TR_SIG_PUT (key_hash key) key # cc_trail s, cc_sig := t\<rparr>)"
proof (rule undo_ok_step)
  fix x assume x: "state_eq x (s\<lparr>cc_trail := TR_SIG_PUT (key_hash key) key # cc_trail s, cc_sig := t\<rparr>)"
  then have "table_ok (cc_sig x)" by (simp add: state_eq_def)
  from tab.del_view [OF this, of key] obtain w where "sig_del (cc_sig x) key = Some w" "table_ok w"
      "tmap w = (tmap (cc_sig x))(key := None)" by blast
  then show "\<exists>u. cc_undo (TR_SIG_PUT (key_hash key) key) (x\<lparr>cc_trail := cc_trail s\<rparr>) = Some u \<and> state_eq u s \<and> cc_pend u = cc_pend x"
    using x assms by (auto simp: state_eq_def fun_upd_idem)
qed simp

section \<open>Canonicalisation\<close>

text \<open>Steps that touch the table, the queue and the trail only, and only add to the first two.\<close>

definition canon_step :: "cc_state \<Rightarrow> cc_state \<Rightarrow> bool" where
  "canon_step s s' \<longleftrightarrow> cc_nodes s' = cc_nodes s \<and> cc_parent s' = cc_parent s \<and> cc_rank s' = cc_rank s
     \<and> cc_use_head s' = cc_use_head s \<and> cc_use_node s' = cc_use_node s \<and> cc_use_next s' = cc_use_next s
     \<and> cc_ne s' = cc_ne s \<and> tmap (cc_sig s) \<subseteq>\<^sub>m tmap (cc_sig s') \<and> set (cc_pend s) \<subseteq> set (cc_pend s')"

lemma canon_step_refl [simp]: "canon_step s s"
  by (simp add: canon_step_def)

lemma canon_step_trans: "canon_step s t \<Longrightarrow> canon_step t u \<Longrightarrow> canon_step s u"
  unfolding canon_step_def by (auto intro: map_le_trans)

lemma canon_step_eqv: "canon_step s s' \<Longrightarrow> (x, y) \<in> cc_eqv s \<Longrightarrow> (x, y) \<in> cc_eqv s'"
  by (erule eqv_mono [rotated]) (rule gen_eqv, auto simp: canon_step_def cc_gen_def)

definition keyed_at :: "cc_state \<Rightarrow> nat \<Rightarrow> bool" where
  "keyed_at s m \<longleftrightarrow> (\<forall>f args. cc_nodes s ! m = CC_APP f args \<longrightarrow>
     (\<exists>m'. tmap (cc_sig s) (unat f # map (root (cc_parent s)) args) = Some m' \<and> (m', m) \<in> cc_eqv s))"

lemma keyed_iff: "keyed s T \<longleftrightarrow> (\<forall>m < length (cc_nodes s). m \<notin> T \<longrightarrow> keyed_at s m)"
  unfolding keyed_def keyed_at_def by blast

lemma keyed_at_step:
  assumes "canon_step s s'" and "keyed_at s m"
  shows "keyed_at s' m"
  unfolding keyed_at_def
proof (intro allI impI)
  fix f args assume "cc_nodes s' ! m = CC_APP f args"
  then have "cc_nodes s ! m = CC_APP f args" using assms(1) by (simp add: canon_step_def)
  then obtain m' where "tmap (cc_sig s) (unat f # map (root (cc_parent s)) args) = Some m'" "(m', m) \<in> cc_eqv s"
    using assms(2) by (auto simp: keyed_at_def)
  then show "\<exists>m'. tmap (cc_sig s') (unat f # map (root (cc_parent s')) args) = Some m' \<and> (m', m) \<in> cc_eqv s'"
    using assms(1) canon_step_eqv [OF assms(1)] unfolding canon_step_def map_le_def by (metis domI)
qed

lemma base_ok_roots:
  assumes "base_ok s" and "m < length (cc_nodes s)" and "cc_nodes s ! m = CC_APP f args"
  shows "\<forall>a \<in> set args. a < length (cc_parent s)"
  using assms by (force simp: base_ok_def nodes_ok_def)

lemma cc_key_some:
  assumes "base_ok s" and "\<forall>a \<in> set args. a < length (cc_parent s)"
  shows "cc_key s f args = Some (key_hash (unat f # map (root (cc_parent s)) args), unat f # map (root (cc_parent s)) args)"
  using find_all_some [of "cc_parent s" "cc_rank s" args] assms by (simp add: cc_key_def base_ok_def Let_def)

lemma sig_put_some:
  assumes "table_ok (cc_sig s)" and "sig_find (cc_sig s) key = Some (None, slot)"
  obtains t where "cc_sig_put slot (key_hash key) key node s = Some (s\<lparr>cc_trail := TR_SIG_PUT (key_hash key) key # cc_trail s, cc_sig := t\<rparr>)"
    and "table_ok t" and "tmap t = (tmap (cc_sig s))(key \<mapsto> node)"
proof -
  obtain t where "sig_ins (cc_sig s) slot key node = Some t" "table_ok t" "tmap t = (tmap (cc_sig s))(key \<mapsto> node)"
    using tab.put_view [OF assms] by blast
  then show ?thesis using that by (simp add: cc_sig_put_def cc_trail_push_def Let_def)
qed

lemma canonicalize_spec:
  fixes F :: "u32 \<Rightarrow> 'd list \<Rightarrow> 'd"
  assumes ok: "base_ok s" and m: "m < length (cc_nodes s)" "cc_nodes s ! m = CC_APP f args"
  shows "\<exists>s'. cc_canonicalize m s = Some s' \<and> base_ok s' \<and> canon_step s s' \<and> keyed_at s' m \<and> undo_ok s s'
    \<and> (\<forall>F v. cc_models F v (cc_nodes s) \<longrightarrow> agrees v s \<longrightarrow> agrees (v :: nat \<Rightarrow> 'd) s')"
proof -
  let ?R = "root (cc_parent s)" and ?n = "length (cc_nodes s)"
  let ?key = "unat f # map ?R args"
  have b: "uf_ok (cc_parent s) (cc_rank s)" "length (cc_parent s) = ?n" "nodes_ok (cc_nodes s)" "table_ok (cc_sig s)"
      "sig_ok (cc_nodes s) ?R (tmap (cc_sig s))"
    using ok by (auto simp: base_ok_def)
  note args = base_ok_roots [OF ok m]
  have key: "cc_sig_key s m = Some (key_hash ?key, ?key)"
    using m cc_key_some [OF ok args] by (simp add: cc_sig_key_def)
  obtain slot where look: "sig_find (cc_sig s) ?key = Some (tmap (cc_sig s) ?key, slot)"
    using tab.find_view [OF b(4)] by blast
  show ?thesis
  proof (cases "tmap (cc_sig s) ?key")
    case None
    then obtain t where t: "cc_sig_put slot (key_hash ?key) ?key m s
          = Some (s\<lparr>cc_trail := TR_SIG_PUT (key_hash ?key) ?key # cc_trail s, cc_sig := t\<rparr>)" (is "_ = Some ?s'")
        "table_ok t" "tmap t = (tmap (cc_sig s))(?key \<mapsto> m)"
      using sig_put_some [OF b(4), of ?key slot m] look by metis
    have run: "cc_canonicalize m s = Some ?s'" using key look None t(1) by (simp add: cc_canonicalize_def)
    have "list_all2 (\<lambda>k a. k < ?n \<and> ?R k = ?R a) (map ?R args) args"
      using find_some [OF b(1)] b(2) args by (auto simp: list_all2_conv_all_nth)
    then have "sig_ok (cc_nodes s) ?R (tmap t)" using b(5) m t(3) by (auto simp: sig_ok_def)
    then have "base_ok ?s'" using ok t(2) by (simp add: base_ok_def)
    moreover have "canon_step s ?s'" using t(3) None by (auto simp: canon_step_def map_le_def dom_def)
    moreover have "keyed_at ?s' m" using m t(3) by (simp add: keyed_at_def)
    moreover have "undo_ok s ?s'" by (rule undo_ok_put [OF b(4) t(2) None t(3)])
    moreover have "cc_gen ?s' = cc_gen s" by (simp add: cc_gen_def)
    ultimately show ?thesis using run by (auto simp: agrees_def)
  next
    case (Some o')
    obtain g as ks where e: "o' < ?n" "cc_nodes s ! o' = CC_APP g as" "?key = unat g # ks"
        "list_all2 (\<lambda>k a. k < ?n \<and> ?R k = ?R a) ks as"
      using b(5) Some unfolding sig_ok_def by blast
    have roots: "map ?R args = map ?R as"
    proof -
      have ks: "ks = map ?R args" using e(3) by simp
      have "list_all2 (\<lambda>k a. ?R k = ?R a) ks as" using e(4) by (rule list_all2_mono) blast
      then have "map ?R ks = map ?R as" by (auto simp: list_all2_conv_all_nth intro: nth_equalityI)
      moreover have "map ?R ks = map ?R args" using root_idem [OF b(1)] args by (simp add: ks)
      ultimately show ?thesis by simp
    qed
    have "f = g" using e(3) by (simp add: word_unat_eq_iff)
    let ?s' = "if ?R o' \<noteq> ?R m then cc_pend_push o' m s else s"
    have run: "cc_canonicalize m s = Some ?s'"
      using key look Some find_some(1) [OF b(1)] b(2) e(1) m(1) by (simp add: cc_canonicalize_def)
    have base: "base_ok ?s'" using ok e(1) m(1) by (auto simp: base_ok_def cc_pend_push_def pairs_ok_def)
    have step: "canon_step s ?s'" by (auto simp: canon_step_def cc_pend_push_def)
    have gen: "(o', m) \<in> cc_gen ?s'" using e(1) m(1) by (auto simp: cc_gen_def cc_pend_push_def)
    have "keyed_at ?s' m"
      using Some m gen_eqv [OF gen] step by (auto simp: keyed_at_def canon_step_def cc_pend_push_def)
    moreover have "undo_ok s ?s'" by (rule undo_ok_same) (auto simp: state_eq_def cc_pend_push_def)
    moreover have "agrees v ?s'" if mod: "cc_models F v (cc_nodes s)" and res: "agrees v s" for F :: "u32 \<Rightarrow> 'd list \<Rightarrow> 'd" and v
    proof -
      have "v x = v y" if "x \<in> set args \<or> x \<in> set as" "?R x = ?R y" "y < ?n" for x y
      proof -
        have "x < ?n" using that(1) args base_ok_roots [OF ok e(1,2)] b(2) by auto
        then have "(x, y) \<in> cc_gen s" using that by (simp add: cc_gen_def)
        then show ?thesis using res by (auto simp: agrees_def)
      qed
      note eqv = this
      have las: "length args = length as" using arg_cong [OF roots, of length] by simp
      have "v (args ! i) = v (as ! i)" if "i < length args" for i
      proof (rule eqv)
        show "args ! i \<in> set args \<or> args ! i \<in> set as" using that by simp
        show "?R (args ! i) = ?R (as ! i)" using arg_cong [OF roots, of "\<lambda>xs. xs ! i"] that las by simp
        show "as ! i < ?n" using base_ok_roots [OF ok e(1,2)] b(2) that las by simp
      qed
      then have "map v args = map v as" using las by (intro nth_equalityI) auto
      then have "v o' = v m" using mod e m \<open>f = g\<close> unfolding cc_models_def by metis
      then show ?thesis using res by (auto simp: agrees_def cc_gen_def cc_pend_push_def)
    qed
    ultimately show ?thesis using run base step by blast
  qed
qed

lemma recanon_spec:
  assumes ok: "base_ok s" and ch: "chain (cc_use_next s) h cs"
    and apps: "\<forall>m \<in> uses s cs. m < length (cc_nodes s) \<and> (\<exists>f args. cc_nodes s ! m = CC_APP f args)"
  shows "\<exists>s'. cc_recanon h s = Some s' \<and> base_ok s' \<and> canon_step s s' \<and> (\<forall>m \<in> uses s cs. keyed_at s' m) \<and> undo_ok s s'
    \<and> (\<forall>F v. cc_models F v (cc_nodes s) \<longrightarrow> agrees v s \<longrightarrow> agrees (v :: nat \<Rightarrow> 'd) s')"
  using assms
proof (induction cs arbitrary: h s)
  case Nil
  then show ?case by (subst cc_recanon.simps) (auto simp: uses_def intro: undo_ok_same)
next
  case (Cons c cs)
  let ?m = "cc_use_node s ! c"
  have h: "h = Some c" "chain (cc_use_next s) (cc_use_next s ! c) cs" using Cons.prems(2) by auto
  have "?m \<in> uses s (c # cs)" by (simp add: uses_def)
  then obtain f args where m: "?m < length (cc_nodes s)" "cc_nodes s ! ?m = CC_APP f args" using Cons.prems(3) by blast
  obtain s1 where s1: "cc_canonicalize ?m s = Some s1" "base_ok s1" "canon_step s s1" "keyed_at s1 ?m" "undo_ok s s1"
      "\<forall>F v. cc_models F v (cc_nodes s) \<longrightarrow> agrees v s \<longrightarrow> agrees (v :: nat \<Rightarrow> 'd) s1"
    using canonicalize_spec [OF Cons.prems(1) m, where 'd = 'd] by blast
  have same: "cc_use_next s1 = cc_use_next s" "cc_use_node s1 = cc_use_node s" "cc_nodes s1 = cc_nodes s"
    using s1(3) by (auto simp: canon_step_def)
  have u: "uses s1 cs = uses s cs" "uses s (c # cs) = insert ?m (uses s cs)" by (auto simp: uses_def same)
  obtain s2 where s2: "cc_recanon (cc_use_next s1 ! c) s1 = Some s2" "base_ok s2" "canon_step s1 s2"
      "\<forall>m \<in> uses s1 cs. keyed_at s2 m" "undo_ok s1 s2"
      "\<forall>F v. cc_models F v (cc_nodes s1) \<longrightarrow> agrees v s1 \<longrightarrow> agrees (v :: nat \<Rightarrow> 'd) s2"
    using Cons.IH [OF s1(2), of "cc_use_next s1 ! c"] h(2) Cons.prems(3) unfolding same u by auto
  have "cc_recanon h s = Some s2" using s1(1) s2(1) h by (subst cc_recanon.simps) simp
  moreover have "keyed_at s2 ?m" using keyed_at_step [OF s2(3) s1(4)] .
  moreover have "canon_step s s2" using canon_step_trans [OF s1(3) s2(3)] .
  moreover have "undo_ok s s2" using undo_ok_trans [OF s1(5) s2(5)] .
  ultimately show ?case using s2(2,4,6) s1(6) unfolding u same by blast
qed


section \<open>One merge\<close>

lemma link_fields [simp]:
  "cc_nodes (cc_link ra rb s) = cc_nodes s" "cc_use_head (cc_link ra rb s) = cc_use_head s"
  "cc_use_node (cc_link ra rb s) = cc_use_node s" "cc_use_next (cc_link ra rb s) = cc_use_next s"
  "cc_sig (cc_link ra rb s) = cc_sig s" "cc_pend (cc_link ra rb s) = cc_pend s" "cc_ne (cc_link ra rb s) = cc_ne s"
  "cc_parent (cc_link ra rb s) = (cc_parent s)[rb := ra]"
  "cc_rank (cc_link ra rb s) = (if cc_rank s ! ra = cc_rank s ! rb then (cc_rank s)[ra := cc_rank s ! ra + 1] else cc_rank s)"
  "cc_trail (cc_link ra rb s) = TR_UNION rb ra (cc_rank s ! ra) # cc_trail s"
  by (simp_all add: cc_link_def cc_trail_push_def Let_def)

text \<open>The situation of a merge: two roots of the classes of a pending pair, the larger rank first.\<close>

definition merge_pre :: "cc_state \<Rightarrow> nat \<Rightarrow> nat \<Rightarrow> (nat \<times> nat) list \<Rightarrow> nat \<Rightarrow> nat \<Rightarrow> bool" where
  "merge_pre s a b rest ra rb \<longleftrightarrow> base_ok s \<and> cc_pend s = (a, b) # rest
     \<and> {ra, rb} = {root (cc_parent s) a, root (cc_parent s) b} \<and> ra \<noteq> rb \<and> cc_rank s ! rb \<le> cc_rank s ! ra"

lemma merge_roots:
  assumes "merge_pre s a b rest ra rb"
  shows "ra < length (cc_parent s)" "cc_parent s ! ra = ra" "rb < length (cc_parent s)" "cc_parent s ! rb = rb"
    and "x < length (cc_parent s) \<Longrightarrow> root ((cc_parent s)[rb := ra]) x = (if root (cc_parent s) x = rb then ra else root (cc_parent s) x)"
    and "uf_ok ((cc_parent s)[rb := ra]) (cc_rank (cc_link ra rb s))"
proof -
  have ok: "uf_ok (cc_parent s) (cc_rank s)" and ab: "a < length (cc_parent s)" "b < length (cc_parent s)"
    using assms by (auto simp: merge_pre_def base_ok_def pairs_ok_def)
  have "ra \<in> {root (cc_parent s) a, root (cc_parent s) b}" "rb \<in> {root (cc_parent s) a, root (cc_parent s) b}"
    using assms unfolding merge_pre_def by blast+
  then show r: "ra < length (cc_parent s)" "cc_parent s ! ra = ra" "rb < length (cc_parent s)" "cc_parent s ! rb = rb"
    using find_some(2,3) [OF ok ab(1)] find_some(2,3) [OF ok ab(2)] by auto
  have ne: "ra \<noteq> rb" "cc_rank s ! rb \<le> cc_rank s ! ra" using assms by (auto simp: merge_pre_def)
  show "x < length (cc_parent s) \<Longrightarrow> root ((cc_parent s)[rb := ra]) x = (if root (cc_parent s) x = rb then ra else root (cc_parent s) x)"
    by (rule uf_link(2) [OF ok r ne])
  show "uf_ok ((cc_parent s)[rb := ra]) (cc_rank (cc_link ra rb s))"
    using uf_link(1) [OF ok r ne] by simp
qed

lemma link_base:
  assumes pre: "merge_pre s a b rest ra rb"
  defines "s1 \<equiv> cc_link ra rb (s\<lparr>cc_pend := rest\<rparr>)"
  shows "base_ok s1"
proof -
  let ?n = "length (cc_nodes s)" and ?R = "root (cc_parent s)" and ?R' = "root ((cc_parent s)[rb := ra])"
  have ok: "base_ok s" using pre by (simp add: merge_pre_def)
  then have n: "length (cc_parent s) = ?n" "nodes_ok (cc_nodes s)" by (auto simp: base_ok_def)
  have "sig_ok (cc_nodes s) ?R' (tmap (cc_sig s))"
    unfolding sig_ok_def
  proof (intro allI impI)
    fix key m assume "tmap (cc_sig s) key = Some m"
    then obtain f args ks where e: "m < ?n" "cc_nodes s ! m = CC_APP f args" "key = unat f # ks"
        "list_all2 (\<lambda>k a. k < ?n \<and> ?R k = ?R a) ks args"
      using ok unfolding base_ok_def sig_ok_def by blast
    have "a < ?n" if "a \<in> set args" for a using base_ok_roots [OF ok e(1,2)] that n by auto
    then have "list_all2 (\<lambda>k a. k < ?n \<and> ?R' k = ?R' a) ks args"
      using e(4) merge_roots(5) [OF pre] n(1) by (auto simp: list_all2_conv_all_nth)
    then show "m < ?n \<and> (\<exists>f args ks. cc_nodes s ! m = CC_APP f args \<and> key = unat f # ks
        \<and> list_all2 (\<lambda>k a. k < ?n \<and> ?R' k = ?R' a) ks args)"
      using e by blast
  qed
  moreover have "cc_rank s1 = cc_rank (cc_link ra rb s)" "cc_parent s1 = (cc_parent s)[rb := ra]" by (simp_all add: s1_def)
  then have "uf_ok (cc_parent s1) (cc_rank s1)" using merge_roots(6) [OF pre] by (simp only:)
  ultimately show ?thesis
    using ok pre by (simp add: base_ok_def s1_def merge_pre_def pairs_ok_def del: link_fields(9))
qed

lemma link_eqv:
  assumes pre: "merge_pre s a b rest ra rb"
  defines "s1 \<equiv> cc_link ra rb (s\<lparr>cc_pend := rest\<rparr>)"
  shows "(x, y) \<in> cc_eqv s \<Longrightarrow> (x, y) \<in> cc_eqv s1" and "agrees v s \<Longrightarrow> agrees v s1"
proof -
  let ?n = "length (cc_nodes s)" and ?R = "root (cc_parent s)" and ?R' = "root ((cc_parent s)[rb := ra])"
  have ok: "base_ok s" and ab: "a < ?n" "b < ?n" and n: "length (cc_parent s) = ?n"
    and uf: "uf_ok (cc_parent s) (cc_rank s)" and set: "{ra, rb} = {?R a, ?R b}" and pend: "cc_pend s = (a, b) # rest"
    using pre by (auto simp: merge_pre_def base_ok_def pairs_ok_def)
  have R': "?R' x = (if ?R x = rb then ra else ?R x)" if "x < ?n" for x using merge_roots(5) [OF pre] that n by simp
  have "?R' a = ?R' b" using R' [OF ab(1)] R' [OF ab(2)] set by (auto simp: doubleton_eq_iff)
  then show "(x, y) \<in> cc_eqv s \<Longrightarrow> (x, y) \<in> cc_eqv s1"
    using R' ab by (elim eqv_mono [rotated]) (auto simp: cc_gen_def s1_def pend intro!: gen_eqv)
  assume ag: "agrees v s"
  have root: "v x = v (?R x)" if "x < ?n" for x
  proof -
    have "(x, ?R x) \<in> cc_gen s" using that find_some(2,3) [OF uf] n by (simp add: cc_gen_def)
    then show ?thesis using ag by (auto simp: agrees_def)
  qed
  have "v a = v b" using ag pend by (auto simp: agrees_def cc_gen_def)
  then have "v ra = v rb" using root [OF ab(1)] root [OF ab(2)] set by (auto simp: doubleton_eq_iff)
  then have "v (?R' x) = v (?R x)" if "x < ?n" for x using R' [OF that] by auto
  then have "v x = v (?R' x)" if "x < ?n" for x using root that by metis
  then have "v x = v y" if "x < ?n" "y < ?n" "?R' x = ?R' y" for x y using that by metis
  moreover have "v x = v y" if "(x, y) \<in> set rest" for x y using ag that by (auto simp: agrees_def cc_gen_def pend)
  ultimately show "agrees v s1" by (auto simp: agrees_def cc_gen_def s1_def)
qed

lemma link_keyed:
  assumes pre: "merge_pre s a b rest ra rb" and cov: "covered s (root (cc_parent s)) L" and key: "keyed s {}"
  defines "s1 \<equiv> cc_link ra rb (s\<lparr>cc_pend := rest\<rparr>)"
  shows "keyed s1 (uses s1 (L rb))"
  unfolding keyed_def
proof (intro allI impI)
  let ?n = "length (cc_nodes s)"
  fix m f args assume "m < length (cc_nodes s1)" "m \<notin> uses s1 (L rb)" "cc_nodes s1 ! m = CC_APP f args"
  then have m: "m < ?n" "cc_nodes s ! m = CC_APP f args" and out: "m \<notin> uses s (L rb)"
    by (auto simp: s1_def uses_def)
  have ok: "base_ok s" using pre by (simp add: merge_pre_def)
  have "root (cc_parent s) a \<noteq> rb" if "a \<in> set args" for a using cov m out that unfolding covered_def by metis
  then have mr: "map (root (cc_parent s1)) args = map (root (cc_parent s)) args"
    using merge_roots(5) [OF pre] base_ok_roots [OF ok m] by (simp add: s1_def)
  obtain m' where m': "tmap (cc_sig s) (unat f # map (root (cc_parent s)) args) = Some m'" "(m', m) \<in> cc_eqv s"
    using key m unfolding keyed_def by blast
  moreover have "cc_sig s1 = cc_sig s" by (simp add: s1_def)
  ultimately show "\<exists>m'. tmap (cc_sig s1) (unat f # map (root (cc_parent s1)) args) = Some m' \<and> (m', m) \<in> cc_eqv s1"
    using link_eqv(1) [OF pre, of m' m, folded s1_def] unfolding mr by (intro exI [of _ m']) simp
qed

lemma update_restore: "(if c then xs[i := y] else xs)[i := xs ! i] = xs"
  by (cases c) simp_all

lemma undo_ok_link:
  assumes pre: "merge_pre s a b rest ra rb"
  shows "undo_ok s (cc_link ra rb (s\<lparr>cc_pend := rest\<rparr>))"
proof -
  have ok: "base_ok s" using pre by (simp add: merge_pre_def)
  have len: "length (cc_rank s) = length (cc_parent s)" using ok by (auto simp: base_ok_def uf_ok_def)
  note r = merge_roots(1-4) [OF pre]
  have pa: "(cc_parent s)[rb := ra, rb := rb] = cc_parent s" using r by (metis list_update_id list_update_overwrite)
  have rk: "(if cc_rank s ! ra = cc_rank s ! rb then (cc_rank s)[ra := cc_rank s ! ra + 1] else cc_rank s)[ra := cc_rank s ! ra] = cc_rank s"
    by (rule update_restore)
  show ?thesis
    by (rule undo_ok_step) (use ok pa rk in \<open>auto simp: state_eq_def base_ok_def simp del: split_paired_Ex\<close>)
qed

text \<open>The splice, given the chains of both classes.\<close>

lemma splice_spec:
  assumes l: "lists_ok s L" and r: "ra < length (cc_nodes s)" "rb < length (cc_nodes s)" "ra \<noteq> rb"
    and len: "length (cc_use_head s) = length (cc_nodes s)"
  obtains s' where "cc_splice ra rb s = Some s'" and "lists_ok s' (L(ra := L rb @ L ra, rb := []))"
    and "cc_nodes s' = cc_nodes s" "cc_parent s' = cc_parent s" "cc_rank s' = cc_rank s" "cc_sig s' = cc_sig s"
      "cc_pend s' = cc_pend s" "cc_ne s' = cc_ne s" "cc_use_node s' = cc_use_node s"
      "length (cc_use_head s') = length (cc_use_head s)" and "table_ok (cc_sig s) \<Longrightarrow> undo_ok s s'"
proof -
  let ?L = "L(ra := L rb @ L ra, rb := [])"
  have ch: "\<And>q. q < length (cc_nodes s) \<Longrightarrow> chain (cc_use_next s) (cc_use_head s ! q) (L q) \<and> distinct (L q)"
    and dis: "\<And>p q. p < length (cc_nodes s) \<Longrightarrow> q < length (cc_nodes s) \<Longrightarrow> p \<noteq> q \<Longrightarrow> set (L p) \<inter> set (L q) = {}"
    using l by (auto simp: lists_ok_def)
  show ?thesis
  proof (cases "cc_use_head s ! rb")
    case None
    then have "L rb = []" using ch [OF r(2)] by (cases "L rb") auto
    then have "?L = L" using r by auto
    moreover have "undo_ok s s" by (rule undo_ok_same) auto
    ultimately show ?thesis using that [of s] None l by (simp add: cc_splice_def)
  next
    case (Some h)
    then obtain cs where cs: "L rb = h # cs" using ch [OF r(2)] by (cases "L rb") auto
    let ?t = "last (L rb)"
    let ?s' = "s\<lparr>cc_trail := TR_USE_SPLICE rb ra (Some h) ?t (cc_use_head s ! ra) # cc_trail s,
        cc_use_next := (cc_use_next s)[?t := cc_use_head s ! ra], cc_use_head := (cc_use_head s)[ra := Some h, rb := None]\<rparr>"
    have run: "cc_splice ra rb s = Some ?s'"
      using Some cc_tail_last [of "cc_use_next s" h "L rb"] ch [OF r(2)]
      by (simp add: cc_splice_def cc_trail_push_def Let_def)
    have t: "?t \<in> set (L rb)" using cs by simp
    have "chain (cc_use_next ?s') (cc_use_head ?s' ! q) (?L q) \<and> distinct (?L q)" if q: "q < length (cc_nodes s)" for q
    proof (cases "q = ra")
      case True
      have "chain ((cc_use_next s)[?t := cc_use_head s ! ra]) (Some h) (L rb @ L ra)"
        by (rule chain_join) (use ch [OF r(2)] ch [OF r(1)] Some cs dis [OF r(2,1)] r(3) in auto)
      then show ?thesis using True r len ch [OF r(1)] ch [OF r(2)] dis [OF r(2,1)] by auto
    next
      case False
      show ?thesis
      proof (cases "q = rb")
        case True
        then show ?thesis using r len by simp
      next
        case nb: False
        then have "?t \<notin> set (L q)" using dis [OF q r(2)] t by blast
        then have "chain ((cc_use_next s)[?t := cc_use_head s ! ra]) (cc_use_head s ! q) (L q)"
          using chain_update ch [OF q] by blast
        then show ?thesis using False nb ch [OF q] by simp
      qed
    qed
    moreover have "set (?L p) \<inter> set (?L q) = {}" if "p < length (cc_nodes s)" "q < length (cc_nodes s)" "p \<noteq> q" for p q
      using dis [OF that] dis [of p ra] dis [of p rb] dis [of ra q] dis [of rb q] that r by auto
    ultimately have lists: "lists_ok ?s' ?L" using l by (simp add: lists_ok_def)
    have "cc_use_next s ! ?t = None" "?t < length (cc_use_next s)"
      using chain_last [of "cc_use_next s" "Some h" "L rb"] chain_less [of "cc_use_next s" "Some h" "L rb"] ch [OF r(2)] Some cs t by auto
    then have nx: "(cc_use_next s)[?t := cc_use_head s ! ra, ?t := None] = cc_use_next s" by (metis list_update_id list_update_overwrite)
    have hd: "(cc_use_head s)[ra := Some h, rb := None, ra := cc_use_head s ! ra, rb := Some h] = cc_use_head s"
      using r len Some by (intro nth_equalityI) (auto simp: nth_list_update)
    have "undo_ok s ?s'" if "table_ok (cc_sig s)"
      by (rule undo_ok_step) (use that nx hd in \<open>auto simp: state_eq_def\<close>)
    then show ?thesis using that [of ?s'] run lists by simp
  qed
qed

end
