(* ===== verification/CC_Props.thy ===== *)
theory CC_Props
  imports CC_Struct
begin

text \<open>
  The congruence closure as a whole: propagation ends and closes the classes under congruence, the
  operations keep the invariant in every state the interface can reach, the check decides the
  asserted literals, and a pop restores the state of the checkpoint.
\<close>

section \<open>Propagation\<close>

definition live :: "cc_state \<Rightarrow> bool" where
  "live s \<longleftrightarrow> base_ok s \<and> use_ok s \<and> keyed s {}"

definition root_count :: "cc_state \<Rightarrow> nat" where
  "root_count s = card {r. r < length (cc_nodes s) \<and> cc_parent s ! r = r}"

text \<open>What a step that only merges classes keeps, besides undoing.\<close>

definition advances :: "cc_state \<Rightarrow> cc_state \<Rightarrow> bool" where
  "advances s s' \<longleftrightarrow> cc_nodes s' = cc_nodes s \<and> cc_ne s' = cc_ne s \<and> cc_eqv s \<subseteq> cc_eqv s' \<and> undo_ok s s'"

lemma advances_refl: "advances s s"
  by (auto simp: advances_def intro: undo_ok_same)

lemma advances_trans: "advances s t \<Longrightarrow> advances t u \<Longrightarrow> advances s u"
  unfolding advances_def using undo_ok_trans by (metis subset_trans)

definition sound_step :: "'d itself \<Rightarrow> cc_state \<Rightarrow> cc_state \<Rightarrow> bool" where
  "sound_step T s s' \<longleftrightarrow>
     (\<forall>F v. cc_models F (v :: nat \<Rightarrow> 'd) (cc_nodes s) \<longrightarrow> agrees v s \<longrightarrow> agrees v s')"

lemma merge_spec:
  assumes pre: "merge_pre s a b rest ra rb" and live: "live s"
  defines "s1 \<equiv> cc_link ra rb (s\<lparr>cc_pend := rest\<rparr>)"
  shows "\<exists>s2 s3. cc_recanon (cc_use_head s1 ! rb) s1 = Some s2 \<and> cc_splice ra rb s2 = Some s3
    \<and> live s3 \<and> advances s s3 \<and> sound_step TYPE('d) s s3 \<and> root_count s3 < root_count s"
proof -
  let ?n = "length (cc_nodes s)" and ?R' = "root ((cc_parent s)[rb := ra])"
  have ok: "base_ok s" and keyed: "keyed s {}" using live by (auto simp: live_def)
  have n: "length (cc_parent s) = ?n" "length (cc_use_head s) = ?n" using ok by (auto simp: base_ok_def)
  note r = merge_roots [OF pre]
  have ne: "ra \<noteq> rb" using pre by (simp add: merge_pre_def)
  obtain L where L: "lists_ok s L" "covered s (root (cc_parent s)) L"
      "\<And>q. q < ?n \<Longrightarrow> cc_parent s ! q \<noteq> q \<Longrightarrow> L q = []"
    using live by (auto simp: live_def use_ok_def)
  have base1: "base_ok s1" unfolding s1_def by (rule link_base [OF pre])
  have same1: "cc_use_next s1 = cc_use_next s" "cc_use_node s1 = cc_use_node s" "cc_nodes s1 = cc_nodes s"
      "cc_use_head s1 = cc_use_head s" "cc_parent s1 = (cc_parent s)[rb := ra]" "cc_ne s1 = cc_ne s"
    by (simp_all add: s1_def)
  have ch: "chain (cc_use_next s1) (cc_use_head s1 ! rb) (L rb)" using L(1) r(3) n same1 by (simp add: lists_ok_def)
  have cell: "c < length (cc_use_node s)" if "c \<in> set (L rb)" for c
    using chain_less [OF ch that] L(1) same1 by (simp add: lists_ok_def)
  have apps: "\<forall>m \<in> uses s1 (L rb). m < length (cc_nodes s1) \<and> (\<exists>f args. cc_nodes s1 ! m = CC_APP f args)"
    using L(1) cell by (auto simp: uses_def same1 lists_ok_def)
  obtain s2 where s2: "cc_recanon (cc_use_head s1 ! rb) s1 = Some s2" "base_ok s2" "canon_step s1 s2"
      "\<forall>m \<in> uses s1 (L rb). keyed_at s2 m" "undo_ok s1 s2" "sound_step TYPE('d) s1 s2"
    using recanon_spec [OF base1 ch apps, where 'd = 'd] by (auto simp: sound_step_def)
  have same2: "cc_use_next s2 = cc_use_next s" "cc_use_node s2 = cc_use_node s" "cc_nodes s2 = cc_nodes s"
      "cc_use_head s2 = cc_use_head s" "cc_parent s2 = (cc_parent s)[rb := ra]" "cc_ne s2 = cc_ne s"
    using s2(3) same1 by (auto simp: canon_step_def)
  have keyed2: "keyed s2 {}"
    unfolding keyed_iff
  proof (intro allI impI)
    fix m assume m: "m < length (cc_nodes s2)"
    show "keyed_at s2 m"
    proof (cases "m \<in> uses s1 (L rb)")
      case False
      have "keyed s1 (uses s1 (L rb))" unfolding s1_def by (rule link_keyed [OF pre L(2) keyed])
      then have "keyed_at s1 m" using False m same1 same2 by (simp add: keyed_iff)
      then show ?thesis by (rule keyed_at_step [OF s2(3)])
    qed (use s2(4) in blast)
  qed
  have lists2: "lists_ok s2 L" using L(1) by (simp add: lists_ok_def same2)
  have rn: "ra < length (cc_nodes s2)" "rb < length (cc_nodes s2)" "length (cc_use_head s2) = length (cc_nodes s2)"
    using r n same2 by auto
  obtain s3 where s3: "cc_splice ra rb s2 = Some s3" "lists_ok s3 (L(ra := L rb @ L ra, rb := []))"
      "cc_nodes s3 = cc_nodes s2" "cc_parent s3 = cc_parent s2" "cc_rank s3 = cc_rank s2" "cc_sig s3 = cc_sig s2"
      "cc_pend s3 = cc_pend s2" "cc_ne s3 = cc_ne s2" "cc_use_node s3 = cc_use_node s2"
      "length (cc_use_head s3) = length (cc_use_head s2)" "table_ok (cc_sig s2) \<Longrightarrow> undo_ok s2 s3"
    using splice_spec [OF lists2 rn(1,2) ne rn(3)] by metis
  let ?L = "L(ra := L rb @ L ra, rb := [])"
  have gen3: "cc_gen s3 = cc_gen s2" "cc_eqv s3 = cc_eqv s2" by (simp_all add: cc_gen_def cc_eqv_def s3)
  have "covered s3 ?R' ?L"
    unfolding covered_def
  proof (intro allI impI ballI)
    fix m f args x assume m: "m < length (cc_nodes s3)" "cc_nodes s3 ! m = CC_APP f args" and x: "x \<in> set args"
    then have m': "m < ?n" "cc_nodes s ! m = CC_APP f args" using s3 same2 by auto
    then have "m \<in> uses s (L (root (cc_parent s) x))" using L(2) x by (auto simp: covered_def)
    moreover have "x < length (cc_parent s)" using base_ok_roots [OF ok m'] x by blast
    ultimately show "m \<in> uses s3 (?L (?R' x))"
      using r(5) [of x] ne by (auto simp: uses_def s3 same2)
  qed
  moreover have "?L q = []" if "q < ?n" "(cc_parent s)[rb := ra] ! q \<noteq> q" for q
    using that L(3) [of q] r ne by (cases "q = rb"; cases "q = ra") auto
  ultimately have use3: "use_ok s3" using s3(2) unfolding use_ok_def s3(3,4) same2 by blast
  have base3: "base_ok s3" using s2(2) by (simp add: base_ok_def s3)
  have keyed3: "keyed s3 {}" using keyed2 by (simp add: keyed_def s3 gen3)
  have tab2: "table_ok (cc_sig s2)" using s2(2) by (simp add: base_ok_def)
  have "undo_ok s s1" unfolding s1_def by (rule undo_ok_link [OF pre])
  then have "undo_ok s s3" using s2(5) s3(11) [OF tab2] undo_ok_trans by blast
  moreover have "cc_eqv s \<subseteq> cc_eqv s3"
  proof
    fix x assume "x \<in> cc_eqv s"
    then have "x \<in> cc_eqv s1" using link_eqv(1) [OF pre, of "fst x" "snd x"] by (simp add: s1_def)
    then show "x \<in> cc_eqv s3" using canon_step_eqv [OF s2(3), of "fst x" "snd x"] by (simp add: gen3)
  qed
  ultimately have "advances s s3" using s3 same2 by (simp add: advances_def)
  moreover have "sound_step TYPE('d) s s3"
    using link_eqv(2) [OF pre] s2(6) unfolding sound_step_def s1_def [symmetric] same1(3) agrees_def gen3(1) by blast
  moreover have "root_count s3 < root_count s"
    unfolding root_count_def s3(3,4) same2
  proof (rule psubset_card_mono)
    show "{q. q < ?n \<and> (cc_parent s)[rb := ra] ! q = q} \<subset> {q. q < ?n \<and> cc_parent s ! q = q}"
    proof
      show "{q. q < ?n \<and> (cc_parent s)[rb := ra] ! q = q} \<subseteq> {q. q < ?n \<and> cc_parent s ! q = q}"
        using r by (auto simp: nth_list_update split: if_splits)
      have "rb \<in> {q. q < ?n \<and> cc_parent s ! q = q}" "rb \<notin> {q. q < ?n \<and> (cc_parent s)[rb := ra] ! q = q}"
        using r n ne by auto
      then show "{q. q < ?n \<and> (cc_parent s)[rb := ra] ! q = q} \<noteq> {q. q < ?n \<and> cc_parent s ! q = q}" by blast
    qed
  qed simp
  ultimately show ?thesis using s2(1) s3(1) base3 use3 keyed3 by (auto simp: live_def)
qed

text \<open>The queue matters to the invariant through the equivalence only.\<close>

lemma live_pend:
  assumes "live s" and eqv: "cc_eqv s \<subseteq> cc_eqv (s\<lparr>cc_pend := ps\<rparr>)" and "pairs_ok (length (cc_nodes s)) ps"
  shows "live (s\<lparr>cc_pend := ps\<rparr>)"
proof -
  have "base_ok (s\<lparr>cc_pend := ps\<rparr>)" using assms by (simp add: live_def base_ok_def)
  moreover have "use_ok (s\<lparr>cc_pend := ps\<rparr>)" using assms(1) by (simp add: live_def use_ok_def lists_ok_def covered_def uses_def)
  moreover have "keyed (s\<lparr>cc_pend := ps\<rparr>) {}"
    unfolding keyed_def
  proof (intro allI impI)
    fix m f args assume m: "m < length (cc_nodes (s\<lparr>cc_pend := ps\<rparr>))" "cc_nodes (s\<lparr>cc_pend := ps\<rparr>) ! m = CC_APP f args"
    then have "m < length (cc_nodes s)" "m \<notin> {}" "cc_nodes s ! m = CC_APP f args" by simp_all
    then obtain m' where "tmap (cc_sig s) (unat f # map (root (cc_parent s)) args) = Some m'" "(m', m) \<in> cc_eqv s"
      using assms(1) unfolding live_def keyed_def by blast
    then show "\<exists>m'. tmap (cc_sig (s\<lparr>cc_pend := ps\<rparr>)) (unat f # map (root (cc_parent (s\<lparr>cc_pend := ps\<rparr>))) args) = Some m'
        \<and> (m', m) \<in> cc_eqv (s\<lparr>cc_pend := ps\<rparr>)"
      using eqv by auto
  qed
  ultimately show ?thesis by (simp add: live_def)
qed

lemma propagate_spec:
  assumes "live s"
  shows "\<exists>s'. cc_propagate s = Some s' \<and> live s' \<and> cc_pend s' = [] \<and> advances s s' \<and> sound_step TYPE('d) s s'"
  using assms
proof (induction s rule: wf_induct_rule [OF wf_measures [of "[root_count, \<lambda>s. length (cc_pend s)]"]])
  case (1 s)
  have ih: "\<exists>t'. cc_propagate t = Some t' \<and> live t' \<and> cc_pend t' = [] \<and> advances t t' \<and> sound_step TYPE('d) t t'"
    if "root_count t < root_count s \<or> root_count t = root_count s \<and> length (cc_pend t) < length (cc_pend s)" "live t" for t
    by (rule 1(1)) (use that in auto)
  show ?case
  proof (cases "cc_pend s")
    case Nil
    then show ?thesis using 1(2) advances_refl by (subst cc_propagate.simps) (auto simp: sound_step_def)
  next
    case (Cons ab rest)
    obtain a b where ab: "ab = (a, b)" by fastforce
    have base: "base_ok s" using 1(2) by (simp add: live_def)
    have uf: "uf_ok (cc_parent s) (cc_rank s)" and lt: "a < length (cc_parent s)" "b < length (cc_parent s)"
      using base Cons ab by (auto simp: base_ok_def pairs_ok_def)
    note fa = find_some [OF uf lt(1)] and fb = find_some [OF uf lt(2)]
    let ?ra = "root (cc_parent s) a" and ?rb = "root (cc_parent s) b"
    show ?thesis
    proof (cases "?ra = ?rb")
      case True
      let ?t = "s\<lparr>cc_pend := rest\<rparr>"
      have run: "cc_propagate s = cc_propagate ?t"
        using Cons ab fa(1) fb(1) True by (subst cc_propagate.simps) simp
      have eqv: "cc_eqv s \<subseteq> cc_eqv ?t"
      proof
        fix p assume "p \<in> cc_eqv s"
        then have "(fst p, snd p) \<in> cc_eqv s" by simp
        then have "(fst p, snd p) \<in> cc_eqv ?t"
          by (rule eqv_mono [rotated]) (use Cons ab True lt base in \<open>auto simp: cc_gen_def base_ok_def intro!: gen_eqv\<close>)
        then show "p \<in> cc_eqv ?t" by simp
      qed
      have "live ?t"
        using 1(2) live_pend [OF _ eqv] base Cons ab by (auto simp: base_ok_def pairs_ok_def)
      then obtain t' where t': "cc_propagate ?t = Some t'" "live t'" "cc_pend t' = []" "advances ?t t'" "sound_step TYPE('d) ?t t'"
        using ih [of ?t] Cons by (auto simp: root_count_def)
      have "undo_ok s ?t" by (rule undo_ok_same) (auto simp: state_eq_def)
      then have "advances s ?t" using eqv by (simp add: advances_def)
      moreover have "agrees v s \<Longrightarrow> agrees v ?t" for v :: "nat \<Rightarrow> 'd" using Cons by (auto simp: agrees_def cc_gen_def)
      ultimately show ?thesis using run t' advances_trans by (auto simp: sound_step_def)
    next
      case False
      define ra rb where "ra = (if cc_rank s ! ?ra < cc_rank s ! ?rb then ?rb else ?ra)"
        and "rb = (if cc_rank s ! ?ra < cc_rank s ! ?rb then ?ra else ?rb)"
      have pre: "merge_pre s a b rest ra rb"
        using base Cons ab False by (auto simp: merge_pre_def ra_def rb_def)
      let ?s1 = "cc_link ra rb (s\<lparr>cc_pend := rest\<rparr>)"
      obtain s2 s3 where s: "cc_recanon (cc_use_head ?s1 ! rb) ?s1 = Some s2" "cc_splice ra rb s2 = Some s3"
          "live s3" "advances s s3" "sound_step TYPE('d) s s3" "root_count s3 < root_count s"
        using merge_spec [OF pre 1(2), where 'd = 'd] by blast
      have run: "cc_propagate s = cc_propagate s3"
        using Cons ab fa(1) fb(1) False s(1,2)
        by (subst cc_propagate.simps) (auto simp: ra_def rb_def Let_def split: if_splits)
      obtain t' where t': "cc_propagate s3 = Some t'" "live t'" "cc_pend t' = []" "advances s3 t'" "sound_step TYPE('d) s3 t'"
        using ih [of s3] s by blast
      have "cc_nodes s3 = cc_nodes s" using s(4) by (simp add: advances_def)
      then have "sound_step TYPE('d) s t'" using s(5) t'(5) by (simp add: sound_step_def)
      then show ?thesis using run t' advances_trans [OF s(4) t'(4)] by auto
    qed
  qed
qed


section \<open>Making terms\<close>

lemma use_add_spec:
  assumes ok: "base_ok s" and l: "lists_ok s L" and r: "r < length (cc_nodes s)"
    and n: "n < length (cc_nodes s)" "cc_nodes s ! n = CC_APP f args"
  defines "s' \<equiv> cc_use_add r n s"
  shows "base_ok s'" and "\<exists>c. lists_ok s' (L(r := c # L r)) \<and> cc_use_node s' ! c = n"
    and "cc_use_node s' = cc_use_node s @ [n]" and "undo_ok s s'"
    and "cc_nodes s' = cc_nodes s" "cc_parent s' = cc_parent s" "cc_sig s' = cc_sig s" "cc_pend s' = cc_pend s" "cc_ne s' = cc_ne s"
proof -
  let ?c = "length (cc_use_node s)"
  have f: "s' = s\<lparr>cc_trail := TR_USE n r (cc_use_head s ! r) # cc_trail s, cc_use_node := cc_use_node s @ [n],
      cc_use_next := cc_use_next s @ [cc_use_head s ! r], cc_use_head := (cc_use_head s)[r := Some ?c]\<rparr>"
    by (simp add: s'_def cc_use_add_def cc_trail_push_def Let_def)
  show "base_ok s'" using ok by (simp add: base_ok_def f)
  show "cc_use_node s' = cc_use_node s @ [n]" "cc_nodes s' = cc_nodes s" "cc_parent s' = cc_parent s" "cc_sig s' = cc_sig s"
      "cc_pend s' = cc_pend s" "cc_ne s' = cc_ne s"
    by (simp_all add: f)
  have len: "length (cc_use_head s) = length (cc_nodes s)" "length (cc_use_next s) = ?c" "table_ok (cc_sig s)"
    using ok l by (auto simp: base_ok_def lists_ok_def)
  have ch: "\<And>q. q < length (cc_nodes s) \<Longrightarrow> chain (cc_use_next s) (cc_use_head s ! q) (L q) \<and> distinct (L q)"
    and dis: "\<And>p q. p < length (cc_nodes s) \<Longrightarrow> q < length (cc_nodes s) \<Longrightarrow> p \<noteq> q \<Longrightarrow> set (L p) \<inter> set (L q) = {}"
    using l by (auto simp: lists_ok_def)
  have new: "?c \<notin> set (L q)" if "q < length (cc_nodes s)" for q using chain_less ch [OF that] len(2) by fastforce
  have "lists_ok s' (L(r := ?c # L r))"
    using l n r len new ch dis by (auto simp: lists_ok_def f nth_list_update chain_append_pool nth_append)
  moreover have "cc_use_node s' ! ?c = n" by (simp add: f)
  ultimately show "\<exists>c. lists_ok s' (L(r := c # L r)) \<and> cc_use_node s' ! c = n" by blast
  show "undo_ok s s'" by (rule undo_ok_step) (use len in \<open>auto simp: f state_eq_def\<close>)
qed

lemma uses_mono:
  assumes "cc_use_node s' = cc_use_node s @ xs" and "set cs \<subseteq> set ds" and "\<forall>c \<in> set cs. c < length (cc_use_node s)"
  shows "uses s cs \<subseteq> uses s' ds"
  using assms by (force simp: uses_def nth_append)

lemma lists_cells: "lists_ok s L \<Longrightarrow> q < length (cc_nodes s) \<Longrightarrow> c \<in> set (L q) \<Longrightarrow> c < length (cc_use_node s)"
  by (fastforce simp: lists_ok_def dest: chain_less)

lemma use_args_spec:
  assumes "base_ok s" and "lists_ok s L" and "\<forall>a \<in> set as. a < length (cc_nodes s)"
    and "n < length (cc_nodes s)" "cc_nodes s ! n = CC_APP f args"
    and "\<forall>r < length (cc_nodes s). cc_parent s ! r \<noteq> r \<longrightarrow> L r = []"
  shows "\<exists>s' L'. cc_use_args as n s = Some s' \<and> base_ok s' \<and> lists_ok s' L'
    \<and> (\<forall>q < length (cc_nodes s). uses s (L q) \<subseteq> uses s' (L' q))
    \<and> (\<forall>a \<in> set as. n \<in> uses s' (L' (root (cc_parent s) a)))
    \<and> (\<forall>r < length (cc_nodes s). cc_parent s ! r \<noteq> r \<longrightarrow> L' r = []) \<and> undo_ok s s'
    \<and> cc_nodes s' = cc_nodes s \<and> cc_parent s' = cc_parent s \<and> cc_sig s' = cc_sig s \<and> cc_pend s' = cc_pend s \<and> cc_ne s' = cc_ne s"
  using assms
proof (induction as arbitrary: s L)
  case Nil
  then show ?case by (auto intro!: exI [of _ L] undo_ok_same)
next
  case (Cons a as)
  let ?r = "root (cc_parent s) a" and ?N = "length (cc_nodes s)"
  have uf: "uf_ok (cc_parent s) (cc_rank s)" "length (cc_parent s) = ?N" using Cons.prems(1) by (auto simp: base_ok_def)
  have fa: "cc_find (cc_parent s) a = Some ?r" "?r < ?N" "cc_parent s ! ?r = ?r"
    using find_some [OF uf(1)] uf(2) Cons.prems(3) by auto
  let ?s = "cc_use_add ?r n s"
  note u = use_add_spec [OF Cons.prems(1,2) fa(2) Cons.prems(4,5)]
  obtain c where c: "lists_ok ?s (L(?r := c # L ?r))" "cc_use_node ?s ! c = n" using u(2) by blast
  let ?L = "L(?r := c # L ?r)"
  have non: "\<forall>r < length (cc_nodes ?s). cc_parent ?s ! r \<noteq> r \<longrightarrow> ?L r = []" using Cons.prems(6) fa(3) u(5,6) by auto
  obtain s' L' where s': "cc_use_args as n ?s = Some s'" "base_ok s'" "lists_ok s' L'"
      "\<forall>q < ?N. uses ?s (?L q) \<subseteq> uses s' (L' q)" "\<forall>a \<in> set as. n \<in> uses s' (L' (root (cc_parent s) a))"
      "\<forall>r < ?N. cc_parent s ! r \<noteq> r \<longrightarrow> L' r = []" "undo_ok ?s s'"
      "cc_nodes s' = cc_nodes s" "cc_parent s' = cc_parent s" "cc_sig s' = cc_sig s" "cc_pend s' = cc_pend s" "cc_ne s' = cc_ne s"
    using Cons.IH [OF u(1) c(1) _ _ _ non] Cons.prems(3,4,5) unfolding u(5-) by auto
  have "uses s (L q) \<subseteq> uses ?s (?L q)" if "q < ?N" for q
    by (rule uses_mono [OF u(3)]) (use lists_cells [OF Cons.prems(2) that] in auto)
  then have "\<forall>q < ?N. uses s (L q) \<subseteq> uses s' (L' q)" using s'(4) by blast
  moreover have "n \<in> uses ?s (?L ?r)" using c(2) by (auto simp: uses_def)
  then have "n \<in> uses s' (L' ?r)" using s'(4) fa(2) by blast
  moreover have "undo_ok s s'" using undo_ok_trans [OF u(4) s'(7)] .
  ultimately show ?case using fa(1) s' by (intro exI [of _ s'] exI [of _ L']) simp
qed

lemma new_node_spec:
  assumes ok: "base_ok s" and l: "lists_ok s L"
    and nd: "\<forall>f args. nd = CC_APP f args \<longrightarrow> (\<forall>a \<in> set args. a < length (cc_nodes s))"
    and non: "\<forall>r < length (cc_nodes s). cc_parent s ! r \<noteq> r \<longrightarrow> L r = []"
  shows "\<exists>s'. cc_new_node nd s = (length (cc_nodes s), s') \<and> base_ok s' \<and> lists_ok s' (L(length (cc_nodes s) := []))
    \<and> (\<forall>r < length (cc_nodes s'). cc_parent s' ! r \<noteq> r \<longrightarrow> (L(length (cc_nodes s) := [])) r = []) \<and> undo_ok s s'
    \<and> cc_nodes s' = cc_nodes s @ [nd] \<and> cc_parent s' = cc_parent s @ [length (cc_nodes s)] \<and> cc_sig s' = cc_sig s
    \<and> cc_use_node s' = cc_use_node s \<and> cc_pend s' = cc_pend s \<and> cc_ne s' = cc_ne s"
proof -
  let ?n = "length (cc_nodes s)" and ?p = "cc_parent s @ [length (cc_nodes s)]"
  let ?s' = "s\<lparr>cc_nodes := cc_nodes s @ [nd], cc_parent := ?p, cc_rank := cc_rank s @ [0],
      cc_use_head := cc_use_head s @ [None], cc_trail := TR_NODE # cc_trail s\<rparr>"
  have b: "uf_ok (cc_parent s) (cc_rank s)" "length (cc_parent s) = ?n" "length (cc_use_head s) = ?n" "table_ok (cc_sig s)"
      "sig_ok (cc_nodes s) (root (cc_parent s)) (tmap (cc_sig s))"
    using ok by (auto simp: base_ok_def)
  note up = uf_append [OF b(1), unfolded b(2)]
  have "sig_ok (cc_nodes s @ [nd]) (root ?p) (tmap (cc_sig s))"
    unfolding sig_ok_def
  proof (intro allI impI)
    fix key m assume "tmap (cc_sig s) key = Some m"
    then obtain f args ks where e: "m < ?n" "cc_nodes s ! m = CC_APP f args" "key = unat f # ks"
        "list_all2 (\<lambda>k a. k < ?n \<and> root (cc_parent s) k = root (cc_parent s) a) ks args"
      using b(5) unfolding sig_ok_def by blast
    have "a < ?n" if "a \<in> set args" for a using base_ok_roots [OF ok e(1,2)] that b(2) by auto
    then have "list_all2 (\<lambda>k a. k < Suc ?n \<and> root ?p k = root ?p a) ks args"
      using e(4) up(3) by (auto simp: list_all2_conv_all_nth)
    then show "m < length (cc_nodes s @ [nd]) \<and> (\<exists>f args ks. (cc_nodes s @ [nd]) ! m = CC_APP f args \<and> key = unat f # ks
        \<and> list_all2 (\<lambda>k a. k < length (cc_nodes s @ [nd]) \<and> root ?p k = root ?p a) ks args)"
      using e by (auto simp: nth_append)
  qed
  moreover have "nodes_ok (cc_nodes s @ [nd])" using ok nd by (auto simp: base_ok_def nodes_ok_def nth_append less_Suc_eq)
  ultimately have base: "base_ok ?s'" using ok up(1) by (auto simp: base_ok_def pairs_ok_def)
  have lists: "lists_ok ?s' (L(?n := []))" using l b(3) by (auto simp: lists_ok_def nth_append less_Suc_eq)
  have "undo_ok s ?s'" by (rule undo_ok_step) (use b(4) in \<open>auto simp: state_eq_def\<close>)
  moreover have "\<forall>r < length (cc_nodes ?s'). cc_parent ?s' ! r \<noteq> r \<longrightarrow> (L(?n := [])) r = []"
    using non b(2) by (auto simp: nth_append less_Suc_eq)
  ultimately show ?thesis using base lists
    by (intro exI [of _ ?s']) (simp add: cc_new_node_def cc_trail_push_def Let_def)
qed

text \<open>What an operation that makes nodes promises about the classes.\<close>

lemma gen_fresh:
  assumes "base_ok s" and "cc_parent s' = cc_parent s @ [length (cc_nodes s)]" and "length (cc_nodes s') = Suc (length (cc_nodes s))"
    and "cc_pend s' = cc_pend s"
  shows "cc_gen s' = insert (length (cc_nodes s), length (cc_nodes s)) (cc_gen s)"
proof -
  let ?n = "length (cc_nodes s)"
  have b: "uf_ok (cc_parent s) (cc_rank s)" "length (cc_parent s) = ?n" using assms(1) by (auto simp: base_ok_def)
  note up = uf_append [OF b(1), unfolded b(2)]
  have lt: "x < ?n \<Longrightarrow> root (cc_parent s) x < ?n" for x using find_some(2) [OF b(1)] b(2) by simp
  have new: "root (cc_parent s') ?n = ?n" using up(2) by (simp add: assms(2))
  have old: "root (cc_parent s') x = root (cc_parent s) x" if "x < ?n" for x using up(3) that by (simp add: assms(2))
  have "(x, y) \<in> cc_gen s' \<longleftrightarrow> (x, y) \<in> insert (?n, ?n) (cc_gen s)" for x y
  proof -
    consider "x < ?n" "y < ?n" | "x = ?n" "y < ?n" | "x < ?n" "y = ?n" | "x = ?n" "y = ?n" | "?n < x" | "?n < y" by linarith
    then show ?thesis
      by cases (use lt [of x] lt [of y] in \<open>simp_all add: cc_gen_def assms(3,4) old new less_Suc_eq\<close>)
  qed
  then show ?thesis by (auto simp del: insert_iff)
qed


text \<open>The state after an operation that may add a node: the old classes stay, the node is a class of its own.\<close>

definition grows :: "cc_state \<Rightarrow> cc_state \<Rightarrow> bool" where
  "grows s s' \<longleftrightarrow> live s' \<and> cc_pend s' = cc_pend s \<and> cc_ne s' = cc_ne s \<and> undo_ok s s'
     \<and> cc_gen s \<subseteq> cc_gen s' \<and> (\<forall>(x, y) \<in> cc_gen s'. (x, y) \<in> cc_gen s \<or> x = y)
     \<and> (\<exists>nds. cc_nodes s' = cc_nodes s @ nds)"

lemma grow_live:
  assumes base: "base_ok s" and key: "keyed s {}" and L: "covered s (root (cc_parent s)) L"
    and base': "base_ok s'" and L': "lists_ok s' L'"
    and non: "\<forall>r < length (cc_nodes s'). cc_parent s' ! r \<noteq> r \<longrightarrow> L' r = []"
    and nodes: "cc_nodes s' = cc_nodes s @ [nd]" and par: "cc_parent s' = cc_parent s @ [length (cc_nodes s)]"
    and pend: "cc_pend s' = cc_pend s" and ne: "cc_ne s' = cc_ne s" and undo: "undo_ok s s'"
    and uses: "\<forall>q < length (cc_nodes s). uses s (L q) \<subseteq> uses s' (L' q)" and le: "tmap (cc_sig s) \<subseteq>\<^sub>m tmap (cc_sig s')"
    and new: "\<forall>f args. nd = CC_APP f args \<longrightarrow> (\<forall>a \<in> set args. a < length (cc_nodes s) \<and> length (cc_nodes s) \<in> uses s' (L' (root (cc_parent s) a)))
        \<and> tmap (cc_sig s') (unat f # map (root (cc_parent s)) args) = Some (length (cc_nodes s))"
  shows "grows s s'"
proof -
  let ?n = "length (cc_nodes s)"
  have b: "uf_ok (cc_parent s) (cc_rank s)" "length (cc_parent s) = ?n" using base by (auto simp: base_ok_def)
  have gen: "cc_gen s' = insert (?n, ?n) (cc_gen s)" by (rule gen_fresh [OF base par]) (simp_all add: nodes pend)
  have old: "root (cc_parent s') x = root (cc_parent s) x" "root (cc_parent s) x < ?n" if "x < ?n" for x
    using uf_append(3) [OF b(1)] find_some(2) [OF b(1)] that b(2) by (simp_all add: par)
  have app: "m < ?n \<and> cc_nodes s ! m = CC_APP f args \<or> m = ?n \<and> nd = CC_APP f args"
    if "m < length (cc_nodes s')" "cc_nodes s' ! m = CC_APP f args" for m f args
    using that by (auto simp: nodes nth_append less_Suc_eq split: if_splits)
  have lt: "x < ?n" if "m < length (cc_nodes s')" "cc_nodes s' ! m = CC_APP f args" "x \<in> set args" for m f args x
    using app [OF that(1,2)] base_ok_roots [OF base, of m f args] new that(3) b(2) by auto
  have "covered s' (root (cc_parent s')) L'"
    unfolding covered_def
  proof (intro allI impI ballI)
    fix m f args x assume h: "m < length (cc_nodes s')" "cc_nodes s' ! m = CC_APP f args" "x \<in> set args"
    note x = old [OF lt [OF h]]
    from app [OF h(1,2)] show "m \<in> uses s' (L' (root (cc_parent s') x))"
    proof
      assume m: "m < ?n \<and> cc_nodes s ! m = CC_APP f args"
      then have "m \<in> uses s (L (root (cc_parent s) x))" using h(3) L by (auto simp: covered_def)
      then show ?thesis using uses x by auto
    qed (use new h(3) x(1) in auto)
  qed
  then have "use_ok s'" using L' non by (auto simp: use_ok_def)
  moreover have "keyed s' {}"
    unfolding keyed_def
  proof (intro allI impI)
    fix m f args assume h: "m < length (cc_nodes s')" "cc_nodes s' ! m = CC_APP f args"
    have mr: "map (root (cc_parent s')) args = map (root (cc_parent s)) args" using old(1) lt [OF h] by simp
    from app [OF h] show "\<exists>m'. tmap (cc_sig s') (unat f # map (root (cc_parent s')) args) = Some m' \<and> (m', m) \<in> cc_eqv s'"
    proof
      assume m: "m < ?n \<and> cc_nodes s ! m = CC_APP f args"
      then obtain m' where m': "tmap (cc_sig s) (unat f # map (root (cc_parent s)) args) = Some m'" "(m', m) \<in> cc_eqv s"
        using key unfolding keyed_def by blast
      have "(m', m) \<in> cc_eqv s'" using m'(2) by (elim eqv_mono [rotated]) (simp add: gen gen_eqv)
      moreover have "tmap (cc_sig s') (unat f # map (root (cc_parent s)) args) = Some m'"
        using m'(1) le unfolding map_le_def by (metis domI)
      ultimately show ?thesis unfolding mr by blast
    next
      assume "m = ?n \<and> nd = CC_APP f args"
      then show ?thesis using new unfolding mr by auto
    qed
  qed
  ultimately have "live s'" using base' by (simp add: live_def)
  then show ?thesis using gen pend ne undo nodes by (auto simp: grows_def)
qed

lemma atom_spec:
  assumes "live s"
  shows "\<exists>s'. cc_atom s a = (length (cc_nodes s), s') \<and> grows s s' \<and> cc_nodes s' = cc_nodes s @ [CC_ATOM a]"
proof -
  let ?n = "length (cc_nodes s)"
  have base: "base_ok s" and key: "keyed s {}" using assms by (auto simp: live_def)
  obtain L where L: "lists_ok s L" "covered s (root (cc_parent s)) L" "\<forall>r < ?n. cc_parent s ! r \<noteq> r \<longrightarrow> L r = []"
    using assms by (auto simp: live_def use_ok_def)
  obtain s' where s': "cc_new_node (CC_ATOM a) s = (?n, s')" "base_ok s'" "lists_ok s' (L(?n := []))"
      "\<forall>r < length (cc_nodes s'). cc_parent s' ! r \<noteq> r \<longrightarrow> (L(?n := [])) r = []" "undo_ok s s'"
      "cc_nodes s' = cc_nodes s @ [CC_ATOM a]" "cc_parent s' = cc_parent s @ [?n]" "cc_sig s' = cc_sig s"
      "cc_use_node s' = cc_use_node s" "cc_pend s' = cc_pend s" "cc_ne s' = cc_ne s"
    using new_node_spec [OF base L(1) _ L(3), of "CC_ATOM a"] by auto
  have "grows s s'"
    by (rule grow_live [OF base key L(2) s'(2-4,6,7,10,11,5)]) (auto simp: uses_def s'(8,9))
  then show ?thesis using s'(1,6) by (simp add: cc_atom_def)
qed

lemma app_spec:
  assumes live: "live s" and args: "\<forall>a \<in> set args. a < length (cc_nodes s)"
  shows "\<exists>n s'. cc_app s f args = Some (n, s') \<and> n < length (cc_nodes s') \<and> (s' = s \<or> grows s s')
    \<and> (\<exists>as. cc_nodes s' ! n = CC_APP f as \<and> length as = length args
         \<and> (\<forall>i < length args. (as ! i, args ! i) \<in> cc_gen s))"
proof -
  let ?n = "length (cc_nodes s)" and ?R = "root (cc_parent s)"
  let ?key = "unat f # map ?R args" and ?nd = "CC_APP f args"
  have base: "base_ok s" and key: "keyed s {}" using live by (auto simp: live_def)
  have b: "uf_ok (cc_parent s) (cc_rank s)" "length (cc_parent s) = ?n" "table_ok (cc_sig s)"
      "sig_ok (cc_nodes s) ?R (tmap (cc_sig s))"
    using base by (auto simp: base_ok_def)
  have rt: "x < ?n \<Longrightarrow> (x, x) \<in> cc_gen s" for x by (simp add: cc_gen_def)
  have run0: "cc_key s f args = Some (key_hash ?key, ?key)" using cc_key_some [OF base] args b(2) by simp
  obtain slot where look: "sig_find (cc_sig s) ?key = Some (tmap (cc_sig s) ?key, slot)" using tab.find_view [OF b(3)] by blast
  show ?thesis
  proof (cases "tmap (cc_sig s) ?key")
    case (Some m)
    obtain g as ks where e: "m < ?n" "cc_nodes s ! m = CC_APP g as" "?key = unat g # ks"
        "list_all2 (\<lambda>k a. k < ?n \<and> ?R k = ?R a) ks as"
      using b(4) Some unfolding sig_ok_def by blast
    have "f = g" "ks = map ?R args" using e(3) by (simp_all add: word_unat_eq_iff)
    then have len: "length as = length args" using e(4) by (auto dest: list_all2_lengthD)
    have "(as ! i, args ! i) \<in> cc_gen s" if "i < length args" for i
    proof -
      have "?R (?R (args ! i)) = ?R (as ! i)" using e(4) that len by (auto simp: list_all2_conv_all_nth \<open>ks = _\<close>)
      moreover have "args ! i < ?n" "as ! i < ?n" using args that base_ok_roots [OF base e(1,2)] len b(2) by auto
      ultimately show ?thesis using root_idem [OF b(1)] b(2) by (simp add: cc_gen_def)
    qed
    moreover have "cc_app s f args = Some (m, s)" using run0 look Some by (simp add: cc_app_def)
    ultimately show ?thesis using e(1,2) len \<open>f = g\<close> by blast
  next
    case None
    obtain L where L: "lists_ok s L" "covered s ?R L" "\<forall>r < ?n. cc_parent s ! r \<noteq> r \<longrightarrow> L r = []"
      using live by (auto simp: live_def use_ok_def)
    obtain s1 where s1: "cc_new_node ?nd s = (?n, s1)" "base_ok s1" "lists_ok s1 (L(?n := []))"
        "\<forall>r < length (cc_nodes s1). cc_parent s1 ! r \<noteq> r \<longrightarrow> (L(?n := [])) r = []" "undo_ok s s1"
        "cc_nodes s1 = cc_nodes s @ [?nd]" "cc_parent s1 = cc_parent s @ [?n]" "cc_sig s1 = cc_sig s"
        "cc_use_node s1 = cc_use_node s" "cc_pend s1 = cc_pend s" "cc_ne s1 = cc_ne s"
      using new_node_spec [OF base L(1) _ L(3), of ?nd] args by auto
    have old: "root (cc_parent s1) x = ?R x" "?R x < ?n" if "x < ?n" for x
      using uf_append(3) [OF b(1)] find_some(2) [OF b(1)] that b(2) by (simp_all add: s1(7))
    have fn: "sig_find (cc_sig s1) ?key = Some (None, slot)" using look None s1(8) by simp
    have tok: "table_ok (cc_sig s1)" using b(3) s1(8) by simp
    obtain t where t: "cc_sig_put slot (key_hash ?key) ?key ?n s1
          = Some (s1\<lparr>cc_trail := TR_SIG_PUT (key_hash ?key) ?key # cc_trail s1, cc_sig := t\<rparr>)" (is "_ = Some ?s2")
        "table_ok t" "tmap t = (tmap (cc_sig s1))(?key \<mapsto> ?n)"
      using sig_put_some [OF tok fn] by metis
    have und: "undo_ok s1 ?s2" by (rule undo_ok_put [OF tok t(2) _ t(3)]) (simp add: s1(8) None)
    have "list_all2 (\<lambda>k a. k < Suc ?n \<and> root (cc_parent s1) k = root (cc_parent s1) a) (map ?R args) args"
    proof (rule list_all2_all_nthI)
      fix i assume i: "i < length (map ?R args)"
      then have a: "args ! i < ?n" using args by simp
      then show "map ?R args ! i < Suc ?n \<and> root (cc_parent s1) (map ?R args ! i) = root (cc_parent s1) (args ! i)"
        using i old [OF a] old(1) [OF old(2) [OF a]] root_idem [OF b(1)] b(2) by simp
    qed simp
    then have "sig_ok (cc_nodes s1) (root (cc_parent s1)) (tmap t)"
      using s1(2) unfolding t(3) base_ok_def sig_ok_def by (auto simp: s1(6) nth_append)
    then have base2: "base_ok ?s2" using s1(2) t(2) by (simp add: base_ok_def)
    have lists2: "lists_ok ?s2 (L(?n := []))" using s1(3) by (simp add: lists_ok_def)
    have n2: "?n < length (cc_nodes ?s2)" "cc_nodes ?s2 ! ?n = ?nd" "\<forall>a \<in> set args. a < length (cc_nodes ?s2)"
      using args by (auto simp: s1(6))
    have non2: "\<forall>r < length (cc_nodes ?s2). cc_parent ?s2 ! r \<noteq> r \<longrightarrow> (L(?n := [])) r = []" using s1(4) by simp
    obtain s3 L3 where s3: "cc_use_args args ?n ?s2 = Some s3" "base_ok s3" "lists_ok s3 L3"
        "\<forall>q < length (cc_nodes s1). uses ?s2 ((L(?n := [])) q) \<subseteq> uses s3 (L3 q)"
        "\<forall>a \<in> set args. ?n \<in> uses s3 (L3 (root (cc_parent s1) a))"
        "\<forall>r < length (cc_nodes s1). cc_parent s1 ! r \<noteq> r \<longrightarrow> L3 r = []" "undo_ok ?s2 s3"
        "cc_nodes s3 = cc_nodes s1" "cc_parent s3 = cc_parent s1" "cc_sig s3 = t" "cc_pend s3 = cc_pend s1" "cc_ne s3 = cc_ne s1"
      using use_args_spec [OF base2 lists2 n2(3,1,2) non2] by auto
    have run: "cc_app s f args = Some (?n, s3)" using run0 look None s1(1) t(1) s3(1) by (simp add: cc_app_def)
    have undo: "undo_ok s s3" using undo_ok_trans [OF undo_ok_trans [OF s1(5) und] s3(7)] .
    have "grows s s3"
    proof (rule grow_live [OF base key L(2) s3(2,3)])
      show "\<forall>r < length (cc_nodes s3). cc_parent s3 ! r \<noteq> r \<longrightarrow> L3 r = []" using s3(6,8,9) by simp
      show "\<forall>q < ?n. uses s (L q) \<subseteq> uses s3 (L3 q)"
      proof (intro allI impI)
        fix q assume q: "q < ?n"
        then have "q < length (cc_nodes s1)" by (simp add: s1(6))
        then have "uses ?s2 ((L(?n := [])) q) \<subseteq> uses s3 (L3 q)" using s3(4) by blast
        then show "uses s (L q) \<subseteq> uses s3 (L3 q)" using q by (simp add: uses_def s1(9))
      qed
      show "tmap (cc_sig s) \<subseteq>\<^sub>m tmap (cc_sig s3)" using None by (auto simp: s3(10) t(3) s1(8) map_le_def)
      show "\<forall>g as. ?nd = CC_APP g as \<longrightarrow> (\<forall>a \<in> set as. a < ?n \<and> ?n \<in> uses s3 (L3 (?R a)))
          \<and> tmap (cc_sig s3) (unat g # map ?R as) = Some ?n"
        using args s3(5) old(1) by (auto simp: s3(10) t(3))
    qed (simp_all add: s3(8-12) s1(6-11) undo)
    then show ?thesis using run args rt by (auto simp: s3(8) s1(6) intro!: exI [of _ args])
  qed
qed


lemma ne_spec:
  assumes "live s" and "a < length (cc_nodes s)" and "b < length (cc_nodes s)"
  shows "live (cc_assert_ne s a b)" and "undo_ok s (cc_assert_ne s a b)" and "cc_gen (cc_assert_ne s a b) = cc_gen s"
    and "cc_ne (cc_assert_ne s a b) = cc_ne s @ [(a, b)]"
    and "cc_pend (cc_assert_ne s a b) = cc_pend s" and "cc_nodes (cc_assert_ne s a b) = cc_nodes s"
proof -
  have f: "cc_assert_ne s a b = s\<lparr>cc_ne := cc_ne s @ [(a, b)], cc_trail := TR_NE # cc_trail s\<rparr>"
    by (simp add: cc_assert_ne_def cc_trail_push_def)
  show gen: "cc_gen (cc_assert_ne s a b) = cc_gen s" by (simp add: f cc_gen_def)
  show "live (cc_assert_ne s a b)"
    using assms gen unfolding live_def use_ok_def keyed_def cc_eqv_def
    by (simp add: f base_ok_def pairs_ok_def lists_ok_def covered_def uses_def)
  have "table_ok (cc_sig s)" using assms(1) by (simp add: live_def base_ok_def)
  then show "undo_ok s (cc_assert_ne s a b)" by (intro undo_ok_step) (auto simp: f state_eq_def)
qed (simp_all add: cc_assert_ne_def cc_trail_push_def)

lemma eq_spec:
  assumes live: "live s" and pend: "cc_pend s = []" and ab: "a < length (cc_nodes s)" "b < length (cc_nodes s)"
  shows "\<exists>s'. cc_assert_eq s a b = Some s' \<and> live s' \<and> cc_pend s' = [] \<and> undo_ok s s' \<and> cc_nodes s' = cc_nodes s
    \<and> cc_ne s' = cc_ne s \<and> insert (a, b) (cc_gen s) \<subseteq> cc_eqv s'
    \<and> (\<forall>F v. cc_models F (v :: nat \<Rightarrow> 'd) (cc_nodes s) \<longrightarrow> agrees v s \<longrightarrow> v a = v b \<longrightarrow> agrees v s')"
proof -
  let ?s = "s\<lparr>cc_pend := [(a, b)]\<rparr>"
  have push: "cc_pend_push a b s = ?s" by (simp add: cc_pend_push_def pend)
  have gen: "cc_gen ?s = insert (a, b) (cc_gen s)" by (auto simp: cc_gen_def pend)
  have "cc_eqv s \<subseteq> cc_eqv ?s"
    unfolding cc_eqv_def gen by (intro rtrancl_mono) auto
  then have "live ?s" using live_pend [OF live, of "[(a, b)]"] ab by (simp add: pairs_ok_def)
  then obtain s' where s': "cc_propagate ?s = Some s'" "live s'" "cc_pend s' = []" "advances ?s s'" "sound_step TYPE('d) ?s s'"
    using propagate_spec [of ?s, where 'd = 'd] by blast
  have tab: "table_ok (cc_sig s)" using live by (simp add: live_def base_ok_def)
  have "undo_ok s ?s" using tab by (intro undo_ok_same) (auto simp: state_eq_def)
  then have "undo_ok s s'" using undo_ok_trans s'(4) by (auto simp: advances_def)
  moreover have "cc_gen ?s \<subseteq> cc_eqv s'" using s'(4) gen_eqv [of _ _ ?s] by (fastforce simp: advances_def)
  moreover have "agrees v ?s" if "agrees v s" "v a = v b" for v :: "nat \<Rightarrow> 'd" using that by (auto simp: agrees_def gen)
  ultimately show ?thesis
    using s' unfolding cc_assert_eq_def push gen [symmetric] by (auto simp: advances_def sound_step_def)
qed

text \<open>With nothing pending, two nodes are equivalent when their roots are equal.\<close>

lemma eqv_gen:
  assumes "cc_pend s = []" and "(x, y) \<in> cc_eqv s" and "x \<noteq> y"
  shows "(x, y) \<in> cc_gen s"
proof -
  have "x = y \<or> (x, y) \<in> cc_gen s"
    using assms(2) by (rule eqv_induct) (use assms(1) in \<open>auto simp: cc_gen_def\<close>)
  then show ?thesis using assms(3) by blast
qed

lemma eqv_gen_less:
  assumes "cc_pend s = []" and "(x, y) \<in> cc_eqv s" and "x < length (cc_nodes s)"
  shows "(x, y) \<in> cc_gen s"
  using eqv_gen [OF assms(1,2)] assms(3) by (cases "x = y") (auto simp: cc_gen_def)

section \<open>The interface\<close>

text \<open>
  Runs of the interface from a state, with the literals in force: new nodes, asserted equations
  and disequalities on existing nodes, and a pop to a checkpoint, which takes back the literals
  asserted since.
\<close>

datatype cc_lit = Lit_Eq nat nat | Lit_Ne nat nat

primrec lit_holds :: "(nat \<Rightarrow> 'd) \<Rightarrow> cc_lit \<Rightarrow> bool" where
  "lit_holds v (Lit_Eq a b) \<longleftrightarrow> v a = v b"
| "lit_holds v (Lit_Ne a b) \<longleftrightarrow> v a \<noteq> v b"

definition eqs_hold :: "(nat \<Rightarrow> 'd) \<Rightarrow> cc_lit set \<Rightarrow> bool" where
  "eqs_hold v A \<longleftrightarrow> (\<forall>a b. Lit_Eq a b \<in> A \<longrightarrow> v a = v b)"

inductive cc_run :: "cc_state \<Rightarrow> cc_lit set \<Rightarrow> cc_state \<Rightarrow> cc_lit set \<Rightarrow> bool" where
  run_refl: "cc_run s A s A"
| run_atom: "cc_run s A s1 A1 \<Longrightarrow> cc_atom s1 a = (n, s2) \<Longrightarrow> cc_run s A s2 A1"
| run_app: "cc_run s A s1 A1 \<Longrightarrow> \<forall>a \<in> set args. a < length (cc_nodes s1) \<Longrightarrow> cc_app s1 f args = Some (n, s2)
    \<Longrightarrow> cc_run s A s2 A1"
| run_eq: "cc_run s A s1 A1 \<Longrightarrow> a < length (cc_nodes s1) \<Longrightarrow> b < length (cc_nodes s1) \<Longrightarrow> cc_assert_eq s1 a b = Some s2
    \<Longrightarrow> cc_run s A s2 (insert (Lit_Eq a b) A1)"
| run_ne: "cc_run s A s1 A1 \<Longrightarrow> a < length (cc_nodes s1) \<Longrightarrow> b < length (cc_nodes s1)
    \<Longrightarrow> cc_run s A (cc_assert_ne s1 a b) (insert (Lit_Ne a b) A1)"
| run_pop: "cc_run s A s1 A1 \<Longrightarrow> cc_run s1 A1 s2 A2 \<Longrightarrow> cc_pop s2 (cc_push s1) = Some s3 \<Longrightarrow> cc_run s A s3 A1"

definition tracks :: "'d itself \<Rightarrow> cc_state \<Rightarrow> cc_lit set \<Rightarrow> bool" where
  "tracks T s A \<longleftrightarrow> live s \<and> cc_pend s = []
     \<and> (\<forall>a b. Lit_Eq a b \<in> A \<longrightarrow> (a, b) \<in> cc_gen s) \<and> (\<forall>a b. Lit_Ne a b \<in> A \<longleftrightarrow> (a, b) \<in> set (cc_ne s))
     \<and> (\<forall>F v. cc_models F (v :: nat \<Rightarrow> 'd) (cc_nodes s) \<longrightarrow> eqs_hold v A \<longrightarrow> agrees v s)"

lemma state_eq_live:
  assumes "state_eq s t" and "cc_pend s = cc_pend t"
  shows "cc_gen s = cc_gen t" and "live s \<longleftrightarrow> live t"
proof -
  show gen: "cc_gen s = cc_gen t" using assms by (simp add: cc_gen_def state_eq_def)
  have "base_ok s = base_ok t" "use_ok s = use_ok t" "keyed s {} = keyed t {}"
    using assms gen by (simp_all add: state_eq_def base_ok_def use_ok_def lists_ok_def covered_def uses_def keyed_def cc_eqv_def)
  then show "live s \<longleftrightarrow> live t" by (simp add: live_def)
qed

lemma state_eq_tracks: "state_eq s t \<Longrightarrow> cc_pend s = cc_pend t \<Longrightarrow> tracks T t A \<Longrightarrow> tracks T s A"
  using state_eq_live [of s t] by (simp add: tracks_def state_eq_def agrees_def)

lemma grows_models:
  assumes "cc_models F v (cc_nodes s')" and "grows s s'"
  shows "cc_models F v (cc_nodes s)"
proof -
  obtain nds where "cc_nodes s' = cc_nodes s @ nds" using assms(2) by (auto simp: grows_def)
  then show ?thesis using assms(1) by (auto simp: cc_models_def nth_append)
qed

lemma grows_tracks:
  assumes "tracks T s A" and "grows s s'"
  shows "tracks T s' A"
proof -
  have "agrees v s'" if "agrees v s" for v :: "nat \<Rightarrow> 'a" using that assms(2) by (fastforce simp: grows_def agrees_def)
  moreover note grows_models [OF _ assms(2)]
  ultimately have "agrees v s'"
    if "cc_models F v (cc_nodes s')" "eqs_hold v A" for F and v :: "nat \<Rightarrow> 'a"
    using assms(1) that unfolding tracks_def by blast
  then show ?thesis using assms by (auto simp: tracks_def grows_def)
qed

lemma pop_back:
  assumes "undo_ok s t" and "table_ok (cc_sig t)"
  shows "\<exists>u. cc_pop t (cc_push s) = Some u \<and> state_eq u s \<and> cc_pend u = cc_pend t"
proof -
  have "state_eq t t" using assms(2) by (simp add: state_eq_def)
  then show ?thesis using assms(1) by (simp add: undo_ok_def cc_pop_def cc_push_def)
qed

lemma undo_ok_eq: "undo_ok s t \<Longrightarrow> state_eq u t \<Longrightarrow> undo_ok s u"
  by (auto simp: undo_ok_def state_eq_def)

lemma run_tracks:
  assumes "cc_run s A s' A'" and "tracks TYPE('d) s A"
  shows "tracks TYPE('d) s' A' \<and> undo_ok s s'"
  using assms
proof (induction rule: cc_run.induct)
  case (run_refl s A)
  then show ?case by (auto intro: undo_ok_same)
next
  case (run_atom s A s1 A1 a n s2)
  then have t: "tracks TYPE('d) s1 A1" "undo_ok s s1" "live s1" by (auto simp: tracks_def)
  from atom_spec [OF t(3), of a] have "grows s1 s2" using run_atom.hyps(2) by auto
  then show ?case using grows_tracks [OF t(1)] undo_ok_trans [OF t(2)] by (auto simp: grows_def)
next
  case (run_app s A s1 A1 args f n s2)
  then have t: "tracks TYPE('d) s1 A1" "undo_ok s s1" "live s1" by (auto simp: tracks_def)
  from app_spec [OF t(3) run_app.hyps(2), of f] have "s2 = s1 \<or> grows s1 s2" using run_app.hyps(3) by auto
  then show ?case using grows_tracks [OF t(1)] undo_ok_trans [OF t(2)] t by (auto simp: grows_def)
next
  case (run_eq s A s1 A1 a b s2)
  then have t: "tracks TYPE('d) s1 A1" "undo_ok s s1" "live s1" "cc_pend s1 = []" by (auto simp: tracks_def)
  obtain "live s2" "cc_pend s2 = []" "undo_ok s1 s2" "cc_nodes s2 = cc_nodes s1" "cc_ne s2 = cc_ne s1"
      "insert (a, b) (cc_gen s1) \<subseteq> cc_eqv s2"
      "\<forall>F v. cc_models F (v :: nat \<Rightarrow> 'd) (cc_nodes s1) \<longrightarrow> agrees v s1 \<longrightarrow> v a = v b \<longrightarrow> agrees v s2"
    using eq_spec [OF t(3,4) run_eq.hyps(2,3), where 'd = 'd] run_eq.hyps(4) by auto
  note e = this
  have "(x, y) \<in> cc_gen s2" if "Lit_Eq x y \<in> insert (Lit_Eq a b) A1" for x y
  proof -
    have in1: "(x, y) \<in> cc_eqv s2" using that e(6) t(1) by (auto simp: tracks_def)
    have "x < length (cc_nodes s1)"
      using that t(1,4) run_eq.hyps(2) by (auto simp: tracks_def cc_gen_def)
    then show ?thesis using eqv_gen_less [OF e(2) in1] e(4) by simp
  qed
  then have "tracks TYPE('d) s2 (insert (Lit_Eq a b) A1)"
    using t(1) e(1,2,4,5,7) by (auto simp: tracks_def eqs_hold_def)
  then show ?case using undo_ok_trans [OF t(2) e(3)] by blast
next
  case (run_ne s A s1 A1 a b)
  then have t: "tracks TYPE('d) s1 A1" "undo_ok s s1" "live s1" by (auto simp: tracks_def)
  note n = ne_spec [OF t(3) run_ne.hyps(2,3)]
  have "tracks TYPE('d) (cc_assert_ne s1 a b) (insert (Lit_Ne a b) A1)"
    using t(1) n by (auto simp: tracks_def agrees_def eqs_hold_def)
  then show ?case using undo_ok_trans [OF t(2) n(2)] by blast
next
  case (run_pop s A s1 A1 s2 A2 s3)
  then have t: "tracks TYPE('d) s1 A1" "undo_ok s s1" "tracks TYPE('d) s2 A2" "undo_ok s1 s2" by auto
  have "table_ok (cc_sig s2)" using t(3) by (simp add: tracks_def live_def base_ok_def)
  from pop_back [OF t(4) this] have s3: "state_eq s3 s1" "cc_pend s3 = cc_pend s2" using run_pop.hyps(3) by auto
  moreover have "cc_pend s3 = cc_pend s1" using s3(2) t(1,3) by (simp add: tracks_def)
  ultimately show ?case using state_eq_tracks t(1) undo_ok_eq [OF t(2)] by blast
qed

lemma init_tracks: "tracks T cc_init {}"
proof -
  have "live cc_init"
    by (simp add: live_def base_ok_def use_ok_def cc_init_def uf_ok_def nodes_ok_def init_ok sig_ok_def pairs_ok_def
        lists_ok_def covered_def keyed_def)
  then show ?thesis by (simp add: tracks_def cc_init_def agrees_def cc_gen_def)
qed

lemmas run_init = run_tracks [OF _ init_tracks]


section \<open>Models from classes\<close>

text \<open>Reading every node as its root makes applications applications, since the classes are closed under congruence.\<close>

lemma class_model:
  assumes "live s" and "cc_pend s = []"
  obtains F where "cc_models F (root (cc_parent s)) (cc_nodes s)"
proof -
  let ?R = "root (cc_parent s)"
  let ?F = "\<lambda>f ds. case tmap (cc_sig s) (unat f # ds) of Some m' \<Rightarrow> ?R m' | None \<Rightarrow> 0"
  have "?R m = ?F f (map ?R args)" if m: "m < length (cc_nodes s)" "cc_nodes s ! m = CC_APP f args" for m f args
  proof -
    obtain m' where m': "tmap (cc_sig s) (unat f # map ?R args) = Some m'" "(m', m) \<in> cc_eqv s"
      using assms(1) m unfolding live_def keyed_def by blast
    then have "(m, m') \<in> cc_gen s" using eqv_gen_less [OF assms(2) eqv_sym m(1)] by blast
    then show ?thesis using m'(1) assms(2) by (simp add: cc_gen_def)
  qed
  then have "cc_models ?F ?R (cc_nodes s)" by (simp add: cc_models_def)
  then show ?thesis by (rule that)
qed

lemma check_loop_spec:
  assumes "uf_ok p rk" and "pairs_ok (length p) ne"
  shows "cc_check_loop p ne = Some (if \<exists>(a, b) \<in> set ne. root p a = root p b then CC_UNSAT else CC_SAT)"
  using assms(2) by (induction ne) (auto simp: pairs_ok_def find_some [OF assms(1)])

lemma tracks_base:
  assumes "tracks T s A"
  shows "uf_ok (cc_parent s) (cc_rank s)" "length (cc_parent s) = length (cc_nodes s)"
    "pairs_ok (length (cc_nodes s)) (cc_ne s)" "live s" "cc_pend s = []"
  using assms by (auto simp: tracks_def live_def base_ok_def)

lemma tracks_eqs:
  assumes "tracks T s A" and "Lit_Eq a b \<in> A"
  shows "root (cc_parent s) a = root (cc_parent s) b"
  using assms by (auto simp: tracks_def cc_gen_def)

lemma tracks_sound:
  fixes v :: "nat \<Rightarrow> 'd"
  assumes "tracks TYPE('d) s A" and "cc_models F v (cc_nodes s)" and "eqs_hold v A"
    and "x < length (cc_nodes s)" "y < length (cc_nodes s)" "root (cc_parent s) x = root (cc_parent s) y"
  shows "v x = v y"
  using assms unfolding tracks_def agrees_def cc_gen_def by fastforce

lemma run_check:
  assumes "cc_run cc_init {} s A"
  shows "cc_check s = Some (if \<exists>(a, b) \<in> set (cc_ne s). root (cc_parent s) a = root (cc_parent s) b then CC_UNSAT else CC_SAT)"
proof -
  have t: "tracks TYPE(nat) s A" using run_init [OF assms] by blast
  then show ?thesis
    unfolding cc_check_def by (intro check_loop_spec [OF tracks_base(1)]) (use tracks_base(2,3) [OF t] in simp_all)
qed

text \<open>Runs compose.\<close>

lemma run_run:
  assumes "cc_run s A s1 A1" and "cc_run s1 A1 s2 A2"
  shows "cc_run s A s2 A2"
  using assms(2,1) by (induction rule: cc_run.induct) (auto intro: cc_run.intros)

text \<open>An interned application denotes the application, in every interpretation of the equations.\<close>

lemma app_denotes:
  assumes t: "tracks TYPE('d) s A" and args: "\<forall>a \<in> set args. a < length (cc_nodes s)"
  shows "\<exists>n s1. cc_app s f args = Some (n, s1) \<and> n < length (cc_nodes s1) \<and> (s1 = s \<or> grows s s1)
    \<and> (\<forall>F (v :: nat \<Rightarrow> 'd). cc_models F v (cc_nodes s1) \<longrightarrow> eqs_hold v A \<longrightarrow> v n = F f (map v args))"
proof -
  obtain n s1 as where s1: "cc_app s f args = Some (n, s1)" "n < length (cc_nodes s1)" "s1 = s \<or> grows s s1"
      "cc_nodes s1 ! n = CC_APP f as" "length as = length args" "\<forall>i < length args. (as ! i, args ! i) \<in> cc_gen s"
    using app_spec [OF tracks_base(4) [OF t] args, of f] by blast
  have "v n = F f (map v args)" if m: "cc_models F v (cc_nodes s1)" "eqs_hold v A" for F and v :: "nat \<Rightarrow> 'd"
  proof -
    have "cc_models F v (cc_nodes s)"
      using s1(3) m(1) grows_models [of F v s1 s] by blast
    then have "agrees v s" using t m(2) by (simp add: tracks_def)
    then have "map v as = map v args" using s1(5,6) by (intro nth_equalityI) (auto simp: agrees_def)
    then show ?thesis using m(1) s1(2,4) unfolding cc_models_def by metis
  qed
  then show ?thesis using s1(1-3) by blast
qed

section \<open>A run\<close>

text \<open>Two atoms, their images under one function, then the atoms made equal and the images kept apart.\<close>

lemma demo_run:
  obtains s fa fb t where "cc_run cc_init {} s {}" and "0 < length (cc_nodes s)" "1 < length (cc_nodes s)"
    and "cc_run s {} t {Lit_Ne fa fb, Lit_Eq 0 1}" and "fa < length (cc_nodes t)" "fb < length (cc_nodes t)"
    and "\<forall>F (v :: nat \<Rightarrow> 'd). cc_models F v (cc_nodes t) \<longrightarrow> v fa = F 7 [v 0] \<and> v fb = F 7 [v 1]"
proof -
  note tr = run_init [where 'd = 'd, THEN conjunct1]
  obtain s1 where s1: "cc_atom cc_init 10 = (0, s1)" "cc_nodes s1 = [CC_ATOM 10]"
    using atom_spec [OF tracks_base(4) [OF init_tracks], of 10] by (auto simp: cc_init_def)
  have r1: "cc_run cc_init {} s1 {}" by (rule run_atom [OF run_refl s1(1)])
  obtain s2 where s2: "cc_atom s1 11 = (1, s2)" "cc_nodes s2 = [CC_ATOM 10, CC_ATOM 11]"
    using atom_spec [OF tracks_base(4) [OF tr [OF r1]], of 11] s1(2) by auto
  have r2: "cc_run cc_init {} s2 {}" by (rule run_atom [OF r1 s2(1)])
  obtain fa s3 where s3: "cc_app s2 7 [0] = Some (fa, s3)" "fa < length (cc_nodes s3)" "s3 = s2 \<or> grows s2 s3"
      "\<forall>F (v :: nat \<Rightarrow> 'd). cc_models F v (cc_nodes s3) \<longrightarrow> eqs_hold v {} \<longrightarrow> v fa = F 7 (map v [0])"
    using app_denotes [OF tr [OF r2], of "[0]" 7] s2(2) by auto
  have r3: "cc_run cc_init {} s3 {}" by (rule run_app [OF r2 _ s3(1)]) (simp add: s2(2))
  have l3: "1 < length (cc_nodes s3)" using s3(3) s2(2) by (auto simp: grows_def)
  obtain fb s4 where s4: "cc_app s3 7 [1] = Some (fb, s4)" "fb < length (cc_nodes s4)" "s4 = s3 \<or> grows s3 s4"
      "\<forall>F (v :: nat \<Rightarrow> 'd). cc_models F v (cc_nodes s4) \<longrightarrow> eqs_hold v {} \<longrightarrow> v fb = F 7 (map v [1])"
    using app_denotes [OF tr [OF r3], of "[1]" 7] l3 by auto
  have r4: "cc_run cc_init {} s4 {}" by (rule run_app [OF r3 _ s4(1)]) (use l3 in simp)
  have l4: "fa < length (cc_nodes s4)" "0 < length (cc_nodes s4)" "1 < length (cc_nodes s4)"
    using s4(3) s3(2) l3 by (auto simp: grows_def)
  obtain s5 where s5: "cc_assert_eq s4 0 1 = Some s5" "cc_nodes s5 = cc_nodes s4"
    using eq_spec [OF tracks_base(4,5) [OF tr [OF r4]] l4(2,3)] by blast
  have r5: "cc_run s4 {} (cc_assert_ne s5 fa fb) {Lit_Ne fa fb, Lit_Eq 0 1}"
    by (rule run_ne [OF run_eq [OF run_refl l4(2,3) s5(1)]]) (use l4 s4(2) s5(2) in simp_all)
  have nodes: "cc_nodes (cc_assert_ne s5 fa fb) = cc_nodes s4" by (simp add: cc_assert_ne_def cc_trail_push_def s5(2))
  have "v fa = F 7 [v 0] \<and> v fb = F 7 [v 1]" if m: "cc_models F v (cc_nodes s4)" for F and v :: "nat \<Rightarrow> 'd"
  proof -
    have "cc_models F v (cc_nodes s3)" using s4(3) m grows_models by blast
    then show ?thesis using s3(4) s4(4) m by (simp add: eqs_hold_def)
  qed
  then show thesis using that [OF r4 l4(2,3) r5] l4(1) s4(2) nodes by simp
qed

section \<open>Properties\<close>

text \<open>C33: the check decides the asserted literals. In every state that a run of the interface can
  reach, pushes and pops included, it answers SAT with a model of the nodes and of all the literals
  in force, or UNSAT when no interpretation whatever of the nodes satisfies them.\<close>
theorem cc_check_decides:
  assumes "cc_run cc_init {} s A"
  shows "cc_check s = Some CC_SAT \<and> (\<exists>F (v :: nat \<Rightarrow> nat). cc_models F v (cc_nodes s) \<and> (\<forall>l \<in> A. lit_holds v l))
    \<or> cc_check s = Some CC_UNSAT \<and> (\<forall>F (v :: nat \<Rightarrow> 'd). cc_models F v (cc_nodes s) \<longrightarrow> (\<exists>l \<in> A. \<not> lit_holds v l))"
proof -
  let ?R = "root (cc_parent s)"
  have t: "tracks TYPE('d) s A" using run_init [OF assms] by blast
  have ne: "Lit_Ne a b \<in> A \<longleftrightarrow> (a, b) \<in> set (cc_ne s)" for a b using t by (simp add: tracks_def)
  show ?thesis
  proof (cases "\<exists>(a, b) \<in> set (cc_ne s). ?R a = ?R b")
    case True
    then obtain a b where ab: "(a, b) \<in> set (cc_ne s)" "?R a = ?R b" by blast
    then have lt: "a < length (cc_nodes s)" "b < length (cc_nodes s)" using tracks_base(3) [OF t] by (auto simp: pairs_ok_def)
    have "\<exists>l \<in> A. \<not> lit_holds v l" if "cc_models F v (cc_nodes s)" for F and v :: "nat \<Rightarrow> 'd"
    proof (rule ccontr)
      assume "\<not> (\<exists>l \<in> A. \<not> lit_holds v l)"
      then have "eqs_hold v A" "v a \<noteq> v b" using ab(1) ne by (force simp: eqs_hold_def)+
      then show False using tracks_sound [OF t that _ lt ab(2)] by blast
    qed
    then show ?thesis using run_check [OF assms] True by auto
  next
    case False
    obtain F where F: "cc_models F ?R (cc_nodes s)" using class_model tracks_base(4,5) [OF t] by blast
    have "lit_holds ?R l" if "l \<in> A" for l
      using that tracks_eqs [OF t] ne False by (cases l) auto
    then show ?thesis using run_check [OF assms] False F by auto
  qed
qed

theorem cc_check_decides_witness:
  "\<exists>t fa fb. cc_run cc_init {} t {Lit_Ne fa fb, Lit_Eq 0 1} \<and> cc_check t = Some CC_UNSAT"
proof -
  obtain s fa fb t where r: "cc_run cc_init {} s {}" "cc_run s {} t {Lit_Ne fa fb, Lit_Eq 0 1}"
      and den: "\<forall>F (v :: nat \<Rightarrow> nat). cc_models F v (cc_nodes t) \<longrightarrow> v fa = F 7 [v 0] \<and> v fb = F 7 [v 1]"
    by (rule demo_run)
  have run: "cc_run cc_init {} t {Lit_Ne fa fb, Lit_Eq 0 1}" by (rule run_run [OF r])
  have "\<exists>l \<in> {Lit_Ne fa fb, Lit_Eq 0 1}. \<not> lit_holds v l" if "cc_models F v (cc_nodes t)" for F and v :: "nat \<Rightarrow> nat"
  proof -
    have "v fa = F 7 [v 0]" "v fb = F 7 [v 1]" using den that by blast+
    then show ?thesis by (cases "v 0 = v 1") simp_all
  qed
  then have "\<not> (\<exists>F (v :: nat \<Rightarrow> nat). cc_models F v (cc_nodes t) \<and> (\<forall>l \<in> {Lit_Ne fa fb, Lit_Eq 0 1}. lit_holds v l))"
    by blast
  then show ?thesis using cc_check_decides [OF run, where 'd = nat] run by blast
qed

text \<open>C34: the classes are exactly the entailed equations. In every reachable state the find loop
  returns for every node, and two nodes have the same root exactly when every interpretation of
  the nodes that satisfies the asserted equations makes them equal.\<close>
theorem cc_find_entailed:
  assumes "cc_run cc_init {} s A" and "a < length (cc_nodes s)" and "b < length (cc_nodes s)"
  shows "\<exists>ra rb. cc_find (cc_parent s) a = Some ra \<and> cc_find (cc_parent s) b = Some rb
    \<and> (ra = rb \<longleftrightarrow> (\<forall>F (v :: nat \<Rightarrow> nat). cc_models F v (cc_nodes s) \<longrightarrow> eqs_hold v A \<longrightarrow> v a = v b))"
proof -
  let ?R = "root (cc_parent s)"
  have t: "tracks TYPE(nat) s A" using run_init [OF assms(1)] by blast
  have f: "cc_find (cc_parent s) a = Some (?R a)" "cc_find (cc_parent s) b = Some (?R b)"
    using find_some(1) [OF tracks_base(1) [OF t]] tracks_base(2) [OF t] assms(2,3) by auto
  obtain F where F: "cc_models F ?R (cc_nodes s)" using class_model tracks_base(4,5) [OF t] by blast
  have "eqs_hold ?R A" using tracks_eqs [OF t] by (auto simp: eqs_hold_def)
  then have "?R a = ?R b" if "\<forall>F (v :: nat \<Rightarrow> nat). cc_models F v (cc_nodes s) \<longrightarrow> eqs_hold v A \<longrightarrow> v a = v b"
    using that F by blast
  then show ?thesis using f tracks_sound [OF t _ _ assms(2,3)] by blast
qed

theorem cc_find_entailed_witness:
  "\<exists>t fa fb r. cc_run cc_init {} t {Lit_Ne fa fb, Lit_Eq 0 1} \<and> cc_find (cc_parent t) fa = Some r \<and> cc_find (cc_parent t) fb = Some r"
proof -
  obtain s fa fb t where r: "cc_run cc_init {} s {}" "cc_run s {} t {Lit_Ne fa fb, Lit_Eq 0 1}"
      and lt: "fa < length (cc_nodes t)" "fb < length (cc_nodes t)"
      and den: "\<forall>F (v :: nat \<Rightarrow> nat). cc_models F v (cc_nodes t) \<longrightarrow> v fa = F 7 [v 0] \<and> v fb = F 7 [v 1]"
    by (rule demo_run)
  have run: "cc_run cc_init {} t {Lit_Ne fa fb, Lit_Eq 0 1}" by (rule run_run [OF r])
  have "v fa = v fb" if "cc_models F v (cc_nodes t)" "eqs_hold v {Lit_Ne fa fb, Lit_Eq 0 1}" for F and v :: "nat \<Rightarrow> nat"
  proof -
    have "v fa = F 7 [v 0]" "v fb = F 7 [v 1]" using den that(1) by blast+
    then show ?thesis using that(2) by (simp add: eqs_hold_def)
  qed
  then show ?thesis using cc_find_entailed [OF run lt] run by blast
qed

text \<open>C35: nothing loops. In every reachable state interning an application of existing nodes
  returns a node whose class denotes that application, and asserting an equation between existing
  nodes, with all the merges it propagates, returns with an empty queue.\<close>
theorem cc_operations_return:
  assumes "cc_run cc_init {} s A" and "\<forall>a \<in> set args. a < length (cc_nodes s)"
    and "a < length (cc_nodes s)" and "b < length (cc_nodes s)"
  shows "\<exists>n s1 s2. cc_app s f args = Some (n, s1) \<and> n < length (cc_nodes s1)
    \<and> (\<forall>F (v :: nat \<Rightarrow> 'd). cc_models F v (cc_nodes s1) \<longrightarrow> eqs_hold v A \<longrightarrow> v n = F f (map v args))
    \<and> cc_assert_eq s a b = Some s2 \<and> cc_pend s2 = []"
proof -
  have t: "tracks TYPE('d) s A" using run_init [OF assms(1)] by blast
  note live = tracks_base(4,5) [OF t]
  obtain s2 where s2: "cc_assert_eq s a b = Some s2" "cc_pend s2 = []" using eq_spec [OF live assms(3,4)] by blast
  obtain n s1 where s1: "cc_app s f args = Some (n, s1)" "n < length (cc_nodes s1)"
      "\<forall>F (v :: nat \<Rightarrow> 'd). cc_models F v (cc_nodes s1) \<longrightarrow> eqs_hold v A \<longrightarrow> v n = F f (map v args)"
    using app_denotes [OF t assms(2), of f] by blast
  then show ?thesis using s1 s2 by blast
qed

theorem cc_operations_return_witness:
  "\<exists>s n s1 s2. cc_run cc_init {} s {} \<and> cc_app s 7 [0, 1] = Some (n, s1) \<and> cc_assert_eq s 0 1 = Some s2"
proof -
  obtain s where s: "cc_run cc_init {} s {}" "0 < length (cc_nodes s)" "1 < length (cc_nodes s)"
    by (rule demo_run [where 'd = nat])
  have "\<forall>a \<in> set [0, 1]. a < length (cc_nodes s)" using s by simp
  from cc_operations_return [OF s(1) this s(2,3), where 'd = nat and f = 7] show ?thesis using s(1) by blast
qed

text \<open>C36: backtracking. After any run from a reachable checkpoint, nested checkpoints included,
  popping to it returns and restores the state of the checkpoint: nodes, classes, ranks, use lists,
  disequalities and trail as they were, and a signature table with the same entries.\<close>
theorem cc_pop_restores:
  assumes "cc_run cc_init {} s A" and "cc_run s A s' A'"
  shows "\<exists>u. cc_pop s' (cc_push s) = Some u \<and> state_eq u s \<and> cc_pend u = cc_pend s"
proof -
  have t: "tracks TYPE(nat) s A" using run_init [OF assms(1)] by blast
  have t': "tracks TYPE(nat) s' A'" "undo_ok s s'" using run_tracks [OF assms(2) t] by blast+
  have "table_ok (cc_sig s')" using t'(1) by (simp add: tracks_def live_def base_ok_def)
  from pop_back [OF t'(2) this] show ?thesis using tracks_base(5) [OF t] tracks_base(5) [OF t'(1)] by simp
qed

theorem cc_pop_restores_witness:
  "\<exists>s t u fa fb. cc_run cc_init {} s {} \<and> cc_run s {} t {Lit_Ne fa fb, Lit_Eq 0 1}
     \<and> cc_pop t (cc_push s) = Some u \<and> state_eq u s"
proof -
  obtain s fa fb t where r: "cc_run cc_init {} s {}" "cc_run s {} t {Lit_Ne fa fb, Lit_Eq 0 1}"
    by (rule demo_run [where 'd = nat])
  then show ?thesis using cc_pop_restores [OF r] by blast
qed

end
