(* ===== verification/GC_Heap.thy ===== *)
theory GC_Heap
  imports Heap_Ctr "HOL-Library.Monad_Syntax"
begin

text \<open>
  The copying collector of the dynamic heap (src/heap/collect.c) and the shape table it re-keys
  (src/lam/shape.c). The heap is split in two halves; a collection copies every block that a root
  reaches into the other half, leaves a forward pointer in the first cell of the old block, and
  swaps the halves. Cell positions are natural numbers: theory GC_Props proves that they stay
  below the end of the new half, within 2^38, so that no 64-bit position wraps. The recursion
  of the collector, which the C stack bounds, takes fuel; None is a stack that is too small.
\<close>

section \<open>Tags\<close>

definition TAG_APP :: u8 where "TAG_APP = 0"
definition TAG_LAM :: u8 where "TAG_LAM = 1"
definition TAG_VAR :: u8 where "TAG_VAR = 2"
definition TAG_ERA :: u8 where "TAG_ERA = 3"
definition TAG_DP0 :: u8 where "TAG_DP0 = 4"
definition TAG_DP1 :: u8 where "TAG_DP1 = 5"
definition TAG_SUP :: u8 where "TAG_SUP = 6"
definition TAG_DUP :: u8 where "TAG_DUP = 7"
definition TAG_TEN :: u8 where "TAG_TEN = 8"
definition TAG_UOP :: u8 where "TAG_UOP = 9"
definition TAG_REF :: u8 where "TAG_REF = 11"
definition TAG_ALO :: u8 where "TAG_ALO = 12"
definition TAG_OP2 :: u8 where "TAG_OP2 = 13"
definition TAG_MAT :: u8 where "TAG_MAT = 14"
definition TAG_EQL :: u8 where "TAG_EQL = 15"
definition TAG_AND :: u8 where "TAG_AND = 16"
definition TAG_OR :: u8 where "TAG_OR = 17"
definition TAG_ANY :: u8 where "TAG_ANY = 18"
definition TAG_INC :: u8 where "TAG_INC = 19"
definition TAG_WHEN :: u8 where "TAG_WHEN = 21"
definition TAG_BRI :: u8 where "TAG_BRI = 23"
definition TAG_ANN :: u8 where "TAG_ANN = 24"
definition TAG_PRI :: u8 where "TAG_PRI = 25"
definition TAG_DSU :: u8 where "TAG_DSU = 29"
definition TAG_DDU :: u8 where "TAG_DDU = 30"
definition GC_FWD_TAG :: u8 where "GC_FWD_TAG = 0x7E"
definition DUP_GRAD_FLAG :: u32 where "DUP_GRAD_FLAG = push_bit 17 1"

lemmas gc_tag_defs = tag_defs TAG_APP_def TAG_LAM_def TAG_VAR_def TAG_ERA_def TAG_DP0_def TAG_DP1_def
  TAG_SUP_def TAG_DUP_def TAG_TEN_def TAG_UOP_def TAG_REF_def TAG_ALO_def TAG_OP2_def TAG_MAT_def
  TAG_EQL_def TAG_AND_def TAG_OR_def TAG_ANY_def TAG_INC_def TAG_WHEN_def TAG_BRI_def TAG_ANN_def
  TAG_PRI_def TAG_DSU_def TAG_DDU_def GC_FWD_TAG_def

definition UOP_KERNEL :: u32 where "UOP_KERNEL = 1"
definition UOP_CONST :: u32 where "UOP_CONST = 2"
definition UOP_RESHAPE :: u32 where "UOP_RESHAPE = 3"
definition UOP_PERMUTE :: u32 where "UOP_PERMUTE = 4"
definition UOP_EXPAND :: u32 where "UOP_EXPAND = 5"
definition UOP_PAD :: u32 where "UOP_PAD = 6"
definition UOP_SHRINK :: u32 where "UOP_SHRINK = 7"
definition UOP_FLIP :: u32 where "UOP_FLIP = 8"
definition UOP_ADD :: u32 where "UOP_ADD = 9"
definition UOP_MUL :: u32 where "UOP_MUL = 10"
definition UOP_NEG :: u32 where "UOP_NEG = 11"
definition UOP_RECIP :: u32 where "UOP_RECIP = 12"
definition UOP_EXP2 :: u32 where "UOP_EXP2 = 13"
definition UOP_LOG2 :: u32 where "UOP_LOG2 = 14"
definition UOP_SQRT :: u32 where "UOP_SQRT = 15"
definition UOP_CMPLT :: u32 where "UOP_CMPLT = 16"
definition UOP_REDUCE :: u32 where "UOP_REDUCE = 17"
definition UOP_CMPEQ :: u32 where "UOP_CMPEQ = 20"
definition UOP_LOAD :: u32 where "UOP_LOAD = 21"
definition UOP_ASSIGN :: u32 where "UOP_ASSIGN = 22"
definition UOP_CAST :: u32 where "UOP_CAST = 23"
definition UOP_BITCAST :: u32 where "UOP_BITCAST = 24"
definition UOP_RANGE :: u32 where "UOP_RANGE = 25"
definition UOP_INDEX_E :: u32 where "UOP_INDEX_E = 26"
definition UOP_IADD :: u32 where "UOP_IADD = 27"
definition UOP_ISUB :: u32 where "UOP_ISUB = 28"
definition UOP_IMUL :: u32 where "UOP_IMUL = 29"
definition UOP_IDIV :: u32 where "UOP_IDIV = 30"
definition UOP_IMOD :: u32 where "UOP_IMOD = 31"
definition UOP_ILT :: u32 where "UOP_ILT = 32"
definition UOP_IAND :: u32 where "UOP_IAND = 33"
definition UOP_IWHERE :: u32 where "UOP_IWHERE = 34"
definition UOP_INVALID :: u32 where "UOP_INVALID = 35"
definition UOP_BUFFER :: u32 where "UOP_BUFFER = 36"
definition UOP_STORE :: u32 where "UOP_STORE = 37"
definition UOP_AFTER :: u32 where "UOP_AFTER = 38"
definition UOP_OPT :: u32 where "UOP_OPT = 39"
definition UOP_IOR :: u32 where "UOP_IOR = 41"
definition UOP_IXOR :: u32 where "UOP_IXOR = 42"
definition UOP_ISHR :: u32 where "UOP_ISHR = 51"
definition UOP_COPY :: u32 where "UOP_COPY = 52"

section \<open>Block sizes\<close>

text \<open>
  The number of cells a node owns, 0 for an atom and for a tag the switch does not know. The
  count of a variable-length node is read from its header cell as 32 bits.
\<close>

type_synonym store = "nat \<Rightarrow> term_w"

definition gc_count_at :: "store \<Rightarrow> nat \<Rightarrow> (u32 \<Rightarrow> u32) \<Rightarrow> u32" where
  "gc_count_at h at sz = (let n_cell = h at in if term_tag n_cell \<noteq> TAG_NUM then 0 else sz (ucast (term_val n_cell)))"

definition gc_uop_size :: "store \<Rightarrow> u32 \<Rightarrow> nat \<Rightarrow> u32" where
  "gc_uop_size h op loc =
     (if op = UOP_CONST then 1
      else if op \<in> {UOP_KERNEL, UOP_ASSIGN} then 2
      else if op \<in> {UOP_NEG, UOP_RECIP, UOP_EXP2, UOP_LOG2, UOP_SQRT, UOP_LOAD} then 1
      else if op = UOP_COPY then 2
      else if op \<in> {UOP_ADD, UOP_MUL, UOP_CMPLT, UOP_CMPEQ} then 2
      else if op \<in> {UOP_CAST, UOP_BITCAST, UOP_INDEX_E, UOP_AFTER, UOP_RANGE, UOP_IADD, UOP_ISUB, UOP_IMUL, UOP_IDIV,
                UOP_IMOD, UOP_ILT, UOP_IAND, UOP_IOR, UOP_IXOR, UOP_ISHR} then 2
      else if op = UOP_INVALID then 1
      else if op \<in> {UOP_IWHERE, UOP_STORE, UOP_OPT} then 3
      else if op = UOP_FLIP then 2
      else if op = UOP_REDUCE then gc_count_at h (loc + 2) (\<lambda>n. 3 + n)
      else if op \<in> {UOP_RESHAPE, UOP_EXPAND, UOP_PERMUTE} then gc_count_at h (loc + 1) (\<lambda>n. 2 + n)
      else if op \<in> {UOP_PAD, UOP_SHRINK} then gc_count_at h (loc + 1) (\<lambda>n. 2 + 2 * n)
      else if op = UOP_BUFFER then gc_count_at h (loc + 2) (\<lambda>n. 3 + n)
      else 0)"

definition gc_node_size :: "store \<Rightarrow> term_w \<Rightarrow> u32" where
  "gc_node_size h t =
     (let tag = term_tag t; loc = unat (term_val t)
      in if tag \<in> {TAG_NUM, TAG_TEN, TAG_REF, TAG_ERA, TAG_ANY, TAG_FVR} then 0
         else if tag \<in> {TAG_LAM, TAG_DUP, TAG_INC, TAG_BRI, TAG_VAR} then 1
         else if tag \<in> {TAG_DP0, TAG_DP1} then (if term_ext t AND DUP_GRAD_FLAG \<noteq> 0 then 3 else 1)
         else if tag \<in> {TAG_APP, TAG_SUP, TAG_OP2, TAG_MAT, TAG_ALO, TAG_EQL, TAG_AND, TAG_OR, TAG_WHEN, TAG_ANN} then 2
         else if tag = TAG_CTR then gc_count_at h loc (\<lambda>n. 1 + n)
         else if tag = TAG_PRI then (if loc = 0 then 0 else gc_count_at h loc (\<lambda>n. 1 + n))
         else if tag = TAG_UOP then gc_uop_size h (term_ext t) loc
         else 0)"

section \<open>Evacuation\<close>

text \<open>The heap with the allocation position of the half copied to.\<close>

type_synonym gc_mem = "store \<times> nat"

definition gc_copy_cells :: "nat \<Rightarrow> nat \<Rightarrow> nat \<Rightarrow> store \<Rightarrow> store" where
  "gc_copy_cells loc dst n h = fold (\<lambda>i h. h(dst + i := h (loc + i))) [0..<n] h"

fun gc_scan_cells :: "(term_w \<Rightarrow> gc_mem \<Rightarrow> (term_w \<times> gc_mem) option) \<Rightarrow> nat \<Rightarrow> nat list \<Rightarrow> gc_mem \<Rightarrow> gc_mem option" where
  "gc_scan_cells ev dst [] m = Some m"
| "gc_scan_cells ev dst (i # is) (h, alloc) =
     do { (t, h', alloc') \<leftarrow> ev (h (dst + i)) (h, alloc);
          gc_scan_cells ev dst is (h'(dst + i := t), alloc') }"

definition gc_evacuate_cells ::
  "(term_w \<Rightarrow> gc_mem \<Rightarrow> (term_w \<times> gc_mem) option) \<Rightarrow> nat \<Rightarrow> nat \<Rightarrow> gc_mem \<Rightarrow> (nat \<times> gc_mem) option" where
  "gc_evacuate_cells ev loc n m =
     (case m of (h, alloc) \<Rightarrow>
        let dst = alloc; h1 = gc_copy_cells loc dst n h; h2 = h1(loc := term_new 0 GC_FWD_TAG 0 (of_nat dst))
        in do { m' \<leftarrow> gc_scan_cells ev dst [0..<n] (h2, alloc + n); Some (dst, m') })"

definition gc_atom_tags :: "u8 list" where
  "gc_atom_tags = [TAG_NUM, TAG_TEN, TAG_REF, TAG_ERA, TAG_ANY, TAG_FVR, GC_FWD_TAG]"

text \<open>from and to are the bounds of the half copied from.\<close>

primrec gc_evacuate :: "nat \<Rightarrow> nat \<Rightarrow> nat \<Rightarrow> term_w \<Rightarrow> gc_mem \<Rightarrow> (term_w \<times> gc_mem) option" where
  "gc_evacuate 0 = (\<lambda>from_start from_end t m. None)"
| "gc_evacuate (Suc k) = (\<lambda>from_start from_end t m.
     if t = 0 then Some (0, m)
     else let tag = term_tag t; loc = unat (term_val t)
       in if tag \<in> set gc_atom_tags then Some (t, m)
          else if tag = TAG_PRI \<and> loc = 0 then Some (t, m)
          else if loc < from_start \<or> loc \<ge> from_end then Some (t, m)
          else let cell0 = fst m loc
            in if term_tag cell0 = GC_FWD_TAG
               then Some (term_new (term_sub_get t) tag (term_ext t) (term_val cell0), m)
               else let n = gc_node_size (fst m) t
                 in if n = 0 then Some (t, m)
                    else do { (new_loc, m') \<leftarrow> gc_evacuate_cells (gc_evacuate k from_start from_end) loc (unat n) m;
                              Some (term_new (term_sub_get t) tag (term_ext t) (of_nat new_loc), m') })"

text \<open>Evacuating the terms of an array in place.\<close>

fun gc_evacuate_all :: "(term_w \<Rightarrow> gc_mem \<Rightarrow> (term_w \<times> gc_mem) option) \<Rightarrow> term_w list \<Rightarrow> gc_mem \<Rightarrow> (term_w list \<times> gc_mem) option" where
  "gc_evacuate_all ev [] m = Some ([], m)"
| "gc_evacuate_all ev (t # ts) m =
     do { (t', m1) \<leftarrow> (if t \<noteq> 0 then ev t m else Some (t, m));
          (ts', m2) \<leftarrow> gc_evacuate_all ev ts m1; Some (t' # ts', m2) }"

section \<open>The shape table\<close>

text \<open>
  A fixed table of slots with linear probing, keyed by a binder position with a book bit and a
  context slot; an insertion into a full table is dropped. A slot is None when it is not occupied.
\<close>

definition LAM_SHAPE_CAP :: nat where "LAM_SHAPE_CAP = 2 ^ 12"
definition LAM_SHAPE_BOOK_BIT :: u64 where "LAM_SHAPE_BOOK_BIT = push_bit 63 1"
definition LAM_SHAPE_CTX_SHIFT :: nat where "LAM_SHAPE_CTX_SHIFT = 56"
definition LAM_SHAPE_CTX_MASK :: u64 where "LAM_SHAPE_CTX_MASK = push_bit LAM_SHAPE_CTX_SHIFT 0xF"

type_synonym 's shapes = "(u64 \<times> 's) option list"

definition lam_shape_ctx_key :: "u64 \<Rightarrow> u64 \<Rightarrow> u64" where
  "lam_shape_ctx_key ctx raw = raw OR push_bit LAM_SHAPE_CTX_SHIFT (ctx AND 0xF)"

definition lam_shape_reset :: "'s shapes" where
  "lam_shape_reset = replicate LAM_SHAPE_CAP None"

definition lam_shape_hash :: "u64 \<Rightarrow> nat" where
  "lam_shape_hash key0 =
     (let key = key0 XOR drop_bit 33 key0; key = key * 0xff51afd7ed558ccd;
          key = key XOR drop_bit 33 key; key = key * 0xc4ceb9fe1a85ec53; key = key XOR drop_bit 33 key
      in unat (ucast key AND of_nat (LAM_SHAPE_CAP - 1) :: u32))"

fun lam_shape_set_loop :: "nat list \<Rightarrow> nat \<Rightarrow> u64 \<Rightarrow> 's \<Rightarrow> 's shapes \<Rightarrow> 's shapes" where
  "lam_shape_set_loop [] hash key shape tab = tab"
| "lam_shape_set_loop (probe # ps) hash key shape tab =
     (let i = (hash + probe) AND (LAM_SHAPE_CAP - 1)
      in case tab ! i of
           None \<Rightarrow> tab[i := Some (key, shape)]
         | Some (key', shape') \<Rightarrow>
             if key' = key then tab[i := Some (key, shape)] else lam_shape_set_loop ps hash key shape tab)"

definition lam_shape_set_keyed :: "u64 \<Rightarrow> 's \<Rightarrow> 's shapes \<Rightarrow> 's shapes" where
  "lam_shape_set_keyed key shape tab = lam_shape_set_loop [0..<LAM_SHAPE_CAP] (lam_shape_hash key) key shape tab"

fun lam_shape_lookup_loop :: "nat list \<Rightarrow> nat \<Rightarrow> u64 \<Rightarrow> 's shapes \<Rightarrow> 's option" where
  "lam_shape_lookup_loop [] hash key tab = None"
| "lam_shape_lookup_loop (probe # ps) hash key tab =
     (case tab ! ((hash + probe) AND (LAM_SHAPE_CAP - 1)) of
        None \<Rightarrow> None
      | Some (key', shape') \<Rightarrow> if key' = key then Some shape' else lam_shape_lookup_loop ps hash key tab)"

definition lam_shape_lookup_keyed :: "u64 \<Rightarrow> 's shapes \<Rightarrow> 's option" where
  "lam_shape_lookup_keyed key tab = lam_shape_lookup_loop [0..<LAM_SHAPE_CAP] (lam_shape_hash key) key tab"

definition lam_shape_set :: "u64 \<Rightarrow> u64 \<Rightarrow> 's \<Rightarrow> 's shapes \<Rightarrow> 's shapes" where
  "lam_shape_set ctx lam_loc shape = lam_shape_set_keyed (lam_shape_ctx_key ctx lam_loc) shape"

definition lam_shape_lookup :: "u64 \<Rightarrow> u64 \<Rightarrow> 's shapes \<Rightarrow> 's option" where
  "lam_shape_lookup ctx lam_loc = lam_shape_lookup_keyed (lam_shape_ctx_key ctx lam_loc)"

definition lam_shape_set_book :: "u64 \<Rightarrow> u64 \<Rightarrow> 's \<Rightarrow> 's shapes \<Rightarrow> 's shapes" where
  "lam_shape_set_book ctx book_loc shape = lam_shape_set_keyed (lam_shape_ctx_key ctx book_loc OR LAM_SHAPE_BOOK_BIT) shape"

definition lam_shape_lookup_book :: "u64 \<Rightarrow> u64 \<Rightarrow> 's shapes \<Rightarrow> 's option" where
  "lam_shape_lookup_book ctx book_loc = lam_shape_lookup_keyed (lam_shape_ctx_key ctx book_loc OR LAM_SHAPE_BOOK_BIT)"

text \<open>Re-keying the entries of the current context by the forward pointers; None drops an entry.\<close>

definition gc_remap_key :: "nat \<Rightarrow> nat \<Rightarrow> u64 \<Rightarrow> store \<Rightarrow> u64 \<Rightarrow> u64 option" where
  "gc_remap_key from_start from_end cur_ctx h key =
     (if key AND LAM_SHAPE_BOOK_BIT \<noteq> 0 then Some key
      else if key AND LAM_SHAPE_CTX_MASK \<noteq> cur_ctx then Some key
      else let loc = key AND NOT LAM_SHAPE_CTX_MASK
        in if unat loc < from_start \<or> unat loc \<ge> from_end then Some key
           else let cell = h (unat loc)
             in if term_tag cell = GC_FWD_TAG then Some (term_val cell OR cur_ctx) else None)"

fun gc_remap_loop :: "(u64 \<Rightarrow> u64 option) \<Rightarrow> 's shapes \<Rightarrow> 's shapes \<Rightarrow> 's shapes" where
  "gc_remap_loop rk [] tab = tab"
| "gc_remap_loop rk (None # snap) tab = gc_remap_loop rk snap tab"
| "gc_remap_loop rk (Some (key, shape) # snap) tab =
     gc_remap_loop rk snap (case rk key of None \<Rightarrow> tab | Some key' \<Rightarrow> lam_shape_set_keyed key' shape tab)"

definition gc_remap_lam_shape :: "nat \<Rightarrow> nat \<Rightarrow> u64 \<Rightarrow> store \<Rightarrow> 's shapes \<Rightarrow> 's shapes" where
  "gc_remap_lam_shape from_start from_end ctx h tab =
     gc_remap_loop (gc_remap_key from_start from_end (push_bit LAM_SHAPE_CTX_SHIFT (ctx AND 0xF)) h) tab lam_shape_reset"

section \<open>The collection\<close>

text \<open>
  The collector's variables, and the tables outside the heap that hold terms: pinned terms, pin
  handles (an empty list when the array is not allocated), definitions, the frames of a suspended
  reduction and the terms of the kernel entries.
\<close>

record gc_state =
  gc_heap :: store
  gc_next :: nat
  gc_enabled :: bool
  gc_space_sz :: nat
  gc_from_start :: nat
  gc_from_end :: nat
  gc_to_start :: nat
  gc_to_end :: nat
  gc_collections :: nat

record kernel_terms =
  ke_source_uop :: term_w
  ke_compute_bufferize :: term_w
  ke_store_root :: term_w
  ke_init_root :: term_w
  ke_out_buf :: term_w
  ke_in_bufs :: "term_w list"
  ke_input_terms :: "term_w list"

record 's gc_tables =
  extern_pinned_terms :: "term_w list"
  extern_pin_handles :: "term_w list"
  gc_defs :: "term_w list"
  wnf_last_stack :: "term_w list"
  gc_kernels :: "kernel_terms list"
  lam_shapes :: "'s shapes"

definition gc_reset :: "gc_state \<Rightarrow> gc_state" where
  "gc_reset s = s\<lparr>gc_enabled := False, gc_space_sz := 0, gc_from_start := 0, gc_from_end := 0,
     gc_to_start := 0, gc_to_end := 0, gc_collections := 0\<rparr>"

definition gc_init :: "nat \<Rightarrow> nat \<Rightarrow> gc_state \<Rightarrow> gc_state option" where
  "gc_init heap_cells space_words s =
     (if 2 * space_words > heap_cells then None
      else Some (s\<lparr>gc_enabled := True, gc_space_sz := space_words, gc_from_start := 0, gc_from_end := space_words,
        gc_to_start := space_words, gc_to_end := 2 * space_words, gc_collections := 0, gc_next := 0\<rparr>))"

text \<open>heap_alloc (src/heap/alloc.c): the limit is the end of the half in use.\<close>

definition gc_heap_alloc :: "nat \<Rightarrow> nat \<Rightarrow> gc_state \<Rightarrow> (nat \<times> gc_state) option" where
  "gc_heap_alloc heap_cells n s =
     (let cap = (if gc_enabled s then gc_from_end s else heap_cells); at = gc_next s; s' = s\<lparr>gc_next := at + n\<rparr>
      in if at + n > cap then None else Some (at, s'))"

definition gc_evacuate_kernel ::
  "(term_w \<Rightarrow> gc_mem \<Rightarrow> (term_w \<times> gc_mem) option) \<Rightarrow> kernel_terms \<Rightarrow> gc_mem \<Rightarrow> (kernel_terms \<times> gc_mem) option" where
  "gc_evacuate_kernel ev ke m =
     do { (ts, m1) \<leftarrow> gc_evacuate_all ev [ke_source_uop ke, ke_compute_bufferize ke, ke_store_root ke, ke_init_root ke, ke_out_buf ke] m;
          (ins, m2) \<leftarrow> gc_evacuate_all ev (ke_in_bufs ke) m1;
          (terms, m3) \<leftarrow> gc_evacuate_all ev (ke_input_terms ke) m2;
          Some (\<lparr>ke_source_uop = ts ! 0, ke_compute_bufferize = ts ! 1, ke_store_root = ts ! 2, ke_init_root = ts ! 3,
                 ke_out_buf = ts ! 4, ke_in_bufs = ins, ke_input_terms = terms\<rparr>, m3) }"

fun gc_evacuate_kernels ::
  "(term_w \<Rightarrow> gc_mem \<Rightarrow> (term_w \<times> gc_mem) option) \<Rightarrow> kernel_terms list \<Rightarrow> gc_mem \<Rightarrow> (kernel_terms list \<times> gc_mem) option" where
  "gc_evacuate_kernels ev [] m = Some ([], m)"
| "gc_evacuate_kernels ev (ke # kes) m =
     do { (ke', m1) \<leftarrow> gc_evacuate_kernel ev ke m; (kes', m2) \<leftarrow> gc_evacuate_kernels ev kes m1; Some (ke' # kes', m2) }"

definition gc_evacuate_side_tables ::
  "(term_w \<Rightarrow> gc_mem \<Rightarrow> (term_w \<times> gc_mem) option) \<Rightarrow> 's gc_tables \<Rightarrow> gc_mem \<Rightarrow> ('s gc_tables \<times> gc_mem) option" where
  "gc_evacuate_side_tables ev tb m =
     do { (pins, m1) \<leftarrow> gc_evacuate_all ev (extern_pinned_terms tb) m;
          (handles, m2) \<leftarrow> gc_evacuate_all ev (extern_pin_handles tb) m1;
          (defs, m3) \<leftarrow> gc_evacuate_all ev (gc_defs tb) m2;
          (stack, m4) \<leftarrow> gc_evacuate_all ev (wnf_last_stack tb) m3;
          (kernels, m5) \<leftarrow> gc_evacuate_kernels ev (gc_kernels tb) m4;
          Some (tb\<lparr>extern_pinned_terms := pins, extern_pin_handles := handles, gc_defs := defs,
                   wnf_last_stack := stack, gc_kernels := kernels\<rparr>, m5) }"

definition gc_collect ::
  "nat \<Rightarrow> u64 \<Rightarrow> term_w list \<Rightarrow> 's gc_tables \<Rightarrow> gc_state \<Rightarrow> (term_w list \<times> 's gc_tables \<times> gc_state) option" where
  "gc_collect fuel ctx roots tb s =
     (if \<not> gc_enabled s then Some (roots, tb, s)
      else let ev = gc_evacuate fuel (gc_from_start s) (gc_from_end s)
        in do { (roots', m1) \<leftarrow> gc_evacuate_all ev roots (gc_heap s, gc_to_start s);
                (tb', h, alloc) \<leftarrow> gc_evacuate_side_tables ev tb m1;
                Some (roots',
                  tb'\<lparr>lam_shapes := gc_remap_lam_shape (gc_from_start s) (gc_from_end s) ctx h (lam_shapes tb')\<rparr>,
                  s\<lparr>gc_heap := h, gc_next := alloc, gc_collections := gc_collections s + 1,
                    gc_from_start := gc_to_start s, gc_from_end := gc_to_end s,
                    gc_to_start := gc_from_start s, gc_to_end := gc_from_end s\<rparr>) })"

end
