(* ===== verification/GC_Props.thy ===== *)
theory GC_Props
  imports GC_Heap
begin

text \<open>
  What a collection does: it copies the blocks the roots reach, each once, to positions of the
  other half that do not overlap, and every reference moves with its block.
\<close>

section \<open>Well-formed heaps\<close>

text \<open>The terms that a collection moves: references into the half copied from.\<close>

definition gc_moves :: "nat \<Rightarrow> nat \<Rightarrow> term_w \<Rightarrow> bool" where
  "gc_moves fs fe t \<longleftrightarrow> t \<noteq> 0 \<and> term_tag t \<notin> set gc_atom_tags \<and> \<not> (term_tag t = TAG_PRI \<and> unat (term_val t) = 0)
     \<and> fs \<le> unat (term_val t) \<and> unat (term_val t) < fe"

text \<open>The number of cells that are read to find the size of a node.\<close>

definition gc_header :: "term_w \<Rightarrow> nat" where
  "gc_header t =
     (if term_tag t \<in> {TAG_CTR, TAG_PRI} then 1
      else if term_tag t = TAG_UOP \<and> term_ext t \<in> {UOP_REDUCE, UOP_BUFFER} then 3
      else if term_tag t = TAG_UOP \<and> term_ext t \<in> {UOP_RESHAPE, UOP_EXPAND, UOP_PERMUTE, UOP_PAD, UOP_SHRINK} then 2
      else 0)"

text \<open>
  The blocks of the heap, their sizes by position: a moving reference points at the start of a
  block of the size that its tag and header give, and the block holds the header.
\<close>

definition ref_ok :: "nat \<Rightarrow> nat \<Rightarrow> (nat \<rightharpoonup> nat) \<Rightarrow> store \<Rightarrow> term_w \<Rightarrow> bool" where
  "ref_ok fs fe B h t \<longleftrightarrow> (gc_moves fs fe t \<longrightarrow>
     B (unat (term_val t)) = Some (unat (gc_node_size h t)) \<and> gc_header t \<le> unat (gc_node_size h t))"

definition gc_wf :: "nat \<Rightarrow> nat \<Rightarrow> (nat \<rightharpoonup> nat) \<Rightarrow> store \<Rightarrow> bool" where
  "gc_wf fs fe B h \<longleftrightarrow>
     (\<forall>l n. B l = Some n \<longrightarrow> fs \<le> l \<and> 0 < n \<and> l + n \<le> fe)
     \<and> (\<forall>l n l' n'. B l = Some n \<longrightarrow> B l' = Some n' \<longrightarrow> l < l' \<longrightarrow> l + n \<le> l')
     \<and> (\<forall>l n i. B l = Some n \<longrightarrow> i < n \<longrightarrow> term_tag (h (l + i)) \<noteq> GC_FWD_TAG \<and> ref_ok fs fe B h (h (l + i)))"

definition reloc :: "nat \<Rightarrow> nat \<Rightarrow> (nat \<Rightarrow> nat) \<Rightarrow> term_w \<Rightarrow> term_w" where
  "reloc fs fe \<phi> t = (if gc_moves fs fe t
     then term_new (term_sub_get t) (term_tag t) (term_ext t) (of_nat (\<phi> (unat (term_val t)))) else t)"

definition size_of :: "(nat \<rightharpoonup> nat) \<Rightarrow> nat \<Rightarrow> nat" where
  "size_of B l = the (B l)"

lemma wf_block:
  assumes "gc_wf fs fe B h" and "l \<in> dom B"
  shows "fs \<le> l" "0 < size_of B l" "l + size_of B l \<le> fe" "l < fe"
  using assms by (fastforce simp: gc_wf_def size_of_def)+

lemma wf_disjoint:
  assumes "gc_wf fs fe B h" and "l \<in> dom B" "l' \<in> dom B" and "l \<noteq> l'"
  shows "{l..<l + size_of B l} \<inter> {l'..<l' + size_of B l'} = {}"
proof -
  obtain n n' where "B l = Some n" "B l' = Some n'" using assms by blast
  moreover have "l < l' \<or> l' < l" using assms(4) by linarith
  ultimately have "l + n \<le> l' \<or> l' + n' \<le> l" using assms(1) unfolding gc_wf_def by blast
  then show ?thesis using \<open>B l = _\<close> \<open>B l' = _\<close> by (auto simp: size_of_def)
qed

lemma wf_cell:
  assumes "gc_wf fs fe B h" and "l \<in> dom B" and "i < size_of B l"
  shows "term_tag (h (l + i)) \<noteq> GC_FWD_TAG" "ref_ok fs fe B h (h (l + i))"
  using assms by (force simp: gc_wf_def size_of_def)+

lemma wf_finite: "gc_wf fs fe B h \<Longrightarrow> finite (dom B)"
  by (rule finite_subset [of _ "{fs..<fe}"]) (use wf_block in fastforce)+

lemma wf_total_size:
  assumes "gc_wf fs fe B h" and "S \<subseteq> dom B"
  shows "(\<Sum>l \<in> S. size_of B l) \<le> fe - fs"
proof -
  have fin: "finite S" using wf_finite [OF assms(1)] assms(2) finite_subset by blast
  have "(\<Sum>l \<in> S. size_of B l) = (\<Sum>l \<in> S. card {l..<l + size_of B l})" by simp
  also have "\<dots> = card (\<Union>l \<in> S. {l..<l + size_of B l})"
    by (rule card_UN_disjoint [symmetric]) (use fin wf_disjoint [OF assms(1)] assms(2) in blast)+
  also have "\<dots> \<le> card {fs..<fe}"
    by (rule card_mono) (use wf_block [OF assms(1)] assms(2) in fastforce)+
  finally show ?thesis by simp
qed

text \<open>Only the header is read to find a size.\<close>

lemma uop_size_cong:
  assumes "\<And>f. op \<in> {UOP_REDUCE, UOP_BUFFER} \<Longrightarrow> gc_count_at h' (loc' + 2) f = gc_count_at h (loc + 2) f"
    and "\<And>f. op \<in> {UOP_RESHAPE, UOP_EXPAND, UOP_PERMUTE, UOP_PAD, UOP_SHRINK} \<Longrightarrow> gc_count_at h' (loc' + 1) f = gc_count_at h (loc + 1) f"
  shows "gc_uop_size h' op loc' = gc_uop_size h op loc"
  unfolding gc_uop_size_def by (intro if_cong refl) (use assms in auto)

lemma uop_header:
  assumes "term_tag t = TAG_UOP"
  shows "term_ext t \<in> {UOP_REDUCE, UOP_BUFFER} \<Longrightarrow> gc_header t = 3"
    and "term_ext t \<in> {UOP_RESHAPE, UOP_EXPAND, UOP_PERMUTE, UOP_PAD, UOP_SHRINK} \<Longrightarrow> 1 < gc_header t"
proof -
  have ne: "TAG_UOP \<notin> {TAG_CTR, TAG_PRI}" by (simp add: gc_tag_defs)
  show "term_ext t \<in> {UOP_REDUCE, UOP_BUFFER} \<Longrightarrow> gc_header t = 3" using assms ne by (simp add: gc_header_def)
  show "term_ext t \<in> {UOP_RESHAPE, UOP_EXPAND, UOP_PERMUTE, UOP_PAD, UOP_SHRINK} \<Longrightarrow> 1 < gc_header t"
    using assms ne by (simp add: gc_header_def)
qed

lemma node_size_cong:
  assumes "\<And>i. i < gc_header t \<Longrightarrow> h' (unat (term_val t) + i) = h (unat (term_val t) + i)"
  shows "gc_node_size h' t = gc_node_size h t"
proof -
  let ?loc = "unat (term_val t)"
  have ctr: "h' ?loc = h ?loc" if "term_tag t = TAG_CTR \<or> term_tag t = TAG_PRI"
    using assms [of 0] that by (auto simp: gc_header_def)
  have uop: "gc_uop_size h' (term_ext t) ?loc = gc_uop_size h (term_ext t) ?loc" if u: "term_tag t = TAG_UOP"
  proof (rule uop_size_cong)
    show "gc_count_at h' (?loc + 2) f = gc_count_at h (?loc + 2) f" if "term_ext t \<in> {UOP_REDUCE, UOP_BUFFER}" for f
      using assms [of 2] uop_header(1) [OF u that] by (simp add: gc_count_at_def)
    show "gc_count_at h' (?loc + 1) f = gc_count_at h (?loc + 1) f"
      if "term_ext t \<in> {UOP_RESHAPE, UOP_EXPAND, UOP_PERMUTE, UOP_PAD, UOP_SHRINK}" for f
      using assms [OF uop_header(2) [OF u that]] by (simp add: gc_count_at_def)
  qed
  show ?thesis
    unfolding gc_node_size_def Let_def gc_count_at_def by (intro if_cong refl) (use ctr uop in auto)
qed

section \<open>The terms of the tables\<close>

definition ke_fields :: "kernel_terms \<Rightarrow> term_w list" where
  "ke_fields ke = [ke_source_uop ke, ke_compute_bufferize ke, ke_store_root ke, ke_init_root ke, ke_out_buf ke]"

definition kernel_list :: "kernel_terms \<Rightarrow> term_w list" where
  "kernel_list ke = ke_fields ke @ ke_in_bufs ke @ ke_input_terms ke"

definition map_kernel :: "(term_w \<Rightarrow> term_w) \<Rightarrow> kernel_terms \<Rightarrow> kernel_terms" where
  "map_kernel f ke = \<lparr>ke_source_uop = f (ke_source_uop ke), ke_compute_bufferize = f (ke_compute_bufferize ke),
     ke_store_root = f (ke_store_root ke), ke_init_root = f (ke_init_root ke), ke_out_buf = f (ke_out_buf ke),
     ke_in_bufs = map f (ke_in_bufs ke), ke_input_terms = map f (ke_input_terms ke)\<rparr>"

definition table_terms :: "'s gc_tables \<Rightarrow> term_w list" where
  "table_terms tb = extern_pinned_terms tb @ extern_pin_handles tb @ gc_defs tb @ wnf_last_stack tb
     @ concat (map kernel_list (gc_kernels tb))"

definition map_tables :: "(term_w \<Rightarrow> term_w) \<Rightarrow> 's gc_tables \<Rightarrow> 's gc_tables" where
  "map_tables f tb = tb\<lparr>extern_pinned_terms := map f (extern_pinned_terms tb), extern_pin_handles := map f (extern_pin_handles tb),
     gc_defs := map f (gc_defs tb), wnf_last_stack := map f (wnf_last_stack tb), gc_kernels := map (map_kernel f) (gc_kernels tb)\<rparr>"

section \<open>The invariant of a collection\<close>

text \<open>
  S is the set of blocks moved so far and phi their new positions. In the half copied from, only
  the first cells of moved blocks have changed, to forward pointers; the new blocks are laid out
  without overlap up to the allocation position.
\<close>

locale gc_space =
  fixes fs fe ts te :: nat and B :: "nat \<rightharpoonup> nat" and h0 :: store
  assumes wf: "gc_wf fs fe B h0"
    and apart: "fe \<le> ts \<or> te \<le> fs" and same: "te - ts = fe - fs" and room: "te \<le> 2 ^ 38" and le: "ts \<le> te"
begin

abbreviation moves :: "term_w \<Rightarrow> bool" where "moves \<equiv> gc_moves fs fe"
abbreviation sz :: "nat \<Rightarrow> nat" where "sz \<equiv> size_of B"
abbreviation tgt :: "term_w \<Rightarrow> nat" where "tgt t \<equiv> unat (term_val t)"
abbreviation rl :: "(nat \<Rightarrow> nat) \<Rightarrow> term_w \<Rightarrow> term_w" where "rl \<equiv> reloc fs fe"

definition ginv :: "nat set \<Rightarrow> (nat \<Rightarrow> nat) \<Rightarrow> store \<Rightarrow> nat \<Rightarrow> bool" where
  "ginv S \<phi> h a \<longleftrightarrow> S \<subseteq> dom B \<and> (\<forall>x. fs \<le> x \<longrightarrow> x < fe \<longrightarrow> x \<notin> S \<longrightarrow> h x = h0 x)
     \<and> (\<forall>l \<in> S. h l = term_new 0 GC_FWD_TAG 0 (of_nat (\<phi> l)) \<and> ts \<le> \<phi> l \<and> \<phi> l + sz l \<le> a)
     \<and> (\<forall>l \<in> S. \<forall>l' \<in> S. l \<noteq> l' \<longrightarrow> {\<phi> l..<\<phi> l + sz l} \<inter> {\<phi> l'..<\<phi> l' + sz l'} = {})
     \<and> a = ts + (\<Sum>l \<in> S. sz l)"

text \<open>What a stretch of the collection adds: the blocks it moved are complete, nothing else changed.\<close>

definition gstep :: "nat set \<Rightarrow> nat set \<Rightarrow> (nat \<Rightarrow> nat) \<Rightarrow> store \<Rightarrow> nat \<Rightarrow> nat set \<Rightarrow> (nat \<Rightarrow> nat) \<Rightarrow> store \<Rightarrow> nat \<Rightarrow> bool" where
  "gstep X S \<phi> h a S' \<phi>' h' a' \<longleftrightarrow> S \<subseteq> S' \<and> (\<forall>l \<in> S. \<phi>' l = \<phi> l) \<and> a \<le> a'
     \<and> (\<forall>x. \<not> (fs \<le> x \<and> x < fe) \<longrightarrow> x \<notin> X \<longrightarrow> \<not> (a \<le> x \<and> x < a') \<longrightarrow> h' x = h x)
     \<and> (\<forall>l \<in> S' - S. a \<le> \<phi>' l \<and> (\<forall>i < sz l. h' (\<phi>' l + i) = rl \<phi>' (h0 (l + i)) \<and> (moves (h0 (l + i)) \<longrightarrow> tgt (h0 (l + i)) \<in> S')))"

definition done_ref :: "nat set \<Rightarrow> (nat \<Rightarrow> nat) \<Rightarrow> term_w \<Rightarrow> term_w \<Rightarrow> bool" where
  "done_ref S \<phi> t t' \<longleftrightarrow> t' = rl \<phi> t \<and> (moves t \<longrightarrow> tgt t \<in> S)"

lemma ginv_bound:
  assumes "ginv S \<phi> h a"
  shows "a \<le> te"
  using assms wf_total_size [OF wf, of S] same le unfolding ginv_def by linarith

lemma gstep_refl: "gstep X S \<phi> h a S \<phi> h a"
  by (simp add: gstep_def)

lemma rl_agree: "(moves t \<longrightarrow> tgt t \<in> S) \<Longrightarrow> \<forall>l \<in> S. \<phi>' l = \<phi> l \<Longrightarrow> rl \<phi>' t = rl \<phi> t"
  by (simp add: reloc_def)

lemma done_ref_mono: "done_ref S \<phi> t t' \<Longrightarrow> S \<subseteq> S' \<Longrightarrow> \<forall>l \<in> S. \<phi>' l = \<phi> l \<Longrightarrow> done_ref S' \<phi>' t t'"
  using rl_agree [of t S \<phi>' \<phi>] by (auto simp: done_ref_def)

lemma to_not_from: "ts \<le> x \<Longrightarrow> x < te \<Longrightarrow> \<not> (fs \<le> x \<and> x < fe)"
  using apart by linarith

lemma gstep_trans:
  assumes s1: "gstep X S \<phi> h a S1 \<phi>1 h1 a1" and s2: "gstep Y S1 \<phi>1 h1 a1 S2 \<phi>2 h2 a2"
    and i1: "ginv S1 \<phi>1 h1 a1" and X: "\<forall>x \<in> Y. x < a"
    and ts: "ts \<le> a"
  shows "gstep (X \<union> Y) S \<phi> h a S2 \<phi>2 h2 a2"
proof -
  have sub: "S \<subseteq> S1" "S1 \<subseteq> S2" "a \<le> a1" "a1 \<le> a2" and agree: "\<forall>l \<in> S1. \<phi>2 l = \<phi>1 l"
    using s1 s2 by (auto simp: gstep_def)
  have new: "a \<le> \<phi>2 l \<and> (\<forall>i < sz l. h2 (\<phi>2 l + i) = rl \<phi>2 (h0 (l + i)) \<and> (moves (h0 (l + i)) \<longrightarrow> tgt (h0 (l + i)) \<in> S2))"
    if l: "l \<in> S2 - S" for l
  proof (cases "l \<in> S1")
    case True
    then have o: "a \<le> \<phi>1 l" "\<forall>i < sz l. h1 (\<phi>1 l + i) = rl \<phi>1 (h0 (l + i)) \<and> (moves (h0 (l + i)) \<longrightarrow> tgt (h0 (l + i)) \<in> S1)"
      using s1 l by (auto simp: gstep_def)
    have b: "\<phi>1 l + sz l \<le> a1" using i1 True by (auto simp: ginv_def)
    have "h2 (\<phi>2 l + i) = rl \<phi>2 (h0 (l + i)) \<and> (moves (h0 (l + i)) \<longrightarrow> tgt (h0 (l + i)) \<in> S2)" if i: "i < sz l" for i
    proof -
      let ?x = "\<phi>1 l + i"
      have x: "a \<le> ?x" "?x < a1" using o(1) b i by auto
      then have "\<not> (fs \<le> ?x \<and> ?x < fe)" using to_not_from [of ?x] ginv_bound [OF i1] ts by linarith
      moreover have "?x \<notin> Y" using X x by fastforce
      ultimately have "h2 ?x = h1 ?x" using s2 x by (auto simp: gstep_def)
      then show ?thesis using o(2) i True agree sub(2) rl_agree [of "h0 (l + i)" S1 \<phi>2 \<phi>1] by auto
    qed
    then show ?thesis using o(1) True agree by auto
  next
    case False
    then have "a1 \<le> \<phi>2 l" "\<forall>i < sz l. h2 (\<phi>2 l + i) = rl \<phi>2 (h0 (l + i)) \<and> (moves (h0 (l + i)) \<longrightarrow> tgt (h0 (l + i)) \<in> S2)"
      using s2 l by (auto simp: gstep_def)
    then show ?thesis using sub(3) order_trans by blast
  qed
  have frame: "h2 x = h x" if "\<not> (fs \<le> x \<and> x < fe)" "x \<notin> X \<union> Y" "\<not> (a \<le> x \<and> x < a2)" for x
  proof -
    have "h2 x = h1 x" using s2 that sub(3) unfolding gstep_def by (metis UnCI order_trans)
    also have "\<dots> = h x" using s1 that sub(4) unfolding gstep_def by (metis UnCI order_less_le_trans)
    finally show ?thesis .
  qed
  show ?thesis
    unfolding gstep_def
    using sub agree s1 frame new by (auto simp: gstep_def)
qed


section \<open>Evacuation\<close>

text \<open>What the collector promises of one term, for a heap with fewer than c blocks left to move.\<close>

definition evacuates :: "(term_w \<Rightarrow> gc_mem \<Rightarrow> (term_w \<times> gc_mem) option) \<Rightarrow> nat \<Rightarrow> bool" where
  "evacuates ev c \<longleftrightarrow> (\<forall>t h a S \<phi>. ginv S \<phi> h a \<longrightarrow> ref_ok fs fe B h0 t \<longrightarrow> card (dom B - S) < c \<longrightarrow>
     (\<exists>t' h' a' S' \<phi>'. ev t (h, a) = Some (t', h', a') \<and> ginv S' \<phi>' h' a' \<and> gstep {} S \<phi> h a S' \<phi>' h' a' \<and> done_ref S' \<phi>' t t'))"

lemma evacuatesD:
  assumes "evacuates ev c" and "ginv S \<phi> h a" and "ref_ok fs fe B h0 t" and "card (dom B - S) < c"
  obtains t' h' a' S' \<phi>' where "ev t (h, a) = Some (t', h', a')" "ginv S' \<phi>' h' a'" "gstep {} S \<phi> h a S' \<phi>' h' a'" "done_ref S' \<phi>' t t'"
  using assms unfolding evacuates_def by blast

lemma left_mono: "S \<subseteq> S' \<Longrightarrow> card (dom B - S') \<le> card (dom B - S)"
  using wf_finite [OF wf] by (intro card_mono) auto

lemma ginv_cong:
  assumes "ginv S \<phi> h a" and "\<And>x. fs \<le> x \<Longrightarrow> x < fe \<Longrightarrow> h' x = h x"
  shows "ginv S \<phi> h' a"
proof -
  have "S \<subseteq> dom B" using assms(1) by (simp add: ginv_def)
  then have S: "h' l = h l" if "l \<in> S" for l using assms(2) [of l] wf_block [OF wf, of l] that by blast
  have "\<forall>x. fs \<le> x \<longrightarrow> x < fe \<longrightarrow> x \<notin> S \<longrightarrow> h' x = h0 x" using assms by (simp add: ginv_def)
  moreover have "\<forall>l \<in> S. h' l = term_new 0 GC_FWD_TAG 0 (of_nat (\<phi> l)) \<and> ts \<le> \<phi> l \<and> \<phi> l + sz l \<le> a"
    using assms(1) unfolding ginv_def by (metis S)
  ultimately show ?thesis using assms(1) unfolding ginv_def by blast
qed

lemma ginv_write: "ginv S \<phi> h a \<Longrightarrow> \<not> (fs \<le> x \<and> x < fe) \<Longrightarrow> ginv S \<phi> (h(x := t)) a"
  by (erule ginv_cong) auto

lemma scan_spec:
  assumes ev: "evacuates ev c" and "ginv S \<phi> h a" and "card (dom B - S) < c" and "distinct is"
    and "\<forall>i \<in> set is. h (dst + i) = h0 (loc + i) \<and> ref_ok fs fe B h0 (h0 (loc + i)) \<and> ts \<le> dst + i \<and> dst + i < a"
    and "ts \<le> a"
  shows "\<exists>h' a' S' \<phi>'. gc_scan_cells ev dst is (h, a) = Some (h', a') \<and> ginv S' \<phi>' h' a'
    \<and> gstep ((\<lambda>i. dst + i) ` set is) S \<phi> h a S' \<phi>' h' a' \<and> (\<forall>i \<in> set is. done_ref S' \<phi>' (h0 (loc + i)) (h' (dst + i)))"
  using assms(2-)
proof (induction "is" arbitrary: S \<phi> h a)
  case Nil
  then show ?case using gstep_refl [of _ S \<phi> h a] by (intro exI [of _ h] exI [of _ a] exI [of _ S] exI [of _ \<phi>]) simp
next
  case (Cons i "is")
  let ?x = "dst + i"
  have c: "h ?x = h0 (loc + i)" "ref_ok fs fe B h0 (h0 (loc + i))" "ts \<le> ?x" "?x < a" using Cons.prems(4) by auto
  obtain t1 h1 a1 S1 \<phi>1 where e: "ev (h ?x) (h, a) = Some (t1, h1, a1)" "ginv S1 \<phi>1 h1 a1" "gstep {} S \<phi> h a S1 \<phi>1 h1 a1"
      "done_ref S1 \<phi>1 (h0 (loc + i)) t1"
    using evacuatesD [OF ev Cons.prems(1) c(2) Cons.prems(2)] c(1) by metis
  let ?h1 = "h1(?x := t1)"
  have below: "\<not> (fs \<le> y \<and> y < fe)" if "ts \<le> y" "y < a" for y
    using to_not_from [OF that(1)] that(2) ginv_bound [OF Cons.prems(1)] by linarith
  have g1: "ginv S1 \<phi>1 ?h1 a1" by (rule ginv_write [OF e(2) below [OF c(3,4)]])
  have st1: "gstep {?x} S \<phi> h a S1 \<phi>1 ?h1 a1"
  proof -
    have new: "\<forall>l \<in> S1 - S. a \<le> \<phi>1 l \<and> (\<forall>i < sz l. h1 (\<phi>1 l + i) = rl \<phi>1 (h0 (l + i)) \<and> (moves (h0 (l + i)) \<longrightarrow> tgt (h0 (l + i)) \<in> S1))"
      using e(3) by (simp add: gstep_def)
    have "\<phi>1 l + j \<noteq> ?x" if "l \<in> S1 - S" for l j
    proof -
      have "a \<le> \<phi>1 l" using new that by blast
      then show ?thesis using c(4) by linarith
    qed
    then have "\<forall>l \<in> S1 - S. a \<le> \<phi>1 l \<and> (\<forall>i < sz l. ?h1 (\<phi>1 l + i) = rl \<phi>1 (h0 (l + i)) \<and> (moves (h0 (l + i)) \<longrightarrow> tgt (h0 (l + i)) \<in> S1))"
      using new by simp
    moreover have "\<forall>x. \<not> (fs \<le> x \<and> x < fe) \<longrightarrow> x \<notin> {?x} \<longrightarrow> \<not> (a \<le> x \<and> x < a1) \<longrightarrow> ?h1 x = h x"
      using e(3) by (simp add: gstep_def)
    ultimately show ?thesis using e(3) unfolding gstep_def by blast
  qed
  have a1: "a \<le> a1" "S \<subseteq> S1" using e(3) by (auto simp: gstep_def)
  have rest: "\<forall>j \<in> set is. ?h1 (dst + j) = h0 (loc + j) \<and> ref_ok fs fe B h0 (h0 (loc + j)) \<and> ts \<le> dst + j \<and> dst + j < a1"
  proof
    fix j assume j: "j \<in> set is"
    then have cj: "h (dst + j) = h0 (loc + j)" "ref_ok fs fe B h0 (h0 (loc + j))" "ts \<le> dst + j" "dst + j < a" and ne: "j \<noteq> i"
      using Cons.prems(3,4) by auto
    have "h1 (dst + j) = h (dst + j)" using e(3) below [OF cj(3,4)] cj(4) unfolding gstep_def by auto
    then show "?h1 (dst + j) = h0 (loc + j) \<and> ref_ok fs fe B h0 (h0 (loc + j)) \<and> ts \<le> dst + j \<and> dst + j < a1"
      using cj ne a1(1) by auto
  qed
  have pre: "card (dom B - S1) < c" "distinct is" "ts \<le> a1"
    using left_mono [OF a1(2)] Cons.prems(2,3,5) a1(1) by auto
  obtain h' a' S' \<phi>' where r: "gc_scan_cells ev dst is (?h1, a1) = Some (h', a')" "ginv S' \<phi>' h' a'"
      "gstep ((\<lambda>i. dst + i) ` set is) S1 \<phi>1 ?h1 a1 S' \<phi>' h' a'" "\<forall>j \<in> set is. done_ref S' \<phi>' (h0 (loc + j)) (h' (dst + j))"
    using Cons.IH [OF g1 pre(1,2) rest pre(3)] by blast
  have "gstep ({?x} \<union> (\<lambda>i. dst + i) ` set is) S \<phi> h a S' \<phi>' h' a'"
    using gstep_trans [OF st1 r(3) g1] Cons.prems(4,5) by auto
  then have "gstep ((\<lambda>i. dst + i) ` set (i # is)) S \<phi> h a S' \<phi>' h' a'" by simp
  moreover have "done_ref S' \<phi>' (h0 (loc + i)) (h' ?x)"
  proof -
    have "?x \<notin> (\<lambda>i. dst + i) ` set is" using Cons.prems(3) by auto
    then have "h' ?x = t1" using r(3) below [OF c(3,4)] c(4) a1(1) by (auto simp: gstep_def)
    then show ?thesis using done_ref_mono [OF e(4)] r(3) by (auto simp: gstep_def)
  qed
  moreover have "gc_scan_cells ev dst (i # is) (h, a) = Some (h', a')" using e(1) r(1) by simp
  ultimately show ?case using r(2,4) by (intro exI conjI) auto
qed

lemma copy_cells:
  assumes "{loc..<loc + n} \<inter> {dst..<dst + n} = {}"
  shows "gc_copy_cells loc dst n h x = (if dst \<le> x \<and> x < dst + n then h (loc + (x - dst)) else h x)"
  using assms
proof (induction n arbitrary: x)
  case 0
  then show ?case by (auto simp: gc_copy_cells_def)
next
  case (Suc n)
  have sub: "{loc..<loc + n} \<inter> {dst..<dst + n} = {}" "loc + n \<notin> {dst..<dst + Suc n}" using Suc.prems by (auto simp: disjoint_iff)
  have "gc_copy_cells loc dst (Suc n) h = (gc_copy_cells loc dst n h)(dst + n := gc_copy_cells loc dst n h (loc + n))"
    by (simp add: gc_copy_cells_def)
  then show ?case using Suc.IH [OF sub(1)] sub(2) by auto
qed

lemma evac_stay: "\<not> moves t \<Longrightarrow> gc_evacuate (Suc k) fs fe t m = Some (t, m)"
  by (auto simp: gc_moves_def Let_def)

lemma evac_moves:
  assumes "moves t"
  shows "gc_evacuate (Suc k) fs fe t (h, a) =
    (if term_tag (h (tgt t)) = GC_FWD_TAG
     then Some (term_new (term_sub_get t) (term_tag t) (term_ext t) (term_val (h (tgt t))), h, a)
     else let n = gc_node_size h t
       in if n = 0 then Some (t, h, a)
          else do { (new_loc, m') \<leftarrow> gc_evacuate_cells (gc_evacuate k fs fe) (tgt t) (unat n) (h, a);
                    Some (term_new (term_sub_get t) (term_tag t) (term_ext t) (of_nat new_loc), m') })"
  using assms by (auto simp: gc_moves_def Let_def)

lemma fwd_cell:
  assumes "ginv S \<phi> h a" and "l \<in> S"
  shows "term_tag (h l) = GC_FWD_TAG" and "term_val (h l) = of_nat (\<phi> l)"
proof -
  have h: "h l = term_new 0 GC_FWD_TAG 0 (of_nat (\<phi> l))" "\<phi> l < 2 ^ 38"
  proof -
    have "\<phi> l + sz l \<le> a" "l \<in> dom B" using assms by (auto simp: ginv_def)
    then show "\<phi> l < 2 ^ 38" using ginv_bound [OF assms(1)] room wf_block(2) [OF wf, of l] by linarith
  qed (use assms in \<open>auto simp: ginv_def\<close>)
  show "term_tag (h l) = GC_FWD_TAG" by (simp add: h term_word_simps GC_FWD_TAG_def)
  have "take_bit 38 (of_nat (\<phi> l) :: u64) = of_nat (\<phi> l)"
    using h(2) by (intro take_bit_word_id) (simp add: unat_of_nat)
  then show "term_val (h l) = of_nat (\<phi> l)" by (simp add: h term_word_simps)
qed

lemma block_cells:
  assumes "S \<subseteq> dom B" and "l \<in> dom B" "l \<notin> S" and "i < sz l"
  shows "l + i \<notin> S"
proof
  assume s: "l + i \<in> S"
  then have "i \<noteq> 0" using assms(3) by (cases i) auto
  then have "{l..<l + sz l} \<inter> {l + i..<l + i + sz (l + i)} = {}" using wf_disjoint [OF wf assms(2), of "l + i"] s assms(1) by auto
  moreover have "0 < sz (l + i)" using wf_block(2) [OF wf] s assms(1) by blast
  ultimately show False using assms(4) by (auto simp: disjoint_iff)
qed

text \<open>Copying a block that has not moved yet and leaving the forward pointer.\<close>

lemma open_block:
  assumes g: "ginv S \<phi> h a" and l: "l \<in> dom B" "l \<notin> S"
  defines "h2 \<equiv> (gc_copy_cells l a (sz l) h)(l := term_new 0 GC_FWD_TAG 0 (of_nat a))"
  shows "ginv (insert l S) (\<phi>(l := a)) h2 (a + sz l)" and "\<forall>i < sz l. h2 (a + i) = h0 (l + i)"
    and "a + sz l \<le> te" and "ts \<le> a" and "\<forall>x. \<not> (fs \<le> x \<and> x < fe) \<longrightarrow> \<not> (a \<le> x \<and> x < a + sz l) \<longrightarrow> h2 x = h x"
proof -
  have S: "S \<subseteq> dom B" "finite S" using g wf_finite [OF wf] finite_subset by (auto simp: ginv_def)
  have a: "a = ts + (\<Sum>l \<in> S. sz l)" using g by (simp add: ginv_def)
  then show ta: "ts \<le> a" by simp
  have "(\<Sum>l \<in> insert l S. sz l) \<le> fe - fs" using wf_total_size [OF wf, of "insert l S"] S l by simp
  then show te: "a + sz l \<le> te" using a S(2) l(2) same le by simp
  note b = wf_block [OF wf l(1)]
  have dis: "{l..<l + sz l} \<inter> {a..<a + sz l} = {}" using b ta te apart by (auto simp: disjoint_iff)
  note cp = copy_cells [OF dis, of h]
  have out: "\<not> (fs \<le> x \<and> x < fe)" if "a \<le> x" "x < a + sz l" for x using to_not_from [of x] that ta te by linarith
  show "\<forall>i < sz l. h2 (a + i) = h0 (l + i)"
  proof (intro allI impI)
    fix i assume i: "i < sz l"
    have "h (l + i) = h0 (l + i)" using g b i block_cells [OF S(1) l i] by (auto simp: ginv_def)
    moreover have "a + i \<noteq> l" using out [of "a + i"] i b by auto
    ultimately show "h2 (a + i) = h0 (l + i)" using i cp by (simp add: h2_def)
  qed
  show "\<forall>x. \<not> (fs \<le> x \<and> x < fe) \<longrightarrow> \<not> (a \<le> x \<and> x < a + sz l) \<longrightarrow> h2 x = h x"
    using cp b by (simp add: h2_def)
  have from_h: "h2 x = h x" if "fs \<le> x" "x < fe" "x \<noteq> l" for x using cp out that by (auto simp: h2_def)
  have h2l: "h2 l = term_new 0 GC_FWD_TAG 0 (of_nat a)" by (simp add: h2_def)
  have old: "h2 l' = term_new 0 GC_FWD_TAG 0 (of_nat (\<phi> l')) \<and> ts \<le> \<phi> l' \<and> \<phi> l' + sz l' \<le> a \<and> l' \<noteq> l" if "l' \<in> S" for l'
  proof -
    have "l' \<noteq> l" "fs \<le> l'" "l' < fe" using that l(2) wf_block [OF wf] S(1) by blast+
    then show ?thesis using g that from_h by (auto simp: ginv_def)
  qed
  show "ginv (insert l S) (\<phi>(l := a)) h2 (a + sz l)"
    unfolding ginv_def
  proof (intro conjI)
    show "insert l S \<subseteq> dom B" using S(1) l(1) by simp
    show "\<forall>x. fs \<le> x \<longrightarrow> x < fe \<longrightarrow> x \<notin> insert l S \<longrightarrow> h2 x = h0 x" using g from_h by (simp add: ginv_def)
    show "\<forall>l' \<in> insert l S. h2 l' = term_new 0 GC_FWD_TAG 0 (of_nat ((\<phi>(l := a)) l')) \<and> ts \<le> (\<phi>(l := a)) l' \<and> (\<phi>(l := a)) l' + sz l' \<le> a + sz l"
      using old h2l ta by fastforce
    show "a + sz l = ts + (\<Sum>l' \<in> insert l S. sz l')" using a S(2) l(2) by simp
    show "\<forall>l1 \<in> insert l S. \<forall>l2 \<in> insert l S. l1 \<noteq> l2 \<longrightarrow>
        {(\<phi>(l := a)) l1..<(\<phi>(l := a)) l1 + sz l1} \<inter> {(\<phi>(l := a)) l2..<(\<phi>(l := a)) l2 + sz l2} = {}"
    proof (intro ballI impI)
      fix l1 l2 assume in12: "l1 \<in> insert l S" "l2 \<in> insert l S" and ne: "l1 \<noteq> l2"
      consider "l1 = l" "l2 \<in> S" | "l2 = l" "l1 \<in> S" | "l1 \<in> S" "l2 \<in> S" using in12 ne by blast
      then show "{(\<phi>(l := a)) l1..<(\<phi>(l := a)) l1 + sz l1} \<inter> {(\<phi>(l := a)) l2..<(\<phi>(l := a)) l2 + sz l2} = {}"
      proof cases
        case 3
        then show ?thesis using g ne old by (simp add: ginv_def)
      qed (use old in \<open>fastforce simp: disjoint_iff\<close>)+
    qed
  qed
qed

lemma evac_spec: "evacuates (gc_evacuate k fs fe) k"
proof (induction k)
  case 0
  then show ?case by (simp add: evacuates_def)
next
  case (Suc k)
  show ?case
    unfolding evacuates_def
  proof (intro allI impI)
    fix t h a S \<phi> assume g: "ginv S \<phi> h a" and ok: "ref_ok fs fe B h0 t" and c: "card (dom B - S) < Suc k"
    show "\<exists>t' h' a' S' \<phi>'. gc_evacuate (Suc k) fs fe t (h, a) = Some (t', h', a') \<and> ginv S' \<phi>' h' a'
      \<and> gstep {} S \<phi> h a S' \<phi>' h' a' \<and> done_ref S' \<phi>' t t'"
    proof (cases "moves t")
      case False
      then have "done_ref S \<phi> t t" by (simp add: done_ref_def reloc_def)
      then show ?thesis using evac_stay [OF False] g gstep_refl by blast
    next
      case True
      let ?l = "tgt t"
      have B: "?l \<in> dom B" "sz ?l = unat (gc_node_size h0 t)" "gc_header t \<le> sz ?l"
        using ok True by (auto simp: ref_ok_def size_of_def)
      note b = wf_block [OF wf B(1)]
      show ?thesis
      proof (cases "?l \<in> S")
        case in_S: True
        have "gc_evacuate (Suc k) fs fe t (h, a) = Some (rl \<phi> t, h, a)"
          using fwd_cell [OF g in_S] True by (simp add: evac_moves [OF True] reloc_def del: gc_evacuate.simps)
        moreover have "done_ref S \<phi> t (rl \<phi> t)" using in_S by (simp add: done_ref_def)
        ultimately show ?thesis using g gstep_refl by blast
      next
        case new: False
        have S: "S \<subseteq> dom B" using g by (simp add: ginv_def)
        have cell: "h (?l + i) = h0 (?l + i)" if "i < sz ?l" for i
          using g block_cells [OF S B(1) new that] b that by (auto simp: ginv_def)
        have tag: "term_tag (h ?l) \<noteq> GC_FWD_TAG" using cell [of 0] b(2) wf_cell(1) [OF wf B(1), of 0] by simp
        have size: "gc_node_size h t = gc_node_size h0 t" by (rule node_size_cong) (use cell B(3) in auto)
        have nz: "gc_node_size h0 t \<noteq> 0" using b(2) B(2) by auto
        define h2 where "h2 = (gc_copy_cells ?l a (sz ?l) h)(?l := term_new 0 GC_FWD_TAG 0 (of_nat a))"
        note o = open_block [OF g B(1) new, folded h2_def]
        have less: "card (dom B - insert ?l S) < k"
        proof -
          have "card (dom B - insert ?l S) < card (dom B - S)"
            using wf_finite [OF wf] B(1) new by (intro psubset_card_mono) auto
          then show ?thesis using c by linarith
        qed
        have pre: "\<forall>i \<in> set [0..<sz ?l]. h2 (a + i) = h0 (?l + i) \<and> ref_ok fs fe B h0 (h0 (?l + i)) \<and> ts \<le> a + i \<and> a + i < a + sz ?l"
          using o(2,4) wf_cell(2) [OF wf B(1)] by simp
        have d: "distinct [0..<sz ?l]" "ts \<le> a + sz ?l" using o(4) by auto
        obtain h' a' S' \<phi>' where r: "gc_scan_cells (gc_evacuate k fs fe) a [0..<sz ?l] (h2, a + sz ?l) = Some (h', a')"
            "ginv S' \<phi>' h' a'" "gstep ((\<lambda>i. a + i) ` set [0..<sz ?l]) (insert ?l S) (\<phi>(?l := a)) h2 (a + sz ?l) S' \<phi>' h' a'"
            "\<forall>i \<in> set [0..<sz ?l]. done_ref S' \<phi>' (h0 (?l + i)) (h' (a + i))"
          using scan_spec [OF Suc.IH o(1) less d(1) pre d(2)] by blast
        have sub: "insert ?l S \<subseteq> S'" "a + sz ?l \<le> a'" and agree: "\<phi>' ?l = a" "\<forall>l \<in> S. \<phi>' l = \<phi> l"
          using r(3) new by (auto simp: gstep_def)
        have "gc_evacuate_cells (gc_evacuate k fs fe) ?l (sz ?l) (h, a) = Some (a, h', a')"
          using r(1) by (simp add: gc_evacuate_cells_def Let_def h2_def)
        then have run: "gc_evacuate (Suc k) fs fe t (h, a) = Some (rl \<phi>' t, h', a')"
          using True nz tag by (simp add: evac_moves [OF True] size B(2) [symmetric] reloc_def agree Let_def del: gc_evacuate.simps)
        have frame: "h' x = h x" if "\<not> (fs \<le> x \<and> x < fe)" "\<not> (a \<le> x \<and> x < a')" for x
        proof -
          have "x \<notin> (\<lambda>i. a + i) ` set [0..<sz ?l]" using that sub(2) by auto
          then have "h' x = h2 x" using r(3) that sub(2) unfolding gstep_def by auto
          also have "\<dots> = h x" using o(5) that sub(2) by auto
          finally show ?thesis .
        qed
        have fresh: "a \<le> \<phi>' l \<and> (\<forall>i < sz l. h' (\<phi>' l + i) = rl \<phi>' (h0 (l + i)) \<and> (moves (h0 (l + i)) \<longrightarrow> tgt (h0 (l + i)) \<in> S'))"
          if l: "l \<in> S' - S" for l
        proof (cases "l = ?l")
          case True
          then show ?thesis using r(4) agree(1) by (simp add: done_ref_def)
        next
          case False
          then have "a + sz ?l \<le> \<phi>' l" "\<forall>i < sz l. h' (\<phi>' l + i) = rl \<phi>' (h0 (l + i)) \<and> (moves (h0 (l + i)) \<longrightarrow> tgt (h0 (l + i)) \<in> S')"
            using r(3) l unfolding gstep_def by blast+
          then show ?thesis by simp
        qed
        have "gstep {} S \<phi> h a S' \<phi>' h' a'" unfolding gstep_def using sub agree(2) frame fresh by auto
        moreover have "done_ref S' \<phi>' t (rl \<phi>' t)" using sub(1) by (simp add: done_ref_def)
        ultimately show ?thesis using run r(2) by blast
      qed
    qed
  qed
qed

section \<open>Arrays and tables\<close>

definition gext :: "nat set \<Rightarrow> (nat \<Rightarrow> nat) \<Rightarrow> gc_mem \<Rightarrow> nat set \<Rightarrow> (nat \<Rightarrow> nat) \<Rightarrow> gc_mem \<Rightarrow> bool" where
  "gext S \<phi> m S' \<phi>' m' \<longleftrightarrow> ginv S' \<phi>' (fst m') (snd m') \<and> gstep {} S \<phi> (fst m) (snd m) S' \<phi>' (fst m') (snd m')"

lemma gext_refl: "ginv S \<phi> (fst m) (snd m) \<Longrightarrow> gext S \<phi> m S \<phi> m"
  by (simp add: gext_def gstep_refl)

lemma gext_trans:
  assumes "ginv S \<phi> (fst m) (snd m)" and "gext S \<phi> m S1 \<phi>1 m1" and "gext S1 \<phi>1 m1 S2 \<phi>2 m2"
  shows "gext S \<phi> m S2 \<phi>2 m2"
proof -
  have "ts \<le> snd m" using assms(1) by (simp add: ginv_def)
  then show ?thesis
    using assms gstep_trans [of "{}" S \<phi> "fst m" "snd m" S1 \<phi>1 "fst m1" "snd m1" "{}" S2 \<phi>2 "fst m2" "snd m2"]
    by (simp add: gext_def)
qed

lemma gext_done:
  assumes "gext S1 \<phi>1 m1 S2 \<phi>2 m2" and "list_all2 (done_ref S1 \<phi>1) xs ys"
  shows "list_all2 (done_ref S2 \<phi>2) xs ys"
  using assms(2) by (rule list_all2_mono) (use assms(1) done_ref_mono in \<open>fastforce simp: gext_def gstep_def\<close>)

lemma gext_left: "gext S \<phi> m S' \<phi>' m' \<Longrightarrow> card (dom B - S) < c \<Longrightarrow> card (dom B - S') < c"
  using left_mono [of S S'] by (auto simp: gext_def gstep_def)

lemma all_spec:
  assumes ev: "evacuates ev c" and "\<forall>t \<in> set xs. ref_ok fs fe B h0 t"
    and "ginv S \<phi> (fst m) (snd m)" and "card (dom B - S) < c"
  shows "\<exists>ys m' S' \<phi>'. gc_evacuate_all ev xs m = Some (ys, m') \<and> gext S \<phi> m S' \<phi>' m' \<and> list_all2 (done_ref S' \<phi>') xs ys"
  using assms(2-)
proof (induction xs arbitrary: S \<phi> m)
  case Nil
  then show ?case using gext_refl by fastforce
next
  case (Cons t xs)
  note g = Cons.prems(2) and c = Cons.prems(3)
  have "\<exists>t' m1 S1 \<phi>1. (if t \<noteq> 0 then ev t m else Some (t, m)) = Some (t', m1) \<and> gext S \<phi> m S1 \<phi>1 m1 \<and> done_ref S1 \<phi>1 t t'"
  proof (cases "t = 0")
    case True
    then have "done_ref S \<phi> t t" by (simp add: done_ref_def reloc_def gc_moves_def)
    moreover have "(if t \<noteq> 0 then ev t m else Some (t, m)) = Some (t, m)" using True by simp
    ultimately show ?thesis using gext_refl [OF g] by blast
  next
    case False
    have "ref_ok fs fe B h0 t" using Cons.prems by simp
    from evacuatesD [OF ev g this c] obtain t' h' a' S' \<phi>' where
      "ev t (fst m, snd m) = Some (t', h', a')" "ginv S' \<phi>' h' a'" "gstep {} S \<phi> (fst m) (snd m) S' \<phi>' h' a'" "done_ref S' \<phi>' t t'"
      by blast
    then show ?thesis using False by (intro exI [of _ t'] exI [of _ "(h', a')"] exI [of _ S'] exI [of _ \<phi>']) (simp add: gext_def)
  qed
  then obtain t' m1 S1 \<phi>1 where e: "(if t \<noteq> 0 then ev t m else Some (t, m)) = Some (t', m1)" "gext S \<phi> m S1 \<phi>1 m1" "done_ref S1 \<phi>1 t t'"
    by blast
  have g1: "ginv S1 \<phi>1 (fst m1) (snd m1)" using e(2) by (simp add: gext_def)
  have "\<forall>t \<in> set xs. ref_ok fs fe B h0 t" using Cons.prems(1) by simp
  from Cons.IH [OF this g1 gext_left [OF e(2) c]] obtain r m2 S2 \<phi>2 where r: "gc_evacuate_all ev xs m1 = Some (r, m2)"
      "gext S1 \<phi>1 m1 S2 \<phi>2 m2" "list_all2 (done_ref S2 \<phi>2) xs r"
    by blast
  have "list_all2 (done_ref S2 \<phi>2) [t] [t']" using gext_done [OF r(2), of "[t]" "[t']"] e(3) by simp
  then have "list_all2 (done_ref S2 \<phi>2) (t # xs) (t' # r)" using r(3) by simp
  moreover have "gc_evacuate_all ev (t # xs) m = Some (t' # r, m2)" using e(1) r(1) by simp
  ultimately show ?case using gext_trans [OF g e(2) r(2)] by blast
qed

definition done_kernel :: "nat set \<Rightarrow> (nat \<Rightarrow> nat) \<Rightarrow> kernel_terms \<Rightarrow> kernel_terms \<Rightarrow> bool" where
  "done_kernel S \<phi> ke ke' \<longleftrightarrow> list_all2 (done_ref S \<phi>) (ke_fields ke) (ke_fields ke')
     \<and> list_all2 (done_ref S \<phi>) (ke_in_bufs ke) (ke_in_bufs ke')
     \<and> list_all2 (done_ref S \<phi>) (ke_input_terms ke) (ke_input_terms ke')"

lemma gext_done_kernels: "gext S1 \<phi>1 m1 S2 \<phi>2 m2 \<Longrightarrow> list_all2 (done_kernel S1 \<phi>1) kes kes' \<Longrightarrow> list_all2 (done_kernel S2 \<phi>2) kes kes'"
  by (erule list_all2_mono) (simp add: done_kernel_def gext_done)

lemma kernel_spec:
  assumes ev: "evacuates ev c" and ok: "\<forall>t \<in> set (kernel_list ke). ref_ok fs fe B h0 t"
    and g: "ginv S \<phi> (fst m) (snd m)" and c: "card (dom B - S) < c"
  shows "\<exists>ke' m' S' \<phi>'. gc_evacuate_kernel ev ke m = Some (ke', m') \<and> gext S \<phi> m S' \<phi>' m' \<and> done_kernel S' \<phi>' ke ke'"
proof -
  have ok': "\<forall>t \<in> set (ke_fields ke). ref_ok fs fe B h0 t" "\<forall>t \<in> set (ke_in_bufs ke). ref_ok fs fe B h0 t"
      "\<forall>t \<in> set (ke_input_terms ke). ref_ok fs fe B h0 t"
    using ok by (auto simp: kernel_list_def)
  obtain y1 m1 S1 \<phi>1 where s1: "gc_evacuate_all ev (ke_fields ke) m = Some (y1, m1)" "gext S \<phi> m S1 \<phi>1 m1" "list_all2 (done_ref S1 \<phi>1) (ke_fields ke) y1"
    using all_spec [OF ev ok'(1) g c] by blast
  have g1: "ginv S1 \<phi>1 (fst m1) (snd m1)" and c1: "card (dom B - S1) < c" using s1(2) gext_left [OF s1(2) c] by (auto simp: gext_def)
  obtain y2 m2 S2 \<phi>2 where s2: "gc_evacuate_all ev (ke_in_bufs ke) m1 = Some (y2, m2)" "gext S1 \<phi>1 m1 S2 \<phi>2 m2" "list_all2 (done_ref S2 \<phi>2) (ke_in_bufs ke) y2"
    using all_spec [OF ev ok'(2) g1 c1] by blast
  have g2: "ginv S2 \<phi>2 (fst m2) (snd m2)" and c2: "card (dom B - S2) < c" using s2(2) gext_left [OF s2(2) c1] by (auto simp: gext_def)
  obtain y3 m3 S3 \<phi>3 where s3: "gc_evacuate_all ev (ke_input_terms ke) m2 = Some (y3, m3)" "gext S2 \<phi>2 m2 S3 \<phi>3 m3" "list_all2 (done_ref S3 \<phi>3) (ke_input_terms ke) y3"
    using all_spec [OF ev ok'(3) g2 c2] by blast
  let ?ke = "\<lparr>ke_source_uop = y1 ! 0, ke_compute_bufferize = y1 ! 1, ke_store_root = y1 ! 2, ke_init_root = y1 ! 3,
      ke_out_buf = y1 ! 4, ke_in_bufs = y2, ke_input_terms = y3\<rparr>"
  have "length y1 = 5" using s1(3) by (auto simp: ke_fields_def dest: list_all2_lengthD)
  then have y1: "ke_fields ?ke = y1"
    by (intro nth_equalityI) (auto simp: ke_fields_def less_Suc_eq eval_nat_numeral)
  have "gc_evacuate_kernel ev ke m = Some (?ke, m3)" using s1(1) s2(1) s3(1) by (simp add: gc_evacuate_kernel_def ke_fields_def)
  moreover have "list_all2 (done_ref S3 \<phi>3) (ke_fields ke) y1" using gext_done [OF s3(2) gext_done [OF s2(2) s1(3)]] .
  moreover have "list_all2 (done_ref S3 \<phi>3) (ke_in_bufs ke) y2" using gext_done [OF s3(2) s2(3)] .
  ultimately show ?thesis
    using gext_trans [OF g gext_trans [OF g s1(2) s2(2)] s3(2)] s3(3) y1 by (intro exI conjI) (auto simp: done_kernel_def)
qed

lemma kernels_spec:
  assumes ev: "evacuates ev c" and "\<forall>ke \<in> set kes. \<forall>t \<in> set (kernel_list ke). ref_ok fs fe B h0 t"
    and "ginv S \<phi> (fst m) (snd m)" and "card (dom B - S) < c"
  shows "\<exists>kes' m' S' \<phi>'. gc_evacuate_kernels ev kes m = Some (kes', m') \<and> gext S \<phi> m S' \<phi>' m' \<and> list_all2 (done_kernel S' \<phi>') kes kes'"
  using assms(2-)
proof (induction kes arbitrary: S \<phi> m)
  case Nil
  then show ?case using gext_refl by fastforce
next
  case (Cons ke kes)
  have ok: "\<forall>t \<in> set (kernel_list ke). ref_ok fs fe B h0 t" "\<forall>ke \<in> set kes. \<forall>t \<in> set (kernel_list ke). ref_ok fs fe B h0 t"
    using Cons.prems(1) by auto
  obtain ke' m1 S1 \<phi>1 where e: "gc_evacuate_kernel ev ke m = Some (ke', m1)" "gext S \<phi> m S1 \<phi>1 m1" "done_kernel S1 \<phi>1 ke ke'"
    using kernel_spec [OF ev ok(1) Cons.prems(2,3)] by blast
  have g1: "ginv S1 \<phi>1 (fst m1) (snd m1)" using e(2) by (simp add: gext_def)
  from Cons.IH [OF ok(2) g1 gext_left [OF e(2) Cons.prems(3)]] obtain kes' m2 S2 \<phi>2 where
    r: "gc_evacuate_kernels ev kes m1 = Some (kes', m2)" "gext S1 \<phi>1 m1 S2 \<phi>2 m2" "list_all2 (done_kernel S2 \<phi>2) kes kes'"
    by blast
  have "list_all2 (done_kernel S2 \<phi>2) [ke] [ke']" using gext_done_kernels [OF r(2), of "[ke]" "[ke']"] e(3) by simp
  then have "list_all2 (done_kernel S2 \<phi>2) (ke # kes) (ke' # kes')" using r(3) by simp
  moreover have "gc_evacuate_kernels ev (ke # kes) m = Some (ke' # kes', m2)" using e(1) r(1) by simp
  ultimately show ?case using gext_trans [OF Cons.prems(2) e(2) r(2)] by blast
qed

lemma done_map:
  assumes "list_all2 (done_ref S \<phi>) xs ys"
  shows "ys = map (rl \<phi>) xs" and "\<forall>x \<in> set xs. moves x \<longrightarrow> tgt x \<in> S"
  using assms by (induction rule: list_all2_induct) (auto simp: done_ref_def)

lemma done_kernel_map:
  assumes "done_kernel S \<phi> ke ke'"
  shows "ke' = map_kernel (rl \<phi>) ke" and "\<forall>x \<in> set (kernel_list ke). moves x \<longrightarrow> tgt x \<in> S"
proof -
  note d = done_map [of S \<phi>]
  show "ke' = map_kernel (rl \<phi>) ke"
    using assms d(1) [of "ke_fields ke" "ke_fields ke'"] d(1) [of "ke_in_bufs ke"] d(1) [of "ke_input_terms ke"]
    by (auto simp: done_kernel_def map_kernel_def ke_fields_def intro: kernel_terms.equality)
  show "\<forall>x \<in> set (kernel_list ke). moves x \<longrightarrow> tgt x \<in> S"
    using assms d(2) by (auto simp: done_kernel_def kernel_list_def)
qed

lemma done_kernels_map:
  assumes "list_all2 (done_kernel S \<phi>) kes kes'"
  shows "kes' = map (map_kernel (rl \<phi>)) kes" and "\<forall>ke \<in> set kes. \<forall>x \<in> set (kernel_list ke). moves x \<longrightarrow> tgt x \<in> S"
  using assms by (induction rule: list_all2_induct) (use done_kernel_map in auto)

lemma tables_spec:
  assumes ev: "evacuates ev c" and ok: "\<forall>t \<in> set (table_terms tb). ref_ok fs fe B h0 t"
    and g: "ginv S \<phi> (fst m) (snd m)" and c: "card (dom B - S) < c"
  shows "\<exists>m' S' \<phi>'. gc_evacuate_side_tables ev tb m = Some (map_tables (rl \<phi>') tb, m') \<and> gext S \<phi> m S' \<phi>' m'
    \<and> (\<forall>x \<in> set (table_terms tb). moves x \<longrightarrow> tgt x \<in> S')"
proof -
  have ok': "\<forall>t \<in> set (extern_pinned_terms tb). ref_ok fs fe B h0 t" "\<forall>t \<in> set (extern_pin_handles tb). ref_ok fs fe B h0 t"
      "\<forall>t \<in> set (gc_defs tb). ref_ok fs fe B h0 t" "\<forall>t \<in> set (wnf_last_stack tb). ref_ok fs fe B h0 t"
      "\<forall>ke \<in> set (gc_kernels tb). \<forall>t \<in> set (kernel_list ke). ref_ok fs fe B h0 t"
    using ok by (auto simp: table_terms_def)
  obtain y1 m1 S1 \<phi>1 where s1: "gc_evacuate_all ev (extern_pinned_terms tb) m = Some (y1, m1)" "gext S \<phi> m S1 \<phi>1 m1"
      "list_all2 (done_ref S1 \<phi>1) (extern_pinned_terms tb) y1"
    using all_spec [OF ev ok'(1) g c] by blast
  have g1: "ginv S1 \<phi>1 (fst m1) (snd m1)" and c1: "card (dom B - S1) < c" using s1(2) gext_left [OF s1(2) c] by (auto simp: gext_def)
  obtain y2 m2 S2 \<phi>2 where s2: "gc_evacuate_all ev (extern_pin_handles tb) m1 = Some (y2, m2)" "gext S1 \<phi>1 m1 S2 \<phi>2 m2"
      "list_all2 (done_ref S2 \<phi>2) (extern_pin_handles tb) y2"
    using all_spec [OF ev ok'(2) g1 c1] by blast
  have g2: "ginv S2 \<phi>2 (fst m2) (snd m2)" and c2: "card (dom B - S2) < c" using s2(2) gext_left [OF s2(2) c1] by (auto simp: gext_def)
  obtain y3 m3 S3 \<phi>3 where s3: "gc_evacuate_all ev (gc_defs tb) m2 = Some (y3, m3)" "gext S2 \<phi>2 m2 S3 \<phi>3 m3" "list_all2 (done_ref S3 \<phi>3) (gc_defs tb) y3"
    using all_spec [OF ev ok'(3) g2 c2] by blast
  have g3: "ginv S3 \<phi>3 (fst m3) (snd m3)" and c3: "card (dom B - S3) < c" using s3(2) gext_left [OF s3(2) c2] by (auto simp: gext_def)
  obtain y4 m4 S4 \<phi>4 where s4: "gc_evacuate_all ev (wnf_last_stack tb) m3 = Some (y4, m4)" "gext S3 \<phi>3 m3 S4 \<phi>4 m4" "list_all2 (done_ref S4 \<phi>4) (wnf_last_stack tb) y4"
    using all_spec [OF ev ok'(4) g3 c3] by blast
  have g4: "ginv S4 \<phi>4 (fst m4) (snd m4)" and c4: "card (dom B - S4) < c" using s4(2) gext_left [OF s4(2) c3] by (auto simp: gext_def)
  obtain y5 m5 S5 \<phi>5 where s5: "gc_evacuate_kernels ev (gc_kernels tb) m4 = Some (y5, m5)" "gext S4 \<phi>4 m4 S5 \<phi>5 m5" "list_all2 (done_kernel S5 \<phi>5) (gc_kernels tb) y5"
    using kernels_spec [OF ev ok'(5) g4 c4] by blast
  note d4 = gext_done [OF s5(2) s4(3)] and d3 = gext_done [OF s5(2) gext_done [OF s4(2) s3(3)]]
    and d2 = gext_done [OF s5(2) gext_done [OF s4(2) gext_done [OF s3(2) s2(3)]]]
    and d1 = gext_done [OF s5(2) gext_done [OF s4(2) gext_done [OF s3(2) gext_done [OF s2(2) s1(3)]]]]
  have "gc_evacuate_side_tables ev tb m = Some (map_tables (rl \<phi>5) tb, m5)"
    using s1(1) s2(1) s3(1) s4(1) s5(1) d1 d2 d3 d4 s5(3)
    by (simp add: gc_evacuate_side_tables_def map_tables_def done_map(1) done_kernels_map(1))
  moreover have "gext S \<phi> m S5 \<phi>5 m5"
    using gext_trans [OF g gext_trans [OF g gext_trans [OF g gext_trans [OF g s1(2) s2(2)] s3(2)] s4(2)] s5(2)] .
  moreover have "\<forall>x \<in> set (table_terms tb). moves x \<longrightarrow> tgt x \<in> S5"
    using done_map(2) [OF d1] done_map(2) [OF d2] done_map(2) [OF d3] done_map(2) [OF d4] done_kernels_map(2) [OF s5(3)]
    by (auto simp: table_terms_def)
  ultimately show ?thesis by blast
qed

section \<open>A collection\<close>

lemma collect_run:
  assumes "\<forall>t \<in> set roots. ref_ok fs fe B h0 t" and "\<forall>t \<in> set (table_terms tb). ref_ok fs fe B h0 t" and fuel: "fe - fs < fuel"
  shows "\<exists>m1 S \<phi> h a. gc_evacuate_all (gc_evacuate fuel fs fe) roots (h0, ts) = Some (map (rl \<phi>) roots, m1)
    \<and> gc_evacuate_side_tables (gc_evacuate fuel fs fe) tb m1 = Some (map_tables (rl \<phi>) tb, h, a)
    \<and> ginv S \<phi> h a \<and> gstep {} {} \<phi> h0 ts S \<phi> h a \<and> (\<forall>t \<in> set (roots @ table_terms tb). moves t \<longrightarrow> tgt t \<in> S)"
proof -
  have g: "ginv {} (\<lambda>x. x) (fst (h0, ts)) (snd (h0, ts))" by (simp add: ginv_def)
  have "dom B \<subseteq> {fs..<fe}" using wf_block [OF wf] by fastforce
  then have "card (dom B) \<le> fe - fs" using card_mono [of "{fs..<fe}" "dom B"] by simp
  then have c: "card (dom B - {}) < fuel" using fuel by simp
  obtain ys m1 S1 \<phi>1 where s1: "gc_evacuate_all (gc_evacuate fuel fs fe) roots (h0, ts) = Some (ys, m1)"
      "gext {} (\<lambda>x. x) (h0, ts) S1 \<phi>1 m1" "list_all2 (done_ref S1 \<phi>1) roots ys"
    using all_spec [OF evac_spec assms(1) g c] by blast
  have g1: "ginv S1 \<phi>1 (fst m1) (snd m1)" using s1(2) by (simp add: gext_def)
  obtain m2 S \<phi> where s2: "gc_evacuate_side_tables (gc_evacuate fuel fs fe) tb m1 = Some (map_tables (rl \<phi>) tb, m2)"
      "gext S1 \<phi>1 m1 S \<phi> m2" "\<forall>x \<in> set (table_terms tb). moves x \<longrightarrow> tgt x \<in> S"
    using tables_spec [OF evac_spec assms(2) g1 gext_left [OF s1(2) c]] by blast
  note d = gext_done [OF s2(2) s1(3)]
  have ext: "gext {} (\<lambda>x. x) (h0, ts) S \<phi> m2" by (rule gext_trans [OF g s1(2) s2(2)])
  obtain h a where m2: "m2 = (h, a)" by (cases m2)
  have "ginv S \<phi> h a" "gstep {} {} \<phi> h0 ts S \<phi> h a" using ext by (auto simp: gext_def gstep_def m2)
  then show ?thesis using s1(1) s2(1,3) done_map [OF d] m2 by (intro exI [of _ m1] exI [of _ S] exI [of _ \<phi>]) auto
qed

text \<open>The blocks of the new half.\<close>

definition new_layout :: "nat set \<Rightarrow> (nat \<Rightarrow> nat) \<Rightarrow> nat \<rightharpoonup> nat" where
  "new_layout S \<phi> x = (if x \<in> \<phi> ` S then B (inv_into S \<phi> x) else None)"

lemma phi_inj:
  assumes "ginv S \<phi> h a"
  shows "inj_on \<phi> S"
proof (rule inj_onI, rule ccontr)
  fix l l' assume l: "l \<in> S" "l' \<in> S" "\<phi> l = \<phi> l'" "l \<noteq> l'"
  then have "{\<phi> l..<\<phi> l + sz l} \<inter> {\<phi> l'..<\<phi> l' + sz l'} = {}" using assms unfolding ginv_def by blast
  moreover have "S \<subseteq> dom B" using assms by (simp add: ginv_def)
  then have "0 < sz l" "0 < sz l'" using l(1,2) wf_block(2) [OF wf] by blast+
  ultimately show False using l(3) by (auto simp: disjoint_iff)
qed

lemma new_layout_at: "ginv S \<phi> h a \<Longrightarrow> l \<in> S \<Longrightarrow> new_layout S \<phi> (\<phi> l) = B l"
  using phi_inj by (simp add: new_layout_def)

lemma new_layout_Some: "new_layout S \<phi> x = Some n \<Longrightarrow> \<exists>l \<in> S. x = \<phi> l \<and> B l = Some n"
  by (auto simp: new_layout_def inv_into_into f_inv_into_f split: if_splits intro!: bexI [of _ "inv_into S \<phi> x"])

lemma phi_val: "ginv S \<phi> h a \<Longrightarrow> l \<in> S \<Longrightarrow> unat (of_nat (\<phi> l) :: u64) = \<phi> l \<and> \<phi> l < 2 ^ 38"
proof -
  assume g: "ginv S \<phi> h a" and l: "l \<in> S"
  then have "\<phi> l + sz l \<le> a" "l \<in> dom B" by (auto simp: ginv_def)
  then have "\<phi> l < 2 ^ 38" using ginv_bound [OF g] room wf_block(2) [OF wf, of l] by linarith
  then show ?thesis by (simp add: unat_of_nat)
qed

lemma rl_fields:
  shows "term_tag (rl \<phi> t) = term_tag t" and "term_ext (rl \<phi> t) = term_ext t" and "term_sub_get (rl \<phi> t) = term_sub_get t"
proof -
  have "take_bit 7 (term_tag t) = term_tag t" "take_bit 18 (term_ext t) = term_ext t" "take_bit 1 (term_sub_get t) = term_sub_get t"
    by (rule bit_eqI; simp only: bit_take_bit_iff bit_term_tag bit_term_ext bit_term_sub_get; auto)+
  then show "term_tag (rl \<phi> t) = term_tag t" "term_ext (rl \<phi> t) = term_ext t" "term_sub_get (rl \<phi> t) = term_sub_get t"
    by (simp_all add: reloc_def term_word_simps)
qed

lemma rl_target:
  assumes "ginv S \<phi> h a" and "moves t" and "tgt t \<in> S"
  shows "tgt (rl \<phi> t) = \<phi> (tgt t)"
proof -
  have "take_bit 38 (of_nat (\<phi> (tgt t)) :: u64) = of_nat (\<phi> (tgt t))"
    using phi_val [OF assms(1,3)] by (intro take_bit_word_id) simp
  then show ?thesis using assms(2) phi_val [OF assms(1,3)] by (simp add: reloc_def term_word_simps)
qed

lemma rl_num: "term_tag t = TAG_NUM \<Longrightarrow> rl \<phi> t = t"
  by (simp add: reloc_def gc_moves_def gc_atom_tags_def)

text \<open>What the new half holds, for a collection from the start.\<close>

lemma new_cell:
  assumes "gstep {} {} \<phi>0 h0 ts S \<phi> h a" and "l \<in> S" and "i < sz l"
  shows "h (\<phi> l + i) = rl \<phi> (h0 (l + i))" and "moves (h0 (l + i)) \<Longrightarrow> tgt (h0 (l + i)) \<in> S"
  using assms by (auto simp: gstep_def)

lemma count_at_new:
  assumes "gstep {} {} \<phi>0 h0 ts S \<phi> h a" and "l \<in> S" and "i < sz l"
  shows "gc_count_at h (\<phi> l + i) f = gc_count_at h0 (l + i) f"
  using new_cell(1) [OF assms] rl_num [of "h0 (l + i)"] by (auto simp: gc_count_at_def rl_fields Let_def)

lemma node_size_new:
  assumes g: "ginv S \<phi> h a" and st: "gstep {} {} \<phi>0 h0 ts S \<phi> h a" and t: "moves t" "tgt t \<in> S"
    and hd: "gc_header t \<le> sz (tgt t)" and pos: "0 < ts"
  shows "gc_node_size h (rl \<phi> t) = gc_node_size h0 t"
proof -
  let ?l = "tgt t"
  have l: "tgt (rl \<phi> t) = \<phi> ?l" "0 < \<phi> ?l" using rl_target [OF g t] g t(2) pos by (auto simp: ginv_def)
  have cnt: "gc_count_at h (\<phi> ?l + i) f = gc_count_at h0 (?l + i) f" if "i < gc_header t" for i f
    using count_at_new [OF st t(2)] that hd by simp
  have c0: "gc_count_at h (\<phi> ?l) f = gc_count_at h0 ?l f" if "term_tag t = TAG_CTR \<or> term_tag t = TAG_PRI" for f
    using cnt [of 0 f] that by (auto simp: gc_header_def)
  have "gc_uop_size h (term_ext t) (\<phi> ?l) = gc_uop_size h0 (term_ext t) ?l" if u: "term_tag t = TAG_UOP"
  proof (rule uop_size_cong)
    show "gc_count_at h (\<phi> ?l + 2) f = gc_count_at h0 (?l + 2) f" if "term_ext t \<in> {UOP_REDUCE, UOP_BUFFER}" for f
      using cnt [of 2 f] uop_header(1) [OF u that] by simp
    show "gc_count_at h (\<phi> ?l + 1) f = gc_count_at h0 (?l + 1) f"
      if "term_ext t \<in> {UOP_RESHAPE, UOP_EXPAND, UOP_PERMUTE, UOP_PAD, UOP_SHRINK}" for f
      using cnt [OF uop_header(2) [OF u that]] .
  qed
  moreover have "\<not> (term_tag t = TAG_PRI \<and> ?l = 0)" using t(1) by (simp add: gc_moves_def)
  ultimately show ?thesis
    unfolding gc_node_size_def Let_def rl_fields l(1) using c0 l(2) by (intro if_cong refl) auto
qed

lemma collected_ref:
  assumes g: "ginv S \<phi> h a" and st: "gstep {} {} \<phi>0 h0 ts S \<phi> h a" and ok: "ref_ok fs fe B h0 t"
    and reach: "moves t \<longrightarrow> tgt t \<in> S" and stale: "\<not> gc_moves ts te t" and pos: "0 < ts"
  shows "ref_ok ts te (new_layout S \<phi>) h (rl \<phi> t)"
proof (cases "moves t")
  case True
  then have t: "tgt t \<in> S" "B (tgt t) = Some (unat (gc_node_size h0 t))" "gc_header t \<le> unat (gc_node_size h0 t)"
    using reach ok by (auto simp: ref_ok_def)
  then have hd: "gc_header t \<le> sz (tgt t)" by (simp add: size_of_def)
  have "gc_header (rl \<phi> t) = gc_header t" by (simp only: gc_header_def rl_fields)
  then show ?thesis
    using node_size_new [OF g st True t(1) hd pos] rl_target [OF g True t(1)] new_layout_at [OF g t(1)] t by (simp add: ref_ok_def)
next
  case False
  then have "rl \<phi> t = t" by (simp add: reloc_def)
  then show ?thesis using stale by (simp add: ref_ok_def)
qed

lemma collected_wf:
  assumes g: "ginv S \<phi> h a" and st: "gstep {} {} \<phi>0 h0 ts S \<phi> h a" and pos: "0 < ts"
    and stale: "\<forall>l \<in> dom B. \<forall>i < sz l. \<not> gc_moves ts te (h0 (l + i))"
  shows "gc_wf ts te (new_layout S \<phi>) h"
proof -
  have block: "\<exists>l \<in> S. x = \<phi> l \<and> l \<in> dom B \<and> n = sz l \<and> ts \<le> \<phi> l \<and> 0 < n \<and> \<phi> l + n \<le> te" if "new_layout S \<phi> x = Some n" for x n
  proof -
    obtain l where l: "l \<in> S" "x = \<phi> l" "B l = Some n" using new_layout_Some [OF \<open>new_layout S \<phi> x = Some n\<close>] by blast
    then have "l \<in> dom B" "n = sz l" by (auto simp: size_of_def)
    moreover have "ts \<le> \<phi> l" "\<phi> l + sz l \<le> a" using g l(1) by (auto simp: ginv_def)
    ultimately show ?thesis using l(1,2) wf_block(2) [OF wf] ginv_bound [OF g] by (intro bexI [of _ l]) auto
  qed
  show ?thesis
    unfolding gc_wf_def
  proof (intro conjI allI impI)
    fix x n assume "new_layout S \<phi> x = Some n"
    from block [OF this] show "ts \<le> x" "0 < n" "x + n \<le> te" by auto
  next
    fix x n x' n' assume x: "new_layout S \<phi> x = Some n" "new_layout S \<phi> x' = Some n'" "x < x'"
    obtain l l' where l: "l \<in> S" "x = \<phi> l" "n = sz l" "0 < n" "l' \<in> S" "x' = \<phi> l'" "n' = sz l'" "0 < n'"
      using block [OF x(1)] block [OF x(2)] by blast
    have "l \<noteq> l'" using l x(3) by blast
    moreover have "\<forall>l \<in> S. \<forall>l' \<in> S. l \<noteq> l' \<longrightarrow> {\<phi> l..<\<phi> l + sz l} \<inter> {\<phi> l'..<\<phi> l' + sz l'} = {}"
      using g unfolding ginv_def by (elim conjE)
    ultimately have "{x..<x + n} \<inter> {x'..<x' + n'} = {}" using l by blast
    then have "x' \<notin> {x..<x + n}" using l(8) by (auto simp: disjoint_iff)
    then show "x + n \<le> x'" using x(3) by simp
  next
    fix x n i assume x: "new_layout S \<phi> x = Some n" and i: "i < n"
    obtain l where l: "l \<in> S" "x = \<phi> l" "l \<in> dom B" "n = sz l" using block [OF x] by blast
    note c = new_cell [OF st l(1), of i] and w = wf_cell [OF wf l(3), of i]
    show "term_tag (h (x + i)) \<noteq> GC_FWD_TAG" using c(1) w(1) i l by (simp add: rl_fields)
    show "ref_ok ts te (new_layout S \<phi>) h (h (x + i))"
      using collected_ref [OF g st w(2) _ _ pos] c i l stale by auto
  qed
qed

end

end
