(* ===== verification/GC_Collect.thy ===== *)
theory GC_Collect
  imports GC_Props FTerm
begin

text \<open>
  The collection as a whole: what gc_collect does to a heap that is ready for it, that the heap
  is ready again afterwards, and that first-order terms survive. The lemmas of the locale of
  theory GC_Props are interpreted on the collector's state.
\<close>

section \<open>Ready heaps\<close>

text \<open>Two halves of one size that do not overlap, below 2^38, and a heap of blocks in the first.\<close>

definition gc_ready :: "gc_state \<Rightarrow> (nat \<rightharpoonup> nat) \<Rightarrow> bool" where
  "gc_ready s B \<longleftrightarrow> gc_wf (gc_from_start s) (gc_from_end s) B (gc_heap s)
     \<and> (gc_from_end s \<le> gc_to_start s \<or> gc_to_end s \<le> gc_from_start s)
     \<and> gc_to_end s - gc_to_start s = gc_from_end s - gc_from_start s
     \<and> gc_from_start s \<le> gc_from_end s \<and> gc_to_start s \<le> gc_to_end s \<and> gc_from_end s \<le> 2 ^ 38 \<and> gc_to_end s \<le> 2 ^ 38"

definition gc_refs_ok :: "gc_state \<Rightarrow> (nat \<rightharpoonup> nat) \<Rightarrow> term_w list \<Rightarrow> bool" where
  "gc_refs_ok s B ts \<longleftrightarrow> (\<forall>t \<in> set ts. ref_ok (gc_from_start s) (gc_from_end s) B (gc_heap s) t)"

text \<open>Neither a block nor one of the terms points into the free half.\<close>

definition gc_unstale :: "gc_state \<Rightarrow> (nat \<rightharpoonup> nat) \<Rightarrow> term_w list \<Rightarrow> bool" where
  "gc_unstale s B ts \<longleftrightarrow> (\<forall>t \<in> set ts. \<not> gc_moves (gc_to_start s) (gc_to_end s) t)
     \<and> (\<forall>l \<in> dom B. \<forall>i < size_of B l. \<not> gc_moves (gc_to_start s) (gc_to_end s) (gc_heap s (l + i)))"

lemma kernel_list_map: "kernel_list (map_kernel f ke) = map f (kernel_list ke)"
  by (simp add: kernel_list_def map_kernel_def ke_fields_def)

lemma table_terms_map: "table_terms (map_tables f tb) = map f (table_terms tb)"
  by (simp add: table_terms_def map_tables_def map_concat comp_def kernel_list_map)

definition ready_bound :: "gc_state \<Rightarrow> (nat \<rightharpoonup> nat) \<Rightarrow> nat \<Rightarrow> nat" where
  "ready_bound s B x = (if gc_ready s B then x else 0)"

definition ready_layout :: "gc_state \<Rightarrow> (nat \<rightharpoonup> nat) \<Rightarrow> nat \<rightharpoonup> nat" where
  "ready_layout s B = (if gc_ready s B then B else Map.empty)"

lemma wf_empty: "gc_wf fs fe Map.empty h"
  by (simp add: gc_wf_def)

interpretation gcs: gc_space "ready_bound s B (gc_from_start s)" "ready_bound s B (gc_from_end s)"
    "ready_bound s B (gc_to_start s)" "ready_bound s B (gc_to_end s)" "ready_layout s B" "gc_heap s" for s B
  by unfold_locales (simp_all add: ready_bound_def ready_layout_def wf_empty, simp_all add: gc_ready_def)

lemma ready_simps [simp]: "gc_ready s B \<Longrightarrow> ready_bound s B x = x" "gc_ready s B \<Longrightarrow> ready_layout s B = B"
  by (simp_all add: ready_bound_def ready_layout_def)

abbreviation gc_inv where
  "gc_inv s B \<equiv> gc_space.ginv (gc_from_start s) (gc_from_end s) (gc_to_start s) B (gc_heap s)"

abbreviation gc_step where
  "gc_step s B \<phi> \<equiv> gc_space.gstep (gc_from_start s) (gc_from_end s) B (gc_heap s) {} {} \<phi> (gc_heap s) (gc_to_start s)"

text \<open>One collection, with the positions phi of the blocks S that were moved.\<close>

lemma collect_moves:
  assumes on: "gc_enabled s" and ready: "gc_ready s B" and refs: "gc_refs_ok s B (roots @ table_terms tb)"
    and fuel: "gc_from_end s - gc_from_start s < fuel"
  obtains S \<phi> s' tb' where "gc_collect fuel ctx roots tb s = Some (map (reloc (gc_from_start s) (gc_from_end s) \<phi>) roots, tb', s')"
    and "tb'\<lparr>lam_shapes := lam_shapes tb\<rparr> = map_tables (reloc (gc_from_start s) (gc_from_end s) \<phi>) tb"
    and "gc_inv s B S \<phi> (gc_heap s') (gc_next s')"
    and "gc_step s B \<phi> S \<phi> (gc_heap s') (gc_next s')"
    and "\<forall>t \<in> set (roots @ table_terms tb). gc_moves (gc_from_start s) (gc_from_end s) t \<longrightarrow> unat (term_val t) \<in> S"
    and "gc_from_start s' = gc_to_start s" "gc_from_end s' = gc_to_end s" "gc_to_start s' = gc_from_start s"
      "gc_to_end s' = gc_from_end s" "gc_enabled s'"
proof -
  have r: "\<forall>t \<in> set roots. ref_ok (gc_from_start s) (gc_from_end s) B (gc_heap s) t"
      "\<forall>t \<in> set (table_terms tb). ref_ok (gc_from_start s) (gc_from_end s) B (gc_heap s) t"
    using refs by (auto simp: gc_refs_ok_def)
  obtain m1 S \<phi> h a where c: "gc_evacuate_all (gc_evacuate fuel (gc_from_start s) (gc_from_end s)) roots (gc_heap s, gc_to_start s)
        = Some (map (reloc (gc_from_start s) (gc_from_end s) \<phi>) roots, m1)"
      "gc_evacuate_side_tables (gc_evacuate fuel (gc_from_start s) (gc_from_end s)) tb m1
        = Some (map_tables (reloc (gc_from_start s) (gc_from_end s) \<phi>) tb, h, a)"
      "gc_inv s B S \<phi> h a" "gc_step s B \<phi> S \<phi> h a"
      "\<forall>t \<in> set (roots @ table_terms tb). gc_moves (gc_from_start s) (gc_from_end s) t \<longrightarrow> unat (term_val t) \<in> S"
    using gcs.collect_run [of roots s B tb fuel, unfolded ready_simps [OF ready], OF r fuel] by blast
  let ?tb = "map_tables (reloc (gc_from_start s) (gc_from_end s) \<phi>) tb"
  let ?s = "s\<lparr>gc_heap := h, gc_next := a, gc_collections := gc_collections s + 1, gc_from_start := gc_to_start s,
      gc_from_end := gc_to_end s, gc_to_start := gc_from_start s, gc_to_end := gc_from_end s\<rparr>"
  let ?tb' = "?tb\<lparr>lam_shapes := gc_remap_lam_shape (gc_from_start s) (gc_from_end s) ctx h (lam_shapes ?tb)\<rparr>"
  have "gc_collect fuel ctx roots tb s = Some (map (reloc (gc_from_start s) (gc_from_end s) \<phi>) roots, ?tb', ?s)"
    using on c(1,2) by (simp add: gc_collect_def Let_def)
  moreover have "?tb'\<lparr>lam_shapes := lam_shapes tb\<rparr> = ?tb" by (simp add: map_tables_def)
  ultimately show ?thesis using that [of \<phi> ?tb' ?s S] c(3-5) on by simp
qed

text \<open>C38: a collection copies the reachable heap. On a ready heap gc_collect returns. There is a set
  of blocks, closed under references and containing what the roots and the tables point at, and
  a position for each; every cell of such a block is found at its new position with its
  reference moved along, roots and tables hold their terms moved along, the new blocks do not
  overlap, and they fill the new half from its start without ever passing its end.\<close>
theorem gc_collect_copies:
  assumes "gc_enabled s" and "gc_ready s B" and "gc_refs_ok s B (roots @ table_terms tb)"
    and "gc_from_end s - gc_from_start s < fuel"
  shows "\<exists>S \<phi> s' tb'. let fs = gc_from_start s; fe = gc_from_end s; mv = reloc fs fe \<phi> in
      gc_collect fuel ctx roots tb s = Some (map mv roots, tb', s')
    \<and> tb'\<lparr>lam_shapes := lam_shapes tb\<rparr> = map_tables mv tb
    \<and> S \<subseteq> dom B \<and> (\<forall>t \<in> set (roots @ table_terms tb). gc_moves fs fe t \<longrightarrow> unat (term_val t) \<in> S)
    \<and> (\<forall>l \<in> S. \<forall>i < size_of B l. gc_heap s' (\<phi> l + i) = mv (gc_heap s (l + i))
         \<and> (gc_moves fs fe (gc_heap s (l + i)) \<longrightarrow> unat (term_val (gc_heap s (l + i))) \<in> S))
    \<and> (\<forall>l \<in> S. \<forall>l' \<in> S. l \<noteq> l' \<longrightarrow> {\<phi> l..<\<phi> l + size_of B l} \<inter> {\<phi> l'..<\<phi> l' + size_of B l'} = {})
    \<and> (\<forall>l \<in> S. gc_from_start s' \<le> \<phi> l \<and> \<phi> l + size_of B l \<le> gc_next s')
    \<and> gc_next s' = gc_from_start s' + (\<Sum>l \<in> S. size_of B l) \<and> gc_next s' \<le> gc_from_end s' \<and> gc_from_start s' = gc_to_start s"
proof -
  obtain S \<phi> s' tb' where c: "gc_collect fuel ctx roots tb s = Some (map (reloc (gc_from_start s) (gc_from_end s) \<phi>) roots, tb', s')"
      "tb'\<lparr>lam_shapes := lam_shapes tb\<rparr> = map_tables (reloc (gc_from_start s) (gc_from_end s) \<phi>) tb"
      "gc_inv s B S \<phi> (gc_heap s') (gc_next s')"
      "gc_step s B \<phi> S \<phi> (gc_heap s') (gc_next s')"
      "\<forall>t \<in> set (roots @ table_terms tb). gc_moves (gc_from_start s) (gc_from_end s) t \<longrightarrow> unat (term_val t) \<in> S"
      "gc_from_start s' = gc_to_start s" "gc_from_end s' = gc_to_end s"
    by (rule collect_moves [OF assms])
  note cell = gcs.new_cell [of s B, unfolded ready_simps [OF assms(2)], OF c(4)]
  have "gc_next s' \<le> gc_to_end s" using gcs.ginv_bound [of s B, unfolded ready_simps [OF assms(2)], OF c(3)] .
  then have limit: "gc_next s' \<le> gc_from_end s'" by (simp only: c(7))
  have cells: "\<forall>l \<in> S. \<forall>i < size_of B l. gc_heap s' (\<phi> l + i) = reloc (gc_from_start s) (gc_from_end s) \<phi> (gc_heap s (l + i))
      \<and> (gc_moves (gc_from_start s) (gc_from_end s) (gc_heap s (l + i)) \<longrightarrow> unat (term_val (gc_heap s (l + i))) \<in> S)"
    using cell by blast
  note inv = c(3) [unfolded gcs.ginv_def [of s B, unfolded ready_simps [OF assms(2)]]]
  have inside: "\<forall>l \<in> S. gc_from_start s' \<le> \<phi> l \<and> \<phi> l + size_of B l \<le> gc_next s'" unfolding c(6) using inv by blast
  have total: "gc_next s' = gc_from_start s' + (\<Sum>l \<in> S. size_of B l)" unfolding c(6) using inv by blast
  have apart: "\<forall>l \<in> S. \<forall>l' \<in> S. l \<noteq> l' \<longrightarrow> {\<phi> l..<\<phi> l + size_of B l} \<inter> {\<phi> l'..<\<phi> l' + size_of B l'} = {}"
    using inv by (elim conjE)
  have sub: "S \<subseteq> dom B" using inv by blast
  show ?thesis
    unfolding Let_def by (intro exI [of _ S] exI [of _ \<phi>] exI [of _ s'] exI [of _ tb'] conjI; fact)
qed


text \<open>C39: the heap is ready again. If no reference points into the free half before a collection
  and that half does not start at position 0, then afterwards the swapped halves with the new
  blocks are ready for the next collection, roots and tables included, and new blocks are
  allocated behind them within the half.\<close>
theorem gc_collect_ready:
  assumes "gc_enabled s" and "gc_ready s B" and "gc_refs_ok s B (roots @ table_terms tb)"
    and "gc_from_end s - gc_from_start s < fuel" and "0 < gc_to_start s" and "gc_unstale s B (roots @ table_terms tb)"
  shows "\<exists>roots' tb' s' B'. gc_collect fuel ctx roots tb s = Some (roots', tb', s') \<and> gc_enabled s' \<and> gc_ready s' B'
    \<and> gc_refs_ok s' B' (roots' @ table_terms tb') \<and> (\<forall>l \<in> dom B'. l + size_of B' l \<le> gc_next s') \<and> gc_next s' \<le> gc_from_end s'"
proof -
  obtain S \<phi> s' tb' where c: "gc_collect fuel ctx roots tb s = Some (map (reloc (gc_from_start s) (gc_from_end s) \<phi>) roots, tb', s')"
      "tb'\<lparr>lam_shapes := lam_shapes tb\<rparr> = map_tables (reloc (gc_from_start s) (gc_from_end s) \<phi>) tb"
      "gc_inv s B S \<phi> (gc_heap s') (gc_next s')" "gc_step s B \<phi> S \<phi> (gc_heap s') (gc_next s')"
      "\<forall>t \<in> set (roots @ table_terms tb). gc_moves (gc_from_start s) (gc_from_end s) t \<longrightarrow> unat (term_val t) \<in> S"
      "gc_from_start s' = gc_to_start s" "gc_from_end s' = gc_to_end s" "gc_to_start s' = gc_from_start s"
      "gc_to_end s' = gc_from_end s" "gc_enabled s'"
    by (rule collect_moves [OF assms(1-4)])
  note R = ready_simps [OF assms(2)]
  let ?B' = "gc_space.new_layout B S \<phi>" and ?mv = "reloc (gc_from_start s) (gc_from_end s) \<phi>"
  have "\<forall>l \<in> dom B. \<forall>i < size_of B l. \<not> gc_moves (gc_to_start s) (gc_to_end s) (gc_heap s (l + i))"
    using assms(6) by (simp add: gc_unstale_def)
  then have "gc_wf (gc_to_start s) (gc_to_end s) ?B' (gc_heap s')"
    using gcs.collected_wf [of s B, unfolded R, OF c(3,4) assms(5)] by blast
  then have ready: "gc_ready s' ?B'" using assms(2) unfolding gc_ready_def c(6-9) by auto
  have ref: "ref_ok (gc_to_start s) (gc_to_end s) ?B' (gc_heap s') (?mv t)" if "t \<in> set (roots @ table_terms tb)" for t
  proof (rule gcs.collected_ref [of s B, unfolded R, OF c(3,4) _ _ _ assms(5)])
    show "ref_ok (gc_from_start s) (gc_from_end s) B (gc_heap s) t" using assms(3) that by (simp add: gc_refs_ok_def)
    show "gc_moves (gc_from_start s) (gc_from_end s) t \<longrightarrow> unat (term_val t) \<in> S" using c(5) that by blast
    show "\<not> gc_moves (gc_to_start s) (gc_to_end s) t" using assms(6) that by (simp add: gc_unstale_def)
  qed
  have "table_terms tb' = table_terms (tb'\<lparr>lam_shapes := lam_shapes tb\<rparr>)" by (simp add: table_terms_def)
  also have "\<dots> = map ?mv (table_terms tb)" unfolding c(2) by (rule table_terms_map)
  finally have "gc_refs_ok s' ?B' (map ?mv roots @ table_terms tb')"
    unfolding gc_refs_ok_def c(6,7) using ref by auto
  moreover have "l + size_of ?B' l \<le> gc_next s'" if l: "l \<in> dom ?B'" for l
  proof -
    obtain n where n: "?B' l = Some n" using l by blast
    then obtain k where "k \<in> S" "l = \<phi> k" "B k = Some n" using gcs.new_layout_Some [of s B, unfolded R] by blast
    then show ?thesis using c(3) n unfolding gcs.ginv_def [of s B, unfolded R] by (auto simp: size_of_def)
  qed
  moreover have "gc_next s' \<le> gc_from_end s'"
    using gcs.ginv_bound [of s B, unfolded R, OF c(3)] by (simp only: c(7))
  ultimately show ?thesis using c(1,10) ready by blast
qed


section \<open>First-order terms\<close>

text \<open>
  The first-order term that a word spells, term_ctr_n and term_ctr_at read from the heap; None
  for other words, for a constructor outside the half in use, and below the depth given.
\<close>

primrec read_term :: "nat \<Rightarrow> nat \<Rightarrow> nat \<Rightarrow> store \<Rightarrow> term_w \<Rightarrow> trm option" where
  "read_term 0 = (\<lambda>fs fe h t. None)"
| "read_term (Suc k) = (\<lambda>fs fe h t.
     if term_tag t = TAG_FVR then Some (FVR (ucast (term_ext t)))
     else if term_tag t = TAG_NUM then Some (ATM (term_tag t) (ucast (term_ext t)) (term_val t))
     else if term_tag t = TAG_CTR
     then let loc = unat (term_val t)
       in if loc < fs \<or> loc \<ge> fe then None
          else let n_cell = h loc; n = (if term_tag n_cell \<noteq> TAG_NUM then 0 else unat (ucast (term_val n_cell) :: u32))
            in map_option (CTR (ucast (term_ext t))) (those (map (\<lambda>i. read_term k fs fe h (h (loc + 1 + i))) [0..<n]))
     else None)"

definition gc_read :: "gc_state \<Rightarrow> nat \<Rightarrow> term_w \<Rightarrow> trm option" where
  "gc_read s k t = read_term k (gc_from_start s) (gc_from_end s) (gc_heap s) t"

lemma those_map_cong:
  assumes "those (map f xs) = Some ys" and "\<And>x y. x \<in> set xs \<Longrightarrow> f x = Some y \<Longrightarrow> g x = Some y"
  shows "those (map g xs) = Some ys"
  using assms
proof (induction xs arbitrary: ys)
  case (Cons x xs)
  obtain y zs where y: "f x = Some y" "those (map f xs) = Some zs" "ys = y # zs"
    using Cons.prems(1) by (auto split: option.splits)
  have "those (map g xs) = Some zs" using Cons.IH [OF y(2)] Cons.prems(2) by auto
  moreover have "g x = Some y" using Cons.prems(2) y(1) by simp
  ultimately show ?case using y(3) by simp
qed simp

lemma read_moved:
  assumes ready: "gc_ready s B" and g: "gc_inv s B S \<phi> h' a" and st: "gc_step s B \<phi> S \<phi> h' a"
    and sp: "gc_from_start s' = gc_to_start s" "gc_from_end s' = gc_to_end s" "gc_heap s' = h'"
  shows "ref_ok (gc_from_start s) (gc_from_end s) B (gc_heap s) t
    \<Longrightarrow> gc_moves (gc_from_start s) (gc_from_end s) t \<longrightarrow> unat (term_val t) \<in> S
    \<Longrightarrow> gc_read s k t = Some u \<Longrightarrow> gc_read s' k (reloc (gc_from_start s) (gc_from_end s) \<phi> t) = Some u"
proof (induction k arbitrary: t u)
  case 0
  then show ?case by (simp add: gc_read_def)
next
  case (Suc k)
  note R = ready_simps [OF ready]
  let ?mv = "reloc (gc_from_start s) (gc_from_end s) \<phi>" and ?l = "unat (term_val t)" and ?h = "gc_heap s"
  note fields = gcs.rl_fields [of s B, unfolded R]
  note ne = gc_tag_defs
  show ?case
  proof (cases "term_tag t = TAG_CTR")
    case False
    then have "term_tag t \<in> {TAG_FVR, TAG_NUM}" using Suc.prems(3) by (auto simp: gc_read_def split: if_splits)
    then have "?mv t = t" by (auto simp: reloc_def gc_moves_def gc_atom_tags_def)
    then show ?thesis using Suc.prems(3) False by (auto simp: gc_read_def split: if_splits)
  next
    case True
    then have half: "gc_from_start s \<le> ?l" "?l < gc_from_end s"
      using Suc.prems(3) by (auto simp: gc_read_def ne Let_def split: if_splits)
    have "t \<noteq> 0" using True by (auto simp: term_tag_def ne)
    then have moves: "gc_moves (gc_from_start s) (gc_from_end s) t"
      using True half by (simp add: gc_moves_def gc_atom_tags_def ne)
    have S: "?l \<in> S" and blk: "size_of B ?l = unat (gc_node_size ?h t)" "0 < size_of B ?l" "?l \<in> dom B"
    proof -
      show "?l \<in> S" using Suc.prems(2) moves by blast
      show "size_of B ?l = unat (gc_node_size ?h t)" "?l \<in> dom B" using Suc.prems(1) moves by (auto simp: ref_ok_def size_of_def)
      have "gc_wf (gc_from_start s) (gc_from_end s) B ?h" using ready by (simp add: gc_ready_def)
      from wf_block(2) [OF this \<open>?l \<in> dom B\<close>] show "0 < size_of B ?l" .
    qed
    have ns: "gc_node_size ?h t = gc_count_at ?h ?l (\<lambda>n. 1 + n)" using True by (simp add: gc_node_size_def ne)
    then have num: "term_tag (?h ?l) = TAG_NUM" using blk(1,2) by (auto simp: gc_count_at_def Let_def split: if_splits)
    define n where "n = unat (ucast (term_val (?h ?l)) :: u32)"
    have n: "size_of B ?l = Suc n"
    proof -
      have w: "size_of B ?l = unat (1 + ucast (term_val (?h ?l)) :: u32)" using blk(1) ns num by (simp add: gc_count_at_def)
      then have "1 + ucast (term_val (?h ?l)) \<noteq> (0 :: u32)" using blk(2) by auto
      then show ?thesis using w by (simp add: n_def unatSuc)
    qed
    note new = gcs.new_cell [of s B, unfolded R, OF st S]
    have "?mv (?h ?l) = ?h ?l" using num by (simp add: reloc_def gc_moves_def gc_atom_tags_def)
    then have hd: "h' (\<phi> ?l) = ?h ?l" using new(1) [of 0] n by simp
    have tgt: "unat (term_val (?mv t)) = \<phi> ?l" using gcs.rl_target [of s B, unfolded R, OF g moves S] .
    have inside: "gc_to_start s \<le> \<phi> ?l" "\<phi> ?l < gc_to_end s"
      using g S n gcs.ginv_bound [of s B, unfolded R, OF g] unfolding gcs.ginv_def [of s B, unfolded R] by fastforce+
    obtain us where us: "those (map (\<lambda>i. gc_read s k (?h (?l + 1 + i))) [0..<n]) = Some us" "u = CTR (ucast (term_ext t)) us"
      using Suc.prems(3) True half num by (auto simp: gc_read_def ne Let_def n_def)
    have "those (map (\<lambda>i. gc_read s' k (h' (\<phi> ?l + 1 + i))) [0..<n]) = Some us"
    proof (rule those_map_cong [OF us(1)])
      fix i v assume i: "i \<in> set [0..<n]" and v: "gc_read s k (?h (?l + 1 + i)) = Some v"
      have c: "h' (\<phi> ?l + (1 + i)) = ?mv (?h (?l + (1 + i)))" using new(1) [of "1 + i"] i n by simp
      have "ref_ok (gc_from_start s) (gc_from_end s) B ?h (?h (?l + (1 + i)))"
        using wf_cell(2) [OF _ blk(3), of "gc_from_start s" "gc_from_end s" ?h "1 + i"] ready i n by (simp add: gc_ready_def)
      then show "gc_read s' k (h' (\<phi> ?l + 1 + i)) = Some v"
        using Suc.IH [of "?h (?l + (1 + i))" v] new(2) [of "1 + i"] i n v c by (simp add: add.assoc)
    qed
    then show ?thesis
      using True us(2) tgt hd num inside by (simp add: gc_read_def fields sp ne Let_def n_def)
  qed
qed

text \<open>C40: first-order terms survive a collection. Every root that spells a first-order term in the heap
  before a collection spells the same term after it.\<close>
theorem gc_collect_terms:
  assumes "gc_enabled s" and "gc_ready s B" and "gc_refs_ok s B (roots @ table_terms tb)"
    and "gc_from_end s - gc_from_start s < fuel"
  shows "\<exists>roots' tb' s'. gc_collect fuel ctx roots tb s = Some (roots', tb', s') \<and> length roots' = length roots
    \<and> (\<forall>i < length roots. \<forall>k u. gc_read s k (roots ! i) = Some u \<longrightarrow> gc_read s' k (roots' ! i) = Some u)"
proof -
  obtain S \<phi> s' tb' where c: "gc_collect fuel ctx roots tb s = Some (map (reloc (gc_from_start s) (gc_from_end s) \<phi>) roots, tb', s')"
      "gc_inv s B S \<phi> (gc_heap s') (gc_next s')" "gc_step s B \<phi> S \<phi> (gc_heap s') (gc_next s')"
      "\<forall>t \<in> set (roots @ table_terms tb). gc_moves (gc_from_start s) (gc_from_end s) t \<longrightarrow> unat (term_val t) \<in> S"
      "gc_from_start s' = gc_to_start s" "gc_from_end s' = gc_to_end s"
    by (rule collect_moves [OF assms])
  have "gc_read s' k (reloc (gc_from_start s) (gc_from_end s) \<phi> (roots ! i)) = Some u"
    if "i < length roots" "gc_read s k (roots ! i) = Some u" for i k u
  proof (rule read_moved [OF assms(2) c(2,3,5,6) refl _ _ that(2)])
    show "ref_ok (gc_from_start s) (gc_from_end s) B (gc_heap s) (roots ! i)" using assms(3) that by (simp add: gc_refs_ok_def)
    show "gc_moves (gc_from_start s) (gc_from_end s) (roots ! i) \<longrightarrow> unat (term_val (roots ! i)) \<in> S" using c(4) that by simp
  qed
  then show ?thesis using c(1)
    by (intro exI [of _ "map (reloc (gc_from_start s) (gc_from_end s) \<phi>) roots"] exI [of _ tb'] exI [of _ s']) simp
qed


section \<open>A heap with one root\<close>

text \<open>The term f(x, c) in the lower half: f at 2 with its count and two children, c at 5.\<close>

definition demo_gc :: gc_state where
  "demo_gc = \<lparr>gc_heap = (\<lambda>_. 0)(2 := term_new 0 TAG_NUM DT_INT32 2, 3 := term_new 0 TAG_FVR 1 0,
       4 := term_new 0 TAG_CTR 6 5, 5 := term_new 0 TAG_NUM DT_INT32 0),
     gc_next = 6, gc_enabled = True, gc_space_sz = 8, gc_from_start = 0, gc_from_end = 8, gc_to_start = 8, gc_to_end = 16,
     gc_collections = 0\<rparr>"

definition demo_layout :: "nat \<rightharpoonup> nat" where "demo_layout = [2 \<mapsto> 3, 5 \<mapsto> 1]"
definition demo_root :: term_w where "demo_root = term_new 0 TAG_CTR 5 2"

definition demo_tables :: "unit gc_tables" where
  "demo_tables = \<lparr>extern_pinned_terms = [], extern_pin_handles = [], gc_defs = [], wnf_last_stack = [], gc_kernels = [], lam_shapes = []\<rparr>"

lemma demo_tags:
  "term_tag (gc_heap demo_gc 2) = TAG_NUM" "term_tag (gc_heap demo_gc 3) = TAG_FVR" "term_tag (gc_heap demo_gc 4) = TAG_CTR"
  "term_tag (gc_heap demo_gc 5) = TAG_NUM" "term_tag demo_root = TAG_CTR"
  "term_val (gc_heap demo_gc 2) = 2" "term_val (gc_heap demo_gc 4) = 5" "term_val (gc_heap demo_gc 5) = 0" "term_val demo_root = 2"
  "term_ext (gc_heap demo_gc 3) = 1" "term_ext (gc_heap demo_gc 4) = 6" "term_ext demo_root = 5"
  by (simp_all add: demo_gc_def demo_root_def term_word_simps gc_tag_defs)

lemma demo_size: "gc_node_size (gc_heap demo_gc) (gc_heap demo_gc 4) = 1" "gc_node_size (gc_heap demo_gc) demo_root = 3"
  by (simp_all add: gc_node_size_def demo_tags gc_count_at_def) (simp_all add: gc_tag_defs)

lemma demo_words:
  "term_tag (gc_heap demo_gc x) \<noteq> GC_FWD_TAG" "ref_ok 0 8 demo_layout (gc_heap demo_gc) (gc_heap demo_gc x)"
  "\<not> gc_moves 8 16 (gc_heap demo_gc x)"
  if "x \<in> {2, 3, 4, 5}"
proof -
  consider "x = 2 \<or> x = 3 \<or> x = 5" | "x = 4" using \<open>x \<in> {2, 3, 4, 5}\<close> by auto
  then have "term_tag (gc_heap demo_gc x) \<noteq> GC_FWD_TAG \<and> ref_ok 0 8 demo_layout (gc_heap demo_gc) (gc_heap demo_gc x)
      \<and> \<not> gc_moves 8 16 (gc_heap demo_gc x)"
  proof cases
    case 1
    then have "term_tag (gc_heap demo_gc x) \<in> {TAG_NUM, TAG_FVR}" using demo_tags by auto
    then show ?thesis by (auto simp: ref_ok_def gc_moves_def gc_atom_tags_def gc_tag_defs)
  next
    case 2
    then show ?thesis
      by (simp add: ref_ok_def gc_moves_def demo_tags demo_size gc_header_def demo_layout_def) (simp add: gc_tag_defs)
  qed
  then show "term_tag (gc_heap demo_gc x) \<noteq> GC_FWD_TAG" "ref_ok 0 8 demo_layout (gc_heap demo_gc) (gc_heap demo_gc x)"
      "\<not> gc_moves 8 16 (gc_heap demo_gc x)"
    by auto
qed

lemma demo_root_ok: "ref_ok 0 8 demo_layout (gc_heap demo_gc) demo_root" "\<not> gc_moves 8 16 demo_root"
  by (simp_all add: ref_ok_def gc_moves_def demo_tags demo_size gc_header_def demo_layout_def)

lemma demo_read: "gc_read demo_gc 3 demo_root = Some (CTR 5 [FVR 1, CTR 6 []])"
proof -
  have b: "gc_from_start demo_gc = 0" "gc_from_end demo_gc = 8" by (simp_all add: demo_gc_def)
  have n: "[0..<2] = [0, 1 :: nat]" by (simp add: upt_rec)
  have ne: "TAG_CTR \<noteq> TAG_FVR" "TAG_CTR \<noteq> TAG_NUM" by (simp_all add: gc_tag_defs)
  have k: "3 = Suc (Suc (Suc 0))" by simp
  show ?thesis unfolding gc_read_def b k by (simp add: Let_def demo_tags n ne)
qed

lemma demo_ready: "gc_enabled demo_gc" "gc_ready demo_gc demo_layout"
  "gc_refs_ok demo_gc demo_layout ([demo_root] @ table_terms demo_tables)"
  "gc_from_end demo_gc - gc_from_start demo_gc < 9" "0 < gc_to_start demo_gc"
  "gc_unstale demo_gc demo_layout ([demo_root] @ table_terms demo_tables)"
proof -
  have bounds: "gc_from_start demo_gc = 0" "gc_from_end demo_gc = 8" "gc_to_start demo_gc = 8" "gc_to_end demo_gc = 16" "gc_enabled demo_gc"
    by (simp_all add: demo_gc_def)
  have blocks: "demo_layout l = Some n \<Longrightarrow> l = 2 \<and> n = 3 \<or> l = 5 \<and> n = 1" for l n
    by (auto simp: demo_layout_def split: if_splits)
  have cells: "l + i \<in> {2, 3, 4, 5}" if "demo_layout l = Some n" "i < n" for l n i
    using blocks [OF that(1)] that(2) by auto
  have "gc_wf 0 8 demo_layout (gc_heap demo_gc)"
    unfolding gc_wf_def
  proof (intro conjI allI impI)
    fix l n assume "demo_layout l = Some n"
    from blocks [OF this] show "0 \<le> l" "0 < n" "l + n \<le> 8" by auto
  next
    fix l n l' n' assume "demo_layout l = Some n" "demo_layout l' = Some n'" "l < l'"
    then show "l + n \<le> l'" using blocks [of l n] blocks [of l' n'] by auto
  next
    fix l n i assume "demo_layout l = Some n" "i < n"
    note c = cells [OF this]
    show "term_tag (gc_heap demo_gc (l + i)) \<noteq> GC_FWD_TAG" by (rule demo_words(1) [OF c])
    show "ref_ok 0 8 demo_layout (gc_heap demo_gc) (gc_heap demo_gc (l + i))" by (rule demo_words(2) [OF c])
  qed
  then show "gc_ready demo_gc demo_layout" by (simp add: gc_ready_def bounds)
  have none: "table_terms demo_tables = []" by (simp add: table_terms_def demo_tables_def)
  show "gc_refs_ok demo_gc demo_layout ([demo_root] @ table_terms demo_tables)"
    using demo_root_ok(1) by (simp add: gc_refs_ok_def bounds none)
  show "gc_unstale demo_gc demo_layout ([demo_root] @ table_terms demo_tables)"
    unfolding gc_unstale_def bounds none
  proof (intro conjI ballI allI impI)
    fix l i assume "l \<in> dom demo_layout" "i < size_of demo_layout l"
    then obtain n where "demo_layout l = Some n" "i < n" by (auto simp: size_of_def)
    then show "\<not> gc_moves 8 16 (gc_heap demo_gc (l + i))" by (intro demo_words(3) cells)
  qed (use demo_root_ok(2) in simp)
qed (simp_all add: demo_gc_def)

theorem gc_collect_copies_witness:
  "\<exists>r tb' s'. gc_collect 9 0 [demo_root] demo_tables demo_gc = Some ([r], tb', s') \<and> 8 \<le> gc_next s' \<and> gc_next s' \<le> gc_from_end s'"
  using gc_collect_copies [OF demo_ready(1-4), where ctx = 0] unfolding Let_def by (auto simp: demo_gc_def)

theorem gc_collect_ready_witness:
  "\<exists>roots' tb' s' B'. gc_collect 9 0 [demo_root] demo_tables demo_gc = Some (roots', tb', s') \<and> gc_ready s' B'"
  using gc_collect_ready [OF demo_ready, where ctx = 0] by blast

theorem gc_collect_terms_witness:
  "\<exists>r tb' s'. gc_collect 9 0 [demo_root] demo_tables demo_gc = Some ([r], tb', s') \<and> gc_read s' 3 r = Some (CTR 5 [FVR 1, CTR 6 []])"
proof -
  obtain roots' tb' s' where c: "gc_collect 9 0 [demo_root] demo_tables demo_gc = Some (roots', tb', s')" "length roots' = length [demo_root]"
      "\<forall>i < length [demo_root]. \<forall>k u. gc_read demo_gc k ([demo_root] ! i) = Some u \<longrightarrow> gc_read s' k (roots' ! i) = Some u"
    using gc_collect_terms [OF demo_ready(1-4), where ctx = 0] by blast
  then obtain r where "roots' = [r]" by (auto simp: length_Suc_conv)
  then show ?thesis using c demo_read by auto
qed

text \<open>
  The half below starts at position 0: an application that a collection moves there becomes the
  zero word, which the next collection takes for no term at all.
\<close>

lemma gc_app_at_zero:
  "map_option fst (gc_evacuate 2 4 8 (term_new 0 TAG_APP 0 4) ((\<lambda>_. 0)(4 := term_new 0 TAG_ERA 0 0, 5 := term_new 0 TAG_ERA 0 0), 0)) = Some 0"
  by code_simp

text \<open>The switch knows no size for a dynamic superposition: its cells are left behind.\<close>

lemma gc_dsu_left_behind: "gc_node_size h (term_new 0 TAG_DSU 0 l) = 0" "gc_node_size h (term_new 0 TAG_DDU 0 l) = 0"
  by (simp_all add: gc_node_size_def term_word_simps gc_tag_defs)

end
