(* ===== verification/IC_State.thy ===== *)
theory IC_State
  imports GC_Heap
begin

text \<open>
  The state of the interaction-net runtime, the constructors of its nodes (src/term/new_*.c), the
  primitive table (src/term/new_pri.c) and the test whether a binder is used
  (src/lam/body_uses_var.c). The runtime state extends the heap; what belongs to the tensor
  half of the program (kernels, gradients, shapes of terms) is the field world, of a type of its
  own, and the operations on it are parameters (record tensor_ops). A result None is the end of the
  process: the heap is exhausted, a table is full, or a local array is read past its end.
\<close>

section \<open>Tags and codes\<close>

definition TAG_F_OP2_NUM :: u8 where "TAG_F_OP2_NUM = 26"
definition TAG_F_EQL_R :: u8 where "TAG_F_EQL_R = 27"
definition TAG_F_UOP_CHILD :: u8 where "TAG_F_UOP_CHILD = 28"
definition TAG_BJ0 :: u8 where "TAG_BJ0 = 33"
definition TAG_BJ1 :: u8 where "TAG_BJ1 = 34"
definition LAM_ERA_MASK :: u32 where "LAM_ERA_MASK = push_bit 17 1"
definition UOP_DETACH :: u32 where "UOP_DETACH = 43"
definition MAX_DIM :: u32 where "MAX_DIM = 8"
definition DEFS_CAP :: nat where "DEFS_CAP = 256"
definition ALO_STATE_CAP :: nat where "ALO_STATE_CAP = 2 ^ 22"
definition PRIM_TABLE_CAP :: nat where "PRIM_TABLE_CAP = 64"

lemmas ic_tag_defs = gc_tag_defs TAG_F_OP2_NUM_def TAG_F_EQL_R_def TAG_F_UOP_CHILD_def TAG_BJ0_def TAG_BJ1_def

definition OP_ADD :: u32 where "OP_ADD = 0"
definition OP_SUB :: u32 where "OP_SUB = 1"
definition OP_MUL :: u32 where "OP_MUL = 2"
definition OP_EQ :: u32 where "OP_EQ = 3"
definition OP_LT :: u32 where "OP_LT = 4"
definition OP_DIV :: u32 where "OP_DIV = 5"
definition OP_MOD :: u32 where "OP_MOD = 6"
definition OP_XOR :: u32 where "OP_XOR = 7"
definition OP_AND :: u32 where "OP_AND = 8"
definition OP_OR :: u32 where "OP_OR = 9"
definition OP_SHL :: u32 where "OP_SHL = 10"
definition OP_SHR :: u32 where "OP_SHR = 11"
definition OP_GT :: u32 where "OP_GT = 12"
definition OP_LE :: u32 where "OP_LE = 13"
definition OP_GE :: u32 where "OP_GE = 14"
definition OP_NE :: u32 where "OP_NE = 15"

lemmas op_defs = OP_ADD_def OP_SUB_def OP_MUL_def OP_EQ_def OP_LT_def OP_DIV_def OP_MOD_def OP_XOR_def
  OP_AND_def OP_OR_def OP_SHL_def OP_SHR_def OP_GT_def OP_LE_def OP_GE_def OP_NE_def

section \<open>The runtime state\<close>

text \<open>
  The counter of interactions, the book heap with the definitions, the substitution chains and
  the table of shared duplications of the book expansion (theory IC_Alo), the shape table with
  the number of the current context, and the tensor half. An entry of the chains is a parent id
  with a book position and its position in the heap; id 0 is the empty chain.
\<close>

record share_entry =
  sh_gen :: u32
  sh_state :: u32
  sh_book :: u64
  sh_dyn :: u64

record ('s, 'x) rt = heap +
  itrs :: u64
  book_heap :: "u64 \<Rightarrow> term_w"
  book_defs :: "term_w list"
  alo_states :: "(u32 \<times> u64 \<times> u64) list"
  dup_share :: "nat \<Rightarrow> share_entry"
  dup_share_gen :: u32
  rt_shapes :: "'s shapes"
  rt_ctx :: u64
  rt_last_stack :: "term_w list"
  world :: 'x

definition bump_itrs :: "('s, 'x) rt \<Rightarrow> ('s, 'x) rt" where
  "bump_itrs s = s\<lparr>itrs := itrs s + 1\<rparr>"

text \<open>A primitive receives its collected arguments.\<close>

type_synonym ('s, 'x) prim = "term_w list \<Rightarrow> ('s, 'x) rt \<Rightarrow> (term_w \<times> ('s, 'x) rt) option"

record ('s, 'x) prim_def =
  prim_func :: "('s, 'x) prim option"
  prim_ar :: u32

text \<open>
  The operations of the tensor half: interact_kernel, assign_fire_claim with
  interact_assign_with, interact_grad, thvm_materialize, the annotation of a binder with the shape
  of its argument (term_shape_in), uop_arity and uop_next_active_child; and the primitive table.
\<close>

record ('s, 'x) tensor_ops =
  op_kernel :: "term_w \<Rightarrow> ('s, 'x) rt \<Rightarrow> (term_w \<times> ('s, 'x) rt) option"
  op_assign :: "u64 \<Rightarrow> term_w \<Rightarrow> term_w \<Rightarrow> ('s, 'x) rt \<Rightarrow> (term_w \<times> ('s, 'x) rt) option"
  op_grad :: "term_w \<Rightarrow> ('s, 'x) rt \<Rightarrow> (term_w \<times> ('s, 'x) rt) option"
  op_materialize :: "term_w \<Rightarrow> ('s, 'x) rt \<Rightarrow> (term_w \<times> ('s, 'x) rt) option"
  op_shape_of :: "term_w \<Rightarrow> ('s, 'x) rt \<Rightarrow> 's option"
  op_uop_arity :: "u32 \<Rightarrow> u8"
  op_next_active :: "u64 \<Rightarrow> u8 \<Rightarrow> u8 \<Rightarrow> ('s, 'x) rt \<Rightarrow> u8"
  prim_table :: "('s, 'x) prim_def list"

definition prim_fun :: "('s, 'x) tensor_ops \<Rightarrow> u32 \<Rightarrow> ('s, 'x) prim option" where
  "prim_fun E prim_id = (if unat prim_id \<ge> PRIM_TABLE_CAP then None else prim_func (prim_table E ! unat prim_id))"

definition prim_arity :: "('s, 'x) tensor_ops \<Rightarrow> u32 \<Rightarrow> u32" where
  "prim_arity E prim_id = (if unat prim_id \<ge> PRIM_TABLE_CAP then 0 else prim_ar (prim_table E ! unat prim_id))"

section \<open>Constructors\<close>

definition new_node2 :: "u8 \<Rightarrow> u32 \<Rightarrow> term_w \<Rightarrow> term_w \<Rightarrow> 'a heap_scheme \<Rightarrow> (term_w \<times> 'a heap_scheme) option" where
  "new_node2 tag ext a b h =
     do { (loc, h1) \<leftarrow> heap_alloc 2 h; Some (term_new 0 tag ext loc, heap_set (loc + 1) b (heap_set (loc + 0) a h1)) }"

definition new_node3 :: "u8 \<Rightarrow> term_w \<Rightarrow> term_w \<Rightarrow> term_w \<Rightarrow> 'a heap_scheme \<Rightarrow> (term_w \<times> 'a heap_scheme) option" where
  "new_node3 tag a b c h =
     do { (loc, h1) \<leftarrow> heap_alloc 3 h;
          Some (term_new 0 tag 0 loc, heap_set (loc + 2) c (heap_set (loc + 1) b (heap_set (loc + 0) a h1))) }"

definition term_new_mat :: "u32 \<Rightarrow> term_w \<Rightarrow> term_w \<Rightarrow> 'a heap_scheme \<Rightarrow> (term_w \<times> 'a heap_scheme) option" where
  "term_new_mat match_val handler fallback = new_node2 TAG_MAT match_val handler fallback"
definition term_new_op2 :: "u32 \<Rightarrow> term_w \<Rightarrow> term_w \<Rightarrow> 'a heap_scheme \<Rightarrow> (term_w \<times> 'a heap_scheme) option" where
  "term_new_op2 opcode x y = new_node2 TAG_OP2 opcode x y"
definition term_new_eql :: "term_w \<Rightarrow> term_w \<Rightarrow> 'a heap_scheme \<Rightarrow> (term_w \<times> 'a heap_scheme) option" where
  "term_new_eql a b = new_node2 TAG_EQL 0 a b"
definition term_new_and :: "term_w \<Rightarrow> term_w \<Rightarrow> 'a heap_scheme \<Rightarrow> (term_w \<times> 'a heap_scheme) option" where
  "term_new_and a b = new_node2 TAG_AND 0 a b"
definition term_new_or :: "term_w \<Rightarrow> term_w \<Rightarrow> 'a heap_scheme \<Rightarrow> (term_w \<times> 'a heap_scheme) option" where
  "term_new_or a b = new_node2 TAG_OR 0 a b"
definition term_new_when :: "term_w \<Rightarrow> term_w \<Rightarrow> 'a heap_scheme \<Rightarrow> (term_w \<times> 'a heap_scheme) option" where
  "term_new_when cond body = new_node2 TAG_WHEN 0 cond body"
definition term_new_ann :: "term_w \<Rightarrow> term_w \<Rightarrow> 'a heap_scheme \<Rightarrow> (term_w \<times> 'a heap_scheme) option" where
  "term_new_ann v typ = new_node2 TAG_ANN 0 v typ"
definition term_new_dsu :: "term_w \<Rightarrow> term_w \<Rightarrow> term_w \<Rightarrow> 'a heap_scheme \<Rightarrow> (term_w \<times> 'a heap_scheme) option" where
  "term_new_dsu lab_term a b = new_node3 TAG_DSU lab_term a b"
definition term_new_ddu :: "term_w \<Rightarrow> term_w \<Rightarrow> term_w \<Rightarrow> 'a heap_scheme \<Rightarrow> (term_w \<times> 'a heap_scheme) option" where
  "term_new_ddu lab_term v body = new_node3 TAG_DDU lab_term v body"
definition term_new_inc :: "term_w \<Rightarrow> 'a heap_scheme \<Rightarrow> (term_w \<times> 'a heap_scheme) option" where
  "term_new_inc body h = do { (loc, h1) \<leftarrow> heap_alloc 1 h; Some (term_new 0 TAG_INC 0 loc, heap_set loc body h1) }"
definition term_new_alo :: "term_w \<Rightarrow> u32 \<Rightarrow> 'a heap_scheme \<Rightarrow> (term_w \<times> 'a heap_scheme) option" where
  "term_new_alo book_term state_id = new_node2 TAG_ALO 0 book_term (term_new 0 TAG_NUM DT_INT32 (ucast state_id))"
definition term_new_ref :: "u32 \<Rightarrow> term_w" where "term_new_ref name = term_new 0 TAG_REF name 0"
definition term_new_any :: term_w where "term_new_any = term_new 0 TAG_ANY 0 0"
definition term_new_pri :: "u32 \<Rightarrow> term_w" where "term_new_pri prim_id = term_new 0 TAG_PRI prim_id 0"

section \<open>Is a binder used?\<close>

text \<open>
  A walk from the body of a binder with a bounded stack and a bounded set of visited positions;
  True, also when one of the bounds is met, means that the binder may be used. A variable
  other than the binder is not followed to what it has been substituted by.
\<close>

definition LAM_BODY_MAX_VISITS :: nat where "LAM_BODY_MAX_VISITS = 4096"

definition lam_body_arity :: "term_w \<Rightarrow> nat" where
  "lam_body_arity t =
     (let tag = term_tag t
      in if tag = TAG_LAM then 1
         else if tag \<in> {TAG_APP, TAG_SUP} then 2
         else if tag = TAG_DUP then 1
         else if tag \<in> {TAG_OP2, TAG_MAT, TAG_ALO} then 2
         else if tag \<in> {TAG_DP0, TAG_DP1} then (if term_ext t AND DUP_GRAD_FLAG \<noteq> 0 then 3 else 1)
         else if tag = TAG_UOP
         then let op = ucast (ucast (term_ext t) :: u8)
           in if op = UOP_CONST then 1
              else if op \<in> {UOP_ADD, UOP_MUL, UOP_CMPLT, UOP_CMPEQ, UOP_KERNEL, UOP_ASSIGN} then 2
              else if op \<in> {UOP_NEG, UOP_RECIP, UOP_EXP2, UOP_LOG2, UOP_SQRT, UOP_LOAD, UOP_FLIP, UOP_CAST, UOP_BITCAST,
                        UOP_REDUCE, UOP_RESHAPE, UOP_PERMUTE, UOP_EXPAND, UOP_PAD, UOP_SHRINK} then 1
              else 0
         else if tag \<in> {TAG_EQL, TAG_AND, TAG_OR} then 2
         else if tag = TAG_INC then 1
         else if tag \<in> {TAG_WHEN, TAG_ANN} then 2
         else if tag = TAG_BRI then 1
         else 0)"

text \<open>Pushing the children one by one; None when the stack is full.\<close>

fun push_children :: "term_w list \<Rightarrow> term_w list \<Rightarrow> term_w list option" where
  "push_children [] stack = Some stack"
| "push_children (c # cs) stack =
     (if length stack \<ge> LAM_BODY_MAX_VISITS then None else push_children cs (c # stack))"

function uses_var_loop :: "'a heap_scheme \<Rightarrow> u64 \<Rightarrow> term_w list \<Rightarrow> u64 list \<Rightarrow> bool" where
  "uses_var_loop h lam_loc [] visited = False"
| "uses_var_loop h lam_loc (t # stack) visited =
     (let tag = term_tag t; val = term_val t
      in if tag = TAG_VAR \<and> val = lam_loc then True
         else if tag = TAG_REF \<or> tag = TAG_ALO then True
         else if tag = TAG_UOP \<and> ucast (ucast (term_ext t) :: u8) = UOP_KERNEL then True
         else let children =
             (if tag = TAG_CTR then map (\<lambda>i. term_ctr_at_h h t (of_nat i)) [0..<unat (term_ctr_n_h h t)]
              else map (\<lambda>i. heap_read h (val + of_nat i)) [0..<lam_body_arity t])
           in if children = [] then uses_var_loop h lam_loc stack visited
              else if val \<in> set visited then uses_var_loop h lam_loc stack visited
              else if length visited \<ge> LAM_BODY_MAX_VISITS then True
              else case push_children children stack of
                     None \<Rightarrow> True
                   | Some stack' \<Rightarrow> uses_var_loop h lam_loc stack' (visited @ [val]))"
  by pat_completeness auto
termination
  by (relation "measures [\<lambda>(h, lam_loc, stack, visited). LAM_BODY_MAX_VISITS - length visited,
      \<lambda>(h, lam_loc, stack, visited). length stack]") auto

definition lam_body_uses_var :: "'a heap_scheme \<Rightarrow> u64 \<Rightarrow> bool" where
  "lam_body_uses_var h lam_loc = uses_var_loop h lam_loc [heap_read h lam_loc] []"

definition lam_seal_ext :: "'a heap_scheme \<Rightarrow> u64 \<Rightarrow> u32 \<Rightarrow> u32" where
  "lam_seal_ext h lam_loc base_ext = (if lam_body_uses_var h lam_loc then base_ext else base_ext OR LAM_ERA_MASK)"

end
