(* ===== verification/IC_Rules.thy ===== *)
theory IC_Rules
  imports IC_State
begin

text \<open>
  The interaction rules, one definition per file of src/interact: applications (app_lam, app_era,
  app_sup, app_bri, app_pri, app_mat_sup), duplications (dup_*), dynamic labels (dsu_*, ddu_*),
  operators on superpositions (op2_sup, op2_num_sup) and annotations (ann_lam, ann_bri). The
  events they emit for tracing are not modelled.
\<close>

section \<open>Applications\<close>

definition materialize_body :: "('s, 'x) tensor_ops \<Rightarrow> term_w \<Rightarrow> ('s, 'x) rt \<Rightarrow> (term_w \<times> ('s, 'x) rt) option" where
  "materialize_body E body s =
     (if term_tag body = TAG_UOP \<and> term_ext body \<noteq> UOP_KERNEL then op_materialize E body s else Some (body, s))"

definition interact_app_lam :: "('s, 'x) tensor_ops \<Rightarrow> term_w \<Rightarrow> term_w \<Rightarrow> ('s, 'x) rt \<Rightarrow> (term_w \<times> ('s, 'x) rt) option" where
  "interact_app_lam E lam arg s0 =
     (let s = bump_itrs s0; loc = term_val lam; body = heap_read s loc
      in if term_ext lam AND LAM_ERA_MASK \<noteq> 0 then materialize_body E body s
         else let s1 = (case op_shape_of E arg s of
                          None \<Rightarrow> s | Some sh \<Rightarrow> s\<lparr>rt_shapes := lam_shape_set (rt_ctx s) loc sh (rt_shapes s)\<rparr>)
           in do { (body', s2) \<leftarrow> materialize_body E body s1; Some (body', heap_subst_var loc arg s2) })"

definition interact_app_era :: "('s, 'x) rt \<Rightarrow> term_w \<times> ('s, 'x) rt" where
  "interact_app_era s = (term_new 0 TAG_ERA 0 0, bump_itrs s)"

definition interact_app_sup :: "term_w \<Rightarrow> term_w \<Rightarrow> ('s, 'x) rt \<Rightarrow> (term_w \<times> ('s, 'x) rt) option" where
  "interact_app_sup supt arg s =
     (let sup_loc = term_val supt; lab = term_ext supt; f = heap_read s sup_loc; g = heap_read s (sup_loc + 1)
      in do { (c, s1) \<leftarrow> heap_alloc 7 (bump_itrs s);
              let s2 = heap_set c arg s1;
                  s3 = heap_set (c + 2) (term_new 0 TAG_DP0 lab c) (heap_set (c + 1) f s2);
                  s4 = heap_set (c + 4) (term_new 0 TAG_DP1 lab c) (heap_set (c + 3) g s3);
                  s5 = heap_set (c + 6) (term_new 0 TAG_APP 0 (c + 3)) (heap_set (c + 5) (term_new 0 TAG_APP 0 (c + 1)) s4)
              in Some (term_new 0 TAG_SUP lab (c + 5), s5) })"

definition interact_app_bri :: "term_w \<Rightarrow> term_w \<Rightarrow> ('s, 'x) rt \<Rightarrow> (term_w \<times> ('s, 'x) rt) option" where
  "interact_app_bri bri arg s =
     (let bri_loc = term_val bri; body = heap_read s bri_loc
      in do { (c, s1) \<leftarrow> heap_alloc 6 (bump_itrs s);
              let new_bri_loc = c; k_loc = c + 1; app_loc = c + 2; ann_loc = c + 4;
                  s2 = heap_set k_loc (term_new 0 TAG_VAR 0 new_bri_loc) s1;
                  inner_lam = term_new 0 TAG_LAM (lam_seal_ext s2 k_loc 0) k_loc;
                  s3 = heap_set (ann_loc + 1) arg (heap_set ann_loc (term_new 0 TAG_VAR 0 k_loc) s2);
                  s4 = heap_set (app_loc + 1) (term_new 0 TAG_ANN 0 ann_loc) (heap_set app_loc body s3);
                  s5 = heap_set new_bri_loc (term_new 0 TAG_APP 0 app_loc) s4;
                  s6 = heap_subst_var bri_loc inner_lam s5
              in Some (term_new 0 TAG_BRI 0 new_bri_loc, s6) })"

definition interact_app_pri :: "('s, 'x) tensor_ops \<Rightarrow> term_w \<Rightarrow> term_w \<Rightarrow> ('s, 'x) rt \<Rightarrow> (term_w \<times> ('s, 'x) rt) option" where
  "interact_app_pri E pri arg s0 =
     (let s = bump_itrs s0; prim_id = term_ext pri; arity = prim_arity E prim_id; old_loc = term_val pri;
          old_n = (if old_loc \<noteq> 0 then ucast (term_val (heap_read s old_loc)) else 0 :: u32); new_n = old_n + 1
      in do { (new_loc, s1) \<leftarrow> heap_alloc (ucast (1 + new_n)) s;
              let s2 = heap_set new_loc (term_new 0 TAG_NUM DT_INT32 (ucast new_n)) s1;
                  s3 = fold (\<lambda>i st. heap_set (new_loc + 1 + of_nat i) (heap_read st (old_loc + 1 + of_nat i)) st) [0..<unat old_n] s2;
                  s4 = heap_set (new_loc + 1 + ucast old_n) arg s3
              in if new_n \<ge> arity
                 then (case prim_fun E prim_id of
                         None \<Rightarrow> Some (term_new 0 TAG_ERA 0 0, s4)
                       | Some f \<Rightarrow> let n = (if arity > 16 then 16 else unat arity)
                           in f (map (\<lambda>i. heap_read s4 (new_loc + 1 + of_nat i)) [0..<n]) s4)
                 else Some (term_new 0 TAG_PRI prim_id new_loc, s4) })"

definition interact_app_mat_sup :: "term_w \<Rightarrow> term_w \<Rightarrow> ('s, 'x) rt \<Rightarrow> (term_w \<times> ('s, 'x) rt) option" where
  "interact_app_mat_sup mat supt s =
     (let sup_loc = term_val supt; lab = term_ext supt; mat_loc = term_val mat; m = term_ext mat;
          handler = heap_read s mat_loc; fallback = heap_read s (mat_loc + 1);
          a = heap_read s sup_loc; b = heap_read s (sup_loc + 1)
      in do { (c, s1) \<leftarrow> heap_alloc 12 (bump_itrs s);
              let s2 = heap_set (c + 1) fallback (heap_set c handler s1);
                  s3 = heap_set (c + 3) (term_new 0 TAG_DP0 lab (c + 1)) (heap_set (c + 2) (term_new 0 TAG_DP0 lab c) s2);
                  s4 = heap_set (c + 5) (term_new 0 TAG_DP1 lab (c + 1)) (heap_set (c + 4) (term_new 0 TAG_DP1 lab c) s3);
                  s5 = heap_set (c + 7) a (heap_set (c + 6) (term_new 0 TAG_MAT m (c + 2)) s4);
                  s6 = heap_set (c + 9) b (heap_set (c + 8) (term_new 0 TAG_MAT m (c + 4)) s5);
                  s7 = heap_set (c + 11) (term_new 0 TAG_APP 0 (c + 8)) (heap_set (c + 10) (term_new 0 TAG_APP 0 (c + 6)) s6)
              in Some (term_new 0 TAG_SUP lab (c + 10), s7) })"

section \<open>Duplications\<close>

text \<open>DUP-LAM and DUP-BRI allocate the same block: two binders, the superposed variable, the body.\<close>

definition dup_binder_block :: "u32 \<Rightarrow> u64 \<Rightarrow> term_w \<Rightarrow> ('s, 'x) rt \<Rightarrow> ('s, 'x) rt" where
  "dup_binder_block lab a body s =
     (let s1 = heap_set (a + 4) body s;
          s2 = heap_set (a + 1) (term_new 0 TAG_DP1 lab (a + 4)) (heap_set a (term_new 0 TAG_DP0 lab (a + 4)) s1)
      in heap_set (a + 3) (term_new 0 TAG_VAR 0 (a + 1)) (heap_set (a + 2) (term_new 0 TAG_VAR 0 a) s2))"

definition interact_dup_lam :: "u32 \<Rightarrow> u64 \<Rightarrow> u8 \<Rightarrow> term_w \<Rightarrow> ('s, 'x) rt \<Rightarrow> (term_w \<times> ('s, 'x) rt) option" where
  "interact_dup_lam lab loc side lam s =
     (let lam_ext = term_ext lam; lam_loc = term_val lam; body = heap_read s lam_loc
      in do { (a, s1) \<leftarrow> heap_alloc 5 (bump_itrs s);
              let s2 = dup_binder_block lab a body s1; supt = term_new 0 TAG_SUP lab (a + 2);
                  l0 = term_new 0 TAG_LAM lam_ext a; l1 = term_new 0 TAG_LAM lam_ext (a + 1);
                  s3 = (if lam_ext AND LAM_ERA_MASK \<noteq> 0 then s2 else heap_subst_var lam_loc supt s2)
              in Some (heap_subst_cop side loc l0 l1 s3) })"

definition interact_dup_bri :: "u32 \<Rightarrow> u64 \<Rightarrow> u8 \<Rightarrow> term_w \<Rightarrow> ('s, 'x) rt \<Rightarrow> (term_w \<times> ('s, 'x) rt) option" where
  "interact_dup_bri lab loc side bri s =
     (let bri_loc = term_val bri; body = heap_read s bri_loc
      in do { (a, s1) \<leftarrow> heap_alloc 5 (bump_itrs s);
              let s2 = dup_binder_block lab a body s1; supt = term_new 0 TAG_SUP lab (a + 2);
                  b0 = term_new 0 TAG_BRI 0 a; b1 = term_new 0 TAG_BRI 0 (a + 1);
                  s3 = heap_subst_var bri_loc supt s2
              in Some (heap_subst_cop side loc b0 b1 s3) })"

definition interact_dup_sup :: "u32 \<Rightarrow> u64 \<Rightarrow> u8 \<Rightarrow> term_w \<Rightarrow> ('s, 'x) rt \<Rightarrow> (term_w \<times> ('s, 'x) rt) option" where
  "interact_dup_sup lab loc side supt s0 =
     (let sup_loc = term_val supt; sup_lab = term_ext supt; s = bump_itrs s0;
          a = heap_read s sup_loc; b = heap_read s (sup_loc + 1)
      in if lab = sup_lab then Some (heap_subst_cop side loc a b s)
         else do { (c, s1) \<leftarrow> heap_alloc 6 s;
                   let s2 = heap_set (c + 1) b (heap_set c a s1);
                       s3 = heap_set (c + 3) (term_new 0 TAG_DP0 lab (c + 1)) (heap_set (c + 2) (term_new 0 TAG_DP0 lab c) s2);
                       s4 = heap_set (c + 5) (term_new 0 TAG_DP1 lab (c + 1)) (heap_set (c + 4) (term_new 0 TAG_DP1 lab c) s3);
                       x0 = term_new 0 TAG_SUP sup_lab (c + 2); x1 = term_new 0 TAG_SUP sup_lab (c + 4)
                   in Some (heap_subst_cop side loc x0 x1 s4) })"

text \<open>An atom is copied to both sides: ERA, NUM, ANY and TEN.\<close>

definition dup_atom :: "u8 \<Rightarrow> u64 \<Rightarrow> term_w \<Rightarrow> ('s, 'x) rt \<Rightarrow> term_w \<times> ('s, 'x) rt" where
  "dup_atom side loc t s = heap_subst_cop side loc t t (bump_itrs s)"

definition interact_dup_era :: "u8 \<Rightarrow> u64 \<Rightarrow> term_w \<Rightarrow> ('s, 'x) rt \<Rightarrow> term_w \<times> ('s, 'x) rt" where
  "interact_dup_era = dup_atom"
definition interact_dup_num :: "u8 \<Rightarrow> u64 \<Rightarrow> term_w \<Rightarrow> ('s, 'x) rt \<Rightarrow> term_w \<times> ('s, 'x) rt" where
  "interact_dup_num = dup_atom"
definition interact_dup_any :: "u8 \<Rightarrow> u64 \<Rightarrow> term_w \<Rightarrow> ('s, 'x) rt \<Rightarrow> term_w \<times> ('s, 'x) rt" where
  "interact_dup_any = dup_atom"
definition interact_dup_ten :: "u8 \<Rightarrow> u64 \<Rightarrow> term_w \<Rightarrow> ('s, 'x) rt \<Rightarrow> term_w \<times> ('s, 'x) rt" where
  "interact_dup_ten = dup_atom"

text \<open>One shared body per child, with the two projections on it.\<close>

fun dup_children :: "u32 \<Rightarrow> u64 \<Rightarrow> nat list \<Rightarrow> ('s, 'x) rt \<Rightarrow> (term_w list \<times> term_w list \<times> ('s, 'x) rt) option" where
  "dup_children lab base [] s = Some ([], [], s)"
| "dup_children lab base (i # is) s =
     do { (body, s1) \<leftarrow> heap_alloc 1 s;
          (ch0, ch1, s2) \<leftarrow> dup_children lab base is (heap_set body (heap_read s1 (base + of_nat i)) s1);
          Some (term_new 0 TAG_DP0 lab body # ch0, term_new 0 TAG_DP1 lab body # ch1, s2) }"

definition interact_dup_ctr :: "u32 \<Rightarrow> u64 \<Rightarrow> u8 \<Rightarrow> term_w \<Rightarrow> ('s, 'x) rt \<Rightarrow> (term_w \<times> ('s, 'x) rt) option" where
  "interact_dup_ctr lab loc side ctr s0 =
     (let s = bump_itrs s0; n = unat (term_ctr_n_h s ctr); k = term_ext ctr
      in if n = 0 then Some (heap_subst_cop side loc ctr ctr s)
         else if n > 16 then None
         else do { (ch0, ch1, s1) \<leftarrow> dup_children lab (term_val ctr + 1) [0..<n] s;
                   (r0, s2) \<leftarrow> term_new_ctr_h k ch0 s1;
                   (r1, s3) \<leftarrow> term_new_ctr_h k ch1 s2;
                   Some (heap_subst_cop side loc r0 r1 s3) })"

definition dup_nod_arity :: "u8 \<Rightarrow> nat" where
  "dup_nod_arity tag =
     (if tag = TAG_INC then 1
      else if tag \<in> {TAG_OP2, TAG_MAT, TAG_EQL, TAG_AND, TAG_OR, TAG_WHEN, TAG_ANN} then 2
      else if tag \<in> {TAG_DSU, TAG_DDU} then 3 else 0)"

fun dup_nod_fill :: "u32 \<Rightarrow> u64 \<Rightarrow> u64 \<Rightarrow> u64 \<Rightarrow> nat list \<Rightarrow> ('s, 'x) rt \<Rightarrow> ('s, 'x) rt option" where
  "dup_nod_fill lab t_loc r0_loc r1_loc [] s = Some s"
| "dup_nod_fill lab t_loc r0_loc r1_loc (i # is) s =
     do { (body, s1) \<leftarrow> heap_alloc 1 s;
          let s2 = heap_set body (heap_read s1 (t_loc + of_nat i)) s1;
              s3 = heap_set (r0_loc + of_nat i) (term_new 0 TAG_DP0 lab body) s2;
              s4 = heap_set (r1_loc + of_nat i) (term_new 0 TAG_DP1 lab body) s3
          in dup_nod_fill lab t_loc r0_loc r1_loc is s4 }"

definition interact_dup_nod :: "u32 \<Rightarrow> u64 \<Rightarrow> u8 \<Rightarrow> term_w \<Rightarrow> ('s, 'x) rt \<Rightarrow> (term_w \<times> ('s, 'x) rt) option" where
  "interact_dup_nod lab loc side t s0 =
     (let t_tag = term_tag t; ari = dup_nod_arity t_tag; s = bump_itrs s0; t_loc = term_val t; t_ext = term_ext t
      in if ari = 0 then Some (heap_subst_cop side loc t t s)
         else do { (r0_loc, s1) \<leftarrow> heap_alloc (of_nat ari) s;
                   (r1_loc, s2) \<leftarrow> heap_alloc (of_nat ari) s1;
                   s3 \<leftarrow> dup_nod_fill lab t_loc r0_loc r1_loc [0..<ari] s2;
                   Some (heap_subst_cop side loc (term_new 0 t_tag t_ext r0_loc) (term_new 0 t_tag t_ext r1_loc) s3) })"

text \<open>None stands for the result 0: the operation is active and the duplication stays.\<close>

definition interact_dup_uop :: "u64 \<Rightarrow> u8 \<Rightarrow> term_w \<Rightarrow> ('s, 'x) rt \<Rightarrow> (term_w \<times> ('s, 'x) rt) option" where
  "interact_dup_uop loc side uop s =
     (if ucast (ucast (term_ext uop) :: u8) \<in> {UOP_KERNEL, UOP_ASSIGN, UOP_STORE, UOP_AFTER} then None
      else Some (heap_subst_cop side loc uop uop (bump_itrs s)))"

section \<open>Dynamic labels\<close>

definition interact_dsu_era :: "('s, 'x) rt \<Rightarrow> term_w \<times> ('s, 'x) rt" where
  "interact_dsu_era s = (term_new 0 TAG_ERA 0 0, bump_itrs s)"

definition interact_ddu_era :: "('s, 'x) rt \<Rightarrow> term_w \<times> ('s, 'x) rt" where
  "interact_ddu_era s = (term_new 0 TAG_ERA 0 0, bump_itrs s)"

definition interact_dsu_num :: "u64 \<Rightarrow> term_w \<Rightarrow> ('s, 'x) rt \<Rightarrow> (term_w \<times> ('s, 'x) rt) option" where
  "interact_dsu_num dsu_loc lab_num s =
     (let lab = ucast (term_val lab_num); a = heap_read s (dsu_loc + 1); b = heap_read s (dsu_loc + 2)
      in do { (c, s1) \<leftarrow> heap_alloc 2 s;
              Some (term_new 0 TAG_SUP lab c, bump_itrs (heap_set (c + 1) b (heap_set c a s1))) })"

definition interact_ddu_num :: "u64 \<Rightarrow> term_w \<Rightarrow> ('s, 'x) rt \<Rightarrow> (term_w \<times> ('s, 'x) rt) option" where
  "interact_ddu_num ddu_loc lab_num s =
     (let lab = ucast (term_val lab_num); v = heap_read s (ddu_loc + 1); bod = heap_read s (ddu_loc + 2)
      in do { (c, s1) \<leftarrow> heap_alloc 1 s;
              (a0, s2) \<leftarrow> heap_alloc 2 (heap_set c v s1);
              let s3 = heap_set (a0 + 1) (term_new 0 TAG_DP0 lab c) (heap_set a0 bod s2)
              in do { (a1, s4) \<leftarrow> heap_alloc 2 s3;
                      Some (term_new 0 TAG_APP 0 a1,
                        bump_itrs (heap_set (a1 + 1) (term_new 0 TAG_DP1 lab c) (heap_set a1 (term_new 0 TAG_APP 0 a0) s4))) } })"

text \<open>DSU-SUP and DDU-SUP build the same nodes under their own tag.\<close>

definition dyn_sup :: "u8 \<Rightarrow> u64 \<Rightarrow> term_w \<Rightarrow> ('s, 'x) rt \<Rightarrow> (term_w \<times> ('s, 'x) rt) option" where
  "dyn_sup tag loc lab_sup s =
     (let lab = term_ext lab_sup; sup_loc = term_val lab_sup; x = heap_read s sup_loc; y = heap_read s (sup_loc + 1);
          a = heap_read s (loc + 1); b = heap_read s (loc + 2)
      in do { (c, s1) \<leftarrow> heap_alloc 6 s;
              let A0 = term_new 0 TAG_DP0 lab c; B0 = term_new 0 TAG_DP0 lab (c + 1);
                  A1 = term_new 0 TAG_DP1 lab c; B1 = term_new 0 TAG_DP1 lab (c + 1);
                  s2 = heap_set (c + 1) b (heap_set c a s1);
                  s3 = heap_set (c + 5) B1 (heap_set (c + 4) A1 (heap_set (c + 3) B0 (heap_set (c + 2) A0 s2)))
              in do { (d0, s4) \<leftarrow> new_node3 tag x A0 B0 s3;
                      (d1, s5) \<leftarrow> new_node3 tag y A1 B1 s4;
                      (r, s6) \<leftarrow> new_node2 TAG_SUP lab d0 d1 s5;
                      Some (r, bump_itrs s6) } })"

definition interact_dsu_sup :: "u64 \<Rightarrow> term_w \<Rightarrow> ('s, 'x) rt \<Rightarrow> (term_w \<times> ('s, 'x) rt) option" where
  "interact_dsu_sup = dyn_sup TAG_DSU"

definition interact_ddu_sup :: "u64 \<Rightarrow> term_w \<Rightarrow> ('s, 'x) rt \<Rightarrow> (term_w \<times> ('s, 'x) rt) option" where
  "interact_ddu_sup = dyn_sup TAG_DDU"

section \<open>Operators and annotations\<close>

definition interact_op2_sup :: "u32 \<Rightarrow> term_w \<Rightarrow> term_w \<Rightarrow> ('s, 'x) rt \<Rightarrow> (term_w \<times> ('s, 'x) rt) option" where
  "interact_op2_sup opr supt y s =
     (let sup_loc = term_val supt; lab = term_ext supt; a = heap_read s sup_loc; b = heap_read s (sup_loc + 1)
      in do { (c, s1) \<leftarrow> heap_alloc 7 (bump_itrs s);
              let s2 = heap_set c y s1;
                  s3 = heap_set (c + 2) (term_new 0 TAG_DP0 lab c) (heap_set (c + 1) a s2);
                  s4 = heap_set (c + 4) (term_new 0 TAG_DP1 lab c) (heap_set (c + 3) b s3);
                  s5 = heap_set (c + 6) (term_new 0 TAG_OP2 opr (c + 3)) (heap_set (c + 5) (term_new 0 TAG_OP2 opr (c + 1)) s4)
              in Some (term_new 0 TAG_SUP lab (c + 5), s5) })"

definition interact_op2_num_sup :: "u32 \<Rightarrow> term_w \<Rightarrow> term_w \<Rightarrow> ('s, 'x) rt \<Rightarrow> (term_w \<times> ('s, 'x) rt) option" where
  "interact_op2_num_sup opr num supt s =
     (let sup_loc = term_val supt; lab = term_ext supt; a = heap_read s sup_loc; b = heap_read s (sup_loc + 1)
      in do { (c, s1) \<leftarrow> heap_alloc 6 (bump_itrs s);
              let s2 = heap_set (c + 1) a (heap_set c num s1);
                  s3 = heap_set (c + 3) b (heap_set (c + 2) num s2);
                  s4 = heap_set (c + 5) (term_new 0 TAG_OP2 opr (c + 2)) (heap_set (c + 4) (term_new 0 TAG_OP2 opr c) s3)
              in Some (term_new 0 TAG_SUP lab (c + 4), s4) })"

definition interact_ann_lam :: "term_w \<Rightarrow> term_w \<Rightarrow> ('s, 'x) rt \<Rightarrow> (term_w \<times> ('s, 'x) rt) option" where
  "interact_ann_lam v lam s =
     (let lam_loc = term_val lam; body = heap_read s lam_loc
      in do { (c, s1) \<leftarrow> heap_alloc 6 (bump_itrs s);
              let new_lam_loc = c; k_loc = c + 1; app_loc = c + 2; ann_inner_loc = c + 4;
                  s2 = heap_set k_loc (term_new 0 TAG_VAR 0 new_lam_loc) s1;
                  inner_val = term_new 0 TAG_BRI 0 k_loc;
                  s3 = heap_set (app_loc + 1) (term_new 0 TAG_VAR 0 k_loc) (heap_set app_loc v s2);
                  s4 = heap_set (ann_inner_loc + 1) body (heap_set ann_inner_loc (term_new 0 TAG_APP 0 app_loc) s3);
                  s5 = heap_set new_lam_loc (term_new 0 TAG_ANN 0 ann_inner_loc) s4;
                  s6 = heap_subst_var lam_loc inner_val s5
              in Some (term_new 0 TAG_LAM (lam_seal_ext s6 new_lam_loc 0) new_lam_loc, s6) })"

definition interact_ann_bri :: "term_w \<Rightarrow> term_w \<Rightarrow> ('s, 'x) rt \<Rightarrow> term_w \<times> ('s, 'x) rt" where
  "interact_ann_bri v bri s =
     (let bri_loc = term_val bri; body = heap_read s bri_loc in (body, heap_subst_var bri_loc v (bump_itrs s)))"

end
