(* ===== verification/IC_Alo.thy ===== *)
theory IC_Alo
  imports IC_Rules
begin

text \<open>
  Lazy expansion of book definitions (src/alo): alo_realize copies one layer of a template from
  the book heap to the dynamic heap, alo_force does it once per suspension and remembers the
  result. A chain of (parent, book position, heap position) entries renames the binders, and a
  hash table makes both projections of a book duplication share one copy.
\<close>

section \<open>Substitution chains\<close>

definition alo_state_push :: "u32 \<Rightarrow> u64 \<Rightarrow> u64 \<Rightarrow> ('s, 'x) rt \<Rightarrow> (u32 \<times> ('s, 'x) rt) option" where
  "alo_state_push parent old_loc new_loc s =
     (if length (alo_states s) \<ge> ALO_STATE_CAP then None
      else Some (of_nat (length (alo_states s)), s\<lparr>alo_states := alo_states s @ [(parent, old_loc, new_loc)]\<rparr>))"

partial_function (option) alo_state_lookup :: "(u32 \<times> u64 \<times> u64) list \<Rightarrow> u32 \<Rightarrow> u64 \<Rightarrow> u64 option option" where
  "alo_state_lookup states cur old_loc =
     (if cur = 0 then Some None
      else case states ! unat cur of
             (parent, old, new) \<Rightarrow> if old = old_loc then Some (Some new) else alo_state_lookup states parent old_loc)"

declare alo_state_lookup.simps [code]

section \<open>Shared duplications\<close>

definition DUP_SHARE_MASK :: u32 where "DUP_SHARE_MASK = mask 20"
definition DUP_SHARE_PROBE :: nat where "DUP_SHARE_PROBE = 8"

definition alo_dup_share_reset :: "('s, 'x) rt \<Rightarrow> ('s, 'x) rt" where
  "alo_dup_share_reset s =
     (let g = dup_share_gen s + 1
      in if g = 0 then s\<lparr>dup_share := (\<lambda>_. \<lparr>sh_gen = 0, sh_state = 0, sh_book = 0, sh_dyn = 0\<rparr>), dup_share_gen := 1\<rparr>
         else s\<lparr>dup_share_gen := g\<rparr>)"

definition dup_share_hash :: "u32 \<Rightarrow> u64 \<Rightarrow> u32" where
  "dup_share_hash st book =
     (let h = ucast st * 2654435761 + book * 11400714785074694791 :: u64 in ucast (drop_bit 32 h XOR h) AND DUP_SHARE_MASK)"

definition share_slots :: "u32 \<Rightarrow> u64 \<Rightarrow> nat list" where
  "share_slots st book = map (\<lambda>i. unat ((dup_share_hash st book + of_nat i) AND DUP_SHARE_MASK)) [0..<DUP_SHARE_PROBE]"

fun share_find :: "(nat \<Rightarrow> share_entry) \<Rightarrow> u32 \<Rightarrow> u32 \<Rightarrow> u64 \<Rightarrow> nat list \<Rightarrow> u64 option" where
  "share_find tab g st book [] = None"
| "share_find tab g st book (slot # slots) =
     (let e = tab slot
      in if sh_gen e \<noteq> g then None
         else if sh_state e = st \<and> sh_book e = book then Some (sh_dyn e) else share_find tab g st book slots)"

definition dup_share_lookup :: "u32 \<Rightarrow> u64 \<Rightarrow> ('s, 'x) rt \<Rightarrow> u64 option" where
  "dup_share_lookup st book s = share_find (dup_share s) (dup_share_gen s) st book (share_slots st book)"

fun share_insert :: "(nat \<Rightarrow> share_entry) \<Rightarrow> share_entry \<Rightarrow> nat list \<Rightarrow> (nat \<Rightarrow> share_entry)" where
  "share_insert tab new [] = tab"
| "share_insert tab new (slot # slots) = (if sh_gen (tab slot) \<noteq> sh_gen new then tab(slot := new) else share_insert tab new slots)"

definition dup_share_push :: "u32 \<Rightarrow> u64 \<Rightarrow> u64 \<Rightarrow> ('s, 'x) rt \<Rightarrow> ('s, 'x) rt" where
  "dup_share_push st book dyn s =
     s\<lparr>dup_share := share_insert (dup_share s) \<lparr>sh_gen = dup_share_gen s, sh_state = st, sh_book = book, sh_dyn = dyn\<rparr>
         (share_slots st book)\<rparr>"

section \<open>Expansion\<close>

definition book_read :: "('s, 'x) rt \<Rightarrow> u64 \<Rightarrow> term_w" where "book_read s loc = book_heap s loc"

definition alo_node_arity :: "('s, 'x) rt \<Rightarrow> u8 \<Rightarrow> u32 \<Rightarrow> u64 \<Rightarrow> u32" where
  "alo_node_arity s tag ext val =
     (if tag \<in> {TAG_APP, TAG_SUP} then 2
      else if tag = TAG_DUP then 1
      else if tag \<in> {TAG_OP2, TAG_MAT, TAG_EQL, TAG_AND, TAG_OR, TAG_WHEN} then 2
      else if tag \<in> {TAG_DP0, TAG_DP1} then (if ext AND DUP_GRAD_FLAG \<noteq> 0 then 3 else 1)
      else if tag = TAG_UOP
      then (if ext = UOP_CONST then 1
            else if ext \<in> {UOP_ADD, UOP_MUL, UOP_CMPLT} then 2
            else if ext \<in> {UOP_NEG, UOP_RECIP, UOP_EXP2, UOP_LOG2, UOP_SQRT} then 1
            else if ext = UOP_REDUCE
            then let n_cell = book_read s (val + 2); n_axes = (if term_tag n_cell = TAG_NUM then ucast (term_val n_cell) else 1)
              in 3 + (if n_axes > MAX_DIM then MAX_DIM else n_axes)
            else if ext = UOP_LOAD then 1
            else if ext = UOP_KERNEL then 2 else 0)
      else 0)"

definition alo_suspend_child :: "term_w \<Rightarrow> u32 \<Rightarrow> ('s, 'x) rt \<Rightarrow> (term_w \<times> ('s, 'x) rt) option" where
  "alo_suspend_child book_child st s =
     (if term_tag book_child \<in> {TAG_NUM, TAG_TEN, TAG_REF, TAG_ERA} then Some (book_child, s)
      else term_new_alo book_child st s)"

fun alo_suspend_cells :: "u64 \<Rightarrow> u64 \<Rightarrow> u32 \<Rightarrow> nat list \<Rightarrow> ('s, 'x) rt \<Rightarrow> ('s, 'x) rt option" where
  "alo_suspend_cells from dst st [] s = Some s"
| "alo_suspend_cells from dst st (i # is) s =
     do { (c, s1) \<leftarrow> alo_suspend_child (book_read s (from + of_nat i)) st s;
          alo_suspend_cells from dst st is (heap_set (dst + of_nat i) c s1) }"

text \<open>A projection on a shared copy of the book duplication at val.\<close>

definition alo_dup :: "u8 \<Rightarrow> u32 \<Rightarrow> u64 \<Rightarrow> u32 \<Rightarrow> ('s, 'x) rt \<Rightarrow> (term_w \<times> ('s, 'x) rt) option" where
  "alo_dup dp_tag ext val st s =
     (case dup_share_lookup st val s of
        Some new_loc \<Rightarrow> Some (term_new 0 dp_tag ext new_loc, s)
      | None \<Rightarrow> do { (new_loc, s1) \<leftarrow> heap_alloc 1 s;
                     (c, s2) \<leftarrow> alo_suspend_child (book_read s1 val) st s1;
                     Some (term_new 0 dp_tag ext new_loc, dup_share_push st val new_loc (heap_set new_loc c s2)) })"

definition alo_realize :: "term_w \<Rightarrow> u32 \<Rightarrow> ('s, 'x) rt \<Rightarrow> (term_w \<times> ('s, 'x) rt) option" where
  "alo_realize book_term st s =
     (let tag = term_tag book_term; ext = term_ext book_term; val = term_val book_term;
          default_node = (let ar = alo_node_arity s tag ext val
            in if ar = 0 then Some (book_term, s)
               else do { (new_loc, s1) \<leftarrow> heap_alloc (ucast ar) s;
                         s2 \<leftarrow> alo_suspend_cells val new_loc st [0..<unat ar] s1;
                         Some (term_new 0 tag ext new_loc, s2) })
      in if tag \<in> {TAG_NUM, TAG_TEN, TAG_REF, TAG_ERA} then Some (book_term, s)
         else if tag = TAG_VAR
         then do { r \<leftarrow> alo_state_lookup (alo_states s) st val;
                   Some (case r of Some dyn_loc \<Rightarrow> term_new 0 TAG_VAR ext dyn_loc | None \<Rightarrow> book_term, s) }
         else if tag \<in> {TAG_DP0, TAG_DP1}
         then (if ext AND DUP_GRAD_FLAG \<noteq> 0 then default_node else alo_dup tag ext val st s)
         else if tag \<in> {TAG_BJ0, TAG_BJ1} then alo_dup (if tag = TAG_BJ0 then TAG_DP0 else TAG_DP1) ext val st s
         else if tag = TAG_CTR
         then let n_cell = book_read s val
           in if term_tag n_cell \<noteq> TAG_NUM then Some (book_term, s)
              else let n = ucast (term_val n_cell) :: u32
                in do { (new_loc, s1) \<leftarrow> heap_alloc (ucast (1 + n)) s;
                        s2 \<leftarrow> alo_suspend_cells (val + 1) (new_loc + 1) st [0..<unat n] (heap_set new_loc n_cell s1);
                        Some (term_new 0 TAG_CTR ext new_loc, s2) }
         else if tag = TAG_LAM
         then do { (new_loc, s1) \<leftarrow> heap_alloc 1 s;
                   (body_st, s2) \<leftarrow> alo_state_push st val new_loc s1;
                   (c, s3) \<leftarrow> alo_suspend_child (book_read s2 val) body_st s2;
                   let s4 = heap_set new_loc c s3;
                       s5 = (case lam_shape_lookup_book (rt_ctx s4) val (rt_shapes s4) of
                               None \<Rightarrow> s4 | Some sh \<Rightarrow> s4\<lparr>rt_shapes := lam_shape_set (rt_ctx s4) new_loc sh (rt_shapes s4)\<rparr>)
                   in Some (term_new 0 TAG_LAM ext new_loc, s5) }
         else default_node)"

definition alo_force :: "term_w \<Rightarrow> ('s, 'x) rt \<Rightarrow> (term_w \<times> ('s, 'x) rt) option" where
  "alo_force alo_term s =
     (let alo_loc = term_val alo_term; book_term = heap_read s alo_loc; sid_cell = heap_read s (alo_loc + 1)
      in if term_tag sid_cell \<noteq> TAG_NUM then Some (book_term, s)
         else do { (realised, s1) \<leftarrow> alo_realize book_term (ucast (term_val sid_cell)) s;
                   Some (realised, heap_set (alo_loc + 1) (term_new 0 TAG_ERA 0 0) (heap_set alo_loc realised s1)) })"

end
