(* ===== verification/IC_Wnf.thy ===== *)
theory IC_Wnf
  imports IC_Alo
begin

text \<open>
  The reducer to weak normal form (src/wnf/_.c, wnf_n and wnf), the collapsed normal form it
  calls for stuck projections (src/cnf/_.c) and term_resolve (src/term/resolve.c). The stack is a
  list with the top first, cut at the base of the call, which no frame below can be reached from;
  its capacity of 2^16 frames, that the code does not test, is not modelled. The reducer and the
  collapse call each other, so both take fuel; None is fuel that ran out or the end of the process.
\<close>

section \<open>Numbers\<close>

definition op2_eval :: "u32 \<Rightarrow> u32 \<Rightarrow> u32 \<Rightarrow> u32" where
  "op2_eval op xv yv =
     (if op = OP_ADD then xv + yv
      else if op = OP_SUB then xv - yv
      else if op = OP_MUL then xv * yv
      else if op = OP_EQ then (if xv = yv then 1 else 0)
      else if op = OP_LT then (if xv < yv then 1 else 0)
      else if op = OP_DIV then (if yv = 0 then 0 else xv div yv)
      else if op = OP_MOD then (if yv = 0 then 0 else xv mod yv)
      else if op = OP_XOR then xv XOR yv
      else if op = OP_AND then xv AND yv
      else if op = OP_OR then xv OR yv
      else if op = OP_SHL then push_bit (unat (yv AND 31)) xv
      else if op = OP_SHR then drop_bit (unat (yv AND 31)) xv
      else if op = OP_GT then (if xv > yv then 1 else 0)
      else if op = OP_LE then (if xv \<le> yv then 1 else 0)
      else if op = OP_GE then (if xv \<ge> yv then 1 else 0)
      else if op = OP_NE then (if xv \<noteq> yv then 1 else 0)
      else 0)"

definition num_val :: "term_w \<Rightarrow> u32" where "num_val t = ucast (term_val t)"

definition is_dp :: "term_w \<Rightarrow> bool" where "is_dp t \<longleftrightarrow> term_tag t = TAG_DP0 \<or> term_tag t = TAG_DP1"

section \<open>Resolving a term\<close>

partial_function (option) term_resolve :: "term_w \<Rightarrow> ('s, 'x) rt \<Rightarrow> (term_w \<times> ('s, 'x) rt) option" where
  "term_resolve t s =
     (let tag = term_tag t; cell = heap_read s (term_val t)
      in if tag = TAG_VAR
         then (if term_sub_get cell = 0 then Some (t, s) else term_resolve (term_sub_set cell 0) s)
         else if is_dp t
         then (if term_sub_get cell \<noteq> 0 then term_resolve (term_sub_set cell 0) s
               else if tag = TAG_DP0 \<and> term_ext t AND DUP_GRAD_FLAG \<noteq> 0 then term_resolve cell s
               else Some (t, s))
         else if tag = TAG_ALO
         then Option.bind (alo_force t s) (\<lambda>(t', s'). term_resolve t' s')
         else Some (t, s))"

declare term_resolve.simps [code]

section \<open>The two phases\<close>

text \<open>What the next step does: walk into a term, hand a head to the top frame, or bail out.\<close>

datatype mach = M_Enter term_w "term_w list" | M_Apply term_w "term_w list" | M_Bail term_w "term_w list"

definition budget_hit :: "u64 \<Rightarrow> u64 \<Rightarrow> ('s, 'x) rt \<Rightarrow> bool" where
  "budget_hit max_steps itrs0 s \<longleftrightarrow> max_steps \<noteq> 0 \<and> itrs s - itrs0 \<ge> max_steps"

text \<open>W is wnf and C is cnf, as the phases call them.\<close>

type_synonym ('s, 'x) reducer = "term_w \<Rightarrow> ('s, 'x) rt \<Rightarrow> (term_w \<times> ('s, 'x) rt) option"

definition wnf_enter_grad ::
  "('s, 'x) tensor_ops \<Rightarrow> term_w \<Rightarrow> term_w list \<Rightarrow> ('s, 'x) rt \<Rightarrow> (mach \<times> ('s, 'x) rt) option" where
  "wnf_enter_grad E t stack s =
     (let loc = term_val t
      in if term_tag t = TAG_DP0 then let s1 = bump_itrs s in Some (M_Enter (heap_read s1 loc) stack, s1)
         else do { (y_raw, s1) \<leftarrow> term_resolve (heap_read s loc) s;
                   if term_tag y_raw = TAG_UOP \<and> term_ext y_raw = UOP_DETACH
                   then do { (g, s2) \<leftarrow> op_grad E t (heap_set loc y_raw s1);
                             Some (if g = t then (M_Apply t stack, s2) else (M_Enter g stack, bump_itrs s2)) }
                   else Some (M_Enter (heap_read s1 loc) (t # stack), s1) })"

definition wnf_enter_uop ::
  "('s, 'x) tensor_ops \<Rightarrow> ('s, 'x) reducer \<Rightarrow> u64 \<Rightarrow> u64 \<Rightarrow> term_w \<Rightarrow> term_w list \<Rightarrow> ('s, 'x) rt \<Rightarrow> (mach \<times> ('s, 'x) rt) option" where
  "wnf_enter_uop E W ms i0 t stack s =
     (let op = term_ext t; loc = term_val t
      in if op = UOP_KERNEL
         then (if budget_hit ms i0 s then Some (M_Bail t stack, s)
               else do { (w, s1) \<leftarrow> op_kernel E t s; Some (M_Apply w stack, s1) })
         else if op = UOP_DETACH then Some (M_Enter (heap_read s loc) stack, s)
         else if op = UOP_ASSIGN
         then (if budget_hit ms i0 s then Some (M_Bail t stack, s)
               else do { (src_w, s1) \<leftarrow> W (heap_read s (loc + 1)) s;
                         (dst_w, s2) \<leftarrow> W (heap_read s1 loc) s1;
                         if term_tag src_w = TAG_TEN \<and> term_tag dst_w = TAG_TEN
                         then do { (w, s3) \<leftarrow> op_assign E loc dst_w src_w s2; Some (M_Apply w stack, s3) }
                         else Some (M_Apply t stack, s2) })
         else let ar = op_uop_arity E (ucast (ucast op :: u8)); i = op_next_active E loc ar 0 s
           in if i < ar
              then (if budget_hit ms i0 s then Some (M_Bail t stack, s)
                    else Some (M_Enter (heap_read s (loc + ucast i))
                           (term_new 0 TAG_F_UOP_CHILD (ucast i OR push_bit 8 op) loc # stack), s))
              else Some (M_Apply t stack, s))"

definition wnf_enter ::
  "('s, 'x) tensor_ops \<Rightarrow> ('s, 'x) reducer \<Rightarrow> u64 \<Rightarrow> u64 \<Rightarrow> term_w \<Rightarrow> term_w list \<Rightarrow> ('s, 'x) rt \<Rightarrow> (mach \<times> ('s, 'x) rt) option" where
  "wnf_enter E W ms i0 t stack s =
     (let tag = term_tag t; loc = term_val t; cell = heap_read_acq s loc
      in if tag \<in> {TAG_VAR, TAG_BJ0, TAG_BJ1}
         then Some (if term_sub_get cell \<noteq> 0 then (M_Enter (term_sub_set cell 0) stack, s) else (M_Apply t stack, s))
         else if is_dp t
         then (if term_ext t AND DUP_GRAD_FLAG \<noteq> 0
               then (if budget_hit ms i0 s then Some (M_Bail t stack, s) else wnf_enter_grad E t stack s)
               else if term_sub_get cell \<noteq> 0 then Some (M_Enter (term_sub_set cell 0) stack, s)
               else Some (M_Enter cell (t # stack), s))
         else if tag = TAG_APP then Some (M_Enter (heap_read s loc) (t # stack), s)
         else if tag = TAG_DUP then Some (M_Enter (heap_read s loc) stack, s)
         else if tag = TAG_REF
         then let name = unat (term_ext t); book = (if name < DEFS_CAP then book_defs s ! name else 0)
           in if book = 0 then Some (M_Apply t stack, s)
              else if budget_hit ms i0 s then Some (M_Bail t stack, s)
              else do { (t', s1) \<leftarrow> alo_realize book 0 s; Some (M_Enter t' stack, s1) }
         else if tag = TAG_ALO
         then (if budget_hit ms i0 s then Some (M_Bail t stack, s)
               else do { (t', s1) \<leftarrow> alo_force t s; Some (M_Enter t' stack, s1) })
         else if tag = TAG_UOP then wnf_enter_uop E W ms i0 t stack s
         else if tag \<in> {TAG_OP2, TAG_EQL, TAG_AND, TAG_OR, TAG_WHEN, TAG_DSU, TAG_DDU}
         then (if budget_hit ms i0 s then Some (M_Bail t stack, s) else Some (M_Enter (heap_read s loc) (t # stack), s))
         else if tag = TAG_ANN
         then (if budget_hit ms i0 s then Some (M_Bail t stack, s) else Some (M_Enter (heap_read s (loc + 1)) (t # stack), s))
         else Some (M_Apply t stack, s))"

section \<open>Frames\<close>

text \<open>A rule that fires is guarded: over budget the frame is pushed back and the call bails out.\<close>

definition fire :: "u64 \<Rightarrow> u64 \<Rightarrow> term_w \<Rightarrow> term_w \<Rightarrow> term_w list \<Rightarrow> ('s, 'x) rt
    \<Rightarrow> (mach \<times> ('s, 'x) rt) option \<Rightarrow> (mach \<times> ('s, 'x) rt) option" where
  "fire ms i0 frame whnf stack s r = (if budget_hit ms i0 s then Some (M_Bail whnf (frame # stack), s) else r)"

definition then_enter :: "term_w list \<Rightarrow> (term_w \<times> ('s, 'x) rt) option \<Rightarrow> (mach \<times> ('s, 'x) rt) option" where
  "then_enter stack r = map_option (\<lambda>(t, s). (M_Enter t stack, s)) r"

definition then_apply :: "term_w list \<Rightarrow> term_w \<times> ('s, 'x) rt \<Rightarrow> (mach \<times> ('s, 'x) rt) option" where
  "then_apply stack r = (case r of (t, s) \<Rightarrow> Some (M_Apply t stack, s))"

text \<open>A head no rule applies to is written back to the slot of the frame.\<close>

definition stuck :: "u64 \<Rightarrow> term_w \<Rightarrow> term_w \<Rightarrow> term_w list \<Rightarrow> ('s, 'x) rt \<Rightarrow> (mach \<times> ('s, 'x) rt) option" where
  "stuck slot rebuilt whnf stack s = Some (M_Apply rebuilt stack, heap_set slot whnf s)"

text \<open>APP-MAT-CTR: the handler applied to the fields, in the cells of the consumed nodes.\<close>

definition app_mat_ctr :: "u64 \<Rightarrow> term_w \<Rightarrow> ('s, 'x) rt \<Rightarrow> (term_w \<times> ('s, 'x) rt) option" where
  "app_mat_ctr mat_loc ctr s =
     (let n = unat (term_ctr_n_h s ctr); ctr_loc = term_val ctr
      in if n = 0 then Some (heap_read s mat_loc, s)
         else let s1 = heap_set (mat_loc + 1) (heap_read s (ctr_loc + 1)) s; res1 = term_new 0 TAG_APP 0 mat_loc
           in if n = 1 then Some (res1, s1)
              else let s2 = heap_set (ctr_loc + 2) (heap_read s1 (ctr_loc + 2)) (heap_set (ctr_loc + 1) res1 s1);
                       res2 = term_new 0 TAG_APP 0 (ctr_loc + 1)
                in if n = 2 then Some (res2, s2)
                   else do { (apps, s3) \<leftarrow> heap_alloc (2 * of_nat (n - 2)) s2;
                             Some (fold (\<lambda>i (res, st).
                                 let a = apps + 2 * of_nat (i - 2)
                                 in (term_new 0 TAG_APP 0 a, heap_set (a + 1) (term_ctr_at_h st ctr (of_nat i)) (heap_set a res st)))
                               [2..<n] (res2, s3)) })"

definition wnf_app_mat ::
  "('s, 'x) reducer \<Rightarrow> ('s, 'x) reducer \<Rightarrow> term_w \<Rightarrow> term_w \<Rightarrow> ('s, 'x) rt \<Rightarrow> (term_w \<times> ('s, 'x) rt) option" where
  "wnf_app_mat W C mat arg s =
     (let mat_loc = term_val mat; m = term_ext mat
      in do { (arg_w0, s0) \<leftarrow> W arg s;
              (arg_w, s1) \<leftarrow> (if is_dp arg_w0 then C arg_w0 s0 else Some (arg_w0, s0));
              let s2 = bump_itrs s1
              in if term_tag arg_w = TAG_NUM \<and> num_val arg_w = m then Some (heap_read s2 mat_loc, s2)
                 else if term_tag arg_w = TAG_CTR \<and> term_ext arg_w = m then app_mat_ctr mat_loc arg_w s2
                 else if term_tag arg_w = TAG_SUP then interact_app_mat_sup mat arg_w s2
                 else Some (term_new 0 TAG_APP 0 mat_loc,
                        heap_set (mat_loc + 1) arg_w (heap_set mat_loc (heap_read s2 (mat_loc + 1)) s2)) })"

definition wnf_apply_app ::
  "('s, 'x) tensor_ops \<Rightarrow> ('s, 'x) reducer \<Rightarrow> ('s, 'x) reducer \<Rightarrow> u64 \<Rightarrow> u64 \<Rightarrow> term_w \<Rightarrow> term_w \<Rightarrow> term_w list
    \<Rightarrow> ('s, 'x) rt \<Rightarrow> (mach \<times> ('s, 'x) rt) option" where
  "wnf_apply_app E W C ms i0 frame whnf stack s =
     (let app_loc = term_val frame; arg = heap_read s (app_loc + 1); tag = term_tag whnf; fires = fire ms i0 frame whnf stack s
      in if tag = TAG_LAM then fires (then_enter stack (interact_app_lam E whnf arg s))
         else if tag = TAG_BRI then fires (then_enter stack (interact_app_bri whnf arg s))
         else if tag = TAG_PRI then fires (then_enter stack (interact_app_pri E whnf arg s))
         else if tag = TAG_SUP then fires (then_enter stack (interact_app_sup whnf arg s))
         else if tag = TAG_ERA then fires (then_apply stack (interact_app_era s))
         else if tag = TAG_MAT then fires (then_enter stack (wnf_app_mat W C whnf arg s))
         else stuck app_loc frame whnf stack s)"

definition wnf_apply_dp ::
  "('s, 'x) tensor_ops \<Rightarrow> u64 \<Rightarrow> u64 \<Rightarrow> term_w \<Rightarrow> term_w \<Rightarrow> term_w list \<Rightarrow> ('s, 'x) rt \<Rightarrow> (mach \<times> ('s, 'x) rt) option" where
  "wnf_apply_dp E ms i0 frame whnf stack s =
     (let loc = term_val frame; lab = term_ext frame; side = (if term_tag frame = TAG_DP0 then 0 else 1) :: u8;
          tag = term_tag whnf; fires = fire ms i0 frame whnf stack s
      in if term_tag frame = TAG_DP1 \<and> lab AND DUP_GRAD_FLAG \<noteq> 0
         then fires (do { (g, s1) \<leftarrow> op_grad E frame (heap_set loc whnf s);
                          Some (if g = frame then (M_Apply frame stack, s1) else (M_Enter g stack, bump_itrs s1)) })
         else if tag = TAG_SUP then fires (then_enter stack (interact_dup_sup lab loc side whnf s))
         else if tag = TAG_ERA then fires (then_apply stack (interact_dup_era side loc whnf s))
         else if tag = TAG_LAM then fires (then_enter stack (interact_dup_lam lab loc side whnf s))
         else if tag = TAG_BRI then fires (then_enter stack (interact_dup_bri lab loc side whnf s))
         else if tag = TAG_NUM then fires (then_apply stack (interact_dup_num side loc whnf s))
         else if tag = TAG_ANY then fires (then_apply stack (interact_dup_any side loc whnf s))
         else if tag = TAG_TEN then fires (then_apply stack (interact_dup_ten side loc whnf s))
         else if tag = TAG_CTR then fires (then_enter stack (interact_dup_ctr lab loc side whnf s))
         else if tag = TAG_UOP
         then (case interact_dup_uop loc side whnf s of
                 None \<Rightarrow> stuck loc frame whnf stack s
               | Some (t, s1) \<Rightarrow> if budget_hit ms i0 s1 then Some (M_Bail whnf (frame # stack), s1) else Some (M_Enter t stack, s1))
         else if tag \<in> {TAG_OP2, TAG_MAT, TAG_EQL, TAG_AND, TAG_OR, TAG_WHEN, TAG_ANN, TAG_DSU, TAG_DDU, TAG_INC}
         then fires (then_enter stack (interact_dup_nod lab loc side whnf s))
         else stuck loc frame whnf stack s)"

text \<open>A projection at the head of a strict slot is driven through cnf first.\<close>

definition drive :: "('s, 'x) reducer \<Rightarrow> term_w \<Rightarrow> ('s, 'x) rt \<Rightarrow> (term_w \<times> ('s, 'x) rt) option" where
  "drive C whnf s = (if is_dp whnf then C whnf s else Some (whnf, s))"

definition wnf_apply_dyn ::
  "(term_w \<Rightarrow> ('s, 'x) rt \<Rightarrow> (term_w \<times> ('s, 'x) rt) option) \<Rightarrow> (('s, 'x) rt \<Rightarrow> term_w \<times> ('s, 'x) rt) \<Rightarrow>
   (term_w \<Rightarrow> ('s, 'x) rt \<Rightarrow> (term_w \<times> ('s, 'x) rt) option) \<Rightarrow>
   ('s, 'x) reducer \<Rightarrow> u64 \<Rightarrow> u64 \<Rightarrow> term_w \<Rightarrow> term_w \<Rightarrow> term_w list \<Rightarrow> ('s, 'x) rt \<Rightarrow> (mach \<times> ('s, 'x) rt) option" where
  "wnf_apply_dyn on_num on_era on_sup C ms i0 frame whnf0 stack s0 =
     do { (whnf, s) \<leftarrow> drive C whnf0 s0;
          let tag = term_tag whnf; fires = fire ms i0 frame whnf stack s
          in if tag = TAG_NUM then fires (then_enter stack (on_num whnf s))
             else if tag = TAG_ERA then fires (then_apply stack (on_era s))
             else if tag = TAG_SUP then fires (then_enter stack (on_sup whnf s))
             else stuck (term_val frame) frame whnf stack s }"

definition wnf_apply_op2 ::
  "('s, 'x) reducer \<Rightarrow> u64 \<Rightarrow> u64 \<Rightarrow> term_w \<Rightarrow> term_w \<Rightarrow> term_w list \<Rightarrow> ('s, 'x) rt \<Rightarrow> (mach \<times> ('s, 'x) rt) option" where
  "wnf_apply_op2 C ms i0 frame whnf0 stack s0 =
     (let loc = term_val frame; op = term_ext frame
      in do { (whnf, s) \<leftarrow> drive C whnf0 s0;
              let y = heap_read s (loc + 1); fires = fire ms i0 frame whnf stack s
              in if term_tag whnf = TAG_NUM
                 then fires
                   (if term_tag y = TAG_NUM
                    then then_apply stack (term_new 0 TAG_NUM (term_ext whnf) (ucast (op2_eval op (num_val whnf) (num_val y))), bump_itrs s)
                    else Some (M_Enter y (term_new 0 TAG_F_OP2_NUM ((op AND 0xFF) OR push_bit 8 (term_ext whnf AND 0xFF)) loc # stack),
                           heap_set loc whnf s))
                 else if term_tag whnf = TAG_SUP
                 then fires (Option.bind (interact_op2_sup op whnf y s) (then_apply stack))
                 else stuck loc frame whnf stack s })"

definition wnf_apply_op2_num ::
  "('s, 'x) reducer \<Rightarrow> u64 \<Rightarrow> u64 \<Rightarrow> term_w \<Rightarrow> term_w \<Rightarrow> term_w list \<Rightarrow> ('s, 'x) rt \<Rightarrow> (mach \<times> ('s, 'x) rt) option" where
  "wnf_apply_op2_num C ms i0 frame whnf0 stack s0 =
     (let loc = term_val frame; packed = term_ext frame; op = packed AND 0xFF; dtype = drop_bit 8 packed AND 0xFF;
          xv = num_val (heap_read s0 loc)
      in do { (whnf, s) \<leftarrow> drive C whnf0 s0;
              let fires = fire ms i0 frame whnf stack s
              in if term_tag whnf = TAG_NUM
                 then fires (then_apply stack (term_new 0 TAG_NUM dtype (ucast (op2_eval op xv (num_val whnf))), bump_itrs s))
                 else if term_tag whnf = TAG_SUP
                 then fires (Option.bind (interact_op2_num_sup op (term_new 0 TAG_NUM dtype (ucast xv)) whnf s) (then_apply stack))
                 else stuck (loc + 1) (term_new 0 TAG_OP2 op loc) whnf stack s })"

definition wnf_apply_uop_child ::
  "('s, 'x) tensor_ops \<Rightarrow> ('s, 'x) reducer \<Rightarrow> u64 \<Rightarrow> u64 \<Rightarrow> term_w \<Rightarrow> term_w \<Rightarrow> term_w list \<Rightarrow> ('s, 'x) rt
    \<Rightarrow> (mach \<times> ('s, 'x) rt) option" where
  "wnf_apply_uop_child E W ms i0 frame whnf0 stack s0 =
     (let uloc = term_val frame; packed = term_ext frame; child_idx = ucast (packed AND 0xFF) :: u8;
          parent_op = drop_bit 8 packed AND 0xFF; wop = term_ext whnf0; war = op_uop_arity E (ucast (ucast wop :: u8))
      in do { (whnf, s1) \<leftarrow> (if term_tag whnf0 = TAG_UOP \<and> wop \<noteq> UOP_KERNEL \<and> wop \<noteq> UOP_ASSIGN
                             \<and> op_next_active E (term_val whnf0) war 0 s0 < war then W whnf0 s0 else Some (whnf0, s0));
              let s2 = heap_set (uloc + ucast child_idx) whnf s1; ar = op_uop_arity E parent_op;
                  i = op_next_active E uloc ar (child_idx + 1) s2
              in if i < ar
                 then fire ms i0 frame whnf stack s2
                   (Some (M_Enter (heap_read s2 (uloc + ucast i))
                      (term_new 0 TAG_F_UOP_CHILD (ucast i OR push_bit 8 parent_op) uloc # stack), s2))
                 else Some (M_Apply (term_new 0 TAG_UOP parent_op uloc) stack, s2) })"

text \<open>EQL, AND, OR and WHEN commute with a superposition: the other operand is duplicated.\<close>

definition commute_sup ::
  "(term_w \<Rightarrow> term_w \<Rightarrow> ('s, 'x) rt \<Rightarrow> (term_w \<times> ('s, 'x) rt) option) \<Rightarrow> term_w \<Rightarrow> term_w \<Rightarrow> ('s, 'x) rt
    \<Rightarrow> (term_w \<times> ('s, 'x) rt) option" where
  "commute_sup mk supt other s =
     (let lab = term_ext supt; sloc = term_val supt; a0 = heap_read s sloc; a1 = heap_read s (sloc + 1)
      in do { (dup, s1) \<leftarrow> heap_alloc 1 s;
              (e0, s2) \<leftarrow> mk a0 (term_new 0 TAG_DP0 lab dup) (heap_set dup other s1);
              (e1, s3) \<leftarrow> mk a1 (term_new 0 TAG_DP1 lab dup) s2;
              (t, s4) \<leftarrow> new_node2 TAG_SUP lab e0 e1 s3;
              Some (t, bump_itrs s4) })"

definition wnf_apply_eql ::
  "u64 \<Rightarrow> u64 \<Rightarrow> term_w \<Rightarrow> term_w \<Rightarrow> term_w list \<Rightarrow> ('s, 'x) rt \<Rightarrow> (mach \<times> ('s, 'x) rt) option" where
  "wnf_apply_eql ms i0 frame whnf stack s =
     (let loc = term_val frame; tag = term_tag whnf
      in fire ms i0 frame whnf stack s
        (if tag = TAG_ERA then then_apply stack (whnf, bump_itrs s)
         else if tag = TAG_ANY then then_apply stack (term_new 0 TAG_NUM 0 1, bump_itrs s)
         else if tag = TAG_SUP then then_enter stack (commute_sup term_new_eql whnf (heap_read s (loc + 1)) s)
         else let s1 = heap_set loc whnf s in Some (M_Enter (heap_read s1 (loc + 1)) (term_new 0 TAG_F_EQL_R 0 loc # stack), s1)))"

definition wnf_apply_eql_r ::
  "u64 \<Rightarrow> u64 \<Rightarrow> term_w \<Rightarrow> term_w \<Rightarrow> term_w list \<Rightarrow> ('s, 'x) rt \<Rightarrow> (mach \<times> ('s, 'x) rt) option" where
  "wnf_apply_eql_r ms i0 frame whnf stack s =
     (let loc = term_val frame; a = heap_read s loc; tag = term_tag whnf; fires = fire ms i0 frame whnf stack s
      in if tag = TAG_ERA then fires (then_apply stack (whnf, bump_itrs s))
         else if tag = TAG_ANY then fires (then_apply stack (term_new 0 TAG_NUM 0 1, bump_itrs s))
         else if tag = TAG_SUP then fires (then_enter stack (commute_sup (\<lambda>b d. term_new_eql d b) whnf a s))
         else if term_tag a = TAG_NUM \<and> tag = TAG_NUM
         then fires (then_apply stack (term_new 0 TAG_NUM (term_ext a) (if num_val a = num_val whnf then 1 else 0), bump_itrs s))
         else stuck (loc + 1) (term_new 0 TAG_EQL 0 loc) whnf stack s)"

text \<open>AND, OR and WHEN: what a number does, given the other operand.\<close>

definition wnf_apply_bool ::
  "(term_w \<Rightarrow> term_w option) \<Rightarrow> (term_w \<Rightarrow> term_w \<Rightarrow> ('s, 'x) rt \<Rightarrow> (term_w \<times> ('s, 'x) rt) option) \<Rightarrow>
   u64 \<Rightarrow> u64 \<Rightarrow> term_w \<Rightarrow> term_w \<Rightarrow> term_w list \<Rightarrow> ('s, 'x) rt \<Rightarrow> (mach \<times> ('s, 'x) rt) option" where
  "wnf_apply_bool on_num mk ms i0 frame whnf stack s =
     (let loc = term_val frame; tag = term_tag whnf; fires = fire ms i0 frame whnf stack s
      in if tag = TAG_ERA then fires (then_apply stack (whnf, bump_itrs s))
         else if tag = TAG_NUM
         then fires (case on_num whnf of
                       Some t \<Rightarrow> then_apply stack (t, bump_itrs s)
                     | None \<Rightarrow> Some (M_Enter (heap_read s (loc + 1)) stack, bump_itrs s))
         else if tag = TAG_SUP then fires (then_enter stack (commute_sup mk whnf (heap_read s (loc + 1)) s))
         else stuck loc frame whnf stack s)"

definition and_num :: "term_w \<Rightarrow> term_w option" where
  "and_num whnf = (if num_val whnf = 0 then Some whnf else None)"
definition or_num :: "term_w \<Rightarrow> term_w option" where
  "or_num whnf = (if num_val whnf = 0 then None else Some (term_new 0 TAG_NUM (term_ext whnf) 1))"
definition when_num :: "term_w \<Rightarrow> term_w option" where
  "when_num whnf = (if num_val whnf = 0 then Some (term_new 0 TAG_ERA 0 0) else None)"

definition wnf_apply_ann ::
  "u64 \<Rightarrow> u64 \<Rightarrow> term_w \<Rightarrow> term_w \<Rightarrow> term_w list \<Rightarrow> ('s, 'x) rt \<Rightarrow> (mach \<times> ('s, 'x) rt) option" where
  "wnf_apply_ann ms i0 frame whnf stack s =
     (let loc = term_val frame; v = heap_read s loc; tag = term_tag whnf; fires = fire ms i0 frame whnf stack s
      in if tag = TAG_LAM then fires (then_enter stack (interact_ann_lam v whnf s))
         else if tag = TAG_BRI then fires (then_enter stack (Some (interact_ann_bri v whnf s)))
         else stuck (loc + 1) frame whnf stack s)"

definition wnf_apply ::
  "('s, 'x) tensor_ops \<Rightarrow> ('s, 'x) reducer \<Rightarrow> ('s, 'x) reducer \<Rightarrow> u64 \<Rightarrow> u64 \<Rightarrow> term_w \<Rightarrow> term_w \<Rightarrow> term_w list
    \<Rightarrow> ('s, 'x) rt \<Rightarrow> (mach \<times> ('s, 'x) rt) option" where
  "wnf_apply E W C ms i0 frame whnf stack s =
     (let tag = term_tag frame; loc = term_val frame
      in if tag = TAG_APP then wnf_apply_app E W C ms i0 frame whnf stack s
         else if is_dp frame then wnf_apply_dp E ms i0 frame whnf stack s
         else if tag = TAG_DSU
         then wnf_apply_dyn (interact_dsu_num loc) interact_dsu_era (interact_dsu_sup loc) C ms i0 frame whnf stack s
         else if tag = TAG_DDU
         then wnf_apply_dyn (interact_ddu_num loc) interact_ddu_era (interact_ddu_sup loc) C ms i0 frame whnf stack s
         else if tag = TAG_OP2 then wnf_apply_op2 C ms i0 frame whnf stack s
         else if tag = TAG_F_OP2_NUM then wnf_apply_op2_num C ms i0 frame whnf stack s
         else if tag = TAG_F_UOP_CHILD then wnf_apply_uop_child E W ms i0 frame whnf stack s
         else if tag = TAG_EQL then wnf_apply_eql ms i0 frame whnf stack s
         else if tag = TAG_F_EQL_R then wnf_apply_eql_r ms i0 frame whnf stack s
         else if tag = TAG_AND then wnf_apply_bool and_num term_new_and ms i0 frame whnf stack s
         else if tag = TAG_OR then wnf_apply_bool or_num term_new_or ms i0 frame whnf stack s
         else if tag = TAG_WHEN then wnf_apply_bool when_num term_new_when ms i0 frame whnf stack s
         else if tag = TAG_ANN then wnf_apply_ann ms i0 frame whnf stack s
         else Some (M_Apply whnf stack, s))"

section \<open>Bailing out\<close>

text \<open>Unwinding writes the head back through the frames; a frame of no listed tag is dropped.\<close>

fun wnf_unwind :: "term_w list \<Rightarrow> term_w \<Rightarrow> ('s, 'x) rt \<Rightarrow> term_w \<times> ('s, 'x) rt" where
  "wnf_unwind [] whnf s = (whnf, s)"
| "wnf_unwind (frame # stack) whnf s =
     (let ftag = term_tag frame; loc = term_val frame
      in if ftag \<in> {TAG_APP, TAG_DP0, TAG_DP1, TAG_OP2, TAG_EQL, TAG_AND, TAG_OR, TAG_WHEN, TAG_DSU, TAG_DDU}
         then wnf_unwind stack frame (heap_set loc whnf s)
         else if ftag = TAG_ANN then wnf_unwind stack frame (heap_set (loc + 1) whnf s)
         else if ftag = TAG_F_OP2_NUM then wnf_unwind stack (term_new 0 TAG_OP2 (term_ext frame AND 0xFF) loc) s
         else if ftag = TAG_F_EQL_R then wnf_unwind stack (term_new 0 TAG_EQL 0 loc) (heap_set (loc + 1) whnf s)
         else wnf_unwind stack whnf s)"


section \<open>The collapsed normal form\<close>

text \<open>R is wnf and C is cnf_at; the depth counter of the source is never read.\<close>

definition cnf_clone :: "u32 \<Rightarrow> term_w \<Rightarrow> ('s, 'x) rt \<Rightarrow> (term_w \<times> term_w \<times> ('s, 'x) rt) option" where
  "cnf_clone lab v s =
     do { (loc, s1) \<leftarrow> heap_alloc 1 s; Some (term_new 0 TAG_DP0 lab loc, term_new 0 TAG_DP1 lab loc, heap_set loc v s1) }"

definition cnf_make_sup :: "u32 \<Rightarrow> term_w \<Rightarrow> term_w \<Rightarrow> ('s, 'x) rt \<Rightarrow> (term_w \<times> ('s, 'x) rt) option" where
  "cnf_make_sup lab a b = new_node2 TAG_SUP lab a b"

definition then_cnf :: "('s, 'x) reducer \<Rightarrow> (term_w \<times> ('s, 'x) rt) option \<Rightarrow> (term_w \<times> ('s, 'x) rt) option" where
  "then_cnf C r = Option.bind r (\<lambda>(t, s). C t s)"

definition cnf_dp :: "('s, 'x) reducer \<Rightarrow> term_w \<Rightarrow> ('s, 'x) rt \<Rightarrow> (term_w \<times> ('s, 'x) rt) option" where
  "cnf_dp C dp s =
     (let loc = term_val dp; lab = term_ext dp; side = (if term_tag dp = TAG_DP0 then 0 else 1) :: u8; cell = heap_read s loc
      in if term_sub_get cell \<noteq> 0 then C (term_sub_set cell 0) s
         else case heap_take_atomic loc s of
           (body, s1) \<Rightarrow>
             if body = 0 then Some (dp, s1)
             else do { (t, s2) \<leftarrow> C body s1;
                let tag = term_tag t
                in if tag = TAG_SUP then then_cnf C (interact_dup_sup lab loc side t s2)
                   else if tag = TAG_ERA then Some (interact_dup_era side loc t s2)
                   else if tag = TAG_LAM then then_cnf C (interact_dup_lam lab loc side t s2)
                   else if tag = TAG_BRI then then_cnf C (interact_dup_bri lab loc side t s2)
                   else if tag = TAG_NUM then Some (interact_dup_num side loc t s2)
                   else if tag = TAG_ANY then Some (interact_dup_any side loc t s2)
                   else if tag = TAG_TEN then Some (interact_dup_ten side loc t s2)
                   else if tag = TAG_CTR then then_cnf C (interact_dup_ctr lab loc side t s2)
                   else if tag = TAG_UOP
                   then (case interact_dup_uop loc side t s2 of
                           None \<Rightarrow> Some (dp, heap_set loc t s2)
                         | Some (r, s3) \<Rightarrow> C r s3)
                   else Some (dp, heap_set loc t s2) })"

definition cnf_lam :: "('s, 'x) reducer \<Rightarrow> term_w \<Rightarrow> ('s, 'x) rt \<Rightarrow> (term_w \<times> ('s, 'x) rt) option" where
  "cnf_lam C lam s =
     (let lam_loc = term_val lam; lam_ext = term_ext lam; body = heap_read s lam_loc
      in do { (body_cnf, s1) \<leftarrow> C body s;
              let s2 = (if body_cnf \<noteq> body then heap_set lam_loc body_cnf s1 else s1); sup_loc = term_val body_cnf
              in if term_tag body_cnf \<noteq> TAG_SUP then Some (lam, s2)
                 else let sup_a = heap_read s2 sup_loc; sup_b = heap_read s2 (sup_loc + 1)
                   in do { (loc0, s3) \<leftarrow> heap_alloc 1 s2;
                           (loc1, s4) \<leftarrow> heap_alloc 1 s3;
                           cnf_make_sup (term_ext body_cnf) (term_new 0 TAG_LAM lam_ext loc0) (term_new 0 TAG_LAM lam_ext loc1)
                             (heap_set loc1 sup_b (heap_set loc0 sup_a s4)) } })"

fun cnf_children :: "('s, 'x) reducer \<Rightarrow> u64 \<Rightarrow> nat list \<Rightarrow> ('s, 'x) rt \<Rightarrow> (term_w list \<times> ('s, 'x) rt) option" where
  "cnf_children C base [] s = Some ([], s)"
| "cnf_children C base (i # is) s =
     (let orig = heap_read s (base + of_nat i)
      in do { (cn, s1) \<leftarrow> C orig s;
              (cns, s2) \<leftarrow> cnf_children C base is (if cn \<noteq> orig then heap_set (base + of_nat i) cn s1 else s1);
              Some (cn # cns, s2) })"

text \<open>The children of the two copies: the sides of the superposition at its index, clones elsewhere.\<close>

fun cnf_split :: "u32 \<Rightarrow> nat \<Rightarrow> term_w \<Rightarrow> term_w \<Rightarrow> nat \<Rightarrow> term_w list \<Rightarrow> ('s, 'x) rt
    \<Rightarrow> (term_w list \<times> term_w list \<times> ('s, 'x) rt) option" where
  "cnf_split lab sup_idx sup_a sup_b i [] s = Some ([], [], s)"
| "cnf_split lab sup_idx sup_a sup_b i (c # cs) s =
     do { (x0, x1, s1) \<leftarrow> (if i = sup_idx then Some (sup_a, sup_b, s) else cnf_clone lab c s);
          (xs0, xs1, s2) \<leftarrow> cnf_split lab sup_idx sup_a sup_b (Suc i) cs s1;
          Some (x0 # xs0, x1 # xs1, s2) }"

fun first_sup :: "nat \<Rightarrow> term_w list \<Rightarrow> nat option" where
  "first_sup i [] = None"
| "first_sup i (c # cs) = (if term_tag c = TAG_SUP then Some i else first_sup (Suc i) cs)"

definition cnf_ctr :: "('s, 'x) reducer \<Rightarrow> term_w \<Rightarrow> ('s, 'x) rt \<Rightarrow> (term_w \<times> ('s, 'x) rt) option" where
  "cnf_ctr C ctr s =
     (let n = unat (term_ctr_n_h s ctr); k = term_ext ctr
      in if n = 0 then Some (ctr, s)
         else do { (ch, s1) \<leftarrow> cnf_children C (term_val ctr + 1) [0..<min n 16] s;
                   (case first_sup 0 ch of
                      None \<Rightarrow> Some (ctr, s1)
                    | Some sup_idx \<Rightarrow>
                        let sup_t = ch ! sup_idx; lab = term_ext sup_t; sup_loc = term_val sup_t
                        in if n > 16 then None
                           else do { (args0, args1, s2) \<leftarrow> cnf_split lab sup_idx (heap_read s1 sup_loc) (heap_read s1 (sup_loc + 1)) 0 ch s1;
                                     (node0, s3) \<leftarrow> term_new_ctr_h k args0 s2;
                                     (node1, s4) \<leftarrow> term_new_ctr_h k args1 s3;
                                     cnf_make_sup lab node0 node1 s4 }) })"

definition cnf_node2 :: "('s, 'x) reducer \<Rightarrow> ('s, 'x) reducer \<Rightarrow> term_w \<Rightarrow> ('s, 'x) rt \<Rightarrow> (term_w \<times> ('s, 'x) rt) option" where
  "cnf_node2 R C node s =
     (let tag = term_tag node; ext = term_ext node; base = term_val node; a = heap_read s base; b = heap_read s (base + 1)
      in do { (a_cnf, s1) \<leftarrow> C a s;
              (b_cnf, s2) \<leftarrow> C b s1;
              let s3 = (if a_cnf \<noteq> a then heap_set base a_cnf s2 else s2);
                  s4 = (if b_cnf \<noteq> b then heap_set (base + 1) b_cnf s3 else s3)
              in do { (redriven, s5) \<leftarrow> R node s4;
                 if redriven \<noteq> node then C redriven s5
                 else if term_tag a_cnf \<noteq> TAG_SUP \<and> term_tag b_cnf \<noteq> TAG_SUP then Some (node, s5)
                 else let left = (term_tag a_cnf = TAG_SUP); sup_t = (if left then a_cnf else b_cnf);
                          other = (if left then b_cnf else a_cnf); lab = term_ext sup_t; sup_loc = term_val sup_t;
                          sup_a = heap_read s5 sup_loc; sup_b = heap_read s5 (sup_loc + 1)
                   in do { (other0, other1, s6) \<leftarrow> cnf_clone lab other s5;
                           (n0_loc, s7) \<leftarrow> heap_alloc 2 s6;
                           (n1_loc, s8) \<leftarrow> heap_alloc 2 s7;
                           let s9 = (if left
                             then heap_set (n1_loc + 1) other1 (heap_set n1_loc sup_b (heap_set (n0_loc + 1) other0 (heap_set n0_loc sup_a s8)))
                             else heap_set (n1_loc + 1) sup_b (heap_set n1_loc other1 (heap_set (n0_loc + 1) sup_a (heap_set n0_loc other0 s8))))
                           in cnf_make_sup lab (term_new 0 tag ext n0_loc) (term_new 0 tag ext n1_loc) s9 } } })"

definition cnf_dispatch :: "('s, 'x) reducer \<Rightarrow> ('s, 'x) reducer \<Rightarrow> term_w \<Rightarrow> ('s, 'x) rt \<Rightarrow> (term_w \<times> ('s, 'x) rt) option" where
  "cnf_dispatch R C t s =
     (let tag = term_tag t
      in if is_dp t then (if term_ext t AND DUP_GRAD_FLAG \<noteq> 0 then Some (t, s) else cnf_dp C t s)
         else if tag = TAG_LAM then cnf_lam C t s
         else if tag = TAG_CTR then cnf_ctr C t s
         else if tag \<in> {TAG_APP, TAG_OP2, TAG_EQL, TAG_AND, TAG_OR, TAG_WHEN, TAG_ANN} then cnf_node2 R C t s
         else Some (t, s))"

section \<open>The reducers\<close>

text \<open>
  One turn of the loop of wnf_n per unit of fuel. The frames still pending at the end of the call
  are kept for inspection, none when it did not bail out.
\<close>

fun wnf_loop :: "nat \<Rightarrow> ('s, 'x) tensor_ops \<Rightarrow> u64 \<Rightarrow> u64 \<Rightarrow> mach \<Rightarrow> ('s, 'x) rt \<Rightarrow> (term_w \<times> ('s, 'x) rt) option"
  and cnf_at :: "nat \<Rightarrow> ('s, 'x) tensor_ops \<Rightarrow> ('s, 'x) reducer" where
  "wnf_loop 0 E = (\<lambda>ms i0 m s. None)"
| "wnf_loop (Suc k) E =
     (\<lambda>ms i0 m s.
        let W = (\<lambda>t s. wnf_loop k E 0 (itrs s) (M_Enter t []) s)
        in (case m of
              M_Enter t stack \<Rightarrow> Option.bind (wnf_enter E W ms i0 t stack s) (\<lambda>(m', s'). wnf_loop k E ms i0 m' s')
            | M_Apply whnf stack \<Rightarrow>
                (case stack of
                   [] \<Rightarrow> Some (whnf, s\<lparr>rt_last_stack := []\<rparr>)
                 | frame # stack' \<Rightarrow>
                     Option.bind (wnf_apply E W (cnf_at k E) ms i0 frame whnf stack' s) (\<lambda>(m', s'). wnf_loop k E ms i0 m' s'))
            | M_Bail whnf stack \<Rightarrow> Some (wnf_unwind stack whnf (s\<lparr>rt_last_stack := stack\<rparr>))))"
| "cnf_at 0 E = (\<lambda>t s. None)"
| "cnf_at (Suc k) E =
     (\<lambda>t s. Option.bind (wnf_loop k E 0 (itrs s) (M_Enter t []) s)
        (\<lambda>(t', s'). cnf_dispatch (\<lambda>t s. wnf_loop k E 0 (itrs s) (M_Enter t []) s) (cnf_at k E) t' s'))"

definition wnf_n :: "nat \<Rightarrow> ('s, 'x) tensor_ops \<Rightarrow> u64 \<Rightarrow> ('s, 'x) reducer" where
  "wnf_n k E max_steps t s = wnf_loop k E max_steps (itrs s) (M_Enter t []) s"

definition wnf :: "nat \<Rightarrow> ('s, 'x) tensor_ops \<Rightarrow> ('s, 'x) reducer" where "wnf k E = wnf_n k E 0"

definition cnf :: "nat \<Rightarrow> ('s, 'x) tensor_ops \<Rightarrow> ('s, 'x) reducer" where "cnf k E = cnf_at k E"

end
