(* ===== verification/IC_Lambda.thy ===== *)
theory IC_Lambda
  imports IC_Wnf
begin

text \<open>
  What the reducer is meant to compute, for the nets without superpositions: a lambda calculus with
  numbers, operators, matching, constructors of at most two fields and shared numbers, evaluated
  call by name (relation ev), and the relation rep between a word with the cells below it and a term.
  A binder is named by the position of its cell. LDp e is a projection of a shared cell that
  computes e: both projections of one cell stand for the same e.
\<close>

section \<open>Terms and their evaluation\<close>

datatype bk = BApp | BOp u32 | BEql | BAnd | BOr | BWhen | BMat u32

datatype lt = LVar u64 | LLam u64 lt | LBin bk lt lt | LNum u32 u32 | LEra | LDp lt
  | LCtr0 u32 | LCtr1 u32 lt | LCtr2 u32 lt lt

fun lfv :: "lt \<Rightarrow> u64 set" where
  "lfv (LVar x) = {x}"
| "lfv (LLam x e) = lfv e - {x}"
| "lfv (LBin b e1 e2) = lfv e1 \<union> lfv e2"
| "lfv (LNum dt v) = {}"
| "lfv LEra = {}"
| "lfv (LDp e) = lfv e"
| "lfv (LCtr0 k) = {}"
| "lfv (LCtr1 k e) = lfv e"
| "lfv (LCtr2 k e1 e2) = lfv e1 \<union> lfv e2"

fun lsubst :: "u64 \<Rightarrow> lt \<Rightarrow> lt \<Rightarrow> lt" where
  "lsubst x a (LVar y) = (if y = x then a else LVar y)"
| "lsubst x a (LLam y e) = (if y = x then LLam y e else LLam y (lsubst x a e))"
| "lsubst x a (LBin b e1 e2) = LBin b (lsubst x a e1) (lsubst x a e2)"
| "lsubst x a (LNum dt v) = LNum dt v"
| "lsubst x a LEra = LEra"
| "lsubst x a (LDp e) = LDp (lsubst x a e)"
| "lsubst x a (LCtr0 k) = LCtr0 k"
| "lsubst x a (LCtr1 k e) = LCtr1 k (lsubst x a e)"
| "lsubst x a (LCtr2 k e1 e2) = LCtr2 k (lsubst x a e1) (lsubst x a e2)"

lemma lsubst_fresh: "x \<notin> lfv e \<Longrightarrow> lsubst x a e = e"
  by (induction e) auto

lemma lfv_lsubst: "lfv a = {} \<Longrightarrow> lfv (lsubst x a e) = lfv e - {x}"
  by (induction e) auto

fun strict_kind :: "bk \<Rightarrow> bool" where
  "strict_kind (BMat m) = False"
| "strict_kind b = True"

text \<open>What a match on the value v continues with.\<close>

fun match_next :: "u32 \<Rightarrow> lt \<Rightarrow> lt \<Rightarrow> lt \<Rightarrow> lt" where
  "match_next m e f (LNum dt v) = (if v = m then e else LBin BApp f (LNum dt v))"
| "match_next m e f (LCtr0 k) = (if k = m then e else LBin BApp f (LCtr0 k))"
| "match_next m e f (LCtr1 k a) = (if k = m then LBin BApp e a else LBin BApp f (LCtr1 k a))"
| "match_next m e f (LCtr2 k a b) = (if k = m then LBin BApp (LBin BApp e a) b else LBin BApp f (LCtr2 k a b))"
| "match_next m e f v = LBin BApp f v"

text \<open>The evaluation, indexed by the size of the derivation.\<close>

inductive ev :: "nat \<Rightarrow> lt \<Rightarrow> lt \<Rightarrow> bool" where
  lam: "ev 0 (LLam x e) (LLam x e)"
| num: "ev 0 (LNum dt v) (LNum dt v)"
| era: "ev 0 LEra LEra"
| ctr0: "ev 0 (LCtr0 k) (LCtr0 k)"
| ctr1: "ev 0 (LCtr1 k a) (LCtr1 k a)"
| ctr2: "ev 0 (LCtr2 k a b) (LCtr2 k a b)"
| mat: "ev 0 (LBin (BMat m) e f) (LBin (BMat m) e f)"
| dp: "ev n e (LNum dt v) \<Longrightarrow> ev (Suc n) (LDp e) (LNum dt v)"
| beta: "ev n f (LLam x b) \<Longrightarrow> ev k (lsubst x a b) w \<Longrightarrow> ev (Suc (n + k)) (LBin BApp f a) w"
| app_era: "ev n f LEra \<Longrightarrow> ev (Suc n) (LBin BApp f a) LEra"
| app_mat: "ev n f (LBin (BMat m) e g) \<Longrightarrow> ev k a v \<Longrightarrow> ev j (match_next m e g v) w
    \<Longrightarrow> ev (Suc (n + k + j)) (LBin BApp f a) w"
| op2: "ev n a (LNum dt x) \<Longrightarrow> ev k b (LNum dt' y) \<Longrightarrow> ev (Suc (n + k)) (LBin (BOp opr) a b) (LNum dt (op2_eval opr x y))"
| eql_era: "ev n a LEra \<Longrightarrow> ev (Suc n) (LBin BEql a b) LEra"
| eql_num: "ev n a (LNum dt x) \<Longrightarrow> ev k b (LNum dt' y)
    \<Longrightarrow> ev (Suc (n + k)) (LBin BEql a b) (LNum dt (if x = y then 1 else 0))"
| and_era: "ev n a LEra \<Longrightarrow> ev (Suc n) (LBin BAnd a b) LEra"
| and_0: "ev n a (LNum dt 0) \<Longrightarrow> ev (Suc n) (LBin BAnd a b) (LNum dt 0)"
| and_1: "ev n a (LNum dt x) \<Longrightarrow> x \<noteq> 0 \<Longrightarrow> ev k b w \<Longrightarrow> ev (Suc (n + k)) (LBin BAnd a b) w"
| or_era: "ev n a LEra \<Longrightarrow> ev (Suc n) (LBin BOr a b) LEra"
| or_1: "ev n a (LNum dt x) \<Longrightarrow> x \<noteq> 0 \<Longrightarrow> ev (Suc n) (LBin BOr a b) (LNum dt 1)"
| or_0: "ev n a (LNum dt 0) \<Longrightarrow> ev k b w \<Longrightarrow> ev (Suc (n + k)) (LBin BOr a b) w"
| when_era: "ev n a LEra \<Longrightarrow> ev (Suc n) (LBin BWhen a b) LEra"
| when_0: "ev n a (LNum dt 0) \<Longrightarrow> ev (Suc n) (LBin BWhen a b) LEra"
| when_1: "ev n a (LNum dt x) \<Longrightarrow> x \<noteq> 0 \<Longrightarrow> ev k b w \<Longrightarrow> ev (Suc (n + k)) (LBin BWhen a b) w"

inductive_cases ev_valE [elim!]: "ev n (LLam x e) w" "ev n (LNum dt v) w" "ev n LEra w" "ev n (LCtr0 k) w"
  "ev n (LCtr1 k a) w" "ev n (LCtr2 k a b) w" "ev n (LBin (BMat m) e f) w" "ev n (LVar x) w"
inductive_cases ev_dpE: "ev n (LDp e) w"
inductive_cases ev_appE: "ev n (LBin BApp f a) w"
inductive_cases ev_opE: "ev n (LBin (BOp opr) a b) w"
inductive_cases ev_eqlE: "ev n (LBin BEql a b) w"
inductive_cases ev_andE: "ev n (LBin BAnd a b) w"
inductive_cases ev_orE: "ev n (LBin BOr a b) w"
inductive_cases ev_whenE: "ev n (LBin BWhen a b) w"

lemma ev_determ: "ev n e w \<Longrightarrow> ev m e u \<Longrightarrow> m = n \<and> u = w"
proof (induction arbitrary: m u rule: ev.induct)
  case (dp n e dt v) from dp.prems dp.IH show ?case by (auto elim: ev_dpE)
next
  case (beta n f x b k a w) from beta.prems show ?case by (auto elim!: ev_appE dest!: beta.IH)
next
  case (app_era n f a) from app_era.prems show ?case by (auto elim!: ev_appE dest!: app_era.IH)
next
  case (app_mat n f mm e g k a v j w)
  from app_mat.prems show ?case by (auto elim!: ev_appE dest!: app_mat.IH)
next
  case (op2 n a dt x k b dt' y opr) from op2.prems show ?case by (auto elim!: ev_opE dest!: op2.IH)
next
  case (eql_era n a b) from eql_era.prems show ?case by (auto elim!: ev_eqlE dest!: eql_era.IH)
next
  case (eql_num n a dt x k b dt' y) from eql_num.prems show ?case by (auto elim!: ev_eqlE dest!: eql_num.IH)
next
  case (and_era n a b) from and_era.prems show ?case by (auto elim!: ev_andE dest!: and_era.IH)
next
  case (and_0 n a dt b) from and_0.prems show ?case by (auto elim!: ev_andE dest!: and_0.IH)
next
  case (and_1 n a dt x k b w) from and_1.prems and_1.hyps show ?case by (auto elim!: ev_andE dest!: and_1.IH)
next
  case (or_era n a b) from or_era.prems show ?case by (auto elim!: ev_orE dest!: or_era.IH)
next
  case (or_1 n a dt x b) from or_1.prems or_1.hyps show ?case by (auto elim!: ev_orE dest!: or_1.IH)
next
  case (or_0 n a dt k b w) from or_0.prems show ?case by (auto elim!: ev_orE dest!: or_0.IH)
next
  case (when_era n a b) from when_era.prems show ?case by (auto elim!: ev_whenE dest!: when_era.IH)
next
  case (when_0 n a dt b) from when_0.prems show ?case by (auto elim!: ev_whenE dest!: when_0.IH)
next
  case (when_1 n a dt x k b w) from when_1.prems when_1.hyps show ?case by (auto elim!: ev_whenE dest!: when_1.IH)
qed auto

lemma lfv_match_next: "lfv (match_next m e f v) \<subseteq> lfv e \<union> lfv f \<union> lfv v"
  by (cases v) auto

lemma ev_closed: "ev n e w \<Longrightarrow> lfv e = {} \<Longrightarrow> lfv w = {}"
proof (induction rule: ev.induct)
  case (beta n f x b k a w) then show ?case by (auto simp: lfv_lsubst)
next
  case (app_mat n f m e g k a v j w) then show ?case using lfv_match_next [of m e g v] by auto
qed auto

text \<open>The values, and what they are evaluated to.\<close>

fun lval :: "lt \<Rightarrow> bool" where
  "lval (LLam x e) = True" | "lval (LNum dt v) = True" | "lval LEra = True" | "lval (LCtr0 k) = True"
| "lval (LCtr1 k a) = True" | "lval (LCtr2 k a b) = True" | "lval (LBin (BMat m) e f) = True" | "lval e = False"

lemma ev_lval: "ev n e w \<Longrightarrow> lval w"
  by (induction rule: ev.induct) auto

end
