(* ===== verification/IC_Rep.thy ===== *)
theory IC_Rep
  imports IC_Lambda
begin

text \<open>
  The words that represent a term. rep H \<sigma> t e C V: with the cells H and the shared cells \<sigma>, the word t
  stands for e; C holds the cells of the representation, each used once, and V the binders whose
  variable it contains, each at most once. A substituted variable is followed to what its cell holds.
  The theory shows what the writes of the reducer do to it: a substitution (rep_beta) and a write
  elsewhere (rep_frame).
\<close>

section \<open>The relation\<close>

definition bin_of :: "term_w \<Rightarrow> bk option" where
  "bin_of t =
     (let tag = term_tag t
      in if tag = TAG_APP then Some BApp
         else if tag = TAG_OP2 then (if term_ext t < 256 then Some (BOp (term_ext t)) else None)
         else if tag = TAG_EQL then Some BEql
         else if tag = TAG_AND then Some BAnd
         else if tag = TAG_OR then Some BOr
         else if tag = TAG_WHEN then Some BWhen
         else if tag = TAG_MAT then Some (BMat (term_ext t))
         else None)"

definition is_num :: "term_w \<Rightarrow> u32 \<Rightarrow> u32 \<Rightarrow> bool" where
  "is_num t dt v \<longleftrightarrow> term_tag t = TAG_NUM \<and> term_ext t = dt \<and> num_val t = v \<and> dt < 256"

definition ctr_size :: "(u64 \<Rightarrow> term_w) \<Rightarrow> term_w \<Rightarrow> u32 \<Rightarrow> bool" where
  "ctr_size H t n \<longleftrightarrow> term_tag t = TAG_CTR \<and> term_tag (H (term_val t)) = TAG_NUM \<and> num_val (H (term_val t)) = n"

inductive rep :: "(u64 \<Rightarrow> term_w) \<Rightarrow> (u64 \<Rightarrow> lt option) \<Rightarrow> term_w \<Rightarrow> lt \<Rightarrow> u64 set \<Rightarrow> u64 set \<Rightarrow> bool"
  for H \<sigma> where
  var: "term_tag t = TAG_VAR \<Longrightarrow> rep H \<sigma> t (LVar (term_val t)) {} {term_val t}"
| subv: "term_tag t = TAG_VAR \<Longrightarrow> l = term_val t \<Longrightarrow> term_sub_get (H l) \<noteq> 0 \<Longrightarrow> rep H \<sigma> (term_sub_set (H l) 0) e C V
    \<Longrightarrow> l \<notin> C \<Longrightarrow> rep H \<sigma> t e (insert l C) V"
| lam: "term_tag t = TAG_LAM \<Longrightarrow> l = term_val t \<Longrightarrow> rep H \<sigma> (H l) e C V \<Longrightarrow> l \<notin> C
    \<Longrightarrow> (term_ext t AND LAM_ERA_MASK \<noteq> 0 \<longrightarrow> l \<notin> lfv e) \<Longrightarrow> rep H \<sigma> t (LLam l e) (insert l C) V"
| num: "is_num t dt v \<Longrightarrow> rep H \<sigma> t (LNum dt v) {} {}"
| era: "term_tag t = TAG_ERA \<Longrightarrow> rep H \<sigma> t LEra {} {}"
| dp: "is_dp t \<Longrightarrow> term_ext t AND DUP_GRAD_FLAG = 0 \<Longrightarrow> \<sigma> (term_val t) = Some e \<Longrightarrow> rep H \<sigma> t (LDp e) {} {}"
| bin: "bin_of t = Some b \<Longrightarrow> l = term_val t \<Longrightarrow> rep H \<sigma> (H l) e1 C1 V1 \<Longrightarrow> rep H \<sigma> (H (l + 1)) e2 C2 V2
    \<Longrightarrow> C1 \<inter> C2 = {} \<Longrightarrow> V1 \<inter> V2 = {} \<Longrightarrow> {l, l + 1} \<inter> (C1 \<union> C2) = {}
    \<Longrightarrow> rep H \<sigma> t (LBin b e1 e2) ({l, l + 1} \<union> C1 \<union> C2) (V1 \<union> V2)"
| ctr0: "ctr_size H t 0 \<Longrightarrow> k = term_ext t \<Longrightarrow> l = term_val t \<Longrightarrow> rep H \<sigma> t (LCtr0 k) {l} {}"
| ctr1: "ctr_size H t 1 \<Longrightarrow> k = term_ext t \<Longrightarrow> l = term_val t \<Longrightarrow> rep H \<sigma> (H (l + 1)) e C V \<Longrightarrow> {l, l + 1} \<inter> C = {}
    \<Longrightarrow> rep H \<sigma> t (LCtr1 k e) ({l, l + 1} \<union> C) V"
| ctr2: "ctr_size H t 2 \<Longrightarrow> k = term_ext t \<Longrightarrow> l = term_val t \<Longrightarrow> l < 2 ^ 37
    \<Longrightarrow> rep H \<sigma> (H (l + 1)) e1 C1 V1 \<Longrightarrow> rep H \<sigma> (H (l + 2)) e2 C2 V2
    \<Longrightarrow> C1 \<inter> C2 = {} \<Longrightarrow> V1 \<inter> V2 = {} \<Longrightarrow> {l, l + 1, l + 2} \<inter> (C1 \<union> C2) = {}
    \<Longrightarrow> rep H \<sigma> t (LCtr2 k e1 e2) ({l, l + 1, l + 2} \<union> C1 \<union> C2) (V1 \<union> V2)"

lemma bin_of_cong:
  "term_tag t = term_tag u \<Longrightarrow> term_ext t = term_ext u \<Longrightarrow> bin_of t = bin_of u"
  by (simp add: bin_of_def Let_def)

text \<open>Only the tag, the extension and the value of a word matter.\<close>

lemma rep_cong:
  assumes "rep H \<sigma> t e C V" "term_tag u = term_tag t" "term_ext u = term_ext t" "term_val u = term_val t"
  shows "rep H \<sigma> u e C V"
  using assms
proof cases
  case (subv l C') then show ?thesis using assms by (auto intro!: rep.subv)
next
  case (lam l e C) then show ?thesis using assms by (auto intro!: rep.lam)
next
  case (bin b l e1 C1 V1 e2 C2 V2)
  moreover from bin(4) assms have "bin_of u = Some b" using bin_of_cong [of u t] by simp
  ultimately show ?thesis using assms rep.bin [of u b l H \<sigma> e1 C1 V1 e2 C2 V2] by simp
next
  case (ctr1 k l e C) then show ?thesis using assms rep.ctr1 [of H u k l \<sigma> e C V] by (simp add: ctr_size_def)
next
  case (ctr2 k l e1 C1 V1 e2 C2 V2)
  then show ?thesis using assms rep.ctr2 [of H u k l \<sigma> e1 C1 V1 e2 C2 V2] by (simp add: ctr_size_def)
qed (use assms in \<open>auto simp: is_num_def num_val_def is_dp_def ctr_size_def intro: rep.intros dest: rep.var rep.dp [of u]\<close>)

lemma rep_sub_set: "rep H \<sigma> t e C V \<Longrightarrow> rep H \<sigma> (term_sub_set t b) e C V"
  by (rule rep_cong) (auto simp: term_word_simps)

lemma rep_binders: "rep H \<sigma> t e C V \<Longrightarrow> V \<subseteq> lfv e \<union> C"
  by (induction rule: rep.induct) auto

lemma rep_tag:
  "rep H \<sigma> t e C V \<Longrightarrow> term_tag t \<in> {TAG_VAR, TAG_LAM, TAG_NUM, TAG_ERA, TAG_DP0, TAG_DP1, TAG_APP, TAG_OP2, TAG_EQL,
     TAG_AND, TAG_OR, TAG_WHEN, TAG_MAT, TAG_CTR}"
  by (cases rule: rep.cases) (auto simp: is_num_def is_dp_def bin_of_def ctr_size_def Let_def split: if_splits)

section \<open>Writes\<close>

lemma rep_frame:
  assumes "rep H \<sigma> t e C V"
    and "\<And>c. c \<in> C \<Longrightarrow> H' c = H c"
    and "\<And>l e0. \<sigma> l = Some e0 \<Longrightarrow> lfv e0 \<subseteq> lfv e \<union> C \<Longrightarrow> \<sigma>' l = Some e0"
  shows "rep H' \<sigma>' t e C V"
  using assms
proof (induction rule: rep.induct)
  case (subv t l e C V)
  have "rep H' \<sigma>' (term_sub_set (H l) 0) e C V" by (rule subv.IH) (auto intro!: subv.prems)
  then show ?case using subv by (auto intro!: rep.subv)
next
  case (lam t l e C V)
  have "rep H' \<sigma>' (H l) e C V" by (rule lam.IH) (auto intro!: lam.prems)
  then show ?case using lam by (auto intro!: rep.lam)
next
  case (bin t b l e1 C1 V1 e2 C2 V2)
  have "rep H' \<sigma>' (H l) e1 C1 V1" by (rule bin.IH(1)) (auto intro!: bin.prems)
  moreover have "rep H' \<sigma>' (H (l + 1)) e2 C2 V2" by (rule bin.IH(2)) (auto intro!: bin.prems)
  ultimately show ?case using bin by (intro rep.bin) auto
next
  case (ctr1 t k l e C V)
  have "rep H' \<sigma>' (H (l + 1)) e C V" by (rule ctr1.IH) (auto intro!: ctr1.prems)
  then show ?case using ctr1 by (intro rep.ctr1) (auto simp: ctr_size_def)
next
  case (ctr2 t k l e1 C1 V1 e2 C2 V2)
  have "rep H' \<sigma>' (H (l + 1)) e1 C1 V1" by (rule ctr2.IH(1)) (auto intro!: ctr2.prems)
  moreover have "rep H' \<sigma>' (H (l + 2)) e2 C2 V2" by (rule ctr2.IH(2)) (auto intro!: ctr2.prems)
  ultimately show ?case using ctr2 by (intro rep.ctr2) (auto simp: ctr_size_def)
qed (auto intro: rep.intros simp: ctr_size_def)

text \<open>
  A substitution for a binder whose lambda is gone: where the variable is met, the cells of the
  argument are added.
\<close>

lemma rep_beta:
  assumes "rep H \<sigma> t e C V" "x \<notin> C" and a: "lfv a = {}"
    and H': "H' = H(x := term_sub_set arg 1)" and \<sigma>': "\<sigma>' = (\<lambda>l. map_option (lsubst x a) (\<sigma> l))"
    and "x \<in> V \<Longrightarrow> rep H' \<sigma>' arg a Ca Va \<and> x \<notin> Ca \<and> Ca \<inter> C = {} \<and> Va \<inter> V = {}"
  shows "rep H' \<sigma>' t (lsubst x a e) (if x \<in> V then insert x Ca \<union> C else C) (if x \<in> V then V - {x} \<union> Va else V)"
  using assms(1,2,6)
proof (induction rule: rep.induct)
  case (var t)
  show ?case
  proof (cases "term_val t = x")
    case True
    with var have "rep H' \<sigma>' arg a Ca Va" "x \<notin> Ca" by auto
    then have "rep H' \<sigma>' t a (insert x Ca) Va"
      using var True H' by (intro rep.subv) (auto simp: term_word_simps intro: rep_sub_set)
    with True show ?thesis by simp
  qed (use var in \<open>auto intro: rep.var\<close>)
next
  case (subv t l e C V)
  let ?C = "if x \<in> V then insert x Ca \<union> C else C" and ?V = "if x \<in> V then V - {x} \<union> Va else V"
  have "rep H' \<sigma>' (term_sub_set (H l) 0) (lsubst x a e) ?C ?V" by (rule subv.IH) (use subv.prems in auto)
  moreover have "H' l = H l" "l \<notin> ?C" using subv H' by auto
  ultimately have "rep H' \<sigma>' t (lsubst x a e) (insert l ?C) ?V" using subv by (intro rep.subv) auto
  then show ?case by (auto split: if_splits simp: insert_commute)
next
  case (lam t l e C V)
  let ?C = "if x \<in> V then insert x Ca \<union> C else C" and ?V = "if x \<in> V then V - {x} \<union> Va else V"
  have "rep H' \<sigma>' (H l) (lsubst x a e) ?C ?V" by (rule lam.IH) (use lam.prems in auto)
  moreover have "H' l = H l" "l \<noteq> x" "l \<notin> ?C" using lam H' by auto
  ultimately have "rep H' \<sigma>' t (LLam l (lsubst x a e)) (insert l ?C) ?V"
    using lam a by (intro rep.lam) (auto simp: lfv_lsubst)
  with \<open>l \<noteq> x\<close> show ?case by (auto split: if_splits simp: insert_commute)
next
  case (bin t b l e1 C1 V1 e2 C2 V2)
  let ?C1 = "if x \<in> V1 then insert x Ca \<union> C1 else C1" and ?V1 = "if x \<in> V1 then V1 - {x} \<union> Va else V1"
  let ?C2 = "if x \<in> V2 then insert x Ca \<union> C2 else C2" and ?V2 = "if x \<in> V2 then V2 - {x} \<union> Va else V2"
  have r1: "rep H' \<sigma>' (H l) (lsubst x a e1) ?C1 ?V1" by (rule bin.IH(1)) (use bin.prems in auto)
  have r2: "rep H' \<sigma>' (H (l + 1)) (lsubst x a e2) ?C2 ?V2" by (rule bin.IH(2)) (use bin.prems in auto)
  have "H' l = H l" "H' (l + 1) = H (l + 1)" using bin.prems H' by auto
  moreover have "?C1 \<inter> ?C2 = {}" "?V1 \<inter> ?V2 = {}" "{l, l + 1} \<inter> (?C1 \<union> ?C2) = {}"
    using bin.prems bin.hyps by (auto split: if_splits)
  ultimately have "rep H' \<sigma>' t (LBin b (lsubst x a e1) (lsubst x a e2)) ({l, l + 1} \<union> ?C1 \<union> ?C2) (?V1 \<union> ?V2)"
    using bin.hyps r1 r2 by (intro rep.bin) auto
  moreover have "x \<notin> V1 \<or> x \<notin> V2" using bin.hyps by auto
  ultimately show ?case by (auto split: if_splits simp: Un_ac insert_commute Un_Diff)
next
  case (ctr1 t k l e C V)
  let ?C = "if x \<in> V then insert x Ca \<union> C else C" and ?V = "if x \<in> V then V - {x} \<union> Va else V"
  have "rep H' \<sigma>' (H (l + 1)) (lsubst x a e) ?C ?V" by (rule ctr1.IH) (use ctr1.prems in auto)
  moreover have "H' l = H l" "H' (l + 1) = H (l + 1)" "{l, l + 1} \<inter> ?C = {}" using ctr1 H' by auto
  ultimately have "rep H' \<sigma>' t (LCtr1 k (lsubst x a e)) ({l, l + 1} \<union> ?C) ?V"
    using ctr1 by (intro rep.ctr1) (auto simp: ctr_size_def)
  then show ?case by (auto split: if_splits simp: insert_commute)
next
  case (ctr2 t k l e1 C1 V1 e2 C2 V2)
  let ?C1 = "if x \<in> V1 then insert x Ca \<union> C1 else C1" and ?V1 = "if x \<in> V1 then V1 - {x} \<union> Va else V1"
  let ?C2 = "if x \<in> V2 then insert x Ca \<union> C2 else C2" and ?V2 = "if x \<in> V2 then V2 - {x} \<union> Va else V2"
  have r1: "rep H' \<sigma>' (H (l + 1)) (lsubst x a e1) ?C1 ?V1" by (rule ctr2.IH(1)) (use ctr2.prems in auto)
  have r2: "rep H' \<sigma>' (H (l + 2)) (lsubst x a e2) ?C2 ?V2" by (rule ctr2.IH(2)) (use ctr2.prems in auto)
  have "H' l = H l" "H' (l + 1) = H (l + 1)" "H' (l + 2) = H (l + 2)" using ctr2.prems H' by auto
  moreover have "?C1 \<inter> ?C2 = {}" "?V1 \<inter> ?V2 = {}" "{l, l + 1, l + 2} \<inter> (?C1 \<union> ?C2) = {}"
    using ctr2.prems ctr2.hyps by (auto split: if_splits)
  ultimately have "rep H' \<sigma>' t (LCtr2 k (lsubst x a e1) (lsubst x a e2)) ({l, l + 1, l + 2} \<union> ?C1 \<union> ?C2) (?V1 \<union> ?V2)"
    using ctr2.hyps r1 r2 by (intro rep.ctr2) (auto simp: ctr_size_def)
  moreover have "x \<notin> V1 \<or> x \<notin> V2" using ctr2.hyps by auto
  ultimately show ?case by (auto split: if_splits simp: Un_ac insert_commute Un_Diff)
next
  case (ctr0 t k l) then show ?case using H' by (auto intro!: rep.ctr0 simp: ctr_size_def)
qed (auto intro: rep.intros simp: \<sigma>')

end
