(* ===== verification/IC_Soup.thy ===== *)
theory IC_Soup
  imports IC_Rep
begin

text \<open>
  Reducing a term inside a larger net. soup H \<sigma> F X its: the words of the list its stand for their
  (closed) terms, on cells of their own; so does every shared cell, in its original form or already
  reduced to a number, except those of F, whose content is being reduced; no cell of X belongs to any of
  them. Each lemma is a step the reducer may take on a soup: following a substitution, taking a node
  apart or building one, writing to a cell of X, substituting, opening and closing a shared cell.
\<close>

section \<open>Definitions\<close>

inductive items_rep :: "(u64 \<Rightarrow> term_w) \<Rightarrow> (u64 \<Rightarrow> lt option) \<Rightarrow> (term_w \<times> lt) list \<Rightarrow> u64 set \<Rightarrow> u64 set \<Rightarrow> bool"
  for H \<sigma> where
  Nil: "items_rep H \<sigma> [] {} {}"
| Cons: "rep H \<sigma> t e C1 V1 \<Longrightarrow> lfv e = {} \<Longrightarrow> items_rep H \<sigma> its C2 V2 \<Longrightarrow> C1 \<inter> C2 = {} \<Longrightarrow> V1 \<inter> V2 = {}
    \<Longrightarrow> items_rep H \<sigma> ((t, e) # its) (C1 \<union> C2) (V1 \<union> V2)"

inductive_cases items_ConsE: "items_rep H \<sigma> ((t, e) # its) C V"

definition num_cell :: "term_w \<Rightarrow> lt \<Rightarrow> bool" where
  "num_cell c e \<longleftrightarrow> lfv e = {} \<and> (\<exists>dt v n. is_num (term_sub_set c 0) dt v \<and> ev n e (LNum dt v))"

definition cell_ok :: "(u64 \<Rightarrow> term_w) \<Rightarrow> (u64 \<Rightarrow> lt option) \<Rightarrow> u64 \<Rightarrow> lt \<Rightarrow> u64 set \<Rightarrow> u64 set \<Rightarrow> bool" where
  "cell_ok H \<sigma> l e C V \<longleftrightarrow>
     (if term_sub_get (H l) = 0 then (\<exists>C'. C = insert l C' \<and> l \<notin> C' \<and> rep H \<sigma> (H l) e C' V)
      else C = {l} \<and> V = {} \<and> num_cell (H l) e)"

definition shares :: "(u64 \<Rightarrow> term_w) \<Rightarrow> (u64 \<Rightarrow> lt option) \<Rightarrow> u64 set \<Rightarrow> (u64 \<Rightarrow> u64 set) \<Rightarrow> (u64 \<Rightarrow> u64 set) \<Rightarrow> bool" where
  "shares H \<sigma> F CS VS \<longleftrightarrow>
     (\<forall>l e. \<sigma> l = Some e \<longrightarrow> l \<notin> F \<longrightarrow> cell_ok H \<sigma> l e (CS l) (VS l)) \<and>
     (\<forall>l l'. l \<in> dom \<sigma> - F \<longrightarrow> l' \<in> dom \<sigma> - F \<longrightarrow> l \<noteq> l' \<longrightarrow> CS l \<inter> CS l' = {} \<and> VS l \<inter> VS l' = {})"

definition clear_of :: "(u64 \<Rightarrow> lt option) \<Rightarrow> u64 set \<Rightarrow> (u64 \<Rightarrow> u64 set) \<Rightarrow> (u64 \<Rightarrow> u64 set) \<Rightarrow> u64 set \<Rightarrow> u64 set \<Rightarrow> u64 set \<Rightarrow> bool" where
  "clear_of \<sigma> F CS VS C V X \<longleftrightarrow> C \<inter> X = {} \<and> (\<forall>l \<in> dom \<sigma> - F. CS l \<inter> C = {} \<and> VS l \<inter> V = {} \<and> CS l \<inter> X = {})"

definition open_ok :: "(u64 \<Rightarrow> lt option) \<Rightarrow> u64 set \<Rightarrow> u64 set \<Rightarrow> bool" where
  "open_ok \<sigma> F X \<longleftrightarrow> (\<forall>l \<in> F. l \<in> X \<and> (\<exists>e. \<sigma> l = Some e \<and> lfv e = {}))"

definition soup :: "(u64 \<Rightarrow> term_w) \<Rightarrow> (u64 \<Rightarrow> lt option) \<Rightarrow> u64 set \<Rightarrow> u64 set \<Rightarrow> (term_w \<times> lt) list \<Rightarrow> bool" where
  "soup H \<sigma> F X its \<longleftrightarrow>
     open_ok \<sigma> F X \<and> (\<exists>C V CS VS. items_rep H \<sigma> its C V \<and> shares H \<sigma> F CS VS \<and> clear_of \<sigma> F CS VS C V X)"

lemma soupI:
  "open_ok \<sigma> F X \<Longrightarrow> items_rep H \<sigma> its C V \<Longrightarrow> shares H \<sigma> F CS VS \<Longrightarrow> clear_of \<sigma> F CS VS C V X \<Longrightarrow> soup H \<sigma> F X its"
  unfolding soup_def by blast

lemma soup_ConsE:
  assumes "soup H \<sigma> F X ((t, e) # its)"
  obtains C V C2 V2 CS VS where "open_ok \<sigma> F X" "rep H \<sigma> t e C V" "lfv e = {}" "items_rep H \<sigma> its C2 V2"
    "C \<inter> C2 = {}" "V \<inter> V2 = {}" "shares H \<sigma> F CS VS" "clear_of \<sigma> F CS VS (C \<union> C2) (V \<union> V2) X"
  using assms unfolding soup_def by (auto elim!: items_ConsE)

text \<open>Replacing the first items, when the new ones use no more.\<close>

lemma clear_mono:
  "clear_of \<sigma> F CS VS C V X \<Longrightarrow> C' \<union> X' \<subseteq> C \<union> X \<Longrightarrow> V' \<subseteq> V \<Longrightarrow> C' \<inter> X' = {} \<Longrightarrow> clear_of \<sigma> F CS VS C' V' X'"
  unfolding clear_of_def by blast

lemma soup_replace:
  assumes "soup H \<sigma> F X ((t, e) # its)"
    and "\<And>C V. rep H \<sigma> t e C V \<Longrightarrow> lfv e = {} \<Longrightarrow> C \<inter> X = {} \<Longrightarrow>
      \<exists>C' V'. items_rep H \<sigma> new C' V' \<and> C' \<union> X' \<subseteq> C \<union> X \<and> V' \<subseteq> V \<and> C' \<inter> X' = {} \<and> X \<subseteq> X'"
  shows "soup H \<sigma> F X' (new @ its)"
proof -
  have app: "items_rep H \<sigma> new C1 V1 \<Longrightarrow> items_rep H \<sigma> its C2 V2 \<Longrightarrow> C1 \<inter> C2 = {} \<Longrightarrow> V1 \<inter> V2 = {}
      \<Longrightarrow> items_rep H \<sigma> (new @ its) (C1 \<union> C2) (V1 \<union> V2)" for C1 V1 C2 V2
  proof (induction rule: items_rep.induct)
    case (Cons t e Ca Va its' Cb Vb)
    have "items_rep H \<sigma> (its' @ its) (Cb \<union> C2) (Vb \<union> V2)" by (rule Cons.IH) (use Cons.prems in auto)
    then have "items_rep H \<sigma> ((t, e) # its' @ its) (Ca \<union> (Cb \<union> C2)) (Va \<union> (Vb \<union> V2))"
      using Cons by (intro items_rep.Cons) auto
    then show ?case by (simp add: Un_assoc)
  qed simp
  from assms(1) obtain C V C2 V2 CS VS where s: "open_ok \<sigma> F X" "rep H \<sigma> t e C V" "lfv e = {}" "items_rep H \<sigma> its C2 V2"
    "C \<inter> C2 = {}" "V \<inter> V2 = {}" "shares H \<sigma> F CS VS" "clear_of \<sigma> F CS VS (C \<union> C2) (V \<union> V2) X"
    by (rule soup_ConsE)
  have "C \<inter> X = {}" using s(8) by (auto simp: clear_of_def)
  from assms(2) [OF s(2,3) this] obtain C' V' where n: "items_rep H \<sigma> new C' V'" "C' \<union> X' \<subseteq> C \<union> X" "V' \<subseteq> V" "C' \<inter> X' = {}" "X \<subseteq> X'"
    by blast
  have x: "C2 \<inter> X = {}" using s(8) by (auto simp: clear_of_def)
  show ?thesis
  proof (rule soupI)
    show "open_ok \<sigma> F X'" using s(1) n(5) by (auto simp: open_ok_def)
    show "items_rep H \<sigma> (new @ its) (C' \<union> C2) (V' \<union> V2)"
      by (rule app [OF n(1) s(4)]) (use n s x in \<open>auto simp: clear_of_def\<close>)
    show "shares H \<sigma> F CS VS" by (rule s)
    show "clear_of \<sigma> F CS VS (C' \<union> C2) (V' \<union> V2) X'"
      using s n x by (intro clear_mono [OF s(8)]) auto
  qed
qed

section \<open>Steps\<close>

lemma soup_drop: "soup H \<sigma> F X ((t, e) # its) \<Longrightarrow> soup H \<sigma> F X its"
  by (drule soup_replace [where new = "[]" and X' = X]) (auto intro: items_rep.Nil simp: clear_of_def)

lemma soup_atom:
  assumes "soup H \<sigma> F X its" "rep H \<sigma> t e {} {}" "lfv e = {}"
  shows "soup H \<sigma> F X ((t, e) # its)"
  using assms items_rep.Cons [OF assms(2,3)] unfolding soup_def by (metis Int_empty_left Un_empty_left)

lemma soup_swap:
  assumes "soup H \<sigma> F X ((t, e) # (u, d) # its)"
  shows "soup H \<sigma> F X ((u, d) # (t, e) # its)"
proof -
  have "items_rep H \<sigma> ((u, d) # (t, e) # its) C V" if r: "items_rep H \<sigma> ((t, e) # (u, d) # its) C V" for C V
  proof -
    from r obtain C1 V1 C2 V2 C3 V3 where c: "rep H \<sigma> t e C1 V1" "lfv e = {}" "rep H \<sigma> u d C2 V2" "lfv d = {}"
      "items_rep H \<sigma> its C3 V3" "C1 \<inter> (C2 \<union> C3) = {}" "V1 \<inter> (V2 \<union> V3) = {}" "C2 \<inter> C3 = {}" "V2 \<inter> V3 = {}"
      "C = C1 \<union> (C2 \<union> C3)" "V = V1 \<union> (V2 \<union> V3)"
      by (auto elim!: items_ConsE)
    then have "items_rep H \<sigma> ((t, e) # its) (C1 \<union> C3) (V1 \<union> V3)" by (intro items_rep.Cons) auto
    then have "items_rep H \<sigma> ((u, d) # (t, e) # its) (C2 \<union> (C1 \<union> C3)) (V2 \<union> (V1 \<union> V3))"
      using c by (intro items_rep.Cons) auto
    with c(10,11) show ?thesis by (simp add: Un_left_commute)
  qed
  with assms show ?thesis unfolding soup_def by blast
qed

lemma soup_less:
  assumes "soup H \<sigma> F X its" "X' \<subseteq> X" "F \<subseteq> X'"
  shows "soup H \<sigma> F X' its"
proof -
  from assms(1) obtain C V CS VS where s: "open_ok \<sigma> F X" "items_rep H \<sigma> its C V" "shares H \<sigma> F CS VS"
    "clear_of \<sigma> F CS VS C V X" unfolding soup_def by blast
  have "clear_of \<sigma> F CS VS C V X'" using s(4) assms(2) unfolding clear_of_def by blast
  moreover have "open_ok \<sigma> F X'" using s(1) assms(3) by (auto simp: open_ok_def)
  ultimately show ?thesis using s by (intro soupI)
qed

text \<open>A write to a cell that nobody owns.\<close>

lemma items_frame:
  "items_rep H \<sigma> its C V \<Longrightarrow> (\<And>c. c \<in> C \<Longrightarrow> H' c = H c) \<Longrightarrow> items_rep H' \<sigma> its C V"
proof (induction rule: items_rep.induct)
  case (Cons t e C1 V1 its C2 V2)
  have "rep H' \<sigma> t e C1 V1" by (rule rep_frame [OF Cons.hyps(1)]) (use Cons.prems in auto)
  then show ?case using Cons by (intro items_rep.Cons) auto
qed (rule items_rep.Nil)

lemma cell_ok_frame:
  assumes "cell_ok H \<sigma> l e C V" "\<And>c. c \<in> C \<Longrightarrow> H' c = H c"
  shows "cell_ok H' \<sigma> l e C V"
proof -
  have l: "H' l = H l" using assms by (auto simp: cell_ok_def split: if_splits)
  have "rep H' \<sigma> (H l) e C' V" if "rep H \<sigma> (H l) e C' V" "C = insert l C'" for C'
    by (rule rep_frame [OF that(1)]) (use assms(2) that in auto)
  with assms(1) l show ?thesis by (auto simp: cell_ok_def split: if_splits)
qed

lemma soup_write:
  assumes "soup H \<sigma> F X its" "c \<in> X"
  shows "soup (H(c := w)) \<sigma> F X its"
proof -
  from assms(1) obtain C V CS VS where s: "open_ok \<sigma> F X" "items_rep H \<sigma> its C V" "shares H \<sigma> F CS VS"
    "clear_of \<sigma> F CS VS C V X" unfolding soup_def by blast
  have "items_rep (H(c := w)) \<sigma> its C V"
    by (rule items_frame [OF s(2)]) (use s(4) assms(2) in \<open>auto simp: clear_of_def\<close>)
  moreover have "cell_ok (H(c := w)) \<sigma> l e (CS l) (VS l)" if "\<sigma> l = Some e" "l \<notin> F" for l e
  proof (rule cell_ok_frame)
    show "cell_ok H \<sigma> l e (CS l) (VS l)" using s(3) that by (simp add: shares_def)
    fix c' assume "c' \<in> CS l"
    moreover have "CS l \<inter> X = {}" using s(4) that by (auto simp: clear_of_def)
    ultimately show "(H(c := w)) c' = H c'" using assms(2) by auto
  qed
  then have "shares (H(c := w)) \<sigma> F CS VS" using s(3) by (simp add: shares_def)
  ultimately show ?thesis using s by (intro soupI) auto
qed

section \<open>Nodes\<close>

inductive_cases rep_varE: "rep H \<sigma> t (LVar x) C V"
inductive_cases rep_lamE: "rep H \<sigma> t (LLam x e) C V"
inductive_cases rep_numE: "rep H \<sigma> t (LNum dt v) C V"
inductive_cases rep_eraE: "rep H \<sigma> t LEra C V"
inductive_cases rep_dpE: "rep H \<sigma> t (LDp e) C V"
inductive_cases rep_binE: "rep H \<sigma> t (LBin b e1 e2) C V"
inductive_cases rep_ctr0E: "rep H \<sigma> t (LCtr0 k) C V"
inductive_cases rep_ctr1E: "rep H \<sigma> t (LCtr1 k a) C V"
inductive_cases rep_ctr2E: "rep H \<sigma> t (LCtr2 k a b) C V"

lemma items1: "rep H \<sigma> t e C V \<Longrightarrow> lfv e = {} \<Longrightarrow> items_rep H \<sigma> [(t, e)] C V"
  using items_rep.Cons [OF _ _ items_rep.Nil, of H \<sigma> t e C V] by simp

lemma items2:
  "rep H \<sigma> t e C V \<Longrightarrow> lfv e = {} \<Longrightarrow> rep H \<sigma> u d C2 V2 \<Longrightarrow> lfv d = {} \<Longrightarrow> C \<inter> C2 = {} \<Longrightarrow> V \<inter> V2 = {}
    \<Longrightarrow> items_rep H \<sigma> [(t, e), (u, d)] (C \<union> C2) (V \<union> V2)"
  by (intro items_rep.Cons items1)

lemma soup_tag: "soup H \<sigma> F X ((t, e) # its) \<Longrightarrow> term_tag t \<in> {TAG_VAR, TAG_LAM, TAG_NUM, TAG_ERA, TAG_DP0, TAG_DP1,
    TAG_APP, TAG_OP2, TAG_EQL, TAG_AND, TAG_OR, TAG_WHEN, TAG_MAT, TAG_CTR}"
  by (erule soup_ConsE) (rule rep_tag)

lemma soup_closed: "soup H \<sigma> F X ((t, e) # its) \<Longrightarrow> lfv e = {}"
  by (erule soup_ConsE)

lemma rep_sub_inv:
  assumes "rep H \<sigma> t e C V" "term_tag t = TAG_VAR" "lfv e = {}"
  shows "term_sub_get (H (term_val t)) \<noteq> 0 \<and> (\<exists>C'. rep H \<sigma> (term_sub_set (H (term_val t)) 0) e C' V \<and> C' \<subseteq> C)"
  using assms by cases (auto simp: is_num_def is_dp_def bin_of_def ctr_size_def ic_tag_defs Let_def)

lemma soup_sub:
  assumes "soup H \<sigma> F X ((t, e) # its)" "term_tag t = TAG_VAR"
  shows "term_sub_get (H (term_val t)) \<noteq> 0" and "soup H \<sigma> F X ((term_sub_set (H (term_val t)) 0, e) # its)"
proof -
  show "term_sub_get (H (term_val t)) \<noteq> 0"
    using assms(1) by (rule soup_ConsE) (use assms(2) in \<open>auto dest: rep_sub_inv\<close>)
  have "soup H \<sigma> F X ([(term_sub_set (H (term_val t)) 0, e)] @ its)"
  proof (rule soup_replace [OF assms(1)])
    fix C V assume r: "rep H \<sigma> t e C V" "lfv e = {}" "C \<inter> X = {}"
    then obtain C' where "rep H \<sigma> (term_sub_set (H (term_val t)) 0) e C' V" "C' \<subseteq> C"
      using rep_sub_inv assms(2) by blast
    with r items1 show "\<exists>C' V'. items_rep H \<sigma> [(term_sub_set (H (term_val t)) 0, e)] C' V' \<and> C' \<union> X \<subseteq> C \<union> X
        \<and> V' \<subseteq> V \<and> C' \<inter> X = {} \<and> X \<subseteq> X" by blast
  qed
  then show "soup H \<sigma> F X ((term_sub_set (H (term_val t)) 0, e) # its)" by simp
qed

text \<open>Taking a node apart makes its cells free to be written.\<close>

lemma soup_bin:
  assumes "soup H \<sigma> F X ((t, LBin b e1 e2) # its)" "term_tag t \<noteq> TAG_VAR" "l = term_val t"
  shows "bin_of t = Some b" and "soup H \<sigma> F (X \<union> {l, l + 1}) ((H l, e1) # (H (l + 1), e2) # its)"
proof -
  show "bin_of t = Some b" using assms(1) by (rule soup_ConsE) (use assms(2) in \<open>auto elim: rep_binE\<close>)
  have "soup H \<sigma> F (X \<union> {l, l + 1}) ([(H l, e1), (H (l + 1), e2)] @ its)"
  proof (rule soup_replace [OF assms(1)])
    fix C V assume r: "rep H \<sigma> t (LBin b e1 e2) C V" "lfv (LBin b e1 e2) = {}" "C \<inter> X = {}"
    from r(1) obtain C1 V1 C2 V2 where c: "rep H \<sigma> (H l) e1 C1 V1" "rep H \<sigma> (H (l + 1)) e2 C2 V2" "C1 \<inter> C2 = {}" "V1 \<inter> V2 = {}"
      "{l, l + 1} \<inter> (C1 \<union> C2) = {}" "C = {l, l + 1} \<union> C1 \<union> C2" "V = V1 \<union> V2"
      by (rule rep_binE) (use assms(2,3) in auto)
    have "items_rep H \<sigma> [(H l, e1), (H (l + 1), e2)] (C1 \<union> C2) (V1 \<union> V2)" by (rule items2) (use c r in auto)
    with c r show "\<exists>C' V'. items_rep H \<sigma> [(H l, e1), (H (l + 1), e2)] C' V' \<and> C' \<union> (X \<union> {l, l + 1}) \<subseteq> C \<union> X
        \<and> V' \<subseteq> V \<and> C' \<inter> (X \<union> {l, l + 1}) = {} \<and> X \<subseteq> X \<union> {l, l + 1}" by (intro exI conjI) (assumption | blast)+
  qed
  then show "soup H \<sigma> F (X \<union> {l, l + 1}) ((H l, e1) # (H (l + 1), e2) # its)" by simp
qed

lemma soup_ctr0:
  assumes "soup H \<sigma> F X ((t, LCtr0 k) # its)" "term_tag t \<noteq> TAG_VAR"
  shows "ctr_size H t 0 \<and> term_ext t = k"
  using assms(1) by (rule soup_ConsE) (use assms(2) in \<open>auto elim: rep_ctr0E\<close>)

lemma soup_ctr1:
  assumes "soup H \<sigma> F X ((t, LCtr1 k a) # its)" "term_tag t \<noteq> TAG_VAR" "l = term_val t"
  shows "ctr_size H t 1 \<and> term_ext t = k" and "soup H \<sigma> F (X \<union> {l, l + 1}) ((H (l + 1), a) # its)"
proof -
  show "ctr_size H t 1 \<and> term_ext t = k" using assms(1) by (rule soup_ConsE) (use assms(2) in \<open>auto elim: rep_ctr1E\<close>)
  have "soup H \<sigma> F (X \<union> {l, l + 1}) ([(H (l + 1), a)] @ its)"
  proof (rule soup_replace [OF assms(1)])
    fix C V assume r: "rep H \<sigma> t (LCtr1 k a) C V" "lfv (LCtr1 k a) = {}" "C \<inter> X = {}"
    from r(1) obtain C1 where c: "rep H \<sigma> (H (l + 1)) a C1 V" "{l, l + 1} \<inter> C1 = {}" "C = {l, l + 1} \<union> C1"
      by (rule rep_ctr1E) (use assms(2,3) in auto)
    have "items_rep H \<sigma> [(H (l + 1), a)] C1 V" by (rule items1) (use c r in auto)
    with c r show "\<exists>C' V'. items_rep H \<sigma> [(H (l + 1), a)] C' V' \<and> C' \<union> (X \<union> {l, l + 1}) \<subseteq> C \<union> X
        \<and> V' \<subseteq> V \<and> C' \<inter> (X \<union> {l, l + 1}) = {} \<and> X \<subseteq> X \<union> {l, l + 1}" by (intro exI conjI) (assumption | blast)+
  qed
  then show "soup H \<sigma> F (X \<union> {l, l + 1}) ((H (l + 1), a) # its)" by simp
qed

lemma soup_ctr2:
  assumes "soup H \<sigma> F X ((t, LCtr2 k a b) # its)" "term_tag t \<noteq> TAG_VAR" "l = term_val t"
  shows "ctr_size H t 2 \<and> term_ext t = k \<and> l < 2 ^ 37"
    and "soup H \<sigma> F (X \<union> {l, l + 1, l + 2}) ((H (l + 1), a) # (H (l + 2), b) # its)"
proof -
  show "ctr_size H t 2 \<and> term_ext t = k \<and> l < 2 ^ 37"
    using assms(1) by (rule soup_ConsE) (use assms(2,3) in \<open>auto elim: rep_ctr2E\<close>)
  have "soup H \<sigma> F (X \<union> {l, l + 1, l + 2}) ([(H (l + 1), a), (H (l + 2), b)] @ its)"
  proof (rule soup_replace [OF assms(1)])
    fix C V assume r: "rep H \<sigma> t (LCtr2 k a b) C V" "lfv (LCtr2 k a b) = {}" "C \<inter> X = {}"
    from r(1) obtain C1 V1 C2 V2 where c: "rep H \<sigma> (H (l + 1)) a C1 V1" "rep H \<sigma> (H (l + 2)) b C2 V2" "C1 \<inter> C2 = {}"
      "V1 \<inter> V2 = {}" "{l, l + 1, l + 2} \<inter> (C1 \<union> C2) = {}" "C = {l, l + 1, l + 2} \<union> C1 \<union> C2" "V = V1 \<union> V2"
      by (rule rep_ctr2E) (use assms(2,3) in auto)
    have "items_rep H \<sigma> [(H (l + 1), a), (H (l + 2), b)] (C1 \<union> C2) (V1 \<union> V2)" by (rule items2) (use c r in auto)
    with c r show "\<exists>C' V'. items_rep H \<sigma> [(H (l + 1), a), (H (l + 2), b)] C' V' \<and> C' \<union> (X \<union> {l, l + 1, l + 2}) \<subseteq> C \<union> X
        \<and> V' \<subseteq> V \<and> C' \<inter> (X \<union> {l, l + 1, l + 2}) = {} \<and> X \<subseteq> X \<union> {l, l + 1, l + 2}" by (intro exI conjI) (assumption | blast)+
  qed
  then show "soup H \<sigma> F (X \<union> {l, l + 1, l + 2}) ((H (l + 1), a) # (H (l + 2), b) # its)" by simp
qed

text \<open>Building a node from two free cells.\<close>

lemma soup_build:
  assumes "soup H \<sigma> F X ((H l, e1) # (H (l + 1), e2) # its)" "{l, l + 1} \<subseteq> X" "F \<subseteq> X - {l, l + 1}"
    and t: "bin_of t = Some b" "term_val t = l"
  shows "soup H \<sigma> F (X - {l, l + 1}) ((t, LBin b e1 e2) # its)"
proof -
  from assms(1) obtain C1 V1 C V CS VS where s: "open_ok \<sigma> F X" "rep H \<sigma> (H l) e1 C1 V1" "lfv e1 = {}"
    "items_rep H \<sigma> ((H (l + 1), e2) # its) C V" "C1 \<inter> C = {}" "V1 \<inter> V = {}" "shares H \<sigma> F CS VS"
    "clear_of \<sigma> F CS VS (C1 \<union> C) (V1 \<union> V) X" by (rule soup_ConsE)
  from s(4) obtain C2 V2 C3 V3 where c: "rep H \<sigma> (H (l + 1)) e2 C2 V2" "lfv e2 = {}" "items_rep H \<sigma> its C3 V3" "C2 \<inter> C3 = {}"
    "V2 \<inter> V3 = {}" "C = C2 \<union> C3" "V = V2 \<union> V3" by (rule items_ConsE) auto
  have x: "(C1 \<union> C) \<inter> X = {}" using s(8) by (auto simp: clear_of_def)
  have "rep H \<sigma> t (LBin b e1 e2) ({l, l + 1} \<union> C1 \<union> C2) (V1 \<union> V2)"
    by (rule rep.bin [OF t(1) t(2) [symmetric] s(2) c(1)]) (use s c x assms(2) in auto)
  then have "items_rep H \<sigma> ((t, LBin b e1 e2) # its) ({l, l + 1} \<union> C1 \<union> C2 \<union> C3) (V1 \<union> V2 \<union> V3)"
    by (rule items_rep.Cons) (use s c x assms(2) in auto)
  moreover have "clear_of \<sigma> F CS VS ({l, l + 1} \<union> C1 \<union> C2 \<union> C3) (V1 \<union> V2 \<union> V3) (X - {l, l + 1})"
    by (rule clear_mono [OF s(8)]) (use c x assms(2) in auto)
  moreover have "open_ok \<sigma> F (X - {l, l + 1})" using s(1) assms(3) by (auto simp: open_ok_def)
  ultimately show ?thesis using s(7) by (intro soupI)
qed

lemma soup_num:
  assumes "soup H \<sigma> F X ((t, LNum dt v) # its)" "term_tag t \<noteq> TAG_VAR"
  shows "is_num t dt v"
  using assms(1) by (rule soup_ConsE) (use assms(2) in \<open>auto elim: rep_numE\<close>)

lemma soup_of_num: "soup H \<sigma> F X its \<Longrightarrow> is_num t dt v \<Longrightarrow> soup H \<sigma> F X ((t, LNum dt v) # its)"
  by (rule soup_atom) (auto intro: rep.num)

lemma soup_of_era: "soup H \<sigma> F X its \<Longrightarrow> term_tag t = TAG_ERA \<Longrightarrow> soup H \<sigma> F X ((t, LEra) # its)"
  by (rule soup_atom) (auto intro: rep.era)

lemma soup_era:
  assumes "soup H \<sigma> F X ((t, LEra) # its)" "term_tag t \<noteq> TAG_VAR"
  shows "term_tag t = TAG_ERA"
  using assms(1) by (rule soup_ConsE) (use assms(2) in \<open>auto elim: rep_eraE\<close>)

text \<open>A word with the tag of a number is one.\<close>

lemma soup_num_tag:
  assumes "soup H \<sigma> F X ((t, e) # its)" "term_tag t = TAG_NUM"
  obtains dt v where "e = LNum dt v" "is_num t dt v"
proof -
  from assms(1) obtain C V where "rep H \<sigma> t e C V" by (rule soup_ConsE)
  then have "\<exists>dt v. e = LNum dt v \<and> is_num t dt v"
    using assms(2) by cases (auto simp: is_dp_def bin_of_def ctr_size_def ic_tag_defs Let_def split: if_splits)
  with that show ?thesis by blast
qed

end
