(* ===== verification/IC_Share.thy ===== *)
theory IC_Share
  imports IC_Soup
begin

text \<open>
  The steps of a soup that change what cells stand for: the substitution of an application
  (soup_beta) and the reduction of a shared cell (soup_share to open it, soup_close to leave its number
  in it).
\<close>

section \<open>Substitution\<close>

lemma items_binders: "items_rep H \<sigma> its C V \<Longrightarrow> V \<subseteq> C"
proof (induction rule: items_rep.induct)
  case (Cons t e C1 V1 its C2 V2) then show ?case using rep_binders [OF Cons.hyps(1)] by auto
qed simp

lemma rep_beta_fresh:
  assumes "rep H \<sigma> t e C V" "x \<notin> C" "x \<notin> V" "lfv a = {}"
    "H' = H(x := term_sub_set arg 1)" "\<sigma>' = (\<lambda>l. map_option (lsubst x a) (\<sigma> l))"
  shows "rep H' \<sigma>' t (lsubst x a e) C V"
  using rep_beta [OF assms(1,2,4,5,6)] assms(3) by simp

lemma items_beta:
  assumes "items_rep H \<sigma> its C V" "x \<notin> C" "lfv a = {}"
    "H' = H(x := term_sub_set arg 1)" "\<sigma>' = (\<lambda>l. map_option (lsubst x a) (\<sigma> l))"
  shows "items_rep H' \<sigma>' its C V"
  using assms(1,2)
proof (induction rule: items_rep.induct)
  case (Cons t e C1 V1 its C2 V2)
  have "x \<notin> V1" using rep_binders [OF Cons.hyps(1)] Cons.hyps(2) Cons.prems by auto
  then have "rep H' \<sigma>' t (lsubst x a e) C1 V1"
    by (intro rep_beta_fresh [OF Cons.hyps(1) _ _ assms(3-5)]) (use Cons.prems in auto)
  then have "rep H' \<sigma>' t e C1 V1" using Cons.hyps(2) by (simp add: lsubst_fresh)
  then show ?case using Cons by (intro items_rep.Cons) auto
qed (rule items_rep.Nil)

lemma cell_ok_beta:
  assumes "cell_ok H \<sigma> l e C V" "x \<notin> C" and a: "lfv a = {}"
    "H' = H(x := term_sub_set arg 1)" "\<sigma>' = (\<lambda>l. map_option (lsubst x a) (\<sigma> l))"
    and arg: "rep H' \<sigma>' arg a Ca Va" "x \<notin> Ca" "Ca \<inter> C = {}" "Va \<inter> V = {}"
  shows "cell_ok H' \<sigma>' l (lsubst x a e) (if x \<in> V then insert x Ca \<union> C else C) (if x \<in> V then V - {x} \<union> Va else V)"
proof (cases "term_sub_get (H l) = 0")
  case True
  with assms(1) obtain C' where c: "C = insert l C'" "l \<notin> C'" "rep H \<sigma> (H l) e C' V" by (auto simp: cell_ok_def)
  define Cn where "Cn = (if x \<in> V then insert x Ca \<union> C' else C')"
  have r: "rep H' \<sigma>' (H l) (lsubst x a e) Cn (if x \<in> V then V - {x} \<union> Va else V)"
    unfolding Cn_def by (rule rep_beta [OF c(3) _ a]) (use assms(2) c(1) arg in auto)
  have H: "H' l = H l" using assms(2,4) c(1) by auto
  have l: "l \<notin> Cn" using c arg(3) assms(2) by (auto simp: Cn_def)
  have C: "(if x \<in> V then insert x Ca \<union> C else C) = insert l Cn" using c(1) by (auto simp: Cn_def)
  show ?thesis unfolding cell_ok_def C H using True r l by (simp only: simp_thms if_True) blast
next
  case False
  with assms(1) have c: "C = {l}" "V = {}" "num_cell (H l) e" by (auto simp: cell_ok_def)
  then have "H' l = H l" "lsubst x a e = e" using assms(2,4) by (auto simp: num_cell_def lsubst_fresh)
  with c False show ?thesis by (simp add: cell_ok_def)
qed

lemma soup_beta:
  assumes s0: "soup H \<sigma> F X ((t, LLam x b) # (arg, a) # its)" and t: "term_tag t \<noteq> TAG_VAR"
  shows "term_tag t = TAG_LAM" "term_val t = x"
    and "term_ext t AND LAM_ERA_MASK \<noteq> 0 \<Longrightarrow> soup H \<sigma> F X ((H x, lsubst x a b) # its)"
    and "\<exists>\<sigma>'. soup (H(x := term_sub_set arg 1)) \<sigma>' F X ((H x, lsubst x a b) # its) \<and> (\<forall>l \<in> F. \<sigma>' l = \<sigma> l)"
    and "x \<notin> X"
proof -
  from s0 obtain C V C2 V2 CS VS where s: "open_ok \<sigma> F X" "rep H \<sigma> t (LLam x b) C V" "lfv (LLam x b) = {}"
    "items_rep H \<sigma> ((arg, a) # its) C2 V2" "C \<inter> C2 = {}" "V \<inter> V2 = {}" "shares H \<sigma> F CS VS"
    "clear_of \<sigma> F CS VS (C \<union> C2) (V \<union> V2) X" by (rule soup_ConsE)
  from s(2) obtain Cb where c: "term_tag t = TAG_LAM" "term_val t = x" "rep H \<sigma> (H x) b Cb V" "x \<notin> Cb" "C = insert x Cb"
    and mask: "term_ext t AND LAM_ERA_MASK \<noteq> 0 \<longrightarrow> x \<notin> lfv b" by (rule rep_lamE) (use t in auto)
  show "term_tag t = TAG_LAM" "term_val t = x" by (rule c)+
  have X: "(C \<union> C2) \<inter> X = {}" using s(8) by (auto simp: clear_of_def)
  then show "x \<notin> X" using c(5) by auto
  from s(4) obtain Ca Va C3 V3 where d: "rep H \<sigma> arg a Ca Va" "lfv a = {}" "items_rep H \<sigma> its C3 V3" "Ca \<inter> C3 = {}"
    "Va \<inter> V3 = {}" "C2 = Ca \<union> C3" "V2 = Va \<union> V3" by (rule items_ConsE) auto
  have b: "lfv b \<subseteq> {x}" using s(3) by auto
  show "soup H \<sigma> F X ((H x, lsubst x a b) # its)" if "term_ext t AND LAM_ERA_MASK \<noteq> 0"
  proof -
    from that mask b have "lfv b = {}" "lsubst x a b = b" by (auto simp: lsubst_fresh)
    moreover have "items_rep H \<sigma> ((H x, b) # its) (Cb \<union> C3) (V \<union> V3)"
      by (rule items_rep.Cons [OF c(3) \<open>lfv b = {}\<close> d(3)]) (use s(5,6) c(5) d in auto)
    moreover have "clear_of \<sigma> F CS VS (Cb \<union> C3) (V \<union> V3) X"
      by (rule clear_mono [OF s(8)]) (use X c(5) d in auto)
    ultimately show ?thesis using s(1,7) by (auto intro: soupI)
  qed
  define H' where "H' = H(x := term_sub_set arg 1)"
  define \<sigma>' where "\<sigma>' = (\<lambda>l. map_option (lsubst x a) (\<sigma> l))"
  have xa: "x \<notin> Ca" "x \<notin> C3" using s(5) c(5) d(6) by auto
  have "x \<notin> Va" using rep_binders [OF d(1)] d(2) xa(1) by auto
  with rep_beta_fresh [OF d(1) xa(1) _ d(2) H'_def \<sigma>'_def] have arg: "rep H' \<sigma>' arg a Ca Va"
    using d(2) by (simp add: lsubst_fresh)
  let ?C = "\<lambda>C V. if x \<in> V then insert x Ca \<union> C else C" and ?V = "\<lambda>V. if x \<in> V then V - {x} \<union> Va else V"
  have body: "rep H' \<sigma>' (H x) (lsubst x a b) (?C Cb V) (?V V)"
    by (rule rep_beta [OF c(3,4) d(2) H'_def \<sigma>'_def]) (use arg xa s(5,6) c(5) d in auto)
  have cl: "CS l \<inter> (C \<union> C2) = {}" "VS l \<inter> (V \<union> V2) = {}" "CS l \<inter> X = {}" if "l \<in> dom \<sigma> - F" for l
    using s(8) that unfolding clear_of_def by blast+
  have dom: "dom \<sigma>' = dom \<sigma>" by (auto simp: \<sigma>'_def)
  have "items_rep H' \<sigma>' ((H x, lsubst x a b) # its) (?C Cb V \<union> C3) (?V V \<union> V3)"
  proof (rule items_rep.Cons [OF body])
    show "lfv (lsubst x a b) = {}" using b d(2) by (auto simp: lfv_lsubst)
    show "items_rep H' \<sigma>' its C3 V3" by (rule items_beta [OF d(3) xa(2) d(2) H'_def \<sigma>'_def])
  qed (use s(5,6) c(5) d xa in auto)
  moreover have "shares H' \<sigma>' F (\<lambda>l. ?C (CS l) (VS l)) (\<lambda>l. ?V (VS l))"
    unfolding shares_def dom
  proof (intro conjI allI impI)
    fix l e assume l: "\<sigma>' l = Some e" "l \<notin> F"
    then obtain e0 where e0: "\<sigma> l = Some e0" "e = lsubst x a e0" by (auto simp: \<sigma>'_def)
    have dl: "l \<in> dom \<sigma> - F" using e0(1) l(2) by blast
    have "cell_ok H \<sigma> l e0 (CS l) (VS l)" using s(7) e0(1) l(2) by (simp add: shares_def)
    then show "cell_ok H' \<sigma>' l e (?C (CS l) (VS l)) (?V (VS l))"
      unfolding e0(2) using cl [OF dl] c(5) d xa
      by (intro cell_ok_beta [OF _ _ d(2) H'_def \<sigma>'_def arg]) auto
  next
    fix l l' assume l: "l \<in> dom \<sigma> - F" "l' \<in> dom \<sigma> - F" "l \<noteq> l'"
    have p: "CS l \<inter> CS l' = {}" "VS l \<inter> VS l' = {}" using s(7) l unfolding shares_def by blast+
    show "?C (CS l) (VS l) \<inter> ?C (CS l') (VS l') = {}"
      using p cl(1) [OF l(1)] cl(1) [OF l(2)] c(5) d(6) by auto
    show "?V (VS l) \<inter> ?V (VS l') = {}"
      using p cl(2) [OF l(1)] cl(2) [OF l(2)] d(7) by auto
  qed
  moreover have "clear_of \<sigma>' F (\<lambda>l. ?C (CS l) (VS l)) (\<lambda>l. ?V (VS l)) (?C Cb V \<union> C3) (?V V \<union> V3) X"
    unfolding clear_of_def dom
  proof (intro conjI ballI)
    show "(?C Cb V \<union> C3) \<inter> X = {}" using X c(5) d(6) by auto
    fix l assume l: "l \<in> dom \<sigma> - F"
    show "?C (CS l) (VS l) \<inter> (?C Cb V \<union> C3) = {}"
      using cl [OF l] s(5) c d(4,6) xa by auto
    show "?V (VS l) \<inter> (?V V \<union> V3) = {}"
      using cl [OF l] s(6) d(5,7) rep_binders [OF d(1)] d(2) xa \<open>x \<notin> Va\<close> by auto
    show "?C (CS l) (VS l) \<inter> X = {}" using cl [OF l] X c(5) d(6) by auto
  qed
  moreover have same: "\<sigma>' l = \<sigma> l" if "l \<in> F" for l
    using s(1) that unfolding open_ok_def \<sigma>'_def by (auto simp: lsubst_fresh)
  then have "open_ok \<sigma>' F X" using s(1) by (simp add: open_ok_def)
  ultimately have "soup H' \<sigma>' F X ((H x, lsubst x a b) # its)" by (intro soupI)
  with same show "\<exists>\<sigma>'. soup (H(x := term_sub_set arg 1)) \<sigma>' F X ((H x, lsubst x a b) # its) \<and> (\<forall>l \<in> F. \<sigma>' l = \<sigma> l)"
    unfolding H'_def by blast
qed

end
