(* ===== verification/IC_Dup.thy ===== *)
theory IC_Dup
  imports IC_Share
begin

text \<open>
  Shared cells: the projection of one opens it (its content becomes a term of the soup and the
  cell is in reduction), and the number it is reduced to closes it.
\<close>

lemma rep_dp_inv:
  assumes "rep H \<sigma> t (LDp e) C V" "term_tag t \<noteq> TAG_VAR"
  shows "is_dp t" "term_ext t AND DUP_GRAD_FLAG = 0" "\<sigma> (term_val t) = Some e" "C = {}" "V = {}"
  using assms(1) by (rule rep_dpE; use assms(2) in simp)+

lemma soup_dp:
  assumes "soup H \<sigma> F X ((t, LDp e) # its)" "term_tag t \<noteq> TAG_VAR"
  shows "is_dp t" "term_ext t AND DUP_GRAD_FLAG = 0" "\<sigma> (term_val t) = Some e" "lfv e = {}"
  using assms(1) by (rule soup_ConsE; use assms(2) rep_dp_inv in auto)+

text \<open>An unreduced cell is taken out of the shared ones.\<close>

lemma soup_open:
  assumes "soup H \<sigma> F X its" "\<sigma> l = Some e" "lfv e = {}" "l \<notin> F" "term_sub_get (H l) = 0"
  shows "soup H \<sigma> (insert l F) (insert l X) ((H l, e) # its)" "l \<notin> X"
proof -
  from assms(1) obtain C V CS VS where s: "open_ok \<sigma> F X" "items_rep H \<sigma> its C V" "shares H \<sigma> F CS VS"
    "clear_of \<sigma> F CS VS C V X" unfolding soup_def by blast
  have dl: "l \<in> dom \<sigma> - F" using assms(2,4) by auto
  have "cell_ok H \<sigma> l e (CS l) (VS l)" using s(3) assms(2,4) by (simp add: shares_def)
  with assms(5) obtain C' where c: "CS l = insert l C'" "l \<notin> C'" "rep H \<sigma> (H l) e C' (VS l)" by (auto simp: cell_ok_def)
  have cl: "CS l \<inter> C = {}" "VS l \<inter> V = {}" "CS l \<inter> X = {}" using s(4) dl unfolding clear_of_def by blast+
  show "l \<notin> X" using cl(3) c(1) by auto
  have "items_rep H \<sigma> ((H l, e) # its) (C' \<union> C) (VS l \<union> V)"
    by (rule items_rep.Cons [OF c(3) assms(3) s(2)]) (use cl c(1) in auto)
  moreover have "shares H \<sigma> (insert l F) CS VS" using s(3) by (auto simp: shares_def)
  moreover have "clear_of \<sigma> (insert l F) CS VS (C' \<union> C) (VS l \<union> V) (insert l X)"
  proof -
    have "CS k \<inter> CS l = {} \<and> VS k \<inter> VS l = {} \<and> CS k \<inter> C = {} \<and> VS k \<inter> V = {} \<and> CS k \<inter> X = {}" if "k \<in> dom \<sigma> - insert l F" for k
      using s(3,4) dl that unfolding shares_def clear_of_def by blast
    moreover have "C \<inter> X = {}" using s(4) by (simp add: clear_of_def)
    ultimately show ?thesis using cl c(1,2) unfolding clear_of_def by fastforce
  qed
  moreover have "open_ok \<sigma> (insert l F) (insert l X)" using s(1) assms(2,3) by (auto simp: open_ok_def)
  ultimately show "soup H \<sigma> (insert l F) (insert l X) ((H l, e) # its)" by (intro soupI)
qed

text \<open>A reduced cell holds the number of its term.\<close>

lemma soup_done:
  assumes "soup H \<sigma> F X its" "\<sigma> l = Some e" "l \<notin> F" "term_sub_get (H l) \<noteq> 0"
  shows "num_cell (H l) e"
  using assms unfolding soup_def shares_def cell_ok_def by auto

lemma soup_close:
  assumes "soup H \<sigma> (insert l F) (insert l X) its" "\<sigma> l = Some e" "lfv e = {}" "l \<notin> F" "l \<notin> X"
    and "ev n e (LNum dt v)" "is_num t dt v"
  shows "soup (H(l := term_sub_set t 1)) \<sigma> F X its"
proof -
  let ?H = "H(l := term_sub_set t 1)"
  from soup_write [OF assms(1), of l] have "soup ?H \<sigma> (insert l F) (insert l X) its" by simp
  then obtain C V CS VS where s: "open_ok \<sigma> (insert l F) (insert l X)" "items_rep ?H \<sigma> its C V"
    "shares ?H \<sigma> (insert l F) CS VS" "clear_of \<sigma> (insert l F) CS VS C V (insert l X)" unfolding soup_def by blast
  have n: "cell_ok ?H \<sigma> l e {l} {}"
    using assms(3,6,7) by (auto simp: cell_ok_def num_cell_def is_num_def num_val_def term_word_simps)
  have "shares ?H \<sigma> F (CS(l := {l})) (VS(l := {}))"
    unfolding shares_def
  proof (intro conjI allI impI)
    fix l' e' assume "\<sigma> l' = Some e'" "l' \<notin> F"
    then show "cell_ok ?H \<sigma> l' e' ((CS(l := {l})) l') ((VS(l := {})) l')"
      using n s(3) assms(2) by (cases "l' = l") (auto simp: shares_def)
  next
    fix l' l'' assume d: "l' \<in> dom \<sigma> - F" "l'' \<in> dom \<sigma> - F" "l' \<noteq> l''"
    have X: "l \<notin> CS k" if "k \<in> dom \<sigma> - insert l F" for k using s(4) that unfolding clear_of_def by blast
    have p: "CS l' \<inter> CS l'' = {} \<and> VS l' \<inter> VS l'' = {}" if "l' \<noteq> l" "l'' \<noteq> l"
      using s(3) d that unfolding shares_def by blast
    show "(CS(l := {l})) l' \<inter> (CS(l := {l})) l'' = {}" using d p X by (cases "l' = l"; cases "l'' = l") auto
    show "(VS(l := {})) l' \<inter> (VS(l := {})) l'' = {}" using d p by (cases "l' = l"; cases "l'' = l") auto
  qed
  moreover have "clear_of \<sigma> F (CS(l := {l})) (VS(l := {})) C V X"
    using s(4) assms(5) unfolding clear_of_def by auto
  moreover have "open_ok \<sigma> F X" using s(1) assms(4) by (auto simp: open_ok_def)
  ultimately show ?thesis using s(2) by (intro soupI)
qed

end
