(* ===== verification/IC_Fuel.thy ===== *)
theory IC_Fuel
  imports IC_Wnf
begin

text \<open>
  More fuel never changes a result: the phases of the reducer and of the collapse are monotone in
  the reducers they call (collection more_intros). The results of two runs that end are equal.
\<close>

named_theorems more_intros "a result is kept when the called reducers have more results"

definition le_opt :: "'a option \<Rightarrow> 'a option \<Rightarrow> bool" where
  "le_opt x y \<longleftrightarrow> (\<forall>r. x = Some r \<longrightarrow> y = Some r)"

definition rmore :: "('s, 'x) reducer \<Rightarrow> ('s, 'x) reducer \<Rightarrow> bool" where
  "rmore W W' \<longleftrightarrow> (\<forall>t s. le_opt (W t s) (W' t s))"

lemma le_opt_refl [more_intros]: "le_opt x x"
  by (simp add: le_opt_def)

lemma le_opt_bind [more_intros]:
  "le_opt x y \<Longrightarrow> (\<And>a. le_opt (f a) (g a)) \<Longrightarrow> le_opt (Option.bind x f) (Option.bind y g)"
  by (cases x) (auto simp: le_opt_def)

lemma le_opt_if [more_intros]: "le_opt a a' \<Longrightarrow> le_opt b b' \<Longrightarrow> le_opt (if c then a else b) (if c then a' else b')"
  by simp

lemma le_opt_prod [more_intros]: "(\<And>a b. le_opt (f a b) (g a b)) \<Longrightarrow> le_opt (case p of (a, b) \<Rightarrow> f a b) (case p of (a, b) \<Rightarrow> g a b)"
  by (cases p) simp

lemma le_opt_option [more_intros]:
  "le_opt x y \<Longrightarrow> (\<And>a. le_opt (f a) (g a)) \<Longrightarrow> le_opt (case v of None \<Rightarrow> x | Some a \<Rightarrow> f a) (case v of None \<Rightarrow> y | Some a \<Rightarrow> g a)"
  by (cases v) simp_all

lemma le_opt_let [more_intros]: "(\<And>v. le_opt (f v) (g v)) \<Longrightarrow> le_opt (Let e f) (Let e g)"
  by simp

lemma more_call: "rmore W W' \<Longrightarrow> le_opt (W t s) (W' t s)"
  by (simp add: rmore_def)

lemma le_opt_fire [more_intros]: "le_opt x y \<Longrightarrow> le_opt (fire ms i0 f w st s x) (fire ms i0 f w st s y)"
  by (simp add: fire_def le_opt_refl)

lemma le_opt_then_enter [more_intros]: "le_opt x y \<Longrightarrow> le_opt (then_enter st x) (then_enter st y)"
  by (auto simp: le_opt_def then_enter_def)

lemma le_opt_then_cnf [more_intros]: "rmore C C' \<Longrightarrow> le_opt x y \<Longrightarrow> le_opt (then_cnf C x) (then_cnf C' y)"
  unfolding then_cnf_def by (intro more_intros) (auto simp: rmore_def)

section \<open>The phases\<close>

lemma drive_mono [more_intros]:
  "rmore C C' \<Longrightarrow> le_opt (drive C t s) (drive C' t s)"
  unfolding drive_def Let_def by (intro more_intros) (simp_all add: rmore_def)

lemma wnf_enter_uop_mono [more_intros]:
  "rmore W W' \<Longrightarrow> le_opt (wnf_enter_uop E W ms i0 t st s) (wnf_enter_uop E W' ms i0 t st s)"
  unfolding wnf_enter_uop_def Let_def by (intro more_intros) (simp_all add: rmore_def)

lemma wnf_enter_mono [more_intros]:
  "rmore W W' \<Longrightarrow> le_opt (wnf_enter E W ms i0 t st s) (wnf_enter E W' ms i0 t st s)"
  unfolding wnf_enter_def Let_def by (intro more_intros) (simp_all add: rmore_def)

lemma wnf_app_mat_mono [more_intros]:
  "rmore W W' \<Longrightarrow> rmore C C' \<Longrightarrow> le_opt (wnf_app_mat W C mat arg s) (wnf_app_mat W' C' mat arg s)"
  unfolding wnf_app_mat_def Let_def by (intro more_intros) (simp_all add: rmore_def)

lemma wnf_apply_app_mono [more_intros]:
  "rmore W W' \<Longrightarrow> rmore C C' \<Longrightarrow> le_opt (wnf_apply_app E W C ms i0 f w st s) (wnf_apply_app E W' C' ms i0 f w st s)"
  unfolding wnf_apply_app_def Let_def by (intro more_intros) (simp_all add: rmore_def)

lemma wnf_apply_dyn_mono [more_intros]:
  "rmore C C' \<Longrightarrow> le_opt (wnf_apply_dyn a b c C ms i0 f w st s) (wnf_apply_dyn a b c C' ms i0 f w st s)"
  unfolding wnf_apply_dyn_def Let_def by (intro more_intros) (simp_all add: rmore_def)

lemma wnf_apply_op2_mono [more_intros]:
  "rmore C C' \<Longrightarrow> le_opt (wnf_apply_op2 C ms i0 f w st s) (wnf_apply_op2 C' ms i0 f w st s)"
  unfolding wnf_apply_op2_def Let_def by (intro more_intros) (simp_all add: rmore_def)

lemma wnf_apply_op2_num_mono [more_intros]:
  "rmore C C' \<Longrightarrow> le_opt (wnf_apply_op2_num C ms i0 f w st s) (wnf_apply_op2_num C' ms i0 f w st s)"
  unfolding wnf_apply_op2_num_def Let_def by (intro more_intros) (simp_all add: rmore_def)

lemma wnf_apply_uop_child_mono [more_intros]:
  "rmore W W' \<Longrightarrow> le_opt (wnf_apply_uop_child E W ms i0 f w st s) (wnf_apply_uop_child E W' ms i0 f w st s)"
  unfolding wnf_apply_uop_child_def Let_def by (intro more_intros) (simp_all add: rmore_def)

lemma wnf_apply_mono [more_intros]:
  "rmore W W' \<Longrightarrow> rmore C C' \<Longrightarrow> le_opt (wnf_apply E W C ms i0 f w st s) (wnf_apply E W' C' ms i0 f w st s)"
  unfolding wnf_apply_def Let_def by (intro more_intros) (simp_all add: rmore_def)

lemma cnf_dp_mono [more_intros]:
  "rmore C C' \<Longrightarrow> le_opt (cnf_dp C t s) (cnf_dp C' t s)"
  unfolding cnf_dp_def Let_def by (intro more_intros) (simp_all add: rmore_def)

lemma cnf_lam_mono [more_intros]:
  "rmore C C' \<Longrightarrow> le_opt (cnf_lam C t s) (cnf_lam C' t s)"
  unfolding cnf_lam_def Let_def by (intro more_intros) (simp_all add: rmore_def)

lemma cnf_children_mono [more_intros]: "rmore C C' \<Longrightarrow> le_opt (cnf_children C b is s) (cnf_children C' b is s)"
  by (induction "is" arbitrary: s) (simp only: cnf_children.simps Let_def, (intro more_intros; simp add: rmore_def))+

lemma cnf_ctr_mono [more_intros]:
  "rmore C C' \<Longrightarrow> le_opt (cnf_ctr C t s) (cnf_ctr C' t s)"
  unfolding cnf_ctr_def Let_def by (intro more_intros) (simp_all add: rmore_def)

lemma cnf_node2_mono [more_intros]:
  "rmore W W' \<Longrightarrow> rmore C C' \<Longrightarrow> le_opt (cnf_node2 W C t s) (cnf_node2 W' C' t s)"
  unfolding cnf_node2_def Let_def by (intro more_intros) (simp_all add: rmore_def)

lemma cnf_dispatch_mono [more_intros]:
  "rmore W W' \<Longrightarrow> rmore C C' \<Longrightarrow> le_opt (cnf_dispatch W C t s) (cnf_dispatch W' C' t s)"
  unfolding cnf_dispatch_def Let_def by (intro more_intros) (simp_all add: rmore_def)

section \<open>The reducers\<close>

lemma wnf_loop_Suc_mono:
  assumes L: "\<And>ms i0 m s. le_opt (wnf_loop k E ms i0 m s) (wnf_loop k' E ms i0 m s)" and C: "rmore (cnf_at k E) (cnf_at k' E)"
  shows "le_opt (wnf_loop (Suc k) E ms i0 m s) (wnf_loop (Suc k') E ms i0 m s)"
    and "rmore (cnf_at (Suc k) E) (cnf_at (Suc k') E)"
proof -
  have W: "rmore (\<lambda>t s. wnf_loop k E 0 (itrs s) (M_Enter t []) s) (\<lambda>t s. wnf_loop k' E 0 (itrs s) (M_Enter t []) s)"
    using L by (simp add: rmore_def)
  show "le_opt (wnf_loop (Suc k) E ms i0 m s) (wnf_loop (Suc k') E ms i0 m s)"
  proof (cases m)
    case (M_Apply w st) show ?thesis
      by (cases st) (simp_all only: M_Apply wnf_loop.simps Let_def mach.case list.case, (intro more_intros L W C)+)
  qed (simp_all only: wnf_loop.simps Let_def mach.case, (intro more_intros L W C)+)
  show "rmore (cnf_at (Suc k) E) (cnf_at (Suc k') E)"
    unfolding rmore_def cnf_at.simps by (intro allI more_intros L W C)
qed

lemma fuel_mono:
  "k \<le> k' \<Longrightarrow> (\<forall>ms i0 m s. le_opt (wnf_loop k E ms i0 m s) (wnf_loop k' E ms i0 m s)) \<and> rmore (cnf_at k E) (cnf_at k' E)"
proof (induction k arbitrary: k')
  case 0 then show ?case by (simp add: rmore_def le_opt_def)
next
  case (Suc k)
  then obtain j where j: "k' = Suc j" "k \<le> j" by (cases k') auto
  from Suc.IH [OF j(2)] show ?case unfolding j(1) by (intro conjI allI wnf_loop_Suc_mono) auto
qed

lemma wnf_loop_fuel: "wnf_loop k E ms i0 m s = Some r \<Longrightarrow> k \<le> k' \<Longrightarrow> wnf_loop k' E ms i0 m s = Some r"
  using fuel_mono [of k k' E] unfolding le_opt_def by blast

lemma wnf_loop_determ: "wnf_loop k E ms i0 m s = Some r \<Longrightarrow> wnf_loop k' E ms i0 m s = Some r' \<Longrightarrow> r = r'"
  using wnf_loop_fuel [of k E ms i0 m s r "max k k'"] wnf_loop_fuel [of k' E ms i0 m s r' "max k k'"] by simp

end
