(* ===== verification/IC_Steps.thy ===== *)
theory IC_Steps
  imports IC_Dup IC_Fuel
begin

text \<open>
  Runs of the unbounded reducer, and its single steps on the nodes of the calculus: what is entered,
  which frame is left, and which cells each rule writes.
\<close>

section \<open>Runs\<close>

text \<open>Whatever the machine at m' ends in, it ends in it from m as well.\<close>

definition leads :: "('s, 'x) tensor_ops \<Rightarrow> mach \<Rightarrow> ('s, 'x) rt \<Rightarrow> mach \<Rightarrow> ('s, 'x) rt \<Rightarrow> bool" where
  "leads E m s m' s' \<longleftrightarrow>
     (\<forall>i0 r. (\<exists>k. wnf_loop k E 0 i0 m' s' = Some r) \<longrightarrow> (\<exists>k. wnf_loop k E 0 i0 m s = Some r))"

lemma leads_refl: "leads E m s m s"
  by (simp add: leads_def)

lemma leads_trans [trans]: "leads E m s m1 s1 \<Longrightarrow> leads E m1 s1 m2 s2 \<Longrightarrow> leads E m s m2 s2"
  by (simp add: leads_def)

lemma leads_enter:
  assumes "\<And>W i0. wnf_enter E W 0 i0 t st s = Some (m', s')"
  shows "leads E (M_Enter t st) s m' s'"
  unfolding leads_def
proof (intro allI impI)
  fix i0 r assume "\<exists>k. wnf_loop k E 0 i0 m' s' = Some r"
  then obtain k where "wnf_loop k E 0 i0 m' s' = Some r" ..
  then have "wnf_loop (Suc k) E 0 i0 (M_Enter t st) s = Some r" by (simp add: assms)
  then show "\<exists>k. wnf_loop k E 0 i0 (M_Enter t st) s = Some r" ..
qed

text \<open>A rule may call the reducer; enough fuel for the call and for what follows is enough.\<close>

lemma leads_apply_fuel:
  assumes "\<And>k i0. k0 \<le> k \<Longrightarrow>
    wnf_apply E (\<lambda>t s. wnf_loop k E 0 (itrs s) (M_Enter t []) s) (cnf_at k E) 0 i0 f w st s = Some (m', s')"
  shows "leads E (M_Apply w (f # st)) s m' s'"
  unfolding leads_def
proof (intro allI impI)
  fix i0 r assume "\<exists>k. wnf_loop k E 0 i0 m' s' = Some r"
  then obtain k where "wnf_loop k E 0 i0 m' s' = Some r" ..
  then have "wnf_loop (max k0 k) E 0 i0 m' s' = Some r" by (rule wnf_loop_fuel) simp
  then have "wnf_loop (Suc (max k0 k)) E 0 i0 (M_Apply w (f # st)) s = Some r" by (simp add: assms)
  then show "\<exists>k. wnf_loop k E 0 i0 (M_Apply w (f # st)) s = Some r" ..
qed

lemma leads_apply:
  "(\<And>W C i0. wnf_apply E W C 0 i0 f w st s = Some (m', s')) \<Longrightarrow> leads E (M_Apply w (f # st)) s m' s'"
  by (rule leads_apply_fuel [of 0])

text \<open>A nested call of wnf.\<close>

lemma leads_call:
  assumes "leads E (M_Enter t []) s (M_Apply v []) s'"
  obtains k0 where "\<And>k. k0 \<le> k \<Longrightarrow> wnf_loop k E 0 (itrs s) (M_Enter t []) s = Some (v, s'\<lparr>rt_last_stack := []\<rparr>)"
proof -
  have "wnf_loop 1 E 0 (itrs s) (M_Apply v []) s' = Some (v, s'\<lparr>rt_last_stack := []\<rparr>)" by simp
  with assms obtain k0 where "wnf_loop k0 E 0 (itrs s) (M_Enter t []) s = Some (v, s'\<lparr>rt_last_stack := []\<rparr>)"
    unfolding leads_def by blast
  with that wnf_loop_fuel show thesis by blast
qed

section \<open>Entering\<close>

lemma budget_0 [simp]: "\<not> budget_hit 0 i0 s"
  by (simp add: budget_hit_def)

lemma fire_0 [simp]: "fire 0 i0 f w st s r = r"
  by (simp add: fire_def)

lemma enter_bin:
  assumes "bin_of t = Some b" "strict_kind b"
  shows "leads E (M_Enter t st) s (M_Enter (cells s (term_val t)) (t # st)) s"
  by (rule leads_enter)
    (use assms in \<open>auto simp: bin_of_def wnf_enter_def Let_def is_dp_def heap_read_def ic_tag_defs split: if_splits\<close>)

lemma enter_val:
  assumes "term_tag t \<in> {TAG_LAM, TAG_NUM, TAG_ERA, TAG_CTR, TAG_MAT}"
  shows "leads E (M_Enter t st) s (M_Apply t st) s"
  by (rule leads_enter) (use assms in \<open>auto simp: wnf_enter_def Let_def is_dp_def ic_tag_defs\<close>)

lemma enter_var:
  assumes "term_tag t = TAG_VAR" "term_sub_get (cells s (term_val t)) \<noteq> 0"
  shows "leads E (M_Enter t st) s (M_Enter (term_sub_set (cells s (term_val t)) 0) st) s"
  by (rule leads_enter) (use assms in \<open>auto simp: wnf_enter_def Let_def heap_read_acq_def ic_tag_defs\<close>)

lemma enter_dp:
  assumes "is_dp t" "term_ext t AND DUP_GRAD_FLAG = 0"
  shows "leads E (M_Enter t st) s
    (if term_sub_get (cells s (term_val t)) \<noteq> 0 then M_Enter (term_sub_set (cells s (term_val t)) 0) st
     else M_Enter (cells s (term_val t)) (t # st)) s"
  by (rule leads_enter) (use assms in \<open>auto simp: wnf_enter_def Let_def heap_read_acq_def is_dp_def ic_tag_defs\<close>)

section \<open>Frames\<close>

lemma cells_bump [simp]: "cells (bump_itrs s) = cells s"
  by (simp add: bump_itrs_def)

lemma cells_subst_var [simp]: "cells (heap_subst_var l v s) = (cells s)(l := term_sub_set v 1)"
  by (simp add: heap_subst_var_def)

lemma cells_set [simp]: "cells (heap_set l t s) = (cells s)(l := t)"
  by (simp add: heap_set_def)

lemma apply_lam:
  assumes "term_tag f = TAG_APP" "term_tag w = TAG_LAM" "term_tag (cells s (term_val w)) \<noteq> TAG_UOP"
  obtains s' where "\<And>st. leads E (M_Apply w (f # st)) s (M_Enter (cells s (term_val w)) st) s'"
    "cells s' = (if term_ext w AND LAM_ERA_MASK \<noteq> 0 then cells s
       else (cells s)(term_val w := term_sub_set (cells s (term_val f + 1)) 1))"
proof -
  let ?arg = "cells s (term_val f + 1)"
  obtain s' where i: "interact_app_lam E w ?arg s = Some (cells s (term_val w), s')"
    "cells s' = (if term_ext w AND LAM_ERA_MASK \<noteq> 0 then cells s else (cells s)(term_val w := term_sub_set ?arg 1))"
  proof (cases "term_ext w AND LAM_ERA_MASK \<noteq> 0")
    case True
    then show ?thesis using assms(3) that [of "bump_itrs s"]
      by (simp add: interact_app_lam_def materialize_body_def heap_read_def)
  next
    case False
    then show ?thesis using assms(3) that
      by (cases "op_shape_of E ?arg (bump_itrs s)") (simp_all add: interact_app_lam_def materialize_body_def heap_read_def Let_def)
  qed
  have "leads E (M_Apply w (f # st)) s (M_Enter (cells s (term_val w)) st) s'" for st
    by (rule leads_apply) (use assms i(1) in \<open>simp add: wnf_apply_def wnf_apply_app_def Let_def heap_read_def then_enter_def\<close>)
  with i(2) that show thesis by blast
qed

lemma apply_app_era:
  assumes "term_tag f = TAG_APP" "term_tag w = TAG_ERA"
  shows "leads E (M_Apply w (f # st)) s (M_Apply (term_new 0 TAG_ERA 0 0) st) (bump_itrs s)"
  by (rule leads_apply)
    (use assms in \<open>simp add: wnf_apply_def wnf_apply_app_def Let_def then_apply_def interact_app_era_def ic_tag_defs\<close>)

lemma apply_dp_num:
  assumes "is_dp f" "term_ext f AND DUP_GRAD_FLAG = 0" "term_tag w = TAG_NUM"
  obtains s' where "\<And>st. leads E (M_Apply w (f # st)) s (M_Apply w st) s'"
    "cells s' = (cells s)(term_val f := term_sub_set w 1)"
proof (rule that)
  let ?s = "heap_subst_var (term_val f) w (bump_itrs s)"
  show "leads E (M_Apply w (f # st)) s (M_Apply w st) ?s" for st
    by (rule leads_apply)
      (use assms in \<open>auto simp: wnf_apply_def wnf_apply_dp_def Let_def then_apply_def interact_dup_num_def dup_atom_def
         heap_subst_cop_def is_dp_def ic_tag_defs\<close>)
qed simp

section \<open>Numbers\<close>

definition num_word :: "u32 \<Rightarrow> u32 \<Rightarrow> term_w" where "num_word dt v = term_new 0 TAG_NUM dt (ucast v)"

lemma num_word: "dt < 256 \<Longrightarrow> is_num (num_word dt v) dt v"
proof -
  assume dt: "dt < 256"
  then have "dt < 2 ^ 18" by unat_arith
  then have "take_bit 18 dt = dt" by (simp add: take_bit_eq_mask less_mask_eq)
  moreover have "ucast (take_bit 38 (ucast v :: u64)) = v" by (rule bit_eqI) (auto simp: bit_simps dest: bit_imp_le_length)
  ultimately show ?thesis using dt by (simp add: num_word_def is_num_def num_val_def term_word_simps TAG_NUM_def)
qed

lemma op2_frame:
  assumes "opr < 256" "dt < 256" "l = term_val t"
  defines "f \<equiv> term_new 0 TAG_F_OP2_NUM ((opr AND 0xFF) OR push_bit 8 (dt AND 0xFF)) l"
  shows "term_tag f = TAG_F_OP2_NUM" "term_val f = l" "term_ext f AND 0xFF = opr" "drop_bit 8 (term_ext f) AND 0xFF = dt"
proof -
  show "term_tag f = TAG_F_OP2_NUM" by (simp add: f_def term_word_simps TAG_F_OP2_NUM_def)
  show "term_val f = l" by (rule bit_eqI) (auto simp: f_def assms(3) term_bits)
  have m: "(0xFF :: u32) = mask 8" by (simp add: mask_eq_exp_minus_1)
  have "take_bit 8 opr = opr" "take_bit 8 dt = dt" using assms(1,2) less_mask_eq [of opr 8] less_mask_eq [of dt 8] by (simp_all add: take_bit_eq_mask)
  then have b: "bit opr n \<Longrightarrow> n < 8" "bit dt n \<Longrightarrow> n < 8" for n
    by (metis bit_take_bit_iff)+
  show "term_ext f AND 0xFF = opr"
    by (rule bit_eqI) (auto simp: f_def term_bits m bit_simps dest: b)
  show "drop_bit 8 (term_ext f) AND 0xFF = dt"
    by (rule bit_eqI) (auto simp: f_def term_bits m bit_simps dest: b)
qed


lemma num_not_dp: "is_num w dt v \<Longrightarrow> \<not> is_dp w"
  by (simp add: is_num_def is_dp_def ic_tag_defs)

lemmas apply_defs = wnf_apply_def Let_def is_dp_def heap_read_def then_apply_def then_enter_def drive_def is_num_def ic_tag_defs

lemma apply_op2_num:
  assumes "term_tag f = TAG_OP2" "is_num w dt x" "is_num (cells s (term_val f + 1)) dt' y"
  shows "leads E (M_Apply w (f # st)) s (M_Apply (num_word dt (op2_eval (term_ext f) x y)) st) (bump_itrs s)"
  by (rule leads_apply) (use assms in \<open>simp add: apply_defs wnf_apply_op2_def num_word_def\<close>)

lemma apply_op2:
  assumes "term_tag f = TAG_OP2" "is_num w dt x" "term_tag (cells s (term_val f + 1)) \<noteq> TAG_NUM"
  shows "leads E (M_Apply w (f # st)) s (M_Enter (cells s (term_val f + 1))
    (term_new 0 TAG_F_OP2_NUM ((term_ext f AND 0xFF) OR push_bit 8 (dt AND 0xFF)) (term_val f) # st)) (heap_set (term_val f) w s)"
  by (rule leads_apply) (use assms in \<open>simp add: apply_defs wnf_apply_op2_def\<close>)

lemma apply_f_op2:
  assumes "opr < 256" "dt < 256" "l = term_val t" "is_num (cells s l) dt x" "is_num w dt' y"
  shows "leads E (M_Apply w (term_new 0 TAG_F_OP2_NUM ((opr AND 0xFF) OR push_bit 8 (dt AND 0xFF)) l # st)) s
    (M_Apply (num_word dt (op2_eval opr x y)) st) (bump_itrs s)"
  by (rule leads_apply)
    (use assms op2_frame [OF assms(1-3)] in \<open>simp add: apply_defs wnf_apply_op2_num_def num_word_def\<close>)

lemma apply_eql:
  assumes "term_tag f = TAG_EQL" "is_num w dt x"
  shows "leads E (M_Apply w (f # st)) s (M_Enter (cells s (term_val f + 1)) (term_new 0 TAG_F_EQL_R 0 (term_val f) # st))
    (heap_set (term_val f) w s)"
  by (rule leads_apply) (use assms in \<open>simp add: apply_defs wnf_apply_eql_def\<close>)

lemma apply_f_eql:
  assumes "l = term_val t" "is_num (cells s l) dt x" "is_num w dt' y"
  shows "leads E (M_Apply w (term_new 0 TAG_F_EQL_R 0 l # st)) s (M_Apply (num_word dt (if x = y then 1 else 0)) st) (bump_itrs s)"
proof -
  have "term_val (term_new 0 TAG_F_EQL_R 0 l) = l" by (rule bit_eqI) (auto simp: assms(1) term_bits)
  moreover have "term_tag (term_new 0 TAG_F_EQL_R 0 l) = TAG_F_EQL_R" by (simp add: term_word_simps TAG_F_EQL_R_def)
  ultimately show ?thesis
    by (intro leads_apply) (use assms(2,3) in \<open>simp add: apply_defs wnf_apply_eql_r_def num_word_def\<close>)
qed

lemma apply_strict_era:
  assumes "term_tag f \<in> {TAG_EQL, TAG_AND, TAG_OR, TAG_WHEN}" "term_tag w = TAG_ERA"
  shows "leads E (M_Apply w (f # st)) s (M_Apply w st) (bump_itrs s)"
  by (rule leads_apply) (use assms in \<open>auto simp: apply_defs wnf_apply_eql_def wnf_apply_bool_def\<close>)

text \<open>AND, OR and WHEN: the short-cut value, or the second operand.\<close>

fun bool_tag :: "bk \<Rightarrow> u8" where
  "bool_tag BAnd = TAG_AND" | "bool_tag BOr = TAG_OR" | "bool_tag b = TAG_WHEN"

fun bool_stop :: "bk \<Rightarrow> term_w \<Rightarrow> term_w option" where
  "bool_stop BAnd = and_num" | "bool_stop BOr = or_num" | "bool_stop b = when_num"

lemma apply_bool:
  assumes "term_tag f = bool_tag b" "b \<in> {BAnd, BOr, BWhen}" "is_num w dt x"
  shows "leads E (M_Apply w (f # st)) s
    (case bool_stop b w of Some v \<Rightarrow> M_Apply v st | None \<Rightarrow> M_Enter (cells s (term_val f + 1)) st) (bump_itrs s)"
proof (rule leads_apply)
  have d: "heap_read (bump_itrs s) = cells s" by (simp add: fun_eq_iff heap_read_def)
  consider "b = BAnd" | "b = BOr" | "b = BWhen" using assms(2) by auto
  then show "wnf_apply E W C 0 i0 f w st s = Some (case bool_stop b w of Some v \<Rightarrow> M_Apply v st
      | None \<Rightarrow> M_Enter (cells s (term_val f + 1)) st, bump_itrs s)" for W C i0
    by cases (use assms(1,3) in \<open>simp add: apply_defs wnf_apply_bool_def split: option.split\<close>)+
qed

end
