(* ===== verification/IC_Match.thy ===== *)
theory IC_Match
  imports IC_Steps
begin

text \<open>
  Matching: the application of a MAT to a value continues with match_next, built in the cells of the
  consumed nodes.
\<close>

section \<open>Cells and order of a soup\<close>

lemma soup_bin_cells:
  assumes "soup H \<sigma> F X ((t, LBin b e1 e2) # its)" "term_tag t \<noteq> TAG_VAR" "l = term_val t"
  shows "{l, l + 1} \<inter> X = {}"
  using assms(1) by (rule soup_ConsE) (use assms(2,3) in \<open>auto elim!: rep_binE simp: clear_of_def\<close>)

lemma soup_ctr2_cells:
  assumes "soup H \<sigma> F X ((t, LCtr2 k a b) # its)" "term_tag t \<noteq> TAG_VAR" "l = term_val t"
  shows "{l, l + 1, l + 2} \<inter> X = {}"
  using assms(1) by (rule soup_ConsE) (use assms(2,3) in \<open>auto elim!: rep_ctr2E simp: clear_of_def\<close>)

lemma soup_F: "soup H \<sigma> F X its \<Longrightarrow> F \<subseteq> X"
  by (auto simp: soup_def open_ok_def)

lemma soup_third:
  assumes "soup H \<sigma> F X ((t, e) # (u, d) # (w, c) # its)"
  shows "soup H \<sigma> F X ((w, c) # (t, e) # (u, d) # its)"
proof -
  have "items_rep H \<sigma> ((w, c) # (t, e) # (u, d) # its) C V" if r: "items_rep H \<sigma> ((t, e) # (u, d) # (w, c) # its) C V" for C V
  proof -
    from r obtain C1 V1 C2 V2 C3 V3 C4 V4 where c: "rep H \<sigma> t e C1 V1" "lfv e = {}" "rep H \<sigma> u d C2 V2" "lfv d = {}"
      "rep H \<sigma> w c C3 V3" "lfv c = {}" "items_rep H \<sigma> its C4 V4" "C1 \<inter> (C2 \<union> (C3 \<union> C4)) = {}" "V1 \<inter> (V2 \<union> (V3 \<union> V4)) = {}"
      "C2 \<inter> (C3 \<union> C4) = {}" "V2 \<inter> (V3 \<union> V4) = {}" "C3 \<inter> C4 = {}" "V3 \<inter> V4 = {}"
      "C = C1 \<union> (C2 \<union> (C3 \<union> C4))" "V = V1 \<union> (V2 \<union> (V3 \<union> V4))"
      by (auto elim!: items_ConsE)
    then have "items_rep H \<sigma> ((u, d) # its) (C2 \<union> C4) (V2 \<union> V4)" by (intro items_rep.Cons) auto
    then have "items_rep H \<sigma> ((t, e) # (u, d) # its) (C1 \<union> (C2 \<union> C4)) (V1 \<union> (V2 \<union> V4))"
      using c by (intro items_rep.Cons) auto
    then have "items_rep H \<sigma> ((w, c) # (t, e) # (u, d) # its) (C3 \<union> (C1 \<union> (C2 \<union> C4))) (V3 \<union> (V1 \<union> (V2 \<union> V4)))"
      using c by (intro items_rep.Cons) auto
    with c(14,15) show ?thesis by (simp add: Un_ac)
  qed
  with assms show ?thesis unfolding soup_def by blast
qed

lemma soup_drop2: "soup H \<sigma> F X ((t, e) # (u, d) # its) \<Longrightarrow> soup H \<sigma> F X ((t, e) # its)"
  using soup_drop soup_swap by blast

text \<open>Writing an application into two free cells.\<close>

lemma take_38: "take_bit 38 (term_val t) = term_val t"
  by (rule bit_eqI) (auto simp: term_bits bit_simps)

lemma soup_app:
  assumes "soup H \<sigma> F (X \<union> {l, l + 1}) ((a, e1) # (b, e2) # its)" "{l, l + 1} \<inter> X = {}" "F \<subseteq> X" "take_bit 38 l = l"
  shows "soup (H(l := a, l + 1 := b)) \<sigma> F X ((term_new 0 TAG_APP 0 l, LBin BApp e1 e2) # its)"
proof -
  let ?H = "H(l := a, l + 1 := b)"
  have "soup ?H \<sigma> F (X \<union> {l, l + 1}) ((?H l, e1) # (?H (l + 1), e2) # its)"
    using soup_write [OF soup_write [OF assms(1), of l a], of "l + 1" b] by simp
  then have "soup ?H \<sigma> F (X \<union> {l, l + 1} - {l, l + 1}) ((term_new 0 TAG_APP 0 l, LBin BApp e1 e2) # its)"
    by (rule soup_build) (use assms(2-4) in \<open>auto simp: bin_of_def term_word_simps TAG_APP_def\<close>)
  moreover have "X \<union> {l, l + 1} - {l, l + 1} = X" using assms(2) by auto
  ultimately show ?thesis by simp
qed

section \<open>The rule\<close>

definition mat_step :: "term_w \<Rightarrow> term_w \<Rightarrow> ('s, 'x) rt \<Rightarrow> (term_w \<times> ('s, 'x) rt) option" where
  "mat_step mat v s =
     (let ml = term_val mat; m = term_ext mat
      in if term_tag v = TAG_NUM \<and> num_val v = m then Some (heap_read s ml, s)
         else if term_tag v = TAG_CTR \<and> term_ext v = m then app_mat_ctr ml v s
         else if term_tag v = TAG_SUP then interact_app_mat_sup mat v s
         else Some (term_new 0 TAG_APP 0 ml, heap_set (ml + 1) v (heap_set ml (heap_read s (ml + 1)) s)))"

lemma apply_mat:
  assumes f: "term_tag f = TAG_APP" and w: "term_tag w = TAG_MAT" and v: "\<not> is_dp v"
    and run: "leads E (M_Enter (cells s (term_val f + 1)) []) s (M_Apply v []) s1"
    and step: "mat_step w v (bump_itrs (s1\<lparr>rt_last_stack := []\<rparr>)) = Some (u, s2)"
  shows "leads E (M_Apply w (f # st)) s (M_Enter u st) s2"
proof -
  from leads_call [OF run] obtain k0 where k0: "\<And>k. k0 \<le> k \<Longrightarrow>
    wnf_loop k E 0 (itrs s) (M_Enter (cells s (term_val f + 1)) []) s = Some (v, s1\<lparr>rt_last_stack := []\<rparr>)" by blast
  show ?thesis
  proof (rule leads_apply_fuel [of k0])
    fix k i0 assume k: "k0 \<le> k"
    have "wnf_app_mat (\<lambda>t s. wnf_loop k E 0 (itrs s) (M_Enter t []) s) (cnf_at k E) w (cells s (term_val f + 1)) s = Some (u, s2)"
      using step k0 [OF k] v by (simp add: wnf_app_mat_def mat_step_def Let_def split del: if_split)
    then show "wnf_apply E (\<lambda>t s. wnf_loop k E 0 (itrs s) (M_Enter t []) s) (cnf_at k E) 0 i0 f w st s = Some (M_Enter u st, s2)"
      using f w by (simp add: wnf_apply_def wnf_apply_app_def Let_def then_enter_def heap_read_def ic_tag_defs)
  qed
qed

lemma mat_miss:
  assumes "soup (cells s) \<sigma> F (X \<union> {l, l + 1}) ((cells s l, e) # (cells s (l + 1), g) # (v, d) # its)" "{l, l + 1} \<inter> X = {}" "F \<subseteq> X"
    "l = term_val w"
  shows "soup (cells (heap_set (l + 1) v (heap_set l (heap_read s (l + 1)) s))) \<sigma> F X ((term_new 0 TAG_APP 0 l, LBin BApp g d) # its)"
  using soup_app [OF soup_drop [OF assms(1)] assms(2,3)] assms(4) by (simp add: heap_read_def take_38)

lemma ctr_n_size: "ctr_size (cells s) t n \<Longrightarrow> term_ctr_n_h s t = n"
  by (simp add: ctr_size_def term_ctr_n_h_def heap_read_def num_val_def)

lemma mat_step_soup:
  assumes s: "soup (cells s) \<sigma> F X ((w, LBin (BMat m) e g) # (v, d) # its)" and w: "term_tag w \<noteq> TAG_VAR" and v: "term_tag v \<noteq> TAG_VAR"
    and d: "lval d"
  shows "\<exists>u s2. mat_step w v s = Some (u, s2) \<and> soup (cells s2) \<sigma> F X ((u, match_next m e g d) # its)
    \<and> (\<forall>c \<in> X. cells s2 c = cells s c)"
proof -
  define l where "l = term_val w"
  have b: "bin_of w = Some (BMat m)" by (rule soup_bin(1) [OF s w l_def])
  then have m: "term_tag w = TAG_MAT" "term_ext w = m" by (auto simp: bin_of_def Let_def split: if_splits)
  have p: "soup (cells s) \<sigma> F (X \<union> {l, l + 1}) ((cells s l, e) # (cells s (l + 1), g) # (v, d) # its)"
    by (rule soup_bin(2) [OF s w l_def])
  have X: "{l, l + 1} \<inter> X = {}" by (rule soup_bin_cells [OF s w l_def])
  have F: "F \<subseteq> X" by (rule soup_F [OF s])
  have vd: "soup (cells s) \<sigma> F (X \<union> {l, l + 1}) ((v, d) # (cells s l, e) # (cells s (l + 1), g) # its)"
    by (rule soup_third [OF p])
  have hit: "soup (cells s) \<sigma> F X ((cells s l, e) # its)"
    by (rule soup_less [OF soup_drop2 [OF soup_drop [OF vd]]]) (use F in auto)
  have stay: ?thesis if "mat_step w v s = Some (cells s l, s)" "match_next m e g d = e"
    using that hit by auto
  have miss: ?thesis if "match_next m e g d = LBin BApp g d" "term_tag v = TAG_NUM \<Longrightarrow> num_val v \<noteq> m"
    "term_tag v = TAG_CTR \<Longrightarrow> term_ext v \<noteq> m"
  proof -
    let ?s = "heap_set (l + 1) v (heap_set l (heap_read s (l + 1)) s)"
    have "term_tag v \<noteq> TAG_SUP" using soup_tag [OF vd] by (auto simp: ic_tag_defs)
    then have "mat_step w v s = Some (term_new 0 TAG_APP 0 l, ?s)"
      using that(2,3) m by (auto simp: mat_step_def Let_def l_def)
    moreover have "soup (cells ?s) \<sigma> F X ((term_new 0 TAG_APP 0 l, match_next m e g d) # its)"
      unfolding that(1) by (rule mat_miss [OF p X F l_def])
    moreover have "cells ?s c = cells s c" if "c \<in> X" for c using that X by auto
    ultimately show ?thesis by blast
  qed
  have ctr: "mat_step w v s = app_mat_ctr l v s" if "term_tag v = TAG_CTR" "term_ext v = m"
    using that m by (simp add: mat_step_def l_def ic_tag_defs)
  show ?thesis
  proof (cases d)
    case (LNum dt x)
    from soup_num [OF vd [unfolded LNum] v] have n: "term_tag v = TAG_NUM" "num_val v = x" by (auto simp: is_num_def)
    show ?thesis
    proof (cases "x = m")
      case True
      show ?thesis by (rule stay) (use n m LNum True in \<open>simp_all add: mat_step_def heap_read_def l_def\<close>)
    next
      case False
      show ?thesis by (rule miss) (use n LNum False in \<open>simp_all add: ic_tag_defs\<close>)
    qed
  next
    case (LCtr0 k)
    from soup_ctr0 [OF vd [unfolded LCtr0] v] have n: "ctr_size (cells s) v 0" "term_ext v = k" by auto
    then have t: "term_tag v = TAG_CTR" by (simp add: ctr_size_def)
    show ?thesis
    proof (cases "k = m")
      case True
      show ?thesis
        by (rule stay) (use n t ctr LCtr0 True in \<open>simp_all add: app_mat_ctr_def ctr_n_size [OF n(1)] heap_read_def\<close>)
    next
      case False
      show ?thesis by (rule miss) (use n t LCtr0 False in \<open>simp_all add: ic_tag_defs\<close>)
    qed
  next
    case (LCtr1 k a)
    from soup_ctr1(1) [OF vd [unfolded LCtr1] v refl] have n: "ctr_size (cells s) v 1" "term_ext v = k" by auto
    then have t: "term_tag v = TAG_CTR" by (simp add: ctr_size_def)
    show ?thesis
    proof (cases "k = m")
      case True
      define c where "c = cells s (term_val v + 1)"
      let ?s = "heap_set (l + 1) c s"
      have "mat_step w v s = Some (term_new 0 TAG_APP 0 l, ?s)"
        using ctr t n(2) True by (simp add: app_mat_ctr_def ctr_n_size [OF n(1)] heap_read_def c_def)
      moreover have "soup (cells ?s) \<sigma> F X ((term_new 0 TAG_APP 0 l, LBin BApp e a) # its)"
      proof -
        have "soup (cells s) \<sigma> F (X \<union> {l, l + 1} \<union> {term_val v, term_val v + 1}) ((c, a) # (cells s l, e) # (cells s (l + 1), g) # its)"
          unfolding c_def by (rule soup_ctr1(2) [OF vd [unfolded LCtr1] v refl])
        then have "soup (cells s) \<sigma> F (X \<union> {l, l + 1}) ((c, a) # (cells s l, e) # (cells s (l + 1), g) # its)"
          by (rule soup_less) (use F in auto)
        then have "soup (cells s) \<sigma> F (X \<union> {l, l + 1}) ((cells s l, e) # (c, a) # its)"
          by (rule soup_swap [OF soup_drop [OF soup_third]])
        from soup_app [OF this X F] show ?thesis by (simp add: l_def take_38)
      qed
      moreover have "cells ?s c = cells s c" if "c \<in> X" for c using that X by auto
      ultimately show ?thesis using LCtr1 True by auto
    next
      case False
      show ?thesis by (rule miss) (use n t LCtr1 False in \<open>simp_all add: ic_tag_defs\<close>)
    qed
  next
    case (LCtr2 k a b)
    from soup_ctr2(1) [OF vd [unfolded LCtr2] v refl] have n: "ctr_size (cells s) v 2" "term_ext v = k" "term_val v < 2 ^ 37" by auto
    then have t: "term_tag v = TAG_CTR" by (simp add: ctr_size_def)
    show ?thesis
    proof (cases "k = m")
      case True
      define cl where "cl = term_val v"
      define c1 where "c1 = cells s (cl + 1)"
      define c2 where "c2 = cells s (cl + 2)"
      let ?r1 = "term_new 0 TAG_APP 0 l" and ?r2 = "term_new 0 TAG_APP 0 (cl + 1)"
      let ?s = "heap_set (cl + 2) c2 (heap_set (cl + 1) ?r1 (heap_set (l + 1) c1 s))"
      have dis: "{cl, cl + 1, cl + 2} \<inter> (X \<union> {l, l + 1}) = {}"
        unfolding cl_def by (rule soup_ctr2_cells [OF vd [unfolded LCtr2] v refl])
      have ne: "l \<noteq> cl + 1" "l + 1 \<noteq> cl + 2" "cl + 1 \<noteq> l" "cl + 2 \<noteq> l + 1" using dis by auto
      have "mat_step w v s = Some (?r2, ?s)"
        using ctr t n(2) True ne by (simp add: app_mat_ctr_def ctr_n_size [OF n(1)] heap_simps c1_def c2_def cl_def heap_read_def Let_def)
      moreover have "soup (cells ?s) \<sigma> F X ((?r2, LBin BApp (LBin BApp e a) b) # its)"
      proof -
        let ?X = "X \<union> {cl, cl + 1, cl + 2}"
        have e2: "cl + 1 + 1 = cl + 2" by simp
        have "soup (cells s) \<sigma> F (X \<union> {l, l + 1} \<union> {cl, cl + 1, cl + 2})
            ((c1, a) # (c2, b) # (cells s l, e) # (cells s (l + 1), g) # its)"
          unfolding c1_def c2_def cl_def by (rule soup_ctr2(2) [OF vd [unfolded LCtr2] v refl])
        then have "soup (cells s) \<sigma> F (X \<union> {l, l + 1} \<union> {cl, cl + 1, cl + 2})
            ((cells s l, e) # (c1, a) # (c2, b) # (cells s (l + 1), g) # its)" by (rule soup_third)
        then have "soup (cells s) \<sigma> F (?X \<union> {l, l + 1}) ((cells s l, e) # (c1, a) # (c2, b) # (cells s (l + 1), g) # its)"
          by (simp add: Un_ac)
        then have "soup ((cells s)(l := cells s l, l + 1 := c1)) \<sigma> F ?X ((?r1, LBin BApp e a) # (c2, b) # (cells s (l + 1), g) # its)"
          by (rule soup_app) (use X F dis take_38 in \<open>auto simp: l_def\<close>)
        then have "soup ((cells s)(l + 1 := c1)) \<sigma> F ?X ((c2, b) # (?r1, LBin BApp e a) # (cells s (l + 1), g) # its)"
          by (simp add: soup_swap)
        then have "soup ((cells s)(l + 1 := c1)) \<sigma> F ?X ((?r1, LBin BApp e a) # (c2, b) # its)"
          by (rule soup_swap [OF soup_drop [OF soup_third]])
        then have b: "soup ((cells s)(l + 1 := c1)) \<sigma> F (X \<union> {cl} \<union> {cl + 1, cl + 1 + 1}) ((?r1, LBin BApp e a) # (c2, b) # its)"
          unfolding e2 by (simp add: Un_ac insert_commute)
        have d2: "{cl + 1, cl + 1 + 1} \<inter> (X \<union> {cl}) = {}" unfolding e2 using dis by auto
        have "take_bit 38 (cl + 1) = cl + 1"
          using n(3) unfolding cl_def by (simp add: take_bit_eq_mask) (rule less_mask_eq, unat_arith)
        from soup_app [OF b d2 _ this] F have "soup ((cells s)(l + 1 := c1, cl + 1 := ?r1, cl + 1 + 1 := c2)) \<sigma> F (X \<union> {cl})
            ((?r2, LBin BApp (LBin BApp e a) b) # its)" by blast
        from soup_less [OF this _ F] show ?thesis unfolding e2 by (simp add: fun_upd_def) blast
      qed
      moreover have "cells ?s c = cells s c" if "c \<in> X" for c using that X dis by auto
      ultimately show ?thesis using LCtr2 True by auto
    next
      case False
      show ?thesis by (rule miss) (use n t LCtr2 False in \<open>simp_all add: ic_tag_defs\<close>)
    qed
  next
    case (LLam x b)
    from vd v have "term_tag v = TAG_LAM" unfolding LLam by (auto elim!: soup_ConsE elim: rep_lamE)
    then show ?thesis by (intro miss) (use LLam in \<open>simp_all add: ic_tag_defs\<close>)
  next
    case LEra
    from soup_era [OF vd [unfolded LEra] v] show ?thesis by (intro miss) (use LEra in \<open>simp_all add: ic_tag_defs\<close>)
  next
    case (LBin b e1 e2)
    from soup_bin(1) [OF vd [unfolded LBin] v refl] have "term_tag v \<noteq> TAG_NUM" "term_tag v \<noteq> TAG_CTR"
      by (auto simp: bin_of_def Let_def ic_tag_defs)
    then show ?thesis by (intro miss) (use LBin in simp_all)
  qed (use d in auto)
qed

end
