(* ===== verification/IC_Sound.thy ===== *)
theory IC_Sound
  imports IC_Match
begin

text \<open>
  The reducer computes what the calculus evaluates to: by induction on the evaluation, wnf of a
  word of a soup that stands for e returns a word that stands for the value of e, in a soup with the
  other words unchanged. The cells in reduction hold terms whose own evaluation is at least as long as
  the one at hand (deep), so none of them is met again.
\<close>

section \<open>The induction statement\<close>

definition deep :: "(u64 \<Rightarrow> lt option) \<Rightarrow> u64 set \<Rightarrow> nat \<Rightarrow> bool" where
  "deep \<sigma> F n \<longleftrightarrow> (\<forall>l \<in> F. \<forall>e m v. \<sigma> l = Some e \<longrightarrow> ev m e v \<longrightarrow> n \<le> m)"

lemma deep_less: "deep \<sigma> F n \<Longrightarrow> m \<le> n \<Longrightarrow> (\<And>l. l \<in> F \<Longrightarrow> \<sigma>' l = \<sigma> l) \<Longrightarrow> deep \<sigma>' F m"
  by (auto simp: deep_def) (meson le_trans)

definition eval_ok ::
  "('s, 'x) tensor_ops \<Rightarrow> ('s, 'x) rt \<Rightarrow> (u64 \<Rightarrow> lt option) \<Rightarrow> u64 set \<Rightarrow> u64 set \<Rightarrow> (term_w \<times> lt) list \<Rightarrow> term_w \<Rightarrow> lt \<Rightarrow> bool" where
  "eval_ok E s \<sigma> F X its t w \<longleftrightarrow>
     (\<exists>t' s' \<sigma>'. (\<forall>st. leads E (M_Enter t st) s (M_Apply t' st) s') \<and> term_tag t' \<noteq> TAG_VAR \<and> soup (cells s') \<sigma>' F X ((t', w) # its)
        \<and> (\<forall>l \<in> F. \<sigma>' l = \<sigma> l) \<and> (\<forall>c \<in> X. cells s' c = cells s c))"

definition sound :: "('s, 'x) tensor_ops \<Rightarrow> nat \<Rightarrow> lt \<Rightarrow> lt \<Rightarrow> bool" where
  "sound E n e w \<longleftrightarrow>
     (\<forall>s \<sigma> F X its t. soup (cells s) \<sigma> F X ((t, e) # its) \<longrightarrow> deep \<sigma> F n \<longrightarrow> eval_ok E s \<sigma> F X its t w)"

text \<open>A variable at the head is followed first, so a word of another tag is enough.\<close>

lemma rep_head_var:
  fixes s :: "('s, 'x) rt" and E :: "('s, 'x) tensor_ops"
  assumes "rep (cells s) \<sigma> t e C V" "\<And>x. e \<noteq> LVar x" "term_tag t = TAG_VAR"
  shows "\<exists>t0 C0. (\<forall>st. leads E (M_Enter t st) s (M_Enter t0 st) s) \<and> term_tag t0 \<noteq> TAG_VAR \<and> rep (cells s) \<sigma> t0 e C0 V \<and> C0 \<subseteq> C"
  using assms
proof (induction rule: rep.induct)
  case (subv t l e C V)
  let ?u = "term_sub_set (cells s l) 0"
  have enter: "leads E (M_Enter t st) s (M_Enter ?u st) s" for st
    using enter_var [of t s E st] subv.hyps(1-3) by simp
  show ?case
  proof (cases "term_tag ?u = TAG_VAR")
    case False
    with enter subv.hyps(4) show ?thesis by blast
  next
    case True
    from subv.IH [OF subv.prems(1) this] obtain t0 C0 where h: "\<And>st. leads E (M_Enter ?u st) s (M_Enter t0 st) s"
      "term_tag t0 \<noteq> TAG_VAR" "rep (cells s) \<sigma> t0 e C0 V" "C0 \<subseteq> C" by blast
    have "leads E (M_Enter t st) s (M_Enter t0 st) s" for st using leads_trans [OF enter h(1)] .
    with h(2-4) show ?thesis by blast
  qed
next
  case (var t) then show ?case by blast
qed (simp_all add: is_num_def is_dp_def bin_of_def ctr_size_def Let_def ic_tag_defs)

lemma rep_head:
  fixes s :: "('s, 'x) rt" and E :: "('s, 'x) tensor_ops"
  assumes "rep (cells s) \<sigma> t e C V" "\<And>x. e \<noteq> LVar x"
  shows "\<exists>t0 C0. (\<forall>st. leads E (M_Enter t st) s (M_Enter t0 st) s) \<and> term_tag t0 \<noteq> TAG_VAR \<and> rep (cells s) \<sigma> t0 e C0 V \<and> C0 \<subseteq> C"
  using rep_head_var [OF assms] assms leads_refl by (cases "term_tag t = TAG_VAR") blast+

lemma soup_head:
  fixes s :: "('s, 'x) rt" and E :: "('s, 'x) tensor_ops"
  assumes "soup (cells s) \<sigma> F X ((t, e) # its)"
  obtains t0 where "\<And>st. leads E (M_Enter t st) s (M_Enter t0 st) s" "term_tag t0 \<noteq> TAG_VAR" "soup (cells s) \<sigma> F X ((t0, e) # its)"
proof -
  from assms obtain C V C2 V2 CS VS where c: "open_ok \<sigma> F X" "rep (cells s) \<sigma> t e C V" "lfv e = {}" "items_rep (cells s) \<sigma> its C2 V2"
    "C \<inter> C2 = {}" "V \<inter> V2 = {}" "shares (cells s) \<sigma> F CS VS" "clear_of \<sigma> F CS VS (C \<union> C2) (V \<union> V2) X" by (rule soup_ConsE)
  from c(3) have nv: "\<And>x. e \<noteq> LVar x" by auto
  from rep_head [OF c(2) nv, where E = E] obtain t0 C0 where h: "\<And>st. leads E (M_Enter t st) s (M_Enter t0 st) s"
    "term_tag t0 \<noteq> TAG_VAR" "rep (cells s) \<sigma> t0 e C0 V" "C0 \<subseteq> C" by blast
  have "items_rep (cells s) \<sigma> ((t0, e) # its) (C0 \<union> C2) (V \<union> V2)"
    by (rule items_rep.Cons [OF h(3) c(3,4)]) (use c(5,6) h(4) in auto)
  moreover have "clear_of \<sigma> F CS VS (C0 \<union> C2) (V \<union> V2) X"
    by (rule clear_mono [OF c(8)]) (use c(8) h(4) in \<open>auto simp: clear_of_def\<close>)
  ultimately have "soup (cells s) \<sigma> F X ((t0, e) # its)" using c(1,7) by (intro soupI)
  with h(1,2) that show thesis by blast
qed

lemma eval_after:
  assumes "\<And>st. leads E (M_Enter t st) s (M_Enter u st) s1" "eval_ok E s1 \<sigma>1 F X its u w"
    and "\<And>l. l \<in> F \<Longrightarrow> \<sigma>1 l = \<sigma> l" "\<And>c. c \<in> X \<Longrightarrow> cells s1 c = cells s c"
  shows "eval_ok E s \<sigma> F X its t w"
proof -
  from assms(2) obtain t' s' \<sigma>' where h: "\<And>st. leads E (M_Enter u st) s1 (M_Apply t' st) s'" "term_tag t' \<noteq> TAG_VAR"
    "soup (cells s') \<sigma>' F X ((t', w) # its)" "\<And>l. l \<in> F \<Longrightarrow> \<sigma>' l = \<sigma>1 l" "\<And>c. c \<in> X \<Longrightarrow> cells s' c = cells s1 c"
    unfolding eval_ok_def by blast
  have "leads E (M_Enter t st) s (M_Apply t' st) s'" for st using leads_trans [OF assms(1) h(1)] .
  with h assms(3,4) show ?thesis unfolding eval_ok_def by (intro exI [of _ t'] exI [of _ s'] exI [of _ \<sigma>']) simp
qed

lemma eval_done:
  assumes "\<And>st. leads E (M_Enter t st) s (M_Apply v st) s1" "term_tag v \<noteq> TAG_VAR" "soup (cells s1) \<sigma>1 F X ((v, w) # its)"
    and "\<And>l. l \<in> F \<Longrightarrow> \<sigma>1 l = \<sigma> l" "\<And>c. c \<in> X \<Longrightarrow> cells s1 c = cells s c"
  shows "eval_ok E s \<sigma> F X its t w"
  using assms unfolding eval_ok_def by blast

lemma soundI:
  fixes E :: "('s, 'x) tensor_ops"
  assumes "\<And>s \<sigma> F X its t. soup (cells s) \<sigma> F X ((t, e) # its) \<Longrightarrow> deep \<sigma> F n \<Longrightarrow> term_tag t \<noteq> TAG_VAR \<Longrightarrow> eval_ok E s \<sigma> F X its t w"
  shows "sound E n e w"
  unfolding sound_def
proof (intro allI impI)
  fix s :: "('s, 'x) rt" and \<sigma> F X its t assume a: "soup (cells s) \<sigma> F X ((t, e) # its)" "deep \<sigma> F n"
  obtain t0 where "\<And>st. leads E (M_Enter t st) s (M_Enter t0 st) s" "term_tag t0 \<noteq> TAG_VAR" "soup (cells s) \<sigma> F X ((t0, e) # its)"
    using soup_head [OF a(1), where E = E] by blast
  with assms a(2) show "eval_ok E s \<sigma> F X its t w" by (blast intro: eval_after)
qed

text \<open>The first operand of a strict node.\<close>

lemma strict_first:
  fixes s :: "('s, 'x) rt" and E :: "('s, 'x) tensor_ops"
  assumes "sound E n e1 w1" "deep \<sigma> F N" "n \<le> N" "soup (cells s) \<sigma> F X ((t, LBin b e1 e2) # its)" "term_tag t \<noteq> TAG_VAR"
    "strict_kind b" "l = term_val t"
  obtains v s1 \<sigma>1 where "\<forall>st. leads E (M_Enter t st) s (M_Apply v (t # st)) s1" "term_tag v \<noteq> TAG_VAR"
    "soup (cells s1) \<sigma>1 F (X \<union> {l, l + 1}) ((v, w1) # (cells s (l + 1), e2) # its)"
    "\<forall>l \<in> F. \<sigma>1 l = \<sigma> l" "\<forall>c \<in> X. cells s1 c = cells s c" "cells s1 (l + 1) = cells s (l + 1)" "cells s1 l = cells s l"
proof -
  have "soup (cells s) \<sigma> F (X \<union> {l, l + 1}) ((cells s l, e1) # (cells s (l + 1), e2) # its)"
    by (rule soup_bin(2) [OF assms(4,5,7)])
  then have "eval_ok E s \<sigma> F (X \<union> {l, l + 1}) ((cells s (l + 1), e2) # its) (cells s l) w1"
    using assms(1) deep_less [OF assms(2,3)] unfolding sound_def by blast
  then obtain v s1 \<sigma>1 where h: "\<And>st. leads E (M_Enter (cells s l) st) s (M_Apply v st) s1" "term_tag v \<noteq> TAG_VAR"
    "soup (cells s1) \<sigma>1 F (X \<union> {l, l + 1}) ((v, w1) # (cells s (l + 1), e2) # its)"
    "\<And>l. l \<in> F \<Longrightarrow> \<sigma>1 l = \<sigma> l" "\<And>c. c \<in> X \<union> {l, l + 1} \<Longrightarrow> cells s1 c = cells s c"
    unfolding eval_ok_def by blast
  have "leads E (M_Enter t st) s (M_Apply v (t # st)) s1" for st
    using leads_trans [OF enter_bin [OF soup_bin(1) [OF assms(4,5,7)] assms(6)]] h(1) assms(7) by blast
  then show thesis using h(2-5) by (intro that [of v s1 \<sigma>1]) auto
qed

text \<open>The second operand, evaluated on its own with the cells of the node free.\<close>

lemma eval_second:
  fixes s :: "('s, 'x) rt" and E :: "('s, 'x) tensor_ops"
  assumes "sound E n e w" "deep \<sigma> F N" "n \<le> N" "soup (cells s) \<sigma> F X ((t, e) # its)"
  obtains v s1 \<sigma>1 where "\<forall>st. leads E (M_Enter t st) s (M_Apply v st) s1" "term_tag v \<noteq> TAG_VAR"
    "soup (cells s1) \<sigma>1 F X ((v, w) # its)" "\<forall>l \<in> F. \<sigma>1 l = \<sigma> l" "\<forall>c \<in> X. cells s1 c = cells s c"
proof -
  have "eval_ok E s \<sigma> F X its t w"
    using assms(1,4) deep_less [OF assms(2,3)] unfolding sound_def by blast
  with that show thesis unfolding eval_ok_def by blast
qed

section \<open>Values and shared cells\<close>

lemma sound_val:
  assumes "lval e"
  shows "sound E n e e"
proof (rule soundI)
  fix s :: "('a, 'b) rt" and \<sigma> F X its t
  assume a: "soup (cells s) \<sigma> F X ((t, e) # its)" "deep \<sigma> F n" "term_tag t \<noteq> TAG_VAR"
  from a(1) obtain C V where "rep (cells s) \<sigma> t e C V" by (rule soup_ConsE)
  then have "term_tag t \<in> {TAG_LAM, TAG_NUM, TAG_ERA, TAG_CTR, TAG_MAT}"
    using assms a(3) by cases (auto simp: is_num_def ctr_size_def bin_of_def Let_def split: if_splits)
  from enter_val [OF this] show "eval_ok E s \<sigma> F X its t e" by (rule eval_done) (use a in auto)
qed

lemma sound_dp:
  assumes e: "ev n e (LNum dt v)" and IH: "sound E n e (LNum dt v)"
  shows "sound E (Suc n) (LDp e) (LNum dt v)"
proof (rule soundI)
  fix s :: "('a, 'b) rt" and \<sigma> F X its t
  assume a: "soup (cells s) \<sigma> F X ((t, LDp e) # its)" "deep \<sigma> F (Suc n)" "term_tag t \<noteq> TAG_VAR"
  define l where "l = term_val t"
  note d = soup_dp [OF a(1,3), folded l_def]
  have lF: "l \<notin> F"
  proof
    assume "l \<in> F"
    with a(2) d(3) e have "Suc n \<le> n" unfolding deep_def by blast
    then show False by simp
  qed
  show "eval_ok E s \<sigma> F X its t (LNum dt v)"
  proof (cases "term_sub_get (cells s l) = 0")
    case True
    note o = soup_open [OF soup_drop [OF a(1)] d(3,4) lF True]
    have "deep \<sigma> (insert l F) n"
      using a(2) d(3) ev_determ [OF e] by (auto simp: deep_def) (meson Suc_leD)
    from eval_second [OF IH this order_refl o(1)] obtain u s1 \<sigma>1 where h:
      "\<forall>st. leads E (M_Enter (cells s l) st) s (M_Apply u st) s1" "term_tag u \<noteq> TAG_VAR"
      "soup (cells s1) \<sigma>1 (insert l F) (insert l X) ((u, LNum dt v) # its)"
      "\<forall>k \<in> insert l F. \<sigma>1 k = \<sigma> k" "\<forall>c \<in> insert l X. cells s1 c = cells s c" .
    note h = h [rule_format]
    have u: "is_num u dt v" by (rule soup_num [OF h(3,2)])
    then have "term_tag u = TAG_NUM" by (simp add: is_num_def)
    from apply_dp_num [OF d(1,2) this, where E = E and s = s1] obtain s2 where s2:
      "\<And>st. leads E (M_Apply u (t # st)) s1 (M_Apply u st) s2" "cells s2 = (cells s1)(l := term_sub_set u 1)"
      unfolding l_def by blast
    have "leads E (M_Enter t st) s (M_Apply u st) s2" for st
      using leads_trans [OF leads_trans [OF enter_dp [OF d(1,2), of E st s, folded l_def]] s2(1)] h(1) True by simp
    then show ?thesis
    proof (rule eval_done)
      show "soup (cells s2) \<sigma>1 F X ((u, LNum dt v) # its)"
        unfolding s2(2) by (rule soup_close [OF h(3) _ d(4) lF o(2) e u]) (use h(4) d(3) in simp)
    qed (use h(2,4,5) s2(2) o(2) in auto)
  next
    case False
    let ?u = "term_sub_set (cells s l) 0"
    from soup_done [OF a(1) d(3) lF False] obtain dt' v' m where n: "is_num ?u dt' v'" "ev m e (LNum dt' v')"
      unfolding num_cell_def by blast
    with ev_determ [OF e n(2)] have u: "is_num ?u dt v" by simp
    have "leads E (M_Enter t st) s (M_Apply ?u st) s" for st
      using leads_trans [OF enter_dp [OF d(1,2), of E st s, folded l_def]] enter_val [of ?u E st s] False u by (simp add: is_num_def)
    then show ?thesis
      by (rule eval_done) (use soup_of_num [OF soup_drop [OF a(1)] u] u in \<open>auto simp: is_num_def ic_tag_defs\<close>)
  qed
qed

section \<open>Applications\<close>

lemma bin_tags:
  "bin_of t = Some BApp \<Longrightarrow> term_tag t = TAG_APP" "bin_of t = Some BEql \<Longrightarrow> term_tag t = TAG_EQL"
  "bin_of t = Some BAnd \<Longrightarrow> term_tag t = TAG_AND" "bin_of t = Some BOr \<Longrightarrow> term_tag t = TAG_OR"
  "bin_of t = Some BWhen \<Longrightarrow> term_tag t = TAG_WHEN" "bin_of t = Some (BMat m) \<Longrightarrow> term_tag t = TAG_MAT"
  "bin_of t = Some (BOp opr) \<Longrightarrow> term_tag t = TAG_OP2 \<and> term_ext t = opr \<and> opr < 256"
  by (auto simp: bin_of_def Let_def split: if_splits)

lemma sound_beta:
  assumes "sound E n f (LLam x b)" "sound E k (lsubst x a b) w"
  shows "sound E (Suc (n + k)) (LBin BApp f a) w"
proof (rule soundI)
  fix s :: "('a, 'b) rt" and \<sigma> F X its t
  assume a: "soup (cells s) \<sigma> F X ((t, LBin BApp f a) # its)" "deep \<sigma> F (Suc (n + k))" "term_tag t \<noteq> TAG_VAR"
  define l where "l = term_val t"
  have nl: "n \<le> Suc (n + k)" "strict_kind BApp" by simp_all
  obtain v s1 \<sigma>1 where h: "\<forall>st. leads E (M_Enter t st) s (M_Apply v (t # st)) s1"
    "term_tag v \<noteq> TAG_VAR" "soup (cells s1) \<sigma>1 F (X \<union> {l, l + 1}) ((v, LLam x b) # (cells s (l + 1), a) # its)"
    "\<forall>l \<in> F. \<sigma>1 l = \<sigma> l" "\<forall>c \<in> X. cells s1 c = cells s c" "cells s1 (l + 1) = cells s (l + 1)" "cells s1 l = cells s l"
    by (rule strict_first [OF assms(1) a(2) nl(1) a(1,3) nl(2) l_def])
  note h = h [rule_format]
  let ?arg = "cells s (l + 1)"
  note B = soup_beta [OF h(3,2)]
  obtain \<sigma>2 where s2: "soup ((cells s1)(x := term_sub_set ?arg 1)) \<sigma>2 F (X \<union> {l, l + 1}) ((cells s1 x, lsubst x a b) # its)"
    "\<And>l. l \<in> F \<Longrightarrow> \<sigma>2 l = \<sigma>1 l" using B(4) by blast
  have "term_tag (cells s1 (term_val v)) \<noteq> TAG_UOP" using soup_tag [OF s2(1)] B(2) by (auto simp: ic_tag_defs)
  from apply_lam [OF bin_tags(1) [OF soup_bin(1) [OF a(1,3) refl]] B(1) this, where E = E] obtain s3 where s3:
    "\<And>st. leads E (M_Apply v (t # st)) s1 (M_Enter (cells s1 x) st) s3"
    "cells s3 = (if term_ext v AND LAM_ERA_MASK \<noteq> 0 then cells s1 else (cells s1)(x := term_sub_set ?arg 1))"
    unfolding B(2) l_def [symmetric] h(6) by blast
  have F: "F \<subseteq> X" by (rule soup_F [OF a(1)])
  obtain \<sigma>3 where so: "soup (cells s3) \<sigma>3 F X ((cells s1 x, lsubst x a b) # its)" "\<And>l. l \<in> F \<Longrightarrow> \<sigma>3 l = \<sigma>1 l"
  proof (cases "term_ext v AND LAM_ERA_MASK \<noteq> 0")
    case True
    with s3(2) soup_less [OF B(3) [OF True] Un_upper1 F] show thesis by (intro that [of \<sigma>1]) simp_all
  next
    case False
    with s3(2) soup_less [OF s2(1) Un_upper1 F] s2(2) show thesis by (intro that [of \<sigma>2]) simp_all
  qed
  have same: "\<sigma>3 l = \<sigma> l" if "l \<in> F" for l using so(2) h(4) that by simp
  have "deep \<sigma>3 F k" by (rule deep_less [OF a(2)]) (use same in auto)
  with assms(2) so(1) have "eval_ok E s3 \<sigma>3 F X its (cells s1 x) w" unfolding sound_def by blast
  with leads_trans [OF h(1) s3(1)] show "eval_ok E s \<sigma> F X its t w"
    by (rule eval_after) (use same h(5) s3(2) B(5) in \<open>auto split: if_splits\<close>)
qed

lemma sound_app_era:
  assumes "sound E n f LEra"
  shows "sound E (Suc n) (LBin BApp f a) LEra"
proof (rule soundI)
  fix s :: "('a, 'b) rt" and \<sigma> F X its t
  assume a: "soup (cells s) \<sigma> F X ((t, LBin BApp f a) # its)" "deep \<sigma> F (Suc n)" "term_tag t \<noteq> TAG_VAR"
  define l where "l = term_val t"
  have nl: "n \<le> Suc n" "strict_kind BApp" by simp_all
  obtain v s1 \<sigma>1 where h: "\<forall>st. leads E (M_Enter t st) s (M_Apply v (t # st)) s1"
    "term_tag v \<noteq> TAG_VAR" "soup (cells s1) \<sigma>1 F (X \<union> {l, l + 1}) ((v, LEra) # (cells s (l + 1), a) # its)"
    "\<forall>l \<in> F. \<sigma>1 l = \<sigma> l" "\<forall>c \<in> X. cells s1 c = cells s c" "cells s1 (l + 1) = cells s (l + 1)" "cells s1 l = cells s l"
    by (rule strict_first [OF assms(1) a(2) nl(1) a(1,3) nl(2) l_def])
  note h = h [rule_format]
  let ?e = "term_new 0 TAG_ERA 0 0"
  note ap = apply_app_era [OF bin_tags(1) [OF soup_bin(1) [OF a(1,3) refl]] soup_era [OF h(3,2)], where E = E and s = s1]
  have t: "term_tag ?e = TAG_ERA" by (simp add: term_word_simps TAG_ERA_def)
  have so: "soup (cells (bump_itrs s1)) \<sigma>1 F X ((?e, LEra) # its)"
    using soup_of_era [OF soup_less [OF soup_drop [OF soup_drop [OF h(3)]] _ soup_F [OF a(1)]] t] by auto
  show "eval_ok E s \<sigma> F X its t LEra"
    by (rule eval_done [OF leads_trans [OF h(1) ap] _ so]) (use h(4,5) t in \<open>auto simp: ic_tag_defs\<close>)
qed

lemma sound_app_mat:
  assumes "sound E n f (LBin (BMat m) e g)" "sound E k a v" "sound E j (match_next m e g v) w" "lval v"
  shows "sound E (Suc (n + k + j)) (LBin BApp f a) w"
proof (rule soundI)
  fix s :: "('a, 'b) rt" and \<sigma> F X its t
  assume a: "soup (cells s) \<sigma> F X ((t, LBin BApp f a) # its)" "deep \<sigma> F (Suc (n + k + j))" "term_tag t \<noteq> TAG_VAR"
  define l where "l = term_val t"
  have nl: "n \<le> Suc (n + k + j)" "strict_kind BApp" by simp_all
  obtain u s1 \<sigma>1 where h: "\<forall>st. leads E (M_Enter t st) s (M_Apply u (t # st)) s1"
    "term_tag u \<noteq> TAG_VAR" "soup (cells s1) \<sigma>1 F (X \<union> {l, l + 1}) ((u, LBin (BMat m) e g) # (cells s (l + 1), a) # its)"
    "\<forall>l \<in> F. \<sigma>1 l = \<sigma> l" "\<forall>c \<in> X. cells s1 c = cells s c" "cells s1 (l + 1) = cells s (l + 1)" "cells s1 l = cells s l"
    by (rule strict_first [OF assms(1) a(2) nl(1) a(1,3) nl(2) l_def])
  note h = h [rule_format]
  have d1: "deep \<sigma>1 F (k + j)" by (rule deep_less [OF a(2)]) (use h(4) in auto)
  obtain y s2 \<sigma>2 where g:
    "\<forall>st. leads E (M_Enter (cells s (l + 1)) st) s1 (M_Apply y st) s2" "term_tag y \<noteq> TAG_VAR"
    "soup (cells s2) \<sigma>2 F (X \<union> {l, l + 1}) ((y, v) # (u, LBin (BMat m) e g) # its)"
    "\<forall>l \<in> F. \<sigma>2 l = \<sigma>1 l" "\<forall>c \<in> X \<union> {l, l + 1}. cells s2 c = cells s1 c"
    by (rule eval_second [OF assms(2) d1 le_add1 soup_swap [OF h(3)]])
  note g = g [rule_format]
  let ?s2 = "bump_itrs (s2\<lparr>rt_last_stack := []\<rparr>)"
  have "soup (cells ?s2) \<sigma>2 F (X \<union> {l, l + 1}) ((u, LBin (BMat m) e g) # (y, v) # its)"
    using soup_swap [OF g(3)] by simp
  from mat_step_soup [OF this h(2) g(2) assms(4)] obtain z s3 where z: "mat_step u y ?s2 = Some (z, s3)"
    "soup (cells s3) \<sigma>2 F (X \<union> {l, l + 1}) ((z, match_next m e g v) # its)"
    "\<And>c. c \<in> X \<union> {l, l + 1} \<Longrightarrow> cells s3 c = cells s2 c" by auto
  have "\<not> is_dp y"
  proof -
    from g(3) obtain C V where "rep (cells s2) \<sigma>2 y v C V" by (rule soup_ConsE)
    then show ?thesis using assms(4) g(2) by cases (auto simp: is_dp_def is_num_def ctr_size_def bin_of_def Let_def ic_tag_defs)
  qed
  from apply_mat [OF bin_tags(1) [OF soup_bin(1) [OF a(1,3) refl]] bin_tags(6) [OF soup_bin(1) [OF h(3,2) refl]] this _ z(1), where E = E and s = s1]
  have ap: "leads E (M_Apply u (t # st)) s1 (M_Enter z st) s3" for st
    using g(1) h(6) by (simp add: l_def)
  have same: "\<sigma>2 l = \<sigma> l" if "l \<in> F" for l using g(4) h(4) that by simp
  have "deep \<sigma>2 F j" by (rule deep_less [OF a(2)]) (use same in auto)
  moreover have "soup (cells s3) \<sigma>2 F X ((z, match_next m e g v) # its)"
    by (rule soup_less [OF z(2) _ soup_F [OF a(1)]]) auto
  ultimately have "eval_ok E s3 \<sigma>2 F X its z w" using assms(3) unfolding sound_def by blast
  with leads_trans [OF h(1) ap] show "eval_ok E s \<sigma> F X its t w"
    by (rule eval_after) (use same h(5) g(5) z(3) in auto)
qed

section \<open>Strict nodes\<close>

lemma num_word_tag: "dt < 256 \<Longrightarrow> term_tag (num_word dt v) \<noteq> TAG_VAR"
  using num_word [of dt v] by (simp add: is_num_def ic_tag_defs)

lemma sound_op2:
  assumes "sound E n a (LNum dt x)" "sound E k b (LNum dt' y)" "ev k b (LNum dt' y)"
  shows "sound E (Suc (n + k)) (LBin (BOp opr) a b) (LNum dt (op2_eval opr x y))"
proof (rule soundI)
  fix s :: "('a, 'b) rt" and \<sigma> F X its t
  assume a: "soup (cells s) \<sigma> F X ((t, LBin (BOp opr) a b) # its)" "deep \<sigma> F (Suc (n + k))" "term_tag t \<noteq> TAG_VAR"
  define l where "l = term_val t"
  have nl: "n \<le> Suc (n + k)" "strict_kind (BOp opr)" by simp_all
  obtain v s1 \<sigma>1 where "\<forall>st. leads E (M_Enter t st) s (M_Apply v (t # st)) s1" "term_tag v \<noteq> TAG_VAR"
    "soup (cells s1) \<sigma>1 F (X \<union> {l, l + 1}) ((v, LNum dt x) # (cells s (l + 1), b) # its)"
    "\<forall>l \<in> F. \<sigma>1 l = \<sigma> l" "\<forall>c \<in> X. cells s1 c = cells s c" "cells s1 (l + 1) = cells s (l + 1)" "cells s1 l = cells s l"
    by (rule strict_first [OF assms(1) a(2) nl(1) a(1,3) nl(2) l_def])
  note h = this [rule_format]
  have t: "term_tag t = TAG_OP2" "term_ext t = opr" "opr < 256"
    using bin_tags(7) [OF soup_bin(1) [OF a(1,3) refl]] by auto
  have v: "is_num v dt x" by (rule soup_num [OF h(3,2)])
  then have dt: "dt < 256" by (simp add: is_num_def)
  note sw = soup_swap [OF h(3)]
  show "eval_ok E s \<sigma> F X its t (LNum dt (op2_eval opr x y))"
  proof (cases "term_tag (cells s (l + 1)) = TAG_NUM")
    case True
    from soup_num_tag [OF sw True] obtain d z where "b = LNum d z" "is_num (cells s (l + 1)) d z" .
    with assms(3) have y: "is_num (cells s (l + 1)) dt' y" by auto
    have ap: "leads E (M_Apply v (t # st)) s1 (M_Apply (num_word dt (op2_eval opr x y)) st) (bump_itrs s1)" for st
      using apply_op2_num [OF t(1) v, of s1 dt' y E st] y h(6) t(2) by (simp add: l_def)
    show ?thesis
    proof (rule eval_done [OF leads_trans [OF h(1) ap] num_word_tag [OF dt]])
      show "soup (cells (bump_itrs s1)) \<sigma>1 F X ((num_word dt (op2_eval opr x y), LNum dt (op2_eval opr x y)) # its)"
        using soup_of_num [OF soup_less [OF soup_drop [OF soup_drop [OF h(3)]] Un_upper1 soup_F [OF a(1)]] num_word [OF dt]] by simp
    qed (use h(4,5) in auto)
  next
    case False
    let ?f = "term_new 0 TAG_F_OP2_NUM ((opr AND 0xFF) OR push_bit 8 (dt AND 0xFF)) l" and ?s1 = "heap_set l v s1"
    have ap: "leads E (M_Apply v (t # st)) s1 (M_Enter (cells s (l + 1)) (?f # st)) ?s1" for st
      using apply_op2 [OF t(1) v, of s1 E st] False h(6) t(2) by (simp add: l_def)
    have d1: "deep \<sigma>1 F k" by (rule deep_less [OF a(2)]) (use h(4) in auto)
    have "soup (cells ?s1) \<sigma>1 F (X \<union> {l, l + 1}) ((cells s (l + 1), b) # its)"
      using soup_write [OF soup_drop2 [OF sw], of l v] by simp
    then obtain u s2 \<sigma>2 where "\<forall>st. leads E (M_Enter (cells s (l + 1)) st) ?s1 (M_Apply u st) s2" "term_tag u \<noteq> TAG_VAR"
      "soup (cells s2) \<sigma>2 F (X \<union> {l, l + 1}) ((u, LNum dt' y) # its)" "\<forall>l \<in> F. \<sigma>2 l = \<sigma>1 l"
      "\<forall>c \<in> X \<union> {l, l + 1}. cells s2 c = cells ?s1 c"
      by (rule eval_second [OF assms(2) d1 order_refl])
    note g = this [rule_format]
    have u: "is_num u dt' y" by (rule soup_num [OF g(3,2)])
    have "is_num (cells s2 l) dt x" using g(5) [of l] v by simp
    note fin = apply_f_op2 [OF t(3) dt l_def this u, where E = E]
    have run: "leads E (M_Enter t st) s (M_Apply (num_word dt (op2_eval opr x y)) st) (bump_itrs s2)" for st
      by (rule leads_trans [OF leads_trans [OF h(1) ap] leads_trans [OF g(1) fin]])
    show ?thesis
    proof (rule eval_done [OF run num_word_tag [OF dt]])
      show "soup (cells (bump_itrs s2)) \<sigma>2 F X ((num_word dt (op2_eval opr x y), LNum dt (op2_eval opr x y)) # its)"
        using soup_of_num [OF soup_less [OF soup_drop [OF g(3)] Un_upper1 soup_F [OF a(1)]] num_word [OF dt]] by simp
      show "cells (bump_itrs s2) c = cells s c" if "c \<in> X" for c
        using that g(5) [of c] h(5) soup_bin_cells [OF a(1,3) l_def] by auto
    qed (use h(4) g(4) in auto)
  qed
qed

lemma sound_eql_num:
  assumes "sound E n a (LNum dt x)" "sound E k b (LNum dt' y)"
  shows "sound E (Suc (n + k)) (LBin BEql a b) (LNum dt (if x = y then 1 else 0))"
proof (rule soundI)
  fix s :: "('a, 'b) rt" and \<sigma> F X its t
  assume a: "soup (cells s) \<sigma> F X ((t, LBin BEql a b) # its)" "deep \<sigma> F (Suc (n + k))" "term_tag t \<noteq> TAG_VAR"
  define l where "l = term_val t"
  have nl: "n \<le> Suc (n + k)" "strict_kind BEql" by simp_all
  obtain v s1 \<sigma>1 where "\<forall>st. leads E (M_Enter t st) s (M_Apply v (t # st)) s1" "term_tag v \<noteq> TAG_VAR"
    "soup (cells s1) \<sigma>1 F (X \<union> {l, l + 1}) ((v, LNum dt x) # (cells s (l + 1), b) # its)"
    "\<forall>l \<in> F. \<sigma>1 l = \<sigma> l" "\<forall>c \<in> X. cells s1 c = cells s c" "cells s1 (l + 1) = cells s (l + 1)" "cells s1 l = cells s l"
    by (rule strict_first [OF assms(1) a(2) nl(1) a(1,3) nl(2) l_def])
  note h = this [rule_format]
  note t = bin_tags(2) [OF soup_bin(1) [OF a(1,3) refl]]
  have v: "is_num v dt x" by (rule soup_num [OF h(3,2)])
  then have dt: "dt < 256" by (simp add: is_num_def)
  let ?f = "term_new 0 TAG_F_EQL_R 0 l" and ?s1 = "heap_set l v s1" and ?r = "if x = y then 1 else 0 :: u32"
  have ap: "leads E (M_Apply v (t # st)) s1 (M_Enter (cells s (l + 1)) (?f # st)) ?s1" for st
    using apply_eql [OF t v, of E st s1] h(6) by (simp add: l_def)
  have d1: "deep \<sigma>1 F k" by (rule deep_less [OF a(2)]) (use h(4) in auto)
  have "soup (cells ?s1) \<sigma>1 F (X \<union> {l, l + 1}) ((cells s (l + 1), b) # its)"
    using soup_write [OF soup_drop2 [OF soup_swap [OF h(3)]], of l v] by simp
  then obtain u s2 \<sigma>2 where "\<forall>st. leads E (M_Enter (cells s (l + 1)) st) ?s1 (M_Apply u st) s2" "term_tag u \<noteq> TAG_VAR"
    "soup (cells s2) \<sigma>2 F (X \<union> {l, l + 1}) ((u, LNum dt' y) # its)" "\<forall>l \<in> F. \<sigma>2 l = \<sigma>1 l"
    "\<forall>c \<in> X \<union> {l, l + 1}. cells s2 c = cells ?s1 c"
    by (rule eval_second [OF assms(2) d1 order_refl])
  note g = this [rule_format]
  have u: "is_num u dt' y" by (rule soup_num [OF g(3,2)])
  have "is_num (cells s2 l) dt x" using g(5) [of l] v by simp
  note fin = apply_f_eql [OF l_def this u, where E = E]
  have run: "leads E (M_Enter t st) s (M_Apply (num_word dt ?r) st) (bump_itrs s2)" for st
    by (rule leads_trans [OF leads_trans [OF h(1) ap] leads_trans [OF g(1) fin]])
  show "eval_ok E s \<sigma> F X its t (LNum dt ?r)"
  proof (rule eval_done [OF run num_word_tag [OF dt]])
    show "soup (cells (bump_itrs s2)) \<sigma>2 F X ((num_word dt ?r, LNum dt ?r) # its)"
      using soup_of_num [OF soup_less [OF soup_drop [OF g(3)] Un_upper1 soup_F [OF a(1)]] num_word [OF dt]] by simp
    show "cells (bump_itrs s2) c = cells s c" if "c \<in> X" for c
      using that g(5) [of c] h(5) soup_bin_cells [OF a(1,3) l_def] by auto
  qed (use h(4) g(4) in auto)
qed

text \<open>An erased first operand erases the node.\<close>

lemma sound_era:
  assumes "sound E n a LEra" "kd \<in> {BEql, BAnd, BOr, BWhen}"
  shows "sound E (Suc n) (LBin kd a b) LEra"
proof (rule soundI)
  fix s :: "('a, 'b) rt" and \<sigma> F X its t
  assume a: "soup (cells s) \<sigma> F X ((t, LBin kd a b) # its)" "deep \<sigma> F (Suc n)" "term_tag t \<noteq> TAG_VAR"
  define l where "l = term_val t"
  have nl: "n \<le> Suc n" "strict_kind kd" using assms(2) by auto
  obtain v s1 \<sigma>1 where "\<forall>st. leads E (M_Enter t st) s (M_Apply v (t # st)) s1" "term_tag v \<noteq> TAG_VAR"
    "soup (cells s1) \<sigma>1 F (X \<union> {l, l + 1}) ((v, LEra) # (cells s (l + 1), b) # its)"
    "\<forall>l \<in> F. \<sigma>1 l = \<sigma> l" "\<forall>c \<in> X. cells s1 c = cells s c" "cells s1 (l + 1) = cells s (l + 1)" "cells s1 l = cells s l"
    by (rule strict_first [OF assms(1) a(2) nl(1) a(1,3) nl(2) l_def])
  note h = this [rule_format]
  have t: "term_tag t \<in> {TAG_EQL, TAG_AND, TAG_OR, TAG_WHEN}"
    using soup_bin(1) [OF a(1,3) refl] assms(2) by (auto dest: bin_tags)
  note v = soup_era [OF h(3,2)]
  note ap = apply_strict_era [OF t v, where E = E and s = s1]
  show "eval_ok E s \<sigma> F X its t LEra"
  proof (rule eval_done [OF leads_trans [OF h(1) ap] h(2)])
    show "soup (cells (bump_itrs s1)) \<sigma>1 F X ((v, LEra) # its)"
      using soup_less [OF soup_drop2 [OF h(3)] Un_upper1 soup_F [OF a(1)]] by simp
  qed (use h(4,5) in auto)
qed

text \<open>AND, OR and WHEN on a number: a value at once, or the second operand.\<close>

lemma sound_bool_stop:
  assumes "sound E n a (LNum dt x)" "kd \<in> {BAnd, BOr, BWhen}"
    and r: "\<And>v H \<sigma> F X its. is_num v dt x \<Longrightarrow> soup H \<sigma> F X its
      \<Longrightarrow> \<exists>u. bool_stop kd v = Some u \<and> term_tag u \<noteq> TAG_VAR \<and> soup H \<sigma> F X ((u, w) # its)"
  shows "sound E (Suc n) (LBin kd a b) w"
proof (rule soundI)
  fix s :: "('a, 'b) rt" and \<sigma> F X its t
  assume a: "soup (cells s) \<sigma> F X ((t, LBin kd a b) # its)" "deep \<sigma> F (Suc n)" "term_tag t \<noteq> TAG_VAR"
  define l where "l = term_val t"
  have nl: "n \<le> Suc n" "strict_kind kd" using assms(2) by auto
  obtain v s1 \<sigma>1 where "\<forall>st. leads E (M_Enter t st) s (M_Apply v (t # st)) s1" "term_tag v \<noteq> TAG_VAR"
    "soup (cells s1) \<sigma>1 F (X \<union> {l, l + 1}) ((v, LNum dt x) # (cells s (l + 1), b) # its)"
    "\<forall>l \<in> F. \<sigma>1 l = \<sigma> l" "\<forall>c \<in> X. cells s1 c = cells s c" "cells s1 (l + 1) = cells s (l + 1)" "cells s1 l = cells s l"
    by (rule strict_first [OF assms(1) a(2) nl(1) a(1,3) nl(2) l_def])
  note h = this [rule_format]
  have t: "term_tag t = bool_tag kd" using soup_bin(1) [OF a(1,3) refl] assms(2) by (auto dest: bin_tags)
  have v: "is_num v dt x" by (rule soup_num [OF h(3,2)])
  have "soup (cells s1) \<sigma>1 F X its"
    by (rule soup_less [OF soup_drop [OF soup_drop [OF h(3)]] Un_upper1 soup_F [OF a(1)]])
  from r [OF v this] obtain u where u: "bool_stop kd v = Some u" "term_tag u \<noteq> TAG_VAR" "soup (cells s1) \<sigma>1 F X ((u, w) # its)" by blast
  have ap: "leads E (M_Apply v (t # st)) s1 (M_Apply u st) (bump_itrs s1)" for st
    using apply_bool [OF t assms(2) v, of E st s1] u(1) by simp
  show "eval_ok E s \<sigma> F X its t w"
    by (rule eval_done [OF leads_trans [OF h(1) ap] u(2), of \<sigma>1]) (use u(3) h(4,5) in auto)
qed

lemma sound_bool_next:
  assumes "sound E n a (LNum dt x)" "sound E k b w" "kd \<in> {BAnd, BOr, BWhen}" "\<And>v. is_num v dt x \<Longrightarrow> bool_stop kd v = None"
  shows "sound E (Suc (n + k)) (LBin kd a b) w"
proof (rule soundI)
  fix s :: "('a, 'b) rt" and \<sigma> F X its t
  assume a: "soup (cells s) \<sigma> F X ((t, LBin kd a b) # its)" "deep \<sigma> F (Suc (n + k))" "term_tag t \<noteq> TAG_VAR"
  define l where "l = term_val t"
  have nl: "n \<le> Suc (n + k)" "strict_kind kd" using assms(3) by auto
  obtain v s1 \<sigma>1 where "\<forall>st. leads E (M_Enter t st) s (M_Apply v (t # st)) s1" "term_tag v \<noteq> TAG_VAR"
    "soup (cells s1) \<sigma>1 F (X \<union> {l, l + 1}) ((v, LNum dt x) # (cells s (l + 1), b) # its)"
    "\<forall>l \<in> F. \<sigma>1 l = \<sigma> l" "\<forall>c \<in> X. cells s1 c = cells s c" "cells s1 (l + 1) = cells s (l + 1)" "cells s1 l = cells s l"
    by (rule strict_first [OF assms(1) a(2) nl(1) a(1,3) nl(2) l_def])
  note h = this [rule_format]
  have t: "term_tag t = bool_tag kd" using soup_bin(1) [OF a(1,3) refl] assms(3) by (auto dest: bin_tags)
  have v: "is_num v dt x" by (rule soup_num [OF h(3,2)])
  have ap: "leads E (M_Apply v (t # st)) s1 (M_Enter (cells s (l + 1)) st) (bump_itrs s1)" for st
    using apply_bool [OF t assms(3) v, of E st s1] assms(4) [OF v] h(6) by (simp add: l_def)
  have "deep \<sigma>1 F k" by (rule deep_less [OF a(2)]) (use h(4) in auto)
  moreover have "soup (cells (bump_itrs s1)) \<sigma>1 F X ((cells s (l + 1), b) # its)"
    using soup_less [OF soup_drop [OF h(3)] Un_upper1 soup_F [OF a(1)]] by simp
  ultimately have "eval_ok E (bump_itrs s1) \<sigma>1 F X its (cells s (l + 1)) w" using assms(2) unfolding sound_def by blast
  then show "eval_ok E s \<sigma> F X its t w"
    by (rule eval_after [OF leads_trans [OF h(1) ap]]) (use h(4,5) in auto)
qed

section \<open>The reducer is sound\<close>

theorem ev_sound: "ev n e w \<Longrightarrow> sound E n e w"
proof (induction rule: ev.induct)
  case (app_mat n f m e g k a v j w)
  then show ?case using ev_lval by (blast intro: sound_app_mat)
next
  case (eql_num n a dt x k b dt' y) then show ?case by (intro sound_eql_num)
next
  case (and_0 n a dt b)
  show ?case
    by (rule sound_bool_stop [OF and_0.IH])
      (auto simp: and_num_def is_num_def ic_tag_defs intro!: soup_of_num)
next
  case (or_1 n a dt x b)
  show ?case
  proof (rule sound_bool_stop [OF or_1.IH])
    fix v H \<sigma> F X its assume v: "is_num v dt x" and s: "soup H \<sigma> F X its"
    then have "dt < 256" by (simp add: is_num_def)
    from soup_of_num [OF s num_word [OF this, of 1]] num_word_tag [OF this, of 1]
    show "\<exists>u. bool_stop BOr v = Some u \<and> term_tag u \<noteq> TAG_VAR \<and> soup H \<sigma> F X ((u, LNum dt 1) # its)"
      using v or_1.hyps by (auto simp: or_num_def is_num_def num_word_def)
  qed simp
next
  case (when_0 n a dt b)
  show ?case
    by (rule sound_bool_stop [OF when_0.IH])
      (auto simp: when_num_def is_num_def ic_tag_defs term_word_simps intro!: soup_of_era)
next
  case (and_1 n a dt x k b w) then show ?case
    by (intro sound_bool_next [where dt = dt and x = x]) (auto simp: and_num_def is_num_def)
next
  case (or_0 n a dt k b w) then show ?case
    by (intro sound_bool_next [where dt = dt and x = 0]) (auto simp: or_num_def is_num_def)
next
  case (when_1 n a dt x k b w) then show ?case
    by (intro sound_bool_next [where dt = dt and x = x]) (auto simp: when_num_def is_num_def)
qed (auto intro: sound_val sound_dp sound_beta sound_app_era sound_op2 sound_era)

text \<open>A word that stands for a closed term, with some shared cells.\<close>

definition net :: "('s, 'x) rt \<Rightarrow> term_w \<Rightarrow> lt \<Rightarrow> bool" where
  "net s t e \<longleftrightarrow> (\<exists>\<sigma> X. soup (cells s) \<sigma> {} X [(t, e)])"

text \<open>C1: The reducer evaluates: if a word stands for a closed term, with its shared cells, and the term has a value
  call by name, then wnf ends for every large enough fuel, with one result, and that result stands for the value.\<close>

theorem wnf_evaluates:
  fixes s :: "('s, 'x) rt"
  assumes "net s t e" "ev n e w"
  shows "\<exists>k0 v s'. (\<forall>k \<ge> k0. wnf k E t s = Some (v, s')) \<and> net s' v w"
proof -
  from assms(1) obtain \<sigma> X where "soup (cells s) \<sigma> {} X [(t, e)]" unfolding net_def by blast
  moreover have "deep \<sigma> {} n" by (simp add: deep_def)
  ultimately have "eval_ok E s \<sigma> {} X [] t w" using ev_sound [OF assms(2), of E] unfolding sound_def by blast
  then obtain v s' \<sigma>' where r: "\<forall>st. leads E (M_Enter t st) s (M_Apply v st) s'"
    "soup (cells s') \<sigma>' {} X [(v, w)]" unfolding eval_ok_def by blast
  from leads_call [OF r(1) [rule_format]] obtain k0 where
    "\<And>k. k0 \<le> k \<Longrightarrow> wnf_loop k E 0 (itrs s) (M_Enter t []) s = Some (v, s'\<lparr>rt_last_stack := []\<rparr>)" by blast
  moreover have "net (s'\<lparr>rt_last_stack := []\<rparr>) v w" using r(2) unfolding net_def by auto
  ultimately show ?thesis unfolding wnf_def wnf_n_def by blast
qed

text \<open>The square of 5, plus 1: the argument is shared by the two projections of cell 8.\<close>

definition sq_term :: term_w where "sq_term = term_new 0 TAG_APP 0 1"

definition sq_heap :: "(nat, nat) rt" where
  "sq_heap = \<lparr>cells = (\<lambda>_. 0)(1 := term_new 0 TAG_LAM 0 3, 2 := num_word DT_INT32 5, 3 := term_new 0 TAG_OP2 OP_ADD 4,
       4 := term_new 0 TAG_OP2 OP_MUL 6, 5 := num_word DT_INT32 1, 6 := term_new 0 TAG_DP0 1 8, 7 := term_new 0 TAG_DP1 1 8,
       8 := term_new 0 TAG_VAR 0 3),
     heap_next = 9, heap_cap = 16, itrs = 0, book_heap = (\<lambda>_. 0), book_defs = [], alo_states = [],
     dup_share = (\<lambda>_. \<lparr>sh_gen = 0, sh_state = 0, sh_book = 0, sh_dyn = 0\<rparr>), dup_share_gen = 1,
     rt_shapes = [], rt_ctx = 0, rt_last_stack = [], world = 0\<rparr>"

definition sq_lt :: lt where
  "sq_lt = LBin BApp (LLam 3 (LBin (BOp OP_ADD) (LBin (BOp OP_MUL) (LDp (LVar 3)) (LDp (LVar 3))) (LNum DT_INT32 1)))
     (LNum DT_INT32 5)"

definition sq_shared :: "u64 \<Rightarrow> lt option" where "sq_shared = [8 \<mapsto> LVar 3]"

lemma sq_rep: "rep (cells sq_heap) sq_shared sq_term sq_lt {1, 2, 3, 4, 5, 6, 7} {}"
proof -
  let ?H = "cells sq_heap"
  have num: "is_num (num_word DT_INT32 v) DT_INT32 v" for v by (rule num_word) (simp add: DT_INT32_def)
  note defs = sq_heap_def bin_of_def is_dp_def term_word_simps ic_tag_defs op_defs sq_shared_def DUP_GRAD_FLAG_def LAM_ERA_MASK_def
  have dp: "rep ?H sq_shared (?H 6) (LDp (LVar 3)) {} {}" "rep ?H sq_shared (?H (6 + 1)) (LDp (LVar 3)) {} {}"
    by (rule rep.dp; simp add: defs)+
  have mul: "rep ?H sq_shared (?H 4) (LBin (BOp OP_MUL) (LDp (LVar 3)) (LDp (LVar 3))) ({6, 6 + 1} \<union> {} \<union> {}) ({} \<union> {})"
    by (rule rep.bin [OF _ _ dp]) (simp_all add: defs)
  have one: "rep ?H sq_shared (?H (4 + 1)) (LNum DT_INT32 1) {} {}" "rep ?H sq_shared (?H (1 + 1)) (LNum DT_INT32 5) {} {}"
    by (rule rep.num; use num in \<open>simp add: sq_heap_def\<close>)+
  have add: "rep ?H sq_shared (?H 3) (LBin (BOp OP_ADD) (LBin (BOp OP_MUL) (LDp (LVar 3)) (LDp (LVar 3))) (LNum DT_INT32 1))
      ({4, 4 + 1} \<union> ({6, 6 + 1} \<union> {} \<union> {}) \<union> {}) (({} \<union> {}) \<union> {})"
    by (rule rep.bin [OF _ _ mul one(1)]) (simp_all add: defs)
  have lam: "rep ?H sq_shared (?H 1) (LLam 3 (LBin (BOp OP_ADD) (LBin (BOp OP_MUL) (LDp (LVar 3)) (LDp (LVar 3))) (LNum DT_INT32 1)))
      (insert 3 ({4, 4 + 1} \<union> ({6, 6 + 1} \<union> {} \<union> {}) \<union> {})) (({} \<union> {}) \<union> {})"
    by (rule rep.lam [OF _ _ add]) (simp_all add: defs)
  have "rep ?H sq_shared sq_term sq_lt ({1, 1 + 1} \<union> (insert 3 ({4, 4 + 1} \<union> ({6, 6 + 1} \<union> {} \<union> {}) \<union> {})) \<union> {}) ((({} \<union> {}) \<union> {}) \<union> {})"
    unfolding sq_lt_def by (rule rep.bin [OF _ _ lam one(2)]) (simp_all add: defs sq_term_def)
  moreover have "{1, 1 + 1} \<union> (insert 3 ({4, 4 + 1} \<union> ({6, 6 + 1} \<union> {} \<union> {}) \<union> {})) \<union> {} = ({1, 2, 3, 4, 5, 6, 7} :: u64 set)" by auto
  ultimately show ?thesis by simp
qed

lemma sq_net: "net sq_heap sq_term sq_lt"
proof -
  have v: "rep (cells sq_heap) sq_shared (cells sq_heap 8) (LVar 3) {} {3}"
    using rep.var [of "cells sq_heap 8" "cells sq_heap" sq_shared] by (simp add: sq_heap_def term_word_simps ic_tag_defs)
  have "items_rep (cells sq_heap) sq_shared [(sq_term, sq_lt)] {1, 2, 3, 4, 5, 6, 7} {}"
    by (rule items1 [OF sq_rep]) (simp add: sq_lt_def)
  moreover have "shares (cells sq_heap) sq_shared {} (\<lambda>_. {8}) (\<lambda>_. {3})"
    unfolding shares_def cell_ok_def using v
    by (auto simp: sq_shared_def sq_heap_def term_word_simps split: if_splits)
  moreover have "clear_of sq_shared {} (\<lambda>_. {8}) (\<lambda>_. {3}) {1, 2, 3, 4, 5, 6, 7} {} {}" by (simp add: clear_of_def)
  moreover have "open_ok sq_shared {} {}" by (simp add: open_ok_def)
  ultimately show ?thesis unfolding net_def by (blast intro: soupI)
qed

lemma sq_ev: "ev 5 sq_lt (LNum DT_INT32 26)"
proof -
  have five: "ev 1 (LDp (LNum DT_INT32 5)) (LNum DT_INT32 5)" using ev.dp [OF ev.num] by simp
  have "ev 3 (LBin (BOp OP_MUL) (LDp (LNum DT_INT32 5)) (LDp (LNum DT_INT32 5))) (LNum DT_INT32 25)"
    using ev.op2 [OF five five, of OP_MUL] by (simp add: op2_eval_def op_defs numeral_3_eq_3)
  from ev.op2 [OF this ev.num, of OP_ADD DT_INT32 1] have
    "ev 4 (LBin (BOp OP_ADD) (LBin (BOp OP_MUL) (LDp (LNum DT_INT32 5)) (LDp (LNum DT_INT32 5))) (LNum DT_INT32 1)) (LNum DT_INT32 26)"
    by (simp add: op2_eval_def op_defs)
  then have "ev (Suc (0 + 4)) sq_lt (LNum DT_INT32 26)" unfolding sq_lt_def by (intro ev.beta [OF ev.lam]) simp
  then show ?thesis by simp
qed

theorem wnf_evaluates_witness:
  "\<forall>E. \<exists>k0 v s'. (\<forall>k \<ge> k0. wnf k E sq_term sq_heap = Some (v, s')) \<and> net s' v (LNum DT_INT32 26)"
  using wnf_evaluates [OF sq_net sq_ev] by blast

end
