(* ===== verification/IC_Limits.thy ===== *)
theory IC_Limits
  imports IC_Wnf
begin

text \<open>
  Small nets on which the code does not do what its comments say: the second run after a bail-out,
  the test for an unused binder, a dynamic label with bit 17.
\<close>

definition mini :: "(nat, nat) tensor_ops" where
  "mini = \<lparr>op_kernel = (\<lambda>t s. None), op_assign = (\<lambda>l a b s. None), op_grad = (\<lambda>t s. None), op_materialize = (\<lambda>t s. None),
     op_shape_of = (\<lambda>t s. None), op_uop_arity = (\<lambda>_. 0), op_next_active = (\<lambda>l a b s. 0), prim_table = []\<rparr>"

definition mini_rt :: "(u64 \<times> term_w) list \<Rightarrow> (nat, nat) rt" where
  "mini_rt xs = \<lparr>cells = (\<lambda>l. case map_of xs l of None \<Rightarrow> 0 | Some t \<Rightarrow> t), heap_next = 32, heap_cap = 64, itrs = 0,
     book_heap = (\<lambda>_. 0), book_defs = [], alo_states = [],
     dup_share = (\<lambda>_. \<lparr>sh_gen = 0, sh_state = 0, sh_book = 0, sh_dyn = 0\<rparr>), dup_share_gen = 1,
     rt_shapes = [], rt_ctx = 0, rt_last_stack = [], world = 0\<rparr>"

lemma subst_var_not_followed: "\<not> lam_body_uses_var (mini_rt [(5, term_new 0 TAG_VAR 0 6), (6, term_new 1 TAG_VAR 0 5)]) 5"
  by code_simp

lemma ddu_label_grad: "case interact_ddu_num 1 (term_new 0 TAG_NUM 5 131072) (mini_rt []) of
    Some (t, s) \<Rightarrow> term_ext (cells s 34) AND DUP_GRAD_FLAG \<noteq> 0 | None \<Rightarrow> False"
  by code_simp

definition bail_rt :: "(nat, nat) rt" where
  "bail_rt = mini_rt [(1, term_new 0 TAG_NUM 5 1), (2, term_new 0 TAG_APP 0 3), (3, term_new 0 TAG_LAM 0 5),
     (4, term_new 0 TAG_NUM 5 5), (5, term_new 0 TAG_OP2 OP_MUL 6), (6, term_new 0 TAG_VAR 0 5), (7, term_new 0 TAG_NUM 5 2)]"

lemma bail_then_resume: "case wnf_n 8 mini 1 (term_new 0 TAG_OP2 OP_ADD 1) bail_rt of
    None \<Rightarrow> False | Some (t, s) \<Rightarrow> map_option (num_val o fst) (wnf 9 mini t s) = Some 6"
  by code_simp

end
