(* ===== verification/Spec2Isabelle.thy ===== *)
theory Spec2Isabelle
  imports Prelude Term_Word Heap_Ctr FTerm Rewrite Unify Rename CP FOL_Refute
    KBO Orders KBO_Order Path_Order Flat_Term KBO_Flat LPO LPO_Order LPO_Props Arg_Compare RPO WPO FOL_Clause FOL_Sat FOL_Sat_Props FOL_Print CC_Props GC_Collect
    IC_Sound IC_Limits
begin

text \<open>
  Verification development for thvm, a runtime for interaction nets (src/src) with a first-order
  theorem prover on top of it. Two halves are modelled: the runtime that builds, reduces and collects
  nets, and the reasoning core whose operations the prover combines. File names below are under
  src/src; a definition has the name of its function in C.

  The program. A term is one 64-bit word: a substitution bit, a tag, an extension and a value,
  usually the position of a block of cells in a flat heap (heap, term). The reducer wnf walks to the head
  of a term, pushes frames, and fires the rules of interact; definitions of the book are
  expanded lazily by alo; cnf lifts superpositions to the top; a copying collector (heap/collect.c)
  moves what the roots reach. First-order terms are constructor blocks of the same heap. On them work
  matching, rewriting, unification and critical pairs (rewrite, unify, cp), four term orderings (kbo,
  lpo, rpo, wpo), congruence closure (cc), the conversion of formulas to clauses and the given-clause
  loop (fol).

  Runtime:
  Term_Word: packed words (term/new.c, tag.c, ext.c, val.c, sub). Packing and unpacking are inverse.
  Heap_Ctr: the heap (heap/alloc.c, read.c, set.c, take.c, cas.c, subst_*.c), constructor blocks
  (term/new_ctr.c, new_fvr.c) and what it means that a word spells a first-order term.
  GC_Heap, GC_Props, GC_Collect: the collector and the shape table (heap/collect.c, lam/shape.c). A
  collection copies the reachable blocks, each once, updates every reference, leaves a heap
  that is ready for the next one, and first-order terms keep their spelling.
  IC_State: the context, node constructors, primitive table, the test for an unused binder
  (thvm.h, term/new_*.c, lam/body_uses_var.c). IC_Rules: the rules (interact). IC_Alo: book expansion
  (alo). IC_Wnf: the reducer with its frames, budget and bail-out, the collapse, and resolution
  (wnf/_.c, cnf/_.c, term/resolve.c).
  IC_Lambda, IC_Rep, IC_Soup, IC_Share, IC_Dup, IC_Steps, IC_Match, IC_Fuel, IC_Sound: the reducer
  evaluates. IC_Lambda is a calculus with abstraction, application, numbers, operators, short-cut connectives,
  matching, constructors of at most two fields and shared numbers, evaluated call by name; IC_Rep
  says when a word with its cells stands for a term and what writes do to that; IC_Soup, IC_Share and
  IC_Dup are the steps allowed when other words and shared cells live in the same heap; IC_Fuel: more
  fuel keeps results; IC_Steps and IC_Match: what the machine does on each node; IC_Sound puts them
  together by induction on the evaluation. Sharing is by need in the code and by name in the calculus:
  a shared cell is reduced once, and both projections read the number. Superpositions,
  duplicated functions and constructors, and the book are outside this theorem.
  IC_Limits: small nets that show where the code departs from its comments.

  Reasoning core:
  FTerm: terms as a datatype, substitution, positions, structural equality (kbo/_.c, term_eq_struct).
  Rewrite: matching, one step, bounded normalisation (rewrite/_.c); matching and steps are exact.
  Unify, Rename: unification with undo log, application, renaming (unify/_.c); termination and most
  general unifiers. CP: critical pairs (cp/_.c), sound and complete.
  Orders: the interface of an ordering to the rewriter (locales rewrite_order and reduction_order),
  interpreted on the code's comparators in KBO_Order and, through the reference ordering of Path_Order, for
  the path orders. KBO, KBO_Flat, KBO_Order: the three comparisons of kbo/_.c agree, and the reference
  is a reduction order. Flat_Term, LPO, LPO_Order, LPO_Props: lpo/_.c decides the lexicographic path order
  on pre-order arrays. Arg_Compare, RPO, WPO: rpo/_.c is exact, wpo/_.c is bounded by counts and weights.
  CC_Table, Cong_Closure, CC_Struct, CC_Props: congruence closure with its signature table (cc/_.c); every
  operation keeps the invariant, the check decides the asserted literals, pop restores.
  FOL_Formula, FOL_Skolem, FOL_CNF, FOL_Tseitin: formulas to clauses (fol/cnf.c). FOL_Clause: clauses and
  inferences (fol/_.c), sound. FOL_Sat, FOL_Sat_Props, FOL_Print: the loop and its proofs (fol/sat.c).
  FOL_Refute: a refuted formula has no model with equality.
  Prelude holds collections and generic lemmas.

  Errors. None is the end of the process: exhausted heap, full table, an array read past its end, or
  C recursion that does not fit its stack. Verdicts and status codes are datatypes.

  Bounds and fuel. Unification takes fuel: one more than the number of variable ids times the greater
  height of the two terms is enough (unify_fuel). The flat comparison of KBO takes twice the length of the array. gc_evacuate
  takes more than the number of cells of a half. For wnf_loop the number of turns depends on the program:
  IC_Sound proves that some fuel is enough whenever the term has a value, and that more gives the same result.
  Loops of the congruence closure and chains of the book are partial functions; those of the
  congruence closure are proved to end in every reachable state. Machine words keep their width; counters
  that would need 2^30 entries to wrap are natural numbers where the theory says so.

  Not modelled. The saturation engine (atp): its state is hundreds of globals and switches around
  specialised copies of the operations above. The tensor half (schedule, uop, tensor, dtype, view, codegen,
  backend, aot, jit): graphs, code generation and devices; its operations that the reducer calls are the fields of
  tensor_ops, arbitrary functions of the state. Threads (wnf/pool.c, nf.c, redex.c, util): atomics have their
  sequential meaning here. The printing of superpositions and construction of the book
  (eval, collapse, book, lam/auto_dup.c), parsers and model search (wald, wmfpa, ffmep), instrumentation, traces
  and the bindings (wl, py). Allocation failure, and the capacity of the frame stack, which the code does
  not test.
\<close>

end
